(* ===== verification/GoLib.thy ===== *)
theory GoLib
  imports Main "HOL-Library.Word" "HOL-Library.Char_ord" "HOL-Library.List_Lexorder"
    "HOL-Library.Multiset" "HOL-Library.AList" "HOL-Library.Monad_Syntax" "HOL-Library.Sublist"
begin

text \<open>
  The prelude of the development: the parts of Go and of its standard library that the modelled
  sources use, and the generic lemmas about them.

  \<^item> strings are byte sequences (\<open>string\<close>); \<open>s[a:b]\<close> is \<open>go_slice\<close>, which is \<open>None\<close> where
    Go panics; \<open>strings.Index\<close>, \<open>strings.LastIndex\<close>, \<open>strings.Split\<close> on a one-byte separator;
  \<^item> \<open>strconv.Itoa\<close> and \<open>strconv.Atoi\<close> (with Atoi's value on malformed and out-of-range input,
    since the sources drop its error);
  \<^item> \<open>uint64\<close> is \<open>64 word\<close>, Go's \<open>int\<close> is \<open>int\<close> with its 64-bit range, and the conversions between
    them are two's complement;
  \<^item> \<open>sort.Sort\<close> on slices: the insertion sort Go runs on short slices, with the contract of
    \<open>sort.Sort\<close> (a sorted permutation) as the locale \<open>go_sorting\<close>;
  \<^item> Go maps that the code ranges over: association lists in iteration order.
\<close>

named_theorems go_str \<open>evaluation and characterisation of Go string operations\<close>
named_theorems go_map \<open>lookup laws of Go maps\<close>

section \<open>Outcomes, integers\<close>

text \<open>
  How a process ends: a panic, \<open>log.Fatal\<close>; \<open>Diverge\<close> is for a call that is still retrying after the
  number of attempts considered.
\<close>

datatype go_error = Panic | Fatal | Diverge

type_synonym 'a result = "go_error + 'a"
type_synonym u64 = "64 word"

definition bindR :: "'a result \<Rightarrow> ('a \<Rightarrow> 'b result) \<Rightarrow> 'b result" where
  "bindR m f = (case m of Inl e \<Rightarrow> Inl e | Inr x \<Rightarrow> f x)"

lemma bindR_simps [simp]: "bindR (Inl e) f = Inl e" "bindR (Inr x) f = f x"
  by (simp_all add: bindR_def)

lemma map_bindR: "map_sum id h (bindR r f) = bindR r (\<lambda>x. map_sum id h (f x))"
  by (cases r) simp_all

lemma bindR_map: "bindR (map_sum id h r) g = bindR r (\<lambda>x. g (h x))"
  by (cases r) simp_all

lemma bindR_Inr_iff: "bindR m f = Inr y \<longleftrightarrow> (\<exists>x. m = Inr x \<and> f x = Inr y)"
  by (cases m) simp_all

definition panic_unless :: "'a option \<Rightarrow> 'a result" where
  "panic_unless x = (case x of None \<Rightarrow> Inl Panic | Some y \<Rightarrow> Inr y)"

lemma panic_unless_simps [simp]:
  "panic_unless None = Inl Panic" "panic_unless (Some y) = Inr y"
  by (simp_all add: panic_unless_def)

text \<open>\<open>int(x)\<close> for a \<open>uint64\<close>, and \<open>uint64(i)\<close> for an \<open>int\<close>.\<close>

definition int_of_u64 :: "u64 \<Rightarrow> int" where
  "int_of_u64 x = sint x"

definition u64_of_int :: "int \<Rightarrow> u64" where
  "u64_of_int i = word_of_int i"

lemma u64_of_int_of_u64 [simp]: "u64_of_int (int_of_u64 x) = x"
  by (simp add: u64_of_int_def int_of_u64_def)

lemma int_of_u64_range: "- (2 ^ 63) \<le> int_of_u64 x" "int_of_u64 x < 2 ^ 63"
  using sint_range_size [of x] by (simp_all add: int_of_u64_def word_size)

lemma int_of_u64_small: "unat x < 2 ^ 63 \<Longrightarrow> int_of_u64 x = int (unat x)"
proof -
  assume "unat x < 2 ^ 63"
  then have "uint x < 2 ^ 63" by (metis of_nat_less_numeral_power_cancel_iff uint_nat)
  then have "sint x = uint x"
    unfolding sint_uint by (intro signed_take_bit_int_eq_self) (simp_all add: order_trans [of _ 0])
  then show ?thesis by (simp add: int_of_u64_def)
qed

section \<open>Strings\<close>

definition go_slice :: "'a list \<Rightarrow> int \<Rightarrow> int \<Rightarrow> 'a list option" where
  "go_slice s a b =
     (if 0 \<le> a \<and> a \<le> b \<and> b \<le> int (length s) then Some (take (nat b - nat a) (drop (nat a) s))
      else None)"

definition go_slice_from :: "'a list \<Rightarrow> int \<Rightarrow> 'a list option" where
  "go_slice_from s a = go_slice s a (int (length s))"

definition occurs_at :: "string \<Rightarrow> string \<Rightarrow> nat \<Rightarrow> bool" where
  "occurs_at s sub i \<longleftrightarrow> take (length sub) (drop i s) = sub"

definition str_Index :: "string \<Rightarrow> string \<Rightarrow> int" where
  "str_Index s sub =
     (case find (occurs_at s sub) [0..<Suc (length s)] of None \<Rightarrow> -1 | Some i \<Rightarrow> int i)"

definition str_LastIndex :: "string \<Rightarrow> string \<Rightarrow> int" where
  "str_LastIndex s sub =
     (case find (occurs_at s sub) (rev [0..<Suc (length s)]) of None \<Rightarrow> -1 | Some i \<Rightarrow> int i)"

text \<open>\<open>strings.Split(s, sep)\<close> for a separator of one byte.\<close>

fun str_Split :: "char \<Rightarrow> string \<Rightarrow> string list" where
  "str_Split c [] = [[]]"
| "str_Split c (x # xs) =
     (if x = c then [] # str_Split c xs
      else (case str_Split c xs of [] \<Rightarrow> [[x]] | w # ws \<Rightarrow> (x # w) # ws))"

lemma slice_Some_iff:
  "go_slice s a b = Some t \<longleftrightarrow>
     0 \<le> a \<and> a \<le> b \<and> b \<le> int (length s) \<and> t = take (nat b - nat a) (drop (nat a) s)"
  by (auto simp: go_slice_def)

lemma slice_mid [go_str]:
  "a = int (length xs) \<Longrightarrow> b = int (length xs + length ys) \<Longrightarrow>
   go_slice (xs @ ys @ zs) a b = Some ys"
  by (simp add: go_slice_def)

lemma slice_eqI:
  "s = xs @ ys @ zs \<Longrightarrow> a = int (length xs) \<Longrightarrow> b = a + int (length ys) \<Longrightarrow> go_slice s a b = Some ys"
  by (simp add: slice_mid)

lemma slice_all [simp]: "go_slice s 0 (int (length s)) = Some s"
  by (simp add: go_slice_def)

lemma slice_from_append [go_str]: "a = int (length xs) \<Longrightarrow> go_slice_from (xs @ ys) a = Some ys"
  using slice_mid [of a xs "int (length (xs @ ys))" ys "[]"] by (simp add: go_slice_from_def)

lemma slice_from_eqI: "s = xs @ ys \<Longrightarrow> a = int (length xs) \<Longrightarrow> go_slice_from s a = Some ys"
  by (simp add: slice_from_append)

lemma length_slice: "go_slice s a b = Some t \<Longrightarrow> int (length t) = b - a"
  by (auto simp: slice_Some_iff)

lemma occurs_at_prefix: "occurs_at s sub i \<longleftrightarrow> (\<exists>xs ys. s = xs @ sub @ ys \<and> length xs = i) \<or> (sub = [] \<and> i > length s)"
proof
  assume o: "occurs_at s sub i"
  show "(\<exists>xs ys. s = xs @ sub @ ys \<and> length xs = i) \<or> (sub = [] \<and> i > length s)"
  proof (cases "i \<le> length s")
    case True
    have "s = take i s @ sub @ drop (length sub) (drop i s)"
      using o by (metis append_take_drop_id occurs_at_def)
    with True show ?thesis by (metis length_take min.absorb2)
  next
    case False
    with o show ?thesis by (auto simp: occurs_at_def)
  qed
qed (auto simp: occurs_at_def)

lemma find_first_nat:
  assumes "P i" "i < n" "\<And>j. j < i \<Longrightarrow> \<not> P j"
  shows "find P [0..<n] = Some i"
  using assms by (auto simp: find_Some_iff intro!: exI [of _ i])

lemma find_last_nat:
  assumes "P i" "i < n" "\<And>j. i < j \<Longrightarrow> j < n \<Longrightarrow> \<not> P j"
  shows "find P (rev [0..<n]) = Some i"
  using assms by (auto simp: find_Some_iff rev_nth intro!: exI [of _ "n - Suc i"])

lemma str_Index_eqI:
  assumes "occurs_at s sub i" "i \<le> length s" "\<And>j. j < i \<Longrightarrow> \<not> occurs_at s sub j"
  shows "str_Index s sub = int i"
  using find_first_nat [of "occurs_at s sub" i "Suc (length s)"] assms
  by (simp add: str_Index_def)

lemma str_LastIndex_eqI:
  assumes "occurs_at s sub i" "i \<le> length s"
    "\<And>j. i < j \<Longrightarrow> j \<le> length s \<Longrightarrow> \<not> occurs_at s sub j"
  shows "str_LastIndex s sub = int i"
  using find_last_nat [of "occurs_at s sub" i "Suc (length s)"] assms
  by (simp add: str_LastIndex_def)

lemma occurs_at_char: "occurs_at s [c] i \<longleftrightarrow> i < length s \<and> s ! i = c"
  by (cases "i < length s") (auto simp: occurs_at_def take_Suc_conv_app_nth hd_drop_conv_nth take_Suc)

lemma str_Index_char [go_str]:
  "c \<notin> set xs \<Longrightarrow> str_Index (xs @ c # ys) [c] = int (length xs)"
  by (rule str_Index_eqI) (auto simp: occurs_at_char nth_append)

lemma str_Index_charI:
  "s = xs @ c # ys \<Longrightarrow> c \<notin> set xs \<Longrightarrow> i = int (length xs) \<Longrightarrow> str_Index s [c] = i"
  by (simp add: str_Index_char)

lemma str_LastIndex_char [go_str]:
  "c \<notin> set ys \<Longrightarrow> str_LastIndex (xs @ c # ys) [c] = int (length xs)"
  by (rule str_LastIndex_eqI) (auto simp: occurs_at_char nth_append nth_Cons split: if_splits nat.splits)

lemma str_LastIndex_charI:
  "s = xs @ c # ys \<Longrightarrow> c \<notin> set ys \<Longrightarrow> i = int (length xs) \<Longrightarrow> str_LastIndex s [c] = i"
  by (simp add: str_LastIndex_char)

lemma str_Index_absent: "c \<notin> set xs \<Longrightarrow> str_Index xs [c] = -1"
  by (auto simp: str_Index_def find_None_iff occurs_at_char split: option.splits dest!: find_Some_iff [THEN iffD1])

lemma str_LastIndex_absent [go_str]: "c \<notin> set xs \<Longrightarrow> str_LastIndex xs [c] = -1"
  by (auto simp: str_LastIndex_def find_None_iff occurs_at_char split: option.splits dest!: find_Some_iff [THEN iffD1])

lemma str_Split_nonempty [simp]: "str_Split c s \<noteq> []"
  by (induction c s rule: str_Split.induct) (auto split: list.splits)

lemma str_Split_absent: "c \<notin> set s \<Longrightarrow> str_Split c s = [s]"
  by (induction s) auto

lemma str_Split_append [go_str]:
  "c \<notin> set w \<Longrightarrow> str_Split c (w @ c # s) = w # str_Split c s"
  by (induction w) auto

lemma str_Split_records:
  "(\<And>w. w \<in> set ws \<Longrightarrow> c \<notin> set w) \<Longrightarrow>
   str_Split c (concat (map (\<lambda>w. w @ [c]) ws)) = ws @ [[]]"
  by (induction ws) (auto simp: go_str)

section \<open>Decimal conversion: strconv.Itoa and strconv.Atoi\<close>

definition digit :: "nat \<Rightarrow> char" where
  "digit d = char_of (48 + d)"

definition is_digit :: "char \<Rightarrow> bool" where
  "is_digit c \<longleftrightarrow> 48 \<le> (of_char c :: nat) \<and> (of_char c :: nat) \<le> 57"

fun nat_str :: "nat \<Rightarrow> string" where
  "nat_str n = (if n < 10 then [digit n] else nat_str (n div 10) @ [digit (n mod 10)])"

declare nat_str.simps [simp del]

definition Itoa :: "int \<Rightarrow> string" where
  "Itoa i = (if i < 0 then CHR ''-'' # nat_str (nat (- i)) else nat_str (nat i))"

definition dec_val :: "string \<Rightarrow> nat" where
  "dec_val s = foldl (\<lambda>n c. 10 * n + (of_char c - 48)) 0 s"

definition clamp_int :: "int \<Rightarrow> int" where
  "clamp_int i = max (- (2 ^ 63)) (min (2 ^ 63 - 1) i)"

text \<open>
  The value \<open>Atoi\<close> returns; the sources ignore its error result. A malformed string gives 0, a
  number outside the 64-bit range gives the nearest bound.
\<close>

definition Atoi :: "string \<Rightarrow> int" where
  "Atoi s =
     (let neg = (s \<noteq> [] \<and> hd s = CHR ''-'');
          ds = (if s \<noteq> [] \<and> (hd s = CHR ''-'' \<or> hd s = CHR ''+'') then tl s else s)
      in if ds = [] \<or> \<not> list_all is_digit ds then 0
         else clamp_int (if neg then - int (dec_val ds) else int (dec_val ds)))"

lemma of_char_digit [simp]: "d < 10 \<Longrightarrow> of_char (digit d) = 48 + d"
  by (simp add: digit_def)

lemma digit_eqI: "d < 10 \<Longrightarrow> of_char c = 48 + d \<Longrightarrow> digit d = c"
  by (rule of_char_eq_iff [where 'a = nat, THEN iffD1]) simp

lemma digit_simps [simp]:
  "digit 0 = CHR ''0''" "digit (Suc 0) = CHR ''1''" "digit 2 = CHR ''2''" "digit 3 = CHR ''3''"
  "digit 4 = CHR ''4''" "digit 5 = CHR ''5''" "digit 6 = CHR ''6''" "digit 7 = CHR ''7''"
  "digit 8 = CHR ''8''" "digit 9 = CHR ''9''"
  by (rule digit_eqI; simp)+

lemma is_digit_digit [simp]: "d < 10 \<Longrightarrow> is_digit (digit d)"
  by (simp add: is_digit_def)

lemma digit_inject: "d < 10 \<Longrightarrow> e < 10 \<Longrightarrow> digit d = digit e \<longleftrightarrow> d = e"
  by (metis add_left_cancel of_char_digit)

lemma nat_str_nonempty [simp]: "nat_str n \<noteq> []"
  by (subst nat_str.simps) simp

lemma nat_str_digits: "list_all is_digit (nat_str n)"
proof (induction n rule: nat_str.induct)
  case (1 n)
  then show ?case by (subst nat_str.simps) auto
qed

lemma dec_val_snoc [simp]: "dec_val (s @ [c]) = 10 * dec_val s + (of_char c - 48)"
  by (simp add: dec_val_def)

lemma dec_val_nil [simp]: "dec_val [] = 0"
  by (simp add: dec_val_def)

lemma dec_val_nat_str [simp]: "dec_val (nat_str n) = n"
proof (induction n rule: nat_str.induct)
  case (1 n)
  show ?case
  proof (cases "n < 10")
    case True
    then show ?thesis using dec_val_snoc [of "[]" "digit n"] by (simp add: nat_str.simps [of n])
  next
    case False
    with 1 show ?thesis by (simp add: nat_str.simps [of n])
  qed
qed

lemma nat_str_inject [simp]: "nat_str m = nat_str n \<longleftrightarrow> m = n"
  by (metis dec_val_nat_str)

lemma digit_of_nat_str: "c \<in> set (nat_str n) \<Longrightarrow> is_digit c"
  using nat_str_digits [of n] by (simp add: list_all_iff)

lemma nondigit_notin_nat_str [simp]: "\<not> is_digit c \<Longrightarrow> c \<notin> set (nat_str n)"
  using digit_of_nat_str by blast

lemma is_digit_simps [simp]:
  "\<not> is_digit CHR ''-''" "\<not> is_digit CHR ''+''" "\<not> is_digit CHR ''/''" "\<not> is_digit CHR '':''"
  "\<not> is_digit CHR ''>''" "\<not> is_digit CHR 0x09" "\<not> is_digit CHR 0x0A" "\<not> is_digit CHR '' ''"
  "\<not> is_digit CHR ''r''" "\<not> is_digit CHR ''e''" "\<not> is_digit CHR ''s''" "\<not> is_digit CHR 0x00"
  by (simp_all add: is_digit_def)

lemma hd_nat_str_digit: "is_digit (hd (nat_str n))"
  using digit_of_nat_str [of "hd (nat_str n)" n] by simp

lemma Itoa_nonneg: "0 \<le> i \<Longrightarrow> Itoa i = nat_str (nat i)"
  by (simp add: Itoa_def)

lemma Itoa_of_nat [simp]: "Itoa (int n) = nat_str n"
  by (simp add: Itoa_def)

lemma Itoa_nonempty [simp]: "Itoa i \<noteq> []"
  by (simp add: Itoa_def)

lemma notin_Itoa [simp]: "\<not> is_digit c \<Longrightarrow> c \<noteq> CHR ''-'' \<Longrightarrow> c \<notin> set (Itoa i)"
  by (simp add: Itoa_def)

lemma clamp_int_id: "- (2 ^ 63) \<le> i \<Longrightarrow> i < 2 ^ 63 \<Longrightarrow> clamp_int i = i"
  by (simp add: clamp_int_def)

lemma Atoi_digits:
  assumes "ds \<noteq> []" "list_all is_digit ds"
  shows "Atoi ds = clamp_int (int (dec_val ds))"
proof -
  have "is_digit (hd ds)" using assms by (cases ds) auto
  then have "hd ds \<noteq> CHR ''-''" "hd ds \<noteq> CHR ''+''" by (auto simp: is_digit_def)
  with assms show ?thesis by (simp add: Atoi_def)
qed

lemma Atoi_Itoa:
  assumes "- (2 ^ 63) \<le> i" "i < 2 ^ 63"
  shows "Atoi (Itoa i) = i"
proof (cases "i < 0")
  case True
  with assms show ?thesis
    by (simp add: Atoi_def Itoa_def nat_str_digits clamp_int_id)
next
  case False
  with assms show ?thesis
    by (simp add: Itoa_def Atoi_digits nat_str_digits clamp_int_id)
qed

lemma Atoi_Itoa_u64 [simp]: "Atoi (Itoa (int_of_u64 x)) = int_of_u64 x"
  by (rule Atoi_Itoa) (rule int_of_u64_range)+

section \<open>sort.Sort\<close>

text \<open>
  \<open>sort.Sort\<close> promises a permutation sorted by \<open>Less\<close>, and no stability. On slices of up to twelve
  elements it is an insertion sort that swaps each element towards the front while it is less than
  its predecessor; \<open>go_sort_by\<close> is that sort, by a key. The lemmas the components use are proved
  from the promise alone, in the locale \<open>go_sorting\<close>.
\<close>

fun sift_down :: "('a \<Rightarrow> 'k::linorder) \<Rightarrow> 'a \<Rightarrow> 'a list \<Rightarrow> 'a list" where
  "sift_down key x [] = [x]"
| "sift_down key x (y # ys) = (if key x < key y then y # sift_down key x ys else x # y # ys)"

definition go_sort_by :: "('a \<Rightarrow> 'k::linorder) \<Rightarrow> 'a list \<Rightarrow> 'a list" where
  "go_sort_by key xs = rev (foldl (\<lambda>acc x. sift_down key x acc) [] xs)"

locale go_sorting =
  fixes key :: "'a \<Rightarrow> 'k::linorder" and srt :: "'a list \<Rightarrow> 'a list"
  assumes mset_srt: "mset (srt xs) = mset xs"
    and sorted_srt: "sorted (map key (srt xs))"
begin

lemma set_srt [simp]: "set (srt xs) = set xs"
  by (metis mset_srt set_mset_mset)

lemma length_srt [simp]: "length (srt xs) = length xs"
  by (metis mset_srt size_mset)

lemma srt_first_least: "srt xs = y # ys \<Longrightarrow> x \<in> set xs \<Longrightarrow> key y \<le> key x"
  using sorted_srt [of xs] set_srt [of xs] by (auto simp del: set_srt)

lemma srt_second_least:
  "srt xs = y # z # zs \<Longrightarrow> x \<in># mset xs - {#y#} \<Longrightarrow> key z \<le> key x"
proof -
  assume eq: "srt xs = y # z # zs" and "x \<in># mset xs - {#y#}"
  then have "x \<in> set (z # zs)" using mset_srt [of xs] by (metis add_mset_remove_trivial mset.simps(2) set_mset_mset)
  with eq show "key z \<le> key x" using sorted_srt [of xs] by auto
qed

lemma mset_filter_srt: "mset (filter P (srt xs)) = mset (filter P xs)"
  by (simp add: mset_filter mset_srt)

lemma sort_map_key: "sort (map key xs) = map key (srt xs)"
  by (rule properties_for_sort) (simp_all add: sorted_srt mset_srt)

end

lemma mset_sift_down: "mset (sift_down key x ys) = add_mset x (mset ys)"
  by (induction ys) auto

lemma sorted_sift_down:
  "sorted (rev (map key ys)) \<Longrightarrow> sorted (rev (map key (sift_down key x ys)))"
proof (induction ys)
  case (Cons y ys)
  have "set (sift_down key x ys) = insert x (set ys)"
    using mset_sift_down [of key x ys] by (metis set_mset_add_mset_insert set_mset_mset)
  with Cons show ?case by (auto simp: sorted_append)
qed simp

interpretation go_sort: go_sorting key "go_sort_by key" for key :: "'a \<Rightarrow> 'k::linorder"
proof
  have "mset (foldl (\<lambda>acc x. sift_down key x acc) ys xs) = mset ys + mset xs" for ys xs
    by (induction xs arbitrary: ys) (simp_all add: mset_sift_down)
  then show "mset (go_sort_by key xs) = mset xs" for xs
    by (simp add: go_sort_by_def)
  have "sorted (rev (map key ys)) \<Longrightarrow>
      sorted (rev (map key (foldl (\<lambda>acc x. sift_down key x acc) ys xs)))" for ys xs
    by (induction xs arbitrary: ys) (simp_all add: sorted_sift_down)
  from this [of "[]"] show "sorted (map key (go_sort_by key xs))" for xs
    by (simp add: go_sort_by_def rev_map)
qed

text \<open>\<open>sort.Strings\<close> and other sorts by the element itself have one possible result.\<close>

lemma go_sort_by_id [simp]: "go_sort_by (\<lambda>x. x) xs = sort xs"
  using go_sort.sort_map_key [of "\<lambda>x. x" xs] by simp

section \<open>Go maps that are ranged over\<close>

text \<open>
  An association list with distinct keys, in the order in which a \<open>range\<close> loop visits it.
\<close>

type_synonym ('k, 'v) gomap = "('k \<times> 'v) list"

definition gomap_ok :: "('k, 'v) gomap \<Rightarrow> bool" where
  "gomap_ok m \<longleftrightarrow> distinct (map fst m)"

lemma map_of_AList_update [simp, go_map]: "map_of (AList.update k v m) = (map_of m)(k \<mapsto> v)"
  by (rule update_conv')

lemma map_of_AList_delete [simp, go_map]: "map_of (AList.delete k m) = (map_of m)(k := None)"
  by (rule delete_conv')

lemma gomap_ok_update [intro, simp]: "gomap_ok m \<Longrightarrow> gomap_ok (AList.update k v m)"
  by (simp add: gomap_ok_def distinct_update)

lemma gomap_ok_delete [intro, simp]: "gomap_ok m \<Longrightarrow> gomap_ok (AList.delete k m)"
  by (simp add: gomap_ok_def distinct_delete)

lemma gomap_ok_Nil [simp]: "gomap_ok []"
  by (simp add: gomap_ok_def)

section \<open>Text logs\<close>

text \<open>
  Both servers of the file system keep a log written with \<open>log.Println\<close>: a line is the date and time
  (20 bytes), the message and a newline. \<open>stamp k\<close> is what \<open>log\<close> prints in front of the k-th line.
\<close>

abbreviation newline :: char where
  "newline \<equiv> CHR 0x0A"

abbreviation terminated :: "string \<Rightarrow> string" where
  "terminated l \<equiv> l @ [newline]"

definition stamp_ok :: "(nat \<Rightarrow> string) \<Rightarrow> bool" where
  "stamp_ok stamp \<longleftrightarrow> (\<forall>k. length (stamp k) = 20 \<and> newline \<notin> set (stamp k))"

text \<open>\<open>ReadString\<close> returns a line with its newline; an incomplete last line ends the loop.\<close>

fun read_lines :: "string \<Rightarrow> string \<Rightarrow> string list" where
  "read_lines cur [] = []"
| "read_lines cur (c # cs) =
     (if c = newline then (cur @ [c]) # read_lines [] cs else read_lines (cur @ [c]) cs)"

lemma read_lines_complete:
  "newline \<notin> set l \<Longrightarrow> read_lines cur (l @ newline # cs) = (cur @ terminated l) # read_lines [] cs"
  by (induction l arbitrary: cur) auto

lemma read_lines_terminated:
  "(\<And>l. l \<in> set ls \<Longrightarrow> newline \<notin> set l) \<Longrightarrow>
   read_lines [] (concat (map terminated ls)) = map terminated ls"
  by (induction ls) (auto simp: read_lines_complete)

text \<open>The recovery loop: every line in turn, until one of them ends the process.\<close>

fun replay_lines :: "(string \<Rightarrow> 's \<Rightarrow> 's result) \<Rightarrow> string list \<Rightarrow> 's \<Rightarrow> 's result" where
  "replay_lines f [] st = Inr st"
| "replay_lines f (l # ls) st = bindR (f l st) (replay_lines f ls)"

lemma replay_lines_append:
  "replay_lines f (xs @ ys) st = bindR (replay_lines f xs st) (replay_lines f ys)"
  by (induction xs arbitrary: st) (auto simp: bindR_def split: sum.splits)

end
