(* ===== verification/MapReduce.thy ===== *)
theory MapReduce
  imports GoLib
begin

text \<open>
  The MapReduce library of lab4 (\<open>src/lab4/src/mapreduce\<close>): \<open>common.go\<close>, \<open>common_map.go\<close>,
  \<open>common_reduce.go\<close>, \<open>master_splitmerge.go\<close> and the sequential runner of \<open>master.go\<close>.

  The disk is two name spaces: text files (inputs and the merged output) and JSON files (the
  intermediate and the reduce-output files). A JSON file is the list of \<open>KeyValue\<close>s its encoder has
  written, which is what successive \<open>Decode\<close> calls return; Go's encoder keeps every string that is
  valid UTF-8. \<open>os.OpenFile\<close> is called with \<open>O_APPEND|O_CREATE\<close> and no \<open>O_TRUNC\<close>: an existing
  file keeps its contents. Task numbers and counts, which the code only takes from loops and from
  lengths, are \<open>nat\<close>.
\<close>

unbundle bit_operations_syntax

section \<open>Data and file names (common.go)\<close>

record KeyValue =
  Key :: string
  Value :: string

record disk =
  text_files :: "string \<rightharpoonup> string"
  json_files :: "string \<rightharpoonup> KeyValue list"

type_synonym map_fun = "string \<Rightarrow> string \<Rightarrow> KeyValue list"
type_synonym reduce_fun = "string \<Rightarrow> string list \<Rightarrow> string"

definition reduceName :: "string \<Rightarrow> nat \<Rightarrow> nat \<Rightarrow> string" where
  "reduceName jobName mapTask reduceTask =
     ''mrtmp.'' @ jobName @ ''-'' @ Itoa (int mapTask) @ ''-'' @ Itoa (int reduceTask)"

definition mergeName :: "string \<Rightarrow> nat \<Rightarrow> string" where
  "mergeName jobName reduceTask = ''mrtmp.'' @ jobName @ ''-res-'' @ Itoa (int reduceTask)"

definition read_text :: "disk \<Rightarrow> string \<Rightarrow> string" where
  "read_text d f = (case text_files d f of None \<Rightarrow> '''' | Some c \<Rightarrow> c)"

definition read_json :: "disk \<Rightarrow> string \<Rightarrow> KeyValue list" where
  "read_json d f = (case json_files d f of None \<Rightarrow> [] | Some kvs \<Rightarrow> kvs)"

definition open_append :: "string \<Rightarrow> disk \<Rightarrow> disk" where
  "open_append f d = d\<lparr>json_files := (json_files d)(f \<mapsto> read_json d f)\<rparr>"

definition encode_to :: "string \<Rightarrow> KeyValue \<Rightarrow> disk \<Rightarrow> disk" where
  "encode_to f kv d = d\<lparr>json_files := (json_files d)(f \<mapsto> read_json d f @ [kv])\<rparr>"

section \<open>Map tasks (common_map.go)\<close>

definition fnv32a :: "string \<Rightarrow> 32 word" where
  "fnv32a s = foldl (\<lambda>h c. (h XOR of_nat (of_char c)) * 16777619) 2166136261 s"

definition ihash :: "string \<Rightarrow> nat" where
  "ihash s = unat (fnv32a s AND 0x7fffffff)"

fun doMap_open :: "string \<Rightarrow> nat \<Rightarrow> nat \<Rightarrow> disk \<Rightarrow> disk" where
  "doMap_open jobName mapTask 0 d = d"
| "doMap_open jobName mapTask (Suc i) d =
     open_append (reduceName jobName mapTask i) (doMap_open jobName mapTask i d)"

text \<open>With \<open>nReduce = 0\<close> the remainder of the hash is a division by zero: a panic.\<close>

fun doMap_emit :: "string \<Rightarrow> nat \<Rightarrow> nat \<Rightarrow> KeyValue list \<Rightarrow> disk \<Rightarrow> disk result" where
  "doMap_emit jobName mapTask nReduce [] d = Inr d"
| "doMap_emit jobName mapTask nReduce (kv # kvs) d =
     (if nReduce = 0 then Inl Panic
      else let r = ihash (Key kv) mod nReduce
           in doMap_emit jobName mapTask nReduce kvs
                (encode_to (reduceName jobName mapTask r) kv d))"

definition doMap :: "string \<Rightarrow> nat \<Rightarrow> string \<Rightarrow> nat \<Rightarrow> map_fun \<Rightarrow> disk \<Rightarrow> disk result" where
  "doMap jobName mapTask inFile nReduce mapF d =
     (let kvpairs = mapF inFile (read_text d inFile)
      in doMap_emit jobName mapTask nReduce kvpairs (doMap_open jobName mapTask nReduce d))"

section \<open>Reduce tasks (common_reduce.go)\<close>

definition collect_pairs :: "string \<Rightarrow> nat \<Rightarrow> nat \<Rightarrow> disk \<Rightarrow> KeyValue list" where
  "collect_pairs jobName reduceTask nMap d =
     concat (map (\<lambda>m. read_json d (reduceName jobName m reduceTask)) [0..<nMap])"

definition reduce_pair :: "reduce_fun \<Rightarrow> string \<Rightarrow> string list \<Rightarrow> KeyValue" where
  "reduce_pair reduceF k values = \<lparr>Key = k, Value = reduceF k (sort values)\<rparr>"

text \<open>The loop over the sorted pairs: index, \<open>currKey\<close>, \<open>values\<close>, and what has been encoded.\<close>

fun reduce_loop ::
    "reduce_fun \<Rightarrow> nat \<Rightarrow> string \<Rightarrow> string list \<Rightarrow> KeyValue list \<Rightarrow> KeyValue list \<Rightarrow> KeyValue list" where
  "reduce_loop reduceF i currKey values out [] = out @ [reduce_pair reduceF currKey values]"
| "reduce_loop reduceF i currKey values out (kv # kvs) =
     (if i = 0 then reduce_loop reduceF (Suc i) (Key kv) (values @ [Value kv]) out kvs
      else if currKey = Key kv then
        reduce_loop reduceF (Suc i) currKey (values @ [Value kv]) out kvs
      else reduce_loop reduceF (Suc i) (Key kv) [Value kv]
             (out @ [reduce_pair reduceF currKey values]) kvs)"

definition doReduce :: "string \<Rightarrow> nat \<Rightarrow> string \<Rightarrow> nat \<Rightarrow> reduce_fun \<Rightarrow> disk \<Rightarrow> disk" where
  "doReduce jobName reduceTask outFile nMap reduceF d =
     (let kvpairs = go_sort_by Key (collect_pairs jobName reduceTask nMap d);
          out = reduce_loop reduceF 0 '''' [] [] kvpairs
      in fold (encode_to outFile) out (open_append outFile d))"

section \<open>The master: merge, clean-up and the sequential run\<close>

record Master =
  address :: string
  workers :: "string list"
  jobName :: string
  files :: "string list"
  nReduce :: nat
  stats :: "nat list"

definition newMaster :: "string \<Rightarrow> Master" where
  "newMaster master =
     \<lparr>address = master, workers = [], jobName = '''', files = [], nReduce = 0, stats = []\<rparr>"

fun merge_read :: "string \<Rightarrow> nat list \<Rightarrow> disk \<Rightarrow> (string, string) gomap \<Rightarrow> (string, string) gomap result" where
  "merge_read job [] d kvs = Inr kvs"
| "merge_read job (i # is) d kvs =
     (case json_files d (mergeName job i) of
        None \<Rightarrow> Inl Fatal
      | Some ps \<Rightarrow> merge_read job is d (foldl (\<lambda>m kv. AList.update (Key kv) (Value kv) m) kvs ps))"

definition render_line :: "string \<Rightarrow> string \<Rightarrow> string" where
  "render_line k v = k @ '': '' @ v @ [CHR 0x0A]"

definition merge_output :: "Master \<Rightarrow> disk \<Rightarrow> disk result" where
  "merge_output mr d =
     bindR (merge_read (jobName mr) [0..<nReduce mr] d [])
       (\<lambda>kvs. let keys = sort (map fst kvs)
              in Inr (d\<lparr>text_files := (text_files d)(''mrtmp.'' @ jobName mr \<mapsto>
                   concat (map (\<lambda>k. render_line k (the (map_of kvs k))) keys))\<rparr>))"

definition removeFile :: "string \<Rightarrow> disk \<Rightarrow> disk result" where
  "removeFile n d =
     (if text_files d n = None \<and> json_files d n = None then Inl Fatal
      else Inr (d\<lparr>text_files := (text_files d)(n := None), json_files := (json_files d)(n := None)\<rparr>))"

fun removeFiles :: "string list \<Rightarrow> disk \<Rightarrow> disk result" where
  "removeFiles [] d = Inr d"
| "removeFiles (n # ns) d = bindR (removeFile n d) (removeFiles ns)"

definition CleanupFiles :: "Master \<Rightarrow> disk \<Rightarrow> disk result" where
  "CleanupFiles mr =
     removeFiles
       (concat (map (\<lambda>i. map (reduceName (jobName mr) i) [0..<nReduce mr]) [0..<length (files mr)])
        @ map (mergeName (jobName mr)) [0..<nReduce mr] @ [''mrtmp.'' @ jobName mr])"

datatype jobPhase = mapPhase | reducePhase

fun map_phase :: "string \<Rightarrow> nat \<Rightarrow> string list \<Rightarrow> nat \<Rightarrow> map_fun \<Rightarrow> disk \<Rightarrow> disk result" where
  "map_phase job i [] n mapF d = Inr d"
| "map_phase job i (f # fs) n mapF d =
     bindR (doMap job i f n mapF d) (map_phase job (Suc i) fs n mapF)"

definition reduce_phase :: "string \<Rightarrow> nat \<Rightarrow> nat \<Rightarrow> reduce_fun \<Rightarrow> disk \<Rightarrow> disk" where
  "reduce_phase job nMap n reduceF d =
     fold (\<lambda>i. doReduce job i (mergeName job i) nMap reduceF) [0..<n] d"

text \<open>\<open>run\<close>: the two phases through the given scheduler, then \<open>finish\<close>, then the merge.\<close>

definition run_job ::
    "Master \<Rightarrow> string \<Rightarrow> string list \<Rightarrow> nat \<Rightarrow> (Master \<Rightarrow> jobPhase \<Rightarrow> disk \<Rightarrow> disk result) \<Rightarrow>
     (Master \<Rightarrow> Master) \<Rightarrow> disk \<Rightarrow> (Master \<times> disk) result" where
  "run_job mr0 job fs nreduce schedule finish d =
     (let mr = mr0\<lparr>jobName := job, files := fs, nReduce := nreduce\<rparr>
      in bindR (schedule mr mapPhase d)
           (\<lambda>d1. bindR (schedule mr reducePhase d1)
             (\<lambda>d2. let mr' = finish mr
                   in bindR (merge_output mr' d2) (\<lambda>d3. Inr (mr', d3)))))"

definition seq_schedule :: "map_fun \<Rightarrow> reduce_fun \<Rightarrow> Master \<Rightarrow> jobPhase \<Rightarrow> disk \<Rightarrow> disk result" where
  "seq_schedule mapF reduceF mr phase d =
     (case phase of
        mapPhase \<Rightarrow> map_phase (jobName mr) 0 (files mr) (nReduce mr) mapF d
      | reducePhase \<Rightarrow> Inr (reduce_phase (jobName mr) (length (files mr)) (nReduce mr) reduceF d))"

definition Sequential ::
    "string \<Rightarrow> string list \<Rightarrow> nat \<Rightarrow> map_fun \<Rightarrow> reduce_fun \<Rightarrow> disk \<Rightarrow> (Master \<times> disk) result" where
  "Sequential job fs nreduce mapF reduceF d =
     run_job (newMaster ''master'') job fs nreduce (seq_schedule mapF reduceF)
       (\<lambda>mr. mr\<lparr>stats := [length fs + nreduce]\<rparr>) d"

section \<open>File names are distinct\<close>

lemma reduceName_inject [simp]:
  "reduceName j m r = reduceName j m' r' \<longleftrightarrow> m = m' \<and> r = r'"
proof
  assume "reduceName j m r = reduceName j m' r'"
  then have eq: "nat_str m @ CHR ''-'' # nat_str r = nat_str m' @ CHR ''-'' # nat_str r'"
    by (simp add: reduceName_def)
  have "nat_str m = nat_str m' \<and> nat_str r = nat_str r'"
    by (rule append_Cons_eq_iff [THEN iffD1, OF _ _ eq]) simp_all
  then show "m = m' \<and> r = r'" by simp
qed simp

lemma mergeName_inject [simp]: "mergeName j r = mergeName j r' \<longleftrightarrow> r = r'"
  by (simp add: mergeName_def)

lemma reduceName_neq_mergeName [simp]:
  "reduceName j m r \<noteq> mergeName j r'" "mergeName j r' \<noteq> reduceName j m r"
proof -
  show "reduceName j m r \<noteq> mergeName j r'"
  proof
    assume "reduceName j m r = mergeName j r'"
    then have "nat_str m @ CHR ''-'' # nat_str r = ''res-'' @ nat_str r'"
      by (simp add: reduceName_def mergeName_def)
    then have "hd (nat_str m) = CHR ''r''"
      by (metis append_Cons hd_append list.sel(1) nat_str_nonempty)
    with hd_nat_str_digit [of m] show False by simp
  qed
  then show "mergeName j r' \<noteq> reduceName j m r" by metis
qed

section \<open>Disk lemmas\<close>

lemma disk_eqI:
  fixes d d' :: disk
  shows "text_files d = text_files d' \<Longrightarrow> (\<And>f. json_files d f = json_files d' f) \<Longrightarrow> d = d'"
  by (cases d; cases d') (auto simp: fun_eq_iff)

lemma read_json_open_append [simp]: "read_json (open_append f d) g = read_json d g"
  by (simp add: open_append_def read_json_def)

lemma read_json_encode_to [simp]:
  "read_json (encode_to f kv d) g = (if g = f then read_json d f @ [kv] else read_json d g)"
  by (simp add: encode_to_def read_json_def)

lemma text_files_writes [simp]:
  "text_files (open_append f d) = text_files d" "text_files (encode_to f kv d) = text_files d"
  by (simp_all add: open_append_def encode_to_def)

lemma dom_json_writes [simp]:
  "dom (json_files (open_append f d)) = insert f (dom (json_files d))"
  "dom (json_files (encode_to f kv d)) = insert f (dom (json_files d))"
  by (auto simp: open_append_def encode_to_def)

lemma json_files_read: "f \<in> dom (json_files d) \<Longrightarrow> json_files d f = Some (read_json d f)"
  by (auto simp: read_json_def)

lemma read_json_fold_encode [simp]:
  "read_json (fold (encode_to f) kvs d) g = (if g = f then read_json d f @ kvs else read_json d g)"
  by (induction kvs arbitrary: d) auto

lemma text_files_fold_encode [simp]: "text_files (fold (encode_to f) kvs d) = text_files d"
  by (induction kvs arbitrary: d) auto

lemma dom_json_fold_encode:
  "dom (json_files (fold (encode_to f) kvs d)) = (if kvs = [] then dom (json_files d) else insert f (dom (json_files d)))"
  by (induction kvs arbitrary: d) auto

section \<open>Map tasks partition their pairs by hash\<close>

definition bucket :: "nat \<Rightarrow> nat \<Rightarrow> KeyValue list \<Rightarrow> KeyValue list" where
  "bucket n r kvs = filter (\<lambda>kv. ihash (Key kv) mod n = r) kvs"

lemma bucket_Nil [simp]: "bucket n r [] = []"
  by (simp add: bucket_def)

lemma bucket_append [simp]: "bucket n r (xs @ ys) = bucket n r xs @ bucket n r ys"
  by (simp add: bucket_def)

lemma set_bucket: "set (bucket n r kvs) = {kv \<in> set kvs. ihash (Key kv) mod n = r}"
  by (auto simp: bucket_def)

lemma ihash_bound: "ihash s < 2 ^ 31"
proof -
  have "fnv32a s AND 0x7fffffff \<le> (0x7fffffff :: 32 word)"
    by (rule word_and_le1)
  then show ?thesis by (simp add: ihash_def word_le_nat_alt)
qed

lemma read_json_doMap_open [simp]: "read_json (doMap_open j m n d) f = read_json d f"
  by (induction n) simp_all

lemma text_files_doMap_open [simp]: "text_files (doMap_open j m n d) = text_files d"
  by (induction n) simp_all

lemma dom_json_doMap_open:
  "dom (json_files (doMap_open j m n d)) = dom (json_files d) \<union> reduceName j m ` {..<n}"
  by (induction n) (auto simp: lessThan_Suc)

lemma doMap_emit_ok:
  assumes "0 < n"
  shows "\<exists>d'. doMap_emit j m n kvs d = Inr d' \<and> text_files d' = text_files d \<and>
           (\<forall>f. read_json d' f =
              (if f \<in> reduceName j m ` {..<n}
               then read_json d f @ filter (\<lambda>kv. reduceName j m (ihash (Key kv) mod n) = f) kvs
               else read_json d f)) \<and>
           dom (json_files d) \<subseteq> dom (json_files d') \<and>
           dom (json_files d') \<subseteq> dom (json_files d) \<union> reduceName j m ` {..<n}"
proof (induction kvs arbitrary: d)
  case Nil
  then show ?case by simp
next
  case (Cons kv kvs)
  let ?r = "ihash (Key kv) mod n"
  let ?d = "encode_to (reduceName j m ?r) kv d"
  have r: "?r < n" using assms by simp
  obtain d' where d': "doMap_emit j m n kvs ?d = Inr d'" "text_files d' = text_files ?d"
    "\<And>f. read_json d' f = (if f \<in> reduceName j m ` {..<n}
               then read_json ?d f @ filter (\<lambda>kv. reduceName j m (ihash (Key kv) mod n) = f) kvs
               else read_json ?d f)"
    "dom (json_files ?d) \<subseteq> dom (json_files d')"
    "dom (json_files d') \<subseteq> dom (json_files ?d) \<union> reduceName j m ` {..<n}"
    using Cons.IH [of ?d] by blast
  show ?case
  proof (intro exI conjI allI)
    show "doMap_emit j m n (kv # kvs) d = Inr d'"
      using assms d'(1) by (simp add: Let_def)
    show "text_files d' = text_files d" using d'(2) by simp
    show "dom (json_files d) \<subseteq> dom (json_files d')" using d'(4) by auto
    show "dom (json_files d') \<subseteq> dom (json_files d) \<union> reduceName j m ` {..<n}"
      using d'(5) r by auto
    show "read_json d' f = (if f \<in> reduceName j m ` {..<n}
               then read_json d f @ filter (\<lambda>kv. reduceName j m (ihash (Key kv) mod n) = f) (kv # kvs)
               else read_json d f)" for f
      using d'(3) [of f] r by auto
  qed
qed

lemma filter_reduceName:
  "filter (\<lambda>kv. reduceName j m (ihash (Key kv) mod n) = reduceName j m r) kvs = bucket n r kvs"
  by (simp add: bucket_def)

lemma doMap_ok:
  assumes "0 < n"
  obtains d' where "doMap j m f n mapF d = Inr d'" "text_files d' = text_files d"
    "\<And>r. r < n \<Longrightarrow> json_files d' (reduceName j m r) =
            Some (read_json d (reduceName j m r) @ bucket n r (mapF f (read_text d f)))"
    "\<And>g. g \<notin> reduceName j m ` {..<n} \<Longrightarrow> json_files d' g = json_files d g"
proof -
  let ?kvs = "mapF f (read_text d f)" and ?d0 = "doMap_open j m n d"
  obtain d' where d': "doMap_emit j m n ?kvs ?d0 = Inr d'" "text_files d' = text_files ?d0"
    "\<And>g. read_json d' g = (if g \<in> reduceName j m ` {..<n}
               then read_json ?d0 g @ filter (\<lambda>kv. reduceName j m (ihash (Key kv) mod n) = g) ?kvs
               else read_json ?d0 g)"
    "dom (json_files ?d0) \<subseteq> dom (json_files d')"
    "dom (json_files d') \<subseteq> dom (json_files ?d0) \<union> reduceName j m ` {..<n}"
    using doMap_emit_ok [OF assms, of j m ?kvs ?d0] by blast
  show ?thesis
  proof (rule that)
    show "doMap j m f n mapF d = Inr d'" using d'(1) by (simp add: doMap_def Let_def)
    show "text_files d' = text_files d" using d'(2) by simp
    show "json_files d' (reduceName j m r) =
            Some (read_json d (reduceName j m r) @ bucket n r ?kvs)" if "r < n" for r
    proof -
      have "reduceName j m r \<in> dom (json_files d')"
        using d'(4) that by (auto simp: dom_json_doMap_open)
      from json_files_read [OF this] show ?thesis
        using that by (simp add: d'(3) bucket_def)
    qed
    show "json_files d' g = json_files d g" if "g \<notin> reduceName j m ` {..<n}" for g
    proof (cases "g \<in> dom (json_files d)")
      case True
      then have "g \<in> dom (json_files d')" using d'(4) by (auto simp: dom_json_doMap_open)
      with True that show ?thesis by (simp add: json_files_read d'(3))
    next
      case False
      with that d'(5) have "g \<notin> dom (json_files d')" by (auto simp: dom_json_doMap_open)
      with False show ?thesis by (simp add: domIff)
    qed
  qed
qed

section \<open>Reduce tasks group by key\<close>

text \<open>The specification: one output per distinct key, in key order, over the sorted values.\<close>

definition values_of :: "KeyValue list \<Rightarrow> string \<Rightarrow> string list" where
  "values_of kvs k = map Value (filter (\<lambda>kv. Key kv = k) kvs)"

definition reduce_spec :: "reduce_fun \<Rightarrow> KeyValue list \<Rightarrow> KeyValue list" where
  "reduce_spec reduceF kvs =
     map (\<lambda>k. reduce_pair reduceF k (values_of kvs k)) (sorted_list_of_set (Key ` set kvs))"

lemma values_of_Cons:
  "values_of (kv # kvs) k = (if Key kv = k then Value kv # values_of kvs k else values_of kvs k)"
  by (simp add: values_of_def)

lemma values_of_Nil [simp]: "values_of [] k = []"
  by (simp add: values_of_def)

lemma values_of_append [simp]: "values_of (xs @ ys) k = values_of xs k @ values_of ys k"
  by (simp add: values_of_def)

lemma values_of_absent: "k \<notin> Key ` set kvs \<Longrightarrow> values_of kvs k = []"
  by (auto simp: values_of_def filter_empty_conv)

lemma mset_values_of: "mset xs = mset ys \<Longrightarrow> mset (values_of xs k) = mset (values_of ys k)"
  by (simp add: values_of_def)

lemma reduce_pair_perm:
  "mset vs = mset ws \<Longrightarrow> reduce_pair reduceF k vs = reduce_pair reduceF k ws"
  using sorted_list_of_multiset_mset [of vs] sorted_list_of_multiset_mset [of ws]
  by (simp add: reduce_pair_def)

lemma strict_sorted_remdups_adj:
  fixes xs :: "'a::linorder list"
  shows "sorted xs \<Longrightarrow> sorted_wrt (<) (remdups_adj xs)"
  by (induction xs rule: remdups_adj.induct) (auto simp: order.strict_iff_order)

lemma remdups_adj_sorted:
  fixes xs :: "'a::linorder list"
  assumes "sorted xs"
  shows "remdups_adj xs = sorted_list_of_set (set xs)"
  by (rule strict_sorted_equal)
     (simp_all add: strict_sorted_remdups_adj [OF assms])

lemma reduce_loop_running:
  assumes "sorted (map Key kvs)" "\<And>kv. kv \<in> set kvs \<Longrightarrow> ck \<le> Key kv"
  shows "reduce_loop rf (Suc i) ck vs out kvs =
    out @ map (\<lambda>k. reduce_pair rf k ((if k = ck then vs else []) @ values_of kvs k))
              (remdups_adj (ck # map Key kvs))"
  using assms
proof (induction kvs arbitrary: i ck vs out)
  case Nil
  then show ?case by simp
next
  case (Cons kv kvs)
  show ?case
  proof (cases "ck = Key kv")
    case True
    then show ?thesis using Cons.prems
      by (subst reduce_loop.simps) (auto simp: Cons.IH values_of_Cons intro!: arg_cong [where f = "map _"])
  next
    case False
    with Cons.prems(2) [of kv] have lt: "ck < Key kv" by simp
    with Cons.prems have above: "\<And>k. k \<in> set (remdups_adj (Key kv # map Key kvs)) \<Longrightarrow> ck < k"
      by (auto simp: less_le_trans)
    have "values_of (kv # kvs) ck = []"
      by (rule values_of_absent) (use Cons.prems(1) lt in force)
    moreover have "map (\<lambda>k. reduce_pair rf k ((if k = Key kv then [Value kv] else []) @ values_of kvs k))
                       (remdups_adj (Key kv # map Key kvs)) =
                   map (\<lambda>k. reduce_pair rf k ((if k = ck then vs else []) @ values_of (kv # kvs) k))
                       (remdups_adj (Key kv # map Key kvs))"
    proof (rule map_cong [OF refl])
      fix k assume "k \<in> set (remdups_adj (Key kv # map Key kvs))"
      then have "k \<noteq> ck" using above by blast
      then show "reduce_pair rf k ((if k = Key kv then [Value kv] else []) @ values_of kvs k) =
          reduce_pair rf k ((if k = ck then vs else []) @ values_of (kv # kvs) k)"
        by (simp add: values_of_Cons)
    qed
    ultimately show ?thesis using False Cons.prems
      by (simp add: Cons.IH)
  qed
qed

lemma reduce_loop_spec:
  assumes "sorted (map Key kvs)" "kvs \<noteq> []"
  shows "reduce_loop rf 0 '''' [] [] kvs = reduce_spec rf kvs"
proof -
  obtain kv rest where kvs: "kvs = kv # rest" using assms(2) by (cases kvs) auto
  have "reduce_loop rf 0 '''' [] [] kvs =
      map (\<lambda>k. reduce_pair rf k ((if k = Key kv then [Value kv] else []) @ values_of rest k))
              (remdups_adj (map Key kvs))"
    using assms(1) by (simp add: kvs reduce_loop_running)
  also have "\<dots> = map (\<lambda>k. reduce_pair rf k (values_of kvs k)) (remdups_adj (map Key kvs))"
    by (rule map_cong) (simp_all add: kvs values_of_Cons)
  also have "remdups_adj (map Key kvs) = sorted_list_of_set (Key ` set kvs)"
    using remdups_adj_sorted [OF assms(1)] by simp
  finally show ?thesis by (simp add: reduce_spec_def)
qed

lemma reduce_spec_perm: "mset xs = mset ys \<Longrightarrow> reduce_spec rf xs = reduce_spec rf ys"
proof -
  assume eq: "mset xs = mset ys"
  then have "set xs = set ys" by (metis set_mset_mset)
  moreover have "reduce_pair rf k (values_of xs k) = reduce_pair rf k (values_of ys k)" for k
    by (rule reduce_pair_perm) (rule mset_values_of [OF eq])
  ultimately show ?thesis by (simp add: reduce_spec_def)
qed

text \<open>What a reduce task appends to its output file.\<close>

definition reduce_output :: "reduce_fun \<Rightarrow> KeyValue list \<Rightarrow> KeyValue list" where
  "reduce_output reduceF kvs =
     (if kvs = [] then [reduce_pair reduceF '''' []] else reduce_spec reduceF kvs)"

lemma reduce_loop_output:
  "reduce_loop rf 0 '''' [] [] (go_sort_by Key kvs) = reduce_output rf kvs"
proof (cases "kvs = []")
  case True
  then show ?thesis by (simp add: reduce_output_def go_sort_by_def)
next
  case False
  then have "go_sort_by Key kvs \<noteq> []"
    using go_sort.length_srt [of Key kvs] by (metis length_0_conv)
  then have "reduce_loop rf 0 '''' [] [] (go_sort_by Key kvs) = reduce_spec rf (go_sort_by Key kvs)"
    by (rule reduce_loop_spec [OF go_sort.sorted_srt])
  also have "\<dots> = reduce_spec rf kvs"
    by (rule reduce_spec_perm) (rule go_sort.mset_srt)
  finally show ?thesis using False by (simp add: reduce_output_def)
qed

lemma doReduce_read:
  "read_json (doReduce j r outFile nMap rf d) f =
     (if f = outFile then read_json d f @ reduce_output rf (collect_pairs j r nMap d)
      else read_json d f)"
  by (simp add: doReduce_def Let_def reduce_loop_output)

lemma doReduce_text [simp]: "text_files (doReduce j r outFile nMap rf d) = text_files d"
  by (simp add: doReduce_def Let_def)

lemma doReduce_dom [simp]:
  "dom (json_files (doReduce j r outFile nMap rf d)) = insert outFile (dom (json_files d))"
  by (auto simp: doReduce_def Let_def dom_json_fold_encode)

section \<open>The two phases\<close>

definition job_pairs :: "map_fun \<Rightarrow> disk \<Rightarrow> string list \<Rightarrow> KeyValue list" where
  "job_pairs mapF d fs = concat (map (\<lambda>f. mapF f (read_text d f)) fs)"

lemma job_pairs_Nil [simp]: "job_pairs mapF d [] = []"
  by (simp add: job_pairs_def)

lemma read_text_cong: "text_files d' = text_files d \<Longrightarrow> read_text d' = read_text d"
  by (simp add: read_text_def fun_eq_iff)

definition fresh_job :: "string \<Rightarrow> disk \<Rightarrow> bool" where
  "fresh_job j d \<longleftrightarrow>
     (\<forall>m r. json_files d (reduceName j m r) = None \<and> text_files d (reduceName j m r) = None) \<and>
     (\<forall>r. json_files d (mergeName j r) = None \<and> text_files d (mergeName j r) = None) \<and>
     json_files d (''mrtmp.'' @ j) = None"

lemma map_phase_ok:
  assumes "0 < n" "\<And>k r. i \<le> k \<Longrightarrow> json_files d (reduceName j k r) = None"
  shows "\<exists>d'. map_phase j i fs n mapF d = Inr d' \<and> text_files d' = text_files d \<and>
    (\<forall>k r. k < length fs \<longrightarrow> r < n \<longrightarrow>
       json_files d' (reduceName j (i + k) r) =
         Some (bucket n r (mapF (fs ! k) (read_text d (fs ! k))))) \<and>
    (\<forall>g. (\<forall>k r. k < length fs \<longrightarrow> r < n \<longrightarrow> g \<noteq> reduceName j (i + k) r) \<longrightarrow>
       json_files d' g = json_files d g)"
  using assms(2)
proof (induction fs arbitrary: i d)
  case Nil
  then show ?case by simp
next
  case (Cons f fs)
  obtain d1 where d1: "doMap j i f n mapF d = Inr d1" "text_files d1 = text_files d"
    "\<And>r. r < n \<Longrightarrow> json_files d1 (reduceName j i r) =
            Some (read_json d (reduceName j i r) @ bucket n r (mapF f (read_text d f)))"
    "\<And>g. g \<notin> reduceName j i ` {..<n} \<Longrightarrow> json_files d1 g = json_files d g"
    by (rule doMap_ok [OF assms(1), of j i f mapF d]) blast
  have rt: "read_text d1 = read_text d" by (rule read_text_cong [OF d1(2)])
  have "\<And>k r. Suc i \<le> k \<Longrightarrow> json_files d1 (reduceName j k r) = None"
    using Cons.prems by (subst d1(4)) auto
  from Cons.IH [OF this] obtain d' where d': "map_phase j (Suc i) fs n mapF d1 = Inr d'"
    "text_files d' = text_files d1"
    "\<And>k r. k < length fs \<Longrightarrow> r < n \<Longrightarrow> json_files d' (reduceName j (Suc i + k) r) =
         Some (bucket n r (mapF (fs ! k) (read_text d1 (fs ! k))))"
    "\<And>g. (\<And>k r. k < length fs \<Longrightarrow> r < n \<Longrightarrow> g \<noteq> reduceName j (Suc i + k) r) \<Longrightarrow>
       json_files d' g = json_files d1 g"
    by metis
  show ?case
  proof (intro exI conjI allI impI)
    show "map_phase j i (f # fs) n mapF d = Inr d'" using d1(1) d'(1) by simp
    show "text_files d' = text_files d" using d1(2) d'(2) by simp
    fix k r assume k: "k < length (f # fs)" and r: "r < n"
    show "json_files d' (reduceName j (i + k) r) =
       Some (bucket n r (mapF ((f # fs) ! k) (read_text d ((f # fs) ! k))))"
    proof (cases k)
      case 0
      have "json_files d' (reduceName j i r) = json_files d1 (reduceName j i r)"
        by (rule d'(4)) auto
      with 0 r Cons.prems [of i r] show ?thesis by (simp add: d1(3) read_json_def)
    next
      case (Suc k')
      with k r d'(3) [of k' r] show ?thesis by (simp add: rt)
    qed
  next
    fix g assume g: "\<forall>k r. k < length (f # fs) \<longrightarrow> r < n \<longrightarrow> g \<noteq> reduceName j (i + k) r"
    have "json_files d' g = json_files d1 g" by (rule d'(4)) (use g [rule_format, of "Suc _"] in simp)
    also have "\<dots> = json_files d g" using g [rule_format, of 0] by (intro d1(4)) auto
    finally show "json_files d' g = json_files d g" .
  qed
qed

lemma collect_pairs_cong:
  "(\<And>m. m < nMap \<Longrightarrow> read_json d' (reduceName j m r) = read_json d (reduceName j m r)) \<Longrightarrow>
   collect_pairs j r nMap d' = collect_pairs j r nMap d"
  unfolding collect_pairs_def by (rule arg_cong [where f = concat]) (rule map_cong, simp_all)

lemma fold_doReduce:
  assumes "distinct is"
  shows "read_json (fold (\<lambda>i. doReduce j i (mergeName j i) nMap rf) is d) g =
     (case find (\<lambda>i. mergeName j i = g) is of
        None \<Rightarrow> read_json d g
      | Some i \<Rightarrow> read_json d g @ reduce_output rf (collect_pairs j i nMap d))"
  using assms
proof (induction "is" arbitrary: d)
  case (Cons i "is")
  let ?d = "doReduce j i (mergeName j i) nMap rf d"
  have cp: "collect_pairs j r nMap ?d = collect_pairs j r nMap d" for r
    by (rule collect_pairs_cong) (simp add: doReduce_read)
  show ?case
  proof (cases "g = mergeName j i")
    case True
    then have "find (\<lambda>r. mergeName j r = g) is = None"
      using Cons.prems by (auto simp: find_None_iff)
    with True Cons show ?thesis by (simp add: doReduce_read)
  next
    case False
    then have "read_json ?d g = read_json d g" by (simp add: doReduce_read)
    with False Cons show ?thesis by (simp add: cp split: option.split)
  qed
qed simp

lemma reduce_phase_read:
  assumes "r < n"
  shows "read_json (reduce_phase j nMap n rf d) (mergeName j r) =
    read_json d (mergeName j r) @ reduce_output rf (collect_pairs j r nMap d)"
proof -
  have "find (\<lambda>i. mergeName j i = mergeName j r) [0..<n] = Some r"
    using assms by (intro find_first_nat) auto
  then show ?thesis
    using fold_doReduce [of "[0..<n]" j nMap rf d "mergeName j r"]
    by (simp add: reduce_phase_def)
qed

lemma reduce_phase_text [simp]: "text_files (reduce_phase j nMap n rf d) = text_files d"
  unfolding reduce_phase_def by (induction n) simp_all

lemma reduce_phase_dom:
  "dom (json_files (reduce_phase j nMap n rf d)) = dom (json_files d) \<union> mergeName j ` {..<n}"
  unfolding reduce_phase_def by (induction n) (auto simp: lessThan_Suc)

lemma json_files_cong:
  "g \<in> dom (json_files d') \<longleftrightarrow> g \<in> dom (json_files d) \<Longrightarrow> read_json d' g = read_json d g \<Longrightarrow>
   json_files d' g = json_files d g"
  by (auto simp: read_json_def dom_def split: option.splits)

lemma reduce_phase_frame:
  assumes "\<And>r. r < n \<Longrightarrow> g \<noteq> mergeName j r"
  shows "json_files (reduce_phase j nMap n rf d) g = json_files d g"
proof (rule json_files_cong)
  show "g \<in> dom (json_files (reduce_phase j nMap n rf d)) \<longleftrightarrow> g \<in> dom (json_files d)"
    unfolding reduce_phase_dom using assms by auto
  have "find (\<lambda>i. mergeName j i = g) [0..<n] = None" using assms by (auto simp: find_None_iff)
  then show "read_json (reduce_phase j nMap n rf d) g = read_json d g"
    using fold_doReduce [of "[0..<n]" j nMap rf d g] by (simp add: reduce_phase_def)
qed

section \<open>Merging\<close>

definition kv_update :: "(string, string) gomap \<Rightarrow> KeyValue \<Rightarrow> (string, string) gomap" where
  "kv_update m kv = AList.update (Key kv) (Value kv) m"

lemma merge_read_ok:
  "(\<And>i. i \<in> set is \<Longrightarrow> mergeName j i \<in> dom (json_files d)) \<Longrightarrow>
   merge_read j is d m =
     Inr (foldl kv_update m (concat (map (\<lambda>i. read_json d (mergeName j i)) is)))"
proof (induction "is" arbitrary: m)
  case (Cons i "is")
  then have "json_files d (mergeName j i) = Some (read_json d (mergeName j i))"
    by (intro json_files_read) simp
  with Cons show ?case by (simp add: kv_update_def [abs_def])
qed simp

lemma merge_read_missing:
  "i \<in> set is \<Longrightarrow> json_files d (mergeName j i) = None \<Longrightarrow> merge_read j is d m = Inl Fatal"
  by (induction "is" arbitrary: m) (auto split: option.split)

lemma gomap_ok_foldl_kv_update: "gomap_ok m \<Longrightarrow> gomap_ok (foldl kv_update m ps)"
  by (induction ps arbitrary: m) (auto simp: kv_update_def)

lemma map_of_foldl_kv_update:
  "(\<And>kv. kv \<in> set ps \<Longrightarrow> Value kv = g (Key kv)) \<Longrightarrow>
   map_of (foldl kv_update m ps) = (\<lambda>k. if k \<in> Key ` set ps then Some (g k) else map_of m k)"
  by (induction ps arbitrary: m) (auto simp: kv_update_def fun_eq_iff)

lemma sorted_keys:
  assumes "gomap_ok m"
  shows "sort (map fst m) = sorted_list_of_set (dom (map_of m))"
  using assms by (simp add: gomap_ok_def dom_map_of_conv_image_fst sorted_list_of_set_sort_remdups
      distinct_remdups_id flip: set_map)

definition rendered :: "(string \<Rightarrow> string) \<Rightarrow> string set \<Rightarrow> string" where
  "rendered g K = concat (map (\<lambda>k. render_line k (g k)) (sorted_list_of_set K))"

lemma merge_output_ok:
  assumes "\<And>i. i < nReduce mr \<Longrightarrow> mergeName (jobName mr) i \<in> dom (json_files d)"
    and ps: "ps = concat (map (\<lambda>i. read_json d (mergeName (jobName mr) i)) [0..<nReduce mr])"
    and g: "\<And>kv. kv \<in> set ps \<Longrightarrow> Value kv = g (Key kv)"
  shows "merge_output mr d =
    Inr (d\<lparr>text_files := (text_files d)(''mrtmp.'' @ jobName mr \<mapsto> rendered g (Key ` set ps))\<rparr>)"
proof -
  let ?m = "foldl kv_update [] ps"
  have m: "map_of ?m = (\<lambda>k. if k \<in> Key ` set ps then Some (g k) else None)"
    using map_of_foldl_kv_update [of ps g "[]"] g by (auto simp: fun_eq_iff)
  then have dom: "dom (map_of ?m) = Key ` set ps" by (auto split: if_splits)
  have keys: "sort (map fst ?m) = sorted_list_of_set (Key ` set ps)"
    using sorted_keys [of ?m] gomap_ok_foldl_kv_update [of "[]" ps] dom by simp
  have lines: "map (\<lambda>k. render_line k (the (map_of ?m k))) (sorted_list_of_set (Key ` set ps)) =
      map (\<lambda>k. render_line k (g k)) (sorted_list_of_set (Key ` set ps))"
    by (rule map_cong) (simp_all add: m)
  have "merge_read (jobName mr) [0..<nReduce mr] d [] = Inr ?m"
    using merge_read_ok [of "[0..<nReduce mr]" "jobName mr" d "[]"] assms(1) by (simp flip: ps)
  then show ?thesis by (simp add: merge_output_def rendered_def keys lines)
qed

section \<open>A sequential job computes its specification\<close>

definition reduced_value :: "reduce_fun \<Rightarrow> KeyValue list \<Rightarrow> string \<Rightarrow> string" where
  "reduced_value reduceF kvs k = reduceF k (sort (values_of kvs k))"

text \<open>
  The keys of the merged output: those the map tasks produced and, when a partition received no
  pair, the empty key, which the reduce task of that partition emits.
\<close>

definition output_keys :: "nat \<Rightarrow> KeyValue list \<Rightarrow> string set" where
  "output_keys n kvs =
     Key ` set kvs \<union> (if \<exists>r<n. bucket n r kvs = [] then {''''} else {})"

lemma values_of_bucket:
  "ihash k mod n = r \<Longrightarrow> values_of (bucket n r kvs) k = values_of kvs k"
  unfolding values_of_def bucket_def filter_filter
  by (rule arg_cong [where f = "map Value"]) (rule filter_cong, auto)

lemma reduce_spec_Value:
  "kv \<in> set (reduce_spec rf kvs) \<Longrightarrow> Key kv \<in> Key ` set kvs \<and> Value kv = reduced_value rf kvs (Key kv)"
  by (auto simp: reduce_spec_def reduce_pair_def reduced_value_def)

lemma Key_reduce_output:
  "Key ` set (reduce_output rf kvs) = (if kvs = [] then {''''} else Key ` set kvs)"
  by (auto simp: reduce_output_def reduce_spec_def reduce_pair_def image_image)

lemma reduce_output_bucket_Value:
  assumes "kv \<in> set (reduce_output rf (bucket n r kvs))" "'''' \<notin> Key ` set kvs"
  shows "Value kv = reduced_value rf kvs (Key kv)"
proof (cases "bucket n r kvs = []")
  case True
  with assms show ?thesis
    by (simp add: reduce_output_def reduce_pair_def reduced_value_def values_of_absent)
next
  case False
  then have "Key kv \<in> Key ` set (bucket n r kvs)"
    and "Value kv = reduced_value rf (bucket n r kvs) (Key kv)"
    using assms(1) reduce_spec_Value [of kv rf "bucket n r kvs"] by (auto simp: reduce_output_def)
  then show ?thesis by (auto simp: set_bucket reduced_value_def values_of_bucket)
qed

lemma collect_pairs_buckets:
  assumes "\<And>k. k < length fs \<Longrightarrow>
     read_json d' (reduceName j k r) = bucket n r (mapF (fs ! k) (read_text d (fs ! k)))"
  shows "collect_pairs j r (length fs) d' = bucket n r (job_pairs mapF d fs)"
proof -
  have "map (\<lambda>m. read_json d' (reduceName j m r)) [0..<length fs] =
      map (\<lambda>f. bucket n r (mapF f (read_text d f))) fs"
    by (rule nth_equalityI) (simp_all add: assms)
  moreover have "concat (map (\<lambda>f. bucket n r (mapF f (read_text d f))) fs) =
      bucket n r (job_pairs mapF d fs)"
    unfolding job_pairs_def by (induction fs) simp_all
  ultimately show ?thesis by (simp add: collect_pairs_def)
qed

lemma Key_outputs:
  assumes "0 < n"
  shows "(\<Union>r<n. Key ` set (reduce_output rf (bucket n r kvs))) = output_keys n kvs"
proof -
  have "(\<Union>r<n. Key ` set (bucket n r kvs)) = Key ` set kvs"
    using mod_less_divisor [OF assms] by (auto simp: set_bucket image_iff)
  moreover have "(\<Union>r<n. Key ` set (reduce_output rf (bucket n r kvs))) =
      (\<Union>r<n. Key ` set (bucket n r kvs)) \<union> (if \<exists>r<n. bucket n r kvs = [] then {''''} else {})"
    by (auto simp: Key_reduce_output split: if_splits)
  ultimately show ?thesis by (simp add: output_keys_def)
qed

lemma Sequential_run:
  assumes fresh: "fresh_job j d" and n: "0 < n"
    and kvs: "kvs = job_pairs mapF d fs" and key: "'''' \<notin> Key ` set kvs"
  obtains mr d' where "Sequential j fs n mapF rf d = Inr (mr, d')"
    "mr = \<lparr>address = ''master'', workers = [], jobName = j, files = fs, nReduce = n,
           stats = [length fs + n]\<rparr>"
    "text_files d' = (text_files d)(''mrtmp.'' @ j \<mapsto>
        rendered (reduced_value rf kvs) (output_keys n kvs))"
    "\<And>k r. k < length fs \<Longrightarrow> r < n \<Longrightarrow> json_files d' (reduceName j k r) \<noteq> None"
    "\<And>r. r < n \<Longrightarrow> json_files d' (mergeName j r) = Some (reduce_output rf (bucket n r kvs))"
    "\<And>g. (\<And>k r. k < length fs \<Longrightarrow> r < n \<Longrightarrow> g \<noteq> reduceName j k r) \<Longrightarrow>
       (\<And>r. r < n \<Longrightarrow> g \<noteq> mergeName j r) \<Longrightarrow> json_files d' g = json_files d g"
proof -
  define mr0 where "mr0 = \<lparr>address = ''master'', workers = [], jobName = j, files = fs, nReduce = n,
      stats = []\<rparr>"
  obtain d1 where d1: "map_phase j 0 fs n mapF d = Inr d1" "text_files d1 = text_files d"
    "\<And>k r. k < length fs \<Longrightarrow> r < n \<Longrightarrow>
       json_files d1 (reduceName j k r) = Some (bucket n r (mapF (fs ! k) (read_text d (fs ! k))))"
    "\<And>g. (\<And>k r. k < length fs \<Longrightarrow> r < n \<Longrightarrow> g \<noteq> reduceName j k r) \<Longrightarrow>
       json_files d1 g = json_files d g"
    using map_phase_ok [OF n, of 0 d j fs mapF] fresh by (auto simp: fresh_job_def)
  let ?d2 = "reduce_phase j (length fs) n rf d1"
  have out: "read_json ?d2 (mergeName j r) = reduce_output rf (bucket n r kvs)" if "r < n" for r
  proof -
    have "collect_pairs j r (length fs) d1 = bucket n r kvs"
      unfolding kvs by (rule collect_pairs_buckets) (simp add: read_json_def d1(3) that)
    moreover have "read_json d1 (mergeName j r) = []"
      using fresh by (simp add: read_json_def fresh_job_def d1(4))
    ultimately show ?thesis by (simp add: reduce_phase_read that)
  qed
  let ?ps = "concat (map (\<lambda>i. read_json ?d2 (mergeName j i)) [0..<n])"
  have ps: "set ?ps = (\<Union>r<n. set (reduce_output rf (bucket n r kvs)))"
    by (auto simp: out)
  then have keys: "Key ` set ?ps = output_keys n kvs"
    using Key_outputs [OF n, of rf kvs] by (metis image_UN)
  have val: "Value kv = reduced_value rf kvs (Key kv)" if "kv \<in> set ?ps" for kv
    using that ps key by (auto intro: reduce_output_bucket_Value)
  let ?mr = "mr0\<lparr>stats := [length fs + n]\<rparr>"
  have merge: "merge_output ?mr ?d2 = Inr (?d2\<lparr>text_files := (text_files ?d2)(''mrtmp.'' @ j \<mapsto>
      rendered (reduced_value rf kvs) (output_keys n kvs))\<rparr>)"
    using merge_output_ok [of ?mr ?d2 ?ps "reduced_value rf kvs"] val keys
    by (simp add: mr0_def reduce_phase_dom)
  show ?thesis
  proof (rule that)
    show "Sequential j fs n mapF rf d = Inr (?mr, ?d2\<lparr>text_files := (text_files ?d2)(''mrtmp.'' @ j \<mapsto>
      rendered (reduced_value rf kvs) (output_keys n kvs))\<rparr>)"
      using d1(1) merge
      by (simp add: Sequential_def run_job_def newMaster_def seq_schedule_def mr0_def Let_def)
  next
    fix r assume r: "r < n"
    then have "mergeName j r \<in> dom (json_files ?d2)" by (auto simp: reduce_phase_dom)
    from json_files_read [OF this] show "json_files (?d2\<lparr>text_files := (text_files ?d2)(''mrtmp.'' @ j \<mapsto>
      rendered (reduced_value rf kvs) (output_keys n kvs))\<rparr>) (mergeName j r) =
      Some (reduce_output rf (bucket n r kvs))"
      by (simp add: out r)
  next
    fix k r assume "k < length fs" "r < n"
    then have "reduceName j k r \<in> dom (json_files ?d2)"
      by (auto simp: reduce_phase_dom d1(3))
    then show "json_files (?d2\<lparr>text_files := (text_files ?d2)(''mrtmp.'' @ j \<mapsto>
      rendered (reduced_value rf kvs) (output_keys n kvs))\<rparr>) (reduceName j k r) \<noteq> None" by auto
  next
    fix g assume "\<And>k r. k < length fs \<Longrightarrow> r < n \<Longrightarrow> g \<noteq> reduceName j k r"
      and "\<And>r. r < n \<Longrightarrow> g \<noteq> mergeName j r"
    then have "json_files ?d2 g = json_files d g"
      using reduce_phase_frame [of n g j "length fs" rf d1] d1(4) [of g] by simp
    then show "json_files (?d2\<lparr>text_files := (text_files ?d2)(''mrtmp.'' @ j \<mapsto>
      rendered (reduced_value rf kvs) (output_keys n kvs))\<rparr>) g = json_files d g" by simp
  qed (simp_all add: mr0_def d1(2))
qed

section \<open>Removing the files\<close>

lemma restrict_upd_None: "(f(n := None)) |` (- N) = f |` (- insert n N)"
  by (auto simp: restrict_map_def fun_eq_iff)

lemma removeFiles_ok:
  "distinct ns \<Longrightarrow> (\<And>n. n \<in> set ns \<Longrightarrow> text_files d n \<noteq> None \<or> json_files d n \<noteq> None) \<Longrightarrow>
   removeFiles ns d = Inr (d\<lparr>text_files := text_files d |` (- set ns), json_files := json_files d |` (- set ns)\<rparr>)"
proof (induction ns arbitrary: d)
  case (Cons n ns)
  let ?d = "d\<lparr>text_files := (text_files d)(n := None), json_files := (json_files d)(n := None)\<rparr>"
  have "removeFile n d = Inr ?d" using Cons.prems(2) [of n] by (auto simp: removeFile_def)
  moreover have "removeFiles ns ?d =
      Inr (?d\<lparr>text_files := text_files ?d |` (- set ns), json_files := json_files ?d |` (- set ns)\<rparr>)"
  proof (rule Cons.IH)
    show "text_files ?d m \<noteq> None \<or> json_files ?d m \<noteq> None" if "m \<in> set ns" for m
      using that Cons.prems by (cases "m = n") auto
  qed (use Cons.prems in simp)
  ultimately show ?case by (simp add: restrict_upd_None del: fun_upd_restrict restrict_fun_upd)
qed (auto simp: restrict_map_def intro: disk_eqI)

lemma removeFile_missing:
  "text_files d n = None \<Longrightarrow> json_files d n = None \<Longrightarrow> removeFile n d = Inl Fatal"
  by (simp add: removeFile_def)

lemma output_name_neq [simp]:
  "''mrtmp.'' @ j \<noteq> reduceName j m r" "''mrtmp.'' @ j \<noteq> mergeName j r"
  by (simp_all add: reduceName_def mergeName_def)

definition job_files :: "string \<Rightarrow> nat \<Rightarrow> nat \<Rightarrow> string list" where
  "job_files j m n = concat (map (\<lambda>i. map (reduceName j i) [0..<n]) [0..<m]) @
     map (mergeName j) [0..<n] @ [''mrtmp.'' @ j]"

lemma set_job_files:
  "set (job_files j m n) =
     {reduceName j k r |k r. k < m \<and> r < n} \<union> mergeName j ` {..<n} \<union> {''mrtmp.'' @ j}"
  by (auto simp: job_files_def)

lemma distinct_reduceNames: "distinct (concat (map (\<lambda>i. map (reduceName j i) [0..<n]) [0..<m]))"
  by (induction m) (auto simp: distinct_map inj_on_def)

lemma distinct_job_files: "distinct (job_files j m n)"
proof -
  have "distinct (map (mergeName j) [0..<n])" by (simp add: distinct_map inj_on_def)
  moreover have "''mrtmp.'' @ j \<notin> mergeName j ` {0..<n}" using output_name_neq by blast
  moreover have "set (concat (map (\<lambda>i. map (reduceName j i) [0..<n]) [0..<m])) \<inter>
      set (map (mergeName j) [0..<n] @ [''mrtmp.'' @ j]) = {}"
    using output_name_neq [of j] by (auto dest!: sym [of "reduceName _ _ _"])
  ultimately show ?thesis
    unfolding job_files_def distinct_append using distinct_reduceNames [of j n m] by simp
qed

section \<open>Properties\<close>


lemma fresh_job_no_json:
  "(\<And>f. json_files d f = None) \<Longrightarrow> (\<And>f. take 6 f = ''mrtmp.'' \<Longrightarrow> text_files d f = None) \<Longrightarrow> fresh_job j d"
  by (simp add: fresh_job_def reduceName_def mergeName_def)

text \<open>A small job: two input files, a map function that emits one pair per character.\<close>

definition demo_disk :: disk where
  "demo_disk = \<lparr>text_files = [''a'' \<mapsto> ''xyx'', ''b'' \<mapsto> ''y''], json_files = Map.empty\<rparr>"

definition demo_mapF :: map_fun where
  "demo_mapF f c = map (\<lambda>x. \<lparr>Key = [x], Value = f\<rparr>) c"

lemma demo_job_pairs: "job_pairs demo_mapF demo_disk [''a'', ''b''] =
    [\<lparr>Key = ''x'', Value = ''a''\<rparr>, \<lparr>Key = ''y'', Value = ''a''\<rparr>, \<lparr>Key = ''x'', Value = ''a''\<rparr>,
     \<lparr>Key = ''y'', Value = ''b''\<rparr>]"
  by (simp add: job_pairs_def demo_mapF_def read_text_def demo_disk_def)

lemma demo_fresh: "fresh_job j demo_disk"
  by (rule fresh_job_no_json) (auto simp: demo_disk_def)


text \<open>
  A map task appends to its r-th intermediate file exactly the pairs whose key hashes to r, in
  the order the map function emitted them, creates all nReduce files, and touches no other file.
\<close>

theorem doMap_partitions:
  assumes "0 < n"
  shows "\<exists>d'. doMap j m f n mapF d = Inr d' \<and> text_files d' = text_files d \<and>
    (\<forall>r<n. json_files d' (reduceName j m r) =
       Some (read_json d (reduceName j m r) @
             filter (\<lambda>kv. ihash (Key kv) mod n = r) (mapF f (read_text d f)))) \<and>
    (\<forall>g. g \<notin> reduceName j m ` {..<n} \<longrightarrow> json_files d' g = json_files d g)"
  by (rule doMap_ok [OF assms, of j m f mapF d]) (auto simp: bucket_def)

theorem doMap_partitions_witness:
  "\<exists>d'. doMap ''t'' 0 ''a'' 2 demo_mapF demo_disk = Inr d' \<and>
     json_files d' (reduceName ''t'' 0 0) = Some [\<lparr>Key = ''y'', Value = ''a''\<rparr>] \<and>
     json_files d' (reduceName ''t'' 0 1) =
       Some [\<lparr>Key = ''x'', Value = ''a''\<rparr>, \<lparr>Key = ''x'', Value = ''a''\<rparr>]"
proof -
  have hash: "ihash ''x'' = 2097959047" "ihash ''y'' = 2081181428" by (simp_all add: ihash_def fnv32a_def)
  have "read_text demo_disk ''a'' = ''xyx''" "read_json demo_disk f = []" for f
    by (simp_all add: read_text_def read_json_def demo_disk_def)
  then show ?thesis
    using doMap_partitions [of 2 "''t''" 0 "''a''" demo_mapF demo_disk]
    by (auto simp: demo_mapF_def hash)
qed

text \<open>
  A reduce task whose intermediate files hold some pairs appends one pair per distinct key, keys
  strictly ascending, the reduce function applied to the sorted values of the key: the result does
  not depend on how the pairs are spread over the map tasks' files or ordered in them, although the
  task sorts the pairs with an unstable sort.
\<close>

theorem doReduce_groups:
  assumes "mset (collect_pairs j r nMap d) = mset kvs" "kvs \<noteq> []"
  shows "read_json (doReduce j r out nMap rf d) out =
    read_json d out @ map (\<lambda>k. \<lparr>Key = k, Value = rf k (sort (values_of kvs k))\<rparr>)
      (sorted_list_of_set (Key ` set kvs))"
proof -
  have "collect_pairs j r nMap d \<noteq> []" using assms by auto
  then have "reduce_output rf (collect_pairs j r nMap d) = reduce_spec rf kvs"
    using reduce_spec_perm [OF assms(1)] by (simp add: reduce_output_def)
  then show ?thesis by (simp add: doReduce_read reduce_spec_def reduce_pair_def)
qed

definition demo_pairs :: disk where
  "demo_pairs = \<lparr>text_files = Map.empty, json_files =
     [reduceName ''t'' 0 0 \<mapsto> [\<lparr>Key = ''b'', Value = ''2''\<rparr>, \<lparr>Key = ''a'', Value = ''3''\<rparr>],
      reduceName ''t'' 1 0 \<mapsto> [\<lparr>Key = ''b'', Value = ''1''\<rparr>]]\<rparr>"

theorem doReduce_groups_witness:
  "read_json (doReduce ''t'' 0 ''o'' 2 (\<lambda>k vs. concat vs) demo_pairs) ''o'' =
     [\<lparr>Key = ''a'', Value = ''3''\<rparr>, \<lparr>Key = ''b'', Value = ''12''\<rparr>]"
proof -
  let ?kvs = "[\<lparr>Key = ''a'', Value = ''3''\<rparr>, \<lparr>Key = ''b'', Value = ''1''\<rparr>, \<lparr>Key = ''b'', Value = ''2''\<rparr>]"
  have "collect_pairs ''t'' 0 2 demo_pairs =
      [\<lparr>Key = ''b'', Value = ''2''\<rparr>, \<lparr>Key = ''a'', Value = ''3''\<rparr>, \<lparr>Key = ''b'', Value = ''1''\<rparr>]"
    by (simp add: collect_pairs_def demo_pairs_def read_json_def upt_rec)
  then have "mset (collect_pairs ''t'' 0 2 demo_pairs) = mset ?kvs" by simp
  from doReduce_groups [OF this, of "''o''" "\<lambda>k vs. concat vs"] show ?thesis
    by (simp add: values_of_def demo_pairs_def read_json_def reduceName_def)
qed

text \<open>
  A map task that is executed a second time, as after a lost reply, appends its pairs again: the
  intermediate files are opened without truncation, so every pair of the task is in them twice.
\<close>

theorem doMap_again_duplicates:
  assumes "0 < n"
  shows "\<exists>d1 d2. doMap j m f n mapF d = Inr d1 \<and> doMap j m f n mapF d1 = Inr d2 \<and>
    (\<forall>r<n. read_json d2 (reduceName j m r) =
       read_json d (reduceName j m r) @ bucket n r (mapF f (read_text d f)) @ bucket n r (mapF f (read_text d f)))"
proof -
  obtain d1 where d1: "doMap j m f n mapF d = Inr d1" "text_files d1 = text_files d"
    "\<And>r. r < n \<Longrightarrow> json_files d1 (reduceName j m r) =
       Some (read_json d (reduceName j m r) @ bucket n r (mapF f (read_text d f)))"
    by (rule doMap_ok [OF assms, of j m f mapF d]) blast
  obtain d2 where d2: "doMap j m f n mapF d1 = Inr d2"
    "\<And>r. r < n \<Longrightarrow> json_files d2 (reduceName j m r) =
       Some (read_json d1 (reduceName j m r) @ bucket n r (mapF f (read_text d1 f)))"
    by (rule doMap_ok [OF assms, of j m f mapF d1]) blast
  have "read_text d1 = read_text d" by (rule read_text_cong [OF d1(2)])
  then show ?thesis
    using d1 d2 by (intro exI [of _ d1] exI [of _ d2]) (simp add: read_json_def)
qed

theorem doMap_again_duplicates_witness:
  "\<exists>d1 d2. doMap ''t'' 0 ''b'' 1 demo_mapF demo_disk = Inr d1 \<and> doMap ''t'' 0 ''b'' 1 demo_mapF d1 = Inr d2 \<and>
     read_json d2 (reduceName ''t'' 0 0) = [\<lparr>Key = ''y'', Value = ''b''\<rparr>, \<lparr>Key = ''y'', Value = ''b''\<rparr>]"
proof -
  have "read_text demo_disk ''b'' = ''y''" "read_json demo_disk f = []" for f
    by (simp_all add: read_text_def read_json_def demo_disk_def)
  then show ?thesis
    using doMap_again_duplicates [of 1 "''t''" 0 "''b''" demo_mapF demo_disk]
    by (auto simp: demo_mapF_def bucket_def)
qed

text \<open>
  After a sequential job, \<open>CleanupFiles\<close> finds every file it removes, and restores the disk as it
  was before the job, less the output file.
\<close>

theorem CleanupFiles_restores:
  assumes "fresh_job j d" "0 < n" "'''' \<notin> Key ` set (job_pairs mapF d fs)"
  shows "\<exists>mr d'. Sequential j fs n mapF rf d = Inr (mr, d') \<and>
    CleanupFiles mr d' = Inr (d\<lparr>text_files := (text_files d)(''mrtmp.'' @ j := None)\<rparr>)"
proof -
  obtain mr d' where s: "Sequential j fs n mapF rf d = Inr (mr, d')"
    and mr: "mr = \<lparr>address = ''master'', workers = [], jobName = j, files = fs, nReduce = n,
           stats = [length fs + n]\<rparr>"
    and t: "text_files d' = (text_files d)(''mrtmp.'' @ j \<mapsto>
        rendered (reduced_value rf (job_pairs mapF d fs)) (output_keys n (job_pairs mapF d fs)))"
    and r: "\<And>k r. k < length fs \<Longrightarrow> r < n \<Longrightarrow> json_files d' (reduceName j k r) \<noteq> None"
    and m: "\<And>r. r < n \<Longrightarrow> json_files d' (mergeName j r) =
        Some (reduce_output rf (bucket n r (job_pairs mapF d fs)))"
    and fr: "\<And>g. (\<And>k r. k < length fs \<Longrightarrow> r < n \<Longrightarrow> g \<noteq> reduceName j k r) \<Longrightarrow>
       (\<And>r. r < n \<Longrightarrow> g \<noteq> mergeName j r) \<Longrightarrow> json_files d' g = json_files d g"
    by (rule Sequential_run [OF assms(1,2) refl assms(3), of rf]) blast
  let ?ns = "job_files j (length fs) n"
  have "CleanupFiles mr d' = removeFiles ?ns d'"
    by (simp add: CleanupFiles_def mr job_files_def)
  also have "\<dots> = Inr (d'\<lparr>text_files := text_files d' |` (- set ?ns), json_files := json_files d' |` (- set ?ns)\<rparr>)"
    (is "_ = Inr ?d1") by (rule removeFiles_ok [OF distinct_job_files]) (use t r m in \<open>auto simp: set_job_files\<close>)
  finally have clean: "CleanupFiles mr d' = Inr ?d1" .
  have "text_files d' |` (- set ?ns) = (text_files d)(''mrtmp.'' @ j := None)"
    using assms(1) by (auto simp: fun_eq_iff restrict_map_def t fresh_job_def set_job_files)
  moreover have "json_files d' |` (- set ?ns) = json_files d"
  proof
    fix g show "(json_files d' |` (- set ?ns)) g = json_files d g"
      using assms(1) fr [of g] by (auto simp: restrict_map_def fresh_job_def set_job_files)
  qed
  ultimately have "?d1 = d\<lparr>text_files := (text_files d)(''mrtmp.'' @ j := None)\<rparr>"
    by (intro disk_eqI) simp_all
  with clean s show ?thesis by auto
qed

theorem CleanupFiles_restores_witness:
  "\<exists>mr d'. Sequential ''t'' [''a'', ''b''] 2 demo_mapF (\<lambda>k vs. concat vs) demo_disk = Inr (mr, d') \<and>
     CleanupFiles mr d' = Inr demo_disk"
  using CleanupFiles_restores [of "''t''" demo_disk 2 demo_mapF "[''a'', ''b'']" "\<lambda>k vs. concat vs"]
  by (simp add: demo_fresh demo_job_pairs) (simp add: demo_disk_def fun_upd_idem)

end
