(* ===== verification/WordCount.thy ===== *)
theory WordCount
  imports MapReduce
begin

text \<open>
  The two MapReduce applications: word count (\<open>src/lab4/src/main/wc.go\<close>) and the inverted index
  (\<open>src/lab4/src/main/ii.go\<close>).

  Both split a document with \<open>strings.FieldsFunc\<close> at the runes that are not letters.
  \<open>decode_rune\<close> is Go's UTF-8 decoding of the first rune of a string, with width 1 for an invalid
  byte. The Unicode table behind \<open>unicode.IsLetter\<close> is the argument \<open>isLetter\<close> of the map functions;
  no lemma depends on which runes are letters.
\<close>

unbundle bit_operations_syntax

section \<open>strings.FieldsFunc\<close>

definition byte :: "string \<Rightarrow> nat \<Rightarrow> nat" where
  "byte s i = (if i < length s then of_char (s ! i) else 0)"

definition in_range :: "nat \<Rightarrow> nat \<Rightarrow> nat \<Rightarrow> bool" where
  "in_range lo hi b \<longleftrightarrow> lo \<le> b \<and> b \<le> hi"

definition decode_rune :: "string \<Rightarrow> nat \<times> nat" where
  "decode_rune s =
     (let b0 = byte s 0; b1 = byte s 1; b2 = byte s 2; b3 = byte s 3;
          cont = in_range 0x80 0xBF
      in if b0 < 0x80 then (b0, 1)
         else if in_range 0xC2 0xDF b0 \<and> cont b1
         then ((b0 mod 32) * 64 + b1 mod 64, 2)
         else if in_range 0xE0 0xEF b0 \<and>
           in_range (if b0 = 0xE0 then 0xA0 else 0x80) (if b0 = 0xED then 0x9F else 0xBF) b1 \<and> cont b2
         then ((b0 mod 16) * 4096 + (b1 mod 64) * 64 + b2 mod 64, 3)
         else if in_range 0xF0 0xF4 b0 \<and>
           in_range (if b0 = 0xF0 then 0x90 else 0x80) (if b0 = 0xF4 then 0x8F else 0xBF) b1 \<and>
           cont b2 \<and> cont b3
         then ((b0 mod 8) * 262144 + (b1 mod 64) * 4096 + (b2 mod 64) * 64 + b3 mod 64, 4)
         else (0xFFFD, 1))"

lemma decode_rune_width: "1 \<le> snd (decode_rune s)"
  by (simp add: decode_rune_def Let_def)

text \<open>The loop of \<open>FieldsFunc\<close>; \<open>cur\<close> is the field that is open, empty when none is.\<close>

function FieldsFunc :: "(nat \<Rightarrow> bool) \<Rightarrow> string \<Rightarrow> string \<Rightarrow> string list" where
  "FieldsFunc f cur s =
     (if s = [] then (if cur = [] then [] else [cur])
      else let (r, w) = decode_rune s
           in if f r then (if cur = [] then [] else [cur]) @ FieldsFunc f [] (drop w s)
              else FieldsFunc f (cur @ take w s) (drop w s))"
  by pat_completeness auto
termination
proof (relation "measure (\<lambda>(f, cur, s). length s)")
  fix f :: "nat \<Rightarrow> bool" and cur s :: string and x :: "nat \<times> nat" and r w
  assume "s \<noteq> []" and "x = decode_rune s" and "(r, w) = x"
  then have "1 \<le> w" using decode_rune_width [of s] by (metis snd_conv)
  with \<open>s \<noteq> []\<close> show "((f, [], drop w s), f, cur, s) \<in> measure (\<lambda>(f, cur, s). length s)"
    and "((f, cur @ take w s, drop w s), f, cur, s) \<in> measure (\<lambda>(f, cur, s). length s)"
    by simp_all
qed simp

declare FieldsFunc.simps [simp del]

definition words :: "(nat \<Rightarrow> bool) \<Rightarrow> string \<Rightarrow> string list" where
  "words isLetter s = FieldsFunc (\<lambda>r. \<not> isLetter r) [] s"

section \<open>Word count (wc.go)\<close>

definition wc_mapF :: "(nat \<Rightarrow> bool) \<Rightarrow> map_fun" where
  "wc_mapF isLetter filename contents =
     map (\<lambda>k. \<lparr>Key = k, Value = ''''\<rparr>) (words isLetter contents)"

definition wc_reduceF :: reduce_fun where
  "wc_reduceF key vs = Itoa (int (length vs))"

definition wc_sequential :: "(nat \<Rightarrow> bool) \<Rightarrow> string list \<Rightarrow> disk \<Rightarrow> (Master \<times> disk) result" where
  "wc_sequential isLetter fs d = Sequential ''wcseq'' fs 3 (wc_mapF isLetter) wc_reduceF d"

section \<open>Inverted index (ii.go)\<close>

fun removeRep_loop :: "string list \<Rightarrow> string list \<Rightarrow> (string, nat) gomap \<Rightarrow> string list" where
  "removeRep_loop [] result tempMap = result"
| "removeRep_loop (e # es) result tempMap =
     (let l = length tempMap; tempMap' = AList.update e 0 tempMap
      in removeRep_loop es (if length tempMap' \<noteq> l then result @ [e] else result) tempMap')"

definition removeRepByMap :: "string list \<Rightarrow> string list" where
  "removeRepByMap slc = removeRep_loop slc [] []"

definition ii_mapF :: "(nat \<Rightarrow> bool) \<Rightarrow> map_fun" where
  "ii_mapF isLetter document value =
     map (\<lambda>k. \<lparr>Key = k, Value = document\<rparr>) (removeRepByMap (words isLetter value))"

fun ii_join :: "nat \<Rightarrow> nat \<Rightarrow> string list \<Rightarrow> string \<Rightarrow> string" where
  "ii_join n i [] ret = ret"
| "ii_join n i (v # vs) ret =
     ii_join n (Suc i) vs (ret @ v @ (if int i \<noteq> int n - 1 then '','' else ''''))"

definition ii_reduceF :: reduce_fun where
  "ii_reduceF key vs = ii_join (length vs) 0 vs (Itoa (int (length vs)) @ '' '')"

definition ii_sequential :: "(nat \<Rightarrow> bool) \<Rightarrow> string list \<Rightarrow> disk \<Rightarrow> (Master \<times> disk) result" where
  "ii_sequential isLetter fs d = Sequential ''iiseq'' fs 3 (ii_mapF isLetter) ii_reduceF d"

section \<open>Lemmas\<close>

lemma FieldsFunc_nonempty: "'''' \<notin> set (FieldsFunc f cur s)"
proof (induction f cur s rule: FieldsFunc.induct)
  case (1 f cur s)
  then show ?case
    by (subst FieldsFunc.simps) (auto split: prod.splits)
qed

lemma words_nonempty [simp]: "'''' \<notin> set (words isLetter s)"
  by (simp add: words_def FieldsFunc_nonempty)

lemma wc_pairs_keys: "'''' \<notin> Key ` set (job_pairs (wc_mapF isLetter) d fs)"
  by (auto simp: job_pairs_def wc_mapF_def)

lemma length_values_of: "length (values_of kvs k) = count_list (map Key kvs) k"
  by (induction kvs) (auto simp: values_of_Cons)

definition document_words :: "(nat \<Rightarrow> bool) \<Rightarrow> disk \<Rightarrow> string list \<Rightarrow> string list" where
  "document_words isLetter d fs = concat (map (\<lambda>f. words isLetter (read_text d f)) fs)"

lemma map_Key_wc_pairs: "map Key (job_pairs (wc_mapF isLetter) d fs) = document_words isLetter d fs"
  by (simp add: job_pairs_def document_words_def wc_mapF_def map_concat comp_def)

lemma length_AList_update:
  "length (AList.update k v m) = (if k \<in> dom (map_of m) then length m else Suc (length m))"
  by (induction m) auto

lemma removeRep_loop_spec:
  assumes "set res = dom (map_of m)"
  shows "set (removeRep_loop es res m) = set res \<union> set es \<and>
    (distinct res \<longrightarrow> distinct (removeRep_loop es res m))"
  using assms
proof (induction es arbitrary: res m)
  case (Cons e es)
  let ?m = "AList.update e 0 m" and ?res = "if e \<in> dom (map_of m) then res else res @ [e]"
  have "dom (map_of ?m) = insert e (dom (map_of m))"
    by (metis dom_fun_upd map_of_AList_update option.distinct(1))
  with Cons.prems have "set ?res = dom (map_of ?m)" by auto
  note IH = Cons.IH [OF this]
  show ?case
  proof (cases "e \<in> set res")
    case True
    then have "e \<in> dom (map_of m)" using Cons.prems by simp
    with IH True show ?thesis by (simp add: length_AList_update insert_absorb)
  next
    case False
    then have "e \<notin> dom (map_of m)" using Cons.prems by simp
    with IH False show ?thesis by (simp add: length_AList_update)
  qed
qed simp

lemma set_removeRepByMap [simp]: "set (removeRepByMap ws) = set ws"
  using removeRep_loop_spec [of "[]" "[]" ws] by (simp add: removeRepByMap_def)

lemma distinct_removeRepByMap [simp]: "distinct (removeRepByMap ws)"
  using removeRep_loop_spec [of "[]" "[]" ws] by (simp add: removeRepByMap_def)

fun comma_join :: "string list \<Rightarrow> string" where
  "comma_join [] = ''''"
| "comma_join [v] = v"
| "comma_join (v # vs) = v @ '','' @ comma_join vs"

lemma comma_join_Cons: "comma_join (v # vs) = v @ (if vs = [] then '''' else '','' @ comma_join vs)"
  by (cases vs) auto

lemma ii_join_comma:
  "n = i + length vs \<Longrightarrow> ii_join n i vs ret = ret @ comma_join vs"
  by (induction vs arbitrary: i ret) (auto simp: comma_join_Cons)

lemma ii_reduceF_eq: "ii_reduceF k vs = nat_str (length vs) @ '' '' @ comma_join vs"
  by (simp add: ii_reduceF_def ii_join_comma)

lemma ii_pairs_keys: "'''' \<notin> Key ` set (job_pairs (ii_mapF isLetter) d fs)"
  by (auto simp: job_pairs_def ii_mapF_def)

text \<open>The documents that contain a word, in the order of the file list.\<close>

definition documents_with :: "(nat \<Rightarrow> bool) \<Rightarrow> disk \<Rightarrow> string list \<Rightarrow> string \<Rightarrow> string list" where
  "documents_with isLetter d fs w = filter (\<lambda>f. w \<in> set (words isLetter (read_text d f))) fs"

lemma values_of_distinct_keys:
  "distinct ks \<Longrightarrow> values_of (map (\<lambda>k. \<lparr>Key = k, Value = v\<rparr>) ks) w = (if w \<in> set ks then [v] else [])"
  by (induction ks) (auto simp: values_of_Cons)

lemma values_of_ii_pairs:
  "values_of (job_pairs (ii_mapF isLetter) d fs) w = documents_with isLetter d fs w"
  unfolding job_pairs_def documents_with_def
  by (induction fs) (simp_all add: ii_mapF_def values_of_distinct_keys)

lemma wc_reduced_value:
  "reduced_value wc_reduceF (job_pairs (wc_mapF isLetter) d fs) w =
     nat_str (count_list (document_words isLetter d fs) w)"
  by (simp add: reduced_value_def wc_reduceF_def length_values_of map_Key_wc_pairs)

lemma ii_reduced_value:
  "reduced_value ii_reduceF (job_pairs (ii_mapF isLetter) d fs) w =
     nat_str (length (documents_with isLetter d fs w)) @ '' '' @
     comma_join (sort (documents_with isLetter d fs w))"
  by (simp add: reduced_value_def ii_reduceF_eq values_of_ii_pairs)

section \<open>Properties\<close>

text \<open>
  C36: the sequential word count writes, in ascending order, one line per word of the documents with
  the number of its occurrences in all of them (and the line of the empty word with count 0, when one
  of the three partitions is empty).
\<close>

theorem wc_sequential_counts:
  assumes "fresh_job ''wcseq'' d"
  shows "\<exists>mr d'. wc_sequential isLetter fs d = Inr (mr, d') \<and>
    text_files d' ''mrtmp.wcseq'' =
      Some (rendered (\<lambda>w. nat_str (count_list (document_words isLetter d fs) w))
        (output_keys 3 (job_pairs (wc_mapF isLetter) d fs))) \<and>
    output_keys 3 (job_pairs (wc_mapF isLetter) d fs) - {''''} = set (document_words isLetter d fs)"
proof -
  let ?kvs = "job_pairs (wc_mapF isLetter) d fs"
  obtain mr d' where s: "Sequential ''wcseq'' fs 3 (wc_mapF isLetter) wc_reduceF d = Inr (mr, d')"
    "text_files d' = (text_files d)(''mrtmp.'' @ ''wcseq'' \<mapsto>
        rendered (reduced_value wc_reduceF ?kvs) (output_keys 3 ?kvs))"
    by (rule Sequential_run [OF assms, where n = 3 and rf = wc_reduceF, OF _ refl wc_pairs_keys [of isLetter d fs]]) auto
  have "Key ` set ?kvs = set (document_words isLetter d fs)"
    by (simp flip: map_Key_wc_pairs)
  then have "output_keys 3 ?kvs - {''''} = set (document_words isLetter d fs)"
    using wc_pairs_keys [of isLetter d fs] by (auto simp: output_keys_def)
  with s show ?thesis
    by (simp add: wc_sequential_def wc_reduced_value [abs_def])
qed

theorem wc_sequential_counts_witness:
  "\<exists>mr d'. wc_sequential (\<lambda>r. 97 \<le> r \<and> r \<le> 122) [''a'', ''b''] demo_disk = Inr (mr, d') \<and>
    text_files d' ''mrtmp.wcseq'' \<noteq> None"
  using wc_sequential_counts [OF demo_fresh, of "\<lambda>r. 97 \<le> r \<and> r \<le> 122" "[''a'', ''b'']"] by auto

text \<open>
  The sequential inverted index writes, in ascending order, one line per word of the documents:
  the number of documents that contain it and their names in ascending order, separated by commas.
\<close>

theorem ii_sequential_index:
  assumes "fresh_job ''iiseq'' d"
  shows "\<exists>mr d'. ii_sequential isLetter fs d = Inr (mr, d') \<and>
    text_files d' ''mrtmp.iiseq'' =
      Some (rendered (\<lambda>w. let ds = documents_with isLetter d fs w
                          in nat_str (length ds) @ '' '' @ comma_join (sort ds))
        (output_keys 3 (job_pairs (ii_mapF isLetter) d fs))) \<and>
    output_keys 3 (job_pairs (ii_mapF isLetter) d fs) - {''''} = set (document_words isLetter d fs)"
proof -
  let ?kvs = "job_pairs (ii_mapF isLetter) d fs"
  obtain mr d' where s: "Sequential ''iiseq'' fs 3 (ii_mapF isLetter) ii_reduceF d = Inr (mr, d')"
    "text_files d' = (text_files d)(''mrtmp.'' @ ''iiseq'' \<mapsto>
        rendered (reduced_value ii_reduceF ?kvs) (output_keys 3 ?kvs))"
    by (rule Sequential_run [OF assms, where n = 3 and rf = ii_reduceF, OF _ refl ii_pairs_keys [of isLetter d fs]]) auto
  have "Key ` set ?kvs = set (document_words isLetter d fs)"
    by (simp add: job_pairs_def document_words_def ii_mapF_def image_UN image_image)
  then have "output_keys 3 ?kvs - {''''} = set (document_words isLetter d fs)"
    using ii_pairs_keys [of isLetter d fs] by (auto simp: output_keys_def)
  with s show ?thesis
    by (simp add: ii_sequential_def ii_reduced_value [abs_def] Let_def)
qed

theorem ii_sequential_index_witness:
  "\<exists>mr d'. ii_sequential (\<lambda>r. 97 \<le> r \<and> r \<le> 122) [''a'', ''b''] demo_disk = Inr (mr, d') \<and>
    text_files d' ''mrtmp.iiseq'' \<noteq> None"
  using ii_sequential_index [OF demo_fresh, of "\<lambda>r. 97 \<le> r \<and> r \<le> 122" "[''a'', ''b'']"] by auto

end
