(* ===== verification/Schedule.thy ===== *)
theory Schedule
  imports MapReduce
begin

text \<open>
  The distributed half of the MapReduce library: \<open>schedule.go\<close>, \<open>worker.go\<close>, \<open>common_rpc.go\<close> and
  the registration and shut-down code of \<open>master.go\<close>.

  \<open>schedule\<close> starts one goroutine per task; each takes a worker from \<open>registerChan\<close>, calls
  \<open>Worker.DoTask\<close>, puts the worker back, and retries while the call fails. The goroutines, the
  forwarding goroutine and the registrations interleave: they are the rules of the step relation
  \<open>sched_step\<close>. A worker whose send on the unbuffered channel is pending is an element of the
  multiset \<open>s_chan\<close>. A task's file operations are one step: the tasks of a phase use different files.

  The locale \<open>task_pool\<close> is the contract between the scheduler and the tasks of a phase: each task
  succeeds on its own part of the disk. From it follows that the order of execution does not matter;
  the map tasks and the reduce tasks are its two instances.
\<close>

section \<open>RPC data (common_rpc.go) and the worker (worker.go)\<close>

record DoTaskArgs =
  JobName :: string
  File :: string
  Phase :: jobPhase
  TaskNumber :: nat
  NumOtherPhase :: nat

record Parallelism =
  par_now :: int
  par_max :: int

record Worker =
  w_name :: string
  w_nRPC :: int
  w_nTasks :: nat
  w_concurrent :: nat
  w_parallelism :: "Parallelism option"

definition new_worker :: "string \<Rightarrow> int \<Rightarrow> Parallelism option \<Rightarrow> Worker" where
  "new_worker me nRPC par =
     \<lparr>w_name = me, w_nRPC = nRPC, w_nTasks = 0, w_concurrent = 0, w_parallelism = par\<rparr>"

text \<open>\<open>DoTask\<close> up to the \<open>switch\<close>: the counters, and the fatal error on a second concurrent task.\<close>

definition par_enter :: "Parallelism \<Rightarrow> Parallelism" where
  "par_enter p =
     (let now = par_now p + 1 in \<lparr>par_now = now, par_max = (if now > par_max p then now else par_max p)\<rparr>)"

definition DoTask_begin :: "Worker \<Rightarrow> Worker result" where
  "DoTask_begin wk =
     (let wk1 = wk\<lparr>w_nTasks := w_nTasks wk + 1, w_concurrent := w_concurrent wk + 1\<rparr>
      in if w_concurrent wk1 > 1 then Inl Fatal
         else Inr (wk1\<lparr>w_parallelism := map_option par_enter (w_parallelism wk1)\<rparr>))"

definition DoTask_body :: "map_fun \<Rightarrow> reduce_fun \<Rightarrow> DoTaskArgs \<Rightarrow> disk \<Rightarrow> disk result" where
  "DoTask_body mapF reduceF arg d =
     (case Phase arg of
        mapPhase \<Rightarrow> doMap (JobName arg) (TaskNumber arg) (File arg) (NumOtherPhase arg) mapF d
      | reducePhase \<Rightarrow> Inr (doReduce (JobName arg) (TaskNumber arg)
            (mergeName (JobName arg) (TaskNumber arg)) (NumOtherPhase arg) reduceF d))"

definition DoTask_end :: "Worker \<Rightarrow> Worker" where
  "DoTask_end wk = wk\<lparr>w_concurrent := w_concurrent wk - 1,
     w_parallelism := map_option (\<lambda>p. p\<lparr>par_now := par_now p - 1\<rparr>) (w_parallelism wk)\<rparr>"

definition DoTask :: "map_fun \<Rightarrow> reduce_fun \<Rightarrow> DoTaskArgs \<Rightarrow> Worker \<times> disk \<Rightarrow> (Worker \<times> disk) result" where
  "DoTask mapF reduceF arg wd =
     bindR (DoTask_begin (fst wd))
       (\<lambda>wk. bindR (DoTask_body mapF reduceF arg (snd wd)) (\<lambda>d. Inr (DoTask_end wk, d)))"

definition Worker_Shutdown :: "Worker \<Rightarrow> Worker \<times> nat" where
  "Worker_Shutdown wk = (wk\<lparr>w_nRPC := 1\<rparr>, w_nTasks wk)"

section \<open>Registration and shut-down at the master (master.go)\<close>

definition Register :: "string \<Rightarrow> Master \<Rightarrow> Master" where
  "Register w mr = mr\<lparr>workers := workers mr @ [w]\<rparr>"

text \<open>\<open>call\<close> returns \<open>None\<close> when the worker does not answer.\<close>

definition killWorkers :: "(string \<Rightarrow> nat option) \<Rightarrow> Master \<Rightarrow> nat list" where
  "killWorkers call_shutdown mr =
     concat (map (\<lambda>w. case call_shutdown w of None \<Rightarrow> [] | Some n \<Rightarrow> [n]) (workers mr))"

section \<open>The arguments schedule() sends (schedule.go)\<close>

definition phase_sizes :: "string list \<Rightarrow> nat \<Rightarrow> jobPhase \<Rightarrow> nat \<times> nat" where
  "phase_sizes mapFiles nreduce phase =
     (case phase of mapPhase \<Rightarrow> (length mapFiles, nreduce) | reducePhase \<Rightarrow> (nreduce, length mapFiles))"

text \<open>\<open>mapFiles[i]\<close> is evaluated in both phases; out of range it panics.\<close>

definition task_args :: "string \<Rightarrow> string list \<Rightarrow> nat \<Rightarrow> jobPhase \<Rightarrow> nat \<Rightarrow> DoTaskArgs result" where
  "task_args job mapFiles nreduce phase i =
     (if i < length mapFiles
      then Inr \<lparr>JobName = job, File = mapFiles ! i, Phase = phase, TaskNumber = i,
                NumOtherPhase = snd (phase_sizes mapFiles nreduce phase)\<rparr>
      else Inl Panic)"

fun schedule_args_from :: "string \<Rightarrow> string list \<Rightarrow> nat \<Rightarrow> jobPhase \<Rightarrow> nat list \<Rightarrow> DoTaskArgs list result" where
  "schedule_args_from job mapFiles nreduce phase [] = Inr []"
| "schedule_args_from job mapFiles nreduce phase (i # is) =
     bindR (task_args job mapFiles nreduce phase i)
       (\<lambda>a. bindR (schedule_args_from job mapFiles nreduce phase is) (\<lambda>as. Inr (a # as)))"

definition schedule_args :: "string \<Rightarrow> string list \<Rightarrow> nat \<Rightarrow> jobPhase \<Rightarrow> DoTaskArgs list result" where
  "schedule_args job mapFiles nreduce phase =
     schedule_args_from job mapFiles nreduce phase [0..<fst (phase_sizes mapFiles nreduce phase)]"

section \<open>The goroutines of a phase\<close>

datatype task_status = Waiting | Holding string | Running string | Done

record sched =
  s_workers :: "string list"
  s_fwd :: nat
  s_chan :: "string multiset"
  s_tasks :: "task_status list"
  s_wk :: "string \<Rightarrow> Worker"
  s_log :: "nat list"
  s_lost :: nat
  s_disk :: disk

definition sched_init :: "string list \<Rightarrow> (string \<Rightarrow> Worker) \<Rightarrow> nat \<Rightarrow> disk \<Rightarrow> sched" where
  "sched_init ws wk ntasks d =
     \<lparr>s_workers = ws, s_fwd = 0, s_chan = {#}, s_tasks = replicate ntasks Waiting, s_wk = wk,
      s_log = [], s_lost = 0, s_disk = d\<rparr>"

text \<open>
  One rule per statement that synchronises: \<open>Register\<close> (by a worker process that has just
  started), one turn of \<open>forwardRegistrations\<close>, a task goroutine receiving a worker, its call reaching
  the worker (which enters \<open>DoTask\<close>), its call failing at the dial (the worker goes back to the
  channel and the loop turns), its call returning true (the worker goes back as well), and its call
  returning false although the worker has run the task, because the reply was lost. \<open>s_log\<close> is the
  sequence of task executions and \<open>s_lost\<close> the number of lost replies.
\<close>

inductive sched_step :: "map_fun \<Rightarrow> reduce_fun \<Rightarrow> DoTaskArgs list \<Rightarrow> sched \<Rightarrow> sched \<Rightarrow> bool"
  for mapF reduceF args where
  register: "sched_step mapF reduceF args s
      (s\<lparr>s_workers := s_workers s @ [w], s_wk := (s_wk s)(w := new_worker w nRPC par)\<rparr>)"
| forward: "s_fwd s < length (s_workers s) \<Longrightarrow>
    sched_step mapF reduceF args s
      (s\<lparr>s_chan := add_mset (s_workers s ! s_fwd s) (s_chan s), s_fwd := Suc (s_fwd s)\<rparr>)"
| receive: "i < length (s_tasks s) \<Longrightarrow> s_tasks s ! i = Waiting \<Longrightarrow> w \<in># s_chan s \<Longrightarrow>
    sched_step mapF reduceF args s
      (s\<lparr>s_chan := s_chan s - {#w#}, s_tasks := (s_tasks s)[i := Holding w]\<rparr>)"
| dial_ok: "i < length (s_tasks s) \<Longrightarrow> s_tasks s ! i = Holding w \<Longrightarrow>
    DoTask_begin (s_wk s w) = Inr wk \<Longrightarrow>
    sched_step mapF reduceF args s
      (s\<lparr>s_tasks := (s_tasks s)[i := Running w], s_wk := (s_wk s)(w := wk)\<rparr>)"
| dial_failed: "i < length (s_tasks s) \<Longrightarrow> s_tasks s ! i = Holding w \<Longrightarrow>
    sched_step mapF reduceF args s
      (s\<lparr>s_chan := add_mset w (s_chan s), s_tasks := (s_tasks s)[i := Waiting]\<rparr>)"
| call_ok: "i < length (s_tasks s) \<Longrightarrow> s_tasks s ! i = Running w \<Longrightarrow>
    DoTask_body mapF reduceF (args ! i) (s_disk s) = Inr d \<Longrightarrow>
    sched_step mapF reduceF args s
      (s\<lparr>s_chan := add_mset w (s_chan s), s_tasks := (s_tasks s)[i := Done],
         s_wk := (s_wk s)(w := DoTask_end (s_wk s w)), s_log := s_log s @ [i], s_disk := d\<rparr>)"
| call_lost: "i < length (s_tasks s) \<Longrightarrow> s_tasks s ! i = Running w \<Longrightarrow>
    DoTask_body mapF reduceF (args ! i) (s_disk s) = Inr d \<Longrightarrow>
    sched_step mapF reduceF args s
      (s\<lparr>s_chan := add_mset w (s_chan s), s_tasks := (s_tasks s)[i := Waiting],
         s_wk := (s_wk s)(w := DoTask_end (s_wk s w)), s_log := s_log s @ [i],
         s_lost := Suc (s_lost s), s_disk := d\<rparr>)"

inductive_cases sched_stepE: "sched_step mapF reduceF args s t"

inductive sched_reach ::
    "map_fun \<Rightarrow> reduce_fun \<Rightarrow> DoTaskArgs list \<Rightarrow> sched \<Rightarrow> sched \<Rightarrow> bool"
  for mapF reduceF args s0 where
  start: "sched_reach mapF reduceF args s0 s0"
| step: "sched_reach mapF reduceF args s0 s \<Longrightarrow> sched_step mapF reduceF args s t \<Longrightarrow>
    sched_reach mapF reduceF args s0 t"

definition sched_finished :: "sched \<Rightarrow> bool" where
  "sched_finished s \<longleftrightarrow> list_all (\<lambda>t. t = Done) (s_tasks s)"


text \<open>
  \<open>Distributed\<close>: the two phases on the workers registered so far, then the statistics of the
  workers, then the merge. A phase starts a new \<open>forwardRegistrations\<close> from the first worker. The
  forwarder of the first phase stays blocked on the old channel, which nobody reads any more.
\<close>

definition phase_run ::
    "map_fun \<Rightarrow> reduce_fun \<Rightarrow> Master \<Rightarrow> jobPhase \<Rightarrow> string list \<Rightarrow> (string \<Rightarrow> Worker) \<Rightarrow> disk \<Rightarrow> sched \<Rightarrow> bool" where
  "phase_run mapF reduceF mr ph ws wk d s \<longleftrightarrow>
     (\<exists>args. schedule_args (jobName mr) (files mr) (nReduce mr) ph = Inr args \<and>
        sched_reach mapF reduceF args (sched_init ws wk (length args) d) s \<and> sched_finished s)"

inductive Distributed ::
    "map_fun \<Rightarrow> reduce_fun \<Rightarrow> (string \<Rightarrow> nat option) \<Rightarrow> string \<Rightarrow> string list \<Rightarrow> nat \<Rightarrow> string \<Rightarrow>
     (string \<Rightarrow> Worker) \<Rightarrow> disk \<Rightarrow> sched \<Rightarrow> sched \<Rightarrow> (Master \<times> disk) result \<Rightarrow> bool"
  for mapF reduceF call_shutdown job fs nreduce master wk d where
  run: "mr = (newMaster master)\<lparr>jobName := job, files := fs, nReduce := nreduce\<rparr> \<Longrightarrow>
    phase_run mapF reduceF mr mapPhase [] wk d s1 \<Longrightarrow>
    phase_run mapF reduceF mr reducePhase (s_workers s1) (s_wk s1) (s_disk s1) s2 \<Longrightarrow>
    mr1 = mr\<lparr>workers := s_workers s2\<rparr> \<Longrightarrow> mr2 = mr1\<lparr>stats := killWorkers call_shutdown mr1\<rparr> \<Longrightarrow>
    Distributed mapF reduceF call_shutdown job fs nreduce master wk d s1 s2
      (bindR (merge_output mr2 (s_disk s2)) (\<lambda>d3. Inr (mr2, d3)))"

inductive_cases DistributedE:
  "Distributed mapF reduceF call_shutdown job fs nreduce master wk d s1 s2 r"


section \<open>The task pool contract\<close>

fun exec_list :: "(nat \<Rightarrow> 'd \<Rightarrow> 'd result) \<Rightarrow> nat list \<Rightarrow> 'd \<Rightarrow> 'd result" where
  "exec_list exec [] d = Inr d"
| "exec_list exec (i # is) d = bindR (exec i d) (exec_list exec is)"

lemma exec_list_append: "exec_list exec (is @ js) d = bindR (exec_list exec is d) (exec_list exec js)"
  by (induction "is" arbitrary: d) (auto simp: bindR_def split: sum.splits)

locale task_pool =
  fixes ntasks :: nat
    and exec :: "nat \<Rightarrow> 'd \<Rightarrow> 'd result"
    and done_tasks :: "nat set \<Rightarrow> 'd \<Rightarrow> 'd \<Rightarrow> bool"
  assumes done_none: "done_tasks {} d d"
    and exec_done: "done_tasks T d d1 \<Longrightarrow> i \<notin> T \<Longrightarrow> i < ntasks \<Longrightarrow>
      \<exists>d2. exec i d1 = Inr d2 \<and> done_tasks (insert i T) d d2"
    and done_unique: "done_tasks T d d1 \<Longrightarrow> done_tasks T d d2 \<Longrightarrow> d1 = d2"
begin

lemma exec_list_done_from:
  "done_tasks T d d1 \<Longrightarrow> distinct is \<Longrightarrow> set is \<inter> T = {} \<Longrightarrow> set is \<subseteq> {..<ntasks} \<Longrightarrow>
   \<exists>d2. exec_list exec is d1 = Inr d2 \<and> done_tasks (T \<union> set is) d d2"
proof (induction "is" arbitrary: T d1)
  case (Cons i "is")
  obtain d2 where d2: "exec i d1 = Inr d2" "done_tasks (insert i T) d d2"
    using exec_done [of T d d1 i] Cons.prems by auto
  obtain d3 where "exec_list exec is d2 = Inr d3" "done_tasks (insert i T \<union> set is) d d3"
    using Cons.IH [OF d2(2)] Cons.prems by auto
  with d2 show ?case by auto
qed auto

lemma exec_list_done:
  assumes "distinct is" "set is \<subseteq> {..<ntasks}"
  shows "\<exists>d'. exec_list exec is d = Inr d' \<and> done_tasks (set is) d d'"
  using exec_list_done_from [OF done_none, of "is" d] assms by simp

lemma exec_order_irrelevant:
  assumes "distinct is" "distinct js" "set is = set js" "set is \<subseteq> {..<ntasks}"
  shows "exec_list exec is d = exec_list exec js d"
proof -
  obtain d1 where "exec_list exec is d = Inr d1" "done_tasks (set is) d d1"
    using exec_list_done [of "is" d] assms by auto
  moreover obtain d2 where "exec_list exec js d = Inr d2" "done_tasks (set js) d d2"
    using exec_list_done [of js d] assms by auto
  ultimately show ?thesis using done_unique assms(3) by metis
qed

end

text \<open>What the disk looks like once a set of map tasks, or of reduce tasks, has run.\<close>

definition map_done :: "string \<Rightarrow> string list \<Rightarrow> nat \<Rightarrow> map_fun \<Rightarrow> nat set \<Rightarrow> disk \<Rightarrow> disk \<Rightarrow> bool" where
  "map_done j fs n mapF T d d' \<longleftrightarrow> text_files d' = text_files d \<and>
     (\<forall>k r. k \<in> T \<longrightarrow> r < n \<longrightarrow> json_files d' (reduceName j k r) =
        Some (read_json d (reduceName j k r) @ bucket n r (mapF (fs ! k) (read_text d (fs ! k))))) \<and>
     (\<forall>g. (\<forall>k\<in>T. \<forall>r<n. g \<noteq> reduceName j k r) \<longrightarrow> json_files d' g = json_files d g)"

definition reduce_done :: "string \<Rightarrow> nat \<Rightarrow> reduce_fun \<Rightarrow> nat set \<Rightarrow> disk \<Rightarrow> disk \<Rightarrow> bool" where
  "reduce_done j nMap rf T d d' \<longleftrightarrow> text_files d' = text_files d \<and>
     (\<forall>r\<in>T. json_files d' (mergeName j r) =
        Some (read_json d (mergeName j r) @ reduce_output rf (collect_pairs j r nMap d))) \<and>
     (\<forall>g. (\<forall>r\<in>T. g \<noteq> mergeName j r) \<longrightarrow> json_files d' g = json_files d g)"

definition map_task :: "string \<Rightarrow> string list \<Rightarrow> nat \<Rightarrow> map_fun \<Rightarrow> nat \<Rightarrow> disk \<Rightarrow> disk result" where
  "map_task j fs n mapF k = doMap j k (fs ! k) n mapF"

definition reduce_task :: "string \<Rightarrow> nat \<Rightarrow> reduce_fun \<Rightarrow> nat \<Rightarrow> disk \<Rightarrow> disk result" where
  "reduce_task j nMap rf r d = Inr (doReduce j r (mergeName j r) nMap rf d)"

interpretation map_pool: task_pool "length fs" "map_task j fs (Suc n) mapF" "map_done j fs (Suc n) mapF"
  for j fs n mapF
proof
  show "map_done j fs (Suc n) mapF {} d d" for d
    by (simp add: map_done_def)
next
  fix T :: "nat set" and d d1 :: disk and i :: nat
  assume T: "map_done j fs (Suc n) mapF T d d1" and i: "i \<notin> T"
  obtain d2 where d2: "doMap j i (fs ! i) (Suc n) mapF d1 = Inr d2" "text_files d2 = text_files d1"
    "\<And>r. r < Suc n \<Longrightarrow> json_files d2 (reduceName j i r) =
       Some (read_json d1 (reduceName j i r) @ bucket (Suc n) r (mapF (fs ! i) (read_text d1 (fs ! i))))"
    "\<And>g. g \<notin> reduceName j i ` {..<Suc n} \<Longrightarrow> json_files d2 g = json_files d1 g"
    by (rule doMap_ok [of "Suc n" j i "fs ! i" mapF d1]) auto
  have rt: "read_text d1 = read_text d"
    by (rule read_text_cong) (use T in \<open>simp add: map_done_def\<close>)
  have rj: "read_json d1 (reduceName j i r) = read_json d (reduceName j i r)" for r
  proof -
    have "\<forall>k\<in>T. \<forall>r'<Suc n. reduceName j i r \<noteq> reduceName j k r'" using i by auto
    with T have "json_files d1 (reduceName j i r) = json_files d (reduceName j i r)"
      unfolding map_done_def by blast
    then show ?thesis by (simp add: read_json_def)
  qed
  have "map_done j fs (Suc n) mapF (insert i T) d d2"
    unfolding map_done_def
  proof (intro conjI allI impI)
    show "text_files d2 = text_files d" using T d2(2) by (simp add: map_done_def)
  next
    fix k r assume k: "k \<in> insert i T" and r: "r < Suc n"
    show "json_files d2 (reduceName j k r) = Some (read_json d (reduceName j k r) @
        bucket (Suc n) r (mapF (fs ! k) (read_text d (fs ! k))))"
    proof (cases "k = i")
      case True
      with r show ?thesis by (simp add: d2(3) rt rj)
    next
      case False
      then have "json_files d2 (reduceName j k r) = json_files d1 (reduceName j k r)"
        by (intro d2(4)) auto
      with False k r T show ?thesis by (simp add: map_done_def)
    qed
  next
    fix g assume g: "\<forall>k\<in>insert i T. \<forall>r<Suc n. g \<noteq> reduceName j k r"
    then have "json_files d2 g = json_files d1 g" by (intro d2(4)) auto
    also have "\<dots> = json_files d g" using g T by (simp add: map_done_def)
    finally show "json_files d2 g = json_files d g" .
  qed
  with d2(1) show "\<exists>d2. map_task j fs (Suc n) mapF i d1 = Inr d2 \<and>
      map_done j fs (Suc n) mapF (insert i T) d d2"
    by (auto simp: map_task_def)
next
  fix T :: "nat set" and d d1 d2 :: disk
  assume 1: "map_done j fs (Suc n) mapF T d d1" and 2: "map_done j fs (Suc n) mapF T d d2"
  show "d1 = d2"
  proof (rule disk_eqI)
    show "text_files d1 = text_files d2" using 1 2 by (simp add: map_done_def)
    show "json_files d1 f = json_files d2 f" for f
    proof (cases "\<exists>k\<in>T. \<exists>r<Suc n. f = reduceName j k r")
      case True
      with 1 2 show ?thesis by (auto simp: map_done_def)
    next
      case False
      then have "json_files d1 f = json_files d f" "json_files d2 f = json_files d f"
        using 1 2 unfolding map_done_def by blast+
      then show ?thesis by simp
    qed
  qed
qed

interpretation reduce_pool: task_pool n "reduce_task j nMap rf" "reduce_done j nMap rf"
  for n j nMap rf
proof
  show "reduce_done j nMap rf {} d d" for d
    by (simp add: reduce_done_def)
next
  fix T :: "nat set" and d d1 :: disk and i :: nat
  assume T: "reduce_done j nMap rf T d d1" and i: "i \<notin> T"
  let ?d2 = "doReduce j i (mergeName j i) nMap rf d1"
  have cp: "collect_pairs j r nMap d1 = collect_pairs j r nMap d" for r
    by (rule collect_pairs_cong) (use T in \<open>simp add: reduce_done_def read_json_def\<close>)
  have same: "json_files ?d2 g = json_files d1 g" if "g \<noteq> mergeName j i" for g
  proof (cases "g \<in> dom (json_files d1)")
    case True
    then show ?thesis using that by (simp add: json_files_read doReduce_read)
  next
    case False
    then have "g \<notin> dom (json_files ?d2)" using that unfolding doReduce_dom by blast
    with False show ?thesis by (metis domIff)
  qed
  have own: "json_files ?d2 (mergeName j i) =
      Some (read_json d1 (mergeName j i) @ reduce_output rf (collect_pairs j i nMap d1))"
    by (subst json_files_read) (simp_all add: doReduce_read)
  have "\<forall>r\<in>T. mergeName j i \<noteq> mergeName j r" using i by auto
  with T have "json_files d1 (mergeName j i) = json_files d (mergeName j i)"
    unfolding reduce_done_def by blast
  then have "read_json d1 (mergeName j i) = read_json d (mergeName j i)"
    by (simp add: read_json_def)
  moreover have "r \<noteq> i" if "r \<in> T" for r using that i by blast
  ultimately have "reduce_done j nMap rf (insert i T) d ?d2"
    using T own same by (auto simp: reduce_done_def cp)
  then show "\<exists>d2. reduce_task j nMap rf i d1 = Inr d2 \<and> reduce_done j nMap rf (insert i T) d d2"
    by (simp add: reduce_task_def)
next
  fix T :: "nat set" and d d1 d2 :: disk
  assume 1: "reduce_done j nMap rf T d d1" and 2: "reduce_done j nMap rf T d d2"
  show "d1 = d2"
  proof (rule disk_eqI)
    show "text_files d1 = text_files d2" using 1 2 by (simp add: reduce_done_def)
    show "json_files d1 f = json_files d2 f" for f
      using 1 2 unfolding reduce_done_def by (cases "\<exists>r\<in>T. f = mergeName j r") auto
  qed
qed


section \<open>Invariant of the scheduler\<close>

definition held :: "task_status \<Rightarrow> string multiset" where
  "held t = (case t of Holding w \<Rightarrow> {#w#} | Running w \<Rightarrow> {#w#} | _ \<Rightarrow> {#})"

definition runs :: "string \<Rightarrow> task_status \<Rightarrow> nat" where
  "runs w t = (if t = Running w then 1 else 0)"

lemma held_simps [simp]:
  "held Waiting = {#}" "held Done = {#}" "held (Holding w) = {#w#}" "held (Running w) = {#w#}"
  by (simp_all add: held_def)

lemma runs_simps [simp]:
  "runs w Waiting = 0" "runs w Done = 0" "runs w (Holding v) = 0"
  "runs w (Running v) = (if v = w then 1 else 0)"
  by (simp_all add: runs_def)

lemma sum_list_map_update:
  fixes f :: "'a \<Rightarrow> 'b::comm_monoid_add"
  shows "i < length ts \<Longrightarrow>
    sum_list (map f (ts[i := x])) + f (ts ! i) = sum_list (map f ts) + f x"
proof (induction ts arbitrary: i)
  case (Cons t ts)
  then show ?case by (cases i) (simp_all add: ac_simps)
qed simp

definition sched_inv ::
    "map_fun \<Rightarrow> reduce_fun \<Rightarrow> DoTaskArgs list \<Rightarrow> nat \<Rightarrow> disk \<Rightarrow> sched \<Rightarrow> bool" where
  "sched_inv mapF reduceF args n d s \<longleftrightarrow>
     length (s_tasks s) = n \<and> s_fwd s \<le> length (s_workers s) \<and>
     s_chan s + sum_list (map held (s_tasks s)) = mset (take (s_fwd s) (s_workers s)) \<and>
     (\<forall>w. w_concurrent (s_wk s w) = sum_list (map (runs w) (s_tasks s))) \<and>
     (s_lost s = 0 \<longrightarrow> distinct (s_log s) \<and> set (s_log s) = {i. i < n \<and> s_tasks s ! i = Done}) \<and>
     exec_list (\<lambda>i. DoTask_body mapF reduceF (args ! i)) (s_log s) d = Inr (s_disk s)"

lemma sum_list_zeros: "sum_list (replicate n (0 :: 'b::comm_monoid_add)) = 0"
  by (induction n) simp_all

lemma sched_inv_init:
  "(\<And>w. w_concurrent (wk w) = 0) \<Longrightarrow> sched_inv mapF reduceF args n d (sched_init ws wk n d)"
  by (simp add: sched_inv_def sched_init_def sum_list_zeros [where 'b = "string multiset"])

lemma in_sum_held: "i < length ts \<Longrightarrow> held (ts ! i) \<subseteq># sum_list (map held ts)"
proof (induction ts arbitrary: i)
  case (Cons t ts)
  then show ?case
    by (cases i) (auto intro: subset_mset.order_trans [OF _ mset_subset_eq_add_right])
qed simp

lemma held_worker_registered:
  assumes "sched_inv mapF reduceF args n d s" "i < n" "w \<in># held (s_tasks s ! i)"
  shows "w \<in> set (s_workers s)"
proof -
  have "w \<in># sum_list (map held (s_tasks s))"
    using in_sum_held [of i "s_tasks s"] assms by (auto simp: sched_inv_def dest: mset_subset_eqD)
  then have "w \<in># mset (take (s_fwd s) (s_workers s))"
    using assms(1) unfolding sched_inv_def by (metis UnCI set_mset_union)
  then show ?thesis by (auto dest: in_set_takeD)
qed

lemma runs_unregistered:
  assumes "sched_inv mapF reduceF args n d s" "w \<notin> set (s_workers s)"
  shows "sum_list (map (runs w) (s_tasks s)) = 0"
proof -
  have "runs w (s_tasks s ! i) = 0" if "i < n" for i
    using held_worker_registered [OF assms(1) that, of w] assms(2)
    by (cases "s_tasks s ! i") (auto simp: runs_def)
  then show ?thesis using assms(1) by (auto simp: sched_inv_def in_set_conv_nth)
qed

lemma runs_le_held: "sum_list (map (runs w) ts) \<le> count (sum_list (map held ts)) w"
  by (induction ts) (auto simp: runs_def held_def split: task_status.splits)

lemma held_count_le_1:
  assumes "sched_inv mapF reduceF args n d s" "distinct (s_workers s)"
  shows "count (sum_list (map held (s_tasks s))) w \<le> 1"
proof -
  have "count (sum_list (map held (s_tasks s))) w \<le> count (mset (take (s_fwd s) (s_workers s))) w"
    using assms(1) unfolding sched_inv_def by (metis count_union le_add2)
  also have "\<dots> \<le> 1"
    using distinct_take [OF assms(2), of "s_fwd s"] unfolding distinct_count_atmost_1 by simp
  finally show ?thesis .
qed


text \<open>Every step keeps the invariant, while the registered worker names are distinct.\<close>

lemma DoTask_begin_concurrent:
  "DoTask_begin wk = Inr wk' \<Longrightarrow> w_concurrent wk' = Suc (w_concurrent wk)"
  by (auto simp: DoTask_begin_def Let_def split: if_splits)

lemma DoTask_end_concurrent [simp]: "w_concurrent (DoTask_end wk) = w_concurrent wk - 1"
  by (simp add: DoTask_end_def)

lemma Done_after_update:
  "i < n \<Longrightarrow> length ts = n \<Longrightarrow> ts ! i \<noteq> Done \<Longrightarrow> x \<noteq> Done \<Longrightarrow>
   {k. k < n \<and> ts[i := x] ! k = Done} = {k. k < n \<and> ts ! k = Done}"
  by (auto simp: nth_list_update)

lemma sched_step_inv:
  assumes "sched_step mapF reduceF args s t" "sched_inv mapF reduceF args n d s"
    "distinct (s_workers t)"
  shows "sched_inv mapF reduceF args n d t"
  using assms(1)
proof cases
  case (register w nRPC par)
  then have "w \<notin> set (s_workers s)" using assms(3) by simp
  then have "sum_list (map (runs w) (s_tasks s)) = 0" by (rule runs_unregistered [OF assms(2)])
  with register assms(2) show ?thesis by (auto simp: sched_inv_def new_worker_def)
next
  case forward
  with assms(2) show ?thesis by (simp add: sched_inv_def take_Suc_conv_app_nth)
next
  case (receive i w)
  have "sum_list (map held ((s_tasks s)[i := Holding w])) = add_mset w (sum_list (map held (s_tasks s)))"
    using sum_list_map_update [of i "s_tasks s" held "Holding w"] receive by simp
  then have "s_chan t + sum_list (map held (s_tasks t)) = s_chan s + sum_list (map held (s_tasks s))"
    using receive by simp
  moreover have "sum_list (map (runs v) ((s_tasks s)[i := Holding w])) = sum_list (map (runs v) (s_tasks s))" for v
    using sum_list_map_update [of i "s_tasks s" "runs v" "Holding w"] receive by simp
  ultimately show ?thesis
    using receive assms(2) Done_after_update [of i n "s_tasks s" "Holding w"]
    by (auto simp: sched_inv_def)
next
  case (dial_ok i w wk)
  have "sum_list (map held ((s_tasks s)[i := Running w])) = sum_list (map held (s_tasks s))"
    using sum_list_map_update [of i "s_tasks s" held "Running w"] dial_ok by simp
  moreover have "sum_list (map (runs v) ((s_tasks s)[i := Running w])) =
      sum_list (map (runs v) (s_tasks s)) + (if v = w then 1 else 0)" for v
    using sum_list_map_update [of i "s_tasks s" "runs v" "Running w"] dial_ok by auto
  ultimately show ?thesis
    using dial_ok assms(2) Done_after_update [of i n "s_tasks s" "Running w"]
    by (auto simp: sched_inv_def dest: DoTask_begin_concurrent)
next
  case (dial_failed i w)
  have "sum_list (map held (s_tasks s)) = add_mset w (sum_list (map held ((s_tasks s)[i := Waiting])))"
    using sum_list_map_update [of i "s_tasks s" held Waiting] dial_failed by simp
  moreover have "sum_list (map (runs v) ((s_tasks s)[i := Waiting])) = sum_list (map (runs v) (s_tasks s))" for v
    using sum_list_map_update [of i "s_tasks s" "runs v" Waiting] dial_failed by simp
  ultimately show ?thesis
    using dial_failed assms(2) Done_after_update [of i n "s_tasks s" Waiting]
    by (auto simp: sched_inv_def)
next
  case (call_ok i w d1)
  have "sum_list (map held (s_tasks s)) = add_mset w (sum_list (map held ((s_tasks s)[i := Done])))"
    using sum_list_map_update [of i "s_tasks s" held Done] call_ok by simp
  moreover have "sum_list (map (runs v) (s_tasks s)) =
      sum_list (map (runs v) ((s_tasks s)[i := Done])) + (if v = w then 1 else 0)" for v
    using sum_list_map_update [of i "s_tasks s" "runs v" Done] call_ok by auto
  moreover have "{k. k < n \<and> (s_tasks s)[i := Done] ! k = Done} = insert i {k. k < n \<and> s_tasks s ! k = Done}"
    using call_ok assms(2) by (auto simp: sched_inv_def nth_list_update)
  ultimately show ?thesis
    using call_ok assms(2)
    by (auto simp: sched_inv_def exec_list_append)
next
  case (call_lost i w d1)
  have "sum_list (map held (s_tasks s)) = add_mset w (sum_list (map held ((s_tasks s)[i := Waiting])))"
    using sum_list_map_update [of i "s_tasks s" held Waiting] call_lost by simp
  moreover have "sum_list (map (runs v) (s_tasks s)) =
      sum_list (map (runs v) ((s_tasks s)[i := Waiting])) + (if v = w then 1 else 0)" for v
    using sum_list_map_update [of i "s_tasks s" "runs v" Waiting] call_lost by auto
  ultimately show ?thesis
    using call_lost assms(2) by (auto simp: sched_inv_def exec_list_append)
qed

lemma sched_step_workers: "sched_step mapF reduceF args s t \<Longrightarrow> \<exists>ws. s_workers t = s_workers s @ ws"
  by (auto elim!: sched_stepE)

lemma sched_reach_inv:
  assumes "sched_reach mapF reduceF args s0 s" "sched_inv mapF reduceF args n d s0"
    "distinct (s_workers s)"
  shows "sched_inv mapF reduceF args n d s"
  using assms
proof (induction rule: sched_reach.induct)
  case (step s t)
  then have "distinct (s_workers s)" using sched_step_workers by (metis distinct_append)
  with step show ?case by (blast intro: sched_step_inv)
qed simp

section \<open>What the phases compute\<close>

lemma task_args_map:
  "i < length fs \<Longrightarrow> task_args j fs n mapPhase i =
     Inr \<lparr>JobName = j, File = fs ! i, Phase = mapPhase, TaskNumber = i, NumOtherPhase = n\<rparr>"
  by (simp add: task_args_def phase_sizes_def)

lemma schedule_args_from_ok:
  "(\<And>i. i \<in> set is \<Longrightarrow> i < length fs) \<Longrightarrow>
   schedule_args_from j fs n ph is = Inr (map (\<lambda>i. \<lparr>JobName = j, File = fs ! i, Phase = ph,
      TaskNumber = i, NumOtherPhase = snd (phase_sizes fs n ph)\<rparr>) is)"
  by (induction "is") (simp_all add: task_args_def)

lemma schedule_args_from_panic:
  "i \<in> set is \<Longrightarrow> length fs \<le> i \<Longrightarrow> schedule_args_from j fs n ph is = Inl Panic"
proof (induction "is")
  case (Cons k "is")
  then show ?case
    by (cases "k < length fs") (auto simp: task_args_def)
qed simp

lemma schedule_args_ok:
  assumes "fst (phase_sizes fs n ph) \<le> length fs"
  shows "schedule_args j fs n ph = Inr (map (\<lambda>i. \<lparr>JobName = j, File = fs ! i, Phase = ph,
      TaskNumber = i, NumOtherPhase = snd (phase_sizes fs n ph)\<rparr>) [0..<fst (phase_sizes fs n ph)])"
  unfolding schedule_args_def using assms by (intro schedule_args_from_ok) auto

lemma map_phase_exec_list:
  "i + length gs = length fs \<Longrightarrow> drop i fs = gs \<Longrightarrow>
   map_phase j i gs n mapF d = exec_list (map_task j fs n mapF) [i..<length fs] d"
proof (induction gs arbitrary: i d)
  case (Cons g gs)
  then have "g = fs ! i" "drop (Suc i) fs = gs" "i < length fs"
    by (auto simp: nth_via_drop drop_Suc simp flip: tl_drop)
  with Cons show ?case
    by (simp add: upt_conv_Cons map_task_def bindR_def split: sum.split)
qed simp


lemma reduce_phase_exec_list:
  "Inr (reduce_phase j nMap n rf d) = exec_list (reduce_task j nMap rf) [0..<n] d"
proof -
  have "exec_list (reduce_task j nMap rf) is d =
      Inr (fold (\<lambda>i. doReduce j i (mergeName j i) nMap rf) is d)" for "is" d
    by (induction "is" arbitrary: d) (simp_all add: reduce_task_def)
  then show ?thesis by (simp add: reduce_phase_def)
qed

lemma exec_list_cong:
  "(\<And>i. i \<in> set is \<Longrightarrow> f i = g i) \<Longrightarrow> exec_list f is d = exec_list g is d"
  by (induction "is" arbitrary: d) (auto simp: bindR_def split: sum.splits)

lemma sched_finished_log:
  assumes "sched_inv mapF reduceF args n d s" "sched_finished s" "s_lost s = 0"
  shows "distinct (s_log s)" "set (s_log s) = {..<n}"
  using assms by (auto simp: sched_inv_def sched_finished_def list_all_length)

lemma schedule_args_length:
  "schedule_args j fs n ph = Inr args \<Longrightarrow>
   length args = fst (phase_sizes fs n ph) \<and> fst (phase_sizes fs n ph) \<le> length fs"
proof -
  assume a: "schedule_args j fs n ph = Inr args"
  have le: "fst (phase_sizes fs n ph) \<le> length fs"
  proof (rule ccontr)
    assume "\<not> ?thesis"
    then have "schedule_args j fs n ph = Inl Panic"
      unfolding schedule_args_def by (intro schedule_args_from_panic [of "length fs"]) auto
    with a show False by simp
  qed
  with schedule_args_ok [OF le, of j] a show ?thesis by auto
qed

lemma DoTask_body_args:
  assumes "schedule_args j fs n ph = Inr args" "i < length args"
  shows "DoTask_body mapF rf (args ! i) =
    (case ph of mapPhase \<Rightarrow> map_task j fs n mapF i | reducePhase \<Rightarrow> reduce_task j (length fs) rf i)"
proof -
  have "args ! i = \<lparr>JobName = j, File = fs ! i, Phase = ph, TaskNumber = i,
      NumOtherPhase = snd (phase_sizes fs n ph)\<rparr>"
    using schedule_args_ok [of fs n ph j] schedule_args_length [OF assms(1)] assms by auto
  then show ?thesis
    by (cases ph) (simp_all add: DoTask_body_def map_task_def reduce_task_def phase_sizes_def fun_eq_iff)
qed

lemma schedule_disk:
  assumes args: "schedule_args j fs (Suc n) ph = Inr args"
    and inv: "sched_inv mapF rf args (length args) d s" and fin: "sched_finished s" and lost: "s_lost s = 0"
  shows "Inr (s_disk s) =
    (case ph of mapPhase \<Rightarrow> map_phase j 0 fs (Suc n) mapF d
     | reducePhase \<Rightarrow> Inr (reduce_phase j (length fs) (Suc n) rf d))"
proof -
  note log = sched_finished_log [OF inv fin lost]
  have len: "length args = fst (phase_sizes fs (Suc n) ph)"
    using schedule_args_length [OF args] by simp
  have "Inr (s_disk s) = exec_list (\<lambda>i. DoTask_body mapF rf (args ! i)) (s_log s) d"
    using inv by (simp add: sched_inv_def)
  also have "\<dots> = exec_list (\<lambda>i. case ph of mapPhase \<Rightarrow> map_task j fs (Suc n) mapF i
      | reducePhase \<Rightarrow> reduce_task j (length fs) rf i) (s_log s) d"
    by (rule exec_list_cong) (use log(2) DoTask_body_args [OF args] in auto)
  also have "\<dots> = (case ph of mapPhase \<Rightarrow> map_phase j 0 fs (Suc n) mapF d
     | reducePhase \<Rightarrow> Inr (reduce_phase j (length fs) (Suc n) rf d))"
  proof (cases ph)
    case mapPhase
    then have "exec_list (map_task j fs (Suc n) mapF) (s_log s) d =
        exec_list (map_task j fs (Suc n) mapF) [0..<length fs] d"
      using log len by (intro map_pool.exec_order_irrelevant) (simp_all add: phase_sizes_def lessThan_atLeast0)
    with mapPhase show ?thesis by (simp add: map_phase_exec_list [where fs = fs])
  next
    case reducePhase
    then have "exec_list (reduce_task j (length fs) rf) (s_log s) d =
        exec_list (reduce_task j (length fs) rf) [0..<Suc n] d"
      using log len by (intro reduce_pool.exec_order_irrelevant [of _ _ "Suc n"])
        (simp_all only: phase_sizes_def jobPhase.case fst_conv lessThan_atLeast0 set_upt distinct_upt subset_refl)
    with reducePhase show ?thesis by (simp only: reduce_phase_exec_list jobPhase.case)
  qed
  finally show ?thesis .
qed

lemma two_holders_count:
  assumes "i < length ts" "k < length ts" "i \<noteq> k" "w \<in># held (ts ! i)" "w \<in># held (ts ! k)"
  shows "2 \<le> count (sum_list (map held ts)) w"
proof -
  let ?rest = "sum_list (map held (ts[i := Waiting]))"
  have "held (ts ! i) = {#w#}" using assms(4) by (cases "ts ! i") auto
  then have "sum_list (map held ts) = add_mset w ?rest"
    using sum_list_map_update [of i ts held Waiting] assms(1) by simp
  moreover have "w \<in># ?rest"
    using in_sum_held [of k "ts[i := Waiting]"] assms by (auto dest: mset_subset_eqD)
  then have "1 \<le> count ?rest w" by (simp add: Suc_le_eq)
  ultimately show ?thesis by simp
qed

lemma holder_alone:
  assumes "sched_inv mapF rf args n d s" "distinct (s_workers s)" "i < n" "w \<in># held (s_tasks s ! i)"
    "k < n" "k \<noteq> i"
  shows "w \<notin># held (s_tasks s ! k)"
  using two_holders_count [of i "s_tasks s" k w] held_count_le_1 [OF assms(1,2), of w] assms
  by (auto simp: sched_inv_def)

lemma holder_idle:
  assumes inv: "sched_inv mapF rf args n d s" and ws: "distinct (s_workers s)" and i: "i < n"
    and h: "s_tasks s ! i = Holding w"
  shows "w_concurrent (s_wk s w) = 0"
proof -
  have "runs w (s_tasks s ! k) = 0" if "k < n" for k
    using holder_alone [OF inv ws i, of w k] that h by (cases "k = i"; cases "s_tasks s ! k") auto
  then have "sum_list (map (runs w) (s_tasks s)) = 0"
    using inv by (auto simp: in_set_conv_nth sched_inv_def)
  then show ?thesis using inv by (simp add: sched_inv_def)
qed

lemma DoTask_body_total:
  assumes "schedule_args j fs (Suc n) ph = Inr args" "i < length args"
  shows "\<exists>d'. DoTask_body mapF rf (args ! i) d = Inr d'"
proof (cases ph)
  case mapPhase
  have "\<exists>d'. doMap j i (fs ! i) (Suc n) mapF d = Inr d'"
    by (rule doMap_ok [of "Suc n" j i "fs ! i" mapF d]) auto
  with mapPhase show ?thesis
    using DoTask_body_args [OF assms, of mapF rf] by (simp add: map_task_def)
next
  case reducePhase
  then show ?thesis using DoTask_body_args [OF assms, of mapF rf] by (simp add: reduce_task_def)
qed

text \<open>How far the goroutines of a phase are from the end of it.\<close>

definition task_rank :: "task_status \<Rightarrow> nat" where
  "task_rank t = (case t of Waiting \<Rightarrow> 3 | Holding w \<Rightarrow> 2 | Running w \<Rightarrow> 1 | Done \<Rightarrow> 0)"

definition sched_rank :: "sched \<Rightarrow> nat" where
  "sched_rank s = sum_list (map task_rank (s_tasks s)) + (length (s_workers s) - s_fwd s)"

lemma task_rank_simps [simp]:
  "task_rank Waiting = 3" "task_rank (Holding w) = 2" "task_rank (Running w) = 1" "task_rank Done = 0"
  by (simp_all add: task_rank_def)

lemma held_none_sum:
  "(\<And>k. k < length ts \<Longrightarrow> held (ts ! k) = {#}) \<Longrightarrow> sum_list (map held ts) = {#}"
proof (induction ts)
  case (Cons t ts)
  from Cons.prems [of 0] Cons.prems [of "Suc _"] Cons.IH show ?case by simp
qed simp

lemma sched_progress_held:
  assumes args: "schedule_args j fs (Suc n) ph = Inr args"
    and inv: "sched_inv mapF rf args (length args) d s" and ws: "distinct (s_workers s)"
    and i: "i < length (s_tasks s)" and h: "held (s_tasks s ! i) \<noteq> {#}"
  shows "\<exists>t. sched_step mapF rf args s t \<and> sched_rank t < sched_rank s \<and>
    s_workers t = s_workers s \<and> s_lost t = s_lost s"
proof -
  have len: "length (s_tasks s) = length args" using inv by (simp add: sched_inv_def)
  consider (hold) w where "s_tasks s ! i = Holding w" | (run) w where "s_tasks s ! i = Running w"
    using h by (cases "s_tasks s ! i") auto
  then show ?thesis
  proof cases
    case (hold w)
    then have "w_concurrent (s_wk s w) = 0" using holder_idle [OF inv ws] i len by simp
    then obtain wk where "DoTask_begin (s_wk s w) = Inr wk" by (simp add: DoTask_begin_def)
    from sched_step.dial_ok [OF i hold this, of mapF rf args]
      sum_list_map_update [OF i, of task_rank "Running w"] hold
    show ?thesis by (intro exI conjI) (assumption, auto simp: sched_rank_def)
  next
    case (run w)
    obtain d' where "DoTask_body mapF rf (args ! i) (s_disk s) = Inr d'"
      using DoTask_body_total [OF args, of i mapF rf "s_disk s"] i len by auto
    from sched_step.call_ok [OF i run this]
      sum_list_map_update [OF i, of task_rank Done] run
    show ?thesis by (intro exI conjI) (assumption, auto simp: sched_rank_def)
  qed
qed

lemma sched_progress:
  assumes args: "schedule_args j fs (Suc n) ph = Inr args"
    and inv: "sched_inv mapF rf args (length args) d s"
    and ws: "distinct (s_workers s)" "s_workers s \<noteq> []" and nf: "\<not> sched_finished s"
  shows "\<exists>t. sched_step mapF rf args s t \<and> sched_rank t < sched_rank s \<and>
    s_workers t = s_workers s \<and> s_lost t = s_lost s"
proof -
  have len: "length (s_tasks s) = length args" using inv by (simp add: sched_inv_def)
  obtain i where i: "i < length (s_tasks s)" "s_tasks s ! i \<noteq> Done"
    using nf by (auto simp: sched_finished_def list_all_length)
  show ?thesis
  proof (cases "s_tasks s ! i")
    case Waiting
    consider (chan) w where "w \<in># s_chan s" | (fwd) "s_fwd s < length (s_workers s)"
      | (empty) "s_chan s = {#}" "s_fwd s = length (s_workers s)"
      using inv by (fastforce simp: sched_inv_def)
    then show ?thesis
    proof cases
      case (chan w)
      have "sched_step mapF rf args s (s\<lparr>s_chan := s_chan s - {#w#}, s_tasks := (s_tasks s)[i := Holding w]\<rparr>)"
        using i(1) Waiting chan by (rule sched_step.receive)
      moreover have "Suc (sum_list (map task_rank ((s_tasks s)[i := Holding w]))) = sum_list (map task_rank (s_tasks s))"
        using sum_list_map_update [OF i(1), of task_rank "Holding w"] Waiting by simp
      ultimately show ?thesis by (intro exI conjI) (assumption, auto simp: sched_rank_def)
    next
      case fwd
      from sched_step.forward [OF this, of mapF rf args] fwd show ?thesis
        by (intro exI conjI) (assumption, auto simp: sched_rank_def)
    next
      case empty
      then have "sum_list (map held (s_tasks s)) \<noteq> {#}"
        using inv ws(2) by (simp add: sched_inv_def)
      then obtain k where k: "k < length (s_tasks s)" "held (s_tasks s ! k) \<noteq> {#}"
        using held_none_sum [of "s_tasks s"] by blast
      show ?thesis by (rule sched_progress_held [OF args inv ws(1) k])
    qed
  next
    case (Holding w)
    with i(1) show ?thesis by (intro sched_progress_held [OF args inv ws(1)]) auto
  next
    case (Running w)
    with i(1) show ?thesis by (intro sched_progress_held [OF args inv ws(1)]) auto
  qed (use i in simp)
qed

lemma sched_reach_step_first:
  "sched_reach mapF rf args t u \<Longrightarrow> sched_step mapF rf args s t \<Longrightarrow> sched_reach mapF rf args s u"
  by (induction rule: sched_reach.induct) (blast intro: sched_reach.intros)+

lemma sched_reach_trans:
  "sched_reach mapF rf args t u \<Longrightarrow> sched_reach mapF rf args s t \<Longrightarrow> sched_reach mapF rf args s u"
  by (induction rule: sched_reach.induct) (blast intro: sched_reach.intros)+

lemma sched_can_finish:
  assumes args: "schedule_args j fs (Suc n) ph = Inr args"
    and "sched_inv mapF rf args (length args) d s" "distinct (s_workers s)" "s_workers s \<noteq> []"
  shows "\<exists>t. sched_reach mapF rf args s t \<and> sched_finished t \<and> s_lost t = s_lost s \<and>
    s_workers t = s_workers s"
  using assms(2-)
proof (induction "sched_rank s" arbitrary: s rule: less_induct)
  case less
  show ?case
  proof (cases "sched_finished s")
    case True
    then show ?thesis by (blast intro: sched_reach.start)
  next
    case False
    obtain t where t: "sched_step mapF rf args s t" "sched_rank t < sched_rank s"
      "s_workers t = s_workers s" "s_lost t = s_lost s"
      using sched_progress [OF args less.prems False] by blast
    moreover have "sched_inv mapF rf args (length args) d t"
      using sched_step_inv [OF t(1) less.prems(1)] less.prems(2) t(3) by simp
    ultimately obtain u where "sched_reach mapF rf args t u" "sched_finished u"
      "s_lost u = s_lost t" "s_workers u = s_workers t"
      using less.hyps [of t] less.prems by auto
    with t show ?thesis by (metis sched_reach_step_first)
  qed
qed

lemma finished_idle:
  assumes "sched_inv mapF rf args n d s" "sched_finished s"
  shows "w_concurrent (s_wk s w) = 0"
proof -
  have "sum_list (map (runs w) (s_tasks s)) = 0"
    using assms(2) by (auto simp: sched_finished_def list_all_iff)
  with assms(1) show ?thesis by (simp add: sched_inv_def)
qed

lemma sched_reach_workers:
  "sched_reach mapF rf args s0 s \<Longrightarrow> \<exists>ws. s_workers s = s_workers s0 @ ws"
  by (induction rule: sched_reach.induct) (auto dest!: sched_step_workers)

lemma phase_run_sequential:
  assumes run: "phase_run mapF rf mr ph ws wk d s" and idle: "\<And>w. w_concurrent (wk w) = 0"
    and ws: "distinct (s_workers s)" and lost: "s_lost s = 0" and n: "nReduce mr = Suc n"
  shows "seq_schedule mapF rf mr ph d = Inr (s_disk s) \<and> (\<forall>w. w_concurrent (s_wk s w) = 0) \<and>
    (\<exists>vs. s_workers s = ws @ vs)"
proof -
  obtain args where args: "schedule_args (jobName mr) (files mr) (Suc n) ph = Inr args"
    and reach: "sched_reach mapF rf args (sched_init ws wk (length args) d) s" and fin: "sched_finished s"
    using run n by (auto simp: phase_run_def)
  have inv: "sched_inv mapF rf args (length args) d s"
    using sched_reach_inv [OF reach sched_inv_init ws] idle by simp
  have "\<exists>vs. s_workers s = ws @ vs"
    using sched_reach_workers [OF reach] by (simp add: sched_init_def)
  then show ?thesis
    using schedule_disk [OF args inv fin lost] finished_idle [OF inv fin] n
    by (cases ph) (simp_all add: seq_schedule_def)
qed

lemma phase_can_run:
  assumes args: "schedule_args (jobName mr) (files mr) (Suc n) ph = Inr args" and n: "nReduce mr = Suc n"
    and idle: "\<And>w. w_concurrent (wk w) = 0" and ws: "distinct ws" "set ws \<subseteq> {w}"
  shows "\<exists>s. phase_run mapF rf mr ph ws wk d s \<and> s_workers s = [w] \<and> s_lost s = 0"
proof -
  let ?s0 = "sched_init ws wk (length args) d"
  define s1 where "s1 = (if ws = [] then ?s0\<lparr>s_workers := s_workers ?s0 @ [w],
      s_wk := (s_wk ?s0)(w := new_worker w 0 None)\<rparr> else ?s0)"
  have "ws = [] \<or> ws = [w]" using ws by (cases ws rule: list.exhaust; cases "tl ws") auto
  then have s1: "s_workers s1 = [w]" "s_lost s1 = 0"
    by (auto simp: s1_def sched_init_def)
  have reach: "sched_reach mapF rf args ?s0 s1"
  proof (cases "ws = []")
    case True
    then have "s1 = ?s0\<lparr>s_workers := s_workers ?s0 @ [w], s_wk := (s_wk ?s0)(w := new_worker w 0 None)\<rparr>"
      by (simp add: s1_def)
    then show ?thesis
      using sched_reach.step [OF sched_reach.start sched_step.register [of mapF rf args ?s0 w 0 None]]
      by simp
  next
    case False
    then show ?thesis by (simp add: s1_def sched_reach.start)
  qed
  have "sched_inv mapF rf args (length args) d s1"
    using sched_reach_inv [OF reach sched_inv_init] idle s1 by simp
  then obtain t where "sched_reach mapF rf args s1 t" "sched_finished t" "s_lost t = 0" "s_workers t = [w]"
    using sched_can_finish [OF args, of mapF rf d s1] s1 by auto
  with reach args n show ?thesis by (auto simp: phase_run_def intro: sched_reach_trans)
qed

section \<open>Properties\<close>


text \<open>One worker, one map task: the run that receives the worker, calls it and gets the reply.\<close>

definition demo_args :: "DoTaskArgs list" where
  "demo_args = [\<lparr>JobName = ''t'', File = ''a'', Phase = mapPhase, TaskNumber = 0, NumOtherPhase = 1\<rparr>]"

definition demo_worker :: "string \<Rightarrow> Worker" where
  "demo_worker w = new_worker w (- 1) None"

lemma demo_schedule_args: "schedule_args ''t'' [''a''] 1 mapPhase = Inr demo_args"
  by (simp add: schedule_args_def phase_sizes_def task_args_def demo_args_def)

lemma demo_run:
  "\<exists>s. sched_reach demo_mapF rf demo_args (sched_init [''w''] demo_worker 1 demo_disk) s \<and>
       s_workers s = [''w''] \<and> sched_finished s \<and> s_lost s = 0"
proof -
  obtain d where d: "DoTask_body demo_mapF rf (demo_args ! 0) demo_disk = Inr d"
    using doMap_ok [of 1 "''t''" 0 "''a''" demo_mapF demo_disk]
    by (auto simp: demo_args_def DoTask_body_def)
  define s0 where "s0 = sched_init [''w''] demo_worker 1 demo_disk"
  define s1 where "s1 = s0\<lparr>s_chan := {#''w''#}, s_fwd := 1\<rparr>"
  define s2 where "s2 = s1\<lparr>s_chan := {#}, s_tasks := [Holding ''w'']\<rparr>"
  define wk where "wk = \<lparr>w_name = ''w'', w_nRPC = - 1, w_nTasks = 1, w_concurrent = 1, w_parallelism = None\<rparr>"
  define s3 where "s3 = s2\<lparr>s_tasks := [Running ''w''], s_wk := (s_wk s2)(''w'' := wk)\<rparr>"
  define s4 where "s4 = s3\<lparr>s_chan := {#''w''#}, s_tasks := [Done],
      s_wk := (s_wk s3)(''w'' := DoTask_end (s_wk s3 ''w'')), s_log := [0], s_disk := d\<rparr>"
  note defs = s0_def s1_def s2_def s3_def s4_def sched_init_def
  have 1: "sched_step demo_mapF rf demo_args s0 s1"
    using sched_step.forward [of s0] by (simp add: defs)
  have 2: "sched_step demo_mapF rf demo_args s1 s2"
    using sched_step.receive [of 0 s1 "''w''"] by (simp add: defs)
  have "DoTask_begin (s_wk s2 ''w'') = Inr wk"
    by (simp add: defs wk_def demo_worker_def new_worker_def DoTask_begin_def)
  then have 3: "sched_step demo_mapF rf demo_args s2 s3"
    using sched_step.dial_ok [of 0 s2 "''w''" wk] by (simp add: defs)
  have 4: "sched_step demo_mapF rf demo_args s3 s4"
    using sched_step.call_ok [of 0 s3 "''w''" demo_mapF rf demo_args d] d by (simp add: defs)
  have "sched_reach demo_mapF rf demo_args s0 s4"
    using sched_reach.step [OF sched_reach.step [OF sched_reach.step [OF sched_reach.step
      [OF sched_reach.start 1] 2] 3] 4] .
  then show ?thesis
    by (intro exI [of _ s4]) (simp add: s0_def, simp add: defs sched_finished_def)
qed


text \<open>
  C5: a distributed job that completes without a lost reply leaves the same disk, merged output
  included, as the sequential job on the same input.
\<close>

theorem Distributed_matches_Sequential:
  assumes "Distributed mapF rf cs j fs (Suc n) master wk d s1 s2 r"
    and "\<And>w. w_concurrent (wk w) = 0" and "distinct (s_workers s2)"
    and "s_lost s1 = 0" and "s_lost s2 = 0"
  shows "\<exists>mr. r = map_sum id (\<lambda>(_, d'). (mr, d')) (Sequential j fs (Suc n) mapF rf d)"
proof -
  let ?mr = "(newMaster master)\<lparr>jobName := j, files := fs, nReduce := Suc n\<rparr>"
  let ?mr1 = "?mr\<lparr>workers := s_workers s2\<rparr>"
  let ?mr2 = "?mr1\<lparr>stats := killWorkers cs ?mr1\<rparr>"
  have run1: "phase_run mapF rf ?mr mapPhase [] wk d s1"
    and run2: "phase_run mapF rf ?mr reducePhase (s_workers s1) (s_wk s1) (s_disk s1) s2"
    and r: "r = bindR (merge_output ?mr2 (s_disk s2)) (\<lambda>d3. Inr (?mr2, d3))"
    using assms(1) by (elim DistributedE; simp)+
  have n: "nReduce ?mr = Suc n" by simp
  have "\<exists>vs. s_workers s2 = s_workers s1 @ vs"
    using run2 by (auto simp: phase_run_def sched_init_def dest!: sched_reach_workers)
  then have "distinct (s_workers s1)" using assms(3) by (metis distinct_append)
  note p1 = phase_run_sequential [OF run1 assms(2) this assms(4) n]
  note p2 = phase_run_sequential [OF run2 _ assms(3,5) n]
  let ?sq = "(newMaster ''master'')\<lparr>jobName := j, files := fs, nReduce := Suc n\<rparr>"
  have seq: "seq_schedule mapF rf ?sq mapPhase d = Inr (s_disk s1)"
    "seq_schedule mapF rf ?sq reducePhase (s_disk s1) = Inr (s_disk s2)"
    using p1 p2 by (simp_all add: seq_schedule_def)
  have "merge_output (?sq\<lparr>stats := st\<rparr>) e = merge_output ?mr2 e" for st e
    by (simp add: merge_output_def)
  then have "Sequential j fs (Suc n) mapF rf d =
      bindR (merge_output ?mr2 (s_disk s2)) (\<lambda>d3. Inr (?sq\<lparr>stats := [length fs + Suc n]\<rparr>, d3))"
    using seq by (simp add: Sequential_def run_job_def Let_def)
  then show ?thesis
    unfolding r by (auto simp: bindR_def split: sum.splits)
qed

theorem Distributed_matches_Sequential_witness:
  "\<exists>s1 s2 r mr. Distributed demo_mapF (\<lambda>k vs. ''x'') (\<lambda>w. Some 2) ''t'' [''a''] 1 ''m'' demo_worker demo_disk s1 s2 r \<and>
     r = map_sum id (\<lambda>(_, d'). (mr, d')) (Sequential ''t'' [''a''] 1 demo_mapF (\<lambda>k vs. ''x'') demo_disk)"
proof -
  let ?rf = "\<lambda>(k :: string) (vs :: string list). ''x''"
  let ?mr = "(newMaster ''m'')\<lparr>jobName := ''t'', files := [''a''], nReduce := 1\<rparr>"
  have idle: "w_concurrent (demo_worker w) = 0" for w by (simp add: demo_worker_def new_worker_def)
  define the_args where "the_args ph = [\<lparr>JobName = ''t'', File = ''a'', Phase = ph, TaskNumber = 0,
      NumOtherPhase = 1\<rparr>]" for ph
  have args: "schedule_args ''t'' [''a''] (Suc 0) ph = Inr (the_args ph)" for ph
    using schedule_args_ok [of "[''a'']" "Suc 0" ph "''t''"]
    by (cases ph) (simp_all add: phase_sizes_def the_args_def)
  obtain s1 where s1: "phase_run demo_mapF ?rf ?mr mapPhase [] demo_worker demo_disk s1"
    "s_workers s1 = [''w'']" "s_lost s1 = 0"
    using phase_can_run [of ?mr 0 mapPhase "the_args mapPhase" demo_worker "[]" "''w''" demo_mapF ?rf demo_disk] args idle
    by auto
  have idle1: "w_concurrent (s_wk s1 w) = 0" for w
    using phase_run_sequential [OF s1(1) idle, of 0] s1 by simp
  obtain s2 where s2: "phase_run demo_mapF ?rf ?mr reducePhase (s_workers s1) (s_wk s1) (s_disk s1) s2"
    "s_workers s2 = [''w'']" "s_lost s2 = 0"
    using phase_can_run [of ?mr 0 reducePhase "the_args reducePhase" "s_wk s1" "[''w'']" "''w''" demo_mapF ?rf "s_disk s1"]
      args idle1 s1(2) by auto
  note run = Distributed.run [OF refl s1(1) s2(1) refl refl, of "\<lambda>w. Some 2"]
  from Distributed_matches_Sequential [OF run [folded One_nat_def, unfolded One_nat_def] idle] s1 s2
  obtain mr where "bindR (merge_output (?mr\<lparr>workers := s_workers s2,
        stats := killWorkers (\<lambda>w. Some 2) (?mr\<lparr>workers := s_workers s2\<rparr>)\<rparr>) (s_disk s2))
      (\<lambda>d3. Inr (?mr\<lparr>workers := s_workers s2, stats := killWorkers (\<lambda>w. Some 2) (?mr\<lparr>workers := s_workers s2\<rparr>)\<rparr>, d3))
    = map_sum id (\<lambda>(_, d'). (mr, d')) (Sequential ''t'' [''a''] 1 demo_mapF ?rf demo_disk)"
    by auto
  with run show ?thesis by blast
qed

text \<open>
  A worker never receives a second task while it executes one, so the fatal check in \<open>DoTask\<close>
  never fires: in every reachable state a worker that a task goroutine has just taken accepts the
  task, and at most one goroutine uses a given worker.
\<close>

theorem worker_never_overloaded:
  assumes "sched_reach mapF rf args (sched_init ws wk n d) s"
    and "\<And>w. w_concurrent (wk w) = 0" and "distinct (s_workers s)"
    and "i < n" and "s_tasks s ! i = Holding w"
  shows "DoTask_begin (s_wk s w) \<noteq> Inl Fatal \<and>
    (\<forall>k<n. k \<noteq> i \<longrightarrow> s_tasks s ! k \<noteq> Holding w \<and> s_tasks s ! k \<noteq> Running w)"
proof -
  have inv: "sched_inv mapF rf args n d s"
    using sched_reach_inv [OF assms(1) sched_inv_init assms(3)] assms(2) by simp
  then have "w_concurrent (s_wk s w) = 0" using holder_idle assms(3-5) by blast
  moreover have "w \<notin># held (s_tasks s ! k)" if "k < n" "k \<noteq> i" for k
    using holder_alone [OF inv assms(3,4), of w k] that assms(5) by simp
  ultimately show ?thesis by (force simp: DoTask_begin_def)
qed

theorem worker_never_overloaded_witness:
  "DoTask_begin (s_wk ((sched_init [''w''] demo_worker 1 demo_disk)
      \<lparr>s_chan := {#}, s_fwd := 1, s_tasks := [Holding ''w'']\<rparr>) ''w'') \<noteq> Inl Fatal"
proof -
  let ?s0 = "sched_init [''w''] demo_worker 1 demo_disk"
  let ?s1 = "?s0\<lparr>s_chan := {#''w''#}, s_fwd := 1\<rparr>"
  let ?s2 = "?s0\<lparr>s_chan := {#}, s_fwd := 1, s_tasks := [Holding ''w'']\<rparr>"
  have 1: "sched_step demo_mapF wc demo_args ?s0 ?s1" for wc
    using sched_step.forward [of ?s0] by (simp add: sched_init_def)
  have 2: "sched_step demo_mapF wc demo_args ?s1 ?s2" for wc
    using sched_step.receive [of 0 ?s1 "''w''"] by (simp add: sched_init_def)
  have "sched_reach demo_mapF (\<lambda>k vs. ''x'') demo_args ?s0 ?s2"
    using sched_reach.step [OF sched_reach.step [OF sched_reach.start 1] 2] .
  from worker_never_overloaded [OF this, of 0 "''w''"] show ?thesis
    by (simp add: demo_worker_def new_worker_def sched_init_def)
qed



text \<open>
  \<open>schedule\<close> reads \<open>mapFiles[i]\<close> for every task of either phase, so it panics exactly when a
  reduce phase has more reduce tasks than the job has input files.
\<close>

theorem schedule_panics_iff:
  "schedule_args j fs n ph = Inl Panic \<longleftrightarrow> ph = reducePhase \<and> length fs < n"
proof (cases "fst (phase_sizes fs n ph) \<le> length fs")
  case True
  then show ?thesis using schedule_args_ok [OF True, of j] by (cases ph) (simp_all add: phase_sizes_def)
next
  case False
  then have "schedule_args j fs n ph = Inl Panic"
    unfolding schedule_args_def by (intro schedule_args_from_panic [of "length fs"]) auto
  with False show ?thesis by (cases ph) (simp_all add: phase_sizes_def)
qed

end
