(* ===== verification/ChunkServer.thy ===== *)
theory ChunkServer
  imports GoLib
begin

text \<open>
  The chunk server of the gdocs file system: \<open>chunkserver.go\<close>, \<open>rpcToOtherChunk.go\<close> and the messages
  of \<open>rpcToMaster.go\<close> (\<open>src/gdocs-k-on/code/chunkserver\<close>).

  State: the metadata map, the chunk files in the server's directory, and the text of
  \<open>chunkserver.log\<close>. The log file is opened for writing only after \<open>recover()\<close>, so what the replayed
  operations log is not in it (\<open>cs_logging\<close>). Each log line starts with the date and time; \<open>stamp k\<close>
  is what \<open>log\<close> prints in front of the k-th line.

  A chunk file is its size and its bytes, bytes that were never written being zero. The chunk files
  of a server are flat in its directory: a name with a slash cannot be created. \<open>log.Fatalln\<close> is the
  error \<open>Fatal\<close>, an index out of range \<open>Panic\<close>; both end the server process.
\<close>

section \<open>Files\<close>

record chunk_file =
  f_size :: nat
  f_byte :: "nat \<Rightarrow> char"

definition file_empty :: chunk_file where
  "file_empty = \<lparr>f_size = 0, f_byte = \<lambda>_. CHR 0x00\<rparr>"

definition file_write :: "nat \<Rightarrow> string \<Rightarrow> chunk_file \<Rightarrow> chunk_file" where
  "file_write off s f =
     \<lparr>f_size = (if s = [] then f_size f else max (f_size f) (off + length s)),
      f_byte = (\<lambda>i. if off \<le> i \<and> i < off + length s then s ! (i - off) else f_byte f i)\<rparr>"

definition file_read :: "nat \<Rightarrow> nat \<Rightarrow> chunk_file \<Rightarrow> string" where
  "file_read off n f = map (f_byte f) [off..<min (f_size f) (off + n)]"

text \<open>\<open>file.Seek(int64(begin), 0)\<close> on a file just opened: a negative offset is an error, and the
  position stays 0.\<close>

definition seek_set :: "u64 \<Rightarrow> nat" where
  "seek_set begin = (if int_of_u64 begin < 0 then 0 else unat begin)"

section \<open>Data\<close>

definition chunk_size :: nat where
  "chunk_size = 1024 * 1024"

record Chunk =
  md_Chunkid :: string
  md_Version :: u64

record ChunkRequest =
  Chunkid :: string
  Filename :: string
  Bytebegin :: u64
  Byteend :: u64
  Data :: string
  AllServerLocation :: "string list"
  Index :: u64

record ChunkResponse =
  res_Data :: string
  res_Chunkid :: string
  res_Errornum :: int

record OperationRequest =
  op_ServerLocation :: string
  op_Chunkid :: string
  op_Version :: u64

record BroadcastRequest =
  bc_Chunkid :: string
  bc_Version :: u64
  bc_Bytebegin :: u64
  bc_Byteend :: u64
  bc_Data :: string

record chunkserver =
  cs_location :: string
  cs_meta :: "string \<rightharpoonup> Chunk"
  cs_files :: "string \<rightharpoonup> chunk_file"
  cs_log :: string
  cs_nlog :: nat
  cs_logging :: bool

text \<open>The zero value of \<open>Chunk\<close>, which indexing the map with a missing key gives.\<close>

definition meta_of :: "chunkserver \<Rightarrow> string \<Rightarrow> Chunk" where
  "meta_of st c = (case cs_meta st c of None \<Rightarrow> \<lparr>md_Chunkid = '''', md_Version = 0\<rparr> | Some m \<Rightarrow> m)"

definition log_println :: "(nat \<Rightarrow> string) \<Rightarrow> string \<Rightarrow> chunkserver \<Rightarrow> chunkserver" where
  "log_println stamp msg st =
     (if cs_logging st
      then st\<lparr>cs_log := cs_log st @ stamp (cs_nlog st) @ msg @ [newline], cs_nlog := Suc (cs_nlog st)\<rparr>
      else st)"

section \<open>Operations (chunkserver.go)\<close>

definition creatable :: "string \<Rightarrow> bool" where
  "creatable c \<longleftrightarrow> CHR ''/'' \<notin> set c \<and> CHR 0x00 \<notin> set c"

definition fresh_chunk :: chunk_file where
  "fresh_chunk = file_write (chunk_size - 1) [CHR 0x00] file_empty"

definition make_chunk :: "(nat \<Rightarrow> string) \<Rightarrow> string \<Rightarrow> chunkserver \<Rightarrow> chunkserver result" where
  "make_chunk stamp c st =
     (let st = log_println stamp (''Createe Chunkid:'' @ c @ ''/'') st
      in if creatable c
         then Inr (st\<lparr>cs_files := (cs_files st)(c \<mapsto> fresh_chunk),
                      cs_meta := (cs_meta st)(c \<mapsto> \<lparr>md_Chunkid = c, md_Version = 0\<rparr>)\<rparr>)
         else Inl Fatal)"

definition CreateChunk :: "(nat \<Rightarrow> string) \<Rightarrow> ChunkRequest \<Rightarrow> chunkserver \<Rightarrow> (string \<times> chunkserver) result" where
  "CreateChunk stamp req st =
     (let c = Filename req @ ''-0'' in bindR (make_chunk stamp c st) (\<lambda>st. Inr (c, st)))"

definition AddChunk :: "(nat \<Rightarrow> string) \<Rightarrow> ChunkRequest \<Rightarrow> chunkserver \<Rightarrow> (string \<times> chunkserver) result" where
  "AddChunk stamp req st =
     (let c = Filename req @ ''-'' @ Itoa (int_of_u64 (Index req))
      in bindR (make_chunk stamp c st) (\<lambda>st. Inr (c, st)))"

definition Create :: "(nat \<Rightarrow> string) \<Rightarrow> ChunkRequest \<Rightarrow> chunkserver \<Rightarrow> (ChunkResponse \<times> chunkserver) result" where
  "Create stamp req st =
     bindR (CreateChunk stamp req st) (\<lambda>(c, st).
       Inr (\<lparr>res_Data = '''', res_Chunkid = c, res_Errornum = 0\<rparr>,
            log_println stamp (''Version:0-'' @ c @ ''/'') st))"

text \<open>Unlike \<open>Create\<close>, \<open>Add\<close> logs its version record without the final slash.\<close>

definition Add :: "(nat \<Rightarrow> string) \<Rightarrow> ChunkRequest \<Rightarrow> chunkserver \<Rightarrow> (ChunkResponse \<times> chunkserver) result" where
  "Add stamp req st =
     bindR (AddChunk stamp req st) (\<lambda>(c, st).
       Inr (\<lparr>res_Data = '''', res_Chunkid = c, res_Errornum = 0\<rparr>,
            log_println stamp (''Version:0-'' @ c) st))"

definition DeleteChunk :: "ChunkRequest \<Rightarrow> chunkserver \<Rightarrow> chunkserver result" where
  "DeleteChunk req st =
     (if cs_files st (Chunkid req) = None then Inl Fatal
      else Inr (st\<lparr>cs_files := (cs_files st)(Chunkid req := None),
                   cs_meta := (cs_meta st)(Chunkid req := None)\<rparr>))"

definition Delete :: "(nat \<Rightarrow> string) \<Rightarrow> ChunkRequest \<Rightarrow> chunkserver \<Rightarrow> (ChunkResponse \<times> chunkserver) result" where
  "Delete stamp req st =
     bindR (DeleteChunk req st) (\<lambda>st.
       Inr (\<lparr>res_Data = '''', res_Chunkid = '''', res_Errornum = 0\<rparr>,
            log_println stamp (''Removee Chunkid:'' @ Chunkid req @ ''/'') st))"

text \<open>
  \<open>make([]byte, end-begin)\<close> panics when the difference, which wraps, is beyond what can be allocated.
  The bytes that the file does not fill stay zero.
\<close>

definition max_alloc :: nat where
  "max_alloc = 2 ^ 48"

definition Read :: "ChunkRequest \<Rightarrow> chunkserver \<Rightarrow> ChunkResponse result" where
  "Read req st =
     (case cs_files st (Chunkid req) of
        None \<Rightarrow> Inl Fatal
      | Some f \<Rightarrow>
          let n = unat (Byteend req - Bytebegin req)
          in if n > max_alloc then Inl Panic
             else let got = file_read (seek_set (Bytebegin req)) n f
                  in Inr \<lparr>res_Data = got @ replicate (n - length got) (CHR 0x00),
                          res_Chunkid = '''', res_Errornum = 0\<rparr>)"

definition write_record :: "ChunkRequest \<Rightarrow> string" where
  "write_record req =
     ''Writeee Chunkid:'' @ Chunkid req @ ''/Begin:'' @ Itoa (int_of_u64 (Bytebegin req)) @
     ''/End:'' @ Itoa (int_of_u64 (Byteend req)) @ ''/Data:'' @ Data req @ ''/''"

definition WriteChunk :: "(nat \<Rightarrow> string) \<Rightarrow> ChunkRequest \<Rightarrow> chunkserver \<Rightarrow> chunkserver result" where
  "WriteChunk stamp req st =
     (let st = log_println stamp (write_record req) st
      in if unat (Byteend req) \<ge> chunk_size then Inl Fatal
         else case cs_files st (Chunkid req) of
                None \<Rightarrow> Inl Fatal
              | Some f \<Rightarrow>
                  Inr (st\<lparr>cs_files := (cs_files st)(Chunkid req \<mapsto>
                         file_write (seek_set (Bytebegin req)) (Data req) f)\<rparr>))"

definition version_record :: "u64 \<Rightarrow> string \<Rightarrow> string" where
  "version_record v c = ''Version:'' @ Itoa (int_of_u64 v) @ ''-'' @ c @ ''/''"

definition set_version :: "string \<Rightarrow> u64 \<Rightarrow> chunkserver \<Rightarrow> chunkserver" where
  "set_version c v st = st\<lparr>cs_meta := (cs_meta st)(c \<mapsto> (meta_of st c)\<lparr>md_Version := v\<rparr>)\<rparr>"

text \<open>
  \<open>Write\<close> answers, and sends a message to the master and the write to the other replicas: the two
  requests are results of the definition, and the cluster model delivers them.
\<close>

definition Write ::
    "(nat \<Rightarrow> string) \<Rightarrow> ChunkRequest \<Rightarrow> chunkserver \<Rightarrow>
     (ChunkResponse \<times> chunkserver \<times> OperationRequest \<times> BroadcastRequest) result" where
  "Write stamp req st =
     bindR (WriteChunk stamp req st) (\<lambda>st.
       let c = Chunkid req; v = md_Version (meta_of st c) + 1; st = set_version c v st
       in Inr (\<lparr>res_Data = '''', res_Chunkid = '''', res_Errornum = 0\<rparr>,
               log_println stamp (version_record v c) st,
               \<lparr>op_ServerLocation = cs_location st, op_Chunkid = c, op_Version = v\<rparr>,
               \<lparr>bc_Chunkid = c, bc_Version = v, bc_Bytebegin = Bytebegin req,
                bc_Byteend = Byteend req, bc_Data = Data req\<rparr>))"

section \<open>Replication (rpcToOtherChunk.go)\<close>

definition updateReplicaVersion :: "ChunkRequest \<Rightarrow> string \<Rightarrow> string list" where
  "updateReplicaVersion req location = filter (\<lambda>a. a \<noteq> location) (AllServerLocation req)"

definition broadcast_write :: "BroadcastRequest \<Rightarrow> ChunkRequest" where
  "broadcast_write b =
     \<lparr>Chunkid = bc_Chunkid b, Filename = '''', Bytebegin = bc_Bytebegin b, Byteend = bc_Byteend b,
      Data = bc_Data b, AllServerLocation = [], Index = 0\<rparr>"

definition UpdateOwnChunkVersion ::
    "(nat \<Rightarrow> string) \<Rightarrow> BroadcastRequest \<Rightarrow> chunkserver \<Rightarrow>
     (bool \<times> chunkserver \<times> OperationRequest option) result" where
  "UpdateOwnChunkVersion stamp b st =
     (case cs_meta st (bc_Chunkid b) of
        None \<Rightarrow> Inr (False, st, None)
      | Some m \<Rightarrow>
          bindR (WriteChunk stamp (broadcast_write b) st) (\<lambda>st.
            let st = st\<lparr>cs_meta := (cs_meta st)(bc_Chunkid b \<mapsto> m\<lparr>md_Version := bc_Version b\<rparr>)\<rparr>
            in Inr (True, log_println stamp (version_record (bc_Version b) (bc_Chunkid b)) st,
                    Some \<lparr>op_ServerLocation = cs_location st, op_Chunkid = bc_Chunkid b,
                          op_Version = bc_Version b\<rparr>)))"

section \<open>Recovery from the log\<close>

definition replay_create :: "string \<Rightarrow> chunkserver \<Rightarrow> chunkserver result" where
  "replay_create line st =
     (let slash = str_Index line ''/''; dash = str_LastIndex line ''-''
      in bindR (panic_unless (go_slice line 16 dash)) (\<lambda>aimFilename.
         bindR (panic_unless (go_slice line (dash + 1) slash)) (\<lambda>num.
           let intChunknum = Atoi num;
               req = \<lparr>Chunkid = '''', Filename = aimFilename, Bytebegin = 0, Byteend = 0, Data = '''',
                      AllServerLocation = [], Index = u64_of_int intChunknum\<rparr>
           in bindR (if intChunknum = 0 then CreateChunk (\<lambda>_. '''') req st
                     else AddChunk (\<lambda>_. '''') req st) (\<lambda>(c, st). Inr st))))"

text \<open>One field of a record: what is between the first colon and the first slash, and the rest.\<close>

definition next_field :: "string \<Rightarrow> (string \<times> string) result" where
  "next_field l =
     (let colon = str_Index l '':''; slash = str_Index l ''/''
      in bindR (panic_unless (go_slice l (colon + 1) slash)) (\<lambda>v.
         bindR (panic_unless (go_slice_from l (slash + 1))) (\<lambda>rest. Inr (v, rest))))"

definition last_field :: "string \<Rightarrow> string result" where
  "last_field l =
     panic_unless (go_slice l (str_Index l '':'' + 1) (str_LastIndex l ''/''))"

definition replay_write :: "string \<Rightarrow> chunkserver \<Rightarrow> chunkserver result" where
  "replay_write line st =
     bindR (next_field line) (\<lambda>(aimChunkid, l1).
     bindR (next_field l1) (\<lambda>(b, l2).
     bindR (next_field l2) (\<lambda>(e, l3).
     bindR (last_field l3) (\<lambda>aimData.
       WriteChunk (\<lambda>_. '''')
         \<lparr>Chunkid = aimChunkid, Filename = '''', Bytebegin = u64_of_int (Atoi b),
          Byteend = u64_of_int (Atoi e), Data = aimData, AllServerLocation = [], Index = 0\<rparr> st))))"

definition replay_version :: "string \<Rightarrow> chunkserver \<Rightarrow> chunkserver result" where
  "replay_version line st =
     bindR (panic_unless (go_slice line 8 9)) (\<lambda>d.
     bindR (panic_unless (go_slice line 10 (str_Index line ''/''))) (\<lambda>aimChunkid.
       Inr (set_version aimChunkid (u64_of_int (Atoi d)) st)))"

definition replay_remove :: "string \<Rightarrow> chunkserver \<Rightarrow> chunkserver result" where
  "replay_remove line st =
     bindR (panic_unless (go_slice line (str_Index line '':'' + 1) (str_Index line ''/'')))
       (\<lambda>aimChunkid.
          DeleteChunk \<lparr>Chunkid = aimChunkid, Filename = '''', Bytebegin = 0, Byteend = 0, Data = '''',
                       AllServerLocation = [], Index = 0\<rparr> st)"

definition recover_line :: "string \<Rightarrow> chunkserver \<Rightarrow> chunkserver result" where
  "recover_line line st =
     bindR (panic_unless (go_slice_from line 20)) (\<lambda>lineValid.
     bindR (panic_unless (go_slice lineValid 0 7)) (\<lambda>operation.
       if operation = ''Createe'' then replay_create lineValid st
       else if operation = ''Writeee'' then replay_write lineValid st
       else if operation = ''Version'' then replay_version lineValid st
       else if operation = ''Removee'' then replay_remove lineValid st
       else Inr st))"

abbreviation recover_lines :: "string list \<Rightarrow> chunkserver \<Rightarrow> chunkserver result" where
  "recover_lines \<equiv> replay_lines recover_line"

definition recover :: "chunkserver \<Rightarrow> chunkserver result" where
  "recover st = recover_lines (read_lines [] (cs_log st)) st"

text \<open>\<open>main\<close> up to the point where the server listens: what a restart makes of the files on disk.\<close>

definition boot :: "chunkserver \<Rightarrow> chunkserver result" where
  "boot st =
     bindR (recover (st\<lparr>cs_meta := Map.empty, cs_logging := False\<rparr>))
       (\<lambda>st. Inr (st\<lparr>cs_logging := True\<rparr>))"

section \<open>File lemmas\<close>

lemma file_read_write:
  assumes "off + length s \<le> f_size f"
  shows "file_read off (length s) (file_write off s f) = s"
  using assms by (intro nth_equalityI) (auto simp: file_read_def file_write_def max_def)

lemma file_read_write_extend: "s \<noteq> [] \<Longrightarrow> file_read off (length s) (file_write off s f) = s"
proof -
  assume "s \<noteq> []"
  then have "min (f_size (file_write off s f)) (off + length s) = off + length s"
    by (simp add: file_write_def)
  then show ?thesis
    unfolding file_read_def by (intro nth_equalityI) (simp_all add: file_write_def)
qed

lemma f_size_file_write:
  "off + length s \<le> f_size f \<Longrightarrow> f_size (file_write off s f) = f_size f"
  by (simp add: file_write_def max_def)

lemma file_read_write_other:
  assumes "off + length s \<le> f_size f" "i + n \<le> off \<or> off + length s \<le> i"
  shows "file_read i n (file_write off s f) = file_read i n f"
  using assms by (auto simp: file_read_def file_write_def max_def)

lemma f_size_fresh_chunk [simp]: "f_size fresh_chunk = chunk_size"
  by (simp add: fresh_chunk_def file_write_def file_empty_def chunk_size_def)

lemma f_byte_fresh_chunk [simp]: "f_byte fresh_chunk i = CHR 0x00"
  by (simp add: fresh_chunk_def file_write_def file_empty_def)

lemma log_println_simps [simp]:
  "cs_location (log_println stamp m st) = cs_location st"
  "cs_meta (log_println stamp m st) = cs_meta st"
  "cs_files (log_println stamp m st) = cs_files st"
  "cs_logging (log_println stamp m st) = cs_logging st"
  "meta_of (log_println stamp m st) c = meta_of st c"
  by (simp_all add: log_println_def meta_of_def)

lemma set_version_simps [simp]:
  "cs_location (set_version c v st) = cs_location st" "cs_files (set_version c v st) = cs_files st"
  "cs_log (set_version c v st) = cs_log st" "cs_logging (set_version c v st) = cs_logging st"
  "cs_nlog (set_version c v st) = cs_nlog st"
  by (simp_all add: set_version_def)

lemma WriteChunk_Inr:
  "WriteChunk stamp req st = Inr st' \<longleftrightarrow>
     unat (Byteend req) < chunk_size \<and>
     (\<exists>f. cs_files st (Chunkid req) = Some f \<and>
        st' = (log_println stamp (write_record req) st)\<lparr>cs_files := (cs_files st)(Chunkid req \<mapsto>
                file_write (seek_set (Bytebegin req)) (Data req) f)\<rparr>)"
  by (auto simp: WriteChunk_def Let_def split: option.splits if_splits)

section \<open>The log: what a line replays\<close>

text \<open>A record is the 20 bytes of the date, then the seven letters of the operation.\<close>

lemma recover_line_record:
  assumes "length d = 20" "length op = 7"
  shows "recover_line (d @ op @ rest) st =
    (if op = ''Createe'' then replay_create (op @ rest) st
     else if op = ''Writeee'' then replay_write (op @ rest) st
     else if op = ''Version'' then replay_version (op @ rest) st
     else if op = ''Removee'' then replay_remove (op @ rest) st
     else Inr st)"
proof -
  have "go_slice_from (d @ op @ rest) 20 = Some (op @ rest)"
    by (rule slice_from_append) (simp add: assms)
  moreover have "go_slice (op @ rest) 0 7 = Some op"
    using slice_mid [of 0 "[]" 7 op rest] assms by simp
  ultimately show ?thesis by (simp add: recover_line_def)
qed

lemma replay_create_record:
  assumes "CHR ''/'' \<notin> set f"
  shows "replay_create (''Createe Chunkid:'' @ f @ ''-0/'' @ [newline]) st =
    bindR (make_chunk (\<lambda>_. '''') (f @ ''-0'') st) Inr"
proof -
  define l where "l = ''Createe Chunkid:'' @ f @ ''-0/'' @ [newline]"
  have "str_Index l ''/'' = int (length f) + 18"
    by (rule str_Index_charI [of _ "''Createe Chunkid:'' @ f @ ''-0''" _ "[newline]"]) (use assms in \<open>simp_all add: l_def\<close>)
  moreover have "str_LastIndex l ''-'' = int (length f) + 16"
    by (rule str_LastIndex_charI [of _ "''Createe Chunkid:'' @ f" _ "''0/'' @ [newline]"]) (simp_all add: l_def)
  moreover have "go_slice l 16 (int (length f) + 16) = Some f"
    by (rule slice_eqI [of _ "''Createe Chunkid:''" _ "''-0/'' @ [newline]"]) (simp_all add: l_def)
  moreover have "go_slice l (int (length f) + 16 + 1) (int (length f) + 18) = Some ''0''"
    by (rule slice_eqI [of _ "''Createe Chunkid:'' @ f @ ''-''" _ "''/'' @ [newline]"]) (simp_all add: l_def)
  moreover have "Atoi ''0'' = 0" by (simp add: Atoi_def dec_val_def is_digit_def clamp_int_def)
  ultimately show ?thesis
    unfolding l_def [symmetric] by (simp add: replay_create_def CreateChunk_def bindR_def split: sum.split)
qed

lemma next_field_record:
  assumes "CHR '':'' \<notin> set k" "CHR ''/'' \<notin> set k" "CHR ''/'' \<notin> set v"
  shows "next_field (k @ '':'' @ v @ ''/'' @ rest) = Inr (v, rest)"
proof -
  define l where "l = k @ '':'' @ v @ ''/'' @ rest"
  have "str_Index l '':'' = int (length k)"
    by (rule str_Index_charI [of _ k]) (use assms in \<open>simp_all add: l_def\<close>)
  moreover have "str_Index l ''/'' = int (length k) + 1 + int (length v)"
    by (rule str_Index_charI [of _ "k @ '':'' @ v"]) (use assms in \<open>simp_all add: l_def\<close>)
  moreover have "go_slice l (int (length k) + 1) (int (length k) + 1 + int (length v)) = Some v"
    by (rule slice_eqI [of _ "k @ '':''"]) (simp_all add: l_def)
  moreover have "go_slice_from l (int (length k) + 1 + int (length v) + 1) = Some rest"
    by (rule slice_from_eqI [of _ "k @ '':'' @ v @ ''/''"]) (simp_all add: l_def)
  ultimately show ?thesis unfolding l_def [symmetric] by (simp add: next_field_def)
qed

lemma last_field_record:
  assumes "CHR '':'' \<notin> set k" "CHR ''/'' \<notin> set rest"
  shows "last_field (k @ '':'' @ v @ ''/'' @ rest) = Inr v"
proof -
  define l where "l = k @ '':'' @ v @ ''/'' @ rest"
  have "str_Index l '':'' = int (length k)"
    by (rule str_Index_charI [of _ k]) (use assms in \<open>simp_all add: l_def\<close>)
  moreover have "str_LastIndex l ''/'' = int (length k) + 1 + int (length v)"
    by (rule str_LastIndex_charI [of _ "k @ '':'' @ v"]) (use assms in \<open>simp_all add: l_def\<close>)
  moreover have "go_slice l (int (length k) + 1) (int (length k) + 1 + int (length v)) = Some v"
    by (rule slice_eqI [of _ "k @ '':''"]) (simp_all add: l_def)
  ultimately show ?thesis unfolding l_def [symmetric] by (simp add: last_field_def)
qed

lemma replay_write_record:
  assumes "CHR ''/'' \<notin> set (Chunkid req)"
  shows "replay_write (write_record req @ [newline]) st =
    WriteChunk (\<lambda>_. '''') (req\<lparr>Filename := '''', AllServerLocation := [], Index := 0\<rparr>) st"
proof -
  let ?b = "Itoa (int_of_u64 (Bytebegin req))" and ?e = "Itoa (int_of_u64 (Byteend req))"
  let ?l3 = "''Data'' @ '':'' @ Data req @ ''/'' @ [newline]"
  let ?l2 = "''End'' @ '':'' @ ?e @ ''/'' @ ?l3" and ?l1 = "''Begin'' @ '':'' @ ?b @ ''/'' @ ''End:'' @ ?e @ ''/'' @ ?l3"
  have "write_record req @ [newline] = ''Writeee Chunkid'' @ '':'' @ Chunkid req @ ''/'' @ ?l1"
    by (simp add: write_record_def)
  moreover have "next_field (''Writeee Chunkid'' @ '':'' @ Chunkid req @ ''/'' @ ?l1) = Inr (Chunkid req, ?l1)"
    by (rule next_field_record) (use assms in simp_all)
  moreover have "next_field ?l1 = Inr (?b, ''End:'' @ ?e @ ''/'' @ ?l3)"
    by (rule next_field_record) simp_all
  moreover have "next_field (''End:'' @ ?e @ ''/'' @ ?l3) = Inr (?e, ?l3)"
    using next_field_record [of "''End''" ?e ?l3] by simp
  moreover have "last_field ?l3 = Inr (Data req)"
    by (rule last_field_record) simp_all
  ultimately show ?thesis
    by (simp only: replay_write_def bindR_simps prod.case u64_of_int_of_u64 Atoi_Itoa_u64) (cases req, simp)
qed

lemma Itoa_small: "unat v < 10 \<Longrightarrow> Itoa (int_of_u64 v) = [digit (unat v)]"
proof -
  assume v: "unat v < 10"
  then have "Itoa (int_of_u64 v) = nat_str (unat v)"
    by (subst int_of_u64_small) (simp, rule Itoa_of_nat)
  with v show ?thesis by (simp add: nat_str.simps [of "unat v"])
qed

lemma version_field:
  assumes "length ds = 1"
  shows "go_slice (''Version:'' @ ds @ rest) 8 9 = Some ds"
  by (rule slice_eqI [of _ "''Version:''"]) (simp_all add: assms)

lemma replay_version_record:
  assumes "unat v < 10" "CHR ''/'' \<notin> set c"
  shows "replay_version (version_record v c @ rest) st = Inr (set_version c v st)"
proof -
  let ?d = "[digit (unat v)]"
  define l where "l = ''Version:'' @ ?d @ ''-'' @ c @ ''/'' @ rest"
  have "CHR ''/'' \<noteq> digit (unat v)"
    using assms(1) is_digit_digit [of "unat v"] by (metis is_digit_simps(3))
  then have "str_Index l ''/'' = int (length c) + 10"
    by (intro str_Index_charI [of _ "''Version:'' @ ?d @ ''-'' @ c"]) (use assms in \<open>simp_all add: l_def\<close>)
  moreover have "go_slice l 8 9 = Some ?d"
    unfolding l_def by (rule version_field) simp
  moreover have "go_slice l 10 (int (length c) + 10) = Some c"
    by (rule slice_eqI [of _ "''Version:'' @ ?d @ ''-''"]) (simp_all add: l_def)
  moreover have "u64_of_int (Atoi ?d) = v"
    by (metis Atoi_Itoa_u64 Itoa_small assms(1) u64_of_int_of_u64)
  moreover have "version_record v c @ rest = l"
    by (simp add: version_record_def Itoa_small [OF assms(1)] l_def)
  ultimately show ?thesis by (simp add: replay_version_def)
qed

lemma replay_remove_record:
  assumes "CHR ''/'' \<notin> set c"
  shows "replay_remove (''Removee Chunkid:'' @ c @ ''/'' @ rest) st =
    DeleteChunk \<lparr>Chunkid = c, Filename = '''', Bytebegin = 0, Byteend = 0, Data = '''',
                 AllServerLocation = [], Index = 0\<rparr> st"
proof -
  define l where "l = ''Removee Chunkid:'' @ c @ ''/'' @ rest"
  have "str_Index l '':'' = 15"
    by (rule str_Index_charI [of _ "''Removee Chunkid''"]) (simp_all add: l_def)
  moreover have "str_Index l ''/'' = int (length c) + 16"
    by (rule str_Index_charI [of _ "''Removee Chunkid:'' @ c"]) (use assms in \<open>simp_all add: l_def\<close>)
  moreover have "go_slice l 16 (int (length c) + 16) = Some c"
    by (rule slice_eqI [of _ "''Removee Chunkid:''"]) (simp_all add: l_def)
  ultimately show ?thesis unfolding l_def [symmetric] by (simp add: replay_remove_def)
qed

section \<open>Recovery rebuilds the state\<close>

text \<open>The requests a chunk server serves, as one type, and their effect on the server.\<close>

datatype cs_op = OpCreate ChunkRequest | OpWrite ChunkRequest | OpUpdate BroadcastRequest | OpDelete ChunkRequest

fun run_op :: "(nat \<Rightarrow> string) \<Rightarrow> cs_op \<Rightarrow> chunkserver \<Rightarrow> chunkserver result" where
  "run_op stamp (OpCreate req) st = bindR (Create stamp req st) (\<lambda>(_, st). Inr st)"
| "run_op stamp (OpWrite req) st = bindR (Write stamp req st) (\<lambda>(_, st, _). Inr st)"
| "run_op stamp (OpUpdate b) st = bindR (UpdateOwnChunkVersion stamp b st) (\<lambda>(_, st, _). Inr st)"
| "run_op stamp (OpDelete req) st = bindR (Delete stamp req st) (\<lambda>(_, st). Inr st)"

text \<open>
  What the log format can carry: names and data without a newline, and versions of one digit.
\<close>

fun loggable :: "chunkserver \<Rightarrow> cs_op \<Rightarrow> bool" where
  "loggable st (OpCreate req) \<longleftrightarrow> newline \<notin> set (Filename req)"
| "loggable st (OpWrite req) \<longleftrightarrow> newline \<notin> set (Data req) \<and> unat (md_Version (meta_of st (Chunkid req))) < 9"
| "loggable st (OpUpdate b) \<longleftrightarrow> newline \<notin> set (bc_Data b) \<and> unat (bc_Version b) < 10"
| "loggable st (OpDelete req) \<longleftrightarrow> True"

fun run_ops :: "(nat \<Rightarrow> string) \<Rightarrow> cs_op list \<Rightarrow> chunkserver \<Rightarrow> chunkserver result" where
  "run_ops stamp [] st = Inr st"
| "run_ops stamp (op # ops) st = bindR (run_op stamp op st) (run_ops stamp ops)"

fun all_loggable :: "(nat \<Rightarrow> string) \<Rightarrow> cs_op list \<Rightarrow> chunkserver \<Rightarrow> bool" where
  "all_loggable stamp [] st \<longleftrightarrow> True"
| "all_loggable stamp (op # ops) st \<longleftrightarrow> loggable st op \<and>
     (case run_op stamp op st of Inl _ \<Rightarrow> True | Inr st' \<Rightarrow> all_loggable stamp ops st')"

definition new_chunkserver :: "string \<Rightarrow> chunkserver" where
  "new_chunkserver loc = \<lparr>cs_location = loc, cs_meta = Map.empty, cs_files = Map.empty, cs_log = '''',
     cs_nlog = 0, cs_logging = True\<rparr>"

definition cs_inv :: "chunkserver \<Rightarrow> bool" where
  "cs_inv st \<longleftrightarrow> cs_logging st \<and> dom (cs_meta st) = dom (cs_files st) \<and>
     (\<forall>c\<in>dom (cs_meta st). creatable c \<and> newline \<notin> set c)"

lemma cs_inv_file:
  assumes "cs_inv st" "cs_files st c \<noteq> None"
  shows "c \<in> dom (cs_meta st)" "creatable c" "newline \<notin> set c"
proof -
  show "c \<in> dom (cs_meta st)" using assms by (simp add: cs_inv_def domIff)
  then show "creatable c" "newline \<notin> set c" using assms(1) by (auto simp: cs_inv_def)
qed

text \<open>The files of a replay agree with those of the server on the chunks it has metadata of.\<close>

definition agrees :: "chunkserver \<Rightarrow> chunkserver \<Rightarrow> (string \<rightharpoonup> chunk_file) \<Rightarrow> bool" where
  "agrees t0 st F \<longleftrightarrow> (\<forall>c\<in>dom (cs_meta st). F c = cs_files st c) \<and>
     dom F \<subseteq> dom (cs_files t0) \<union> dom (cs_meta st)"

definition log_inv :: "chunkserver \<Rightarrow> chunkserver \<Rightarrow> bool" where
  "log_inv t0 st \<longleftrightarrow> (\<exists>ls F. cs_log st = concat (map terminated ls) \<and>
     (\<forall>l\<in>set ls. newline \<notin> set l) \<and> agrees t0 st F \<and>
     recover_lines (map terminated ls) t0 = Inr (t0\<lparr>cs_meta := cs_meta st, cs_files := F\<rparr>))"

lemma log_inv_step:
  assumes "log_inv t0 st"
    and log: "cs_log st' = cs_log st @ terminated (d @ msg)" "newline \<notin> set (d @ msg)"
    and replay: "\<And>F. agrees t0 st F \<Longrightarrow> \<exists>F'. agrees t0 st' F' \<and>
      recover_line (d @ terminated msg) (t0\<lparr>cs_meta := cs_meta st, cs_files := F\<rparr>) =
        Inr (t0\<lparr>cs_meta := cs_meta st', cs_files := F'\<rparr>)"
  shows "log_inv t0 st'"
proof -
  obtain ls F where ls: "cs_log st = concat (map terminated ls)" "\<forall>l\<in>set ls. newline \<notin> set l"
    and F: "agrees t0 st F" "recover_lines (map terminated ls) t0 = Inr (t0\<lparr>cs_meta := cs_meta st, cs_files := F\<rparr>)"
    using assms(1) by (auto simp: log_inv_def)
  obtain F' where F': "agrees t0 st' F'" "recover_line (d @ terminated msg) (t0\<lparr>cs_meta := cs_meta st, cs_files := F\<rparr>) =
      Inr (t0\<lparr>cs_meta := cs_meta st', cs_files := F'\<rparr>)"
    using replay [OF F(1)] by blast
  have "recover_lines (map terminated (ls @ [d @ msg])) t0 = Inr (t0\<lparr>cs_meta := cs_meta st', cs_files := F'\<rparr>)"
    using F(2) F'(2) by (simp add: replay_lines_append)
  moreover have "cs_log st' = concat (map terminated (ls @ [d @ msg]))" using log(1) ls(1) by simp
  ultimately show ?thesis
    unfolding log_inv_def using F'(1) ls(2) log(2) by (intro exI [of _ "ls @ [d @ msg]"] exI [of _ F']) auto
qed

lemma log_println_log:
  "cs_logging st \<Longrightarrow> cs_log (log_println stamp msg st) = cs_log st @ terminated (stamp (cs_nlog st) @ msg)"
  by (simp add: log_println_def)

lemma make_chunk_log_inv:
  assumes "stamp_ok stamp" "log_inv t0 st" "cs_logging st" "\<not> cs_logging t0" "newline \<notin> set f"
    and make: "make_chunk stamp (f @ ''-0'') st = Inr st'"
  shows "log_inv t0 st'"
proof -
  let ?c = "f @ ''-0''" and ?d = "stamp (cs_nlog st)" and ?msg = "''Createe Chunkid:'' @ f @ ''-0/''"
  have c: "creatable ?c" and st': "st' = (log_println stamp ?msg st)\<lparr>cs_files := (cs_files st)(?c \<mapsto> fresh_chunk),
      cs_meta := (cs_meta st)(?c \<mapsto> \<lparr>md_Chunkid = ?c, md_Version = 0\<rparr>)\<rparr>"
    using make by (auto simp: make_chunk_def Let_def split: if_splits)
  show ?thesis
  proof (rule log_inv_step [OF assms(2), of _ ?d ?msg])
    show "cs_log st' = cs_log st @ terminated (?d @ ?msg)"
      using log_println_log [OF assms(3)] by (simp add: st')
    show "newline \<notin> set (?d @ ?msg)" using assms(1,5) by (simp add: stamp_ok_def)
    fix F assume F: "agrees t0 st F"
    have "recover_line (?d @ terminated ?msg) t = bindR (make_chunk (\<lambda>_. '''') ?c t) Inr" for t
      using recover_line_record [of ?d "''Createe''" "'' Chunkid:'' @ f @ ''-0/'' @ [newline]" t]
        replay_create_record [of f t] assms(1) c by (simp add: stamp_ok_def creatable_def)
    then have "recover_line (?d @ terminated ?msg) (t0\<lparr>cs_meta := cs_meta st, cs_files := F\<rparr>) =
        Inr (t0\<lparr>cs_meta := cs_meta st', cs_files := F(?c \<mapsto> fresh_chunk)\<rparr>)"
      using c assms(4) by (simp add: make_chunk_def log_println_def st' Let_def)
    moreover have "agrees t0 st' (F(?c \<mapsto> fresh_chunk))"
      using F by (auto simp: agrees_def st')
    ultimately show "\<exists>F'. agrees t0 st' F' \<and> recover_line (?d @ terminated ?msg)
        (t0\<lparr>cs_meta := cs_meta st, cs_files := F\<rparr>) = Inr (t0\<lparr>cs_meta := cs_meta st', cs_files := F'\<rparr>)"
      by blast
  qed
qed

lemma version_log_inv:
  assumes "stamp_ok stamp" "log_inv t0 st" "cs_logging st" "unat v < 10"
    "creatable c" "newline \<notin> set c" "c \<in> dom (cs_meta st)"
  shows "log_inv t0 (log_println stamp (version_record v c) (set_version c v st))"
proof (rule log_inv_step [OF assms(2), of _ "stamp (cs_nlog st)" "version_record v c"])
  let ?st' = "log_println stamp (version_record v c) (set_version c v st)"
  show "cs_log ?st' = cs_log st @ terminated (stamp (cs_nlog st) @ version_record v c)"
    using assms(3) by (simp add: log_println_def)
  show "newline \<notin> set (stamp (cs_nlog st) @ version_record v c)"
    using assms(1,6) by (simp add: stamp_ok_def version_record_def)
  fix F assume F: "agrees t0 st F"
  have "recover_line (stamp (cs_nlog st) @ terminated (version_record v c)) t = Inr (set_version c v t)" for t
    using recover_line_record [of "stamp (cs_nlog st)" "''Version''" "'':'' @ Itoa (int_of_u64 v) @ ''-'' @ c @ ''/'' @ [newline]" t]
      replay_version_record [of v c "[newline]" t] assms(1,4,5)
    by (simp add: stamp_ok_def creatable_def version_record_def)
  then have "recover_line (stamp (cs_nlog st) @ terminated (version_record v c)) (t0\<lparr>cs_meta := cs_meta st, cs_files := F\<rparr>) =
      Inr (t0\<lparr>cs_meta := cs_meta ?st', cs_files := F\<rparr>)"
    by (simp add: set_version_def meta_of_def)
  moreover have "agrees t0 ?st' F"
    using F assms(7) by (auto simp: agrees_def set_version_def)
  ultimately show "\<exists>F'. agrees t0 ?st' F' \<and> recover_line (stamp (cs_nlog st) @ terminated (version_record v c))
      (t0\<lparr>cs_meta := cs_meta st, cs_files := F\<rparr>) = Inr (t0\<lparr>cs_meta := cs_meta ?st', cs_files := F'\<rparr>)"
    by blast
qed

lemma WriteChunk_log_inv:
  assumes "stamp_ok stamp" "log_inv t0 st" "cs_logging st" "\<not> cs_logging t0" "cs_inv st" "newline \<notin> set (Data req)"
    and wrt: "WriteChunk stamp req st = Inr st'"
  shows "log_inv t0 st'"
proof -
  let ?d = "stamp (cs_nlog st)" and ?c = "Chunkid req"
  obtain f where f: "cs_files st ?c = Some f" and e: "unat (Byteend req) < chunk_size"
    and st': "st' = (log_println stamp (write_record req) st)\<lparr>cs_files := (cs_files st)(?c \<mapsto>
                file_write (seek_set (Bytebegin req)) (Data req) f)\<rparr>"
    using wrt by (auto simp: WriteChunk_Inr)
  have c: "?c \<in> dom (cs_meta st)" "creatable ?c" "newline \<notin> set ?c"
    using cs_inv_file [OF assms(5), of ?c] f by simp_all
  show ?thesis
  proof (rule log_inv_step [OF assms(2), of _ ?d "write_record req"])
    show "cs_log st' = cs_log st @ terminated (?d @ write_record req)"
      using assms(3) by (simp add: log_println_def st')
    show "newline \<notin> set (?d @ write_record req)"
      using assms(1,6) c(3) by (simp add: stamp_ok_def write_record_def)
    fix F assume F: "agrees t0 st F"
    let ?F = "F(?c \<mapsto> file_write (seek_set (Bytebegin req)) (Data req) f)"
    let ?req = "req\<lparr>Filename := '''', AllServerLocation := [], Index := 0\<rparr>"
    have "recover_line (?d @ terminated (write_record req)) t = WriteChunk (\<lambda>_. '''') ?req t" for t
      using recover_line_record [of ?d "''Writeee''" "drop 7 (write_record req) @ [newline]" t]
        replay_write_record [of req t] assms(1) c(2)
      by (simp add: stamp_ok_def creatable_def write_record_def)
    moreover have "F ?c = Some f" using F c(1) f by (auto simp: agrees_def)
    ultimately have "recover_line (?d @ terminated (write_record req)) (t0\<lparr>cs_meta := cs_meta st, cs_files := F\<rparr>) =
        Inr (t0\<lparr>cs_meta := cs_meta st', cs_files := ?F\<rparr>)"
      using e assms(4) by (simp add: WriteChunk_def log_println_def st')
    moreover have "agrees t0 st' ?F"
      using F c(1) by (auto simp: agrees_def st')
    ultimately show "\<exists>F'. agrees t0 st' F' \<and> recover_line (?d @ terminated (write_record req))
        (t0\<lparr>cs_meta := cs_meta st, cs_files := F\<rparr>) = Inr (t0\<lparr>cs_meta := cs_meta st', cs_files := F'\<rparr>)"
      by blast
  qed
qed

lemma Delete_log_inv:
  assumes "stamp_ok stamp" "log_inv t0 st" "cs_inv st" "Delete stamp req st = Inr (res, st')"
  shows "log_inv t0 st'"
proof -
  let ?d = "stamp (cs_nlog st)" and ?c = "Chunkid req" and ?msg = "''Removee Chunkid:'' @ Chunkid req @ ''/''"
  have f: "cs_files st ?c \<noteq> None"
    and st': "st' = log_println stamp ?msg (st\<lparr>cs_files := (cs_files st)(?c := None), cs_meta := (cs_meta st)(?c := None)\<rparr>)"
    using assms(4) by (auto simp: Delete_def DeleteChunk_def split: if_splits)
  have c: "?c \<in> dom (cs_meta st)" "creatable ?c" "newline \<notin> set ?c"
    using cs_inv_file [OF assms(3) f] by simp_all
  show ?thesis
  proof (rule log_inv_step [OF assms(2), of _ ?d ?msg])
    show "cs_log st' = cs_log st @ terminated (?d @ ?msg)"
      using assms(3) by (simp add: log_println_def st' cs_inv_def)
    show "newline \<notin> set (?d @ ?msg)" using assms(1) c(3) by (simp add: stamp_ok_def)
    fix F assume F: "agrees t0 st F"
    have "recover_line (?d @ terminated ?msg) t = DeleteChunk \<lparr>Chunkid = ?c, Filename = '''', Bytebegin = 0, Byteend = 0,
        Data = '''', AllServerLocation = [], Index = 0\<rparr> t" for t
      using recover_line_record [of ?d "''Removee''" "'' Chunkid:'' @ ?c @ ''/'' @ [newline]" t]
        replay_remove_record [of ?c "[newline]" t] assms(1) c(2) by (simp add: stamp_ok_def creatable_def)
    moreover have "F ?c \<noteq> None" using F c(1) f by (auto simp: agrees_def)
    ultimately have "recover_line (?d @ terminated ?msg) (t0\<lparr>cs_meta := cs_meta st, cs_files := F\<rparr>) =
        Inr (t0\<lparr>cs_meta := cs_meta st', cs_files := F(?c := None)\<rparr>)"
      by (simp add: DeleteChunk_def st')
    moreover have "agrees t0 st' (F(?c := None))"
      using F by (auto simp: agrees_def st')
    ultimately show "\<exists>F'. agrees t0 st' F' \<and> recover_line (?d @ terminated ?msg)
        (t0\<lparr>cs_meta := cs_meta st, cs_files := F\<rparr>) = Inr (t0\<lparr>cs_meta := cs_meta st', cs_files := F'\<rparr>)"
      by blast
  qed
qed

text \<open>Every request keeps the invariant and the relation between the log and the state.\<close>

lemma WriteChunk_inv:
  assumes "cs_inv st" "WriteChunk stamp req st = Inr st'"
  shows "cs_inv st' \<and> Chunkid req \<in> dom (cs_meta st')"
proof -
  obtain f where "cs_files st (Chunkid req) = Some f" "cs_meta st' = cs_meta st" "cs_logging st' = cs_logging st"
    "dom (cs_files st') = insert (Chunkid req) (dom (cs_files st))"
    using assms(2) by (auto simp: WriteChunk_Inr)
  then show ?thesis
    using assms(1) cs_inv_file(1) [OF assms(1), of "Chunkid req"]
    by (simp add: cs_inv_def insert_absorb domI)
qed

lemma meta_update_inv:
  "cs_inv st \<Longrightarrow> c \<in> dom (cs_meta st) \<Longrightarrow> cs_inv (st\<lparr>cs_meta := (cs_meta st)(c \<mapsto> m)\<rparr>)"
  by (simp add: cs_inv_def insert_absorb)

lemma set_version_inv: "cs_inv st \<Longrightarrow> c \<in> dom (cs_meta st) \<Longrightarrow> cs_inv (set_version c v st)"
  unfolding set_version_def by (rule meta_update_inv)

lemma log_println_inv [simp]: "cs_inv (log_println stamp m st) = cs_inv st"
  by (simp add: cs_inv_def)

lemma run_op_inv:
  assumes "cs_inv st" "loggable st op" "run_op stamp op st = Inr st'"
  shows "cs_inv st'"
proof (cases op)
  case (OpCreate req)
  with assms show ?thesis
    by (clarsimp simp: Create_def CreateChunk_def make_chunk_def Let_def cs_inv_def creatable_def split: if_splits)
next
  case (OpWrite req)
  then obtain st1 where st1: "WriteChunk stamp req st = Inr st1"
    "st' = log_println stamp (version_record (md_Version (meta_of st1 (Chunkid req)) + 1) (Chunkid req))
      (set_version (Chunkid req) (md_Version (meta_of st1 (Chunkid req)) + 1) st1)"
    using assms(3) by (auto simp: Write_def Let_def bindR_Inr_iff)
  then show ?thesis using WriteChunk_inv [OF assms(1) st1(1)] by (auto intro: set_version_inv)
next
  case (OpUpdate b)
  show ?thesis
  proof (cases "cs_meta st (bc_Chunkid b)")
    case None
    with assms OpUpdate show ?thesis by (simp add: UpdateOwnChunkVersion_def)
  next
    case (Some m)
    then obtain st1 where st1: "WriteChunk stamp (broadcast_write b) st = Inr st1"
      "st' = log_println stamp (version_record (bc_Version b) (bc_Chunkid b))
        (st1\<lparr>cs_meta := (cs_meta st1)(bc_Chunkid b \<mapsto> m\<lparr>md_Version := bc_Version b\<rparr>)\<rparr>)"
      using assms(3) OpUpdate by (auto simp: UpdateOwnChunkVersion_def Let_def bindR_Inr_iff)
    then show ?thesis
      using WriteChunk_inv [OF assms(1) st1(1)] meta_update_inv by (simp add: broadcast_write_def)
  qed
next
  case (OpDelete req)
  with assms show ?thesis
    by (clarsimp simp: Delete_def DeleteChunk_def cs_inv_def split: if_splits)
qed

lemma unat_Suc_small: "unat v < 9 \<Longrightarrow> unat (v + 1) < 10" for v :: u64
  by (simp add: unat_word_ariths)

lemma WriteChunk_meta:
  assumes "WriteChunk stamp req st = Inr st1"
  shows "cs_meta st1 = cs_meta st" "cs_logging st1 = cs_logging st" "meta_of st1 c = meta_of st c"
  using assms by (auto simp: WriteChunk_Inr meta_of_def)

lemma run_op_log_inv:
  assumes stamp: "stamp_ok stamp" and inv: "cs_inv st" and log: "log_inv t0 st" and t0: "\<not> cs_logging t0"
    and ok: "loggable st op" and run: "run_op stamp op st = Inr st'"
  shows "log_inv t0 st'"
proof (cases op)
  case (OpCreate req)
  let ?c = "Filename req @ ''-0''"
  obtain st1 where make: "make_chunk stamp ?c st = Inr st1"
    and st': "st' = log_println stamp (''Version:0-'' @ ?c @ ''/'') st1"
    using OpCreate run by (auto simp: Create_def CreateChunk_def Let_def bindR_Inr_iff)
  have st1: "cs_logging st1" "creatable ?c" "cs_meta st1 ?c = Some \<lparr>md_Chunkid = ?c, md_Version = 0\<rparr>"
    using make inv by (auto simp: make_chunk_def Let_def cs_inv_def split: if_splits)
  have "log_inv t0 st1"
    using make_chunk_log_inv [OF stamp log _ t0 _ make] ok OpCreate inv by (simp add: cs_inv_def)
  then have "log_inv t0 (log_println stamp (version_record 0 ?c) (set_version ?c 0 st1))"
    by (rule version_log_inv [OF stamp]) (use st1 ok OpCreate in auto)
  moreover have "set_version ?c 0 st1 = st1" "version_record 0 ?c = ''Version:0-'' @ ?c @ ''/''"
    using st1(3) by (simp_all add: set_version_def meta_of_def fun_upd_idem version_record_def
        int_of_u64_def Itoa_def nat_str.simps)
  ultimately show ?thesis by (simp add: st')
next
  case (OpWrite req)
  let ?c = "Chunkid req"
  obtain st1 where w: "WriteChunk stamp req st = Inr st1"
    and st': "st' = log_println stamp (version_record (md_Version (meta_of st1 ?c) + 1) ?c)
      (set_version ?c (md_Version (meta_of st1 ?c) + 1) st1)"
    using OpWrite run by (auto simp: Write_def Let_def bindR_Inr_iff)
  have c: "?c \<in> dom (cs_meta st1)" "creatable ?c" "newline \<notin> set ?c" "cs_logging st1"
    using WriteChunk_inv [OF inv w] by (auto simp: cs_inv_def)
  have "log_inv t0 st1"
    using WriteChunk_log_inv [OF stamp log _ t0 inv _ w] ok OpWrite inv by (simp add: cs_inv_def)
  then show ?thesis
    unfolding st' by (rule version_log_inv [OF stamp])
      (use ok OpWrite c WriteChunk_meta [OF w] in \<open>auto intro: unat_Suc_small\<close>)
next
  case (OpUpdate b)
  show ?thesis
  proof (cases "cs_meta st (bc_Chunkid b)")
    case None
    with run OpUpdate log show ?thesis by (simp add: UpdateOwnChunkVersion_def)
  next
    case (Some m)
    let ?c = "bc_Chunkid b"
    obtain st1 where w: "WriteChunk stamp (broadcast_write b) st = Inr st1"
      and st': "st' = log_println stamp (version_record (bc_Version b) ?c)
        (st1\<lparr>cs_meta := (cs_meta st1)(?c \<mapsto> m\<lparr>md_Version := bc_Version b\<rparr>)\<rparr>)"
      using Some run OpUpdate by (auto simp: UpdateOwnChunkVersion_def Let_def bindR_Inr_iff)
    have "st1\<lparr>cs_meta := (cs_meta st1)(?c \<mapsto> m\<lparr>md_Version := bc_Version b\<rparr>)\<rparr> = set_version ?c (bc_Version b) st1"
      using Some WriteChunk_meta [OF w] by (simp add: set_version_def meta_of_def)
    then have st'': "st' = log_println stamp (version_record (bc_Version b) ?c) (set_version ?c (bc_Version b) st1)"
      by (simp add: st')
    have c: "?c \<in> dom (cs_meta st1)" "creatable ?c" "newline \<notin> set ?c" "cs_logging st1"
      using WriteChunk_inv [OF inv w] by (auto simp: cs_inv_def broadcast_write_def)
    have "log_inv t0 st1"
      using WriteChunk_log_inv [OF stamp log _ t0 inv _ w] ok OpUpdate inv
      by (simp add: cs_inv_def broadcast_write_def)
    then show ?thesis
      unfolding st'' by (rule version_log_inv [OF stamp]) (use ok OpUpdate c in auto)
  qed
next
  case (OpDelete req)
  then obtain res where "Delete stamp req st = Inr (res, st')"
    using run by (auto simp: bindR_Inr_iff)
  then show ?thesis by (rule Delete_log_inv [OF stamp log inv])
qed

lemma run_ops_log_inv:
  "stamp_ok stamp \<Longrightarrow> \<not> cs_logging t0 \<Longrightarrow> cs_inv st \<Longrightarrow> log_inv t0 st \<Longrightarrow> all_loggable stamp ops st \<Longrightarrow>
   run_ops stamp ops st = Inr st' \<Longrightarrow> cs_inv st' \<and> log_inv t0 st'"
proof (induction ops arbitrary: st)
  case (Cons op ops)
  then obtain st1 where st1: "run_op stamp op st = Inr st1" "run_ops stamp ops st1 = Inr st'"
    by (auto simp: bindR_Inr_iff)
  with Cons.prems have "cs_inv st1" "log_inv t0 st1" "all_loggable stamp ops st1"
    by (auto intro: run_op_inv run_op_log_inv)
  with Cons.IH Cons.prems st1 show ?case by blast
qed simp

lemma boot_log_inv:
  assumes inv: "cs_inv st" and log: "log_inv (st\<lparr>cs_meta := Map.empty, cs_logging := False\<rparr>) st"
  shows "boot st = Inr st"
proof -
  let ?t0 = "st\<lparr>cs_meta := Map.empty, cs_logging := False\<rparr>"
  obtain ls F where ls: "cs_log st = concat (map terminated ls)" "\<forall>l\<in>set ls. newline \<notin> set l"
    and F: "agrees ?t0 st F" "recover_lines (map terminated ls) ?t0 = Inr (?t0\<lparr>cs_meta := cs_meta st, cs_files := F\<rparr>)"
    using log unfolding log_inv_def by blast
  have "F c = cs_files st c" for c
  proof (cases "c \<in> dom (cs_meta st)")
    case True
    then show ?thesis using F(1) by (simp add: agrees_def)
  next
    case False
    moreover have "dom F \<subseteq> dom (cs_files st) \<union> dom (cs_meta st)" using F(1) by (simp add: agrees_def)
    ultimately have "c \<notin> dom F" "c \<notin> dom (cs_files st)" using inv by (auto simp: cs_inv_def domIff)
    then show ?thesis by (simp add: domIff)
  qed
  then have "F = cs_files st" by blast
  moreover have "read_lines [] (cs_log st) = map terminated ls"
    using ls read_lines_terminated by simp
  ultimately show ?thesis
    using F(2) inv by (simp add: boot_def recover_def cs_inv_def)
qed

text \<open>Lines that stop every restart.\<close>

lemma make_chunk_logging: "make_chunk stamp c st = Inr st' \<Longrightarrow> cs_logging st' = cs_logging st"
  by (auto simp: make_chunk_def Let_def split: if_splits)

lemma WriteChunk_logging: "WriteChunk stamp req st = Inr st' \<Longrightarrow> cs_logging st' = cs_logging st"
  by (auto simp: WriteChunk_Inr)

lemma replay_logging:
  "replay_create l st = Inr st' \<Longrightarrow> cs_logging st' = cs_logging st"
  "replay_write l st = Inr st' \<Longrightarrow> cs_logging st' = cs_logging st"
  "replay_version l st = Inr st' \<Longrightarrow> cs_logging st' = cs_logging st"
  "replay_remove l st = Inr st' \<Longrightarrow> cs_logging st' = cs_logging st"
proof -
  show "replay_create l st = Inr st' \<Longrightarrow> cs_logging st' = cs_logging st"
    by (auto simp: replay_create_def CreateChunk_def AddChunk_def Let_def bindR_Inr_iff split: if_splits
        dest: make_chunk_logging)
  show "replay_write l st = Inr st' \<Longrightarrow> cs_logging st' = cs_logging st"
    by (auto simp: replay_write_def bindR_Inr_iff dest: WriteChunk_logging)
  show "replay_version l st = Inr st' \<Longrightarrow> cs_logging st' = cs_logging st"
    by (auto simp: replay_version_def bindR_Inr_iff)
  show "replay_remove l st = Inr st' \<Longrightarrow> cs_logging st' = cs_logging st"
    by (auto simp: replay_remove_def DeleteChunk_def bindR_Inr_iff split: if_splits)
qed

lemma recover_line_logging: "recover_line l st = Inr st' \<Longrightarrow> cs_logging st' = cs_logging st"
  unfolding recover_line_def bindR_Inr_iff
  by (elim exE conjE) (simp split: if_splits add: replay_logging)

lemma recover_lines_logging: "recover_lines ls st = Inr st' \<Longrightarrow> cs_logging st' = cs_logging st"
  by (induction ls arbitrary: st) (auto simp: bindR_Inr_iff dest: recover_line_logging)

lemma boot_blocked:
  assumes "cs_log st = concat (map terminated (ls @ [l]))" "\<And>x. x \<in> set (ls @ [l]) \<Longrightarrow> newline \<notin> set x"
    and "\<And>t. \<not> cs_logging t \<Longrightarrow> \<exists>e. recover_line (terminated l) t = Inl e"
  shows "\<exists>e. boot st = Inl e"
proof -
  let ?t0 = "st\<lparr>cs_meta := Map.empty, cs_logging := False\<rparr>"
  have "recover ?t0 = bindR (recover_lines (map terminated ls) ?t0) (recover_lines [terminated l])"
    using read_lines_terminated [of "ls @ [l]"] assms(1,2) by (simp add: recover_def replay_lines_append del: replay_lines.simps)
  moreover have "\<not> cs_logging t" if "recover_lines (map terminated ls) ?t0 = Inr t" for t
    using recover_lines_logging [OF that] by simp
  ultimately show ?thesis
    using assms(3) by (cases "recover_lines (map terminated ls) ?t0") (fastforce simp: boot_def)+
qed

lemma replay_version_no_slash:
  assumes "CHR ''/'' \<notin> set c"
  shows "replay_version (''Version:0-'' @ c @ [newline]) st = Inl Panic"
proof -
  have "str_Index (''Version:0-'' @ c @ [newline]) ''/'' = -1"
    by (rule str_Index_absent) (use assms in simp)
  moreover have "go_slice (''Version:0-'' @ c @ [newline]) 8 9 = Some ''0''"
    using version_field [of "''0''" "''-'' @ c @ [newline]"] by simp
  ultimately show ?thesis by (simp add: replay_version_def go_slice_def)
qed

lemma nat_str_two: "10 \<le> n \<Longrightarrow> n < 100 \<Longrightarrow> nat_str n = [digit (n div 10), digit (n mod 10)]"
  by (simp add: nat_str.simps [of n] nat_str.simps [of "n div 10"])

lemma replay_version_two_digits:
  assumes v: "10 \<le> unat v" "unat v < 100" and c: "CHR ''/'' \<notin> set c"
  shows "replay_version (version_record v c @ rest) st = Inr (set_version (''-'' @ c) (of_nat (unat v div 10)) st)"
proof -
  let ?q = "unat v div 10" and ?r = "unat v mod 10"
  define l where "l = ''Version:'' @ [digit ?q, digit ?r] @ ''-'' @ c @ ''/'' @ rest"
  have q: "?q < 10" "?r < 10" using v by auto
  then have nd: "CHR ''/'' \<noteq> digit ?q" "CHR ''/'' \<noteq> digit ?r"
    by (metis is_digit_digit is_digit_simps(3))+
  have "str_Index l ''/'' = int (length c) + 11"
    by (rule str_Index_charI [of _ "''Version:'' @ [digit ?q, digit ?r] @ ''-'' @ c"]) (use c nd in \<open>simp_all add: l_def\<close>)
  moreover have "go_slice l 8 9 = Some [digit ?q]"
    by (rule slice_eqI [of _ "''Version:''"]) (simp_all add: l_def)
  moreover have "go_slice l 10 (int (length c) + 11) = Some (''-'' @ c)"
    by (rule slice_eqI [of _ "''Version:'' @ [digit ?q, digit ?r]"]) (simp_all add: l_def)
  moreover have "Atoi [digit ?q] = int ?q"
    using q(1) by (simp add: Atoi_digits dec_val_def clamp_int_def)
  moreover have "version_record v c @ rest = l"
  proof -
    have "Itoa (int_of_u64 v) = nat_str (unat v)"
      using v(2) by (subst int_of_u64_small) (simp, rule Itoa_of_nat)
    then show ?thesis using nat_str_two [OF v] by (simp add: version_record_def l_def)
  qed
  ultimately show ?thesis by (simp add: replay_version_def u64_of_int_def)
qed

section \<open>Properties\<close>

text \<open>
  C8: restarting a chunk server rebuilds its metadata and its files. After any sequence of Create,
  Write, UpdateOwnChunkVersion and Delete requests on a new server whose names and data have no
  newline and whose versions stay below 10, the restart parses the log back to exactly the state
  before it.
\<close>

theorem boot_recovers:
  assumes "stamp_ok stamp" "all_loggable stamp ops (new_chunkserver loc)"
    "run_ops stamp ops (new_chunkserver loc) = Inr st"
  shows "boot st = Inr st"
proof -
  let ?t0 = "st\<lparr>cs_meta := Map.empty, cs_logging := False\<rparr>"
  have "cs_inv (new_chunkserver loc)" by (simp add: cs_inv_def new_chunkserver_def)
  moreover have "log_inv ?t0 (new_chunkserver loc)"
    unfolding log_inv_def
    by (intro exI [of _ "[]"] exI [of _ "cs_files st"]) (simp add: agrees_def new_chunkserver_def)
  ultimately have "cs_inv st \<and> log_inv ?t0 st"
    using run_ops_log_inv [OF assms(1) _ _ _ assms(2,3), of ?t0] by simp
  then show ?thesis using boot_log_inv by blast
qed

text \<open>
  A completed write of at most a chunk is read back: \<open>Read\<close> of the written range returns the data,
  other chunks and the other bytes of the chunk are as before, and the chunk keeps its size.
\<close>

theorem Read_after_Write:
  assumes w: "Write stamp req st = Inr (res, st', opr, bc)"
    and f: "cs_files st (Chunkid req) = Some f" "f_size f = chunk_size"
    and fits: "unat (Bytebegin req) + length (Data req) \<le> chunk_size"
  shows "(\<forall>r. Chunkid r = Chunkid req \<and> Bytebegin r = Bytebegin req \<and>
            Byteend r = Bytebegin req + of_nat (length (Data req)) \<longrightarrow>
            Read r st' = Inr \<lparr>res_Data = Data req, res_Chunkid = '''', res_Errornum = 0\<rparr>) \<and>
         (\<forall>r. Chunkid r \<noteq> Chunkid req \<longrightarrow> Read r st' = Read r st) \<and>
         (\<forall>r. Chunkid r = Chunkid req \<and> Bytebegin r \<le> Byteend r \<and> unat (Byteend r) \<le> chunk_size \<and>
            (Byteend r \<le> Bytebegin req \<or> unat (Bytebegin req) + length (Data req) \<le> unat (Bytebegin r)) \<longrightarrow>
            Read r st' = Read r st) \<and>
         (\<exists>f'. cs_files st' (Chunkid req) = Some f' \<and> f_size f' = chunk_size)"
proof -
  let ?c = "Chunkid req" and ?b = "unat (Bytebegin req)"
  have cs: "chunk_size = 1048576" by (simp add: chunk_size_def)
  have seek: "seek_set b = unat b" if "unat b \<le> chunk_size" for b
    using that int_of_u64_small [of b] by (simp add: seek_set_def cs)
  let ?f = "file_write ?b (Data req) f"
  have files: "cs_files st' = (cs_files st)(?c \<mapsto> ?f)"
    using w f fits seek [of "Bytebegin req"] by (auto simp: Write_def Let_def bindR_Inr_iff WriteChunk_Inr)
  have size: "f_size ?f = chunk_size" using f_size_file_write [of ?b "Data req" f] f fits by simp
  have "length (Data req) < 2 ^ LENGTH(64)" using fits by (simp add: cs)
  then have len: "unat (of_nat (length (Data req)) :: u64) = length (Data req)"
    by (simp add: unat_of_nat)
  have own: "Read r st' = Inr \<lparr>res_Data = Data req, res_Chunkid = '''', res_Errornum = 0\<rparr>"
    if "Chunkid r = ?c" "Bytebegin r = Bytebegin req" "Byteend r = Bytebegin req + of_nat (length (Data req))" for r
    using that fits f len seek [of "Bytebegin req"] file_read_write [of ?b "Data req" f]
    by (simp add: Read_def files Let_def max_alloc_def cs)
  moreover have "Read r st' = Read r st" if "Chunkid r \<noteq> ?c" for r
    using that by (simp add: Read_def files)
  moreover have "Read r st' = Read r st"
    if r: "Chunkid r = ?c" "Bytebegin r \<le> Byteend r" "unat (Byteend r) \<le> chunk_size"
      "Byteend r \<le> Bytebegin req \<or> ?b + length (Data req) \<le> unat (Bytebegin r)" for r
  proof -
    let ?n = "unat (Byteend r - Bytebegin r)"
    have n: "?n = unat (Byteend r) - unat (Bytebegin r)" "unat (Bytebegin r) \<le> unat (Byteend r)"
      using r(2) by (simp_all add: unat_sub word_le_nat_alt)
    then have "seek_set (Bytebegin r) = unat (Bytebegin r)" using seek r(3) by simp
    moreover have "unat (Bytebegin r) + ?n \<le> ?b \<or> ?b + length (Data req) \<le> unat (Bytebegin r)"
      using r(4) n by (auto simp: word_le_nat_alt)
    then have "file_read (unat (Bytebegin r)) ?n ?f = file_read (unat (Bytebegin r)) ?n f"
      using file_read_write_other [of ?b "Data req" f "unat (Bytebegin r)" ?n] f fits by auto
    ultimately show ?thesis using r(1) f by (simp add: Read_def files Let_def)
  qed
  ultimately show ?thesis using size files by simp
qed

text \<open>
  A write reaches the replicas: a server that has the chunk with the same bytes, and receives the
  broadcast of a completed write, has the same bytes and the same version as the primary afterwards,
  and its other chunks are unchanged; the version is one more than the primary's was.
\<close>

theorem replica_follows_primary:
  assumes w: "Write stamp req st = Inr (res, st', opr, bc)"
    and f: "cs_files rp (Chunkid req) = cs_files st (Chunkid req)" and m: "cs_meta rp (Chunkid req) \<noteq> None"
  shows "\<exists>rp' rop. UpdateOwnChunkVersion stamp' bc rp = Inr (True, rp', Some rop) \<and>
    cs_files rp' (Chunkid req) = cs_files st' (Chunkid req) \<and>
    md_Version (meta_of rp' (Chunkid req)) = md_Version (meta_of st' (Chunkid req)) \<and>
    md_Version (meta_of st' (Chunkid req)) = md_Version (meta_of st (Chunkid req)) + 1 \<and>
    rop = \<lparr>op_ServerLocation = cs_location rp, op_Chunkid = Chunkid req, op_Version = op_Version opr\<rparr> \<and>
    (\<forall>c. c \<noteq> Chunkid req \<longrightarrow> cs_files rp' c = cs_files rp c \<and> cs_meta rp' c = cs_meta rp c)"
proof -
  let ?c = "Chunkid req" and ?v = "md_Version (meta_of st (Chunkid req)) + 1"
  obtain g where g: "cs_files st ?c = Some g" "unat (Byteend req) < chunk_size"
    and st': "cs_files st' ?c = Some (file_write (seek_set (Bytebegin req)) (Data req) g)"
      "md_Version (meta_of st' ?c) = ?v" "op_Version opr = ?v"
    and bc: "bc = \<lparr>bc_Chunkid = ?c, bc_Version = ?v, bc_Bytebegin = Bytebegin req,
      bc_Byteend = Byteend req, bc_Data = Data req\<rparr>"
    using w by (auto simp: Write_def Let_def bindR_Inr_iff WriteChunk_Inr meta_of_def set_version_def)
  obtain m where m: "cs_meta rp ?c = Some m" using m by blast
  show ?thesis
    using g f m st' by (auto simp: UpdateOwnChunkVersion_def bc broadcast_write_def WriteChunk_def Let_def meta_of_def)
qed

text \<open>
  A server on which a chunk was ever added cannot restart: the version record that \<open>Add\<close> logs has
  no slash, and \<open>recover()\<close> slices up to the slash.
\<close>

theorem Add_blocks_restart:
  assumes "Add stamp req st = Inr (res, st')" and "stamp_ok stamp" and "cs_logging st"
    and "cs_log st = concat (map terminated ls)" and "list_all (\<lambda>l. newline \<notin> set l) ls"
    and "newline \<notin> set (Filename req)"
  shows "\<exists>e. boot st' = Inl e"
proof -
  let ?c = "Filename req @ ''-'' @ Itoa (int_of_u64 (Index req))"
  obtain st1 where make: "make_chunk stamp ?c st = Inr st1" and st': "st' = log_println stamp (''Version:0-'' @ ?c) st1"
    using assms(1) by (auto simp: Add_def AddChunk_def Let_def bindR_Inr_iff)
  have c: "creatable ?c" and st1: "cs_logging st1" "cs_log st1 = cs_log st @ terminated (stamp (cs_nlog st) @ ''Createe Chunkid:'' @ ?c @ ''/'')"
    using make assms(3) by (auto simp: make_chunk_def Let_def log_println_def split: if_splits)
  let ?ls = "ls @ [stamp (cs_nlog st) @ ''Createe Chunkid:'' @ ?c @ ''/'']" and ?l = "stamp (cs_nlog st1) @ ''Version:0-'' @ ?c"
  show ?thesis
  proof (rule boot_blocked [of _ ?ls ?l])
    show "cs_log st' = concat (map terminated (?ls @ [?l]))"
      using st1 assms(4) by (simp add: st' log_println_def)
    show "newline \<notin> set x" if "x \<in> set (?ls @ [?l])" for x
      using that assms(2,5,6) by (auto simp: stamp_ok_def list_all_iff)
    show "\<exists>e. recover_line (terminated ?l) t = Inl e" for t
      using recover_line_record [of "stamp (cs_nlog st1)" "''Version''" "'':0-'' @ ?c @ [newline]" t]
        replay_version_no_slash [of ?c t] c assms(2)
      by (simp add: stamp_ok_def creatable_def)
  qed
qed

text \<open>
  A write whose end is outside the chunk is logged before it is rejected: it ends the server
  process, and every later restart replays the record and ends the process again.
\<close>

theorem rejected_write_blocks_restart:
  assumes "unat (Byteend req) \<ge> chunk_size" and "stamp_ok stamp" and "cs_logging st"
    and "cs_log st = concat (map terminated ls)" and "list_all (\<lambda>l. newline \<notin> set l) ls"
    and "creatable (Chunkid req)" "newline \<notin> set (Chunkid req)" "newline \<notin> set (Data req)"
  shows "Write stamp req st = Inl Fatal \<and> (\<exists>e. boot (log_println stamp (write_record req) st) = Inl e)"
proof -
  let ?l = "stamp (cs_nlog st) @ write_record req"
  have "\<exists>e. boot (log_println stamp (write_record req) st) = Inl e"
  proof (rule boot_blocked [of _ ls ?l])
    show "cs_log (log_println stamp (write_record req) st) = concat (map terminated (ls @ [?l]))"
      using assms(3,4) by (simp add: log_println_def)
    show "newline \<notin> set x" if "x \<in> set (ls @ [?l])" for x
      using that assms(2,5,7,8) by (auto simp: stamp_ok_def list_all_iff write_record_def)
    show "\<exists>e. recover_line (terminated ?l) t = Inl e" for t
      using recover_line_record [of "stamp (cs_nlog st)" "''Writeee''" "drop 7 (write_record req) @ [newline]" t]
        replay_write_record [of req t] assms(1,2,6)
      by (simp add: stamp_ok_def creatable_def WriteChunk_def write_record_def)
  qed
  moreover have "Write stamp req st = Inl Fatal"
    using assms(1) by (simp add: Write_def WriteChunk_def Let_def)
  ultimately show ?thesis by blast
qed

text \<open>
  \<open>recover()\<close> reads one digit of a version. The record of a version from 10 to 99 is replayed on a
  chunk id with a dash in front, which no chunk has, so the chunk keeps the version it had at the
  previous record.
\<close>

theorem recover_two_digit_version:
  assumes "10 \<le> unat v" "unat v < 100" "CHR ''/'' \<notin> set c" "length d = 20"
  shows "recover_line (d @ version_record v c @ [newline]) st =
    Inr (set_version (''-'' @ c) (of_nat (unat v div 10)) st)"
  using recover_line_record [of d "''Version''" "drop 7 (version_record v c) @ [newline]" st]
    replay_version_two_digits [OF assms(1-3), of "[newline]" st] assms(4)
  by (simp add: version_record_def)

section \<open>Witnesses\<close>

definition demo_stamp :: "nat \<Rightarrow> string" where
  "demo_stamp k = ''2021/07/01 12:00:00 ''"

definition demo_req :: "string \<Rightarrow> string \<Rightarrow> u64 \<Rightarrow> u64 \<Rightarrow> ChunkRequest" where
  "demo_req f data b e = \<lparr>Chunkid = f @ ''-0'', Filename = f, Bytebegin = b, Byteend = e, Data = data,
     AllServerLocation = [], Index = 1\<rparr>"

lemma demo_stamp_ok: "stamp_ok demo_stamp"
  by (simp add: stamp_ok_def demo_stamp_def)

definition demo_ops :: "cs_op list" where
  "demo_ops = [OpCreate (demo_req ''a'' '''' 0 0), OpWrite (demo_req ''a'' ''hi/:'' 3 6), OpCreate (demo_req ''b'' '''' 0 0),
     OpDelete (demo_req ''b'' '''' 0 0)]"

lemmas cs_eval = Create_def CreateChunk_def make_chunk_def Write_def WriteChunk_def Delete_def DeleteChunk_def
  Let_def demo_req_def creatable_def log_println_def set_version_def meta_of_def new_chunkserver_def chunk_size_def

lemma demo_run_ops:
  "\<exists>st. run_ops demo_stamp demo_ops (new_chunkserver ''c'') = Inr st \<and> cs_files st ''a-0'' \<noteq> None"
  by (simp add: demo_ops_def cs_eval)

theorem boot_recovers_witness:
  "\<exists>st. run_ops demo_stamp demo_ops (new_chunkserver ''c'') = Inr st \<and> cs_files st ''a-0'' \<noteq> None \<and> boot st = Inr st"
proof -
  obtain st where st: "run_ops demo_stamp demo_ops (new_chunkserver ''c'') = Inr st" "cs_files st ''a-0'' \<noteq> None"
    using demo_run_ops by blast
  moreover have "all_loggable demo_stamp demo_ops (new_chunkserver ''c'')"
    by (simp add: demo_ops_def cs_eval)
  ultimately show ?thesis using boot_recovers [OF demo_stamp_ok] by blast
qed

definition demo_server :: chunkserver where
  "demo_server = (new_chunkserver ''c'')\<lparr>cs_meta := [''a-0'' \<mapsto> \<lparr>md_Chunkid = ''a-0'', md_Version = 4\<rparr>],
     cs_files := [''a-0'' \<mapsto> fresh_chunk]\<rparr>"

lemma demo_write: "\<exists>res st' opr bc. Write demo_stamp (demo_req ''a'' ''hi'' 3 5) demo_server = Inr (res, st', opr, bc)"
  by (simp add: demo_server_def cs_eval)

theorem Read_after_Write_witness:
  "\<exists>res st' opr bc. Write demo_stamp (demo_req ''a'' ''hi'' 3 5) demo_server = Inr (res, st', opr, bc) \<and>
     Read (demo_req ''a'' '''' 3 5) st' = Inr \<lparr>res_Data = ''hi'', res_Chunkid = '''', res_Errornum = 0\<rparr>"
proof -
  obtain res st' opr bc where w: "Write demo_stamp (demo_req ''a'' ''hi'' 3 5) demo_server = Inr (res, st', opr, bc)"
    using demo_write by blast
  have "cs_files demo_server ''a-0'' = Some fresh_chunk" by (simp add: demo_server_def)
  then have "Read (demo_req ''a'' '''' 3 5) st' = Inr \<lparr>res_Data = ''hi'', res_Chunkid = '''', res_Errornum = 0\<rparr>"
    using Read_after_Write [OF w, of fresh_chunk] by (simp add: demo_req_def chunk_size_def)
  with w show ?thesis by blast
qed

theorem replica_follows_primary_witness:
  "\<exists>res st' opr bc rp' rop. Write demo_stamp (demo_req ''a'' ''hi'' 3 5) demo_server = Inr (res, st', opr, bc) \<and>
     UpdateOwnChunkVersion demo_stamp bc (demo_server\<lparr>cs_location := ''r''\<rparr>) = Inr (True, rp', Some rop) \<and>
     cs_files rp' ''a-0'' = cs_files st' ''a-0'' \<and> md_Version (meta_of rp' ''a-0'') = 5"
proof -
  obtain res st' opr bc where w: "Write demo_stamp (demo_req ''a'' ''hi'' 3 5) demo_server = Inr (res, st', opr, bc)"
    using demo_write by blast
  have "md_Version (meta_of demo_server ''a-0'') = 4" by (simp add: demo_server_def meta_of_def)
  with w show ?thesis
    using replica_follows_primary [OF w, of "demo_server\<lparr>cs_location := ''r''\<rparr>" demo_stamp]
    by (auto simp: demo_req_def demo_server_def)
qed

theorem Add_blocks_restart_witness:
  "\<exists>res st' e. Add demo_stamp (demo_req ''a'' '''' 0 0) demo_server = Inr (res, st') \<and> boot st' = Inl e"
proof -
  have "\<exists>res st'. Add demo_stamp (demo_req ''a'' '''' 0 0) demo_server = Inr (res, st')"
    by (simp add: Add_def AddChunk_def demo_server_def cs_eval)
  then obtain res st' where a: "Add demo_stamp (demo_req ''a'' '''' 0 0) demo_server = Inr (res, st')" by blast
  from Add_blocks_restart [OF a demo_stamp_ok, of "[]"] a show ?thesis
    by (auto simp: demo_server_def new_chunkserver_def demo_req_def)
qed

theorem rejected_write_blocks_restart_witness:
  "\<exists>e. boot (log_println demo_stamp (write_record (demo_req ''a'' ''x'' 0 1048576)) demo_server) = Inl e"
  using rejected_write_blocks_restart [of "demo_req ''a'' ''x'' 0 1048576" demo_stamp demo_server "[]"] demo_stamp_ok
  by (simp add: demo_req_def demo_server_def new_chunkserver_def chunk_size_def creatable_def)

theorem recover_two_digit_version_witness:
  "\<exists>st'. recover_line (demo_stamp 0 @ version_record 10 ''a-0'' @ [newline]) demo_server = Inr st' \<and>
     md_Version (meta_of st' ''a-0'') = 4 \<and> md_Version (meta_of st' ''-a-0'') = 1"
  using recover_two_digit_version [of 10 "''a-0''" "demo_stamp 0" demo_server]
  by (simp add: demo_stamp_def demo_server_def set_version_def meta_of_def)

end
