(* ===== verification/MasterServer.thy ===== *)
theory MasterServer
  imports GoLib
begin

text \<open>
  The master of the gdocs file system: \<open>master.go\<close>, \<open>rpcToReplica.go\<close> and \<open>rpcToChunkServer.go\<close>
  (\<open>src/gdocs-k-on/code/master\<close>).

  State: whether the process is the leader, the map from file names to chunks, the list of chunk
  servers with their load, the timers of the heartbeats and the text of \<open>master.log\<close>. A handler of the
  leader answers, changes the state, and sends requests to the other two masters: the requests are a
  result of the definition. A peer that cannot be dialled (\<open>up\<close> is false for it) is skipped by
  \<open>AddChunk\<close> only; the other handlers call through a nil connection, which panics.

  While a chunk is placed, the chunk servers are dialled in order of load and the heartbeat timers run
  on: \<open>reach k\<close> says which servers the k-th attempt can dial and \<open>fired k\<close> which timers have expired
  before it. The attempts are unbounded in the code, so the loop has fuel, and \<open>None\<close> means that it is
  still trying. The inner maps are iterated over and are association lists.
\<close>

section \<open>Data (master.go)\<close>

record NodeMetadata =
  NodeLocation :: string
  Alive :: bool
  ChunkNum :: u64

record ChunkMetadata =
  cm_Chunkid :: string
  cm_Chunklocation :: string
  cm_Version :: u64

record ChunkReplicas =
  Chunk_1 :: ChunkMetadata
  Chunk_2 :: ChunkMetadata

record ChunkMasterRequest =
  mq_Filename :: string
  mq_Chunkindex :: u64
  mq_Write :: bool
  mq_Read :: bool
  mq_ServerLocation :: string
  mq_ReplicaLocation :: string
  mq_Chunkid :: string
  mq_Version :: u64

record ChunkMasterResponse =
  mr_Chunkid :: string
  mr_Chunklocation :: string
  mr_Errornum :: int
  mr_Reply :: bool
  mr_AllServerLocation :: "string list"

record VersionRequest =
  vq_ServerLocation :: string
  vq_Chunkid :: string
  vq_Version :: u64

type_synonym chunk_map = "(u64, ChunkReplicas) gomap"

record master =
  m_location :: string
  m_isLeader :: bool
  m_files :: "string \<rightharpoonup> chunk_map"
  m_schedule :: "NodeMetadata list"
  m_timers :: "string \<rightharpoonup> nat"
  m_log :: string
  m_nlog :: nat
  m_logging :: bool

definition no_response :: ChunkMasterResponse where
  "no_response = \<lparr>mr_Chunkid = '''', mr_Chunklocation = '''', mr_Errornum = 0, mr_Reply = False,
     mr_AllServerLocation = []\<rparr>"

definition error_response :: "int \<Rightarrow> ChunkMasterResponse" where
  "error_response e = no_response\<lparr>mr_Errornum := e\<rparr>"

definition initial_nodes :: "string list" where
  "initial_nodes = [''127.0.0.1:8100'', ''127.0.0.1:8101'', ''127.0.0.1:8102'']"

definition initial_schedule :: "NodeMetadata list" where
  "initial_schedule = map (\<lambda>l. \<lparr>NodeLocation = l, Alive = True, ChunkNum = 0\<rparr>) initial_nodes"

definition all_masters :: "string list" where
  "all_masters = map (\<lambda>i. ''127.0.0.1:'' @ Itoa i) [8095, 8096, 8097]"

definition peers :: "master \<Rightarrow> string list" where
  "peers st = filter (\<lambda>a. a \<noteq> m_location st) all_masters"

definition master_log :: "(nat \<Rightarrow> string) \<Rightarrow> string \<Rightarrow> master \<Rightarrow> master" where
  "master_log stamp msg st =
     (if m_logging st
      then st\<lparr>m_log := m_log st @ stamp (m_nlog st) @ msg @ [newline], m_nlog := Suc (m_nlog st)\<rparr>
      else st)"

section \<open>Locating a chunk\<close>

text \<open>The index of the last entry with the location; 0 when there is none.\<close>

definition node_index :: "string \<Rightarrow> NodeMetadata list \<Rightarrow> nat" where
  "node_index loc sched = foldl (\<lambda>k i. if loc = NodeLocation (sched ! i) then i else k) 0 [0..<length sched]"

definition node_alive :: "string \<Rightarrow> NodeMetadata list \<Rightarrow> bool" where
  "node_alive loc sched = Alive (sched ! node_index loc sched)"

definition GetChunkLocation :: "ChunkMasterRequest \<Rightarrow> master \<Rightarrow> ChunkMasterResponse result" where
  "GetChunkLocation req st =
     (if \<not> m_isLeader st then Inr (error_response (- 4))
      else case m_files st (mq_Filename req) of
        None \<Rightarrow> Inr (error_response (- 2))
      | Some cslice \<Rightarrow>
         (case map_of cslice (mq_Chunkindex req) of
            None \<Rightarrow> Inr (error_response (- 3))
          | Some reps \<Rightarrow>
              let chunk1 = Chunk_1 reps; chunk2 = Chunk_2 reps;
                  alive1 = node_alive (cm_Chunklocation chunk1) (m_schedule st);
                  alive2 = node_alive (cm_Chunklocation chunk2) (m_schedule st)
              in if m_schedule st = [] then Inl Panic
                 else if \<not> alive1 \<and> \<not> alive2 then Inl Fatal
                 else let chunk = (if cm_Version chunk1 \<ge> cm_Version chunk2
                                   then (if alive1 then chunk1 else chunk2)
                                   else (if alive2 then chunk2 else chunk1))
                      in Inr (no_response\<lparr>mr_Chunkid := cm_Chunkid chunk,
                                mr_Chunklocation := cm_Chunklocation chunk,
                                mr_AllServerLocation := map NodeLocation (filter Alive (m_schedule st))\<rparr>)))"

section \<open>Placing chunks\<close>

definition mark_dead :: "(string \<Rightarrow> bool) \<Rightarrow> NodeMetadata list \<Rightarrow> NodeMetadata list" where
  "mark_dead dead sched = map (\<lambda>m. if dead (NodeLocation m) then m\<lparr>Alive := False\<rparr> else m) sched"

text \<open>
  The loop around \<open>funcBegin\<close>: the alive servers in ascending order of load, the first one dialled,
  then the second. The result has the two locations, the list of servers, and the locations on which
  a chunk was created, in order.
\<close>

fun place ::
    "(nat \<Rightarrow> string \<Rightarrow> bool) \<Rightarrow> (nat \<Rightarrow> string \<Rightarrow> bool) \<Rightarrow> nat \<Rightarrow> nat \<Rightarrow> NodeMetadata list \<Rightarrow> string list \<Rightarrow>
     (string \<times> string \<times> NodeMetadata list \<times> string list) result option" where
  "place reach fired 0 k sched made = None"
| "place reach fired (Suc fuel) k sched made =
     (let sched = mark_dead (fired k) sched
      in case go_sort_by ChunkNum (filter Alive sched) of
           [] \<Rightarrow> Some (Inl Panic)
         | m0 # metas \<Rightarrow>
             if \<not> reach k (NodeLocation m0) then place reach fired fuel (Suc k) sched made
             else (case metas of
                     [] \<Rightarrow> Some (Inl Panic)
                   | m1 # _ \<Rightarrow>
                       if \<not> reach k (NodeLocation m1)
                       then place reach fired fuel (Suc k) sched (made @ [NodeLocation m0])
                       else Some (Inr (NodeLocation m0, NodeLocation m1, sched,
                              made @ [NodeLocation m0, NodeLocation m1]))))"

text \<open>The loop over \<open>scheduleList\<close> that adds to the load of the two locations.\<close>

definition add_load :: "u64 \<Rightarrow> string \<Rightarrow> string \<Rightarrow> NodeMetadata list \<Rightarrow> NodeMetadata list" where
  "add_load d location location_replica sched =
     map (\<lambda>m. let m1 = (if NodeLocation m = location then m\<lparr>ChunkNum := ChunkNum m + d\<rparr> else m)
              in if NodeLocation m = location_replica then m1\<lparr>ChunkNum := ChunkNum m1 + d\<rparr> else m1) sched"

definition new_replicas :: "string \<Rightarrow> string \<Rightarrow> string \<Rightarrow> ChunkReplicas" where
  "new_replicas c location location_replica =
     \<lparr>Chunk_1 = \<lparr>cm_Chunkid = c, cm_Chunklocation = location, cm_Version = 0\<rparr>,
      Chunk_2 = \<lparr>cm_Chunkid = c, cm_Chunklocation = location_replica, cm_Version = 0\<rparr>\<rparr>"

text \<open>
  The parts of \<open>AddChunkFunc\<close> and \<open>NewFileChunkFunc\<close> after the locations are known. The chunk id is
  what the chunk servers answer, or, without RPC, the same string built by the master.
\<close>

definition chunk_id :: "string \<Rightarrow> u64 \<Rightarrow> string" where
  "chunk_id f i = f @ ''-'' @ Itoa (int_of_u64 i)"

definition record_chunk :: "string \<Rightarrow> u64 \<Rightarrow> string \<Rightarrow> string \<Rightarrow> master \<Rightarrow> master result" where
  "record_chunk f i location location_replica st =
     (case m_files st f of
        None \<Rightarrow> Inl Panic
      | Some cslice \<Rightarrow>
          Inr (st\<lparr>m_schedule := add_load 1 location location_replica (m_schedule st),
                  m_files := (m_files st)(f \<mapsto>
                    AList.update i (new_replicas (chunk_id f i) location location_replica) cslice)\<rparr>))"

definition record_file :: "string \<Rightarrow> string \<Rightarrow> string \<Rightarrow> master \<Rightarrow> master" where
  "record_file f location location_replica st =
     st\<lparr>m_schedule := add_load 1 location location_replica (m_schedule st),
        m_files := (m_files st)(f \<mapsto> [(0, new_replicas (f @ ''-0'') location location_replica)])\<rparr>"

type_synonym placement = "(nat \<Rightarrow> string \<Rightarrow> bool) \<times> (nat \<Rightarrow> string \<Rightarrow> bool) \<times> nat"

definition AddChunkFunc_rpc ::
    "placement \<Rightarrow> ChunkMasterRequest \<Rightarrow> master \<Rightarrow> (string \<times> string \<times> string list \<times> master) result option" where
  "AddChunkFunc_rpc env req st =
     map_option (\<lambda>r. bindR r (\<lambda>(loc, rep, sched, made).
         bindR (record_chunk (mq_Filename req) (mq_Chunkindex req) loc rep (st\<lparr>m_schedule := sched\<rparr>))
           (\<lambda>st. Inr (loc, rep, made, st))))
       (place (fst env) (fst (snd env)) (snd (snd env)) 0 (m_schedule st) [])"

definition AddChunkFunc :: "ChunkMasterRequest \<Rightarrow> master \<Rightarrow> master result" where
  "AddChunkFunc req st =
     record_chunk (mq_Filename req) (mq_Chunkindex req) (mq_ServerLocation req) (mq_ReplicaLocation req) st"

definition NewFileChunkFunc_rpc ::
    "placement \<Rightarrow> ChunkMasterRequest \<Rightarrow> master \<Rightarrow> (string \<times> string \<times> string list \<times> master) result option" where
  "NewFileChunkFunc_rpc env req st =
     map_option (\<lambda>r. bindR r (\<lambda>(loc, rep, sched, made).
         Inr (loc, rep, made, record_file (mq_Filename req) loc rep (st\<lparr>m_schedule := sched\<rparr>))))
       (place (fst env) (fst (snd env)) (snd (snd env)) 0 (m_schedule st) [])"

definition NewFileChunkFunc :: "ChunkMasterRequest \<Rightarrow> master \<Rightarrow> master" where
  "NewFileChunkFunc req st =
     record_file (mq_Filename req) (mq_ServerLocation req) (mq_ReplicaLocation req) st"

section \<open>The handlers of the leader\<close>

datatype peer_msg =
    AddChunkReplica_msg ChunkMasterRequest
  | NewFileChunkReplica_msg ChunkMasterRequest
  | DeleteReplica_msg ChunkMasterRequest
  | UpdateVersionReplica_msg VersionRequest

definition add_record :: "string \<Rightarrow> u64 \<Rightarrow> string \<Rightarrow> string \<Rightarrow> string" where
  "add_record f i loc rep = ''AddAddChunk filename>'' @ f @ ''/Chunkindex>'' @ Itoa (int_of_u64 i) @ ''/'' @
     ''Location>'' @ loc @ ''/'' @ ''Location_replica>'' @ rep @ ''/''"

definition new_record :: "string \<Rightarrow> string \<Rightarrow> string \<Rightarrow> string" where
  "new_record f loc rep = ''NewNewChunk filename>'' @ f @ ''/'' @ ''Location>'' @ loc @ ''/'' @
     ''Location_replica>'' @ rep @ ''/''"

definition delete_record :: "string \<Rightarrow> string" where
  "delete_record f = ''DeleteChunk filename:'' @ f @ ''/''"

definition update_record :: "VersionRequest \<Rightarrow> string" where
  "update_record req = ''UpdateVsion ServerLocation:'' @ vq_ServerLocation req @ ''/Chunkid:'' @ vq_Chunkid req @
     ''/Version:'' @ Itoa (int_of_u64 (vq_Version req)) @ ''/''"

definition replica_request :: "ChunkMasterRequest \<Rightarrow> u64 \<Rightarrow> bool \<Rightarrow> string \<Rightarrow> string \<Rightarrow> ChunkMasterRequest" where
  "replica_request req i w loc rep =
     \<lparr>mq_Filename = mq_Filename req, mq_Chunkindex = i, mq_Write = w, mq_Read = False,
      mq_ServerLocation = loc, mq_ReplicaLocation = rep, mq_Chunkid = '''', mq_Version = 0\<rparr>"

type_synonym handler_result =
  "(ChunkMasterResponse \<times> master \<times> (string \<times> peer_msg) list \<times> string list) result"

definition AddChunk ::
    "(nat \<Rightarrow> string) \<Rightarrow> (string \<Rightarrow> bool) \<Rightarrow> placement \<Rightarrow> ChunkMasterRequest \<Rightarrow> master \<Rightarrow> handler_result option" where
  "AddChunk stamp up env req st =
     (if \<not> m_isLeader st then Some (Inr (error_response (- 4), st, [], []))
      else if m_files st (mq_Filename req) = None then Some (Inr (error_response (- 2), st, [], []))
      else map_option (\<lambda>r. bindR r (\<lambda>(loc, rep, made, st1).
        let st2 = master_log stamp (add_record (mq_Filename req) (mq_Chunkindex req) loc rep) st1;
            msg = AddChunkReplica_msg (replica_request req (mq_Chunkindex req) True loc rep)
        in Inr (no_response\<lparr>mr_Chunkid := chunk_id (mq_Filename req) (mq_Chunkindex req), mr_Chunklocation := loc\<rparr>,
                st2, map (\<lambda>a. (a, msg)) (filter up (peers st2)), made)))
       (AddChunkFunc_rpc env req st))"

definition NewFileChunk ::
    "(nat \<Rightarrow> string) \<Rightarrow> (string \<Rightarrow> bool) \<Rightarrow> placement \<Rightarrow> ChunkMasterRequest \<Rightarrow> master \<Rightarrow> handler_result option" where
  "NewFileChunk stamp up env req st =
     (if \<not> m_isLeader st then Some (Inr (error_response (- 4), st, [], []))
      else if m_files st (mq_Filename req) \<noteq> None then Some (Inr (error_response (- 1), st, [], []))
      else map_option (\<lambda>r. bindR r (\<lambda>(loc, rep, made, st1).
        let st2 = master_log stamp (new_record (mq_Filename req) loc rep) st1;
            msg = NewFileChunkReplica_msg (replica_request req 0 False loc rep)
        in if \<not> list_all up (peers st2) then Inl Panic
           else Inr (no_response\<lparr>mr_Chunkid := mq_Filename req @ ''-0'', mr_Chunklocation := loc\<rparr>,
                     st2, map (\<lambda>a. (a, msg)) (peers st2), made)))
       (NewFileChunkFunc_rpc env req st))"

text \<open>
  Deleting a file: the loads go down for every chunk, the entry is removed; with RPC the chunks are
  deleted on their servers (each pair under the lock of the chunk id). Deleting an unknown file
  iterates over no chunk and succeeds.
\<close>

definition chunks_of :: "master \<Rightarrow> string \<Rightarrow> ChunkReplicas list" where
  "chunks_of st f = (case m_files st f of None \<Rightarrow> [] | Some cslice \<Rightarrow> map snd cslice)"

definition DeleteFileAndChunksFunc :: "string \<Rightarrow> master \<Rightarrow> master" where
  "DeleteFileAndChunksFunc f st =
     st\<lparr>m_schedule := fold (\<lambda>r. add_load (- 1) (cm_Chunklocation (Chunk_1 r)) (cm_Chunklocation (Chunk_2 r)))
                       (chunks_of st f) (m_schedule st),
        m_files := (m_files st)(f := None)\<rparr>"

definition delete_calls :: "string \<Rightarrow> master \<Rightarrow> (string \<times> string) list" where
  "delete_calls f st =
     concat (map (\<lambda>r. [(cm_Chunkid (Chunk_1 r), cm_Chunklocation (Chunk_1 r)),
                       (cm_Chunkid (Chunk_2 r), cm_Chunklocation (Chunk_2 r))]) (chunks_of st f))"

definition DeleteFileAndChunks ::
    "(nat \<Rightarrow> string) \<Rightarrow> (string \<Rightarrow> bool) \<Rightarrow> ChunkMasterRequest \<Rightarrow> master \<Rightarrow>
     (ChunkMasterResponse \<times> master \<times> (string \<times> peer_msg) list \<times> (string \<times> string) list) result" where
  "DeleteFileAndChunks stamp up req st =
     (if \<not> m_isLeader st then Inr (error_response (- 4), st, [], [])
      else let f = mq_Filename req; st1 = master_log stamp (delete_record f) st;
               calls = delete_calls f st1; st2 = DeleteFileAndChunksFunc f st1
           in if \<not> list_all up (peers st2) then Inl Panic
              else Inr (no_response, st2, map (\<lambda>a. (a, DeleteReplica_msg req)) (peers st2), calls))"

section \<open>Versions (rpcToChunkServer.go)\<close>

definition zero_replicas :: ChunkReplicas where
  "zero_replicas = new_replicas '''' '''' ''''"

text \<open>The chunk id is split at its last dash; without a dash, \<open>chunkid[:dash]\<close> panics.\<close>

definition parse_chunkid :: "string \<Rightarrow> (string \<times> u64) result" where
  "parse_chunkid chunkid =
     (let dash = str_LastIndex chunkid ''-''
      in bindR (panic_unless (go_slice_from chunkid (dash + 1))) (\<lambda>num.
         bindR (panic_unless (go_slice chunkid 0 dash)) (\<lambda>filename.
           Inr (filename, u64_of_int (Atoi num)))))"

definition set_replica_version :: "string \<Rightarrow> u64 \<Rightarrow> ChunkReplicas \<Rightarrow> ChunkReplicas option" where
  "set_replica_version loc v reps =
     (if cm_Chunklocation (Chunk_1 reps) = loc then Some (reps\<lparr>Chunk_1 := (Chunk_1 reps)\<lparr>cm_Version := v\<rparr>\<rparr>)
      else if cm_Chunklocation (Chunk_2 reps) = loc then Some (reps\<lparr>Chunk_2 := (Chunk_2 reps)\<lparr>cm_Version := v\<rparr>\<rparr>)
      else None)"

definition UpdateChunkVersionFunc :: "(nat \<Rightarrow> string) \<Rightarrow> VersionRequest \<Rightarrow> master \<Rightarrow> master result" where
  "UpdateChunkVersionFunc stamp req st =
     bindR (parse_chunkid (vq_Chunkid req)) (\<lambda>(filename, id).
       let cslice = (case m_files st filename of None \<Rightarrow> [] | Some s \<Rightarrow> s);
           reps = (case map_of cslice id of None \<Rightarrow> zero_replicas | Some r \<Rightarrow> r)
       in case set_replica_version (vq_ServerLocation req) (vq_Version req) reps of
            Some reps' \<Rightarrow> Inr (st\<lparr>m_files := (m_files st)(filename \<mapsto> AList.update id reps' cslice)\<rparr>)
          | None \<Rightarrow> Inr ((master_log stamp ''error serverloaciton'' st)
                        \<lparr>m_files := (m_files st)(filename \<mapsto> AList.update id reps cslice)\<rparr>))"

definition UpdateChunkVersion ::
    "(nat \<Rightarrow> string) \<Rightarrow> (string \<Rightarrow> bool) \<Rightarrow> VersionRequest \<Rightarrow> master \<Rightarrow>
     (bool \<times> int \<times> master \<times> (string \<times> peer_msg) list) result" where
  "UpdateChunkVersion stamp up req st =
     (if \<not> m_isLeader st then Inr (False, - 4, st, [])
      else bindR (UpdateChunkVersionFunc stamp req (master_log stamp (update_record req) st)) (\<lambda>st1.
        if \<not> list_all up (peers st1) then Inl Panic
        else Inr (True, 0, st1, map (\<lambda>a. (a, UpdateVersionReplica_msg req)) (peers st1))))"

section \<open>The handlers of a replica master (rpcToReplica.go)\<close>

definition AddChunkReplica :: "(nat \<Rightarrow> string) \<Rightarrow> ChunkMasterRequest \<Rightarrow> master \<Rightarrow> (ChunkMasterResponse \<times> master) result" where
  "AddChunkReplica stamp req st =
     (if m_isLeader st then Inr (error_response (- 4), st)
      else if m_files st (mq_Filename req) = None then Inr (error_response (- 2), st)
      else bindR (AddChunkFunc req (master_log stamp
                   (add_record (mq_Filename req) (mq_Chunkindex req) (mq_ServerLocation req) (mq_ReplicaLocation req)) st))
        (\<lambda>st1. Inr (no_response\<lparr>mr_Chunkid := chunk_id (mq_Filename req) (mq_Chunkindex req),
                       mr_Chunklocation := mq_ServerLocation req\<rparr>, st1)))"

definition NewFileChunkReplica :: "(nat \<Rightarrow> string) \<Rightarrow> ChunkMasterRequest \<Rightarrow> master \<Rightarrow> ChunkMasterResponse \<times> master" where
  "NewFileChunkReplica stamp req st =
     (if m_isLeader st then (error_response (- 4), st)
      else if m_files st (mq_Filename req) \<noteq> None then (error_response (- 1), st)
      else (no_response\<lparr>mr_Chunkid := mq_Filename req @ ''-0'', mr_Chunklocation := mq_ServerLocation req\<rparr>,
            NewFileChunkFunc req (master_log stamp
              (new_record (mq_Filename req) (mq_ServerLocation req) (mq_ReplicaLocation req)) st)))"

definition DeleteFileAndChunksReplica :: "(nat \<Rightarrow> string) \<Rightarrow> ChunkMasterRequest \<Rightarrow> master \<Rightarrow> ChunkMasterResponse \<times> master" where
  "DeleteFileAndChunksReplica stamp req st =
     (if m_isLeader st then (error_response (- 4), st)
      else (no_response, DeleteFileAndChunksFunc (mq_Filename req)
              (master_log stamp (delete_record (mq_Filename req)) st)))"

definition UpdateChunkVersionReplica :: "(nat \<Rightarrow> string) \<Rightarrow> VersionRequest \<Rightarrow> master \<Rightarrow> (bool \<times> int \<times> master) result" where
  "UpdateChunkVersionReplica stamp req st =
     (if m_isLeader st then Inr (False, - 4, st)
      else bindR (UpdateChunkVersionFunc stamp req (master_log stamp (update_record req) st))
             (\<lambda>st1. Inr (True, 0, st1)))"

text \<open>Delivery of a leader's message to a replica.\<close>

fun deliver :: "(nat \<Rightarrow> string) \<Rightarrow> peer_msg \<Rightarrow> master \<Rightarrow> master result" where
  "deliver stamp (AddChunkReplica_msg req) st = bindR (AddChunkReplica stamp req st) (\<lambda>(_, st). Inr st)"
| "deliver stamp (NewFileChunkReplica_msg req) st = Inr (snd (NewFileChunkReplica stamp req st))"
| "deliver stamp (DeleteReplica_msg req) st = Inr (snd (DeleteFileAndChunksReplica stamp req st))"
| "deliver stamp (UpdateVersionReplica_msg req) st =
     bindR (UpdateChunkVersionReplica stamp req st) (\<lambda>(_, _, st). Inr st)"

section \<open>Heartbeats\<close>

definition heartbeat_timeout :: nat where
  "heartbeat_timeout = 3"

definition set_alive :: "bool \<Rightarrow> string \<Rightarrow> NodeMetadata list \<Rightarrow> NodeMetadata list" where
  "set_alive b loc sched = map (\<lambda>m. if NodeLocation m = loc then m\<lparr>Alive := b\<rparr> else m) sched"

definition AcceptHeartbeat :: "nat \<Rightarrow> string \<Rightarrow> master \<Rightarrow> master result" where
  "AcceptHeartbeat now loc st =
     (if \<not> m_isLeader st then Inr st
      else if \<exists>m\<in>set (m_schedule st). NodeLocation m = loc
      then (if m_timers st loc = None then Inl Panic
            else Inr (st\<lparr>m_schedule := set_alive True loc (m_schedule st),
                         m_timers := (m_timers st)(loc \<mapsto> now + heartbeat_timeout)\<rparr>))
      else Inr (st\<lparr>m_timers := (m_timers st)(loc \<mapsto> now + heartbeat_timeout),
                   m_schedule := m_schedule st @ [\<lparr>NodeLocation = loc, Alive = True, ChunkNum = 0\<rparr>]\<rparr>))"

text \<open>The goroutine \<open>timeup\<close> of a location, when the time is \<open>now\<close>.\<close>

definition timeup :: "nat \<Rightarrow> string \<Rightarrow> master \<Rightarrow> master" where
  "timeup now loc st =
     (case m_timers st loc of
        None \<Rightarrow> st
      | Some deadline \<Rightarrow>
          if deadline \<le> now
          then st\<lparr>m_schedule := set_alive False loc (m_schedule st),
                  m_timers := (m_timers st)(loc \<mapsto> now + heartbeat_timeout)\<rparr>
          else st)"

definition becomeLeader :: "nat \<Rightarrow> master \<Rightarrow> master" where
  "becomeLeader now st =
     st\<lparr>m_isLeader := True,
        m_timers := (\<lambda>l. if l \<in> set initial_nodes then Some (now + heartbeat_timeout) else None)\<rparr>"

section \<open>Recovery from the log\<close>

text \<open>A field between the first \<open>sep\<close> and the first slash of a line, with the position of the slash.\<close>

definition first_field :: "char \<Rightarrow> string \<Rightarrow> (string \<times> int) result" where
  "first_field sep l =
     bindR (panic_unless (go_slice l (str_Index l [sep] + 1) (str_Index l ''/''))) (\<lambda>v. Inr (v, str_Index l ''/''))"

definition final_field :: "char \<Rightarrow> string \<Rightarrow> string result" where
  "final_field sep l = panic_unless (go_slice l (str_LastIndex l [sep] + 1) (str_LastIndex l ''/''))"

text \<open>
  The later fields are searched in \<open>lineValid[slash+1:]\<close>, where \<open>slash\<close> is the position in the
  previous remainder and not in \<open>lineValid\<close>, as in the source.
\<close>

definition replay_add :: "string \<Rightarrow> master \<Rightarrow> master result" where
  "replay_add lineValid st =
     bindR (first_field CHR ''>'' lineValid) (\<lambda>(aimFilename, slash).
     bindR (panic_unless (go_slice_from lineValid (slash + 1))) (\<lambda>temp1.
     bindR (first_field CHR ''>'' temp1) (\<lambda>(num, slash1).
     bindR (panic_unless (go_slice_from lineValid (slash1 + 1))) (\<lambda>temp2.
     bindR (first_field CHR ''>'' temp2) (\<lambda>(aimLocation, slash2).
     bindR (panic_unless (go_slice_from lineValid (slash2 + 1))) (\<lambda>temp3.
     bindR (final_field CHR ''>'' temp3) (\<lambda>aimLocation_replica.
       AddChunkFunc \<lparr>mq_Filename = aimFilename, mq_Chunkindex = u64_of_int (Atoi num), mq_Write = True,
         mq_Read = False, mq_ServerLocation = aimLocation, mq_ReplicaLocation = aimLocation_replica,
         mq_Chunkid = '''', mq_Version = 0\<rparr> st)))))))"

definition replay_new :: "string \<Rightarrow> master \<Rightarrow> master result" where
  "replay_new lineValid st =
     bindR (first_field CHR ''>'' lineValid) (\<lambda>(aimFilename, slash).
     bindR (panic_unless (go_slice_from lineValid (slash + 1))) (\<lambda>temp1.
     bindR (first_field CHR ''>'' temp1) (\<lambda>(aimLocation, slash1).
     bindR (panic_unless (go_slice_from lineValid (slash1 + 1))) (\<lambda>temp2.
     bindR (final_field CHR ''>'' temp2) (\<lambda>aimLocation_replica.
       Inr (NewFileChunkFunc \<lparr>mq_Filename = aimFilename, mq_Chunkindex = 0, mq_Write = False,
         mq_Read = False, mq_ServerLocation = aimLocation, mq_ReplicaLocation = aimLocation_replica,
         mq_Chunkid = '''', mq_Version = 0\<rparr> st))))))"

definition replay_delete :: "string \<Rightarrow> master \<Rightarrow> master result" where
  "replay_delete lineValid st =
     bindR (final_field CHR '':'' lineValid) (\<lambda>aimFilename. Inr (DeleteFileAndChunksFunc aimFilename st))"

definition replay_update :: "string \<Rightarrow> master \<Rightarrow> master result" where
  "replay_update lineValid st =
     bindR (first_field CHR '':'' lineValid) (\<lambda>(aimServerLocation, slash).
     bindR (panic_unless (go_slice_from lineValid (slash + 1))) (\<lambda>temp.
     bindR (first_field CHR '':'' temp) (\<lambda>(aimChunkid, _).
     bindR (final_field CHR '':'' lineValid) (\<lambda>v.
       UpdateChunkVersionFunc (\<lambda>_. '''') \<lparr>vq_ServerLocation = aimServerLocation, vq_Chunkid = aimChunkid,
         vq_Version = u64_of_int (Atoi v)\<rparr> st))))"

definition recover_record :: "string \<Rightarrow> master \<Rightarrow> master result" where
  "recover_record line st =
     bindR (panic_unless (go_slice_from line 20)) (\<lambda>lineValid.
     bindR (panic_unless (go_slice lineValid 0 11)) (\<lambda>operation.
       if operation = ''AddAddChunk'' then replay_add lineValid st
       else if operation = ''NewNewChunk'' then replay_new lineValid st
       else if operation = ''DeleteChunk'' then replay_delete lineValid st
       else if operation = ''UpdateVsion'' then replay_update lineValid st
       else Inr st))"

text \<open>\<open>main\<close> up to the election: a restart starts from the initial tables and the log.\<close>

definition recover_master :: "master \<Rightarrow> master result" where
  "recover_master st = replay_lines recover_record (read_lines [] (m_log st)) st"

definition boot_master :: "master \<Rightarrow> master result" where
  "boot_master st =
     bindR (recover_master (st\<lparr>m_isLeader := False, m_files := Map.empty, m_schedule := initial_schedule,
              m_timers := Map.empty, m_logging := False\<rparr>))
       (\<lambda>st. Inr (st\<lparr>m_logging := True\<rparr>))"

definition new_master :: "string \<Rightarrow> master" where
  "new_master loc = \<lparr>m_location = loc, m_isLeader = False, m_files = Map.empty, m_schedule = initial_schedule,
     m_timers = Map.empty, m_log = '''', m_nlog = 0, m_logging = True\<rparr>"

section \<open>Placement\<close>

lemma mark_dead_simps [simp]:
  "map NodeLocation (mark_dead dead sched) = map NodeLocation sched"
  "map ChunkNum (mark_dead dead sched) = map ChunkNum sched"
  "length (mark_dead dead sched) = length sched"
  by (simp_all add: mark_dead_def)

lemma Alive_mark_dead: "i < length sched \<Longrightarrow>
    Alive (mark_dead dead sched ! i) \<longleftrightarrow> Alive (sched ! i) \<and> \<not> dead (NodeLocation (sched ! i))"
  by (simp add: mark_dead_def)

definition same_nodes :: "NodeMetadata list \<Rightarrow> NodeMetadata list \<Rightarrow> bool" where
  "same_nodes s t \<longleftrightarrow> map NodeLocation s = map NodeLocation t \<and> map ChunkNum s = map ChunkNum t"

lemma same_nodes_trans: "same_nodes s t \<Longrightarrow> same_nodes t u \<Longrightarrow> same_nodes s u"
  by (simp add: same_nodes_def)

lemma same_nodes_mark_dead [simp]: "same_nodes (mark_dead dead s) s"
  by (simp add: same_nodes_def)

lemma place_result:
  "place reach fired fuel k sched made = Some (Inr (loc, rep, sched', made')) \<Longrightarrow>
   \<exists>m0 m1 rest j. go_sort_by ChunkNum (filter Alive sched') = m0 # m1 # rest \<and>
     loc = NodeLocation m0 \<and> rep = NodeLocation m1 \<and> reach j loc \<and> reach j rep \<and> same_nodes sched' sched \<and>
     {loc, rep} \<subseteq> set made'"
proof (induction fuel arbitrary: k sched made)
  case (Suc fuel)
  let ?s = "mark_dead (fired k) sched"
  obtain m0 metas where sort: "go_sort_by ChunkNum (filter Alive ?s) = m0 # metas"
    using Suc.prems by (auto simp: Let_def split: list.splits)
  have again: ?case if "place reach fired fuel (Suc k) ?s made0 = Some (Inr (loc, rep, sched', made'))" for made0
    using Suc.IH [OF that] same_nodes_trans [OF _ same_nodes_mark_dead [of "fired k" sched]] by fast
  show ?case
  proof (cases "reach k (NodeLocation m0)")
    case False
    then show ?thesis using Suc.prems sort by (intro again [of made]) (simp add: Let_def)
  next
    case True
    then obtain m1 rest where m1: "metas = m1 # rest" using Suc.prems sort by (auto simp: Let_def split: list.splits)
    show ?thesis
    proof (cases "reach k (NodeLocation m1)")
      case False
      then show ?thesis using Suc.prems sort m1 True
        by (intro again [of "made @ [NodeLocation m0]"]) (simp add: Let_def)
    next
      case reach: True
      then have "loc = NodeLocation m0" "rep = NodeLocation m1" "sched' = ?s" "made' = made @ [loc, rep]"
        using Suc.prems sort m1 True by (auto simp: Let_def)
      then show ?thesis using sort m1 True reach by (intro exI [of _ m0] exI [of _ m1] exI [of _ rest] exI [of _ k]) simp
    qed
  qed
qed simp

text \<open>What the two nodes at the head of the sorted list of alive nodes are.\<close>

lemma two_least_nodes:
  assumes sort: "go_sort_by ChunkNum (filter Alive sched) = m0 # m1 # rest" and d: "distinct (map NodeLocation sched)"
  shows "m0 \<in> set sched" "m1 \<in> set sched" "Alive m0" "Alive m1" "NodeLocation m0 \<noteq> NodeLocation m1"
    "\<And>n. n \<in> set sched \<Longrightarrow> Alive n \<Longrightarrow> n \<noteq> m0 \<Longrightarrow> n \<noteq> m1 \<Longrightarrow> ChunkNum m0 \<le> ChunkNum n \<and> ChunkNum m1 \<le> ChunkNum n"
proof -
  let ?xs = "filter Alive sched"
  have set: "set (m0 # m1 # rest) = set ?xs" using go_sort.set_srt [of ChunkNum ?xs] sort by simp
  then show "m0 \<in> set sched" "m1 \<in> set sched" "Alive m0" "Alive m1" by auto
  have "distinct (map NodeLocation ?xs)" using d by (simp add: distinct_map_filter)
  moreover have "mset (map NodeLocation (m0 # m1 # rest)) = mset (map NodeLocation ?xs)"
    using go_sort.mset_srt [of ChunkNum ?xs] sort by (metis mset_map)
  ultimately have "distinct (map NodeLocation (m0 # m1 # rest))" by (metis mset_eq_imp_distinct_iff)
  then show "NodeLocation m0 \<noteq> NodeLocation m1" by simp
  fix n assume n: "n \<in> set sched" "Alive n" "n \<noteq> m0" "n \<noteq> m1"
  then have "n \<in> set rest" using set by auto
  then show "ChunkNum m0 \<le> ChunkNum n \<and> ChunkNum m1 \<le> ChunkNum n"
    using go_sort.sorted_srt [of ChunkNum ?xs] sort by auto
qed

lemma place_returns:
  assumes "K < fuel" "k \<le> K" and all: "\<And>l. reach K l \<or> fired K l"
    and two: "i < length sched" "j < length sched" "i \<noteq> j" "Alive (sched ! i)" "Alive (sched ! j)"
    and stay: "\<And>m. m \<le> K \<Longrightarrow> \<not> fired m (NodeLocation (sched ! i)) \<and> \<not> fired m (NodeLocation (sched ! j))"
  shows "\<exists>loc rep sched' made'. place reach fired (fuel - k) k sched made = Some (Inr (loc, rep, sched', made'))"
  using assms(2) two stay
proof (induction "K - k" arbitrary: k sched made rule: less_induct)
  case less
  let ?s = "mark_dead (fired k) sched"
  obtain fuel' where fuel: "fuel - k = Suc fuel'" "fuel' = fuel - Suc k"
    using assms(1) less.prems(1) by (cases "fuel - k") auto
  have alive: "Alive (?s ! i)" "Alive (?s ! j)"
    using less.prems by (simp_all add: Alive_mark_dead)
  have "card {i, j} \<le> length (filter Alive ?s)"
    unfolding length_filter_conv_card using alive less.prems by (intro card_mono) auto
  then have "2 \<le> length (go_sort_by ChunkNum (filter Alive ?s))" using less.prems by simp
  then obtain m0 m1 rest where sort: "go_sort_by ChunkNum (filter Alive ?s) = m0 # m1 # rest"
    by (metis Suc_le_length_iff numeral_2_eq_2)
  show ?case
  proof (cases "reach k (NodeLocation m0) \<and> reach k (NodeLocation m1)")
    case True
    then show ?thesis using sort by (simp add: fuel Let_def)
  next
    case False
    have "m0 \<in> set (filter Alive ?s)" "m1 \<in> set (filter Alive ?s)"
      using go_sort.set_srt [of ChunkNum "filter Alive ?s"] sort by (metis list.set_intros(1) list.set_intros(2))+
    then have "\<not> fired k (NodeLocation m0) \<and> \<not> fired k (NodeLocation m1)"
      by (auto simp: mark_dead_def split: if_splits)
    then have "k \<noteq> K" using False all by blast
    then have k: "K - Suc k < K - k" "Suc k \<le> K" using less.prems(1) by auto
    have "\<exists>loc rep sched' made'. place reach fired (fuel - Suc k) (Suc k) ?s made0 = Some (Inr (loc, rep, sched', made'))" for made0
      by (rule less.hyps [OF k(1)]) (use k(2) less.prems alive in \<open>auto simp: mark_dead_def\<close>)
    then show ?thesis using False sort by (auto simp: fuel Let_def)
  qed
qed

declare place.simps [simp del]

section \<open>Loads\<close>

lemma add_load_simps [simp]:
  "map NodeLocation (add_load d l r sched) = map NodeLocation sched"
  "map Alive (add_load d l r sched) = map Alive sched"
  "length (add_load d l r sched) = length sched"
  by (simp_all add: add_load_def Let_def)

lemma nth_add_load: "i < length sched \<Longrightarrow> ChunkNum (add_load d l r sched ! i) =
    ChunkNum (sched ! i) + (if NodeLocation (sched ! i) = l then d else 0) + (if NodeLocation (sched ! i) = r then d else 0)"
  by (simp add: add_load_def Let_def)

text \<open>How many replicas the chunk table places on a location.\<close>

definition locs_of :: "ChunkReplicas \<Rightarrow> string list" where
  "locs_of r = [cm_Chunklocation (Chunk_1 r), cm_Chunklocation (Chunk_2 r)]"

definition replica_locations :: "chunk_map \<Rightarrow> string list" where
  "replica_locations sl = concat (map locs_of (map snd sl))"

definition files_on :: "string \<Rightarrow> (string \<rightharpoonup> chunk_map) \<Rightarrow> nat" where
  "files_on l F = (\<Sum>f\<in>dom F. count_list (replica_locations (the (F f))) l)"

definition replicas_on :: "string \<Rightarrow> master \<Rightarrow> nat" where
  "replicas_on l st = files_on l (m_files st)"

definition loads_ok :: "master \<Rightarrow> bool" where
  "loads_ok st \<longleftrightarrow> finite (dom (m_files st)) \<and> (\<forall>f sl. m_files st f = Some sl \<longrightarrow> gomap_ok sl) \<and>
     (\<forall>m\<in>set (m_schedule st). NodeLocation m \<noteq> '''' \<and> ChunkNum m = of_nat (replicas_on (NodeLocation m) st))"

lemma loads_ok_new_master: "loads_ok (new_master loc)"
  by (simp add: loads_ok_def new_master_def initial_schedule_def initial_nodes_def replicas_on_def files_on_def)

lemma count_list_append: "count_list (xs @ ys) a = count_list xs a + count_list ys a"
  by (induction xs) simp_all

lemma replica_locations_simps [simp]:
  "replica_locations [] = []" "replica_locations ((i, r) # sl) = locs_of r @ replica_locations sl"
  by (simp_all add: replica_locations_def)

lemma count_locs_of: "count_list (locs_of r) l =
    (if l = cm_Chunklocation (Chunk_1 r) then 1 else 0) + (if l = cm_Chunklocation (Chunk_2 r) then 1 else 0)"
  by (auto simp: locs_of_def)

lemma count_replica_locations_update:
  "gomap_ok sl \<Longrightarrow> count_list (replica_locations (AList.update i r sl)) l +
     (case map_of sl i of None \<Rightarrow> 0 | Some r0 \<Rightarrow> count_list (locs_of r0) l) =
   count_list (replica_locations sl) l + count_list (locs_of r) l"
proof (induction sl)
  case (Cons p sl)
  then show ?case by (cases p) (simp add: count_list_append gomap_ok_def)
qed simp

text \<open>The sum over the files after one entry has changed.\<close>

lemma replicas_on_update:
  fixes h :: "'v \<Rightarrow> nat"
  assumes "finite (dom F)"
  shows "(\<Sum>f\<in>dom (F(g \<mapsto> sl)). h (the ((F(g \<mapsto> sl)) f))) + (case F g of None \<Rightarrow> 0 | Some sl0 \<Rightarrow> h sl0) =
    (\<Sum>f\<in>dom F. h (the (F f))) + h sl"
proof -
  have "(\<Sum>f\<in>dom F - {g}. h (the ((F(g \<mapsto> sl)) f))) = (\<Sum>f\<in>dom F - {g}. h (the (F f)))"
    by (rule sum.cong) auto
  moreover have "(\<Sum>f\<in>insert g (dom F). h (the ((F(g \<mapsto> sl)) f))) =
      h sl + (\<Sum>f\<in>dom F - {g}. h (the ((F(g \<mapsto> sl)) f)))"
    using assms by (simp add: sum.insert_remove)
  moreover have "(\<Sum>f\<in>dom F. h (the (F f))) =
      (case F g of None \<Rightarrow> 0 | Some sl0 \<Rightarrow> h sl0) + (\<Sum>f\<in>dom F - {g}. h (the (F f)))"
  proof (cases "F g")
    case None
    then have "dom F - {g} = dom F" by auto
    with None show ?thesis by simp
  next
    case (Some sl0)
    then show ?thesis using assms by (simp add: sum.remove [of "dom F" g] domI)
  qed
  ultimately show ?thesis by simp
qed

lemma replicas_on_delete:
  fixes h :: "'v \<Rightarrow> nat"
  assumes "finite (dom F)"
  shows "(\<Sum>f\<in>dom (F(g := None)). h (the ((F(g := None)) f))) + (case F g of None \<Rightarrow> 0 | Some sl0 \<Rightarrow> h sl0) =
    (\<Sum>f\<in>dom F. h (the (F f)))"
proof (cases "F g")
  case None
  then show ?thesis by (simp add: fun_upd_idem)
next
  case (Some sl0)
  have "(\<Sum>f\<in>dom F - {g}. h (the ((F(g := None)) f))) = (\<Sum>f\<in>dom F - {g}. h (the (F f)))"
    by (rule sum.cong) auto
  with Some show ?thesis using assms by (simp add: sum.remove [of "dom F" g] domI)
qed

lemma files_on_update:
  "finite (dom F) \<Longrightarrow> files_on l (F(g \<mapsto> sl)) + (case F g of None \<Rightarrow> 0 | Some sl0 \<Rightarrow> count_list (replica_locations sl0) l) =
     files_on l F + count_list (replica_locations sl) l"
  unfolding files_on_def by (rule replicas_on_update)

lemma files_on_delete:
  "finite (dom F) \<Longrightarrow> files_on l (F(g := None)) + (case F g of None \<Rightarrow> 0 | Some sl0 \<Rightarrow> count_list (replica_locations sl0) l) =
     files_on l F"
  unfolding files_on_def by (rule replicas_on_delete)

text \<open>A list of servers whose loads are the numbers \<open>N\<close>.\<close>

definition loads_are :: "(string \<Rightarrow> nat) \<Rightarrow> NodeMetadata list \<Rightarrow> bool" where
  "loads_are N sched \<longleftrightarrow> (\<forall>m\<in>set sched. NodeLocation m \<noteq> '''' \<and> ChunkNum m = of_nat (N (NodeLocation m)))"

lemma loads_are_add_load:
  assumes "loads_are N sched"
    and N': "\<And>l. l \<noteq> '''' \<Longrightarrow>
      of_nat (N' l) = (of_nat (N l) + (if l = loc then d else 0) + (if l = rep then d else 0) :: u64)"
  shows "loads_are N' (add_load d loc rep sched)"
  unfolding loads_are_def
proof
  fix m' assume "m' \<in> set (add_load d loc rep sched)"
  then obtain m where m: "m \<in> set sched" "NodeLocation m' = NodeLocation m"
    "ChunkNum m' = ChunkNum m + (if NodeLocation m = loc then d else 0) + (if NodeLocation m = rep then d else 0)"
    by (auto simp: add_load_def Let_def)
  with assms(1) have "NodeLocation m \<noteq> ''''" "ChunkNum m = of_nat (N (NodeLocation m))"
    by (auto simp: loads_are_def)
  with m N' [of "NodeLocation m"] show "NodeLocation m' \<noteq> '''' \<and> ChunkNum m' = of_nat (N' (NodeLocation m'))"
    by simp
qed

lemma loads_ok_iff:
  "loads_ok st \<longleftrightarrow> finite (dom (m_files st)) \<and> (\<forall>f sl. m_files st f = Some sl \<longrightarrow> gomap_ok sl) \<and>
     loads_are (\<lambda>l. replicas_on l st) (m_schedule st)"
  by (simp add: loads_ok_def loads_are_def)

lemma record_file_loads:
  assumes ok: "loads_ok st" and f: "m_files st f = None"
  shows "loads_ok (record_file f loc rep st)"
proof -
  let ?st = "record_file f loc rep st"
  have fin: "finite (dom (m_files st))" using ok by (simp add: loads_ok_def)
  have "replicas_on l ?st = replicas_on l st + (if l = loc then 1 else 0) + (if l = rep then 1 else 0)" for l
    using files_on_update [OF fin, of l f "[(0, new_replicas (f @ ''-0'') loc rep)]"] f
    by (simp add: replicas_on_def record_file_def new_replicas_def count_locs_of)
  then have "loads_are (\<lambda>l. replicas_on l ?st) (add_load 1 loc rep (m_schedule st))"
    using ok by (intro loads_are_add_load [of "\<lambda>l. replicas_on l st"]) (auto simp: loads_ok_iff)
  then show ?thesis
    using ok by (auto simp: loads_ok_iff record_file_def gomap_ok_def)
qed

lemma record_chunk_loads:
  assumes ok: "loads_ok st" and rc: "record_chunk f i loc rep st = Inr st'"
    and i: "\<And>sl. m_files st f = Some sl \<Longrightarrow> map_of sl i = None"
  shows "loads_ok st'"
proof -
  obtain sl where sl: "m_files st f = Some sl" and st': "st' = st\<lparr>m_schedule := add_load 1 loc rep (m_schedule st),
      m_files := (m_files st)(f \<mapsto> AList.update i (new_replicas (chunk_id f i) loc rep) sl)\<rparr>"
    using rc by (auto simp: record_chunk_def split: option.splits)
  have fin: "finite (dom (m_files st))" and g: "gomap_ok sl" using ok sl by (auto simp: loads_ok_def)
  have "replicas_on l st' = replicas_on l st + (if l = loc then 1 else 0) + (if l = rep then 1 else 0)" for l
  proof -
    have "count_list (replica_locations (AList.update i (new_replicas (chunk_id f i) loc rep) sl)) l =
        count_list (replica_locations sl) l + (if l = loc then 1 else 0) + (if l = rep then 1 else 0)"
      using count_replica_locations_update [OF g, of i "new_replicas (chunk_id f i) loc rep" l] i [OF sl]
      by (simp add: count_locs_of new_replicas_def)
    then show ?thesis
      using files_on_update [OF fin, of l f "AList.update i (new_replicas (chunk_id f i) loc rep) sl"] sl
      by (simp add: replicas_on_def st')
  qed
  then have "loads_are (\<lambda>l. replicas_on l st') (add_load 1 loc rep (m_schedule st))"
    using ok by (intro loads_are_add_load [of "\<lambda>l. replicas_on l st"]) (auto simp: loads_ok_iff)
  then show ?thesis
    using ok g by (auto simp: loads_ok_iff st' split: if_splits)
qed

lemma loads_are_delete:
  assumes "loads_are N sched" "\<And>l. N l = N' l + count_list (concat (map locs_of rs)) l"
  shows "loads_are N' (fold (\<lambda>r. add_load (- 1) (cm_Chunklocation (Chunk_1 r)) (cm_Chunklocation (Chunk_2 r))) rs sched)"
  using assms
proof (induction rs arbitrary: sched N)
  case Nil
  then have "N = N'" by (auto simp: fun_eq_iff)
  with Nil show ?case by simp
next
  case (Cons r rs)
  let ?N = "\<lambda>l. N' l + count_list (concat (map locs_of rs)) l"
  have "N l = ?N l + (if l = cm_Chunklocation (Chunk_1 r) then 1 else 0) + (if l = cm_Chunklocation (Chunk_2 r) then 1 else 0)" for l
    using Cons.prems(2) [of l] by (simp add: count_list_append count_locs_of)
  then have "loads_are ?N (add_load (- 1) (cm_Chunklocation (Chunk_1 r)) (cm_Chunklocation (Chunk_2 r)) sched)"
    by (intro loads_are_add_load [OF Cons.prems(1)]) simp
  then show ?case using Cons.IH [of ?N] by simp
qed

lemma delete_loads:
  assumes ok: "loads_ok st"
  shows "loads_ok (DeleteFileAndChunksFunc f st)"
proof -
  have fin: "finite (dom (m_files st))" using ok by (simp add: loads_ok_def)
  have "replicas_on l st = replicas_on l (DeleteFileAndChunksFunc f st) + count_list (concat (map locs_of (chunks_of st f))) l" for l
    using files_on_delete [OF fin, of l f]
    by (cases "m_files st f") (simp_all add: replicas_on_def DeleteFileAndChunksFunc_def chunks_of_def replica_locations_def)
  then have "loads_are (\<lambda>l. replicas_on l (DeleteFileAndChunksFunc f st)) (m_schedule (DeleteFileAndChunksFunc f st))"
    using loads_are_delete [of "\<lambda>l. replicas_on l st" "m_schedule st"] ok
    by (simp add: loads_ok_iff DeleteFileAndChunksFunc_def)
  then show ?thesis using ok by (auto simp: loads_ok_iff DeleteFileAndChunksFunc_def split: if_splits)
qed

lemma set_replica_version_locs: "set_replica_version loc v r = Some r' \<Longrightarrow> locs_of r' = locs_of r"
  by (auto simp: set_replica_version_def locs_of_def split: if_splits)

lemma UpdateChunkVersionFunc_files:
  assumes "UpdateChunkVersionFunc stamp req st = Inr st'"
  obtains f i sl r r' where "sl = (case m_files st f of None \<Rightarrow> [] | Some s \<Rightarrow> s)"
    "r = (case map_of sl i of None \<Rightarrow> zero_replicas | Some r \<Rightarrow> r)" "locs_of r' = locs_of r"
    "m_files st' = (m_files st)(f \<mapsto> AList.update i r' sl)" "m_schedule st' = m_schedule st"
proof -
  obtain f i where p: "parse_chunkid (vq_Chunkid req) = Inr (f, i)"
    using assms by (auto simp: UpdateChunkVersionFunc_def bindR_Inr_iff)
  define sl where "sl = (case m_files st f of None \<Rightarrow> [] | Some s \<Rightarrow> s)"
  define r where "r = (case map_of sl i of None \<Rightarrow> zero_replicas | Some r \<Rightarrow> r)"
  show ?thesis
  proof (cases "set_replica_version (vq_ServerLocation req) (vq_Version req) r")
    case None
    then show ?thesis
      using that [OF sl_def r_def refl] assms p
      by (auto simp: UpdateChunkVersionFunc_def Let_def master_log_def simp flip: sl_def r_def)
  next
    case (Some r')
    then show ?thesis
      using that [OF sl_def r_def set_replica_version_locs [OF Some]] assms p
      by (auto simp: UpdateChunkVersionFunc_def Let_def simp flip: sl_def r_def)
  qed
qed

lemma update_loads:
  assumes ok: "loads_ok st" and up: "UpdateChunkVersionFunc stamp req st = Inr st'"
  shows "loads_ok st'"
proof -
  obtain f i sl r r' where sl: "sl = (case m_files st f of None \<Rightarrow> [] | Some s \<Rightarrow> s)"
    and r: "r = (case map_of sl i of None \<Rightarrow> zero_replicas | Some r \<Rightarrow> r)" and r': "locs_of r' = locs_of r"
    and st': "m_files st' = (m_files st)(f \<mapsto> AList.update i r' sl)" "m_schedule st' = m_schedule st"
    by (rule UpdateChunkVersionFunc_files [OF up])
  have fin: "finite (dom (m_files st))" using ok by (simp add: loads_ok_def)
  have g: "gomap_ok sl" using ok sl by (auto simp: loads_ok_def split: option.splits)
  have "replicas_on l st' = replicas_on l st" if "l \<noteq> ''''" for l
  proof -
    have "count_list (replica_locations (AList.update i r' sl)) l = count_list (replica_locations sl) l"
      using count_replica_locations_update [OF g, of i r' l] that r r'
      by (cases "map_of sl i") (simp_all add: zero_replicas_def new_replicas_def count_locs_of)
    then show ?thesis
      using files_on_update [OF fin, of l f "AList.update i r' sl"] sl
      by (cases "m_files st f") (simp_all add: replicas_on_def st')
  qed
  then have "loads_are (\<lambda>l. replicas_on l st') (m_schedule st')"
    using ok by (auto simp: loads_ok_iff loads_are_def st')
  then show ?thesis using ok g by (auto simp: loads_ok_iff st' split: if_splits)
qed

section \<open>Requests to the leader\<close>

datatype leader_op =
    NewFile_op ChunkMasterRequest
  | Add_op ChunkMasterRequest
  | Delete_op ChunkMasterRequest
  | Update_op VersionRequest

fun run_leader ::
    "(nat \<Rightarrow> string) \<Rightarrow> (string \<Rightarrow> bool) \<Rightarrow> placement \<Rightarrow> leader_op \<Rightarrow> master \<Rightarrow>
     (master \<times> (string \<times> peer_msg) list) result option" where
  "run_leader stamp up env (NewFile_op req) st =
     map_option (\<lambda>r. bindR r (\<lambda>(_, st, msgs, _). Inr (st, msgs))) (NewFileChunk stamp up env req st)"
| "run_leader stamp up env (Add_op req) st =
     map_option (\<lambda>r. bindR r (\<lambda>(_, st, msgs, _). Inr (st, msgs))) (AddChunk stamp up env req st)"
| "run_leader stamp up env (Delete_op req) st =
     Some (bindR (DeleteFileAndChunks stamp up req st) (\<lambda>(_, st, msgs, _). Inr (st, msgs)))"
| "run_leader stamp up env (Update_op req) st =
     Some (bindR (UpdateChunkVersion stamp up req st) (\<lambda>(_, _, st, msgs). Inr (st, msgs)))"

text \<open>What a completed request of the leader did, by kind of request.\<close>

lemma master_log_simps [simp]:
  "m_files (master_log stamp msg st) = m_files st" "m_schedule (master_log stamp msg st) = m_schedule st"
  "m_isLeader (master_log stamp msg st) = m_isLeader st" "m_location (master_log stamp msg st) = m_location st"
  "m_timers (master_log stamp msg st) = m_timers st" "m_logging (master_log stamp msg st) = m_logging st"
  by (simp_all add: master_log_def)

lemma peers_cong: "m_location st = m_location st' \<Longrightarrow> peers st = peers st'"
  by (simp add: peers_def)

lemma NewFileChunk_cases:
  assumes "NewFileChunk stamp up env req st = Some (Inr (res, st', msgs, made))" "m_isLeader st"
    "m_files st (mq_Filename req) = None"
  obtains loc rep sched where
    "place (fst env) (fst (snd env)) (snd (snd env)) 0 (m_schedule st) [] = Some (Inr (loc, rep, sched, made))"
    "st' = master_log stamp (new_record (mq_Filename req) loc rep)
       (record_file (mq_Filename req) loc rep (st\<lparr>m_schedule := sched\<rparr>))"
    "res = no_response\<lparr>mr_Chunkid := mq_Filename req @ ''-0'', mr_Chunklocation := loc\<rparr>"
    "msgs = map (\<lambda>a. (a, NewFileChunkReplica_msg (replica_request req 0 False loc rep))) (peers st)"
    "list_all up (peers st)"
proof -
  obtain loc rep sched made' where
    p: "place (fst env) (fst (snd env)) (snd (snd env)) 0 (m_schedule st) [] = Some (Inr (loc, rep, sched, made'))"
    using assms by (auto simp: NewFileChunk_def NewFileChunkFunc_rpc_def bindR_Inr_iff)
  let ?st = "master_log stamp (new_record (mq_Filename req) loc rep)
       (record_file (mq_Filename req) loc rep (st\<lparr>m_schedule := sched\<rparr>))"
  have "peers ?st = peers st" by (rule peers_cong) (simp add: record_file_def)
  with assms p show ?thesis
    by (intro that [of loc rep sched])
      (auto simp: NewFileChunk_def NewFileChunkFunc_rpc_def Let_def split: if_splits)
qed

lemma AddChunk_cases:
  assumes "AddChunk stamp up env req st = Some (Inr (res, st', msgs, made))" "m_isLeader st"
    "m_files st (mq_Filename req) \<noteq> None"
  obtains loc rep sched st1 where
    "place (fst env) (fst (snd env)) (snd (snd env)) 0 (m_schedule st) [] = Some (Inr (loc, rep, sched, made))"
    "record_chunk (mq_Filename req) (mq_Chunkindex req) loc rep (st\<lparr>m_schedule := sched\<rparr>) = Inr st1"
    "st' = master_log stamp (add_record (mq_Filename req) (mq_Chunkindex req) loc rep) st1"
    "set msgs \<subseteq> (\<lambda>a. (a, AddChunkReplica_msg (replica_request req (mq_Chunkindex req) True loc rep))) ` set (peers st')"
proof -
  obtain loc rep sched made' where
    p: "place (fst env) (fst (snd env)) (snd (snd env)) 0 (m_schedule st) [] = Some (Inr (loc, rep, sched, made'))"
    using assms by (auto simp: AddChunk_def AddChunkFunc_rpc_def bindR_Inr_iff)
  then obtain st1 where
    rc: "record_chunk (mq_Filename req) (mq_Chunkindex req) loc rep (st\<lparr>m_schedule := sched\<rparr>) = Inr st1"
    using assms by (auto simp: AddChunk_def AddChunkFunc_rpc_def bindR_Inr_iff)
  show ?thesis
    using assms p rc by (intro that [of loc rep sched st1]) (auto simp: AddChunk_def AddChunkFunc_rpc_def Let_def)
qed

lemma loads_are_same_nodes: "same_nodes s t \<Longrightarrow> loads_are N t \<Longrightarrow> loads_are N s"
proof -
  have "loads_are N s \<longleftrightarrow> list_all (\<lambda>(l, c). l \<noteq> '''' \<and> c = of_nat (N l)) (zip (map NodeLocation s) (map ChunkNum s))" for s
    by (induction s) (auto simp: loads_are_def)
  then show "same_nodes s t \<Longrightarrow> loads_are N t \<Longrightarrow> loads_are N s" by (simp add: same_nodes_def)
qed

lemma loads_ok_schedule: "loads_ok st \<Longrightarrow> same_nodes sched (m_schedule st) \<Longrightarrow> loads_ok (st\<lparr>m_schedule := sched\<rparr>)"
  by (auto simp: loads_ok_iff replicas_on_def intro: loads_are_same_nodes)

lemma loads_ok_master_log [simp]: "loads_ok (master_log stamp msg st) = loads_ok st"
  by (simp add: loads_ok_def replicas_on_def)

definition same_tables :: "master \<Rightarrow> master \<Rightarrow> bool" where
  "same_tables st st' \<longleftrightarrow> m_files st = m_files st' \<and> same_nodes (m_schedule st) (m_schedule st')"

lemma same_nodes_add_load: "same_nodes s t \<Longrightarrow> same_nodes (add_load d l r s) (add_load d l r t)"
  unfolding same_nodes_def
  by (intro conjI nth_equalityI) (auto simp: nth_add_load list_eq_iff_nth_eq)

lemma same_nodes_fold_add_load:
  "same_nodes s t \<Longrightarrow> same_nodes (fold (\<lambda>r. add_load d (a r) (b r)) rs s) (fold (\<lambda>r. add_load d (a r) (b r)) rs t)"
  by (induction rs arbitrary: s t) (auto intro: same_nodes_add_load)

lemma same_tables_record_file:
  "same_tables st st' \<Longrightarrow> same_tables (record_file f l r st) (record_file f l r st')"
  by (simp add: same_tables_def record_file_def same_nodes_add_load)

lemma same_tables_record_chunk:
  "same_tables st st' \<Longrightarrow> record_chunk f i l r st' = Inr st1 \<Longrightarrow>
   \<exists>st2. record_chunk f i l r st = Inr st2 \<and> same_tables st2 st1 \<and> m_isLeader st2 = m_isLeader st"
  by (auto simp: same_tables_def record_chunk_def same_nodes_add_load split: option.splits)

lemma same_tables_delete:
  "same_tables st st' \<Longrightarrow> same_tables (DeleteFileAndChunksFunc f st) (DeleteFileAndChunksFunc f st')"
  by (simp add: same_tables_def DeleteFileAndChunksFunc_def chunks_of_def same_nodes_fold_add_load)

lemma same_tables_update:
  assumes "same_tables st st'" "UpdateChunkVersionFunc stamp' req st' = Inr st1"
  shows "\<exists>st2. UpdateChunkVersionFunc stamp req st = Inr st2 \<and> same_tables st2 st1"
proof -
  obtain f i where p: "parse_chunkid (vq_Chunkid req) = Inr (f, i)"
    using assms(2) by (auto simp: UpdateChunkVersionFunc_def bindR_Inr_iff)
  define sl where "sl = (case m_files st' f of None \<Rightarrow> [] | Some s \<Rightarrow> s)"
  define r where "r = (case map_of sl i of None \<Rightarrow> zero_replicas | Some r \<Rightarrow> r)"
  show ?thesis
    using assms p
    by (cases "set_replica_version (vq_ServerLocation req) (vq_Version req) r")
      (auto simp: UpdateChunkVersionFunc_def same_tables_def simp flip: sl_def r_def)
qed

lemma same_tables_log [simp]:
  "same_tables (master_log s m st) st' = same_tables st st'" "same_tables st (master_log s m st') = same_tables st st'"
  by (simp_all add: same_tables_def)

lemma node_index_unique:
  assumes "distinct (map NodeLocation sched)" "i < length sched" "NodeLocation (sched ! i) = loc"
  shows "node_index loc sched = i"
proof -
  have "foldl (\<lambda>k j. if loc = NodeLocation (sched ! j) then j else k) k0 is = (if i \<in> set is then i else k0)"
    if "set is \<subseteq> {..<length sched}" for "is" k0
    using that
  proof (induction "is" arbitrary: k0)
    case (Cons j "is")
    then have "loc = NodeLocation (sched ! j) \<longleftrightarrow> j = i"
      using assms by (auto simp: distinct_conv_nth)
    with Cons show ?case by auto
  qed simp
  from this [of "[0..<length sched]" 0] show ?thesis
    using assms(2) by (simp add: node_index_def lessThan_atLeast0)
qed

lemma node_alive_iff:
  assumes "distinct (map NodeLocation sched)" "n \<in> set sched" "NodeLocation n = loc"
  shows "node_alive loc sched \<longleftrightarrow> Alive n"
proof -
  obtain i where "i < length sched" "sched ! i = n" using assms(2) by (auto simp: in_set_conv_nth)
  with node_index_unique [OF assms(1), of i loc] assms(3) show ?thesis by (simp add: node_alive_def)
qed

lemma NodeLocation_set_alive [simp]: "map NodeLocation (set_alive b loc s) = map NodeLocation s"
  by (simp add: set_alive_def)

lemma NodeLocations_set_alive [simp]: "NodeLocation ` set (set_alive b loc s) = NodeLocation ` set s"
  using arg_cong [OF NodeLocation_set_alive, of set b loc s] by (simp only: set_map)

lemma others_set_alive [simp]:
  "filter (\<lambda>m. NodeLocation m \<noteq> loc) (set_alive b loc s) = filter (\<lambda>m. NodeLocation m \<noteq> loc) s"
  by (induction s) (simp_all add: set_alive_def)

lemma Alive_set_alive:
  assumes "m \<in> set (set_alive b loc s)" "NodeLocation m = loc"
  shows "Alive m = b"
proof -
  obtain x where x: "m = (if NodeLocation x = loc then x\<lparr>Alive := b\<rparr> else x)"
    using assms(1) unfolding set_alive_def set_map by blast
  show ?thesis
  proof (cases "NodeLocation x = loc")
    case True
    then have "m = x\<lparr>Alive := b\<rparr>" using x by simp
    then show ?thesis by simp
  next
    case False
    then show ?thesis using x assms(2) by simp
  qed
qed

lemma set_alive_absent: "loc \<notin> NodeLocation ` set s \<Longrightarrow> set_alive b loc s = s"
  by (induction s) (auto simp: set_alive_def)

lemma set_alive_append [simp]: "set_alive b loc (s @ t) = set_alive b loc s @ set_alive b loc t"
  by (simp add: set_alive_def)

lemma parse_chunk_id: "parse_chunkid (chunk_id f i) = Inr (f, i)" if "0 \<le> int_of_u64 i"
proof -
  let ?n = "Itoa (int_of_u64 i)"
  have "CHR ''-'' \<notin> set ?n" using that by (simp add: Itoa_nonneg)
  then have d: "str_LastIndex (chunk_id f i) ''-'' = int (length f)"
    by (intro str_LastIndex_charI [of _ f _ ?n]) (simp_all add: chunk_id_def)
  moreover have "go_slice_from (chunk_id f i) (int (length f) + 1) = Some ?n"
    by (rule slice_from_eqI [of _ "f @ ''-''"]) (simp_all add: chunk_id_def)
  moreover have "go_slice (chunk_id f i) 0 (int (length f)) = Some f"
    by (rule slice_eqI [of _ "[]" _ "''-'' @ ?n"]) (simp_all add: chunk_id_def)
  ultimately show ?thesis by (simp add: parse_chunkid_def)
qed

section \<open>Replaying records\<close>

lemma first_field_record:
  assumes "sep \<notin> set k" "CHR ''/'' \<notin> set k" "CHR ''/'' \<notin> set v" "sep \<noteq> CHR ''/''"
  shows "first_field sep (k @ [sep] @ v @ ''/'' @ rest) = Inr (v, int (length k) + 1 + int (length v))"
proof -
  define l where "l = k @ [sep] @ v @ ''/'' @ rest"
  have "str_Index l [sep] = int (length k)"
    by (rule str_Index_charI [of _ k]) (use assms in \<open>simp_all add: l_def\<close>)
  moreover have "str_Index l ''/'' = int (length k) + 1 + int (length v)"
    by (rule str_Index_charI [of _ "k @ [sep] @ v"]) (use assms in \<open>auto simp: l_def\<close>)
  moreover have "go_slice l (int (length k) + 1) (int (length k) + 1 + int (length v)) = Some v"
    by (rule slice_eqI [of _ "k @ [sep]"]) (simp_all add: l_def)
  ultimately show ?thesis unfolding l_def [symmetric] by (simp add: first_field_def)
qed

lemma final_field_record:
  assumes "sep \<notin> set v" "sep \<notin> set rest" "CHR ''/'' \<notin> set rest" "sep \<noteq> CHR ''/''"
  shows "final_field sep (k @ [sep] @ v @ ''/'' @ rest) = Inr v"
proof -
  define l where "l = k @ [sep] @ v @ ''/'' @ rest"
  have "str_LastIndex l [sep] = int (length k)"
    by (rule str_LastIndex_charI [of _ k _ "v @ ''/'' @ rest"]) (use assms in \<open>auto simp: l_def\<close>)
  moreover have "str_LastIndex l ''/'' = int (length k) + 1 + int (length v)"
    by (rule str_LastIndex_charI [of _ "k @ [sep] @ v" _ rest]) (use assms in \<open>auto simp: l_def\<close>)
  moreover have "go_slice l (int (length k) + 1) (int (length k) + 1 + int (length v)) = Some v"
    by (rule slice_eqI [of _ "k @ [sep]"]) (simp_all add: l_def)
  ultimately show ?thesis unfolding l_def [symmetric] by (simp add: final_field_def)
qed

lemma slice_from_drop: "n \<le> length xs \<Longrightarrow> go_slice_from (xs @ ys) (int n) = Some (drop n xs @ ys)"
  by (rule slice_from_eqI [of _ "take n xs"]) (simp_all flip: append_assoc)

lemma replay_new_record:
  assumes "CHR ''/'' \<notin> set f" "CHR ''/'' \<notin> set loc" "CHR ''>'' \<notin> set rep"
  shows "replay_new (new_record f loc rep @ [newline]) st = Inr (record_file f loc rep st)"
proof -
  let ?tail = "[CHR ''>''] @ rep @ ''/'' @ [newline]"
  let ?t1 = "''Location'' @ [CHR ''>''] @ loc @ ''/'' @ ''Location_replica'' @ ?tail"
  define P where "P = ''NewNewChunk filename>'' @ f @ ''/Location>'' @ loc @ ''/Location_replica''"
  define l where "l = ''NewNewChunk filename'' @ [CHR ''>''] @ f @ ''/'' @ ?t1"
  have l: "new_record f loc rep @ [newline] = l" "l = P @ ?tail"
    by (simp_all add: l_def P_def new_record_def)
  have 1: "first_field CHR ''>'' l = Inr (f, int (length f) + 21)"
    unfolding l_def by (subst first_field_record) (use assms in simp_all)
  have 2: "go_slice_from l (int (length f) + 21 + 1) = Some ?t1"
    by (rule slice_from_eqI [of _ "''NewNewChunk filename'' @ [CHR ''>''] @ f @ ''/''"]) (simp_all add: l_def)
  have 3: "first_field CHR ''>'' ?t1 = Inr (loc, int (length loc) + 9)"
    by (subst first_field_record) (use assms in simp_all)
  have 4: "go_slice_from l (int (length loc) + 9 + 1) = Some (drop (length loc + 10) P @ ?tail)"
  proof -
    have "int (length loc) + 9 + 1 = int (length loc + 10)" by simp
    moreover have "length loc + 10 \<le> length P" by (simp add: P_def)
    ultimately show ?thesis using slice_from_drop l(2) by metis
  qed
  have 5: "final_field CHR ''>'' (drop (length loc + 10) P @ ?tail) = Inr rep"
    by (rule final_field_record) (use assms in simp_all)
  show ?thesis
    unfolding l(1) replay_new_def 1 bindR_simps prod.case 2 panic_unless_simps 3 4 5
    by (simp add: NewFileChunkFunc_def)
qed

lemma replay_delete_record:
  assumes "CHR '':'' \<notin> set f"
  shows "replay_delete (delete_record f @ [newline]) st = Inr (DeleteFileAndChunksFunc f st)"
proof -
  have "delete_record f @ [newline] = ''DeleteChunk filename'' @ [CHR '':''] @ f @ ''/'' @ [newline]"
    by (simp add: delete_record_def)
  moreover have "final_field CHR '':'' (''DeleteChunk filename'' @ [CHR '':''] @ f @ ''/'' @ [newline]) = Inr f"
    by (rule final_field_record) (use assms in simp_all)
  ultimately show ?thesis by (simp only: replay_delete_def bindR_simps)
qed

lemma replay_update_record:
  assumes "CHR ''/'' \<notin> set (vq_ServerLocation req)" "CHR ''/'' \<notin> set (vq_Chunkid req)"
  shows "replay_update (update_record req @ [newline]) st = UpdateChunkVersionFunc (\<lambda>_. '''') req st"
proof -
  let ?L = "vq_ServerLocation req" and ?c = "vq_Chunkid req" and ?v = "Itoa (int_of_u64 (vq_Version req))"
  let ?tail = "[CHR '':''] @ ?v @ ''/'' @ [newline]"
  let ?t1 = "''Chunkid'' @ [CHR '':''] @ ?c @ ''/'' @ ''Version'' @ ?tail"
  define l where "l = ''UpdateVsion ServerLocation'' @ [CHR '':''] @ ?L @ ''/'' @ ?t1"
  have l: "update_record req @ [newline] = l" by (simp add: l_def update_record_def)
  have l': "l = (''UpdateVsion ServerLocation:'' @ ?L @ ''/Chunkid:'' @ ?c @ ''/Version'') @ ?tail"
    by (simp add: l_def)
  have 1: "first_field CHR '':'' l = Inr (?L, int (length ?L) + 27)"
    unfolding l_def by (subst first_field_record) (use assms in simp_all)
  have 2: "go_slice_from l (int (length ?L) + 27 + 1) = Some ?t1"
    by (rule slice_from_eqI [of _ "''UpdateVsion ServerLocation'' @ [CHR '':''] @ ?L @ ''/''"]) (simp_all add: l_def)
  have 3: "first_field CHR '':'' ?t1 = Inr (?c, int (length ?c) + 8)"
    by (subst first_field_record) (use assms in simp_all)
  have 4: "final_field CHR '':'' l = Inr ?v"
    unfolding l' by (rule final_field_record) simp_all
  show ?thesis
    unfolding l replay_update_def 1 bindR_simps prod.case 2 panic_unless_simps 3 4
    by (cases req) simp
qed

lemma recover_record_line:
  assumes "length d = 20" "length op = 11"
  shows "recover_record (d @ op @ rest) st =
    (if op = ''AddAddChunk'' then replay_add (op @ rest) st
     else if op = ''NewNewChunk'' then replay_new (op @ rest) st
     else if op = ''DeleteChunk'' then replay_delete (op @ rest) st
     else if op = ''UpdateVsion'' then replay_update (op @ rest) st
     else Inr st)"
proof -
  have "go_slice_from (d @ op @ rest) 20 = Some (op @ rest)"
    by (rule slice_from_append) (simp add: assms)
  moreover have "go_slice (op @ rest) 0 11 = Some op"
    using slice_mid [of 0 "[]" 11 op rest] assms by simp
  ultimately show ?thesis by (simp add: recover_record_def)
qed

text \<open>
  The requests whose log records can be parsed back: no AddChunk, and names without the separators.
\<close>

fun recoverable :: "leader_op \<Rightarrow> bool" where
  "recoverable (NewFile_op req) \<longleftrightarrow> CHR ''/'' \<notin> set (mq_Filename req) \<and> newline \<notin> set (mq_Filename req)"
| "recoverable (Add_op req) \<longleftrightarrow> False"
| "recoverable (Delete_op req) \<longleftrightarrow> CHR '':'' \<notin> set (mq_Filename req) \<and> newline \<notin> set (mq_Filename req)"
| "recoverable (Update_op req) \<longleftrightarrow> CHR ''/'' \<notin> set (vq_ServerLocation req) \<and> newline \<notin> set (vq_ServerLocation req) \<and>
     CHR ''/'' \<notin> set (vq_Chunkid req) \<and> newline \<notin> set (vq_Chunkid req)"

inductive leader_reach :: "(nat \<Rightarrow> string) \<Rightarrow> (string \<Rightarrow> bool) \<Rightarrow> master \<Rightarrow> master \<Rightarrow> bool"
  for stamp up st0 where
  start: "leader_reach stamp up st0 st0"
| step: "leader_reach stamp up st0 st \<Longrightarrow> recoverable op \<Longrightarrow>
    run_leader stamp up env op st = Some (Inr (st', msgs)) \<Longrightarrow> leader_reach stamp up st0 st'"

definition clean_locations :: "NodeMetadata list \<Rightarrow> bool" where
  "clean_locations sched \<longleftrightarrow> (\<forall>l\<in>set (map NodeLocation sched). CHR ''/'' \<notin> set l \<and> CHR ''>'' \<notin> set l \<and> newline \<notin> set l)"

text \<open>The log text, replayed from \<open>t0\<close>, gives the tables of the state.\<close>

definition replays_to :: "master \<Rightarrow> master \<Rightarrow> bool" where
  "replays_to t0 st \<longleftrightarrow> m_logging st \<and> clean_locations (m_schedule st) \<and>
     (\<exists>ls t. m_log st = concat (map terminated ls) \<and> (\<forall>l\<in>set ls. newline \<notin> set l) \<and>
        replay_lines recover_record (map terminated ls) t0 = Inr t \<and> same_tables t st \<and> \<not> m_logging t)"

lemma replays_to_step:
  assumes "replays_to t0 st" "m_logging st'" "clean_locations (m_schedule st')"
    and "m_log st' = m_log st @ terminated (d @ msg)" "newline \<notin> set (d @ msg)"
    and "\<And>t. same_tables t st \<Longrightarrow> \<not> m_logging t \<Longrightarrow>
      \<exists>t'. recover_record (d @ terminated msg) t = Inr t' \<and> same_tables t' st' \<and> \<not> m_logging t'"
  shows "replays_to t0 st'"
proof -
  obtain ls t where ls: "m_log st = concat (map terminated ls)" "\<forall>l\<in>set ls. newline \<notin> set l"
    and t: "replay_lines recover_record (map terminated ls) t0 = Inr t" "same_tables t st" "\<not> m_logging t"
    using assms(1) by (auto simp: replays_to_def)
  obtain t' where t': "recover_record (d @ terminated msg) t = Inr t'" "same_tables t' st'" "\<not> m_logging t'"
    using assms(6) [OF t(2,3)] by blast
  have "replay_lines recover_record (map terminated (ls @ [d @ msg])) t0 = Inr t'"
    using t t' by (simp add: replay_lines_append)
  moreover have "m_log st' = concat (map terminated (ls @ [d @ msg]))" using assms(4) ls by simp
  moreover have "\<forall>l\<in>set (ls @ [d @ msg]). newline \<notin> set l" using ls(2) assms(5) by auto
  ultimately show ?thesis
    unfolding replays_to_def using t' assms(2,3) by blast
qed

lemma master_log_text:
  "m_logging st \<Longrightarrow> m_log (master_log stamp msg st) = m_log st @ terminated (stamp (m_nlog st) @ msg)"
  by (simp add: master_log_def)

lemma clean_locations_same_nodes: "same_nodes s t \<Longrightarrow> clean_locations t \<Longrightarrow> clean_locations s"
  by (simp add: clean_locations_def same_nodes_def)

lemma clean_locations_add_load [simp]: "clean_locations (add_load d l r s) = clean_locations s"
  unfolding clean_locations_def by simp

lemma clean_locations_fold_add_load [simp]:
  "clean_locations (fold (\<lambda>r. add_load d (a r) (b r)) rs s) = clean_locations s"
  by (induction rs arbitrary: s) simp_all

lemma same_tables_schedule:
  "same_tables t st \<Longrightarrow> same_nodes sched (m_schedule st) \<Longrightarrow> same_tables t (st\<lparr>m_schedule := sched\<rparr>)"
  by (auto simp: same_tables_def same_nodes_def)

lemma NewFile_replays:
  assumes stamp: "stamp_ok stamp" and t0: "replays_to t0 st" and ok: "recoverable (NewFile_op req)"
    and new: "NewFileChunk stamp up env req st = Some (Inr (res, st', msgs, made))"
    and lead: "m_isLeader st" "m_files st (mq_Filename req) = None"
  shows "replays_to t0 st'"
proof -
  let ?f = "mq_Filename req" and ?d = "stamp (m_nlog st)"
  obtain loc rep sched where
    p: "place (fst env) (fst (snd env)) (snd (snd env)) 0 (m_schedule st) [] = Some (Inr (loc, rep, sched, made))"
    and st': "st' = master_log stamp (new_record ?f loc rep) (record_file ?f loc rep (st\<lparr>m_schedule := sched\<rparr>))"
    by (rule NewFileChunk_cases [OF new lead])
  obtain m0 m1 rest where sort: "go_sort_by ChunkNum (filter Alive sched) = m0 # m1 # rest"
    and m: "loc = NodeLocation m0" "rep = NodeLocation m1" "same_nodes sched (m_schedule st)"
    using place_result [OF p] by blast
  have clean: "clean_locations sched" using t0 m(3) clean_locations_same_nodes by (auto simp: replays_to_def)
  have "{m0, m1} \<subseteq> set sched"
    using go_sort.set_srt [of ChunkNum "filter Alive sched"] sort by auto
  then have loc: "CHR ''/'' \<notin> set loc" "newline \<notin> set loc" "CHR ''>'' \<notin> set rep" "newline \<notin> set rep"
    using clean m by (auto simp: clean_locations_def)
  have logging: "m_logging st" using t0 by (simp add: replays_to_def)
  show ?thesis
  proof (rule replays_to_step [OF t0, of _ ?d "new_record ?f loc rep"])
    show "m_logging st'" "clean_locations (m_schedule st')" using logging clean by (simp_all add: st' record_file_def)
    show "m_log st' = m_log st @ terminated (?d @ new_record ?f loc rep)"
      using logging by (simp add: st' record_file_def master_log_def)
    show "newline \<notin> set (?d @ new_record ?f loc rep)"
      using stamp ok loc by (simp add: stamp_ok_def new_record_def)
    fix t assume t: "same_tables t st" "\<not> m_logging t"
    have "recover_record (?d @ terminated (new_record ?f loc rep)) t = Inr (record_file ?f loc rep t)"
      using recover_record_line [of ?d "''NewNewChunk''" "drop 11 (new_record ?f loc rep) @ [newline]" t]
        replay_new_record [of ?f loc rep t] stamp ok loc by (simp add: stamp_ok_def new_record_def)
    moreover have "same_tables (record_file ?f loc rep t) st'"
      unfolding st' same_tables_log by (rule same_tables_record_file) (rule same_tables_schedule [OF t(1) m(3)])
    ultimately show "\<exists>t'. recover_record (?d @ terminated (new_record ?f loc rep)) t = Inr t' \<and> same_tables t' st' \<and> \<not> m_logging t'"
      using t(2) by (simp add: record_file_def)
  qed
qed

lemma Delete_replays:
  assumes stamp: "stamp_ok stamp" and t0: "replays_to t0 st" and ok: "recoverable (Delete_op req)"
  shows "replays_to t0 (DeleteFileAndChunksFunc (mq_Filename req) (master_log stamp (delete_record (mq_Filename req)) st))"
    (is "replays_to t0 ?st'")
proof (rule replays_to_step [OF t0, of _ "stamp (m_nlog st)" "delete_record (mq_Filename req)"])
  have logging: "m_logging st" using t0 by (simp add: replays_to_def)
  then show "m_logging ?st'" "m_log ?st' = m_log st @ terminated (stamp (m_nlog st) @ delete_record (mq_Filename req))"
    by (simp_all add: DeleteFileAndChunksFunc_def master_log_def)
  show "clean_locations (m_schedule ?st')" using t0 by (simp add: DeleteFileAndChunksFunc_def replays_to_def)
  show "newline \<notin> set (stamp (m_nlog st) @ delete_record (mq_Filename req))"
    using stamp ok by (simp add: stamp_ok_def delete_record_def)
  fix t assume t: "same_tables t st" "\<not> m_logging t"
  let ?d = "stamp (m_nlog st)" and ?f = "mq_Filename req"
  have "recover_record (?d @ terminated (delete_record ?f)) t = Inr (DeleteFileAndChunksFunc ?f t)"
    using recover_record_line [of ?d "''DeleteChunk''" "drop 11 (delete_record ?f) @ [newline]" t]
      replay_delete_record [of ?f t] stamp ok by (simp add: stamp_ok_def delete_record_def)
  moreover have "same_tables (DeleteFileAndChunksFunc ?f t) ?st'"
    by (rule same_tables_delete) (simp add: t(1))
  ultimately show "\<exists>t'. recover_record (?d @ terminated (delete_record ?f)) t = Inr t' \<and> same_tables t' ?st' \<and> \<not> m_logging t'"
    using t(2) by (simp add: DeleteFileAndChunksFunc_def)
qed

text \<open>A version report may log a second line, which recovery ignores.\<close>

lemma error_line_replays:
  assumes "stamp_ok stamp" "replays_to t0 st"
  shows "replays_to t0 (master_log stamp ''error serverloaciton'' st)"
proof (rule replays_to_step [OF assms(2), of _ "stamp (m_nlog st)" "''error serverloaciton''"])
  show "m_log (master_log stamp ''error serverloaciton'' st) = m_log st @ terminated (stamp (m_nlog st) @ ''error serverloaciton'')"
    using assms(2) by (intro master_log_text) (simp add: replays_to_def)
  show "\<exists>t'. recover_record (stamp (m_nlog st) @ terminated ''error serverloaciton'') t = Inr t' \<and>
      same_tables t' (master_log stamp ''error serverloaciton'' st) \<and> \<not> m_logging t'"
    if "same_tables t st" "\<not> m_logging t" for t
    using recover_record_line [of "stamp (m_nlog st)" "''error serve''" "''rloaciton'' @ [newline]" t] assms(1) that
    by (simp add: stamp_ok_def)
qed (use assms in \<open>simp_all add: replays_to_def stamp_ok_def\<close>)

lemma UpdateChunkVersionFunc_logging:
  "UpdateChunkVersionFunc stamp req st = Inr st' \<Longrightarrow> m_logging st' = m_logging st"
  by (auto simp: UpdateChunkVersionFunc_def Let_def bindR_Inr_iff split: option.splits)

lemma Update_replays:
  assumes stamp: "stamp_ok stamp" and t0: "replays_to t0 st" and ok: "recoverable (Update_op req)"
    and up: "UpdateChunkVersionFunc stamp req (master_log stamp (update_record req) st) = Inr st'"
  shows "replays_to t0 st'"
proof -
  let ?d = "stamp (m_nlog st)" and ?msg = "update_record req"
  obtain f i where p: "parse_chunkid (vq_Chunkid req) = Inr (f, i)"
    using up by (auto simp: UpdateChunkVersionFunc_def bindR_Inr_iff)
  define sl where "sl = (case m_files st f of None \<Rightarrow> [] | Some s \<Rightarrow> s)"
  define r where "r = (case map_of sl i of None \<Rightarrow> zero_replicas | Some r \<Rightarrow> r)"
  define r' where "r' = (case set_replica_version (vq_ServerLocation req) (vq_Version req) r of None \<Rightarrow> r | Some r' \<Rightarrow> r')"
  let ?st1 = "(master_log stamp ?msg st)\<lparr>m_files := (m_files st)(f \<mapsto> AList.update i r' sl)\<rparr>"
  have step: "replays_to t0 ?st1"
  proof (rule replays_to_step [OF t0, of _ ?d ?msg])
    show "m_log ?st1 = m_log st @ terminated (?d @ ?msg)" "m_logging ?st1" "clean_locations (m_schedule ?st1)"
      using t0 by (simp_all add: replays_to_def master_log_def)
    show "newline \<notin> set (?d @ ?msg)" using stamp ok by (simp add: stamp_ok_def update_record_def)
    fix t assume t: "same_tables t st" "\<not> m_logging t"
    have "recover_record (?d @ terminated ?msg) t = UpdateChunkVersionFunc (\<lambda>_. '''') req t"
      using recover_record_line [of ?d "''UpdateVsion''" "drop 11 ?msg @ [newline]" t]
        replay_update_record [of req t] stamp ok by (simp add: stamp_ok_def update_record_def)
    moreover have "\<exists>t'. UpdateChunkVersionFunc (\<lambda>_. '''') req t = Inr t' \<and> same_tables t' ?st1 \<and> \<not> m_logging t'"
      using t p by (cases "set_replica_version (vq_ServerLocation req) (vq_Version req) r")
        (simp_all add: UpdateChunkVersionFunc_def same_tables_def r'_def flip: sl_def r_def)
    ultimately show "\<exists>t'. recover_record (?d @ terminated ?msg) t = Inr t' \<and> same_tables t' ?st1 \<and> \<not> m_logging t'"
      by simp
  qed
  have "st' = ?st1 \<or> st' = master_log stamp ''error serverloaciton'' ?st1"
    using up p by (cases "set_replica_version (vq_ServerLocation req) (vq_Version req) r")
      (auto simp: UpdateChunkVersionFunc_def master_log_def r'_def simp flip: sl_def r_def)
  then show ?thesis using step error_line_replays [OF stamp step] by auto
qed

lemma run_leader_replays:
  assumes stamp: "stamp_ok stamp" and t0: "replays_to t0 st" and ok: "recoverable op"
    and run: "run_leader stamp up env op st = Some (Inr (st', msgs))"
  shows "replays_to t0 st'"
proof (cases op)
  case (NewFile_op req)
  then obtain res made where n: "NewFileChunk stamp up env req st = Some (Inr (res, st', msgs, made))"
    using run by (auto simp: bindR_Inr_iff)
  show ?thesis
  proof (cases "m_isLeader st \<and> m_files st (mq_Filename req) = None")
    case True
    then show ?thesis using NewFile_replays [OF stamp t0 _ n] ok NewFile_op by simp
  next
    case False
    with n t0 show ?thesis by (auto simp: NewFileChunk_def split: if_splits)
  qed
next
  case (Delete_op req)
  with run t0 Delete_replays [OF stamp t0, of req] ok show ?thesis
    by (auto simp: DeleteFileAndChunks_def Let_def bindR_Inr_iff split: if_splits)
next
  case (Update_op req)
  with run t0 Update_replays [OF stamp t0, of req] ok show ?thesis
    by (auto simp: UpdateChunkVersion_def bindR_Inr_iff split: if_splits)
qed (use ok in simp)

lemma leader_reach_replays:
  "leader_reach stamp up st0 st \<Longrightarrow> stamp_ok stamp \<Longrightarrow> replays_to t0 st0 \<Longrightarrow> replays_to t0 st"
  by (induction rule: leader_reach.induct) (auto intro: run_leader_replays)

lemma replay_add_record:
  assumes f: "CHR ''/'' \<notin> set f" and rep: "CHR ''>'' \<notin> set rep" and i: "length (Itoa (int_of_u64 i)) \<le> 8"
  shows "replay_add (add_record f i loc rep @ [newline]) st = record_chunk f i f rep st"
proof -
  let ?n = "Itoa (int_of_u64 i)" and ?tail = "[CHR ''>''] @ rep @ ''/'' @ [newline]"
  let ?t1 = "''Chunkindex'' @ [CHR ''>''] @ ?n @ ''/'' @ ''Location>'' @ loc @ ''/Location_replica'' @ ?tail"
  define h where "h = ''AddAddChunk filename''"
  define P where "P = h @ ''>'' @ f @ ''/Chunkindex>'' @ ?n @ ''/Location>'' @ loc @ ''/Location_replica''"
  define l where "l = h @ [CHR ''>''] @ f @ ''/'' @ ?t1"
  have l: "add_record f i loc rep @ [newline] = l" "l = P @ ?tail"
    by (simp_all add: l_def P_def h_def add_record_def)
  have h: "CHR ''>'' \<notin> set h" "CHR ''/'' \<notin> set h" "length h = 20" by (simp_all add: h_def)
  have 1: "first_field CHR ''>'' l = Inr (f, 21 + int (length f))"
    unfolding l_def using h f by (subst first_field_record) simp_all
  have 2: "go_slice_from l (21 + int (length f) + 1) = Some ?t1"
    by (rule slice_from_eqI [of _ "h @ [CHR ''>''] @ f @ ''/''"]) (simp_all add: l_def h)
  have 3: "first_field CHR ''>'' ?t1 = Inr (?n, 11 + int (length ?n))"
    by (subst first_field_record) simp_all
  let ?k = "12 + length ?n"
  have 4: "go_slice_from l (11 + int (length ?n) + 1) = Some (drop ?k h @ [CHR ''>''] @ f @ ''/'' @ ?t1)"
    unfolding l_def by (rule slice_from_eqI [of _ "take ?k h"]) (use i h in \<open>simp_all flip: append_assoc\<close>)
  have 5: "first_field CHR ''>'' (drop ?k h @ [CHR ''>''] @ f @ ''/'' @ ?t1) =
      Inr (f, int (length (drop ?k h)) + 1 + int (length f))"
    by (rule first_field_record) (use f h in \<open>auto dest: in_set_dropD\<close>)
  let ?m = "length (drop ?k h) + 2 + length f"
  have m: "?m \<le> length P" using h by (simp add: P_def)
  have 6: "go_slice_from l (int (length (drop ?k h)) + 1 + int (length f) + 1) = Some (drop ?m P @ ?tail)"
  proof -
    have "int (length (drop ?k h)) + 1 + int (length f) + 1 = int ?m" by simp
    with slice_from_drop [OF m, of ?tail] l(2) show ?thesis by metis
  qed
  have 7: "final_field CHR ''>'' (drop ?m P @ ?tail) = Inr rep"
    by (rule final_field_record) (use rep in simp_all)
  show ?thesis
    unfolding l(1) replay_add_def 1 bindR_simps prod.case 2 panic_unless_simps 3 4 5 6 7
    by (simp add: AddChunkFunc_def)
qed

section \<open>Properties\<close>

text \<open>
  C32: a new file gets two replicas on two different chunk servers, both alive, both dialled
  successfully, and no alive server has a lower load than the two; the loads of exactly these two grow
  by one, the file table gets exactly this entry, and every other master is told the placement.
\<close>

theorem NewFileChunk_placement:
  assumes "NewFileChunk stamp up (reach, fired, fuel) req st = Some (Inr (res, st', msgs, made))"
    and "m_isLeader st" and "m_files st (mq_Filename req) = None"
    and "distinct (map NodeLocation (m_schedule st))"
  shows "\<exists>sched m0 m1 j. same_nodes sched (m_schedule st) \<and> m0 \<in> set sched \<and> m1 \<in> set sched \<and>
    Alive m0 \<and> Alive m1 \<and> NodeLocation m0 \<noteq> NodeLocation m1 \<and> reach j (NodeLocation m0) \<and> reach j (NodeLocation m1) \<and>
    (\<forall>n\<in>set sched. Alive n \<and> n \<noteq> m0 \<and> n \<noteq> m1 \<longrightarrow> ChunkNum m0 \<le> ChunkNum n \<and> ChunkNum m1 \<le> ChunkNum n) \<and>
    m_schedule st' = add_load 1 (NodeLocation m0) (NodeLocation m1) sched \<and>
    m_files st' = (m_files st)(mq_Filename req \<mapsto>
      [(0, new_replicas (mq_Filename req @ ''-0'') (NodeLocation m0) (NodeLocation m1))]) \<and>
    mr_Chunklocation res = NodeLocation m0 \<and> mr_Errornum res = 0 \<and> map fst msgs = peers st"
proof -
  obtain loc rep sched where
    p: "place reach fired fuel 0 (m_schedule st) [] = Some (Inr (loc, rep, sched, made))"
    and st': "st' = master_log stamp (new_record (mq_Filename req) loc rep)
       (record_file (mq_Filename req) loc rep (st\<lparr>m_schedule := sched\<rparr>))"
    and res: "res = no_response\<lparr>mr_Chunkid := mq_Filename req @ ''-0'', mr_Chunklocation := loc\<rparr>"
    and msgs: "msgs = map (\<lambda>a. (a, NewFileChunkReplica_msg (replica_request req 0 False loc rep))) (peers st)"
    using assms(1) by (rule NewFileChunk_cases [OF _ assms(2,3)]) auto
  obtain m0 m1 rest j where sort: "go_sort_by ChunkNum (filter Alive sched) = m0 # m1 # rest"
    and m: "loc = NodeLocation m0" "rep = NodeLocation m1" "reach j loc" "reach j rep" "same_nodes sched (m_schedule st)"
    using place_result [OF p] by blast
  have "distinct (map NodeLocation sched)" using m(5) assms(4) by (simp add: same_nodes_def)
  note least = two_least_nodes [OF sort this]
  show ?thesis
    using least m by (intro exI [of _ sched] exI [of _ m0] exI [of _ m1] exI [of _ j])
      (auto simp: st' res msgs record_file_def no_response_def comp_def)
qed

text \<open>
  Placing a chunk ends: once every server that cannot be dialled has missed its heartbeats, and
  while two servers stay alive throughout, the loop returns two locations.
\<close>

theorem place_terminates:
  assumes "K < fuel" and "\<And>l. reach K l \<or> fired K l"
    and "i < length sched" "j < length sched" "i \<noteq> j" "Alive (sched ! i)" "Alive (sched ! j)"
    and "\<And>m. m \<le> K \<Longrightarrow> \<not> fired m (NodeLocation (sched ! i)) \<and> \<not> fired m (NodeLocation (sched ! j))"
  shows "\<exists>loc rep sched' made. place reach fired fuel 0 sched [] = Some (Inr (loc, rep, sched', made))"
  using place_returns [of K fuel 0 reach fired i sched j "[]"] assms by simp


text \<open>
  C31: the masters stay in step: a replica master whose file table and loads are those of the leader
  accepts every message of a completed request of the leader, and has the leader's file table and
  loads again afterwards.
\<close>

theorem replica_master_follows:
  assumes "run_leader stamp up env op st = Some (Inr (st', msgs))" and "m_isLeader st"
    and "same_tables rp st" and "\<not> m_isLeader rp" and "(a, msg) \<in> set msgs"
  shows "\<exists>rp'. deliver stamp' msg rp = Inr rp' \<and> same_tables rp' st'"
proof (cases op)
  case (NewFile_op req)
  then obtain res made where n: "NewFileChunk stamp up env req st = Some (Inr (res, st', msgs, made))"
    using assms(1) by (auto simp: bindR_Inr_iff)
  then have none: "m_files st (mq_Filename req) = None"
    using assms(2,5) by (auto simp: NewFileChunk_def split: if_splits)
  obtain loc rep sched where
    p: "place (fst env) (fst (snd env)) (snd (snd env)) 0 (m_schedule st) [] = Some (Inr (loc, rep, sched, made))"
    and st': "st' = master_log stamp (new_record (mq_Filename req) loc rep)
       (record_file (mq_Filename req) loc rep (st\<lparr>m_schedule := sched\<rparr>))"
    and msgs: "msgs = map (\<lambda>a. (a, NewFileChunkReplica_msg (replica_request req 0 False loc rep))) (peers st)"
    by (rule NewFileChunk_cases [OF n assms(2) none]) auto
  have "same_tables rp (st\<lparr>m_schedule := sched\<rparr>)"
    using assms(3) place_result [OF p] by (auto simp: same_tables_def same_nodes_def)
  then show ?thesis
    using assms(3,4,5) none
    by (auto simp: st' msgs NewFileChunkReplica_def NewFileChunkFunc_def replica_request_def same_tables_def
        intro!: same_tables_record_file [unfolded same_tables_def])
next
  case (Add_op req)
  then obtain res made where n: "AddChunk stamp up env req st = Some (Inr (res, st', msgs, made))"
    using assms(1) by (auto simp: bindR_Inr_iff)
  then have some: "m_files st (mq_Filename req) \<noteq> None"
    using assms(2,5) by (auto simp: AddChunk_def split: if_splits)
  obtain loc rep sched st1 where
    p: "place (fst env) (fst (snd env)) (snd (snd env)) 0 (m_schedule st) [] = Some (Inr (loc, rep, sched, made))"
    and rc: "record_chunk (mq_Filename req) (mq_Chunkindex req) loc rep (st\<lparr>m_schedule := sched\<rparr>) = Inr st1"
    and st': "st' = master_log stamp (add_record (mq_Filename req) (mq_Chunkindex req) loc rep) st1"
    and msgs: "set msgs \<subseteq> (\<lambda>a. (a, AddChunkReplica_msg (replica_request req (mq_Chunkindex req) True loc rep))) ` set (peers st')"
    by (rule AddChunk_cases [OF n assms(2) some])
  let ?rp = "master_log stamp' (add_record (mq_Filename req) (mq_Chunkindex req) loc rep) rp"
  have "same_tables ?rp (st\<lparr>m_schedule := sched\<rparr>)"
    using assms(3) place_result [OF p] by (auto simp: same_tables_def same_nodes_def)
  from same_tables_record_chunk [OF this rc] obtain rp' where
    "record_chunk (mq_Filename req) (mq_Chunkindex req) loc rep ?rp = Inr rp'" "same_tables rp' st1" by blast
  moreover have "msg = AddChunkReplica_msg (replica_request req (mq_Chunkindex req) True loc rep)"
    using msgs assms(5) by auto
  ultimately show ?thesis
    using assms(3,4) some
    by (auto simp: st' AddChunkReplica_def AddChunkFunc_def replica_request_def same_tables_def)
next
  case (Delete_op req)
  with assms show ?thesis
    by (auto simp: DeleteFileAndChunks_def Let_def bindR_Inr_iff DeleteFileAndChunksReplica_def same_tables_delete
        split: if_splits)
next
  case (Update_op req)
  with assms obtain st1 where "UpdateChunkVersionFunc stamp req (master_log stamp (update_record req) st) = Inr st1"
    "st' = st1" "msg = UpdateVersionReplica_msg req"
    by (auto simp: UpdateChunkVersion_def bindR_Inr_iff split: if_splits)
  moreover from same_tables_update [OF _ this(1), of "master_log stamp' (update_record req) rp" stamp'] assms(3)
  obtain rp' where "UpdateChunkVersionFunc stamp' req (master_log stamp' (update_record req) rp) = Inr rp'" "same_tables rp' st1"
    by auto
  ultimately show ?thesis using assms(4) by (simp add: UpdateChunkVersionReplica_def)
qed

text \<open>
  A chunk is served from the newest replica that is alive: with both replicas on known servers,
  the leader answers with a replica on an alive server whose version is at least that of the other one
  if the other one is alive too, together with exactly the alive servers; it stops when both are dead.
\<close>

theorem GetChunkLocation_newest_alive:
  assumes "m_isLeader st" and "m_files st (mq_Filename req) = Some sl" and "map_of sl (mq_Chunkindex req) = Some r"
    and "distinct (map NodeLocation (m_schedule st))"
    and "n1 \<in> set (m_schedule st)" "NodeLocation n1 = cm_Chunklocation (Chunk_1 r)"
    and "n2 \<in> set (m_schedule st)" "NodeLocation n2 = cm_Chunklocation (Chunk_2 r)"
  shows "(Alive n1 \<or> Alive n2 \<longrightarrow>
       (\<exists>res c n. GetChunkLocation req st = Inr res \<and> mr_Errornum res = 0 \<and>
          (c, n) \<in> {(Chunk_1 r, n1), (Chunk_2 r, n2)} \<and> Alive n \<and>
          mr_Chunkid res = cm_Chunkid c \<and> mr_Chunklocation res = NodeLocation n \<and>
          (Alive n1 \<longrightarrow> cm_Version (Chunk_1 r) \<le> cm_Version c) \<and> (Alive n2 \<longrightarrow> cm_Version (Chunk_2 r) \<le> cm_Version c) \<and>
          set (mr_AllServerLocation res) = NodeLocation ` {n \<in> set (m_schedule st). Alive n})) \<and>
     (\<not> Alive n1 \<and> \<not> Alive n2 \<longrightarrow> GetChunkLocation req st = Inl Fatal)"
proof -
  have alive: "node_alive (cm_Chunklocation (Chunk_1 r)) (m_schedule st) = Alive n1"
    "node_alive (cm_Chunklocation (Chunk_2 r)) (m_schedule st) = Alive n2"
    using node_alive_iff [OF assms(4,5,6)] node_alive_iff [OF assms(4,7,8)] by auto
  have ne: "m_schedule st \<noteq> []" using assms(5) by auto
  define pick where "pick = (if cm_Version (Chunk_2 r) \<le> cm_Version (Chunk_1 r)
      then (if Alive n1 then (Chunk_1 r, n1) else (Chunk_2 r, n2))
      else (if Alive n2 then (Chunk_2 r, n2) else (Chunk_1 r, n1)))"
  define res where "res = no_response\<lparr>mr_Chunkid := cm_Chunkid (fst pick), mr_Chunklocation := cm_Chunklocation (fst pick),
      mr_AllServerLocation := map NodeLocation (filter Alive (m_schedule st))\<rparr>"
  have get: "GetChunkLocation req st = (if \<not> Alive n1 \<and> \<not> Alive n2 then Inl Fatal else Inr res)"
    using assms(1-3) ne by (simp add: GetChunkLocation_def Let_def alive res_def pick_def)
  have pick: "pick \<in> {(Chunk_1 r, n1), (Chunk_2 r, n2)}" "cm_Chunklocation (fst pick) = NodeLocation (snd pick)"
    "Alive n1 \<or> Alive n2 \<Longrightarrow> Alive (snd pick)"
    "Alive n1 \<Longrightarrow> cm_Version (Chunk_1 r) \<le> cm_Version (fst pick)"
    "Alive n2 \<Longrightarrow> cm_Version (Chunk_2 r) \<le> cm_Version (fst pick)"
    using assms(6,8) by (auto simp: pick_def)
  show ?thesis
    using pick by (cases "Alive n1 \<or> Alive n2")
      (auto simp: get res_def no_response_def intro!: exI [of _ "fst pick"] exI [of _ "snd pick"])
qed

text \<open>
  Heartbeats decide who is alive: after a heartbeat a chunk server is alive and stays so as long
  as less than three seconds pass, and the first look at its timer after three seconds marks it dead;
  other servers are not affected.
\<close>

theorem heartbeat_liveness:
  assumes "m_isLeader st" and "\<And>m. m \<in> set (m_schedule st) \<Longrightarrow> m_timers st (NodeLocation m) \<noteq> None"
  shows "\<exists>st'. AcceptHeartbeat now loc st = Inr st' \<and>
    (\<exists>m\<in>set (m_schedule st'). NodeLocation m = loc) \<and>
    (\<forall>t. t < now + 3 \<longrightarrow> (\<forall>m\<in>set (m_schedule (timeup t loc st')). NodeLocation m = loc \<longrightarrow> Alive m)) \<and>
    (\<forall>t. now + 3 \<le> t \<longrightarrow> (\<forall>m\<in>set (m_schedule (timeup t loc st')). NodeLocation m = loc \<longrightarrow> \<not> Alive m)) \<and>
    (\<forall>t. filter (\<lambda>m. NodeLocation m \<noteq> loc) (m_schedule (timeup t loc st')) =
         filter (\<lambda>m. NodeLocation m \<noteq> loc) (m_schedule st))"
proof -
  define sched where "sched = (if loc \<in> NodeLocation ` set (m_schedule st) then set_alive True loc (m_schedule st)
      else m_schedule st @ [\<lparr>NodeLocation = loc, Alive = True, ChunkNum = 0\<rparr>])"
  have known: "(\<exists>m\<in>set (m_schedule st). NodeLocation m = loc) \<longleftrightarrow> loc \<in> NodeLocation ` set (m_schedule st)" by auto
  have "m_timers st loc \<noteq> None" if "loc \<in> NodeLocation ` set (m_schedule st)" using assms(2) that by auto
  then have hb: "AcceptHeartbeat now loc st = Inr (st\<lparr>m_schedule := sched, m_timers := (m_timers st)(loc \<mapsto> now + 3)\<rparr>)"
    using assms(1) by (auto simp: AcceptHeartbeat_def known sched_def heartbeat_timeout_def)
  have mem: "loc \<in> NodeLocation ` set sched"
    by (simp add: sched_def)
  have alive: "Alive m" if "m \<in> set sched" "NodeLocation m = loc" for m
  proof (cases "loc \<in> NodeLocation ` set (m_schedule st)")
    case True
    then show ?thesis using that Alive_set_alive [of m True loc "m_schedule st"] by (simp add: sched_def)
  next
    case False
    then have "m = \<lparr>NodeLocation = loc, Alive = True, ChunkNum = 0\<rparr>" using that by (auto simp: sched_def)
    then show ?thesis by (metis NodeMetadata.select_convs(2))
  qed
  have others: "filter (\<lambda>m. NodeLocation m \<noteq> loc) sched = filter (\<lambda>m. NodeLocation m \<noteq> loc) (m_schedule st)"
    by (simp add: sched_def)
  let ?st' = "st\<lparr>m_schedule := sched, m_timers := (m_timers st)(loc \<mapsto> now + 3)\<rparr>"
  have up: "m_schedule (timeup t loc ?st') = (if now + 3 \<le> t then set_alive False loc sched else sched)" for t
    by (simp add: timeup_def)
  show ?thesis
    using mem alive others Alive_set_alive [of _ False loc sched]
    by (intro exI [of _ ?st'] conjI) (auto simp: hb up)
qed

text \<open>
  The leader needs all masters: when another master cannot be dialled, creating a file ends the
  leader's process with a nil dereference, after the chunk was placed; adding a chunk skips the
  unreachable master instead.
\<close>

theorem NewFileChunk_needs_all_masters:
  assumes "m_isLeader st" and "m_files st (mq_Filename req) = None"
    and "place reach fired fuel 0 (m_schedule st) [] = Some (Inr (loc, rep, sched, made))"
    and "a \<in> set (peers st)" and "\<not> up a"
  shows "NewFileChunk stamp up (reach, fired, fuel) req st = Some (Inl Panic) \<and>
    (\<forall>req' sl. m_files st (mq_Filename req') = Some sl \<longrightarrow>
       (\<exists>res st' msgs. AddChunk stamp up (reach, fired, fuel) req' st = Some (Inr (res, st', msgs, made)) \<and>
          map fst msgs = filter up (peers st)))"
proof -
  have "peers (master_log stamp m (record_file f l r (st\<lparr>m_schedule := s\<rparr>))) = peers st" for m f l r s
    by (rule peers_cong) (simp add: record_file_def)
  then have "NewFileChunk stamp up (reach, fired, fuel) req st = Some (Inl Panic)"
    using assms by (auto simp: NewFileChunk_def NewFileChunkFunc_rpc_def Let_def list_all_iff)
  moreover have "peers (st\<lparr>m_schedule := s, m_files := F\<rparr>) = peers st" "peers (master_log stamp m st1) = peers st1" for m s F st1
    by (rule peers_cong, simp)+
  then have "\<exists>res st' msgs. AddChunk stamp up (reach, fired, fuel) req' st = Some (Inr (res, st', msgs, made)) \<and>
      map fst msgs = filter up (peers st)" if "m_files st (mq_Filename req') = Some sl" for req' sl
    using that assms(1,3) by (simp add: AddChunk_def AddChunkFunc_rpc_def record_chunk_def Let_def comp_def)
  ultimately show ?thesis by blast
qed

text \<open>
  A version report for a file the master does not know, as after a deletion, creates an entry for
  it with empty locations; from then on the file cannot be created any more.
\<close>

theorem version_report_resurrects_file:
  assumes "m_isLeader st" and "m_files st f = None" and "vq_Chunkid req = chunk_id f i" and "0 \<le> int_of_u64 i"
    and "list_all up (peers st)"
  shows "\<exists>st' msgs. UpdateChunkVersion stamp up req st = Inr (True, 0, st', msgs) \<and> m_files st' f \<noteq> None \<and>
    (\<forall>q. mq_Filename q = f \<longrightarrow> NewFileChunk stamp up env q st' = Some (Inr (error_response (- 1), st', [], [])))"
proof -
  let ?st = "master_log stamp (update_record req) st"
  have parse: "parse_chunkid (vq_Chunkid req) = Inr (f, i)"
    using parse_chunk_id [OF assms(4)] assms(3) by simp
  obtain st' where st': "UpdateChunkVersionFunc stamp req ?st = Inr st'" "m_files st' f \<noteq> None"
      "m_isLeader st' = m_isLeader st" "m_location st' = m_location st"
    using parse that
    by (cases "set_replica_version (vq_ServerLocation req) (vq_Version req) zero_replicas")
      (simp_all add: UpdateChunkVersionFunc_def Let_def assms(2))
  have "peers st' = peers st" by (rule peers_cong) (simp add: st'(4))
  with st' assms show ?thesis
    by (auto simp: UpdateChunkVersion_def NewFileChunk_def)
qed

text \<open>
  C33: a restarted master recovers its tables from the log: after any sequence of completed create,
  delete and version requests of a leader, with names free of the separators of the log format, a
  restart parses the log back to the same file table and the same loads.
\<close>

theorem boot_master_recovers:
  assumes "stamp_ok stamp" and "leader_reach stamp up (becomeLeader now (new_master loc)) st"
  shows "\<exists>t. boot_master st = Inr t \<and> same_tables t st"
proof -
  let ?t0 = "st\<lparr>m_isLeader := False, m_files := Map.empty, m_schedule := initial_schedule,
              m_timers := Map.empty, m_logging := False\<rparr>"
  have "clean_locations initial_schedule"
    by (simp add: clean_locations_def initial_schedule_def initial_nodes_def)
  then have "replays_to ?t0 (becomeLeader now (new_master loc))"
    unfolding replays_to_def
    by (intro conjI exI [of _ "[]"] exI [of _ ?t0])
      (simp_all add: becomeLeader_def new_master_def same_tables_def same_nodes_def)
  then have "replays_to ?t0 st" by (rule leader_reach_replays [OF assms(2,1)])
  then obtain ls t where "m_log st = concat (map terminated ls)" "\<forall>l\<in>set ls. newline \<notin> set l"
    "replay_lines recover_record (map terminated ls) ?t0 = Inr t" "same_tables t st"
    unfolding replays_to_def by blast
  then show ?thesis
    using read_lines_terminated [of ls] by (simp add: boot_master_def recover_master_def same_tables_def)
qed

text \<open>
  Recovery of an added chunk is wrong: the record of \<open>AddChunk\<close> is parsed with a position that is
  relative to the previous field, and the location of the first replica comes back as the file name.
\<close>

theorem recover_add_wrong_location:
  assumes "length d = 20" and "CHR ''/'' \<notin> set f" and "CHR ''>'' \<notin> set rep"
    and "length (Itoa (int_of_u64 i)) \<le> 8" and "m_files st f = Some sl"
  shows "\<exists>st'. recover_record (d @ add_record f i loc rep @ [newline]) st = Inr st' \<and>
    m_files st' = (m_files st)(f \<mapsto> AList.update i (new_replicas (chunk_id f i) f rep) sl)"
proof -
  have "recover_record (d @ add_record f i loc rep @ [newline]) st = record_chunk f i f rep st"
    using recover_record_line [of d "''AddAddChunk''" "drop 11 (add_record f i loc rep) @ [newline]" st]
      replay_add_record [OF assms(2,3,4), of loc st] assms(1) by (simp add: add_record_def)
  then show ?thesis using assms(5) by (simp add: record_chunk_def)
qed

section \<open>Witnesses\<close>

definition demo_time :: "nat \<Rightarrow> string" where
  "demo_time k = ''2021/07/01 12:00:00 ''"

definition demo_leader :: master where
  "demo_leader = becomeLeader 0 (new_master ''127.0.0.1:8095'')"

definition all_up :: "nat \<Rightarrow> string \<Rightarrow> bool" where
  "all_up k l = True"

definition none_dead :: "nat \<Rightarrow> string \<Rightarrow> bool" where
  "none_dead k l = False"

definition demo_mreq :: "string \<Rightarrow> u64 \<Rightarrow> ChunkMasterRequest" where
  "demo_mreq f i = \<lparr>mq_Filename = f, mq_Chunkindex = i, mq_Write = False, mq_Read = False, mq_ServerLocation = '''',
     mq_ReplicaLocation = '''', mq_Chunkid = '''', mq_Version = 0\<rparr>"

lemmas demo_defs = demo_leader_def becomeLeader_def new_master_def initial_schedule_def initial_nodes_def

lemma demo_time_ok: "stamp_ok demo_time"
  by (simp add: stamp_ok_def demo_time_def)

lemma demo_leader_simps [simp]: "m_isLeader demo_leader" "m_files demo_leader = Map.empty"
  "m_schedule demo_leader = initial_schedule" "m_location demo_leader = ''127.0.0.1:8095''"
  by (simp_all add: demo_defs)

lemma demo_place: "place all_up none_dead (Suc 0) 0 initial_schedule [] =
    Some (Inr (''127.0.0.1:8100'', ''127.0.0.1:8101'', initial_schedule, [''127.0.0.1:8100'', ''127.0.0.1:8101'']))"
  by (simp add: place.simps all_up_def none_dead_def initial_schedule_def initial_nodes_def mark_dead_def go_sort_by_def)

lemma demo_new:
  "\<exists>res st' msgs. NewFileChunk demo_time (\<lambda>_. True) (all_up, none_dead, Suc 0) (demo_mreq ''a'' 0) demo_leader =
     Some (Inr (res, st', msgs, [''127.0.0.1:8100'', ''127.0.0.1:8101'']))"
  by (simp add: NewFileChunk_def NewFileChunkFunc_rpc_def demo_mreq_def demo_place Let_def list_all_iff)

theorem NewFileChunk_placement_witness:
  "\<exists>res st' msgs. NewFileChunk demo_time (\<lambda>_. True) (all_up, none_dead, Suc 0) (demo_mreq ''a'' 0) demo_leader =
     Some (Inr (res, st', msgs, [''127.0.0.1:8100'', ''127.0.0.1:8101''])) \<and> m_files st' ''a'' \<noteq> None"
proof -
  obtain res st' msgs where n: "NewFileChunk demo_time (\<lambda>_. True) (all_up, none_dead, Suc 0) (demo_mreq ''a'' 0) demo_leader =
     Some (Inr (res, st', msgs, [''127.0.0.1:8100'', ''127.0.0.1:8101'']))" using demo_new by blast
  from NewFileChunk_placement [OF n] have "m_files st' ''a'' \<noteq> None"
    by (auto simp: demo_mreq_def initial_schedule_def initial_nodes_def)
  with n show ?thesis by blast
qed

theorem place_terminates_witness:
  "\<exists>loc rep sched' made. place (\<lambda>k l. l \<noteq> ''127.0.0.1:8100'') (\<lambda>k l. k = 2 \<and> l = ''127.0.0.1:8100'') 3 0
     initial_schedule [] = Some (Inr (loc, rep, sched', made))"
  by (rule place_terminates [of 2 _ _ _ 1 _ 2]) (auto simp: initial_schedule_def initial_nodes_def)


theorem replica_master_follows_witness:
  "\<exists>st' msgs a msg rp'. run_leader demo_time (\<lambda>_. True) (all_up, none_dead, Suc 0) (NewFile_op (demo_mreq ''a'' 0)) demo_leader =
     Some (Inr (st', msgs)) \<and> (a, msg) \<in> set msgs \<and>
     deliver demo_time msg (new_master ''127.0.0.1:8096'') = Inr rp' \<and> same_tables rp' st'"
proof -
  obtain st' msgs where r: "run_leader demo_time (\<lambda>_. True) (all_up, none_dead, Suc 0) (NewFile_op (demo_mreq ''a'' 0)) demo_leader =
     Some (Inr (st', msgs))" using demo_new by auto
  then have "msgs \<noteq> []"
    by (auto simp: NewFileChunk_def NewFileChunkFunc_rpc_def demo_mreq_def demo_place Let_def list_all_iff
        peers_def all_masters_def record_file_def Itoa_def nat_str.simps split: if_splits)
  then obtain a msg where m: "(a, msg) \<in> set msgs" by (cases msgs) auto
  have "same_tables (new_master ''127.0.0.1:8096'') demo_leader" "\<not> m_isLeader (new_master ''127.0.0.1:8096'')"
    by (simp_all add: same_tables_def same_nodes_def demo_defs)
  from replica_master_follows [OF r _ this m] r m show ?thesis by (metis demo_leader_simps(1))
qed

theorem GetChunkLocation_newest_alive_witness:
  "\<exists>res. GetChunkLocation (demo_mreq ''a'' 0)
     (demo_leader\<lparr>m_files := [''a'' \<mapsto> [(0, new_replicas ''a-0'' ''127.0.0.1:8100'' ''127.0.0.1:8101'')]],
        m_schedule := set_alive False ''127.0.0.1:8100'' initial_schedule\<rparr>) = Inr res \<and>
     mr_Chunklocation res = ''127.0.0.1:8101''"
  using GetChunkLocation_newest_alive [of "demo_leader\<lparr>m_files := [''a'' \<mapsto> [(0, new_replicas ''a-0'' ''127.0.0.1:8100'' ''127.0.0.1:8101'')]],
        m_schedule := set_alive False ''127.0.0.1:8100'' initial_schedule\<rparr>" "demo_mreq ''a'' 0"
      "[(0, new_replicas ''a-0'' ''127.0.0.1:8100'' ''127.0.0.1:8101'')]" "new_replicas ''a-0'' ''127.0.0.1:8100'' ''127.0.0.1:8101''"
      "\<lparr>NodeLocation = ''127.0.0.1:8100'', Alive = False, ChunkNum = 0\<rparr>"
      "\<lparr>NodeLocation = ''127.0.0.1:8101'', Alive = True, ChunkNum = 0\<rparr>"]
  by (auto simp: demo_mreq_def new_replicas_def set_alive_def initial_schedule_def initial_nodes_def)

theorem heartbeat_liveness_witness:
  "\<exists>st'. AcceptHeartbeat 5 ''127.0.0.1:8101'' demo_leader = Inr st' \<and>
     (\<exists>m\<in>set (m_schedule st'). NodeLocation m = ''127.0.0.1:8101'')"
proof -
  have "m_timers demo_leader (NodeLocation m) \<noteq> None" if "m \<in> set (m_schedule demo_leader)" for m
    using that by (auto simp: demo_defs)
  from heartbeat_liveness [OF demo_leader_simps(1) this, of 5 "''127.0.0.1:8101''"] show ?thesis by blast
qed

theorem NewFileChunk_needs_all_masters_witness:
  "NewFileChunk demo_time (\<lambda>a. a = ''127.0.0.1:8097'') (all_up, none_dead, Suc 0) (demo_mreq ''a'' 0) demo_leader = Some (Inl Panic)"
proof -
  have "''127.0.0.1:8096'' \<in> set (peers demo_leader)"
    by (simp add: peers_def all_masters_def Itoa_def nat_str.simps)
  from NewFileChunk_needs_all_masters [OF _ _ demo_place [folded demo_leader_simps(3)] this] show ?thesis
    by (simp add: demo_mreq_def)
qed

theorem version_report_resurrects_file_witness:
  "\<exists>st' msgs. UpdateChunkVersion demo_time (\<lambda>_. True)
      \<lparr>vq_ServerLocation = ''127.0.0.1:8100'', vq_Chunkid = chunk_id ''a'' 0, vq_Version = 1\<rparr> demo_leader =
      Inr (True, 0, st', msgs) \<and> m_files st' ''a'' \<noteq> None"
  using version_report_resurrects_file [of demo_leader "''a''"
      "\<lparr>vq_ServerLocation = ''127.0.0.1:8100'', vq_Chunkid = chunk_id ''a'' 0, vq_Version = 1\<rparr>" 0 "\<lambda>_. True" demo_time "(all_up, none_dead, Suc 0)"]
  by (auto simp: int_of_u64_def list_all_iff)

theorem boot_master_recovers_witness:
  "\<exists>st t. leader_reach demo_time (\<lambda>_. True) (becomeLeader 0 (new_master ''127.0.0.1:8095'')) st \<and>
     m_files st ''a'' \<noteq> None \<and> boot_master st = Inr t \<and> same_tables t st"
proof -
  obtain st' msgs where r: "run_leader demo_time (\<lambda>_. True) (all_up, none_dead, Suc 0) (NewFile_op (demo_mreq ''a'' 0)) demo_leader =
     Some (Inr (st', msgs))" using demo_new by auto
  then have f: "m_files st' ''a'' \<noteq> None"
    by (auto simp: NewFileChunk_def NewFileChunkFunc_rpc_def demo_mreq_def demo_place Let_def list_all_iff record_file_def)
  have reach: "leader_reach demo_time (\<lambda>_. True) (becomeLeader 0 (new_master ''127.0.0.1:8095'')) st'"
    by (rule leader_reach.step [OF leader_reach.start _ r [unfolded demo_leader_def]]) (simp add: demo_mreq_def)
  from boot_master_recovers [OF demo_time_ok reach] reach f show ?thesis by blast
qed

theorem recover_add_wrong_location_witness:
  "\<exists>st'. recover_record (demo_time 0 @ add_record ''a'' 1 ''127.0.0.1:8100'' ''127.0.0.1:8101'' @ [newline])
      (demo_leader\<lparr>m_files := [''a'' \<mapsto> []]\<rparr>) = Inr st' \<and>
     m_files st' = [''a'' \<mapsto> [(1, new_replicas (chunk_id ''a'' 1) ''a'' ''127.0.0.1:8101'')]]"
proof -
  have "length (Itoa (int_of_u64 1)) \<le> 8" by (simp add: int_of_u64_def Itoa_def nat_str.simps)
  then show ?thesis
    using recover_add_wrong_location [of "demo_time 0" "''a''" "''127.0.0.1:8101''" 1 "demo_leader\<lparr>m_files := [''a'' \<mapsto> []]\<rparr>" "[]"
      "''127.0.0.1:8100''"] by (simp add: demo_time_def)
qed

end
