(* ===== verification/GfsClient.thy ===== *)
theory GfsClient
  imports ChunkServer
begin

text \<open>
  The client library of the file system, \<open>src/gdocs-k-on/code/client/gfs_api.go\<close>: \<open>create\<close>, \<open>write\<close>,
  \<open>read\<close> and \<open>deletee\<close>, which split a byte range at chunk boundaries.

  The client talks to the leader and to the chunk servers only through the functions \<open>rpcToMaster...\<close>
  and \<open>rpcToNode...\<close>: they are the record \<open>gfs_ops\<close>, over the state of the system. The error of a result
  is the end of a process: a dial that fails leaves a nil connection, on which the call panics. The
  locks around the calls are the subject of the theory \<open>ZkLock\<close>.

  The locale \<open>chunk_store\<close> is the contract of these functions: where chunks are, what a write to a
  chunk changes and what a read returns. The behaviour of \<open>read\<close> and \<open>write\<close> on whole files is proved
  from it, and the theory \<open>Cluster\<close> proves that the master and the chunk servers satisfy it.

  Offsets inside a chunk and lengths are \<open>nat\<close>: they are at most the length of the data plus the size
  of a chunk, and do not reach \<open>2 ^ 64\<close>.
\<close>

record 's gfs_ops =
  op_newfile :: "string \<Rightarrow> 's \<Rightarrow> (int \<times> 's) result"
  op_locate :: "string \<Rightarrow> u64 \<Rightarrow> 's \<Rightarrow> ((string \<times> string \<times> int \<times> string list) \<times> 's) result"
  op_addchunk :: "string \<Rightarrow> u64 \<Rightarrow> 's \<Rightarrow> ((string \<times> string \<times> int) \<times> 's) result"
  op_write :: "string \<Rightarrow> ChunkRequest \<Rightarrow> 's \<Rightarrow> 's result"
  op_read :: "string \<Rightarrow> ChunkRequest \<Rightarrow> 's \<Rightarrow> (string \<times> 's) result"
  op_delete :: "string \<Rightarrow> 's \<Rightarrow> 's result"

section \<open>The client functions\<close>

definition create :: "'s gfs_ops \<Rightarrow> string \<Rightarrow> 's \<Rightarrow> (bool \<times> 's) result" where
  "create ops f st = bindR (op_newfile ops f st) (\<lambda>(errornum, st). Inr (errornum \<noteq> - 1 \<and> errornum \<noteq> - 4, st))"

definition deletee :: "'s gfs_ops \<Rightarrow> string \<Rightarrow> 's \<Rightarrow> 's result" where
  "deletee ops f st = op_delete ops f st"

definition rpcToNodeWriteChunk :: "'s gfs_ops \<Rightarrow> string \<Rightarrow> string \<Rightarrow> nat \<Rightarrow> string \<Rightarrow> string list \<Rightarrow> 's \<Rightarrow> 's result" where
  "rpcToNodeWriteChunk ops location chunkid chunkoffset data allServerLocation st =
     op_write ops location
       \<lparr>Chunkid = chunkid, Filename = '''', Bytebegin = of_nat chunkoffset,
        Byteend = of_nat chunkoffset + of_nat (length data) - 1, Data = data,
        AllServerLocation = allServerLocation, Index = 0\<rparr> st"

definition rpcToNodeReadChunk :: "'s gfs_ops \<Rightarrow> string \<Rightarrow> string \<Rightarrow> nat \<Rightarrow> nat \<Rightarrow> 's \<Rightarrow> (string \<times> 's) result" where
  "rpcToNodeReadChunk ops location chunkid chunkoffset sz st =
     op_read ops location
       \<lparr>Chunkid = chunkid, Filename = '''', Bytebegin = of_nat chunkoffset,
        Byteend = of_nat chunkoffset + of_nat sz, Data = '''', AllServerLocation = [], Index = 0\<rparr> st"

text \<open>One chunk of a write that crosses chunks: the chunk is added when the file does not have it.\<close>

definition write_piece :: "'s gfs_ops \<Rightarrow> string \<Rightarrow> nat \<Rightarrow> nat \<Rightarrow> string \<Rightarrow> 's \<Rightarrow> (bool \<times> 's) result" where
  "write_piece ops f chunk_index chunk_offset data st =
     bindR (op_locate ops f (of_nat chunk_index) st) (\<lambda>((location, chunkid, errornum, allServers), st).
       if errornum = - 2 then Inr (False, st)
       else bindR (if errornum = - 3 then op_addchunk ops f (of_nat chunk_index) st
                   else Inr ((location, chunkid, errornum), st)) (\<lambda>((location, chunkid, errornum), st).
         if errornum = - 2 then Inr (False, st)
         else bindR (rpcToNodeWriteChunk ops location chunkid chunk_offset data allServers st)
                (\<lambda>st. Inr (True, st))))"

text \<open>
  The loop of \<open>write\<close>: \<open>off\<close> is the position in the file, of which the code keeps the chunk index and
  the chunk offset, \<open>lastoffset\<close> the position in the data. The result says whether the loop ran to its
  end, and with which positions.
\<close>

lemma chunk_size_pos [simp]: "0 < chunk_size"
  by (simp add: chunk_size_def)

lemma mod_chunk_size_less [simp]: "off mod chunk_size < chunk_size"
  by simp

function write_loop ::
    "'s gfs_ops \<Rightarrow> string \<Rightarrow> string \<Rightarrow> nat \<Rightarrow> nat \<Rightarrow> 's \<Rightarrow> (bool \<times> nat \<times> nat \<times> 's) result" where
  "write_loop ops f data off lastoffset st =
     (let chunk_index = off div chunk_size; chunk_offset = off mod chunk_size;
          newsize = chunk_size - chunk_offset
      in if chunk_offset + (length data - lastoffset) \<ge> chunk_size
         then bindR (write_piece ops f chunk_index chunk_offset (take newsize (drop lastoffset data)) st) (\<lambda>(ok, st).
                if \<not> ok then Inr (False, off, lastoffset, st)
                else write_loop ops f data (off + newsize) (lastoffset + newsize) st)
         else Inr (True, off, lastoffset, st))"
  by pat_completeness auto

termination
proof (relation "measure (\<lambda>(ops, f, data, off, lastoffset, st). length data - lastoffset)")
  fix off lastoffset :: nat and data :: string and newsize chunk_index chunk_offset :: nat
  assume "chunk_offset = off mod chunk_size" "newsize = chunk_size - chunk_offset"
    "chunk_size \<le> chunk_offset + (length data - lastoffset)"
  moreover have "off mod chunk_size < chunk_size" by simp
  ultimately have "length data - (lastoffset + newsize) < length data - lastoffset" by linarith
  then show "((ops, f, data, off + newsize, lastoffset + newsize, y), ops, f, data, off, lastoffset, st) \<in>
      measure (\<lambda>(ops, f, data, off, lastoffset, st). length data - lastoffset)"
    for ops :: "'s gfs_ops" and f y st by simp
qed simp

declare write_loop.simps [simp del]

definition gfs_write :: "'s gfs_ops \<Rightarrow> string \<Rightarrow> u64 \<Rightarrow> string \<Rightarrow> 's \<Rightarrow> (bool \<times> 's) result" where
  "gfs_write ops f offset data st =
     (let off = unat offset; chunk_index = off div chunk_size; chunk_offset = off mod chunk_size
      in if chunk_offset + length data \<ge> chunk_size
         then bindR (write_loop ops f data off 0 st) (\<lambda>(ok, off, lastoffset, st).
                if \<not> ok then Inr (False, st)
                else if length data - lastoffset > 0
                then write_piece ops f (off div chunk_size) (off mod chunk_size) (drop lastoffset data) st
                else Inr (True, st))
         else bindR (op_locate ops f (of_nat chunk_index) st) (\<lambda>((location, chunkid, errornum, allServers), st).
                if errornum = - 2 then Inr (False, st)
                else bindR (rpcToNodeWriteChunk ops location chunkid chunk_offset data allServers st)
                       (\<lambda>st. Inr (True, st))))"

text \<open>
  The loop of \<open>read\<close>. The code computes \<open>lastsize\<close> as \<open>size - newsize\<close> in every turn. The number of turns
  is not bounded by the size, so the loop has fuel; \<open>None\<close> means that it is still running. The
  result has the data read so far, whether the function returns at once (the file does not exist),
  the position and \<open>lastsize\<close>. The test of the loop adds two 64-bit numbers.
\<close>

definition crosses :: "nat \<Rightarrow> nat \<Rightarrow> bool" where
  "crosses chunk_offset lastsize \<longleftrightarrow> chunk_size \<le> (chunk_offset + lastsize) mod 2 ^ 64"

fun read_loop ::
    "nat \<Rightarrow> 's gfs_ops \<Rightarrow> string \<Rightarrow> nat \<Rightarrow> nat \<Rightarrow> nat \<Rightarrow> string \<Rightarrow> 's \<Rightarrow> (bool \<times> string \<times> nat \<times> nat \<times> 's) result option" where
  "read_loop 0 ops f sz off lastsize data st = None"
| "read_loop (Suc fuel) ops f sz off lastsize data st =
     (let chunk_index = off div chunk_size; chunk_offset = off mod chunk_size
      in if crosses chunk_offset lastsize
         then let newsize = chunk_size - chunk_offset; lastsize = sz - newsize
              in case op_locate ops f (of_nat chunk_index) st of
                   Inl e \<Rightarrow> Some (Inl e)
                 | Inr ((location, chunkid, errornum, _), st) \<Rightarrow>
                     if errornum = - 2 then Some (Inr (True, '''', off, lastsize, st))
                     else if errornum = - 3 then Some (Inr (False, data, off, lastsize, st))
                     else (case rpcToNodeReadChunk ops location chunkid chunk_offset newsize st of
                             Inl e \<Rightarrow> Some (Inl e)
                           | Inr (tempdata, st) \<Rightarrow>
                               read_loop fuel ops f sz (off + newsize) lastsize (data @ tempdata) st)
         else Some (Inr (False, data, off, lastsize, st)))"

declare read_loop.simps [simp del]

definition read_tail ::
    "'s gfs_ops \<Rightarrow> string \<Rightarrow> bool \<times> string \<times> nat \<times> nat \<times> 's \<Rightarrow> (string \<times> 's) result" where
  "read_tail ops f r =
     (case r of (stop, data, off, lastsize, st) \<Rightarrow>
        if stop \<or> lastsize = 0 then Inr (data, st)
        else bindR (op_locate ops f (of_nat (off div chunk_size)) st) (\<lambda>((location, chunkid, errornum, _), st).
          if errornum = - 2 then Inr ('''', st)
          else if errornum = - 3 then Inr (data, st)
          else bindR (rpcToNodeReadChunk ops location chunkid (off mod chunk_size) lastsize st)
                 (\<lambda>(tempdata, st). Inr (data @ tempdata, st))))"

definition gfs_read :: "nat \<Rightarrow> 's gfs_ops \<Rightarrow> string \<Rightarrow> u64 \<Rightarrow> u64 \<Rightarrow> 's \<Rightarrow> (string \<times> 's) result option" where
  "gfs_read fuel ops f offset sz st =
     (let off = unat offset; chunk_index = off div chunk_size; chunk_offset = off mod chunk_size
      in if sz = 0 then Some (Inr ('''', st))
         else if crosses chunk_offset (unat sz)
         then map_option (\<lambda>r. bindR r (read_tail ops f)) (read_loop fuel ops f (unat sz) off (unat sz) '''' st)
         else Some (bindR (op_locate ops f (of_nat chunk_index) st) (\<lambda>((location, chunkid, errornum, _), st).
                if errornum = - 2 then Inr ('''', st)
                else rpcToNodeReadChunk ops location chunkid chunk_offset (unat sz) st)))"

section \<open>What a write makes of the bytes of a file\<close>

definition overwrite :: "nat \<Rightarrow> string \<Rightarrow> (nat \<Rightarrow> char) \<Rightarrow> nat \<Rightarrow> char" where
  "overwrite off s b = (\<lambda>i. if off \<le> i \<and> i < off + length s then s ! (i - off) else b i)"

text \<open>
  A file is its map from chunk numbers to chunks. Seen as one sequence of bytes, a write replaces a range; the
  other bytes of a chunk that the write adds are zero.
\<close>

definition file_bytes :: "(nat \<rightharpoonup> (nat \<Rightarrow> char)) \<Rightarrow> nat \<Rightarrow> char option" where
  "file_bytes C p = map_option (\<lambda>b. b (p mod chunk_size)) (C (p div chunk_size))"

definition bytes_written :: "nat \<Rightarrow> string \<Rightarrow> (nat \<Rightarrow> char option) \<Rightarrow> nat \<Rightarrow> char option" where
  "bytes_written off data F p =
     (if off \<le> p \<and> p < off + length data then Some (data ! (p - off))
      else if F p = None \<and> off div chunk_size \<le> p div chunk_size \<and>
              p div chunk_size \<le> (off + length data - 1) div chunk_size then Some (CHR 0x00)
      else F p)"

lemma bytes_written_append:
  assumes "d1 \<noteq> []" "d2 \<noteq> []"
  shows "bytes_written (off + length d1) d2 (bytes_written off d1 F) = bytes_written off (d1 @ d2) F"
proof
  fix p
  have len: "0 < length d1" "0 < length d2" using assms by simp_all
  have m: "off div chunk_size \<le> (off + length d1 - 1) div chunk_size"
    "(off + length d1 - 1) div chunk_size \<le> (off + length d1) div chunk_size"
    "(off + length d1) div chunk_size \<le> (off + length d1 + length d2 - 1) div chunk_size"
    using len by - (rule div_le_mono, linarith)+
  have s: "(off + length d1) div chunk_size \<le> Suc ((off + length d1 - 1) div chunk_size)"
    using len by (metis Suc_diff_1 Suc_leD add_gr_0 div_Suc le_eq_less_or_eq lessI less_or_eq_imp_le)
  consider "off \<le> p \<and> p < off + length d1" | "off + length d1 \<le> p \<and> p < off + length d1 + length d2"
    | "p < off \<or> off + length d1 + length d2 \<le> p" by linarith
  then show "bytes_written (off + length d1) d2 (bytes_written off d1 F) p = bytes_written off (d1 @ d2) F p"
  proof cases
    case 3
    then show ?thesis using m s by (auto simp: bytes_written_def add.assoc)
  qed (auto simp: bytes_written_def nth_append)
qed

lemma bytes_written_read:
  "off \<le> a \<Longrightarrow> a + n \<le> off + length data \<Longrightarrow>
     map (\<lambda>p. the (bytes_written off data F p)) [a..<a + n] = take n (drop (a - off) data)"
  by (intro nth_equalityI) (auto simp: bytes_written_def)

text \<open>One chunk overwritten, or added and overwritten, seen as bytes of the file.\<close>

lemma chunk_pos: "co < chunk_size \<Longrightarrow> (i * chunk_size + co) div chunk_size = i"
  "co < chunk_size \<Longrightarrow> (i * chunk_size + co) mod chunk_size = co"
  by (simp_all add: div_mult_self1_is_m add.commute)

lemma pos_chunk: "p div chunk_size = i \<Longrightarrow> p = i * chunk_size + p mod chunk_size"
  by (metis div_mult_mod_eq)

lemma file_bytes_overwrite:
  assumes "data \<noteq> []" "co + length data \<le> chunk_size" "b0 = (case C i of None \<Rightarrow> \<lambda>_. CHR 0x00 | Some b \<Rightarrow> b)"
  shows "file_bytes (C(i \<mapsto> overwrite co data b0)) = bytes_written (i * chunk_size + co) data (file_bytes C)"
proof
  fix p
  have len: "0 < length data" "co < chunk_size" "co + length data - 1 < chunk_size"
  proof -
    show "0 < length data" using assms(1) by simp
    then show "co < chunk_size" "co + length data - 1 < chunk_size" using assms(2) by linarith+
  qed
  have div: "(i * chunk_size + co) div chunk_size = i" "(i * chunk_size + co + length data - 1) div chunk_size = i"
    using chunk_pos(1) [of co i] chunk_pos(1) [of "co + length data - 1" i] len by (simp_all add: add.assoc)
  show "file_bytes (C(i \<mapsto> overwrite co data b0)) p = bytes_written (i * chunk_size + co) data (file_bytes C) p"
  proof (cases "p div chunk_size = i")
    case True
    from pos_chunk [OF this] obtain j where p: "p = i * chunk_size + j" "p mod chunk_size = j" by blast
    show ?thesis
      using True assms(3) div p by (auto simp: file_bytes_def bytes_written_def overwrite_def split: option.splits)
  next
    case False
    have "\<not> (i * chunk_size + co \<le> p \<and> p < i * chunk_size + co + length data)"
    proof
      assume "i * chunk_size + co \<le> p \<and> p < i * chunk_size + co + length data"
      then have "(i * chunk_size + co) div chunk_size \<le> p div chunk_size"
        "p div chunk_size \<le> (i * chunk_size + co + length data - 1) div chunk_size"
        by - (rule div_le_mono, linarith)+
      with div False show False by simp
    qed
    moreover have "\<not> (i \<le> p div chunk_size \<and> p div chunk_size \<le> i)" using False by simp
    ultimately show ?thesis using False div by (auto simp: file_bytes_def bytes_written_def)
  qed
qed

section \<open>The contract of the master and the chunk servers\<close>

text \<open>
  \<open>content st (f, i)\<close> is the chunk \<open>i\<close> of the file \<open>f\<close>; \<open>handle\<close> relates a chunk to the location, the id and the
  server list with which the client may address it.
\<close>

locale chunk_store =
  fixes ops :: "'s gfs_ops" and inv :: "'s \<Rightarrow> bool" and good_name :: "string \<Rightarrow> bool"
    and has_file :: "'s \<Rightarrow> string \<Rightarrow> bool" and content :: "'s \<Rightarrow> string \<times> nat \<rightharpoonup> (nat \<Rightarrow> char)"
    and handle :: "'s \<Rightarrow> string \<times> nat \<Rightarrow> string \<Rightarrow> string \<Rightarrow> string list \<Rightarrow> bool"
  assumes content_file: "inv st \<Longrightarrow> content st (f, i) = Some b \<Longrightarrow> has_file st f"
    and new_file: "inv st \<Longrightarrow> \<not> has_file st f \<Longrightarrow> good_name f \<Longrightarrow> \<exists>st'. op_newfile ops f st = Inr (0, st') \<and> inv st' \<and>
      has_file st' = (has_file st)(f := True) \<and> content st' = (content st)((f, 0) \<mapsto> \<lambda>_. CHR 0x00)"
    and old_file: "inv st \<Longrightarrow> has_file st f \<Longrightarrow> op_newfile ops f st = Inr (- 1, st)"
    and locate_none: "inv st \<Longrightarrow> \<not> has_file st f \<Longrightarrow> op_locate ops f k st = Inr (('''', '''', - 2, []), st)"
    and locate_missing: "inv st \<Longrightarrow> has_file st f \<Longrightarrow> content st (f, i) = None \<Longrightarrow> i < 2 ^ 63 \<Longrightarrow>
      op_locate ops f (of_nat i) st = Inr (('''', '''', - 3, []), st)"
    and locate_chunk: "inv st \<Longrightarrow> content st (f, i) = Some b \<Longrightarrow>
      \<exists>loc cid all. op_locate ops f (of_nat i) st = Inr ((loc, cid, 0, all), st) \<and> handle st (f, i) loc cid all"
    and add_chunk: "inv st \<Longrightarrow> has_file st f \<Longrightarrow> content st (f, i) = None \<Longrightarrow> i < 2 ^ 63 \<Longrightarrow>
      \<exists>loc cid st'. op_addchunk ops f (of_nat i) st = Inr ((loc, cid, 0), st') \<and> inv st' \<and> handle st' (f, i) loc cid [] \<and>
        has_file st' = has_file st \<and> content st' = (content st)((f, i) \<mapsto> \<lambda>_. CHR 0x00)"
    and write_chunk: "inv st \<Longrightarrow> handle st (f, i) loc cid all \<Longrightarrow> content st (f, i) = Some b \<Longrightarrow> data \<noteq> [] \<Longrightarrow>
      co + length data \<le> chunk_size \<Longrightarrow>
      \<exists>st'. rpcToNodeWriteChunk ops loc cid co data all st = Inr st' \<and> inv st' \<and> has_file st' = has_file st \<and>
        content st' = (content st)((f, i) \<mapsto> overwrite co data b)"
    and read_chunk: "inv st \<Longrightarrow> handle st (f, i) loc cid all \<Longrightarrow> content st (f, i) = Some b \<Longrightarrow>
      co + n \<le> chunk_size \<Longrightarrow> rpcToNodeReadChunk ops loc cid co n st = Inr (map b [co..<co + n], st)"
    and no_server: "inv st \<Longrightarrow> op_write ops '''' req st = Inl Panic"
    and delete_file: "inv st \<Longrightarrow> \<exists>st'. op_delete ops f st = Inr st' \<and> inv st' \<and> has_file st' = (has_file st)(f := False) \<and>
      content st' = (\<lambda>(g, i). if g = f then None else content st (g, i))"
begin

definition bytes :: "'s \<Rightarrow> string \<Rightarrow> nat \<Rightarrow> char option" where
  "bytes st f = file_bytes (\<lambda>i. content st (f, i))"

definition stores :: "'s \<Rightarrow> string \<Rightarrow> nat \<Rightarrow> string \<Rightarrow> 's \<Rightarrow> bool" where
  "stores st f off data st' \<longleftrightarrow> inv st' \<and> has_file st' = has_file st \<and>
     bytes st' f = bytes_written off data (bytes st f) \<and> (\<forall>g. g \<noteq> f \<longrightarrow> bytes st' g = bytes st g)"

lemma stores_append:
  assumes "stores st f off d1 st1" "stores st1 f (off + length d1) d2 st2" "d1 \<noteq> []" "d2 \<noteq> []"
  shows "stores st f off (d1 @ d2) st2"
  using assms(1,2) bytes_written_append [OF assms(3,4)] by (simp add: stores_def)

lemma content_bytes: "content st' = (content st)((f, i) \<mapsto> c) \<Longrightarrow>
    bytes st' f = file_bytes ((\<lambda>j. content st (f, j))(i \<mapsto> c)) \<and> (\<forall>g. g \<noteq> f \<longrightarrow> bytes st' g = bytes st g)"
  by (auto simp: bytes_def fun_upd_def intro!: arg_cong [of _ _ file_bytes])

lemma write_piece_ok:
  assumes "inv st" "has_file st f" "i < 2 ^ 63" "data \<noteq> []" "co + length data \<le> chunk_size"
  shows "\<exists>st'. write_piece ops f i co data st = Inr (True, st') \<and> stores st f (i * chunk_size + co) data st'"
proof (cases "content st (f, i)")
  case None
  obtain loc cid st1 where add: "op_addchunk ops f (of_nat i) st = Inr ((loc, cid, 0), st1)" and st1: "inv st1"
    "handle st1 (f, i) loc cid []" "has_file st1 = has_file st" "content st1 = (content st)((f, i) \<mapsto> \<lambda>_. CHR 0x00)"
    using add_chunk [OF assms(1,2) None assms(3)] by blast
  obtain st' where wrt: "rpcToNodeWriteChunk ops loc cid co data [] st1 = Inr st'" and st': "inv st'"
    "has_file st' = has_file st1" "content st' = (content st1)((f, i) \<mapsto> overwrite co data (\<lambda>_. CHR 0x00))"
    using write_chunk [OF st1(1,2) _ assms(4,5), of "\<lambda>_. CHR 0x00"] st1(4) by auto
  have "content st' = (content st)((f, i) \<mapsto> overwrite co data (\<lambda>_. CHR 0x00))" using st'(3) st1(4) by simp
  from content_bytes [OF this] have "stores st f (i * chunk_size + co) data st'"
    using st'(1,2) st1(3) file_bytes_overwrite [OF assms(4,5), of "\<lambda>_. CHR 0x00" "\<lambda>j. content st (f, j)" i] None
    by (simp add: stores_def bytes_def)
  then show ?thesis
    using add wrt locate_missing [OF assms(1,2) None assms(3)] by (simp add: write_piece_def)
next
  case (Some b)
  obtain loc cid all where loc: "op_locate ops f (of_nat i) st = Inr ((loc, cid, 0, all), st)" "handle st (f, i) loc cid all"
    using locate_chunk [OF assms(1) Some] by blast
  obtain st' where wrt: "rpcToNodeWriteChunk ops loc cid co data all st = Inr st'" and st': "inv st'"
    "has_file st' = has_file st" "content st' = (content st)((f, i) \<mapsto> overwrite co data b)"
    using write_chunk [OF assms(1) loc(2) Some assms(4,5)] by blast
  from content_bytes [OF st'(3)] have "stores st f (i * chunk_size + co) data st'"
    using st'(1,2) file_bytes_overwrite [OF assms(4,5), of b "\<lambda>j. content st (f, j)" i] Some
    by (simp add: stores_def bytes_def)
  then show ?thesis using loc(1) wrt by (simp add: write_piece_def)
qed

lemma write_loop_ok:
  assumes "lo \<le> length data" "inv st" "has_file st f" "off + (length data - lo) < 2 ^ 63"
  shows "\<exists>lo' st'. write_loop ops f data off lo st = Inr (True, off + (lo' - lo), lo', st') \<and> lo \<le> lo' \<and> lo' \<le> length data \<and>
     (off + (lo' - lo)) mod chunk_size + (length data - lo') < chunk_size \<and>
     (lo' = lo \<and> st' = st \<or> lo < lo' \<and> stores st f off (take (lo' - lo) (drop lo data)) st')"
  using assms
proof (induction "length data - lo" arbitrary: lo off st rule: less_induct)
  case less
  show ?case
  proof (cases "chunk_size \<le> off mod chunk_size + (length data - lo)")
    case False
    then show ?thesis using less.prems by (intro exI [of _ lo] exI [of _ st]) (simp add: write_loop.simps [of ops f data off lo] Let_def)
  next
    case True
    define n where "n = chunk_size - off mod chunk_size"
    have m: "off mod chunk_size < chunk_size" by simp
    have n: "0 < n" "n \<le> length data - lo" using True m unfolding n_def by linarith+
    let ?d = "take n (drop lo data)"
    have d: "?d \<noteq> []" "length ?d = n" using n less.prems(1) by auto
    have "off div chunk_size \<le> off" by simp
    then have "off div chunk_size < 2 ^ 63" using less.prems(4) by linarith
    moreover have "off mod chunk_size + length ?d \<le> chunk_size" using d(2) m unfolding n_def by simp
    ultimately obtain st1 where st1: "write_piece ops f (off div chunk_size) (off mod chunk_size) ?d st = Inr (True, st1)"
      "stores st f off ?d st1"
      using write_piece_ok [OF less.prems(2,3) _ d(1)] by fastforce
    have inv1: "inv st1" "has_file st1 f" using st1(2) less.prems(3) by (simp_all add: stores_def)
    have "length data - (lo + n) < length data - lo" "lo + n \<le> length data"
      "off + n + (length data - (lo + n)) < 2 ^ 63" using n less.prems(1,4) by auto
    from less.hyps [OF this(1,2) inv1 this(3)] obtain lo' st' where
      rec: "write_loop ops f data (off + n) (lo + n) st1 = Inr (True, off + n + (lo' - (lo + n)), lo', st')"
      and lo': "lo + n \<le> lo'" "lo' \<le> length data" "(off + n + (lo' - (lo + n))) mod chunk_size + (length data - lo') < chunk_size"
      and fin: "lo' = lo + n \<and> st' = st1 \<or> lo + n < lo' \<and> stores st1 f (off + n) (take (lo' - (lo + n)) (drop (lo + n) data)) st'"
      by blast
    have eq: "off + n + (lo' - (lo + n)) = off + (lo' - lo)" using lo'(1) by simp
    have "stores st f off (take (lo' - lo) (drop lo data)) st'"
    proof (cases "lo' = lo + n")
      case True
      then show ?thesis using fin st1(2) by simp
    next
      case False
      then have "stores st1 f (off + length ?d) (take (lo' - (lo + n)) (drop (lo + n) data)) st'" using fin d(2) by simp
      moreover have "take (lo' - (lo + n)) (drop (lo + n) data) \<noteq> []" using False lo'(1,2) by simp
      moreover have "?d @ take (lo' - (lo + n)) (drop (lo + n) data) = take (lo' - lo) (drop lo data)"
        using take_add [of n "lo' - (lo + n)" "drop lo data"] lo'(1) by (simp add: add.commute)
      ultimately show ?thesis using stores_append [OF st1(2) _ d(1)] by metis
    qed
    moreover have "write_loop ops f data off lo st = write_loop ops f data (off + n) (lo + n) st1"
      using True st1(1) by (subst write_loop.simps) (simp add: Let_def n_def)
    ultimately show ?thesis using rec eq lo' n(1) by (intro exI [of _ lo'] exI [of _ st']) auto
  qed
qed

end

context chunk_store
begin

lemma write_ok:
  assumes "inv st" "has_file st f" "data \<noteq> []" "unat offset + length data < 2 ^ 63"
    and small: "unat offset mod chunk_size + length data < chunk_size \<Longrightarrow> content st (f, unat offset div chunk_size) \<noteq> None"
  shows "\<exists>st'. gfs_write ops f offset data st = Inr (True, st') \<and> stores st f (unat offset) data st'"
proof (cases "chunk_size \<le> unat offset mod chunk_size + length data")
  case True
  have bound: "unat offset + (length data - 0) < 2 ^ 63" using assms(4) by simp
  from write_loop_ok [OF le0 assms(1,2) bound] obtain lo st1 where
    loop: "write_loop ops f data (unat offset) 0 st = Inr (True, unat offset + lo, lo, st1)"
    and lo: "lo \<le> length data" "(unat offset + lo) mod chunk_size + (length data - lo) < chunk_size"
    and fin: "lo = 0 \<and> st1 = st \<or> 0 < lo \<and> stores st f (unat offset) (take lo data) st1"
    by auto
  have "lo \<noteq> 0" using lo(2) True by (intro notI) simp
  with fin have st1: "stores st f (unat offset) (take lo data) st1" and ne: "take lo data \<noteq> []" using assms(3) by auto
  show ?thesis
  proof (cases "lo = length data")
    case True
    then show ?thesis using loop st1 \<open>chunk_size \<le> _\<close> by (simp add: gfs_write_def Let_def)
  next
    case False
    let ?off = "unat offset + lo"
    have rest: "drop lo data \<noteq> []" "length (drop lo data) = length data - lo" using False lo(1) by auto
    have "inv st1" "has_file st1 f" using st1 assms(2) by (simp_all add: stores_def)
    moreover have "?off div chunk_size \<le> ?off" by simp
    then have "?off div chunk_size < 2 ^ 63" using assms(4) lo(1) by linarith
    ultimately obtain st' where st': "write_piece ops f (?off div chunk_size) (?off mod chunk_size) (drop lo data) st1 = Inr (True, st')"
      "stores st1 f ?off (drop lo data) st'"
      using write_piece_ok [of st1 f "?off div chunk_size" "drop lo data" "?off mod chunk_size"] rest lo(2) by auto
    have "stores st f (unat offset) (take lo data @ drop lo data) st'"
      by (rule stores_append [OF st1]) (use st'(2) ne rest lo(1) in \<open>simp_all add: min_def\<close>)
    then show ?thesis using loop st'(1) False lo(1) \<open>chunk_size \<le> _\<close> by (simp add: gfs_write_def Let_def)
  qed
next
  case False
  then obtain b where b: "content st (f, unat offset div chunk_size) = Some b" using small by fastforce
  obtain loc cid all where loc: "op_locate ops f (of_nat (unat offset div chunk_size)) st = Inr ((loc, cid, 0, all), st)"
    "handle st (f, unat offset div chunk_size) loc cid all"
    using locate_chunk [OF assms(1) b] by blast
  obtain st' where wrt: "write_piece ops f (unat offset div chunk_size) (unat offset mod chunk_size) data st = Inr (True, st')"
    "stores st f (unat offset) data st'"
    using write_piece_ok [of st f "unat offset div chunk_size" data "unat offset mod chunk_size"] assms(1-4) False
    by (auto simp: le_less_trans [OF div_le_dividend])
  have "bindR (rpcToNodeWriteChunk ops loc cid (unat offset mod chunk_size) data all st) (\<lambda>st. Inr (True, st)) = Inr (True, st')"
    using wrt(1) loc(1) by (simp add: write_piece_def)
  then show ?thesis using wrt(2) False loc(1) by (simp add: gfs_write_def Let_def)
qed

lemma write_no_file: "inv st \<Longrightarrow> \<not> has_file st f \<Longrightarrow> gfs_write ops f offset data st = Inr (False, st)"
  by (simp add: gfs_write_def write_loop.simps write_piece_def locate_none Let_def)

lemma small_write_missing_chunk:
  assumes "inv st" "has_file st f" "content st (f, unat offset div chunk_size) = None"
    "unat offset mod chunk_size + length data < chunk_size"
  shows "gfs_write ops f offset data st = Inl Panic"
proof -
  have "unat offset div chunk_size \<le> unat offset" by simp
  moreover have "unat offset div chunk_size < 2 ^ 63"
    using unsigned_less [of offset, where 'a = nat] by (simp add: chunk_size_def div_less_iff_less_mult)
  ultimately show ?thesis
    using assms(4) locate_missing [OF assms(1-3)] by (simp add: gfs_write_def rpcToNodeWriteChunk_def no_server [OF assms(1)] Let_def)
qed

text \<open>Reading inside one chunk.\<close>

lemma bytes_in_chunk:
  assumes "content st (f, i) = Some b" "co + n \<le> chunk_size" "off = i * chunk_size + co"
  shows "map b [co..<co + n] = map (\<lambda>p. the (bytes st f p)) [off..<off + n]"
proof (rule nth_equalityI)
  fix k assume "k < length (map b [co..<co + n])"
  then have "co + k < chunk_size" using assms(2) by simp
  from chunk_pos [OF this, of i] show "map b [co..<co + n] ! k = map (\<lambda>p. the (bytes st f p)) [off..<off + n] ! k"
    using \<open>k < _\<close> assms(1,3) by (simp add: bytes_def file_bytes_def add.assoc)
qed simp

lemma locate_read:
  assumes "inv st" "content st (f, off div chunk_size) = Some b" "off mod chunk_size + n \<le> chunk_size"
  obtains loc cid all where "op_locate ops f (of_nat (off div chunk_size)) st = Inr ((loc, cid, 0, all), st)"
    "rpcToNodeReadChunk ops loc cid (off mod chunk_size) n st = Inr (map (\<lambda>p. the (bytes st f p)) [off..<off + n], st)"
proof -
  obtain loc cid all where loc: "op_locate ops f (of_nat (off div chunk_size)) st = Inr ((loc, cid, 0, all), st)"
    "handle st (f, off div chunk_size) loc cid all"
    using locate_chunk [OF assms(1,2)] by blast
  show ?thesis
    using that [OF loc(1)] read_chunk [OF assms(1) loc(2) assms(2,3)]
      bytes_in_chunk [OF assms(2,3), of off] by (simp add: div_mult_mod_eq)
qed

lemma upt_append: "a \<le> b \<Longrightarrow> b \<le> c \<Longrightarrow> map g [a..<b] @ map g [b..<c] = map g [a..<c]"
  by (metis le_add_diff_inverse map_append upt_add_eq_append)

text \<open>One turn of the loop.\<close>

lemma read_loop_turn:
  assumes "inv st" "content st (f, off div chunk_size) = Some b" "crosses (off mod chunk_size) lastsize"
  shows "read_loop (Suc fuel) ops f sz off lastsize data st =
    (let n = chunk_size - off mod chunk_size
     in read_loop fuel ops f sz (off + n) (sz - n) (data @ map (\<lambda>p. the (bytes st f p)) [off..<off + n]) st)"
proof -
  have "off mod chunk_size + (chunk_size - off mod chunk_size) \<le> chunk_size"
    using mod_chunk_size_less [of off] by linarith
  from locate_read [OF assms(1,2) this] obtain loc cid all where
    "op_locate ops f (of_nat (off div chunk_size)) st = Inr ((loc, cid, 0, all), st)"
    "rpcToNodeReadChunk ops loc cid (off mod chunk_size) (chunk_size - off mod chunk_size) st =
       Inr (map (\<lambda>p. the (bytes st f p)) [off..<off + (chunk_size - off mod chunk_size)], st)" .
  then show ?thesis using assms(3) by (simp add: read_loop.simps(2) Let_def)
qed

lemma read_tail_ok:
  assumes "inv st" "content st (f, off div chunk_size) = Some b" "off mod chunk_size + lastsize \<le> chunk_size"
  shows "read_tail ops f (False, data, off, lastsize, st) =
    Inr (data @ map (\<lambda>p. the (bytes st f p)) [off..<off + lastsize], st)"
proof -
  from locate_read [OF assms] obtain loc cid all where
    "op_locate ops f (of_nat (off div chunk_size)) st = Inr ((loc, cid, 0, all), st)"
    "rpcToNodeReadChunk ops loc cid (off mod chunk_size) lastsize st =
       Inr (map (\<lambda>p. the (bytes st f p)) [off..<off + lastsize], st)" .
  then show ?thesis by (simp add: read_tail_def)
qed

lemma next_chunk: "off + (chunk_size - off mod chunk_size) = Suc (off div chunk_size) * chunk_size"
  using div_mult_mod_eq [of off chunk_size] mod_chunk_size_less [of off] by (simp only: mult_Suc)

lemma read_ok:
  assumes "inv st" "unat offset mod chunk_size + unat sz < 2 * chunk_size" "1 < fuel"
    and ex: "\<And>p. unat offset \<le> p \<Longrightarrow> p < unat offset + unat sz \<Longrightarrow> bytes st f p \<noteq> None"
  shows "gfs_read fuel ops f offset sz st =
    Some (Inr (map (\<lambda>p. the (bytes st f p)) [unat offset..<unat offset + unat sz], st))"
proof -
  define off where "off = unat offset"
  have chunk: "content st (f, p div chunk_size) \<noteq> None" if "off \<le> p" "p < off + unat sz" for p
    using ex [of p] that by (auto simp: off_def bytes_def file_bytes_def)
  have m: "(off mod chunk_size + unat sz) mod 2 ^ 64 = off mod chunk_size + unat sz"
    using assms(2) by (simp add: off_def chunk_size_def)
  consider "sz = 0" | "0 < unat sz" "off mod chunk_size + unat sz < chunk_size"
    | "chunk_size \<le> off mod chunk_size + unat sz" "0 < unat sz"
    by (metis gr0I not_less unat_eq_zero)
  then show ?thesis
  proof cases
    case 2
    then obtain b where b: "content st (f, off div chunk_size) = Some b" using chunk [of off] by auto
    have "off mod chunk_size + unat sz \<le> chunk_size" using 2 by simp
    from locate_read [OF assms(1) b this] obtain loc cid all where
      "op_locate ops f (of_nat (off div chunk_size)) st = Inr ((loc, cid, 0, all), st)"
      "rpcToNodeReadChunk ops loc cid (off mod chunk_size) (unat sz) st =
         Inr (map (\<lambda>p. the (bytes st f p)) [off..<off + unat sz], st)" .
    then show ?thesis using 2 m by (simp add: gfs_read_def crosses_def off_def [symmetric] Let_def unat_eq_zero)
  next
    case 3
    define n where "n = chunk_size - off mod chunk_size"
    have n: "n \<le> unat sz" "unat sz - n < chunk_size"
      using 3 assms(2) mod_chunk_size_less [of off] unfolding n_def off_def by linarith+
    obtain b where b: "content st (f, off div chunk_size) = Some b" using chunk [of off] 3 by auto
    obtain k where k: "fuel = Suc (Suc k)" using assms(3) less_iff_Suc_add [of 1 fuel] by auto
    have next0: "(off + n) mod chunk_size = 0" using next_chunk [of off] by (simp add: n_def)
    have "\<not> crosses ((off + n) mod chunk_size) (unat sz - n)"
      using n(2) next0 by (simp add: crosses_def chunk_size_def)
    then have loop: "read_loop fuel ops f (unat sz) off (unat sz) [] st =
        Some (Inr (False, map (\<lambda>p. the (bytes st f p)) [off..<off + n], off + n, unat sz - n, st))"
      using read_loop_turn [OF assms(1) b, of "unat sz" "Suc k" "unat sz" "[]"] 3 m k
      by (simp add: crosses_def n_def [symmetric] read_loop.simps Let_def)
    have tail: "read_tail ops f (False, data, off + n, unat sz - n, st) =
        Inr (data @ map (\<lambda>p. the (bytes st f p)) [off + n..<off + unat sz], st)" for data
    proof (cases "unat sz = n")
      case True
      then show ?thesis by (simp add: read_tail_def)
    next
      case False
      then obtain b' where "content st (f, (off + n) div chunk_size) = Some b'" using chunk [of "off + n"] n(1) by auto
      from read_tail_ok [OF assms(1) this] show ?thesis using n next0 by simp
    qed
    show ?thesis
      using 3 loop m n(1) by (simp add: gfs_read_def crosses_def off_def [symmetric] tail upt_append Let_def unat_eq_zero)
  qed (simp add: gfs_read_def)
qed

end

lemma crossesI: "chunk_size \<le> co + l \<Longrightarrow> co < chunk_size \<Longrightarrow> l < 2 ^ 64 - chunk_size \<Longrightarrow> crosses co l"
proof -
  assume "chunk_size \<le> co + l" "co < chunk_size" "l < 2 ^ 64 - chunk_size"
  then have "(co + l) mod 2 ^ 64 = co + l" by (intro mod_less) linarith
  with \<open>chunk_size \<le> co + l\<close> show ?thesis by (simp add: crosses_def)
qed

context chunk_store
begin

text \<open>
  From the second turn on \<open>lastsize\<close> is \<open>size - chunk_size\<close>: for two chunks or more it never falls below a chunk
  and the loop runs until the file has no further chunk.
\<close>

lemma read_loop_to_end:
  assumes "inv st" "has_file st f" "2 * chunk_size \<le> sz" "sz < 2 ^ 64 - chunk_size" "off div chunk_size + k < 2 ^ 63"
    and "\<And>i. i < k \<Longrightarrow> content st (f, off div chunk_size + i) \<noteq> None" "content st (f, off div chunk_size + k) = None"
    and "chunk_size \<le> off mod chunk_size + lastsize" "lastsize \<le> sz" "k < fuel"
  shows "\<exists>l off'. read_loop fuel ops f sz off lastsize data st =
    Some (Inr (False, data @ map (\<lambda>p. the (bytes st f p)) [off..<(off div chunk_size + k) * chunk_size], off', l, st)) \<and>
    off' div chunk_size = off div chunk_size + k"
  using assms(5-)
proof (induction k arbitrary: fuel off lastsize data)
  case 0
  then obtain fuel' where fuel: "fuel = Suc fuel'" by (cases fuel) auto
  have "crosses (off mod chunk_size) lastsize"
    using "0.prems"(4,5) assms(4) by (intro crossesI) simp_all
  moreover have "off div chunk_size * chunk_size \<le> off" by simp
  ultimately show ?case
    using locate_missing [OF assms(1,2) "0.prems"(3)] "0.prems"(1) by (simp add: fuel read_loop.simps(2) Let_def)
next
  case (Suc k)
  then obtain fuel' where fuel: "fuel = Suc fuel'" "k < fuel'" by (cases fuel) auto
  define n where "n = chunk_size - off mod chunk_size"
  obtain b where b: "content st (f, off div chunk_size) = Some b" using Suc.prems(2) [of 0] by auto
  have "crosses (off mod chunk_size) lastsize"
    using Suc.prems(4,5) assms(4) by (intro crossesI) simp_all
  note turn = read_loop_turn [OF assms(1) b this, of fuel' sz data, folded fuel(1), folded n_def]
  have nxt: "off + n = Suc (off div chunk_size) * chunk_size" unfolding n_def by (rule next_chunk)
  then have d: "(off + n) div chunk_size = Suc (off div chunk_size)" "(off + n) mod chunk_size = 0" by (metis chunk_size_pos div_mult_self_is_m, simp)
  have "n \<le> chunk_size" by (simp add: n_def)
  then have l: "chunk_size \<le> (off + n) mod chunk_size + (sz - n)" using assms(3) d(2) by simp
  have ex: "content st (f, (off + n) div chunk_size + i) \<noteq> None" if "i < k" for i
    using Suc.prems(2) [of "Suc i"] that d(1) by simp
  have "(off + n) div chunk_size + k < 2 ^ 63" "content st (f, (off + n) div chunk_size + k) = None"
    using Suc.prems(1,3) d(1) by simp_all
  from Suc.IH [OF this(1) ex this(2) l diff_le_self fuel(2)] obtain r off' where
    "read_loop fuel' ops f sz (off + n) (sz - n) (data @ map (\<lambda>p. the (bytes st f p)) [off..<off + n]) st =
      Some (Inr (False, (data @ map (\<lambda>p. the (bytes st f p)) [off..<off + n]) @
        map (\<lambda>p. the (bytes st f p)) [off + n..<((off + n) div chunk_size + k) * chunk_size], off', r, st))"
    "off' div chunk_size = (off + n) div chunk_size + k" by blast
  moreover have "off + n \<le> ((off + n) div chunk_size + k) * chunk_size" using nxt d(1) by simp
  ultimately show ?case using turn d(1) upt_append [of off "off + n"] by (simp add: Let_def)
qed

lemma read_to_end:
  assumes "inv st" "has_file st f" "2 * chunk_size \<le> unat sz" "unat sz < 2 ^ 64 - chunk_size"
    and "unat offset div chunk_size + k < 2 ^ 63" "k < fuel"
    and "\<And>i. i < k \<Longrightarrow> content st (f, unat offset div chunk_size + i) \<noteq> None" "content st (f, unat offset div chunk_size + k) = None"
  shows "gfs_read fuel ops f offset sz st =
    Some (Inr (map (\<lambda>p. the (bytes st f p)) [unat offset..<(unat offset div chunk_size + k) * chunk_size], st))"
proof -
  have m: "unat offset mod chunk_size < chunk_size" by simp
  have "crosses (unat offset mod chunk_size) (unat sz)"
    using assms(3,4) m by (intro crossesI) simp_all
  moreover obtain l off' where "read_loop fuel ops f (unat sz) (unat offset) (unat sz) [] st =
      Some (Inr (False, map (\<lambda>p. the (bytes st f p)) [unat offset..<(unat offset div chunk_size + k) * chunk_size], off', l, st))"
    "off' div chunk_size = unat offset div chunk_size + k"
    using read_loop_to_end [OF assms(1-5,7,8) _ order_refl assms(6), of "[]"] assms(3) by auto
  moreover have "sz \<noteq> 0" using assms(3) by (auto simp: chunk_size_def)
  ultimately show ?thesis
    using locate_missing [OF assms(1,2,8,5)] by (simp add: gfs_read_def read_tail_def Let_def)
qed

end

end
