(* ===== verification/Cluster.thy ===== *)
theory Cluster
  imports ChunkServer MasterServer GfsClient
begin

text \<open>
  The file system as a whole: the leader, the other masters and the chunk servers, with the calls between them
  delivered, and the functions \<open>rpcToMaster...\<close> and \<open>rpcToNode...\<close> of the client (\<open>gfs_api.go\<close>) on top of it.

  The model is sequential: a call of the client runs to its end, with the calls it causes, before the next
  one starts (the locks of \<open>lock.go\<close> make calls on one chunk exclusive). The leader is the master that
  zookeeper names; the retry loops around dialling it are not part of the state. A chunk server is up when it is in
  \<open>cl_servers\<close>, and no heartbeat timer fires during a call. The result \<open>Inl\<close> says that a process ended: the
  client on a nil connection, or the server that the call reached. \<open>Diverge\<close> is the loop of the placement,
  which retries a server that is marked alive and cannot be dialled.
\<close>

record cluster =
  cl_master :: master
  cl_replicas :: "string \<rightharpoonup> master"
  cl_servers :: "string \<rightharpoonup> chunkserver"

section \<open>Calls between the processes\<close>

definition up :: "cluster \<Rightarrow> string \<Rightarrow> bool" where
  "up st a \<longleftrightarrow> cl_replicas st a \<noteq> None"

fun deliver_all :: "(nat \<Rightarrow> string) \<Rightarrow> (string \<times> peer_msg) list \<Rightarrow> (string \<rightharpoonup> master) \<Rightarrow> (string \<rightharpoonup> master)" where
  "deliver_all stamp [] R = R"
| "deliver_all stamp ((a, msg) # msgs) R =
     deliver_all stamp msgs
       (case R a of None \<Rightarrow> R
        | Some m \<Rightarrow> R(a := (case deliver stamp msg m of Inl _ \<Rightarrow> None | Inr m' \<Rightarrow> Some m')))"

text \<open>\<open>updateMasterVersion\<close>: a chunk server reports a version to the leader, which tells the other masters.\<close>

definition updateMasterVersion :: "(nat \<Rightarrow> string) \<Rightarrow> OperationRequest \<Rightarrow> cluster \<Rightarrow> cluster result" where
  "updateMasterVersion stamp opr st =
     bindR (UpdateChunkVersion stamp (up st)
              \<lparr>vq_ServerLocation = op_ServerLocation opr, vq_Chunkid = op_Chunkid opr, vq_Version = op_Version opr\<rparr>
              (cl_master st))
       (\<lambda>(_, _, m, msgs). Inr (st\<lparr>cl_master := m, cl_replicas := deliver_all stamp msgs (cl_replicas st)\<rparr>))"

definition call_UpdateOwnChunkVersion :: "(nat \<Rightarrow> string) \<Rightarrow> BroadcastRequest \<Rightarrow> string \<Rightarrow> cluster \<Rightarrow> cluster result" where
  "call_UpdateOwnChunkVersion stamp bc a st =
     (case cl_servers st a of
        None \<Rightarrow> Inr st
      | Some s \<Rightarrow>
          bindR (UpdateOwnChunkVersion stamp bc s) (\<lambda>(_, s', report).
            let st = st\<lparr>cl_servers := (cl_servers st)(a \<mapsto> s')\<rparr>
            in case report of None \<Rightarrow> Inr st | Some opr \<Rightarrow> updateMasterVersion stamp opr st))"

fun broadcast :: "(nat \<Rightarrow> string) \<Rightarrow> BroadcastRequest \<Rightarrow> string list \<Rightarrow> cluster \<Rightarrow> cluster result" where
  "broadcast stamp bc [] st = Inr st"
| "broadcast stamp bc (a # as) st = bindR (call_UpdateOwnChunkVersion stamp bc a st) (broadcast stamp bc as)"

definition call_Write :: "(nat \<Rightarrow> string) \<Rightarrow> string \<Rightarrow> ChunkRequest \<Rightarrow> cluster \<Rightarrow> cluster result" where
  "call_Write stamp location req st =
     (case cl_servers st location of
        None \<Rightarrow> Inl Panic
      | Some s \<Rightarrow>
          bindR (Write stamp req s) (\<lambda>(_, s', opr, bc).
            bindR (updateMasterVersion stamp opr (st\<lparr>cl_servers := (cl_servers st)(location \<mapsto> s')\<rparr>))
              (broadcast stamp bc (updateReplicaVersion req (cs_location s)))))"

definition call_Read :: "string \<Rightarrow> ChunkRequest \<Rightarrow> cluster \<Rightarrow> (string \<times> cluster) result" where
  "call_Read location req st =
     (case cl_servers st location of
        None \<Rightarrow> Inl Panic
      | Some s \<Rightarrow> bindR (Read req s) (\<lambda>res. Inr (res_Data res, st)))"

text \<open>\<open>CreateNewFileChunk\<close>, \<open>AddChunk\<close> and \<open>DeleteFileChunk\<close> of \<open>rpcToChunkServer.go\<close>.\<close>

definition master_chunk_request :: "string \<Rightarrow> string \<Rightarrow> u64 \<Rightarrow> ChunkRequest" where
  "master_chunk_request c f i = \<lparr>Chunkid = c, Filename = f, Bytebegin = 0, Byteend = 0, Data = '''',
     AllServerLocation = [], Index = i\<rparr>"

definition on_server :: "string \<Rightarrow> (chunkserver \<Rightarrow> ('a \<times> chunkserver) result) \<Rightarrow> cluster \<Rightarrow> cluster result" where
  "on_server location call st =
     (case cl_servers st location of
        None \<Rightarrow> Inr st
      | Some s \<Rightarrow> bindR (call s) (\<lambda>(_, s'). Inr (st\<lparr>cl_servers := (cl_servers st)(location \<mapsto> s')\<rparr>)))"

definition CreateNewFileChunk :: "(nat \<Rightarrow> string) \<Rightarrow> string \<Rightarrow> string \<Rightarrow> cluster \<Rightarrow> cluster result" where
  "CreateNewFileChunk stamp f location = on_server location (Create stamp (master_chunk_request '''' f 0))"

definition AddChunk_call :: "(nat \<Rightarrow> string) \<Rightarrow> string \<Rightarrow> u64 \<Rightarrow> string \<Rightarrow> cluster \<Rightarrow> cluster result" where
  "AddChunk_call stamp f i location = on_server location (Add stamp (master_chunk_request '''' f i))"

definition DeleteFileChunk :: "(nat \<Rightarrow> string) \<Rightarrow> string \<times> string \<Rightarrow> cluster \<Rightarrow> cluster result" where
  "DeleteFileChunk stamp call = on_server (snd call) (Delete stamp (master_chunk_request (fst call) '''' 0))"

fun each :: "('x \<Rightarrow> cluster \<Rightarrow> cluster result) \<Rightarrow> 'x list \<Rightarrow> cluster \<Rightarrow> cluster result" where
  "each g [] st = Inr st"
| "each g (x # xs) st = bindR (g x st) (each g xs)"

section \<open>The calls of the client (gfs\_api.go)\<close>

text \<open>The handlers of the master do not look at the fields \<open>Write\<close> and \<open>Read\<close>.\<close>

definition client_request :: "string \<Rightarrow> u64 \<Rightarrow> bool \<Rightarrow> bool \<Rightarrow> ChunkMasterRequest" where
  "client_request f i w r = \<lparr>mq_Filename = f, mq_Chunkindex = i, mq_Write = w, mq_Read = r, mq_ServerLocation = '''',
     mq_ReplicaLocation = '''', mq_Chunkid = '''', mq_Version = 0\<rparr>"

definition rpcToMasterGetChunkLocation ::
    "string \<Rightarrow> u64 \<Rightarrow> cluster \<Rightarrow> ((string \<times> string \<times> int \<times> string list) \<times> cluster) result" where
  "rpcToMasterGetChunkLocation f i st =
     bindR (GetChunkLocation (client_request f i True False) (cl_master st)) (\<lambda>res.
       if mr_Errornum res \<noteq> 0 then Inr (('''', '''', mr_Errornum res, []), st)
       else Inr ((mr_Chunklocation res, mr_Chunkid res, mr_Errornum res, mr_AllServerLocation res), st))"

text \<open>All servers that are up can be dialled, and no timer fires: the placement succeeds at once or never.\<close>

definition placement_env :: "cluster \<Rightarrow> placement" where
  "placement_env st = ((\<lambda>_ l. cl_servers st l \<noteq> None), (\<lambda>_ _. False), 1)"

definition after_placement ::
    "(nat \<Rightarrow> string) \<Rightarrow> (string \<Rightarrow> cluster \<Rightarrow> cluster result) \<Rightarrow> handler_result option \<Rightarrow> cluster \<Rightarrow>
     (ChunkMasterResponse \<times> cluster) result" where
  "after_placement stamp mk r st =
     (case r of
        None \<Rightarrow> Inl Diverge
      | Some r \<Rightarrow> bindR r (\<lambda>(res, m, msgs, made).
          bindR (each mk made st) (\<lambda>st.
            Inr (res, st\<lparr>cl_master := m, cl_replicas := deliver_all stamp msgs (cl_replicas st)\<rparr>))))"

definition rpcToMasterAddChunk ::
    "(nat \<Rightarrow> string) \<Rightarrow> string \<Rightarrow> u64 \<Rightarrow> cluster \<Rightarrow> ((string \<times> string \<times> int) \<times> cluster) result" where
  "rpcToMasterAddChunk stamp f i st =
     bindR (after_placement stamp (AddChunk_call stamp f i)
              (MasterServer.AddChunk stamp (up st) (placement_env st) (client_request f i True False) (cl_master st)) st)
       (\<lambda>(res, st). if mr_Errornum res \<noteq> 0 then Inr (('''', '''', mr_Errornum res), st)
                    else Inr ((mr_Chunklocation res, mr_Chunkid res, mr_Errornum res), st))"

definition call_NewFileChunk :: "(nat \<Rightarrow> string) \<Rightarrow> string \<Rightarrow> cluster \<Rightarrow> (int \<times> cluster) result" where
  "call_NewFileChunk stamp f st =
     bindR (after_placement stamp (CreateNewFileChunk stamp f)
              (NewFileChunk stamp (up st) (placement_env st) (client_request f 0 False False) (cl_master st)) st)
       (\<lambda>(res, st). Inr (mr_Errornum res, st))"

definition call_DeleteFileAndChunks :: "(nat \<Rightarrow> string) \<Rightarrow> string \<Rightarrow> cluster \<Rightarrow> cluster result" where
  "call_DeleteFileAndChunks stamp f st =
     bindR (DeleteFileAndChunks stamp (up st) (client_request f 0 False False) (cl_master st)) (\<lambda>(_, m, msgs, calls).
       each (DeleteFileChunk stamp) calls
         (st\<lparr>cl_master := m, cl_replicas := deliver_all stamp msgs (cl_replicas st)\<rparr>))"

definition cluster_ops :: "(nat \<Rightarrow> string) \<Rightarrow> cluster gfs_ops" where
  "cluster_ops stamp = \<lparr>op_newfile = call_NewFileChunk stamp, op_locate = rpcToMasterGetChunkLocation,
     op_addchunk = rpcToMasterAddChunk stamp, op_write = call_Write stamp, op_read = call_Read,
     op_delete = call_DeleteFileAndChunks stamp\<rparr>"

section \<open>The state seen through its tables\<close>

definition entry :: "cluster \<Rightarrow> string \<times> u64 \<rightharpoonup> ChunkReplicas" where
  "entry st = (\<lambda>(f, i). case m_files (cl_master st) f of None \<Rightarrow> None | Some sl \<Rightarrow> map_of sl i)"

definition srv_file :: "cluster \<Rightarrow> string \<times> string \<rightharpoonup> chunk_file" where
  "srv_file st = (\<lambda>(l, c). case cl_servers st l of None \<Rightarrow> None | Some s \<Rightarrow> cs_files s c)"

definition srv_meta :: "cluster \<Rightarrow> string \<times> string \<rightharpoonup> Chunk" where
  "srv_meta st = (\<lambda>(l, c). case cl_servers st l of None \<Rightarrow> None | Some s \<Rightarrow> cs_meta s c)"

abbreviation sched :: "cluster \<Rightarrow> NodeMetadata list" where
  "sched st \<equiv> m_schedule (cl_master st)"

abbreviation loc1 :: "ChunkReplicas \<Rightarrow> string" where "loc1 r \<equiv> cm_Chunklocation (Chunk_1 r)"
abbreviation loc2 :: "ChunkReplicas \<Rightarrow> string" where "loc2 r \<equiv> cm_Chunklocation (Chunk_2 r)"
abbreviation ver1 :: "ChunkReplicas \<Rightarrow> u64" where "ver1 r \<equiv> cm_Version (Chunk_1 r)"
abbreviation ver2 :: "ChunkReplicas \<Rightarrow> u64" where "ver2 r \<equiv> cm_Version (Chunk_2 r)"

text \<open>The processes: everything but the entries of the chunk table.\<close>

definition procs_ok :: "cluster \<Rightarrow> bool" where
  "procs_ok st \<longleftrightarrow> m_isLeader (cl_master st) \<and> distinct (map NodeLocation (sched st)) \<and> 2 \<le> length (sched st) \<and>
     (\<forall>m\<in>set (sched st). Alive m \<and> cl_servers st (NodeLocation m) \<noteq> None) \<and>
     (\<forall>l s. cl_servers st l = Some s \<longrightarrow> cs_location s = l) \<and> cl_servers st '''' = None \<and>
     (\<forall>a\<in>set (peers (cl_master st)). up st a) \<and>
     (\<forall>k. srv_meta st k \<noteq> None \<longrightarrow> srv_file st k \<noteq> None) \<and>
     (\<forall>f sl. m_files (cl_master st) f = Some sl \<longrightarrow> creatable f \<and> gomap_ok sl)"

definition entry_ok :: "cluster \<Rightarrow> string \<times> u64 \<Rightarrow> ChunkReplicas \<Rightarrow> bool" where
  "entry_ok st k r \<longleftrightarrow> (case k of (f, i) \<Rightarrow>
     0 \<le> int_of_u64 i \<and> cm_Chunkid (Chunk_1 r) = chunk_id f i \<and> cm_Chunkid (Chunk_2 r) = chunk_id f i \<and>
     loc1 r \<noteq> loc2 r \<and> {loc1 r, loc2 r} \<subseteq> NodeLocation ` set (sched st) \<and>
     (\<exists>g. srv_file st (loc1 r, chunk_id f i) = Some g \<and> f_size g = chunk_size) \<and>
     (\<exists>g. srv_file st (loc2 r, chunk_id f i) = Some g \<and> f_size g = chunk_size) \<and>
     (\<exists>m. srv_meta st (loc1 r, chunk_id f i) = Some m \<and> md_Version m = ver1 r) \<and>
     srv_meta st (loc2 r, chunk_id f i) \<noteq> None)"

definition versions_ok :: "ChunkReplicas \<Rightarrow> bool" where
  "versions_ok r \<longleftrightarrow> ver1 r = ver2 r \<or> ver1 r = 1 \<and> ver2 r = 0"

definition cl_wf :: "cluster \<Rightarrow> bool" where
  "cl_wf st \<longleftrightarrow> procs_ok st \<and> (\<forall>k r. entry st k = Some r \<longrightarrow> entry_ok st k r)"

definition cl_inv :: "cluster \<Rightarrow> bool" where
  "cl_inv st \<longleftrightarrow> cl_wf st \<and> (\<forall>k r. entry st k = Some r \<longrightarrow> versions_ok r)"

definition cl_has_file :: "cluster \<Rightarrow> string \<Rightarrow> bool" where
  "cl_has_file st f \<longleftrightarrow> m_files (cl_master st) f \<noteq> None"

definition cl_content :: "cluster \<Rightarrow> string \<times> nat \<rightharpoonup> (nat \<Rightarrow> char)" where
  "cl_content st = (\<lambda>(f, i).
     if i < 2 ^ 63
     then (case entry st (f, of_nat i) of
             None \<Rightarrow> None
           | Some r \<Rightarrow> map_option f_byte (srv_file st (loc1 r, chunk_id f (of_nat i))))
     else None)"

definition cl_handle :: "cluster \<Rightarrow> string \<times> nat \<Rightarrow> string \<Rightarrow> string \<Rightarrow> string list \<Rightarrow> bool" where
  "cl_handle st = (\<lambda>(f, i) loc cid all. i < 2 ^ 63 \<and> (\<exists>r. entry st (f, of_nat i) = Some r \<and> loc = loc1 r \<and>
     cid = chunk_id f (of_nat i) \<and> (all = [] \<and> ver1 r = 0 \<and> ver2 r = 0 \<or> all = map NodeLocation (sched st))))"

section \<open>Lemmas on the tables\<close>

lemma chunk_id_inj: "0 \<le> int_of_u64 i \<Longrightarrow> 0 \<le> int_of_u64 j \<Longrightarrow> chunk_id f i = chunk_id g j \<longleftrightarrow> f = g \<and> i = j"
  by (metis parse_chunk_id sum.inject(2) prod.inject)

lemma index_nonneg: "i < 2 ^ 63 \<Longrightarrow> 0 \<le> int_of_u64 (of_nat i)" "i < 2 ^ 63 \<Longrightarrow> unat (of_nat i :: u64) = i"
proof -
  assume "i < 2 ^ 63"
  then have "i < 2 ^ LENGTH(64)" by simp
  then show "unat (of_nat i :: u64) = i" by (simp add: unat_of_nat)
  then show "0 \<le> int_of_u64 (of_nat i)" using \<open>i < 2 ^ 63\<close> int_of_u64_small [of "of_nat i"] by simp
qed

lemma index_inject: "i < 2 ^ 63 \<Longrightarrow> j < 2 ^ 63 \<Longrightarrow> (of_nat i :: u64) = of_nat j \<longleftrightarrow> i = j"
  by (metis index_nonneg(2))

lemma deliver_all_dom:
  assumes "\<And>a msg m. (a, msg) \<in> set msgs \<Longrightarrow> \<exists>m'. deliver stamp msg m = Inr m'"
  shows "deliver_all stamp msgs R a = None \<longleftrightarrow> R a = None"
  using assms
proof (induction msgs arbitrary: R)
  case (Cons p msgs)
  obtain b msg where p: "p = (b, msg)" by (cases p)
  have IH: "deliver_all stamp msgs R' a = None \<longleftrightarrow> R' a = None" for R'
    using Cons.IH [of R'] Cons.prems by (meson list.set_intros(2))
  show ?case
  proof (cases "R b")
    case None
    with IH p show ?thesis by simp
  next
    case (Some m)
    moreover obtain m' where "deliver stamp msg m = Inr m'" using Cons.prems p by fastforce
    ultimately show ?thesis using p IH by simp
  qed
qed simp

lemma deliver_update:
  "parse_chunkid (vq_Chunkid req) = Inr k \<Longrightarrow> \<exists>m'. deliver stamp (UpdateVersionReplica_msg req) m = Inr m'"
  by (cases k) (auto simp: UpdateChunkVersionReplica_def UpdateChunkVersionFunc_def Let_def split: option.splits)

lemma deliver_add: "\<exists>m'. deliver stamp (AddChunkReplica_msg req) m = Inr m'"
  by (auto simp: AddChunkReplica_def AddChunkFunc_def record_chunk_def split: option.splits)

lemma entry_cong: "cl_master st' = cl_master st \<Longrightarrow> entry st' = entry st"
  by (simp add: entry_def)

lemma srv_cong: "cl_servers st' = cl_servers st \<Longrightarrow> srv_file st' = srv_file st \<and> srv_meta st' = srv_meta st"
  by (simp add: srv_file_def srv_meta_def)

lemma srv_update:
  assumes "cl_servers st l = Some s" "cs_files s' = (cs_files s)(c := g)" "cs_meta s' = (cs_meta s)(c := m)"
  shows "srv_file (st\<lparr>cl_servers := (cl_servers st)(l \<mapsto> s')\<rparr>) = (srv_file st)((l, c) := g)"
    "srv_meta (st\<lparr>cl_servers := (cl_servers st)(l \<mapsto> s')\<rparr>) = (srv_meta st)((l, c) := m)"
  using assms by (auto simp: srv_file_def srv_meta_def fun_eq_iff)

section \<open>A version report\<close>

definition reported :: "string \<Rightarrow> u64 \<Rightarrow> ChunkReplicas \<Rightarrow> ChunkReplicas" where
  "reported loc v r = (case set_replica_version loc v r of Some r' \<Rightarrow> r' | None \<Rightarrow> r)"

lemma reported_simps [simp]:
  "loc1 (reported loc v r) = loc1 r" "loc2 (reported loc v r) = loc2 r"
  "cm_Chunkid (Chunk_1 (reported loc v r)) = cm_Chunkid (Chunk_1 r)"
  "cm_Chunkid (Chunk_2 (reported loc v r)) = cm_Chunkid (Chunk_2 r)"
  "ver1 (reported loc v r) = (if loc1 r = loc then v else ver1 r)"
  "ver2 (reported loc v r) = (if loc1 r \<noteq> loc \<and> loc2 r = loc then v else ver2 r)"
  by (simp_all add: reported_def set_replica_version_def)

lemma update_version_table:
  assumes "m_files m f = Some sl" "map_of sl i = Some r" "0 \<le> int_of_u64 i"
  shows "\<exists>m'. UpdateChunkVersionFunc stamp \<lparr>vq_ServerLocation = loc, vq_Chunkid = chunk_id f i, vq_Version = v\<rparr> m = Inr m' \<and>
    m_files m' = (m_files m)(f \<mapsto> AList.update i (reported loc v r) sl) \<and> m_schedule m' = m_schedule m \<and>
    m_isLeader m' = m_isLeader m \<and> m_location m' = m_location m"
  using assms by (auto simp: UpdateChunkVersionFunc_def parse_chunk_id reported_def Let_def split: option.splits)

lemma updateMasterVersion_ok:
  assumes ok: "procs_ok st" and e: "entry st (f, i) = Some r" and i: "0 \<le> int_of_u64 i"
  shows "\<exists>st'. updateMasterVersion stamp \<lparr>op_ServerLocation = loc, op_Chunkid = chunk_id f i, op_Version = v\<rparr> st = Inr st' \<and>
    procs_ok st' \<and> cl_servers st' = cl_servers st \<and> entry st' = (entry st)((f, i) \<mapsto> reported loc v r) \<and>
    sched st' = sched st \<and> cl_has_file st' = cl_has_file st"
proof -
  let ?req = "\<lparr>vq_ServerLocation = loc, vq_Chunkid = chunk_id f i, vq_Version = v\<rparr>"
  let ?m = "master_log stamp (update_record ?req) (cl_master st)"
  obtain sl where sl: "m_files (cl_master st) f = Some sl" "map_of sl i = Some r"
    using e by (auto simp: entry_def split: option.splits)
  then obtain m' where m': "UpdateChunkVersionFunc stamp ?req ?m = Inr m'"
    and eq: "m_files m' = (m_files (cl_master st))(f \<mapsto> AList.update i (reported loc v r) sl)"
      "m_schedule m' = sched st" "m_isLeader m'" "m_location m' = m_location (cl_master st)"
    using update_version_table [of ?m f sl i r stamp loc v] i ok by (auto simp: procs_ok_def)
  have peers: "peers m' = peers (cl_master st)" by (rule peers_cong) (rule eq(4))
  then have "list_all (up st) (peers m')" using ok by (simp add: procs_ok_def list_all_iff)
  moreover define msgs where "msgs = map (\<lambda>a. (a, UpdateVersionReplica_msg ?req)) (peers m')"
  moreover define st' where "st' = st\<lparr>cl_master := m', cl_replicas := deliver_all stamp msgs (cl_replicas st)\<rparr>"
  ultimately have "updateMasterVersion stamp \<lparr>op_ServerLocation = loc, op_Chunkid = chunk_id f i, op_Version = v\<rparr> st = Inr st'"
    using m' ok by (simp add: updateMasterVersion_def UpdateChunkVersion_def procs_ok_def)
  moreover have "deliver_all stamp msgs R a = None \<longleftrightarrow> R a = None" for R a
    by (rule deliver_all_dom) (use deliver_update [of ?req "(f, i)"] parse_chunk_id [OF i] in \<open>auto simp: msgs_def\<close>)
  then have up: "up st' a \<longleftrightarrow> up st a" for a by (simp add: up_def st'_def)
  moreover have "gomap_ok sl" "creatable f" using ok sl(1) by (simp_all add: procs_ok_def)
  then have "procs_ok st'"
    using ok eq peers up by (auto simp: procs_ok_def st'_def srv_file_def srv_meta_def split: if_splits)
  moreover have "entry st' = (entry st)((f, i) \<mapsto> reported loc v r)"
    using sl by (auto simp: entry_def st'_def eq fun_eq_iff split: option.splits)
  moreover have "cl_has_file st' = cl_has_file st" using sl(1) by (auto simp: cl_has_file_def st'_def eq fun_eq_iff)
  ultimately show ?thesis by (intro exI [of _ st']) (simp add: st'_def eq)
qed

section \<open>Writing a chunk\<close>

lemma entry_ok_frame:
  assumes "entry_ok st (g, j) r" "NodeLocation ` set (sched st') = NodeLocation ` set (sched st)"
    and "\<And>l. srv_file st' (l, chunk_id g j) = srv_file st (l, chunk_id g j)"
    and "\<And>l. srv_meta st' (l, chunk_id g j) = srv_meta st (l, chunk_id g j)"
  shows "entry_ok st' (g, j) r"
  using assms by (simp add: entry_ok_def)

lemma seek_small: "unat b \<le> chunk_size \<Longrightarrow> seek_set b = unat b"
  using int_of_u64_small [of b] by (simp add: seek_set_def chunk_size_def)

lemma procs_ok_server:
  assumes "procs_ok st" "cl_servers st l = Some s" "cs_location s' = l" "cs_files s' = (cs_files s)(c := Some g)"
    "cs_meta s' = (cs_meta s)(c := Some m)"
  shows "procs_ok (st\<lparr>cl_servers := (cl_servers st)(l \<mapsto> s')\<rparr>)"
proof -
  have "up (st\<lparr>cl_servers := (cl_servers st)(l \<mapsto> s')\<rparr>) a \<longleftrightarrow> up st a" for a by (simp add: up_def)
  then show ?thesis
    using assms(1-3) srv_update [OF assms(2,4,5)] by (auto simp: procs_ok_def)
qed

text \<open>The part of a state that a write to the chunk \<open>(f, i)\<close> on the server \<open>l\<close> does not touch.\<close>

definition only_chunk :: "string set \<Rightarrow> string \<Rightarrow> cluster \<Rightarrow> cluster \<Rightarrow> bool" where
  "only_chunk L c st st' \<longleftrightarrow> sched st' = sched st \<and> cl_has_file st' = cl_has_file st \<and>
     (\<forall>l d. l \<notin> L \<or> d \<noteq> c \<longrightarrow> srv_file st' (l, d) = srv_file st (l, d))"

lemma only_chunk_trans: "only_chunk L c st st1 \<Longrightarrow> only_chunk L' c st1 st2 \<Longrightarrow> only_chunk (L \<union> L') c st st2"
  by (auto simp: only_chunk_def)

lemma entries_ok_update:
  assumes wf: "\<And>k r. entry st k = Some r \<Longrightarrow> entry_ok st k r" and e: "entry st (f, i) = Some r"
    and e': "entry st' = (entry st)((f, i) \<mapsto> r')" "sched st' = sched st"
    and srv: "srv_file st' = (srv_file st)((l, chunk_id f i) := g)" "srv_meta st' = (srv_meta st)((l, chunk_id f i) := m)"
    and own: "entry_ok st' (f, i) r'" and k: "entry st' k = Some q"
  shows "entry_ok st' k q"
proof (cases "k = (f, i)")
  case True
  then show ?thesis using own e' k by simp
next
  case False
  obtain h j where h: "k = (h, j)" by (cases k)
  then have "entry st (h, j) = Some q" using k False by (simp add: e'(1) split: if_splits)
  then have q: "entry_ok st (h, j) q" by (rule wf)
  then have "chunk_id h j \<noteq> chunk_id f i"
    using wf [OF e] False h chunk_id_inj [of j i h f] by (auto simp: entry_ok_def)
  then show ?thesis unfolding h by (intro entry_ok_frame [OF q]) (simp_all add: e' srv)
qed

lemma call_UpdateOwnChunkVersion_ok:
  assumes wf: "cl_wf st" and e: "entry st (f, i) = Some r" and c: "bc_Chunkid bc = chunk_id f i" and a: "a \<noteq> loc1 r"
    and fits: "unat (bc_Byteend bc) < chunk_size" "unat (bc_Bytebegin bc) + length (bc_Data bc) \<le> chunk_size"
  shows "\<exists>st'. call_UpdateOwnChunkVersion stamp bc a st = Inr st' \<and> cl_wf st' \<and> only_chunk {a} (chunk_id f i) st st' \<and>
    entry st' = (entry st)((f, i) \<mapsto> if a = loc2 r then reported a (bc_Version bc) r else r)"
proof -
  let ?c = "chunk_id f i"
  have ok: "procs_ok st" and r: "entry_ok st (f, i) r" and ents: "\<And>k q. entry st k = Some q \<Longrightarrow> entry_ok st k q"
    using wf e by (auto simp: cl_wf_def)
  show ?thesis
  proof (cases "srv_meta st (a, ?c)")
    case None
    then have "a \<noteq> loc2 r" using r by (auto simp: entry_ok_def)
    moreover have "call_UpdateOwnChunkVersion stamp bc a st = Inr st"
      using None c by (auto simp: call_UpdateOwnChunkVersion_def UpdateOwnChunkVersion_def srv_meta_def fun_upd_idem
          split: option.splits)
    ultimately show ?thesis using wf e by (intro exI [of _ st]) (simp add: only_chunk_def fun_upd_idem)
  next
    case (Some m)
    then obtain s where s: "cl_servers st a = Some s" "cs_meta s ?c = Some m"
      by (auto simp: srv_meta_def split: option.splits)
    have "srv_file st (a, ?c) \<noteq> None" using ok Some by (simp add: procs_ok_def)
    then obtain g where g: "cs_files s ?c = Some g" using s(1) by (auto simp: srv_file_def)
    let ?g = "file_write (unat (bc_Bytebegin bc)) (bc_Data bc) g" and ?m = "m\<lparr>md_Version := bc_Version bc\<rparr>"
    have seek: "seek_set (bc_Bytebegin bc) = unat (bc_Bytebegin bc)" using fits(2) by (intro seek_small) simp
    obtain s' where u: "UpdateOwnChunkVersion stamp bc s =
        Inr (True, s', Some \<lparr>op_ServerLocation = a, op_Chunkid = ?c, op_Version = bc_Version bc\<rparr>)"
      and s': "cs_files s' = (cs_files s)(?c := Some ?g)" "cs_meta s' = (cs_meta s)(?c := Some ?m)" "cs_location s' = a"
      using s g c fits(1) seek ok
      by (auto simp: UpdateOwnChunkVersion_def WriteChunk_def broadcast_write_def Let_def procs_ok_def)
    define st1 where "st1 = st\<lparr>cl_servers := (cl_servers st)(a \<mapsto> s')\<rparr>"
    have srv1: "srv_file st1 = (srv_file st)((a, ?c) := Some ?g)" "srv_meta st1 = (srv_meta st)((a, ?c) := Some ?m)"
      unfolding st1_def by (rule srv_update [OF s(1) s'(1,2)])+
    have ok1: "procs_ok st1" unfolding st1_def by (rule procs_ok_server [OF ok s(1) s'(3,1,2)])
    have e1: "entry st1 (f, i) = Some r" "entry st1 = entry st" "sched st1 = sched st" "cl_has_file st1 = cl_has_file st"
      using e by (simp_all add: st1_def entry_def cl_has_file_def fun_eq_iff)
    have i: "0 \<le> int_of_u64 i" using r by (simp add: entry_ok_def)
    from updateMasterVersion_ok [OF ok1 e1(1) i, of stamp a "bc_Version bc"] obtain st' where
      st': "updateMasterVersion stamp \<lparr>op_ServerLocation = a, op_Chunkid = ?c, op_Version = bc_Version bc\<rparr> st1 = Inr st'"
      "procs_ok st'" "cl_servers st' = cl_servers st1" "entry st' = (entry st)((f, i) \<mapsto> reported a (bc_Version bc) r)"
      "sched st' = sched st" "cl_has_file st' = cl_has_file st"
      using e1 by auto
    have srv: "srv_file st' = (srv_file st)((a, ?c) := Some ?g)" "srv_meta st' = (srv_meta st)((a, ?c) := Some ?m)"
      using srv_cong [OF st'(3)] srv1 by simp_all
    have sz: "f_size ?g = f_size g" if "f_size g = chunk_size"
      using that fits(2) by (intro f_size_file_write) simp
    have sf: "srv_file st (a, ?c) = Some g" using s(1) g by (simp add: srv_file_def)
    have "entry_ok st' (f, i) (reported a (bc_Version bc) r)"
      using r a sz sf by (auto simp: entry_ok_def srv st'(5))
    from entries_ok_update [OF ents e st'(4,5) srv this] have "cl_wf st'" using st'(2) by (simp add: cl_wf_def)
    moreover have "(if a = loc2 r then reported a (bc_Version bc) r else r) = reported a (bc_Version bc) r"
      using a by (simp add: reported_def set_replica_version_def)
    moreover have "only_chunk {a} ?c st st'" using st'(5,6) srv(1) by (auto simp: only_chunk_def)
    moreover have "call_UpdateOwnChunkVersion stamp bc a st = Inr st'"
      using s(1) u st'(1) by (simp add: call_UpdateOwnChunkVersion_def st1_def)
    ultimately show ?thesis using st'(4) by (intro exI [of _ st']) simp
  qed
qed

lemma broadcast_ok:
  assumes "cl_wf st" "entry st (f, i) = Some r" "bc_Chunkid bc = chunk_id f i" "loc1 r \<notin> set as" "distinct as"
    and "unat (bc_Byteend bc) < chunk_size" "unat (bc_Bytebegin bc) + length (bc_Data bc) \<le> chunk_size"
  shows "\<exists>st'. broadcast stamp bc as st = Inr st' \<and> cl_wf st' \<and> only_chunk (set as) (chunk_id f i) st st' \<and>
    entry st' = (entry st)((f, i) \<mapsto> if loc2 r \<in> set as then reported (loc2 r) (bc_Version bc) r else r)"
  using assms(1,2,4,5)
proof (induction as arbitrary: st r)
  case Nil
  then show ?case by (auto simp: only_chunk_def fun_upd_idem)
next
  case (Cons a as)
  let ?r = "if a = loc2 r then reported a (bc_Version bc) r else r"
  have "a \<noteq> loc1 r" using Cons.prems(3) by auto
  from call_UpdateOwnChunkVersion_ok [OF Cons.prems(1,2) assms(3) this assms(6,7), of stamp] obtain st1 where
    st1: "call_UpdateOwnChunkVersion stamp bc a st = Inr st1" "cl_wf st1" "only_chunk {a} (chunk_id f i) st st1"
    "entry st1 = (entry st)((f, i) \<mapsto> ?r)" by blast
  have "entry st1 (f, i) = Some ?r" "loc1 ?r \<notin> set as" "distinct as" "loc2 ?r = loc2 r"
    using st1(4) Cons.prems(3,4) by auto
  from Cons.IH [OF st1(2) this(1-3), unfolded this(4)] obtain st' where
    st': "broadcast stamp bc as st1 = Inr st'" "cl_wf st'" "only_chunk (set as) (chunk_id f i) st1 st'"
    "entry st' = (entry st1)((f, i) \<mapsto> if loc2 r \<in> set as then reported (loc2 r) (bc_Version bc) ?r else ?r)" by blast
  have "(if loc2 r \<in> set as then reported (loc2 r) (bc_Version bc) ?r else ?r) =
      (if loc2 r \<in> set (a # as) then reported (loc2 r) (bc_Version bc) r else r)"
    using Cons.prems(4) by auto
  then have "entry st' = (entry st)((f, i) \<mapsto> if loc2 r \<in> set (a # as) then reported (loc2 r) (bc_Version bc) r else r)"
    unfolding st'(4) st1(4) fun_upd_upd by (simp only:)
  moreover have "only_chunk (set (a # as)) (chunk_id f i) st st'" using only_chunk_trans [OF st1(3) st'(3)] by simp
  ultimately show ?case using st1(1) st'(1,2) by (intro exI [of _ st']) simp
qed

text \<open>The primary's part of a write: its own chunk and the report to the leader.\<close>

lemma primary_write:
  assumes wf: "cl_wf st" and e: "entry st (f, i) = Some r"
    and req: "Chunkid req = chunk_id f i" "unat (Byteend req) < chunk_size" "unat (Bytebegin req) + length (Data req) \<le> chunk_size"
    and g: "srv_file st (loc1 r, chunk_id f i) = Some g"
  shows "\<exists>s s' res st1. cl_servers st (loc1 r) = Some s \<and> cs_location s = loc1 r \<and>
    Write stamp req s = Inr (res, s', \<lparr>op_ServerLocation = loc1 r, op_Chunkid = chunk_id f i, op_Version = ver1 r + 1\<rparr>,
      \<lparr>bc_Chunkid = chunk_id f i, bc_Version = ver1 r + 1, bc_Bytebegin = Bytebegin req, bc_Byteend = Byteend req, bc_Data = Data req\<rparr>) \<and>
    updateMasterVersion stamp \<lparr>op_ServerLocation = loc1 r, op_Chunkid = chunk_id f i, op_Version = ver1 r + 1\<rparr>
      (st\<lparr>cl_servers := (cl_servers st)(loc1 r \<mapsto> s')\<rparr>) = Inr st1 \<and>
    cl_wf st1 \<and> entry st1 = (entry st)((f, i) \<mapsto> reported (loc1 r) (ver1 r + 1) r) \<and> only_chunk {loc1 r} (chunk_id f i) st st1 \<and>
    srv_file st1 (loc1 r, chunk_id f i) = Some (file_write (unat (Bytebegin req)) (Data req) g)"
proof -
  let ?c = "chunk_id f i" and ?l = "loc1 r" and ?v = "ver1 r + 1"
  let ?g = "file_write (unat (Bytebegin req)) (Data req) g"
  have ok: "procs_ok st" and r: "entry_ok st (f, i) r" and ents: "\<And>k q. entry st k = Some q \<Longrightarrow> entry_ok st k q"
    using wf e by (auto simp: cl_wf_def)
  obtain m where m: "srv_meta st (?l, ?c) = Some m" "md_Version m = ver1 r" using r by (auto simp: entry_ok_def)
  have sz: "f_size g = chunk_size" using r g by (auto simp: entry_ok_def)
  obtain s where s: "cl_servers st ?l = Some s" "cs_meta s ?c = Some m" "cs_files s ?c = Some g"
    using m(1) g by (auto simp: srv_meta_def srv_file_def split: option.splits)
  have l: "cs_location s = ?l" using ok s(1) by (simp add: procs_ok_def)
  have seek: "seek_set (Bytebegin req) = unat (Bytebegin req)" using req(3) by (intro seek_small) simp
  obtain res s' where w: "Write stamp req s = Inr (res, s', \<lparr>op_ServerLocation = ?l, op_Chunkid = ?c, op_Version = ?v\<rparr>,
      \<lparr>bc_Chunkid = ?c, bc_Version = ?v, bc_Bytebegin = Bytebegin req, bc_Byteend = Byteend req, bc_Data = Data req\<rparr>)"
    and s': "cs_files s' = (cs_files s)(?c := Some ?g)" "cs_meta s' = (cs_meta s)(?c := Some (m\<lparr>md_Version := ?v\<rparr>))" "cs_location s' = ?l"
    using s req(1,2) seek l m(2) by (auto simp: Write_def WriteChunk_def Let_def meta_of_def set_version_def)
  define st0 where "st0 = st\<lparr>cl_servers := (cl_servers st)(?l \<mapsto> s')\<rparr>"
  have srv0: "srv_file st0 = (srv_file st)((?l, ?c) := Some ?g)"
    "srv_meta st0 = (srv_meta st)((?l, ?c) := Some (m\<lparr>md_Version := ?v\<rparr>))"
    unfolding st0_def by (rule srv_update [OF s(1) s'(1,2)])+
  have ok0: "procs_ok st0" unfolding st0_def by (rule procs_ok_server [OF ok s(1) s'(3,1,2)])
  have e0: "entry st0 (f, i) = Some r" "entry st0 = entry st" "sched st0 = sched st" "cl_has_file st0 = cl_has_file st"
    using e by (simp_all add: st0_def entry_def cl_has_file_def fun_eq_iff)
  have i: "0 \<le> int_of_u64 i" using r by (simp add: entry_ok_def)
  from updateMasterVersion_ok [OF ok0 e0(1) i, of stamp ?l ?v] obtain st1 where
    st1: "updateMasterVersion stamp \<lparr>op_ServerLocation = ?l, op_Chunkid = ?c, op_Version = ?v\<rparr> st0 = Inr st1"
    "procs_ok st1" "cl_servers st1 = cl_servers st0" "entry st1 = (entry st)((f, i) \<mapsto> reported ?l ?v r)"
    "sched st1 = sched st" "cl_has_file st1 = cl_has_file st"
    using e0 by auto
  have srv: "srv_file st1 = (srv_file st)((?l, ?c) := Some ?g)"
    "srv_meta st1 = (srv_meta st)((?l, ?c) := Some (m\<lparr>md_Version := ?v\<rparr>))"
    using srv_cong [OF st1(3)] srv0 by simp_all
  have "f_size ?g = chunk_size" using f_size_file_write [of _ "Data req" g] sz req(3) by simp
  then have "entry_ok st1 (f, i) (reported ?l ?v r)"
    using r by (auto simp: entry_ok_def srv st1(5))
  from entries_ok_update [OF ents e st1(4,5) srv this] have "cl_wf st1" using st1(2) by (simp add: cl_wf_def)
  moreover have "only_chunk {?l} ?c st st1" using st1(5,6) srv(1) by (auto simp: only_chunk_def)
  ultimately show ?thesis using s(1) l w st1(1,4) srv(1) unfolding st0_def by auto
qed

text \<open>A completed write of the client: the table keeps its invariant and the primary has the bytes.\<close>

lemma call_Write_ok:
  assumes inv: "cl_inv st" and e: "entry st (f, i) = Some r"
    and req: "Chunkid req = chunk_id f i" "unat (Byteend req) < chunk_size" "unat (Bytebegin req) + length (Data req) \<le> chunk_size"
    and all: "AllServerLocation req = [] \<and> ver1 r = 0 \<and> ver2 r = 0 \<or> AllServerLocation req = map NodeLocation (sched st)"
    and g: "srv_file st (loc1 r, chunk_id f i) = Some g"
  shows "\<exists>st' r'. call_Write stamp (loc1 r) req st = Inr st' \<and> cl_inv st' \<and> entry st' = (entry st)((f, i) \<mapsto> r') \<and>
    loc1 r' = loc1 r \<and> only_chunk UNIV (chunk_id f i) st st' \<and>
    srv_file st' (loc1 r, chunk_id f i) = Some (file_write (unat (Bytebegin req)) (Data req) g)"
proof -
  let ?c = "chunk_id f i" and ?as = "updateReplicaVersion req (loc1 r)" and ?r = "reported (loc1 r) (ver1 r + 1) r"
  let ?bc = "\<lparr>bc_Chunkid = ?c, bc_Version = ver1 r + 1, bc_Bytebegin = Bytebegin req, bc_Byteend = Byteend req, bc_Data = Data req\<rparr>"
  have wf: "cl_wf st" and vers: "\<And>k q. entry st k = Some q \<Longrightarrow> versions_ok q" using inv by (auto simp: cl_inv_def)
  from primary_write [OF wf e req g, of stamp] obtain s s' res st1 where
    s: "cl_servers st (loc1 r) = Some s" "cs_location s = loc1 r"
    and w: "Write stamp req s = Inr (res, s', \<lparr>op_ServerLocation = loc1 r, op_Chunkid = ?c, op_Version = ver1 r + 1\<rparr>, ?bc)"
    and u: "updateMasterVersion stamp \<lparr>op_ServerLocation = loc1 r, op_Chunkid = ?c, op_Version = ver1 r + 1\<rparr>
      (st\<lparr>cl_servers := (cl_servers st)(loc1 r \<mapsto> s')\<rparr>) = Inr st1"
    and st1: "cl_wf st1" "entry st1 = (entry st)((f, i) \<mapsto> ?r)" "only_chunk {loc1 r} ?c st st1"
      "srv_file st1 (loc1 r, ?c) = Some (file_write (unat (Bytebegin req)) (Data req) g)" by blast
  have r: "entry_ok st (f, i) r" and ok: "procs_ok st" using wf e by (auto simp: cl_wf_def)
  have as: "loc1 r \<notin> set ?as" "distinct ?as"
    using all ok by (auto simp: updateReplicaVersion_def procs_ok_def)
  have "entry st1 (f, i) = Some ?r" "loc1 ?r \<notin> set ?as" using st1(2) as(1) by simp_all
  from broadcast_ok [OF st1(1) this(1) _ this(2) as(2), of ?bc stamp] req(2,3) obtain st' where
    st': "broadcast stamp ?bc ?as st1 = Inr st'" "cl_wf st'" "only_chunk (set ?as) ?c st1 st'"
    "entry st' = (entry st1)((f, i) \<mapsto> if loc2 r \<in> set ?as then reported (loc2 r) (ver1 r + 1) ?r else ?r)"
    by auto
  let ?r' = "if loc2 r \<in> set ?as then reported (loc2 r) (ver1 r + 1) ?r else ?r"
  have "loc2 r \<in> set ?as" if "AllServerLocation req = map NodeLocation (sched st)"
    using that r by (auto simp: updateReplicaVersion_def entry_ok_def)
  moreover have "?as = []" if "AllServerLocation req = []" using that by (simp add: updateReplicaVersion_def)
  ultimately have "versions_ok ?r'"
    using all r by (auto simp: versions_ok_def entry_ok_def)
  moreover have entry': "entry st' = (entry st)((f, i) \<mapsto> ?r')" unfolding st'(4) st1(2) fun_upd_upd by (rule refl)
  ultimately have "versions_ok q" if "entry st' k = Some q" for k q
    using that vers [of k q] by (cases "k = (f, i)") auto
  then have "cl_inv st'" using st'(2) by (simp add: cl_inv_def)
  moreover have "only_chunk UNIV ?c st st'" using only_chunk_trans [OF st1(3) st'(3)] by (auto simp: only_chunk_def)
  moreover have "srv_file st' (loc1 r, ?c) = srv_file st1 (loc1 r, ?c)" using st'(3) as(1) by (simp add: only_chunk_def)
  moreover have "call_Write stamp (loc1 r) req st = Inr st'" using s w u st'(1) by (simp add: call_Write_def)
  moreover have "loc1 ?r' = loc1 r" by simp
  ultimately show ?thesis using entry' st1(4) by (intro exI [of _ st'] exI [of _ ?r']) simp
qed

lemma content_updated:
  assumes i: "i < 2 ^ 63" and st': "entry st' = (entry st)((f, of_nat i) \<mapsto> r')"
      "\<And>l d. d \<noteq> chunk_id f (of_nat i) \<Longrightarrow> srv_file st' (l, d) = srv_file st (l, d)" "srv_file st' (loc1 r', chunk_id f (of_nat i)) = Some g"
  shows "cl_content st' = (cl_content st)((f, i) \<mapsto> f_byte g)"
proof
  fix k :: "string \<times> nat"
  obtain h j where k: "k = (h, j)" by (cases k)
  show "cl_content st' k = ((cl_content st)((f, i) \<mapsto> f_byte g)) k"
  proof (cases "j < 2 ^ 63 \<and> (h, j) \<noteq> (f, i)")
    case True
    then have ne: "(h, of_nat j :: u64) \<noteq> (f, of_nat i)" using index_inject [of j i] i by auto
    then have "chunk_id h (of_nat j) \<noteq> chunk_id f (of_nat i)"
      using chunk_id_inj [OF index_nonneg(1) index_nonneg(1), of j i h f] True i by auto
    then have "srv_file st' (l, chunk_id h (of_nat j)) = srv_file st (l, chunk_id h (of_nat j))" for l
      by (rule st'(2))
    moreover have "entry st' (h, of_nat j) = entry st (h, of_nat j)" unfolding st'(1) using ne by (rule fun_upd_other)
    moreover have "((cl_content st)((f, i) \<mapsto> f_byte g)) k = cl_content st k" using True k by (intro fun_upd_other) simp
    ultimately show ?thesis by (simp add: cl_content_def k split: option.splits)
  next
    case False
    then consider "(h, j) = (f, i)" | "\<not> j < 2 ^ 63" by blast
    then show ?thesis
    proof cases
      case 1
      have "entry st' (f, of_nat i) = Some r'" by (simp add: st'(1))
      with 1 show ?thesis using st'(3) i by (simp add: cl_content_def k)
    next
      case 2
      then have "j \<noteq> i" using i by blast
      with 2 show ?thesis by (simp add: cl_content_def k)
    qed
  qed
qed

section \<open>Creating chunks\<close>

lemma place_now:
  assumes ok: "procs_ok st"
  obtains l0 l1 where "place (fst (placement_env st)) (fst (snd (placement_env st))) (snd (snd (placement_env st))) 0 (sched st) [] =
      Some (Inr (l0, l1, sched st, [l0, l1]))" "l0 \<noteq> l1" "{l0, l1} \<subseteq> NodeLocation ` set (sched st)"
proof -
  have alive: "filter Alive (sched st) = sched st" using ok by (auto simp: procs_ok_def intro: filter_True)
  have "2 \<le> length (go_sort_by ChunkNum (filter Alive (sched st)))" using ok by (simp add: alive procs_ok_def)
  then obtain m0 m1 rest where sort: "go_sort_by ChunkNum (filter Alive (sched st)) = m0 # m1 # rest"
    by (metis Suc_le_length_iff numeral_2_eq_2)
  have "distinct (map NodeLocation (sched st))" using ok by (simp add: procs_ok_def)
  note least = two_least_nodes [OF sort this]
  have "mark_dead (\<lambda>_. False) (sched st) = sched st" by (simp add: mark_dead_def)
  then have "place (\<lambda>_ l. cl_servers st l \<noteq> None) (\<lambda>_ _. False) 1 0 (sched st) [] =
      Some (Inr (NodeLocation m0, NodeLocation m1, sched st, [NodeLocation m0, NodeLocation m1]))"
    using sort least(1,2) ok by (simp add: place.simps procs_ok_def Let_def)
  then show ?thesis using that [of "NodeLocation m0" "NodeLocation m1"] least by (simp add: placement_env_def)
qed

definition fresh_meta :: "string \<Rightarrow> Chunk" where
  "fresh_meta c = \<lparr>md_Chunkid = c, md_Version = 0\<rparr>"

text \<open>Creating the chunk on both servers.\<close>

lemma on_server_fresh:
  assumes "cl_servers st l = Some s" "cs_location s = l" "call s = Inr (x, s')" "cs_location s' = l"
    "cs_files s' = (cs_files s)(c \<mapsto> fresh_chunk)" "cs_meta s' = (cs_meta s)(c \<mapsto> fresh_meta c)"
  shows "\<exists>st'. on_server l call st = Inr st' \<and> cl_master st' = cl_master st \<and> cl_replicas st' = cl_replicas st \<and>
    srv_file st' = (srv_file st)((l, c) \<mapsto> fresh_chunk) \<and> srv_meta st' = (srv_meta st)((l, c) \<mapsto> fresh_meta c) \<and>
    dom (cl_servers st') = dom (cl_servers st) \<and>
    ((\<forall>k t. cl_servers st k = Some t \<longrightarrow> cs_location t = k) \<longrightarrow> (\<forall>k t. cl_servers st' k = Some t \<longrightarrow> cs_location t = k))"
  using assms srv_update [OF assms(1,5,6)]
  by (intro exI [of _ "st\<lparr>cl_servers := (cl_servers st)(l \<mapsto> s')\<rparr>"]) (auto simp: on_server_def)

lemma chunk_creatable: "creatable f \<Longrightarrow> creatable (chunk_id f i)"
proof -
  assume f: "creatable f"
  have "\<not> is_digit CHR ''/''" "\<not> is_digit CHR 0x00" by (simp_all add: is_digit_def)
  then have "CHR ''/'' \<notin> set (Itoa j)" "CHR 0x00 \<notin> set (Itoa j)" for j by (simp_all add: notin_Itoa)
  then show ?thesis using f by (auto simp: creatable_def chunk_id_def)
qed

lemma Add_fresh:
  "creatable (chunk_id f i) \<Longrightarrow> \<exists>x s'. Add stamp (master_chunk_request '''' f i) s = Inr (x, s') \<and> cs_location s' = cs_location s \<and>
     cs_files s' = (cs_files s)(chunk_id f i \<mapsto> fresh_chunk) \<and> cs_meta s' = (cs_meta s)(chunk_id f i \<mapsto> fresh_meta (chunk_id f i))"
  by (simp add: Add_def ChunkServer.AddChunk_def make_chunk_def master_chunk_request_def chunk_id_def fresh_meta_def Let_def)

lemma chunk_id_0: "chunk_id f 0 = f @ ''-0''"
  by (simp add: chunk_id_def int_of_u64_def Itoa_nonneg nat_str.simps)

lemma Create_fresh:
  "creatable (chunk_id f 0) \<Longrightarrow> \<exists>x s'. Create stamp (master_chunk_request '''' f 0) s = Inr (x, s') \<and> cs_location s' = cs_location s \<and>
     cs_files s' = (cs_files s)(chunk_id f 0 \<mapsto> fresh_chunk) \<and> cs_meta s' = (cs_meta s)(chunk_id f 0 \<mapsto> fresh_meta (chunk_id f 0))"
  by (simp add: Create_def CreateChunk_def make_chunk_def master_chunk_request_def chunk_id_0 fresh_meta_def Let_def)

lemma each_fresh:
  assumes call: "\<And>s. \<exists>x s'. call s = Inr (x, s') \<and> cs_location s' = cs_location s \<and>
      cs_files s' = (cs_files s)(c \<mapsto> fresh_chunk) \<and> cs_meta s' = (cs_meta s)(c \<mapsto> fresh_meta c)"
    and ok: "procs_ok st" and l: "{l0, l1} \<subseteq> NodeLocation ` set (sched st)"
  shows "\<exists>st'. each (\<lambda>l. on_server l call) [l0, l1] st = Inr st' \<and> cl_master st' = cl_master st \<and> cl_replicas st' = cl_replicas st \<and>
    srv_file st' = (srv_file st)((l0, c) \<mapsto> fresh_chunk, (l1, c) \<mapsto> fresh_chunk) \<and>
    srv_meta st' = (srv_meta st)((l0, c) \<mapsto> fresh_meta c, (l1, c) \<mapsto> fresh_meta c) \<and>
    dom (cl_servers st') = dom (cl_servers st) \<and> (\<forall>k t. cl_servers st' k = Some t \<longrightarrow> cs_location t = k)"
proof -
  have loc: "\<forall>k t. cl_servers st k = Some t \<longrightarrow> cs_location t = k" using ok by (simp add: procs_ok_def)
  have "cl_servers st l0 \<noteq> None" "cl_servers st l1 \<noteq> None" using l ok by (auto simp: procs_ok_def)
  then obtain s0 where s0: "cl_servers st l0 = Some s0" "cs_location s0 = l0" using loc by auto
  obtain x s0' where c0: "call s0 = Inr (x, s0')" "cs_location s0' = l0"
    "cs_files s0' = (cs_files s0)(c \<mapsto> fresh_chunk)" "cs_meta s0' = (cs_meta s0)(c \<mapsto> fresh_meta c)" using call [of s0] s0(2) by auto
  obtain st1 where st1: "on_server l0 call st = Inr st1" "cl_master st1 = cl_master st" "cl_replicas st1 = cl_replicas st"
    "srv_file st1 = (srv_file st)((l0, c) \<mapsto> fresh_chunk)" "srv_meta st1 = (srv_meta st)((l0, c) \<mapsto> fresh_meta c)"
    "dom (cl_servers st1) = dom (cl_servers st)" "\<forall>k t. cl_servers st1 k = Some t \<longrightarrow> cs_location t = k"
    using on_server_fresh [of st l0 s0 call, OF s0 c0] loc by blast
  then obtain s1 where s1: "cl_servers st1 l1 = Some s1" "cs_location s1 = l1"
    using \<open>cl_servers st l1 \<noteq> None\<close> by (metis domIff option.exhaust)
  obtain x1 s1' where c1: "call s1 = Inr (x1, s1')" "cs_location s1' = l1"
    "cs_files s1' = (cs_files s1)(c \<mapsto> fresh_chunk)" "cs_meta s1' = (cs_meta s1)(c \<mapsto> fresh_meta c)" using call [of s1] s1(2) by auto
  obtain st2 where "on_server l1 call st1 = Inr st2" "cl_master st2 = cl_master st1" "cl_replicas st2 = cl_replicas st1"
    "srv_file st2 = (srv_file st1)((l1, c) \<mapsto> fresh_chunk)" "srv_meta st2 = (srv_meta st1)((l1, c) \<mapsto> fresh_meta c)"
    "dom (cl_servers st2) = dom (cl_servers st1)" "\<forall>k t. cl_servers st2 k = Some t \<longrightarrow> cs_location t = k"
    using on_server_fresh [of st1 l1 s1 call, OF s1 c1] st1(7) by blast
  then show ?thesis using st1 by simp
qed

lemma procs_ok_fresh:
  assumes ok: "procs_ok st" and f: "creatable f"
    and m: "m_isLeader (cl_master st')" "map NodeLocation (sched st') = map NodeLocation (sched st)"
      "map Alive (sched st') = map Alive (sched st)" "m_location (cl_master st') = m_location (cl_master st)"
    and R: "\<And>a. cl_replicas st' a = None \<longleftrightarrow> cl_replicas st a = None"
    and S: "dom (cl_servers st') = dom (cl_servers st)" "\<forall>k t. cl_servers st' k = Some t \<longrightarrow> cs_location t = k"
    and srv: "srv_file st' = (srv_file st)((l0, c) \<mapsto> fresh_chunk, (l1, c) \<mapsto> fresh_chunk)"
      "srv_meta st' = (srv_meta st)((l0, c) \<mapsto> fresh_meta c, (l1, c) \<mapsto> fresh_meta c)"
    and F: "m_files (cl_master st') = (m_files (cl_master st))(f \<mapsto> sl)" "gomap_ok sl"
  shows "procs_ok st'"
proof -
  have len: "length (sched st') = length (sched st)" by (rule map_eq_imp_length_eq [OF m(2)])
  have "set (map Alive (sched st')) \<subseteq> {True}" unfolding m(3) using ok by (auto simp: procs_ok_def)
  moreover have "NodeLocation ` set (sched st') = NodeLocation ` set (sched st)" using m(2) by (metis set_map)
  then have "NodeLocation ` set (sched st') \<subseteq> dom (cl_servers st')" using ok unfolding S(1) by (auto simp: procs_ok_def)
  then have "cl_servers st' (NodeLocation n) \<noteq> None" if "n \<in> set (sched st')" for n using that by auto
  moreover have "cl_servers st' '''' = None" using ok S(1) by (metis domIff procs_ok_def)
  moreover have "peers (cl_master st') = peers (cl_master st)" by (rule peers_cong) (rule m(4))
  moreover have "up st' a \<longleftrightarrow> up st a" for a using R by (simp add: up_def)
  ultimately show ?thesis
    using ok m(1,2) len S(2) F f unfolding procs_ok_def by (auto simp: srv image_subset_iff split: if_splits)
qed

lemma fresh_entry:
  assumes inv: "cl_inv st" and l: "l0 \<noteq> l1" "{l0, l1} \<subseteq> NodeLocation ` set (sched st)"
    and i: "0 \<le> int_of_u64 i" and ok: "procs_ok st'"
    and e: "entry st' = (entry st)((f, i) \<mapsto> new_replicas (chunk_id f i) l0 l1)"
    and m: "map NodeLocation (sched st') = map NodeLocation (sched st)"
    and srv: "srv_file st' = (srv_file st)((l0, chunk_id f i) \<mapsto> fresh_chunk, (l1, chunk_id f i) \<mapsto> fresh_chunk)"
      "srv_meta st' = (srv_meta st)((l0, chunk_id f i) \<mapsto> fresh_meta (chunk_id f i), (l1, chunk_id f i) \<mapsto> fresh_meta (chunk_id f i))"
  shows "cl_inv st'"
proof -
  have locs: "NodeLocation ` set (sched st') = NodeLocation ` set (sched st)" using m by (metis set_map)
  have "entry_ok st' k q \<and> versions_ok q" if q: "entry st' k = Some q" for k q
  proof (cases "k = (f, i)")
    case True
    then have "q = new_replicas (chunk_id f i) l0 l1" using q e by simp
    then show ?thesis
      using True l i by (simp add: entry_ok_def versions_ok_def new_replicas_def srv locs fresh_meta_def)
  next
    case False
    obtain h j where k: "k = (h, j)" by (cases k)
    have "entry st k = Some q" using q False by (simp add: e split: if_splits)
    then have q: "entry_ok st (h, j) q" "versions_ok q" using inv k by (auto simp: cl_inv_def cl_wf_def)
    then have "chunk_id h j \<noteq> chunk_id f i"
      using False i k chunk_id_inj [of j i h f] by (auto simp: entry_ok_def)
    then have "entry_ok st' (h, j) q" by (intro entry_ok_frame [OF q(1) locs]) (simp_all add: srv)
    then show ?thesis using q(2) k by simp
  qed
  then show ?thesis using ok by (simp add: cl_inv_def cl_wf_def)
qed

lemma fresh_content:
  assumes "i < 2 ^ 63" "entry st' = (entry st)((f, of_nat i) \<mapsto> new_replicas (chunk_id f (of_nat i)) l0 l1)"
    "srv_file st' = (srv_file st)((l0, chunk_id f (of_nat i)) \<mapsto> fresh_chunk, (l1, chunk_id f (of_nat i)) \<mapsto> fresh_chunk)"
  shows "cl_content st' = (cl_content st)((f, i) \<mapsto> \<lambda>_. CHR 0x00)"
proof -
  have "f_byte fresh_chunk = (\<lambda>_. CHR 0x00)" by (simp add: fun_eq_iff)
  then show ?thesis using content_updated [OF assms(1,2), of fresh_chunk] assms(3) by (simp add: new_replicas_def)
qed

lemma AddChunk_law:
  assumes inv: "cl_inv st" and f: "cl_has_file st f" and none: "cl_content st (f, i) = None" and i: "i < 2 ^ 63"
  shows "\<exists>loc cid st'. rpcToMasterAddChunk stamp f (of_nat i) st = Inr ((loc, cid, 0), st') \<and> cl_inv st' \<and>
    cl_handle st' (f, i) loc cid [] \<and> cl_has_file st' = cl_has_file st \<and> cl_content st' = (cl_content st)((f, i) \<mapsto> \<lambda>_. CHR 0x00) \<and>
    cid = chunk_id f (of_nat i) \<and> (\<exists>rep. rep \<noteq> loc \<and> entry st' (f, of_nat i) = Some (new_replicas cid loc rep) \<and>
      srv_file st' (loc, cid) = Some fresh_chunk \<and> srv_file st' (rep, cid) = Some fresh_chunk)"
proof -
  let ?i = "of_nat i :: u64" and ?m = "cl_master st" and ?req = "client_request f (of_nat i) True False"
  let ?c = "chunk_id f ?i"
  have ok: "procs_ok st" using inv by (simp add: cl_inv_def cl_wf_def)
  obtain l0 l1 where p: "place (fst (placement_env st)) (fst (snd (placement_env st))) (snd (snd (placement_env st))) 0 (sched st) [] =
      Some (Inr (l0, l1, sched st, [l0, l1]))" and l: "l0 \<noteq> l1" "{l0, l1} \<subseteq> NodeLocation ` set (sched st)"
    by (rule place_now [OF ok])
  obtain sl where sl: "m_files ?m f = Some sl" using f by (auto simp: cl_has_file_def)
  then have cf: "creatable f" "gomap_ok sl" using ok by (auto simp: procs_ok_def)
  define m1 where "m1 = ?m\<lparr>m_schedule := add_load 1 l0 l1 (sched st), m_files := (m_files ?m)(f \<mapsto> AList.update ?i (new_replicas ?c l0 l1) sl)\<rparr>"
  define m2 where "m2 = master_log stamp (add_record f ?i l0 l1) m1"
  define msgs where "msgs = map (\<lambda>a. (a, AddChunkReplica_msg (replica_request ?req ?i True l0 l1))) (filter (up st) (peers m2))"
  have h: "MasterServer.AddChunk stamp (up st) (placement_env st) ?req ?m =
      Some (Inr (no_response\<lparr>mr_Chunkid := ?c, mr_Chunklocation := l0\<rparr>, m2, msgs, [l0, l1]))"
    using ok p sl by (simp add: MasterServer.AddChunk_def AddChunkFunc_rpc_def record_chunk_def client_request_def procs_ok_def
        m1_def m2_def msgs_def Let_def)
  have "creatable ?c" by (rule chunk_creatable [OF cf(1)])
  from each_fresh [of "Add stamp (master_chunk_request '''' f ?i)" ?c, OF Add_fresh [OF this] ok l(2)] obtain st1 where
    st1: "each (AddChunk_call stamp f ?i) [l0, l1] st = Inr st1" "cl_master st1 = ?m" "cl_replicas st1 = cl_replicas st"
    "srv_file st1 = (srv_file st)((l0, ?c) \<mapsto> fresh_chunk, (l1, ?c) \<mapsto> fresh_chunk)"
    "srv_meta st1 = (srv_meta st)((l0, ?c) \<mapsto> fresh_meta ?c, (l1, ?c) \<mapsto> fresh_meta ?c)"
    "dom (cl_servers st1) = dom (cl_servers st)" "\<forall>k t. cl_servers st1 k = Some t \<longrightarrow> cs_location t = k"
    unfolding AddChunk_call_def by blast
  define st' where "st' = st1\<lparr>cl_master := m2, cl_replicas := deliver_all stamp msgs (cl_replicas st)\<rparr>"
  have srv: "srv_file st' = (srv_file st)((l0, ?c) \<mapsto> fresh_chunk, (l1, ?c) \<mapsto> fresh_chunk)"
    "srv_meta st' = (srv_meta st)((l0, ?c) \<mapsto> fresh_meta ?c, (l1, ?c) \<mapsto> fresh_meta ?c)" "cl_servers st' = cl_servers st1"
    using st1(4,5) srv_cong [of st' st1] by (simp_all add: st'_def)
  have sched: "map NodeLocation (sched st') = map NodeLocation (sched st)" "map Alive (sched st') = map Alive (sched st)"
    by (simp_all add: st'_def m2_def m1_def)
  have e: "entry st' = (entry st)((f, ?i) \<mapsto> new_replicas ?c l0 l1)"
    using sl by (auto simp: entry_def st'_def m2_def m1_def fun_eq_iff)
  have "deliver_all stamp msgs R a = None \<longleftrightarrow> R a = None" for R a
    by (rule deliver_all_dom) (use deliver_add in \<open>auto simp: msgs_def\<close>)
  then have ok': "procs_ok st'"
    using ok by (intro procs_ok_fresh [OF ok cf(1) _ sched _ _ _ _ srv(1,2), of "AList.update ?i (new_replicas ?c l0 l1) sl"])
      (use st1(6,7) cf(2) in \<open>auto simp: st'_def m2_def m1_def procs_ok_def\<close>)
  have "cl_inv st'" by (rule fresh_entry [OF inv l index_nonneg(1) [OF i] ok' e sched(1) srv(1,2)])
  moreover have "rpcToMasterAddChunk stamp f ?i st = Inr ((l0, ?c, 0), st')"
    using h st1(1-3) by (simp add: rpcToMasterAddChunk_def after_placement_def st'_def no_response_def)
  moreover have "cl_has_file st' = cl_has_file st"
    using sl by (auto simp: cl_has_file_def st'_def m2_def m1_def fun_eq_iff)
  moreover have "cl_handle st' (f, i) l0 ?c []" using i by (simp add: cl_handle_def e new_replicas_def)
  moreover have "entry st' (f, ?i) = Some (new_replicas ?c l0 l1)" "srv_file st' (l0, ?c) = Some fresh_chunk"
    "srv_file st' (l1, ?c) = Some fresh_chunk" using e srv(1) l(1) by simp_all
  ultimately show ?thesis using fresh_content [OF i e srv(1)] l(1) by metis
qed

lemma NewFile_law:
  assumes inv: "cl_inv st" and f: "\<not> cl_has_file st f" and cf: "creatable f"
  shows "\<exists>st'. call_NewFileChunk stamp f st = Inr (0, st') \<and> cl_inv st' \<and> cl_has_file st' = (cl_has_file st)(f := True) \<and>
    cl_content st' = (cl_content st)((f, 0) \<mapsto> \<lambda>_. CHR 0x00)"
proof -
  let ?m = "cl_master st" and ?req = "client_request f 0 False False" and ?c = "chunk_id f 0"
  have ok: "procs_ok st" using inv by (simp add: cl_inv_def cl_wf_def)
  obtain l0 l1 where p: "place (fst (placement_env st)) (fst (snd (placement_env st))) (snd (snd (placement_env st))) 0 (sched st) [] =
      Some (Inr (l0, l1, sched st, [l0, l1]))" and l: "l0 \<noteq> l1" "{l0, l1} \<subseteq> NodeLocation ` set (sched st)"
    by (rule place_now [OF ok])
  have none: "m_files ?m f = None" using f by (simp add: cl_has_file_def)
  define m1 where "m1 = record_file f l0 l1 (?m\<lparr>m_schedule := sched st\<rparr>)"
  define m2 where "m2 = master_log stamp (new_record f l0 l1) m1"
  have m2: "m_isLeader m2 = m_isLeader ?m" "m_location m2 = m_location ?m" "m_schedule m2 = add_load 1 l0 l1 (sched st)"
    "m_files m2 = (m_files ?m)(f \<mapsto> [(0, new_replicas ?c l0 l1)])"
    by (simp_all add: m2_def m1_def record_file_def chunk_id_0)
  define msgs where "msgs = map (\<lambda>a. (a, NewFileChunkReplica_msg (replica_request ?req 0 False l0 l1))) (peers m2)"
  have "peers m2 = peers ?m" by (rule peers_cong) (rule m2(2))
  then have "list_all (up st) (peers m2)" using ok by (simp add: procs_ok_def list_all_iff)
  then have h: "NewFileChunk stamp (up st) (placement_env st) ?req ?m =
      Some (Inr (no_response\<lparr>mr_Chunkid := f @ ''-0'', mr_Chunklocation := l0\<rparr>, m2, msgs, [l0, l1]))"
    using ok p none by (simp add: NewFileChunk_def NewFileChunkFunc_rpc_def client_request_def procs_ok_def
        m1_def m2_def msgs_def Let_def)
  have "creatable ?c" by (rule chunk_creatable [OF cf])
  from each_fresh [of "Create stamp (master_chunk_request '''' f 0)" ?c, OF Create_fresh [OF this] ok l(2)] obtain st1 where
    st1: "each (CreateNewFileChunk stamp f) [l0, l1] st = Inr st1" "cl_master st1 = ?m" "cl_replicas st1 = cl_replicas st"
    "srv_file st1 = (srv_file st)((l0, ?c) \<mapsto> fresh_chunk, (l1, ?c) \<mapsto> fresh_chunk)"
    "srv_meta st1 = (srv_meta st)((l0, ?c) \<mapsto> fresh_meta ?c, (l1, ?c) \<mapsto> fresh_meta ?c)"
    "dom (cl_servers st1) = dom (cl_servers st)" "\<forall>k t. cl_servers st1 k = Some t \<longrightarrow> cs_location t = k"
    unfolding CreateNewFileChunk_def by blast
  define st' where "st' = st1\<lparr>cl_master := m2, cl_replicas := deliver_all stamp msgs (cl_replicas st)\<rparr>"
  have srv: "srv_file st' = (srv_file st)((l0, ?c) \<mapsto> fresh_chunk, (l1, ?c) \<mapsto> fresh_chunk)"
    "srv_meta st' = (srv_meta st)((l0, ?c) \<mapsto> fresh_meta ?c, (l1, ?c) \<mapsto> fresh_meta ?c)" "cl_servers st' = cl_servers st1"
    using st1(4,5) srv_cong [of st' st1] by (simp_all add: st'_def)
  have sched: "map NodeLocation (sched st') = map NodeLocation (sched st)" "map Alive (sched st') = map Alive (sched st)"
    by (simp_all add: st'_def m2)
  have e: "entry st' = (entry st)((f, 0) \<mapsto> new_replicas ?c l0 l1)"
    using none by (auto simp: entry_def st'_def m2 fun_eq_iff)
  have "deliver_all stamp msgs R a = None \<longleftrightarrow> R a = None" for R a
    by (rule deliver_all_dom) (auto simp: msgs_def)
  then have ok': "procs_ok st'"
    using ok by (intro procs_ok_fresh [OF ok cf _ sched _ _ _ _ srv(1,2), of "[(0, new_replicas ?c l0 l1)]"])
      (use st1(6,7) in \<open>auto simp: st'_def m2 procs_ok_def gomap_ok_def\<close>)
  have "cl_inv st'"
    by (rule fresh_entry [OF inv l _ ok' e sched(1) srv(1,2)]) (simp add: int_of_u64_def)
  moreover have "call_NewFileChunk stamp f st = Inr (0, st')"
    using h st1(1-3) by (simp add: call_NewFileChunk_def after_placement_def st'_def no_response_def)
  moreover have "cl_has_file st' = (cl_has_file st)(f := True)"
    by (auto simp: cl_has_file_def st'_def m2 fun_eq_iff)
  moreover have "cl_content st' = (cl_content st)((f, 0) \<mapsto> \<lambda>_. CHR 0x00)"
    using fresh_content [of 0 st' st f l0 l1] e srv(1) by simp
  ultimately show ?thesis by blast
qed

section \<open>Deleting a file\<close>

lemma each_delete:
  assumes "distinct calls" "\<And>c l. (c, l) \<in> set calls \<Longrightarrow> srv_file st (l, c) \<noteq> None"
    and "\<forall>k t. cl_servers st k = Some t \<longrightarrow> cs_location t = k"
  shows "\<exists>st'. each (DeleteFileChunk stamp) calls st = Inr st' \<and> cl_master st' = cl_master st \<and> cl_replicas st' = cl_replicas st \<and>
    srv_file st' = (\<lambda>(l, c). if (c, l) \<in> set calls then None else srv_file st (l, c)) \<and>
    srv_meta st' = (\<lambda>(l, c). if (c, l) \<in> set calls then None else srv_meta st (l, c)) \<and>
    dom (cl_servers st') = dom (cl_servers st) \<and> (\<forall>k t. cl_servers st' k = Some t \<longrightarrow> cs_location t = k)"
  using assms
proof (induction calls arbitrary: st)
  case Nil
  then show ?case by (auto simp: fun_eq_iff)
next
  case (Cons x calls)
  obtain c l where x: "x = (c, l)" by (cases x)
  obtain s where s: "cl_servers st l = Some s" "cs_files s c \<noteq> None"
    using Cons.prems(2) [of c l] x by (auto simp: srv_file_def split: option.splits)
  define s' where "s' = log_println stamp (''Removee Chunkid:'' @ c @ ''/'') (s\<lparr>cs_files := (cs_files s)(c := None), cs_meta := (cs_meta s)(c := None)\<rparr>)"
  define st1 where "st1 = st\<lparr>cl_servers := (cl_servers st)(l \<mapsto> s')\<rparr>"
  have s': "cs_files s' = (cs_files s)(c := None)" "cs_meta s' = (cs_meta s)(c := None)" "cs_location s' = cs_location s"
    by (simp_all add: s'_def)
  have step: "DeleteFileChunk stamp x st = Inr st1"
    using s by (simp add: DeleteFileChunk_def x on_server_def Delete_def DeleteChunk_def master_chunk_request_def st1_def s'_def)
  have srv: "srv_file st1 = (srv_file st)((l, c) := None)" "srv_meta st1 = (srv_meta st)((l, c) := None)"
    unfolding st1_def by (rule srv_update [OF s(1) s'(1,2)])+
  have dom: "dom (cl_servers st1) = dom (cl_servers st)" using s(1) by (auto simp: st1_def)
  have "distinct calls" "\<forall>k t. cl_servers st1 k = Some t \<longrightarrow> cs_location t = k"
    using Cons.prems(1,3) s s'(3) by (auto simp: st1_def)
  moreover have "srv_file st1 (l', c') \<noteq> None" if "(c', l') \<in> set calls" for c' l'
    using that Cons.prems(1,2) x srv(1) by fastforce
  ultimately obtain st' where st': "each (DeleteFileChunk stamp) calls st1 = Inr st'" "cl_master st' = cl_master st1"
    "cl_replicas st' = cl_replicas st1"
    "srv_file st' = (\<lambda>(l, c). if (c, l) \<in> set calls then None else srv_file st1 (l, c))"
    "srv_meta st' = (\<lambda>(l, c). if (c, l) \<in> set calls then None else srv_meta st1 (l, c))"
    "dom (cl_servers st') = dom (cl_servers st1)" "\<forall>k t. cl_servers st' k = Some t \<longrightarrow> cs_location t = k"
    using Cons.IH [of st1] by blast
  have "srv_file st' = (\<lambda>(l, c). if (c, l) \<in> set (x # calls) then None else srv_file st (l, c))"
    "srv_meta st' = (\<lambda>(l, c). if (c, l) \<in> set (x # calls) then None else srv_meta st (l, c))"
    by (auto simp: st'(4,5) srv x fun_eq_iff)
  moreover have "cl_master st1 = cl_master st" "cl_replicas st1 = cl_replicas st" by (simp_all add: st1_def)
  ultimately show ?case using step st' dom by (intro exI [of _ st']) simp
qed

lemma delete_calls_distinct:
  assumes "gomap_ok sl" "\<And>i r. (i, r) \<in> set sl \<Longrightarrow> 0 \<le> int_of_u64 i \<and> cm_Chunkid (Chunk_1 r) = chunk_id f i \<and>
      cm_Chunkid (Chunk_2 r) = chunk_id f i \<and> loc1 r \<noteq> loc2 r"
  shows "distinct (concat (map (\<lambda>r. [(cm_Chunkid (Chunk_1 r), loc1 r), (cm_Chunkid (Chunk_2 r), loc2 r)]) (map snd sl)))"
  using assms
proof (induction sl)
  case (Cons p sl)
  obtain i r where p: "p = (i, r)" by (cases p)
  have ids: "0 \<le> int_of_u64 i \<and> cm_Chunkid (Chunk_1 r) = chunk_id f i \<and> cm_Chunkid (Chunk_2 r) = chunk_id f i \<and> loc1 r \<noteq> loc2 r"
    by (rule Cons.prems(2)) (simp add: p)
  have "chunk_id f j \<noteq> chunk_id f i" if "(j, q) \<in> set sl" for j q
  proof -
    have "i \<notin> fst ` set sl" using Cons.prems(1) p by (simp add: gomap_ok_def)
    then have "j \<noteq> i" using that by (metis fst_conv image_eqI)
    moreover have "0 \<le> int_of_u64 j" using Cons.prems(2) [of j q] that by (simp add: p)
    ultimately show ?thesis using chunk_id_inj [of j i f f] ids by simp
  qed
  then have other: "c \<noteq> chunk_id f i" if cl: "(c, l) \<in> set (concat (map (\<lambda>r. [(cm_Chunkid (Chunk_1 r), loc1 r), (cm_Chunkid (Chunk_2 r), loc2 r)]) (map snd sl)))" for c l
  proof -
    obtain q where "q \<in> snd ` set sl" and c: "c = cm_Chunkid (Chunk_1 q) \<or> c = cm_Chunkid (Chunk_2 q)" using cl by auto
    then obtain j where q: "(j, q) \<in> set sl" by auto
    moreover have "cm_Chunkid (Chunk_1 q) = chunk_id f j \<and> cm_Chunkid (Chunk_2 q) = chunk_id f j"
      using Cons.prems(2) [of j q] q by (simp add: p)
    ultimately show ?thesis using c \<open>\<And>j q. (j, q) \<in> set sl \<Longrightarrow> chunk_id f j \<noteq> chunk_id f i\<close> [OF q] by auto
  qed
  have "gomap_ok sl" using Cons.prems(1) p by (simp add: gomap_ok_def)
  then have "distinct (concat (map (\<lambda>r. [(cm_Chunkid (Chunk_1 r), loc1 r), (cm_Chunkid (Chunk_2 r), loc2 r)]) (map snd sl)))"
    using Cons.prems(2) by (intro Cons.IH) auto
  then show ?case using ids other [of "chunk_id f i"] by (auto simp: p)
qed simp

lemma Delete_law:
  assumes inv: "cl_inv st"
  shows "\<exists>st'. call_DeleteFileAndChunks stamp f st = Inr st' \<and> cl_inv st' \<and> cl_has_file st' = (cl_has_file st)(f := False) \<and>
    cl_content st' = (\<lambda>(g, i). if g = f then None else cl_content st (g, i))"
proof -
  let ?m = "cl_master st" and ?req = "client_request f 0 False False"
  have ok: "procs_ok st" and ents: "\<And>k r. entry st k = Some r \<Longrightarrow> entry_ok st k r \<and> versions_ok r"
    using inv by (auto simp: cl_inv_def cl_wf_def)
  define m1 where "m1 = master_log stamp (delete_record f) ?m"
  define calls where "calls = delete_calls f m1"
  define m2 where "m2 = DeleteFileAndChunksFunc f m1"
  define msgs where "msgs = map (\<lambda>a. (a, DeleteReplica_msg ?req)) (peers m2)"
  define st1 where "st1 = st\<lparr>cl_master := m2, cl_replicas := deliver_all stamp msgs (cl_replicas st)\<rparr>"
  define sl where "sl = (case m_files ?m f of None \<Rightarrow> [] | Some s \<Rightarrow> s)"
  have m2: "m_isLeader m2 = m_isLeader ?m" "m_location m2 = m_location ?m" "m_files m2 = (m_files ?m)(f := None)"
    by (simp_all add: m2_def m1_def DeleteFileAndChunksFunc_def)
  have fold: "map NodeLocation (fold (\<lambda>r. add_load d (loc1 r) (loc2 r)) rs s) = map NodeLocation s"
    "map Alive (fold (\<lambda>r. add_load d (loc1 r) (loc2 r)) rs s) = map Alive s" for d rs s
    by (induction rs arbitrary: s) simp_all
  have sched: "map NodeLocation (m_schedule m2) = map NodeLocation (sched st)" "map Alive (m_schedule m2) = map Alive (sched st)"
    by (simp_all add: m2_def m1_def DeleteFileAndChunksFunc_def fold)
  have peers: "peers m2 = peers ?m" by (rule peers_cong) (rule m2(2))
  then have "list_all (up st) (peers m2)" using ok by (simp add: procs_ok_def list_all_iff)
  then have h: "DeleteFileAndChunks stamp (up st) ?req ?m = Inr (no_response, m2, msgs, calls)"
    using ok by (simp add: DeleteFileAndChunks_def client_request_def procs_ok_def m1_def m2_def calls_def msgs_def Let_def)
  have sl_ok: "gomap_ok sl" using ok by (auto simp: sl_def procs_ok_def split: option.splits)
  have sl_ents: "entry_ok st (f, i) r" if "(i, r) \<in> set sl" for i r
    using that sl_ok ents [of "(f, i)" r] by (auto simp: sl_def entry_def gomap_ok_def split: option.splits)
  have calls: "calls = concat (map (\<lambda>r. [(cm_Chunkid (Chunk_1 r), loc1 r), (cm_Chunkid (Chunk_2 r), loc2 r)]) (map snd sl))"
    by (simp add: calls_def delete_calls_def chunks_of_def sl_def m1_def split: option.splits)
  have "distinct calls" unfolding calls
    by (rule delete_calls_distinct [OF sl_ok, of f]) (auto dest: sl_ents simp: entry_ok_def)
  have in_calls: "srv_file st (l, c) \<noteq> None \<and> (\<exists>i. 0 \<le> int_of_u64 i \<and> c = chunk_id f i)" if cl: "(c, l) \<in> set calls" for c l
  proof -
    obtain i r where "(i, r) \<in> set sl" "(c, l) = (cm_Chunkid (Chunk_1 r), loc1 r) \<or> (c, l) = (cm_Chunkid (Chunk_2 r), loc2 r)"
      using cl unfolding calls by auto
    with sl_ents [of i r] show ?thesis by (auto simp: entry_ok_def)
  qed
  have st1: "srv_file st1 = srv_file st" "srv_meta st1 = srv_meta st" "cl_servers st1 = cl_servers st" "cl_master st1 = m2"
    "cl_replicas st1 = deliver_all stamp msgs (cl_replicas st)"
    using srv_cong [of st1 st] by (simp_all add: st1_def)
  have sf: "srv_file st1 (l, c) \<noteq> None" if "(c, l) \<in> set calls" for c l using in_calls [OF that] st1(1) by simp
  have "\<forall>k t. cl_servers st1 k = Some t \<longrightarrow> cs_location t = k" using ok st1(3) by (simp add: procs_ok_def)
  from each_delete [OF \<open>distinct calls\<close> sf this, of stamp, unfolded st1] obtain st' where st': "each (DeleteFileChunk stamp) calls st1 = Inr st'" "cl_master st' = m2"
    "cl_replicas st' = deliver_all stamp msgs (cl_replicas st)"
    "srv_file st' = (\<lambda>(l, c). if (c, l) \<in> set calls then None else srv_file st (l, c))"
    "srv_meta st' = (\<lambda>(l, c). if (c, l) \<in> set calls then None else srv_meta st (l, c))"
    "dom (cl_servers st') = dom (cl_servers st)" "\<forall>k t. cl_servers st' k = Some t \<longrightarrow> cs_location t = k"
    by blast
  have e: "entry st' = (\<lambda>(g, i). if g = f then None else entry st (g, i))"
    by (auto simp: entry_def st'(2) m2 fun_eq_iff)
  have locs: "NodeLocation ` set (sched st') = NodeLocation ` set (sched st)"
    using sched(1) st'(2) by (metis set_map)
  have other: "(chunk_id g i, l) \<notin> set calls" if "g \<noteq> f" "0 \<le> int_of_u64 i" for g i l
    using in_calls [of "chunk_id g i" l] that chunk_id_inj [of i _ g f] by auto
  have "entry_ok st' k q \<and> versions_ok q" if q: "entry st' k = Some q" for k q
  proof -
    obtain g j where k: "k = (g, j)" by (cases k)
    then have g: "g \<noteq> f" "entry_ok st (g, j) q" "versions_ok q" using q ents [of k q] by (auto simp: e split: if_splits)
    then have "(chunk_id g j, l) \<notin> set calls" for l using other by (simp add: entry_ok_def)
    then have "entry_ok st' (g, j) q" by (intro entry_ok_frame [OF g(2) locs]) (simp_all add: st'(4,5))
    then show ?thesis using g(3) k by simp
  qed
  moreover have "procs_ok st'"
  proof -
    have "deliver_all stamp msgs R a = None \<longleftrightarrow> R a = None" for R a by (rule deliver_all_dom) (auto simp: msgs_def)
    then have "up st' a \<longleftrightarrow> up st a" for a by (simp add: up_def st'(3))
    moreover have "set (map Alive (sched st')) \<subseteq> {True}" unfolding st'(2) sched(2) using ok by (auto simp: procs_ok_def)
    moreover have "NodeLocation ` set (sched st') \<subseteq> dom (cl_servers st')" using ok locs unfolding st'(6) by (auto simp: procs_ok_def)
    moreover have "cl_servers st' '''' = None" using ok st'(6) by (metis domIff procs_ok_def)
    moreover have "length (sched st') = length (sched st)" unfolding st'(2) by (rule map_eq_imp_length_eq [OF sched(1)])
    ultimately show ?thesis
      using ok m2 sched(1) peers st'(7) unfolding procs_ok_def by (auto simp: st'(2,4,5) image_subset_iff dom_def split: if_splits)
  qed
  ultimately have "cl_inv st'" by (simp add: cl_inv_def cl_wf_def)
  moreover have "call_DeleteFileAndChunks stamp f st = Inr st'" using h st'(1) by (simp add: call_DeleteFileAndChunks_def st1_def)
  moreover have "cl_has_file st' = (cl_has_file st)(f := False)" by (auto simp: cl_has_file_def st'(2) m2 fun_eq_iff)
  moreover have "cl_content st' = (\<lambda>(g, i). if g = f then None else cl_content st (g, i))"
    using other index_nonneg(1) by (auto simp: cl_content_def e st'(4) fun_eq_iff split: option.splits)
  ultimately show ?thesis by blast
qed

section \<open>The contract of the client holds\<close>

lemma alive_sched: "procs_ok st \<Longrightarrow> filter Alive (sched st) = sched st"
  by (auto simp: procs_ok_def intro: filter_True)

lemma locate_entry:
  assumes inv: "cl_inv st" and e: "entry st (f, i) = Some r"
  shows "rpcToMasterGetChunkLocation f i st = Inr ((loc1 r, chunk_id f i, 0, map NodeLocation (sched st)), st)"
proof -
  have ok: "procs_ok st" and r: "entry_ok st (f, i) r" and v: "versions_ok r"
    using inv e by (auto simp: cl_inv_def cl_wf_def)
  obtain sl where sl: "m_files (cl_master st) f = Some sl" "map_of sl i = Some r"
    using e by (auto simp: entry_def split: option.splits)
  obtain n where n: "n \<in> set (sched st)" "NodeLocation n = loc1 r" using r by (auto simp: entry_ok_def)
  have "node_alive (loc1 r) (sched st) \<longleftrightarrow> Alive n"
    using node_alive_iff [OF _ n] ok by (simp add: procs_ok_def)
  then have "node_alive (loc1 r) (sched st)" "sched st \<noteq> []" "m_isLeader (cl_master st)" using n(1) ok by (auto simp: procs_ok_def)
  moreover have "ver2 r \<le> ver1 r" using v by (auto simp: versions_ok_def)
  moreover have "cm_Chunkid (Chunk_1 r) = chunk_id f i" using r by (simp add: entry_ok_def)
  ultimately show ?thesis
    using sl alive_sched [OF ok]
    by (simp add: rpcToMasterGetChunkLocation_def GetChunkLocation_def client_request_def no_response_def Let_def)
qed

lemma content_entry:
  assumes "cl_inv st" "cl_content st (f, i) = Some b"
  obtains r g where "i < 2 ^ 63" "entry st (f, of_nat i) = Some r"
    "srv_file st (loc1 r, chunk_id f (of_nat i)) = Some g" "f_size g = chunk_size" "b = f_byte g"
proof -
  obtain r g where r: "i < 2 ^ 63" "entry st (f, of_nat i) = Some r"
    "srv_file st (loc1 r, chunk_id f (of_nat i)) = Some g" "b = f_byte g"
    using assms(2) by (auto simp: cl_content_def split: if_splits option.splits)
  moreover have "entry_ok st (f, of_nat i) r" using assms(1) r(2) by (simp add: cl_inv_def cl_wf_def)
  ultimately show ?thesis using that by (auto simp: entry_ok_def)
qed

lemma no_content_entry:
  assumes "cl_inv st" "cl_content st (f, i) = None" "i < 2 ^ 63"
  shows "entry st (f, of_nat i) = None"
proof (rule ccontr)
  assume "entry st (f, of_nat i) \<noteq> None"
  then obtain r where r: "entry st (f, of_nat i) = Some r" by blast
  then have "entry_ok st (f, of_nat i) r" using assms(1) by (simp add: cl_inv_def cl_wf_def)
  then show False using r assms(2,3) by (auto simp: cl_content_def entry_ok_def)
qed

lemma unat_small: "n \<le> chunk_size \<Longrightarrow> unat (of_nat n :: u64) = n"
proof -
  assume "n \<le> chunk_size"
  then have "n < 2 ^ LENGTH(64)" by (simp add: chunk_size_def)
  then show ?thesis by (simp add: unat_of_nat)
qed

lemma Write_law:
  assumes inv: "cl_inv st" and h: "cl_handle st (f, i) loc cid all" and b: "cl_content st (f, i) = Some b"
    and data: "data \<noteq> []" "co + length data \<le> chunk_size"
  shows "\<exists>st'. rpcToNodeWriteChunk (cluster_ops stamp) loc cid co data all st = Inr st' \<and> cl_inv st' \<and>
    cl_has_file st' = cl_has_file st \<and> cl_content st' = (cl_content st)((f, i) \<mapsto> overwrite co data b)"
proof -
  obtain r g where r: "i < 2 ^ 63" "entry st (f, of_nat i) = Some r"
    "srv_file st (loc1 r, chunk_id f (of_nat i)) = Some g" "b = f_byte g"
    by (rule content_entry [OF inv b])
  have loc: "loc = loc1 r" "cid = chunk_id f (of_nat i)"
    and all: "all = [] \<and> ver1 r = 0 \<and> ver2 r = 0 \<or> all = map NodeLocation (sched st)"
    using h r(2) by (auto simp: cl_handle_def)
  let ?req = "\<lparr>Chunkid = cid, Filename = '''', Bytebegin = of_nat co, Byteend = of_nat co + of_nat (length data) - 1,
    Data = data, AllServerLocation = all, Index = 0\<rparr>"
  have co: "unat (of_nat co :: u64) = co" using data(2) by (intro unat_small) simp
  obtain n where n: "length data = Suc n" using data(1) by (cases data) auto
  have "(of_nat co + of_nat (length data) - 1 :: u64) = of_nat (co + n)" by (simp add: n)
  then have fin: "unat (of_nat co + of_nat (length data) - 1 :: u64) = co + n" using data(2) n unat_small [of "co + n"] by simp
  obtain st' r' where w: "call_Write stamp (loc1 r) ?req st = Inr st'" "cl_inv st'" "entry st' = (entry st)((f, of_nat i) \<mapsto> r')"
    "loc1 r' = loc1 r" "only_chunk UNIV (chunk_id f (of_nat i)) st st'"
    "srv_file st' (loc1 r, chunk_id f (of_nat i)) = Some (file_write co data g)"
    using call_Write_ok [OF inv r(2), of ?req g stamp] loc all data(2) r(3) co fin n by auto
  have "cl_content st' = (cl_content st)((f, i) \<mapsto> f_byte (file_write co data g))"
    using w(4-6) by (intro content_updated [OF r(1) w(3)]) (auto simp: only_chunk_def)
  moreover have "f_byte (file_write co data g) = overwrite co data b"
    by (simp add: file_write_def overwrite_def r(4) fun_eq_iff)
  moreover have "cl_has_file st' = cl_has_file st" using w(5) by (simp add: only_chunk_def)
  moreover have "rpcToNodeWriteChunk (cluster_ops stamp) loc cid co data all st = Inr st'"
    using w(1) loc by (simp add: rpcToNodeWriteChunk_def cluster_ops_def)
  ultimately show ?thesis using w(2) by metis
qed

lemma Read_law:
  assumes inv: "cl_inv st" and h: "cl_handle st (f, i) loc cid all" and b: "cl_content st (f, i) = Some b"
    and n: "co + n \<le> chunk_size"
  shows "rpcToNodeReadChunk (cluster_ops stamp) loc cid co n st = Inr (map b [co..<co + n], st)"
proof -
  obtain r g where r: "i < 2 ^ 63" "entry st (f, of_nat i) = Some r"
    "srv_file st (loc1 r, chunk_id f (of_nat i)) = Some g" "f_size g = chunk_size" "b = f_byte g"
    by (rule content_entry [OF inv b])
  have loc: "loc = loc1 r" "cid = chunk_id f (of_nat i)" using h r(2) by (auto simp: cl_handle_def)
  obtain s where s: "cl_servers st loc = Some s" "cs_files s cid = Some g"
    using r(3) loc by (auto simp: srv_file_def split: option.splits)
  have co: "unat (of_nat co :: u64) = co" "unat (of_nat n :: u64) = n" using n by (auto intro: unat_small)
  have "seek_set (of_nat co) = co" using seek_small [of "of_nat co"] co(1) n by simp
  moreover have "file_read co n g = map b [co..<co + n]" using n r(4,5) by (simp add: file_read_def min_def)
  moreover have "\<not> max_alloc < n" using n by (simp add: max_alloc_def chunk_size_def)
  ultimately show ?thesis
    using s co by (simp add: rpcToNodeReadChunk_def cluster_ops_def call_Read_def Read_def Let_def)
qed

interpretation gfs: chunk_store "cluster_ops stamp" cl_inv creatable cl_has_file cl_content cl_handle for stamp
proof
  fix st f i b assume inv: "cl_inv st" and b: "cl_content st (f, i) = Some b"
  obtain r where r: "entry st (f, of_nat i) = Some r" "i < 2 ^ 63" by (rule content_entry [OF inv b])
  then show "cl_has_file st f" by (auto simp: cl_has_file_def entry_def split: option.splits)
  show "\<exists>loc cid all. op_locate (cluster_ops stamp) f (of_nat i) st = Inr ((loc, cid, 0, all), st) \<and> cl_handle st (f, i) loc cid all"
    using locate_entry [OF inv r(1)] r by (auto simp: cluster_ops_def cl_handle_def)
next
  fix st f assume "cl_inv st" "\<not> cl_has_file st f" "creatable f"
  from NewFile_law [OF this, of stamp] show "\<exists>st'. op_newfile (cluster_ops stamp) f st = Inr (0, st') \<and> cl_inv st' \<and>
      cl_has_file st' = (cl_has_file st)(f := True) \<and> cl_content st' = (cl_content st)((f, 0) \<mapsto> \<lambda>_. CHR 0x00)"
    by (simp add: cluster_ops_def)
next
  fix st f assume "cl_inv st" "cl_has_file st f"
  then show "op_newfile (cluster_ops stamp) f st = Inr (- 1, st)"
    by (auto simp: cluster_ops_def call_NewFileChunk_def NewFileChunk_def after_placement_def client_request_def cl_has_file_def
        error_response_def no_response_def cl_inv_def cl_wf_def procs_ok_def)
next
  fix st f and k :: u64 assume "cl_inv st" "\<not> cl_has_file st f"
  then show "op_locate (cluster_ops stamp) f k st = Inr (('''', '''', - 2, []), st)"
    by (simp add: cluster_ops_def rpcToMasterGetChunkLocation_def GetChunkLocation_def client_request_def cl_has_file_def
        error_response_def no_response_def cl_inv_def cl_wf_def procs_ok_def)
next
  fix st f i assume inv: "cl_inv st" and f: "cl_has_file st f" and none: "cl_content st (f, i) = None" and i: "i < 2 ^ 63"
  have "entry st (f, of_nat i) = None" by (rule no_content_entry [OF inv none i])
  then show "op_locate (cluster_ops stamp) f (of_nat i) st = Inr (('''', '''', - 3, []), st)"
    using inv f by (auto simp: cluster_ops_def rpcToMasterGetChunkLocation_def GetChunkLocation_def client_request_def cl_has_file_def
        entry_def error_response_def no_response_def cl_inv_def cl_wf_def procs_ok_def)
  show "\<exists>loc cid st'. op_addchunk (cluster_ops stamp) f (of_nat i) st = Inr ((loc, cid, 0), st') \<and> cl_inv st' \<and>
      cl_handle st' (f, i) loc cid [] \<and> cl_has_file st' = cl_has_file st \<and> cl_content st' = (cl_content st)((f, i) \<mapsto> \<lambda>_. CHR 0x00)"
    using AddChunk_law [OF inv f none i, of stamp] by (auto simp: cluster_ops_def)
next
  fix st req assume "cl_inv st"
  then show "op_write (cluster_ops stamp) '''' req st = Inl Panic"
    by (simp add: cluster_ops_def call_Write_def cl_inv_def cl_wf_def procs_ok_def)
next
  fix st f assume "cl_inv st"
  from Delete_law [OF this, of stamp f] show "\<exists>st'. op_delete (cluster_ops stamp) f st = Inr st' \<and> cl_inv st' \<and>
      cl_has_file st' = (cl_has_file st)(f := False) \<and> cl_content st' = (\<lambda>(g, i). if g = f then None else cl_content st (g, i))"
    by (simp add: cluster_ops_def)
qed (use Write_law Read_law in blast)+

section \<open>Properties\<close>



text \<open>
  Creating a file gives it one zero chunk, creating it again is refused and changes nothing, and deleting
  it gives back the files and chunks there were before.
\<close>

theorem gfs_create_delete:
  assumes "cl_inv st" and "\<not> cl_has_file st f" and "creatable f"
  shows "\<exists>st1 st2. create (cluster_ops stamp) f st = Inr (True, st1) \<and> cl_inv st1 \<and> cl_has_file st1 f \<and>
    cl_content st1 = (cl_content st)((f, 0) \<mapsto> \<lambda>_. CHR 0x00) \<and>
    create (cluster_ops stamp) f st1 = Inr (False, st1) \<and>
    deletee (cluster_ops stamp) f st1 = Inr st2 \<and> cl_inv st2 \<and>
    cl_has_file st2 = cl_has_file st \<and> cl_content st2 = cl_content st"
proof -
  obtain st1 where st1: "op_newfile (cluster_ops stamp) f st = Inr (0, st1)" "cl_inv st1"
    "cl_has_file st1 = (cl_has_file st)(f := True)" "cl_content st1 = (cl_content st)((f, 0) \<mapsto> \<lambda>_. CHR 0x00)"
    using gfs.new_file [OF assms, of stamp] by blast
  obtain st2 where st2: "op_delete (cluster_ops stamp) f st1 = Inr st2" "cl_inv st2"
    "cl_has_file st2 = (cl_has_file st1)(f := False)" "cl_content st2 = (\<lambda>(g, i). if g = f then None else cl_content st1 (g, i))"
    using gfs.delete_file [OF st1(2), of stamp f] by blast
  have "cl_content st (f, i) = None" for i
    using gfs.content_file [OF assms(1), of f i] assms(2) by (cases "cl_content st (f, i)") auto
  then have "cl_content st2 = cl_content st" using st1(4) st2(4) by (auto simp: fun_eq_iff)
  moreover have "cl_has_file st2 = cl_has_file st" using st1(3) st2(3) assms(2) by (auto simp: fun_eq_iff)
  moreover have "op_newfile (cluster_ops stamp) f st1 = Inr (- 1, st1)" using gfs.old_file [OF st1(2)] st1(3) by simp
  ultimately show ?thesis using st1 st2(1,2) by (auto simp: create_def deletee_def)
qed

text \<open>
  A write that stays inside a chunk the file does not have panics: only the branch for a write across
  chunks looks at the error code -3 and adds the chunk.
\<close>

theorem small_write_missing_chunk_panics:
  assumes "cl_inv st" and "cl_has_file st f" and "cl_content st (f, unat offset div chunk_size) = None"
    and "unat offset mod chunk_size + length data < chunk_size"
  shows "gfs_write (cluster_ops stamp) f offset data st = Inl Panic"
  by (rule gfs.small_write_missing_chunk [OF assms])

text \<open>
  A read of two chunks or more ignores its size: \<open>lastsize\<close> is computed from the whole size in every turn, and
  the read returns everything up to the first chunk that the file does not have.
\<close>

theorem long_read_ignores_size:
  assumes "cl_inv st" and "cl_has_file st f" and "2 * chunk_size \<le> unat sz" and "unat sz < 2 ^ 64 - chunk_size"
    and "unat offset div chunk_size + k < 2 ^ 63" and "k < fuel"
    and "\<And>i. i < k \<Longrightarrow> cl_content st (f, unat offset div chunk_size + i) \<noteq> None"
    and "cl_content st (f, unat offset div chunk_size + k) = None"
  shows "gfs_read fuel (cluster_ops stamp) f offset sz st =
    Some (Inr (map (\<lambda>p. the (file_bytes (\<lambda>i. cl_content st (f, i)) p))
      [unat offset..<(unat offset div chunk_size + k) * chunk_size], st))"
  using gfs.read_to_end [OF assms, of stamp] by (simp add: gfs.bytes_def)

text \<open>
  The first write to a chunk that the write itself added reaches only one of its two replicas: the list of
  servers is the empty one that came with the error code. The primary has version 1 and the data, the other
  replica version 0 and only zeros.
\<close>

theorem first_write_not_replicated:
  assumes inv: "cl_inv st" and f: "cl_has_file st f" and none: "cl_content st (f, i) = None" and i: "i < 2 ^ 63"
    and data: "data \<noteq> []" "co + length data \<le> chunk_size"
  shows "\<exists>st' r. write_piece (cluster_ops stamp) f i co data st = Inr (True, st') \<and> entry st' (f, of_nat i) = Some r \<and>
    loc1 r \<noteq> loc2 r \<and> ver1 r = 1 \<and> ver2 r = 0 \<and>
    srv_file st' (loc1 r, chunk_id f (of_nat i)) = Some (file_write co data fresh_chunk) \<and>
    srv_file st' (loc2 r, chunk_id f (of_nat i)) = Some fresh_chunk"
proof -
  let ?c = "chunk_id f (of_nat i)"
  from AddChunk_law [OF inv f none i, of stamp] obtain loc st1 rep where
    add: "rpcToMasterAddChunk stamp f (of_nat i) st = Inr ((loc, ?c, 0), st1)" and st1: "cl_inv st1"
    "rep \<noteq> loc" "entry st1 (f, of_nat i) = Some (new_replicas ?c loc rep)"
    "srv_file st1 (loc, ?c) = Some fresh_chunk" "srv_file st1 (rep, ?c) = Some fresh_chunk" by metis
  let ?r = "new_replicas ?c loc rep"
  let ?req = "\<lparr>Chunkid = ?c, Filename = '''', Bytebegin = of_nat co, Byteend = of_nat co + of_nat (length data) - 1,
    Data = data, AllServerLocation = [], Index = 0\<rparr>"
  have r: "loc1 ?r = loc" "loc2 ?r = rep" "ver1 ?r = 0" "ver2 ?r = 0" by (simp_all add: new_replicas_def)
  have co: "unat (of_nat co :: u64) = co" using data(2) by (intro unat_small) simp
  obtain n where n: "length data = Suc n" using data(1) by (cases data) auto
  have "(of_nat co + of_nat (length data) - 1 :: u64) = of_nat (co + n)" by (simp add: n)
  then have fin: "unat (of_nat co + of_nat (length data) - 1 :: u64) = co + n" using data(2) n unat_small [of "co + n"] by simp
  have wf: "cl_wf st1" using st1(1) by (simp add: cl_inv_def)
  obtain s s' res bc opr st2 where w: "cl_servers st1 loc = Some s" "Write stamp ?req s = Inr (res, s', opr, bc)"
    "updateMasterVersion stamp opr (st1\<lparr>cl_servers := (cl_servers st1)(loc \<mapsto> s')\<rparr>) = Inr st2"
    and st2: "entry st2 = (entry st1)((f, of_nat i) \<mapsto> reported loc 1 ?r)" "only_chunk {loc} ?c st1 st2"
    "srv_file st2 (loc, ?c) = Some (file_write co data fresh_chunk)"
    using primary_write [OF wf st1(3), of ?req fresh_chunk stamp] r co fin n data(2) st1(4) by auto
  have "call_Write stamp loc ?req st1 = Inr st2"
    using w by (simp add: call_Write_def updateReplicaVersion_def)
  moreover have "rpcToMasterGetChunkLocation f (of_nat i) st = Inr (('''', '''', - 3, []), st)"
    using gfs.locate_missing [OF inv f none i] by (simp add: cluster_ops_def)
  ultimately have "write_piece (cluster_ops stamp) f i co data st = Inr (True, st2)"
    using add by (simp add: write_piece_def rpcToNodeWriteChunk_def cluster_ops_def)
  moreover have "srv_file st2 (rep, ?c) = Some fresh_chunk" using st2(2) st1(2,5) by (simp add: only_chunk_def)
  ultimately show ?thesis
    using st2(1,3) st1(2) r by (intro exI [of _ st2] exI [of _ "reported loc 1 ?r"]) auto
qed

section \<open>Witnesses\<close>

definition demo_cluster :: cluster where
  "demo_cluster = \<lparr>cl_master = demo_leader, cl_replicas = (\<lambda>a. if a \<in> set all_masters then Some (new_master a) else None),
     cl_servers = (\<lambda>l. if l \<in> set initial_nodes then Some (new_chunkserver l) else None)\<rparr>"

lemma demo_cluster_inv: "cl_inv demo_cluster" "\<not> cl_has_file demo_cluster ''a''"
proof -
  have "entry demo_cluster = (\<lambda>_. None)" by (simp add: entry_def demo_cluster_def fun_eq_iff)
  moreover have "srv_meta demo_cluster = (\<lambda>_. None)"
    by (simp add: srv_meta_def demo_cluster_def new_chunkserver_def fun_eq_iff)
  moreover have "up demo_cluster a" if "a \<in> set (peers demo_leader)" for a
    using that by (simp add: up_def demo_cluster_def peers_def)
  moreover have "'''' \<notin> set initial_nodes" by (simp add: initial_nodes_def)
  ultimately show "cl_inv demo_cluster"
    by (auto simp: cl_inv_def cl_wf_def procs_ok_def demo_cluster_def new_chunkserver_def demo_defs split: if_splits)
  show "\<not> cl_has_file demo_cluster ''a''" by (simp add: cl_has_file_def demo_cluster_def)
qed

text \<open>The cluster after the creation of the file \<open>a\<close>.\<close>

definition demo_file :: cluster where
  "demo_file = (case call_NewFileChunk demo_stamp ''a'' demo_cluster of Inr (_, st) \<Rightarrow> st | Inl _ \<Rightarrow> demo_cluster)"

lemma demo_file: "cl_inv demo_file" "cl_has_file demo_file ''a''"
  "cl_content demo_file (''a'', 0) = Some (\<lambda>_. CHR 0x00)" "cl_content demo_file (''a'', Suc 0) = None"
proof -
  obtain st where st: "call_NewFileChunk demo_stamp ''a'' demo_cluster = Inr (0, st)" "cl_inv st"
    "cl_has_file st = (cl_has_file demo_cluster)(''a'' := True)"
    "cl_content st = (cl_content demo_cluster)((''a'', 0) \<mapsto> \<lambda>_. CHR 0x00)"
    using NewFile_law [OF demo_cluster_inv, of demo_stamp] by (auto simp: creatable_def)
  moreover from st(1) have "demo_file = st" by (simp add: demo_file_def)
  moreover have "cl_content demo_cluster (''a'', Suc 0) = None"
    by (simp add: cl_content_def entry_def demo_cluster_def)
  ultimately show "cl_inv demo_file" "cl_has_file demo_file ''a''"
    "cl_content demo_file (''a'', 0) = Some (\<lambda>_. CHR 0x00)" "cl_content demo_file (''a'', Suc 0) = None" by simp_all
qed



theorem gfs_create_delete_witness:
  "\<exists>st1 st2. create (cluster_ops demo_stamp) ''a'' demo_cluster = Inr (True, st1) \<and>
     deletee (cluster_ops demo_stamp) ''a'' st1 = Inr st2 \<and> cl_has_file st2 = cl_has_file demo_cluster"
  using gfs_create_delete [of demo_cluster "''a''" demo_stamp] demo_cluster_inv by (auto simp: creatable_def)

theorem small_write_missing_chunk_panics_witness:
  "gfs_write (cluster_ops demo_stamp) ''a'' 1048576 ''hi'' demo_file = Inl Panic"
  using small_write_missing_chunk_panics [of demo_file "''a''" 1048576 "''hi''" demo_stamp] demo_file
  by (simp add: chunk_size_def)

theorem long_read_ignores_size_witness:
  "\<exists>d. gfs_read 2 (cluster_ops demo_stamp) ''a'' 0 2097152 demo_file = Some (Inr (d, demo_file)) \<and> length d = 1048576"
  using long_read_ignores_size [of demo_file "''a''" 2097152 0 1 2 demo_stamp] demo_file
  by (simp add: chunk_size_def)

theorem first_write_not_replicated_witness:
  "\<exists>st' r. write_piece (cluster_ops demo_stamp) ''a'' 1 0 ''hi'' demo_file = Inr (True, st') \<and>
     entry st' (''a'', 1) = Some r \<and> ver1 r = 1 \<and> ver2 r = 0"
  using first_write_not_replicated [of demo_file "''a''" 1 "''hi''" 0 demo_stamp] demo_file
  by (auto simp: chunk_size_def)

end
