(* ===== verification/ZkLock.thy ===== *)
theory ZkLock
  imports GoLib
begin

text \<open>
  The locks of the gdocs project: \<open>lock.go\<close> of the client, the chunk server and the master
  (\<open>src/gdocs-k-on/code\<close>; the three files have the same helper functions).

  Zookeeper is not part of the repository: its client calls are the record \<open>zk_ops\<close>, over an unknown state, and
  what the code relies on is \<open>zk_spec\<close>, which relates the calls to a map from paths to the connection that created
  the node and its data: a node is created once, a query tells whether it exists, only a deletion or the end
  of the session of its creator removes it. A call may fail; a failed creation or deletion may or may not
  have happened, as zookeeper documents for a lost connection.

  Processes are connections (numbers). \<open>lock_step\<close> is the interleaving of the processes that call \<open>lock\<close> and \<open>unlock\<close>
  on one path, one zookeeper call at a time. The leader election of \<open>lockmaster\<close> is the same protocol on the
  path \<open>/master\<close>, where the leader never unlocks.
\<close>

section \<open>Helper functions\<close>

record 'z zk_ops =
  zk_Get :: "nat \<Rightarrow> string \<Rightarrow> 'z \<Rightarrow> string option \<times> 'z"
  zk_Exists :: "nat \<Rightarrow> string \<Rightarrow> 'z \<Rightarrow> bool option \<times> 'z"
  zk_Create :: "nat \<Rightarrow> string \<Rightarrow> string \<Rightarrow> 'z \<Rightarrow> bool \<times> 'z"
  zk_Delete :: "nat \<Rightarrow> string \<Rightarrow> 'z \<Rightarrow> bool \<times> 'z"
  zk_Close :: "nat \<Rightarrow> 'z \<Rightarrow> 'z"

definition get_node :: "'z zk_ops \<Rightarrow> nat \<Rightarrow> string \<Rightarrow> 'z \<Rightarrow> (string \<times> bool) \<times> 'z" where
  "get_node zk c p z = (case zk_Get zk c p z of (None, z) \<Rightarrow> (('''', False), z) | (Some d, z) \<Rightarrow> ((d, True), z))"

text \<open>\<open>exists\<close>: the answer, and whether the call failed. \<open>existw\<close> makes the same query and also sets a watch.\<close>

definition exists_node :: "'z zk_ops \<Rightarrow> nat \<Rightarrow> string \<Rightarrow> 'z \<Rightarrow> (bool \<times> bool) \<times> 'z" where
  "exists_node zk c p z =
     (case zk_Exists zk c p z of (None, z) \<Rightarrow> ((False, True), z) | (Some b, z) \<Rightarrow> ((b, False), z))"

definition existw :: "'z zk_ops \<Rightarrow> nat \<Rightarrow> string \<Rightarrow> 'z \<Rightarrow> (bool \<times> bool) \<times> 'z" where
  "existw zk c p z =
     (case zk_Exists zk c p z of (None, z) \<Rightarrow> ((False, True), z) | (Some b, z) \<Rightarrow> ((b, False), z))"

definition remove_node :: "'z zk_ops \<Rightarrow> nat \<Rightarrow> string \<Rightarrow> 'z \<Rightarrow> bool \<times> 'z" where
  "remove_node zk c p z = (case zk_Delete zk c p z of (ok, z) \<Rightarrow> (\<not> ok, z))"

definition add_node :: "'z zk_ops \<Rightarrow> nat \<Rightarrow> string \<Rightarrow> string \<Rightarrow> 'z \<Rightarrow> bool \<times> 'z" where
  "add_node zk c p data z = zk_Create zk c p data z"

definition close_conn :: "'z zk_ops \<Rightarrow> nat \<Rightarrow> 'z \<Rightarrow> 'z" where
  "close_conn zk c z = zk_Close zk c z"

text \<open>The retry loop around \<open>exists\<close>; without an answer it goes on, and \<open>None\<close> is a loop still running.\<close>

fun exists_retry :: "'z zk_ops \<Rightarrow> nat \<Rightarrow> nat \<Rightarrow> string \<Rightarrow> 'z \<Rightarrow> (bool \<times> 'z) option" where
  "exists_retry zk 0 c p z = None"
| "exists_retry zk (Suc fuel) c p z =
     (case exists_node zk c p z of
        ((_, True), z) \<Rightarrow> exists_retry zk fuel c p z
      | ((b, False), z) \<Rightarrow> Some (b, z))"

fun locknotblock :: "'z zk_ops \<Rightarrow> nat \<Rightarrow> nat \<Rightarrow> string \<Rightarrow> 'z \<Rightarrow> (bool \<times> 'z) option" where
  "locknotblock zk 0 c p z = None"
| "locknotblock zk (Suc fuel) c p z =
     (case exists_retry zk fuel c p z of
        None \<Rightarrow> None
      | Some (True, z) \<Rightarrow> Some (False, z)
      | Some (False, z) \<Rightarrow>
          (case add_node zk c p ''lock'' z of
             (True, z) \<Rightarrow> Some (True, z)
           | (False, z) \<Rightarrow> locknotblock zk fuel c p z))"

definition unlock :: "'z zk_ops \<Rightarrow> nat \<Rightarrow> nat \<Rightarrow> string \<Rightarrow> 'z \<Rightarrow> 'z option" where
  "unlock zk fuel c p z =
     (case exists_retry zk fuel c p z of
        None \<Rightarrow> None
      | Some (ex, z) \<Rightarrow> Some (if ex then snd (remove_node zk c p z) else z))"

section \<open>Interleaved processes\<close>

text \<open>
  Where a process is in \<open>lock\<close>, between \<open>lock\<close> and \<open>unlock\<close>, or in \<open>unlock\<close>. For a master, \<open>Held\<close> is \<open>isLeader\<close>.
\<close>

datatype lock_pc = Idle | Checking | Adding | CheckingW | Waiting | Held | Releasing | Removing

record 'z lock_sys =
  lk_zk :: 'z
  lk_pc :: "nat \<Rightarrow> lock_pc"

inductive lock_step :: "'z zk_ops \<Rightarrow> string \<Rightarrow> string \<Rightarrow> 'z lock_sys \<Rightarrow> 'z lock_sys \<Rightarrow> bool"
  for zk :: "'z zk_ops" and p data :: string where
  call_lock: "lk_pc s c = Idle \<Longrightarrow> lock_step zk p data s (s\<lparr>lk_pc := (lk_pc s)(c := Checking)\<rparr>)"
| check_failed: "lk_pc s c = Checking \<Longrightarrow> exists_node zk c p (lk_zk s) = ((b, True), z) \<Longrightarrow>
    lock_step zk p data s (s\<lparr>lk_zk := z\<rparr>)"
| check: "lk_pc s c = Checking \<Longrightarrow> exists_node zk c p (lk_zk s) = ((b, False), z) \<Longrightarrow>
    lock_step zk p data s (s\<lparr>lk_zk := z, lk_pc := (lk_pc s)(c := if b then CheckingW else Adding)\<rparr>)"
| add: "lk_pc s c = Adding \<Longrightarrow> add_node zk c p data (lk_zk s) = (ok, z) \<Longrightarrow>
    lock_step zk p data s (s\<lparr>lk_zk := z, lk_pc := (lk_pc s)(c := if ok then Held else Checking)\<rparr>)"
| watch_failed: "lk_pc s c = CheckingW \<Longrightarrow> existw zk c p (lk_zk s) = ((b, True), z) \<Longrightarrow>
    lock_step zk p data s (s\<lparr>lk_zk := z\<rparr>)"
| watch: "lk_pc s c = CheckingW \<Longrightarrow> existw zk c p (lk_zk s) = ((b, False), z) \<Longrightarrow>
    lock_step zk p data s (s\<lparr>lk_zk := z, lk_pc := (lk_pc s)(c := if b then Waiting else Checking)\<rparr>)"
| event: "lk_pc s c = Waiting \<Longrightarrow> lock_step zk p data s (s\<lparr>lk_pc := (lk_pc s)(c := Checking)\<rparr>)"
| call_unlock: "lk_pc s c = Held \<Longrightarrow> lock_step zk p data s (s\<lparr>lk_pc := (lk_pc s)(c := Releasing)\<rparr>)"
| release_failed: "lk_pc s c = Releasing \<Longrightarrow> exists_node zk c p (lk_zk s) = ((b, True), z) \<Longrightarrow>
    lock_step zk p data s (s\<lparr>lk_zk := z\<rparr>)"
| release: "lk_pc s c = Releasing \<Longrightarrow> exists_node zk c p (lk_zk s) = ((b, False), z) \<Longrightarrow>
    lock_step zk p data s (s\<lparr>lk_zk := z, lk_pc := (lk_pc s)(c := if b then Removing else Idle)\<rparr>)"
| remove: "lk_pc s c = Removing \<Longrightarrow> remove_node zk c p (lk_zk s) = (err, z) \<Longrightarrow>
    lock_step zk p data s (s\<lparr>lk_zk := z, lk_pc := (lk_pc s)(c := Idle)\<rparr>)"

section \<open>Leader election\<close>

text \<open>
  Where a master is in \<open>lockmaster\<close> and the goroutine of \<open>main\<close> that calls it: \<open>Leader\<close> and \<open>Follower\<close> are the two values
  it receives for \<open>isLeader\<close>; a follower waits for the event of its watch and calls \<open>lockmaster\<close> again. The event
  may come at any time, as zookeeper also sends one when a connection is lost. A session can end while
  the process goes on, and the client library then opens a new one; \<open>el_expired\<close> are the masters of which a
  session has ended since they last created the node.
\<close>

datatype elect_pc = Campaign | Nominate | WatchMaster | Follower | Leader

record 'z elect_sys =
  el_zk :: 'z
  el_pc :: "nat \<Rightarrow> elect_pc"
  el_expired :: "nat set"

inductive lockmaster :: "'z zk_ops \<Rightarrow> (nat \<Rightarrow> string) \<Rightarrow> 'z elect_sys \<Rightarrow> 'z elect_sys \<Rightarrow> bool"
  for zk :: "'z zk_ops" and port :: "nat \<Rightarrow> string" where
  check_failed: "el_pc s c = Campaign \<Longrightarrow> exists_node zk c ''/master'' (el_zk s) = ((b, True), z) \<Longrightarrow>
    lockmaster zk port s (s\<lparr>el_zk := z\<rparr>)"
| check: "el_pc s c = Campaign \<Longrightarrow> exists_node zk c ''/master'' (el_zk s) = ((b, False), z) \<Longrightarrow>
    lockmaster zk port s (s\<lparr>el_zk := z, el_pc := (el_pc s)(c := if b then WatchMaster else Nominate)\<rparr>)"
| add: "el_pc s c = Nominate \<Longrightarrow> add_node zk c ''/master'' (port c) (el_zk s) = (ok, z) \<Longrightarrow>
    lockmaster zk port s (s\<lparr>el_zk := z, el_pc := (el_pc s)(c := if ok then Leader else Campaign),
      el_expired := (if ok then el_expired s - {c} else el_expired s)\<rparr>)"
| watch_failed: "el_pc s c = WatchMaster \<Longrightarrow> existw zk c ''/master'' (el_zk s) = ((b, True), z) \<Longrightarrow>
    lockmaster zk port s (s\<lparr>el_zk := z\<rparr>)"
| watch: "el_pc s c = WatchMaster \<Longrightarrow> existw zk c ''/master'' (el_zk s) = ((b, False), z) \<Longrightarrow>
    lockmaster zk port s (s\<lparr>el_zk := z, el_pc := (el_pc s)(c := if b then Follower else Campaign)\<rparr>)"
| event: "el_pc s c = Follower \<Longrightarrow> lockmaster zk port s (s\<lparr>el_pc := (el_pc s)(c := Campaign)\<rparr>)"
| expire: "lockmaster zk port s (s\<lparr>el_zk := close_conn zk c (el_zk s), el_expired := insert c (el_expired s)\<rparr>)"

text \<open>Reachable states, from masters that all start.\<close>

inductive elect_reach :: "'z zk_ops \<Rightarrow> (nat \<Rightarrow> string) \<Rightarrow> 'z elect_sys \<Rightarrow> bool" for zk port where
  init: "(\<And>c. el_pc s c = Campaign) \<Longrightarrow> el_expired s = {} \<Longrightarrow> elect_reach zk port s"
| next_step: "elect_reach zk port s \<Longrightarrow> lockmaster zk port s s' \<Longrightarrow> elect_reach zk port s'"

section \<open>What the code relies on\<close>

definition zk_spec :: "'z zk_ops \<Rightarrow> ('z \<Rightarrow> string \<rightharpoonup> nat \<times> string) \<Rightarrow> bool" where
  "zk_spec zk nodes \<longleftrightarrow>
     (\<forall>c p z r z'. zk_Exists zk c p z = (r, z') \<longrightarrow>
        nodes z' = nodes z \<and> (\<forall>b. r = Some b \<longrightarrow> b = (nodes z p \<noteq> None))) \<and>
     (\<forall>c p d z z'. zk_Create zk c p d z = (True, z') \<longrightarrow> nodes z p = None \<and> nodes z' = (nodes z)(p \<mapsto> (c, d))) \<and>
     (\<forall>c p d z z'. zk_Create zk c p d z = (False, z') \<longrightarrow>
        nodes z' = nodes z \<or> nodes z p = None \<and> nodes z' = (nodes z)(p \<mapsto> (c, d))) \<and>
     (\<forall>c p z z'. zk_Delete zk c p z = (True, z') \<longrightarrow> nodes z' = (nodes z)(p := None)) \<and>
     (\<forall>c p z z'. zk_Delete zk c p z = (False, z') \<longrightarrow> nodes z' = nodes z \<or> nodes z' = (nodes z)(p := None)) \<and>
     (\<forall>c z p. nodes (zk_Close zk c z) p = (case nodes z p of Some (d, _) \<Rightarrow> if d = c then None else nodes z p | None \<Rightarrow> None))"

text \<open>Calls that do not fail.\<close>

definition zk_reliable :: "'z zk_ops \<Rightarrow> ('z \<Rightarrow> string \<rightharpoonup> nat \<times> string) \<Rightarrow> bool" where
  "zk_reliable zk nodes \<longleftrightarrow> zk_spec zk nodes \<and> (\<forall>c p z. fst (zk_Exists zk c p z) \<noteq> None) \<and>
     (\<forall>c p d z. nodes z p = None \<longrightarrow> fst (zk_Create zk c p d z)) \<and> (\<forall>c p z. nodes z p \<noteq> None \<longrightarrow> fst (zk_Delete zk c p z))"

lemmas zk_exists = zk_spec_def [THEN iffD1, THEN conjunct1, rule_format]
lemmas zk_create = zk_spec_def [THEN iffD1, THEN conjunct2, THEN conjunct1, rule_format]
lemmas zk_create_failed = zk_spec_def [THEN iffD1, THEN conjunct2, THEN conjunct2, THEN conjunct1, rule_format]
lemmas zk_delete = zk_spec_def [THEN iffD1, THEN conjunct2, THEN conjunct2, THEN conjunct2, THEN conjunct1, rule_format]

lemmas zk_close = zk_spec_def [THEN iffD1, THEN conjunct2, THEN conjunct2, THEN conjunct2, THEN conjunct2, THEN conjunct2, rule_format]

lemma exists_node_spec:
  assumes "zk_spec zk nodes" "exists_node zk c p z = ((b, err), z')"
  shows "nodes z' = nodes z" "\<not> err \<Longrightarrow> b = (nodes z p \<noteq> None)"
  using assms zk_exists [OF assms(1), of c p z] by (auto simp: exists_node_def split: prod.splits option.splits)

lemma existw_spec: "existw zk = exists_node zk"
  by (simp add: existw_def exists_node_def fun_eq_iff)

lemma exists_retry_spec:
  "zk_spec zk nodes \<Longrightarrow> exists_retry zk fuel c p z = Some (b, z') \<Longrightarrow> nodes z' = nodes z \<and> b = (nodes z p \<noteq> None)"
proof (induction fuel arbitrary: z)
  case (Suc fuel)
  obtain b' err z1 where e: "exists_node zk c p z = ((b', err), z1)" by (metis prod.exhaust)
  from exists_node_spec [OF Suc.prems(1) e] Suc.IH [OF Suc.prems(1), of z1] Suc.prems(2) e show ?case
    by (cases err) auto
qed simp


section \<open>Mutual exclusion\<close>

definition critical :: "lock_pc \<Rightarrow> bool" where
  "critical q \<longleftrightarrow> q = Held \<or> q = Releasing \<or> q = Removing"

definition holders_own :: "('z \<Rightarrow> string \<rightharpoonup> nat \<times> string) \<Rightarrow> string \<Rightarrow> 'z lock_sys \<Rightarrow> bool" where
  "holders_own nodes p s \<longleftrightarrow> (\<forall>c. critical (lk_pc s c) \<longrightarrow> map_option fst (nodes (lk_zk s) p) = Some c)"

lemma critical_simps [simp]: "critical Held" "critical Releasing" "critical Removing" "\<not> critical Idle" "\<not> critical Checking"
    "\<not> critical Adding" "\<not> critical CheckingW" "\<not> critical Waiting"
  by (simp_all add: critical_def)

lemma holders_own_query:
  "holders_own nodes p s \<Longrightarrow> nodes z p = nodes (lk_zk s) p \<Longrightarrow> (\<And>c. critical (pc c) \<Longrightarrow> critical (lk_pc s c)) \<Longrightarrow>
     holders_own nodes p (s\<lparr>lk_zk := z, lk_pc := pc\<rparr>)"
  by (simp add: holders_own_def)

lemma lock_step_owns:
  assumes spec: "zk_spec zk nodes" and inv: "holders_own nodes p s" and st: "lock_step zk p data s s'"
  shows "holders_own nodes p s'"
  using st
proof cases
  case (check_failed c b z)
  then show ?thesis using inv exists_node_spec(1) [OF spec check_failed(3)] by (simp add: holders_own_def)
next
  case (check c b z)
  then show ?thesis using inv exists_node_spec(1) [OF spec check(3)] by (auto simp: holders_own_def)
next
  case (add c ok z)
  note create = add(3) [unfolded add_node_def]
  show ?thesis
  proof (cases ok)
    case True
    then have z: "nodes (lk_zk s) p = None" "nodes z p = Some (c, data)" using zk_create [OF spec] create by auto
    then have "\<not> critical (lk_pc s d)" for d using inv by (auto simp: holders_own_def)
    then show ?thesis using add True z by (auto simp: holders_own_def)
  next
    case False
    then have "nodes z p = nodes (lk_zk s) p \<or> nodes (lk_zk s) p = None" using zk_create_failed [OF spec, of c p data "lk_zk s" z] create by auto
    then show ?thesis using inv add False by (auto simp: holders_own_def)
  qed
next
  case (watch_failed c b z)
  then show ?thesis using inv exists_node_spec(1) [OF spec] by (simp add: holders_own_def existw_spec)
next
  case (watch c b z)
  then show ?thesis using inv exists_node_spec(1) [OF spec] by (auto simp: holders_own_def existw_spec)
next
  case (release_failed c b z)
  then show ?thesis using inv exists_node_spec(1) [OF spec release_failed(3)] by (simp add: holders_own_def)
next
  case (release c b z)
  then show ?thesis using inv exists_node_spec(1) [OF spec release(3)] by (auto simp: holders_own_def)
next
  case (remove c err z)
  have own: "map_option fst (nodes (lk_zk s) p) = Some c" using inv remove(2) by (simp add: holders_own_def)
  have "\<not> critical (lk_pc s d)" if "d \<noteq> c" for d using inv own that by (auto simp: holders_own_def)
  then show ?thesis using remove by (simp add: holders_own_def)
qed (use inv in \<open>auto simp: holders_own_def\<close>)

text \<open>Reachable states, from processes that are all outside the lock.\<close>

inductive lock_reach :: "('z lock_sys \<Rightarrow> 'z lock_sys \<Rightarrow> bool) \<Rightarrow> 'z lock_sys \<Rightarrow> bool" for R where
  init: "(\<And>c. lk_pc s c = Idle) \<Longrightarrow> lock_reach R s"
| next_step: "lock_reach R s \<Longrightarrow> R s s' \<Longrightarrow> lock_reach R s'"

lemma lock_reach_owns:
  assumes "lock_reach (lock_step zk p data) s" "zk_spec zk nodes"
  shows "holders_own nodes p s"
  using assms
proof (induction rule: lock_reach.induct)
  case (init s)
  then show ?case by (simp add: holders_own_def)
next
  case (next_step s s')
  then show ?case by (blast intro: lock_step_owns)
qed

section \<open>Properties\<close>


lemma lock_calls:
  assumes "zk_reliable zk nodes" and "2 \<le> fuel"
  shows "(\<exists>z'. locknotblock zk fuel c p z = Some (nodes z p = None, z') \<and>
      nodes z' = (if nodes z p = None then (nodes z)(p \<mapsto> (c, ''lock'')) else nodes z)) \<and>
    (\<exists>z'. unlock zk fuel c p z = Some z' \<and> nodes z' = (nodes z)(p := None))"
proof -
  have spec: "zk_spec zk nodes" and ex: "\<And>z. \<exists>b z'. zk_Exists zk c p z = (Some b, z')"
    and cr: "\<And>z. nodes z p = None \<Longrightarrow> fst (zk_Create zk c p ''lock'' z)"
    and de: "\<And>z. nodes z p \<noteq> None \<Longrightarrow> fst (zk_Delete zk c p z)"
    using assms(1) by (auto simp: zk_reliable_def split: prod.splits) (metis fst_conv option.exhaust prod.exhaust)
  obtain z1 where z1: "exists_retry zk (Suc k) c p z = Some (nodes z p \<noteq> None, z1)" "nodes z1 = nodes z" for k
  proof -
    obtain b z1 where e: "zk_Exists zk c p z = (Some b, z1)" using ex by blast
    from that [of z1] zk_exists [OF spec e] e show thesis by (simp add: exists_node_def)
  qed
  obtain k where k: "fuel = Suc (Suc k)" using assms(2) by (metis Suc_le_D numeral_2_eq_2 Suc_le_mono)
  note z1k = z1(1) [of k] z1(1) [of "Suc k"]
  have "\<exists>z'. locknotblock zk fuel c p z = Some (nodes z p = None, z') \<and>
      nodes z' = (if nodes z p = None then (nodes z)(p \<mapsto> (c, ''lock'')) else nodes z)"
  proof (cases "nodes z p")
    case None
    obtain ok z2 where c2: "zk_Create zk c p ''lock'' z1 = (ok, z2)" by (metis prod.exhaust)
    then have "ok" using cr [of z1] None z1(2) by simp
    with c2 zk_create [OF spec, of c p "''lock''" z1 z2] z1k z1(2) None show ?thesis
      by (simp add: k add_node_def del: exists_retry.simps)
  next
    case (Some n)
    then show ?thesis using z1k z1(2) by (simp add: k del: exists_retry.simps)
  qed
  moreover have "\<exists>z'. unlock zk fuel c p z = Some z' \<and> nodes z' = (nodes z)(p := None)"
  proof (cases "nodes z p")
    case None
    then show ?thesis using z1k z1(2) by (simp add: unlock_def k fun_upd_idem del: exists_retry.simps)
  next
    case (Some n)
    obtain ok z2 where d2: "zk_Delete zk c p z1 = (ok, z2)" by (metis prod.exhaust)
    moreover have ok using de [of z1] Some z1(2) d2 by simp
    moreover from this have "nodes z2 = (nodes z1)(p := None)" using zk_delete [OF spec, of c p z1 z2] d2 by simp
    ultimately show ?thesis using z1k z1(2) Some by (simp add: unlock_def k remove_node_def del: exists_retry.simps)
  qed
  ultimately show ?thesis by blast
qed

text \<open>
  With calls that do not fail, \<open>locknotblock\<close> returns true exactly when nobody has the lock, and then
  the caller owns it; \<open>unlock\<close> frees the path whoever owns it; both end.
\<close>

theorem locknotblock_unlock:
  assumes "zk_reliable zk nodes" and "2 \<le> fuel"
  shows "(\<exists>z'. locknotblock zk fuel c p z = Some (nodes z p = None, z') \<and>
      nodes z' = (if nodes z p = None then (nodes z)(p \<mapsto> (c, ''lock'')) else nodes z)) \<and>
    (\<exists>z'. unlock zk fuel c p z = Some z' \<and> nodes z' = (nodes z)(p := None))"
  using lock_calls [OF assms] .

text \<open>A zookeeper that keeps its nodes in a map and never fails.\<close>

definition map_zk :: "(string \<rightharpoonup> nat \<times> string) zk_ops" where
  "map_zk = \<lparr>zk_Get = (\<lambda>c p z. (map_option snd (z p), z)), zk_Exists = (\<lambda>c p z. (Some (z p \<noteq> None), z)),
     zk_Create = (\<lambda>c p d z. if z p = None then (True, z(p \<mapsto> (c, d))) else (False, z)),
     zk_Delete = (\<lambda>c p z. if z p = None then (False, z) else (True, z(p := None))),
     zk_Close = (\<lambda>c z p. case z p of Some (d, x) \<Rightarrow> if d = c then None else Some (d, x) | None \<Rightarrow> None)\<rparr>"

lemma map_zk_reliable: "zk_reliable map_zk (\<lambda>z. z)"
  by (auto simp: zk_reliable_def zk_spec_def map_zk_def split: if_splits option.splits)

text \<open>The leaders whose session lasts own the node.\<close>

definition leaders_own :: "('z \<Rightarrow> string \<rightharpoonup> nat \<times> string) \<Rightarrow> 'z elect_sys \<Rightarrow> bool" where
  "leaders_own nodes s \<longleftrightarrow>
     (\<forall>c. el_pc s c = Leader \<longrightarrow> c \<notin> el_expired s \<longrightarrow> nodes (el_zk s) ''/master'' \<noteq> None \<and> fst (the (nodes (el_zk s) ''/master'')) = c)"

lemma lockmaster_owns:
  assumes spec: "zk_spec zk nodes" and inv: "leaders_own nodes s" and st: "lockmaster zk port s s'"
  shows "leaders_own nodes s'"
  using st
proof cases
  case (check_failed c b z)
  then show ?thesis using inv exists_node_spec(1) [OF spec check_failed(3)] by (simp add: leaders_own_def)
next
  case (check c b z)
  then show ?thesis using inv exists_node_spec(1) [OF spec check(3)] by (auto simp: leaders_own_def)
next
  case (add c ok z)
  note create = add(3) [unfolded add_node_def]
  show ?thesis
  proof (cases ok)
    case True
    then have z: "nodes (el_zk s) ''/master'' = None" "nodes z ''/master'' = Some (c, port c)" using zk_create [OF spec] create by auto
    then have "el_pc s d = Leader \<Longrightarrow> d \<in> el_expired s" for d using inv by (auto simp: leaders_own_def)
    then show ?thesis using add True z by (auto simp: leaders_own_def)
  next
    case False
    then have "nodes z ''/master'' = nodes (el_zk s) ''/master'' \<or> nodes (el_zk s) ''/master'' = None"
      using zk_create_failed [OF spec, of c "''/master''" "port c" "el_zk s" z] create by auto
    then show ?thesis using inv add False by (auto simp: leaders_own_def)
  qed
next
  case (watch_failed c b z)
  then show ?thesis using inv exists_node_spec(1) [OF spec] by (simp add: leaders_own_def existw_spec)
next
  case (watch c b z)
  then show ?thesis using inv exists_node_spec(1) [OF spec] by (auto simp: leaders_own_def existw_spec)
next
  case (expire c)
  then show ?thesis using inv zk_close [OF spec] by (auto simp: leaders_own_def close_conn_def split: option.splits prod.splits)
qed (use inv in \<open>auto simp: leaders_own_def\<close>)

lemma elect_reach_owns: "elect_reach zk port s \<Longrightarrow> zk_spec zk nodes \<Longrightarrow> leaders_own nodes s"
  by (induction rule: elect_reach.induct) (simp add: leaders_own_def, blast intro: lockmaster_owns)

text \<open>
  C18: at most one master is leader in the session in which it won the election, whatever the order of the steps,
  the calls that fail and the sessions that end.
\<close>

theorem leader_unique:
  assumes "zk_spec zk nodes" and "elect_reach zk port s"
    and "el_pc s c = Leader" and "el_pc s d = Leader" and "c \<notin> el_expired s" and "d \<notin> el_expired s"
  shows "c = d"
  using elect_reach_owns [OF assms(2,1)] assms(3-6) unfolding leaders_own_def by blast

lemma elect_win:
  assumes "elect_reach map_zk port s" "el_pc s c = Campaign" "c \<notin> el_expired s" "el_zk s ''/master'' = None"
  shows "elect_reach map_zk port (s\<lparr>el_zk := (el_zk s)(''/master'' \<mapsto> (c, port c)), el_pc := (el_pc s)(c := Leader)\<rparr>)"
proof -
  let ?s1 = "s\<lparr>el_zk := el_zk s, el_pc := (el_pc s)(c := if False then WatchMaster else Nominate)\<rparr>"
  have "lockmaster map_zk port s ?s1"
    by (rule lockmaster.check) (use assms in \<open>simp_all add: exists_node_def map_zk_def\<close>)
  then have r1: "elect_reach map_zk port ?s1" by (rule elect_reach.next_step [OF assms(1)])
  have "lockmaster map_zk port ?s1 (?s1\<lparr>el_zk := (el_zk s)(''/master'' \<mapsto> (c, port c)), el_pc := (el_pc ?s1)(c := if True then Leader else Campaign),
      el_expired := (if True then el_expired ?s1 - {c} else el_expired ?s1)\<rparr>)"
    by (rule lockmaster.add) (use assms in \<open>simp_all add: add_node_def map_zk_def\<close>)
  from elect_reach.next_step [OF r1 this] show ?thesis using assms(3) by simp
qed

text \<open>
  After the session of the leader has ended there can be two leaders: the node \<open>/master\<close> goes with the
  session, another master creates it, and nothing resets \<open>isLeader\<close> of the first.
\<close>

theorem two_leaders_after_expiry:
  "\<exists>s. elect_reach map_zk port s \<and> el_pc s 1 = Leader \<and> el_pc s 2 = Leader"
proof -
  define s0 :: "(string \<rightharpoonup> nat \<times> string) elect_sys" where "s0 = \<lparr>el_zk = Map.empty, el_pc = \<lambda>_. Campaign, el_expired = {}\<rparr>"
  have "elect_reach map_zk port s0" by (rule elect_reach.init) (simp_all add: s0_def)
  from elect_win [OF this, of 1] have r1: "elect_reach map_zk port (s0\<lparr>el_zk := (el_zk s0)(''/master'' \<mapsto> (1, port 1)), el_pc := (el_pc s0)(1 := Leader)\<rparr>)"
    (is "elect_reach _ _ ?s1") by (simp add: s0_def)
  let ?s2 = "?s1\<lparr>el_zk := close_conn map_zk 1 (el_zk ?s1), el_expired := insert 1 (el_expired ?s1)\<rparr>"
  have r2: "elect_reach map_zk port ?s2" by (rule elect_reach.next_step [OF r1 lockmaster.expire])
  have "el_pc ?s2 2 = Campaign" "2 \<notin> el_expired ?s2" "el_zk ?s2 ''/master'' = None" by (simp_all add: s0_def close_conn_def map_zk_def)
  from elect_win [OF r2 this] show ?thesis by (intro exI conjI) (assumption, simp_all add: s0_def)
qed

section \<open>Witnesses\<close>


theorem locknotblock_unlock_witness:
  "\<exists>z'. locknotblock map_zk 2 7 ''/a-1-1'' Map.empty = Some (True, z') \<and> z' = [''/a-1-1'' \<mapsto> (7, ''lock'')]"
  using locknotblock_unlock [OF map_zk_reliable, of 2 7 "''/a-1-1''" Map.empty] by simp

theorem leader_unique_witness:
  "\<exists>s. elect_reach map_zk (\<lambda>_. ''1'') s \<and> el_pc s 1 = Leader \<and> el_pc s 2 = Campaign \<and> el_expired s = {}"
proof -
  define s0 :: "(string \<rightharpoonup> nat \<times> string) elect_sys" where "s0 = \<lparr>el_zk = Map.empty, el_pc = \<lambda>_. Campaign, el_expired = {}\<rparr>"
  let ?s = "s0\<lparr>el_zk := (el_zk s0)(''/master'' \<mapsto> (1, ''1'')), el_pc := (el_pc s0)(1 := Leader)\<rparr>"
  have "elect_reach map_zk (\<lambda>_. ''1'') s0" by (rule elect_reach.init) (simp_all add: s0_def)
  from elect_win [OF this, of 1] have r: "elect_reach map_zk (\<lambda>_. ''1'') ?s" by (simp add: s0_def)
  have spec: "zk_spec map_zk (\<lambda>z. z)" using map_zk_reliable by (simp add: zk_reliable_def)
  have "el_pc ?s 2 \<noteq> Leader" using leader_unique [OF spec r, of 1 2] by (auto simp: s0_def)
  with r show ?thesis by (intro exI [of _ ?s]) (simp add: s0_def)
qed

end
