(* ===== verification/WebServer.thy ===== *)
theory WebServer
  imports GoLib
begin

text \<open>
  The document server of the gdocs project: \<open>webserver.go\<close>, \<open>handlers_ws.go\<close>, \<open>json_struct.go\<close> and \<open>util_ws.go\<close>
  (\<open>src/gdocs-k-on/code/client\<close>).

  State: the maps of the server (\<open>fileMap\<close>, \<open>trashMap\<close>, \<open>connMap\<close>, \<open>nodeMap\<close>, \<open>lockMap\<close>, \<open>allConnMap\<close>), the state of the
  file system and the lock service below, and the messages written to the web sockets, in order. Web sockets
  and zookeeper connections are numbers. Maps that the code iterates over are association lists: the
  order of the list is the order in which the iteration visits the keys.

  The functions of the file system (\<open>create\<close>, \<open>read\<close>, \<open>write\<close>, \<open>deletee\<close>) and of the locks (\<open>connect\<close>,
  \<open>locknotblock\<close>, \<open>unlock\<close>, \<open>close\<close>) are the record \<open>doc_ops\<close>; \<open>ws_ok\<close> says whether a message to a socket can be written.
  The JSON encoding is the standard library's: messages are the values before they are encoded, and a handler takes
  the decoded request. \<open>tm\<close> is what \<open>time.Now().Format\<close> prints. An error is the end of the reader of the
  connection (an index out of range) or of a process of the file system.
\<close>

section \<open>Data (json\_struct.go, webserver.go)\<close>

record msgInfo =
  m_Type :: string
  m_Row :: u64
  m_Column :: u64
  m_NewValue :: string
  m_FileName :: string
  m_UserName :: string

record msgOldInfo =
  o_Type :: string
  o_Row :: u64
  o_Column :: u64
  o_NewValue :: string
  o_FileName :: string
  o_UserName :: string
  o_OldValue :: string

record fileLockMsg =
  fl_Filename :: string
  fl_Owner :: string
  fl_Row :: u64
  fl_Column :: u64

text \<open>\<open>backendMsg\<close>, \<open>lockErrMsg\<close>, \<open>fileLockRetMsg\<close>, a request passed on as it came, and a rollback.\<close>

datatype ws_msg =
    BackendMsg string "string list"
  | LockErrMsg u64 u64 string string
  | FileLockRetMsg "fileLockMsg list"
  | Forward string
  | RollbackMsg msgOldInfo

record 's doc_ops =
  fs_create :: "string \<Rightarrow> 's \<Rightarrow> (bool \<times> 's) result"
  fs_read :: "string \<Rightarrow> u64 \<Rightarrow> u64 \<Rightarrow> 's \<Rightarrow> (string \<times> 's) result"
  fs_write :: "string \<Rightarrow> u64 \<Rightarrow> string \<Rightarrow> 's \<Rightarrow> (bool \<times> 's) result"
  fs_delete :: "string \<Rightarrow> 's \<Rightarrow> 's result"
  lk_connect :: "'s \<Rightarrow> nat \<times> 's"
  lk_try :: "nat \<Rightarrow> string \<Rightarrow> 's \<Rightarrow> (bool \<times> 's) result"
  lk_unlock :: "nat \<Rightarrow> string \<Rightarrow> 's \<Rightarrow> 's result"
  lk_close :: "nat \<Rightarrow> 's \<Rightarrow> 's"
  ws_ok :: "nat \<Rightarrow> bool"

record 's webserver =
  fileMap :: "(string, u64) gomap"
  trashMap :: "(string, u64) gomap"
  connMap :: "(string, nat list) gomap"
  nodeMap :: "nat \<rightharpoonup> nat"
  lockMap :: "(string, string) gomap"
  allConnMap :: "(nat, int) gomap"
  w_fs :: 's
  w_sent :: "(nat \<times> int \<times> ws_msg) list"

definition blockSize :: u64 where "blockSize = 80"
definition colNum :: u64 where "colNum = 60"
definition rowNum :: u64 where "rowNum = 84"

section \<open>Utilities (util\_ws.go)\<close>

definition getStr :: "u64 \<Rightarrow> string" where
  "getStr strSize = replicate (unat strSize) (CHR '' '')"

definition numExtend :: "int \<Rightarrow> nat \<Rightarrow> string" where
  "numExtend srcNum aimLen =
     (let tempStr = Itoa srcNum; tempLen = length tempStr
      in if tempLen \<ge> aimLen then drop (tempLen - aimLen) tempStr
         else replicate (aimLen - tempLen) (CHR ''0'') @ tempStr)"

definition traverseFileMap :: "'s webserver \<Rightarrow> string list" where
  "traverseFileMap st = map fst (fileMap st)"

section \<open>Calls\<close>

definition rd :: "'s doc_ops \<Rightarrow> string \<Rightarrow> u64 \<Rightarrow> u64 \<Rightarrow> 's webserver \<Rightarrow> (string \<times> 's webserver) result" where
  "rd ops f off n st = bindR (fs_read ops f off n (w_fs st)) (\<lambda>(d, s). Inr (d, st\<lparr>w_fs := s\<rparr>))"

definition wr :: "'s doc_ops \<Rightarrow> string \<Rightarrow> u64 \<Rightarrow> string \<Rightarrow> 's webserver \<Rightarrow> 's webserver result" where
  "wr ops f off d st = bindR (fs_write ops f off d (w_fs st)) (\<lambda>(_, s). Inr (st\<lparr>w_fs := s\<rparr>))"

text \<open>\<open>conn.WriteMessage\<close>, and whether it succeeds.\<close>

definition send :: "'s doc_ops \<Rightarrow> nat \<Rightarrow> int \<Rightarrow> ws_msg \<Rightarrow> 's webserver \<Rightarrow> 's webserver" where
  "send ops c ty m st = (if ws_ok ops c then st\<lparr>w_sent := w_sent st @ [(c, ty, m)]\<rparr> else st)"

definition send_all :: "'s doc_ops \<Rightarrow> nat list \<Rightarrow> int \<Rightarrow> ws_msg \<Rightarrow> 's webserver \<Rightarrow> 's webserver" where
  "send_all ops cs ty m st = fold (\<lambda>c. send ops c ty m) cs st"

definition others :: "nat \<Rightarrow> 's webserver \<Rightarrow> nat list" where
  "others conn st = filter (\<lambda>k. k \<noteq> conn) (map fst (allConnMap st))"

definition conns_of :: "string \<Rightarrow> 's webserver \<Rightarrow> nat list" where
  "conns_of f st = (case map_of (connMap st) f of None \<Rightarrow> [] | Some cs \<Rightarrow> cs)"

definition size_of :: "(string, u64) gomap \<Rightarrow> string \<Rightarrow> u64" where
  "size_of m f = (case map_of m f of None \<Rightarrow> 0 | Some n \<Rightarrow> n)"

section \<open>The log file\<close>

definition writeLog :: "'s doc_ops \<Rightarrow> string \<Rightarrow> 's webserver \<Rightarrow> 's webserver result" where
  "writeLog ops logData st =
     bindR (rd ops ''gDocLog'' 0 8 st) (\<lambda>(logLenStr, st).
       let logLen = Atoi logLenStr; newLogLen = logLen + int (length logData)
       in bindR (wr ops ''gDocLog'' 0 (numExtend newLogLen 8) st) (\<lambda>st.
            wr ops ''gDocLog'' (u64_of_int logLen) logData st))"

text \<open>The tab that ends a log entry.\<close>

abbreviation tab :: string where "tab \<equiv> [CHR 0x09]"

section \<open>Opening a file\<close>

text \<open>The cells of a file: blocks of \<open>blockSize\<close>, an empty one as the empty string; the last block as it is.\<close>

fun cells_from :: "nat \<Rightarrow> string \<Rightarrow> string list" where
  "cells_from 0 s = [s]"
| "cells_from (Suc n) s =
     (let cur = take (unat blockSize) s
      in (if cur = getStr blockSize then '''' else cur) # cells_from n (drop (unat blockSize) s))"

definition open_cells :: "string \<Rightarrow> string list" where
  "open_cells backMsg =
     (let b = unat blockSize;
          sliceTime = length backMsg div b - (if length backMsg mod b = 0 then 1 else 0);
          cells = cells_from sliceTime backMsg
      in cells @ replicate (unat (colNum * rowNum) - length cells) '' '')"

text \<open>The locks of a file, by the prefix \<open>/filename\<close> of the key; a shorter key is sliced out of range.\<close>

fun lock_infos :: "string \<Rightarrow> (string, string) gomap \<Rightarrow> fileLockMsg list result" where
  "lock_infos f [] = Inr []"
| "lock_infos f ((k, owner) # m) =
     bindR (panic_unless (go_slice k 0 (int (length (''/'' @ f))))) (\<lambda>h.
       if h = ''/'' @ f
       then (let sp = str_Split CHR ''-'' k
             in if length sp < 3 then Inl Panic
                else bindR (lock_infos f m) (\<lambda>ls.
                  Inr (\<lparr>fl_Filename = f, fl_Owner = owner, fl_Row = u64_of_int (Atoi (sp ! 1)),
                        fl_Column = u64_of_int (Atoi (sp ! 2))\<rparr> # ls)))
       else lock_infos f m)"

definition handleOpen :: "'s doc_ops \<Rightarrow> string \<Rightarrow> string \<Rightarrow> nat \<Rightarrow> int \<Rightarrow> string \<Rightarrow> 's webserver \<Rightarrow> 's webserver result" where
  "handleOpen ops tm currFileName conn messageType userName st =
     (case map_of (fileMap st) currFileName of
        None \<Rightarrow> Inr (send ops conn 1 (BackendMsg ''OpenError'' (traverseFileMap st)) st)
      | Some currFileSize \<Rightarrow>
          bindR (rd ops currFileName 0 currFileSize st) (\<lambda>(backMsg, st).
            let st = send ops conn messageType (BackendMsg ''FileDataSlice'' (open_cells backMsg)) st
            in bindR (writeLog ops (''[OPEN] '' @ tm @ '' '' @ userName @ '' open the file '' @ currFileName @ tab) st) (\<lambda>st.
               bindR (lock_infos currFileName (lockMap st)) (\<lambda>fileLockSlice.
                 Inr (send ops conn 1 (FileLockRetMsg fileLockSlice) st)))))"

section \<open>The configuration file and the recycle bin\<close>

definition changeValidBit :: "'s doc_ops \<Rightarrow> string \<Rightarrow> int \<Rightarrow> 's webserver \<Rightarrow> 's webserver result" where
  "changeValidBit ops fileName validBit st =
     bindR (rd ops ''config'' 8 8 st) (\<lambda>(totalLenStr, st).
     bindR (rd ops ''config'' 0 (u64_of_int (Atoi totalLenStr)) st) (\<lambda>(configStr, st).
       let validBitPos = str_Index configStr fileName + int (length fileName) + 8
       in wr ops ''config'' (u64_of_int validBitPos) (if validBit = 1 then ''1'' else ''0'') st))"

definition recoverFile :: "'s doc_ops \<Rightarrow> string \<Rightarrow> string \<Rightarrow> string \<Rightarrow> 's webserver \<Rightarrow> 's webserver result" where
  "recoverFile ops tm f userName st =
     (let st = st\<lparr>fileMap := AList.update f (size_of (trashMap st) f) (fileMap st), trashMap := AList.delete f (trashMap st)\<rparr>
      in bindR (changeValidBit ops f 1 st) (\<lambda>st.
           writeLog ops (''[RECOVER] '' @ tm @ '' '' @ userName @ '' recover the file '' @ f @ tab) st))"

definition recoverWithRet :: "'s doc_ops \<Rightarrow> string \<Rightarrow> string \<Rightarrow> string \<Rightarrow> nat \<Rightarrow> 's webserver \<Rightarrow> 's webserver result" where
  "recoverWithRet ops tm f userName conn st =
     (let st = st\<lparr>fileMap := AList.update f (size_of (trashMap st) f) (fileMap st), trashMap := AList.delete f (trashMap st)\<rparr>
      in bindR (changeValidBit ops f 1 st) (\<lambda>st.
         bindR (writeLog ops (''[RECOVER] '' @ tm @ '' '' @ userName @ '' recover the file '' @ f @ tab) st) (\<lambda>st.
           let st = send ops conn 1 (BackendMsg ''RECOVERET'' []) st
           in Inr (send_all ops (others conn st) 1 (BackendMsg ''RECOVERET'' []) st))))"

text \<open>The record of a file: length of the name, name, size, valid bit.\<close>

definition config_record :: "string \<Rightarrow> int \<Rightarrow> string \<Rightarrow> string" where
  "config_record f sz valid = numExtend (int (length f)) 8 @ f @ numExtend sz 8 @ valid"

definition add_config :: "'s doc_ops \<Rightarrow> string \<Rightarrow> u64 \<Rightarrow> 's webserver \<Rightarrow> 's webserver result" where
  "add_config ops f defaultSize st =
     bindR (rd ops ''config'' 0 8 st) (\<lambda>(fileNumStr, st).
     bindR (wr ops ''config'' 0 (numExtend (Atoi fileNumStr + 1) 8) st) (\<lambda>st.
     bindR (rd ops ''config'' 8 8 st) (\<lambda>(totalLenStr, st).
       let totalLen = Atoi totalLenStr; strWrite = config_record f (int_of_u64 defaultSize) ''1''
       in bindR (wr ops ''config'' (u64_of_int totalLen) strWrite st) (\<lambda>st.
            wr ops ''config'' 8 (numExtend (totalLen + int (length strWrite)) 8) st))))"

definition handleCreate :: "'s doc_ops \<Rightarrow> string \<Rightarrow> string \<Rightarrow> nat \<Rightarrow> string \<Rightarrow> 's webserver \<Rightarrow> 's webserver result" where
  "handleCreate ops tm f conn userName st =
     (if map_of (trashMap st) f \<noteq> None then recoverFile ops tm f userName st
      else let defaultSize = rowNum * colNum * blockSize
           in bindR (fs_create ops f (w_fs st)) (\<lambda>(createCheck, s).
              let st = st\<lparr>w_fs := s\<rparr>
              in if \<not> createCheck then Inr (send ops conn 1 (BackendMsg ''CEF'' []) st)
                 else bindR (wr ops f 0 (getStr defaultSize) st) (\<lambda>st.
                   let st = st\<lparr>fileMap := AList.update f defaultSize (fileMap st)\<rparr>
                   in bindR (add_config ops f defaultSize st) (\<lambda>st.
                        let st = send ops conn 1 (BackendMsg ''CREATESUCCESS'' [f]) st
                        in if \<not> ws_ok ops conn then Inr st
                           else let st = send_all ops (others conn st) 1 (BackendMsg ''CREATESUCCESS2'' []) st
                                in writeLog ops (''[CREATE] '' @ tm @ '' '' @ userName @ '' create the file '' @ f @ tab) st))))"

text \<open>The handler \<open>handleDelete\<close>, which no request reaches; after the answer that it cannot delete it deletes.\<close>

definition handleDelete :: "'s doc_ops \<Rightarrow> string \<Rightarrow> nat \<Rightarrow> 's webserver \<Rightarrow> 's webserver result" where
  "handleDelete ops f conn st =
     (let st = (if conns_of f st \<noteq> [] then send ops conn 1 (BackendMsg ''Fail'' []) st else st);
          st = st\<lparr>fileMap := AList.delete f (fileMap st)\<rparr>
      in bindR (fs_delete ops f (w_fs st)) (\<lambda>s.
         bindR (rd ops ''config'' 0 8 (st\<lparr>w_fs := s\<rparr>)) (\<lambda>(fileNumStr, st).
         bindR (wr ops ''config'' 0 (numExtend (Atoi fileNumStr - 1) 8) st) (\<lambda>st.
           Inr (send ops conn 1 (BackendMsg ''Success'' []) st)))))"

definition moveToTrash :: "'s doc_ops \<Rightarrow> string \<Rightarrow> string \<Rightarrow> nat \<Rightarrow> string \<Rightarrow> 's webserver \<Rightarrow> 's webserver result" where
  "moveToTrash ops tm f conn userName st =
     (if map_of (connMap st) f \<noteq> None then Inr (send ops conn 1 (BackendMsg ''MTTERROR'' []) st)
      else let st = st\<lparr>trashMap := AList.update f (size_of (fileMap st) f) (trashMap st), fileMap := AList.delete f (fileMap st)\<rparr>
           in bindR (changeValidBit ops f 0 st) (\<lambda>st.
                let m = BackendMsg ''MTTSUCCESS'' (traverseFileMap st);
                    st = send ops conn 1 m st; st = send_all ops (others conn st) 1 m st
                in writeLog ops (''[MTT] '' @ tm @ '' '' @ userName @ '' move the file '' @ f @ '' to trash'' @ tab) st))"

definition clear_config :: "'s doc_ops \<Rightarrow> string \<Rightarrow> 's webserver \<Rightarrow> 's webserver result" where
  "clear_config ops f st =
     (let delLen = 8 + int (length f) + 8 + 1
      in bindR (rd ops ''config'' 8 8 st) (\<lambda>(totalLenStr, st).
         bindR (rd ops ''config'' 0 (u64_of_int (Atoi totalLenStr)) st) (\<lambda>(configStr, st).
         bindR (panic_unless (go_slice configStr 0 8)) (\<lambda>fileNumStr.
         bindR (panic_unless (go_slice configStr 8 16)) (\<lambda>fileLenStr.
           let startPos = str_Index configStr f - 8; endPos = startPos + delLen
           in bindR (panic_unless (go_slice configStr 16 startPos)) (\<lambda>frontStr.
              bindR (panic_unless (go_slice_from configStr endPos)) (\<lambda>backStr.
                wr ops ''config'' 0 (numExtend (Atoi fileNumStr - 1) 8 @ numExtend (Atoi fileLenStr - delLen) 8 @
                  frontStr @ backStr) st)))))))"

definition clearTrash :: "'s doc_ops \<Rightarrow> string \<Rightarrow> string \<Rightarrow> string \<Rightarrow> nat \<Rightarrow> 's webserver \<Rightarrow> 's webserver result" where
  "clearTrash ops tm f userName conn st =
     (if map_of (trashMap st) f = None then Inr st
      else let st = st\<lparr>trashMap := AList.delete f (trashMap st)\<rparr>
           in bindR (clear_config ops f st) (\<lambda>st.
              bindR (writeLog ops (''[CLEAR TRASH] '' @ tm @ '' '' @ userName @ '' really delete the file '' @ f @ tab) st) (\<lambda>st.
              bindR (fs_delete ops f (w_fs st)) (\<lambda>s.
                let st = send ops conn 1 (BackendMsg ''CTRET'' []) (st\<lparr>w_fs := s\<rparr>)
                in Inr (send_all ops (others conn st) 1 (BackendMsg ''CTRET'' []) st)))))"

definition getTrashList :: "'s doc_ops \<Rightarrow> nat \<Rightarrow> 's webserver \<Rightarrow> 's webserver" where
  "getTrashList ops conn st = send ops conn 1 (BackendMsg ''TRASHLIST'' (map fst (trashMap st))) st"

section \<open>Connections\<close>

definition createConnect :: "'s doc_ops \<Rightarrow> string \<Rightarrow> nat \<Rightarrow> 's webserver \<Rightarrow> 's webserver" where
  "createConnect ops f conn st =
     (case lk_connect ops (w_fs st) of (currNode, s) \<Rightarrow>
        st\<lparr>w_fs := s, nodeMap := (nodeMap st)(conn \<mapsto> currNode),
           connMap := AList.update f (conns_of f st @ [conn]) (connMap st)\<rparr>)"

definition sendBakcMsg :: "'s doc_ops \<Rightarrow> nat \<Rightarrow> 's webserver \<Rightarrow> 's webserver" where
  "sendBakcMsg ops conn st = send ops conn 1 (BackendMsg ''FileNameSlice'' (map fst (fileMap st))) st"

definition handleClose :: "string \<Rightarrow> nat \<Rightarrow> 's webserver \<Rightarrow> 's webserver" where
  "handleClose f conn st =
     (case map_of (connMap st) f of
        None \<Rightarrow> st
      | Some cs \<Rightarrow>
          let newConnSlice = filter (\<lambda>c. c \<noteq> conn) cs
          in if newConnSlice = [] then st\<lparr>connMap := AList.delete f (connMap st)\<rparr>
             else st\<lparr>connMap := AList.update f newConnSlice (connMap st)\<rparr>)"

definition commonConnect :: "nat \<Rightarrow> 's webserver \<Rightarrow> 's webserver" where
  "commonConnect conn st = st\<lparr>allConnMap := AList.update conn 0 (allConnMap st)\<rparr>"

text \<open>Closing the zookeeper connection releases its locks there; \<open>lockMap\<close> is not changed.\<close>

definition removeConn :: "'s doc_ops \<Rightarrow> nat \<Rightarrow> 's webserver \<Rightarrow> 's webserver" where
  "removeConn ops conn st =
     (let st = (case nodeMap st conn of
                  None \<Rightarrow> st
                | Some node \<Rightarrow> st\<lparr>w_fs := lk_close ops node (w_fs st), nodeMap := (nodeMap st)(conn := None)\<rparr>);
          st = fold (\<lambda>k. handleClose k conn) (map fst (connMap st)) st
      in st\<lparr>allConnMap := AList.delete conn (allConnMap st)\<rparr>)"

section \<open>Editing\<close>

definition lock_index :: "string \<Rightarrow> u64 \<Rightarrow> u64 \<Rightarrow> string" where
  "lock_index f r c = ''/'' @ f @ ''-'' @ Itoa (int_of_u64 r) @ ''-'' @ Itoa (int_of_u64 c)"

definition cell_position :: "u64 \<Rightarrow> u64 \<Rightarrow> u64" where
  "cell_position r c = r * colNum * blockSize + c * blockSize"

text \<open>Writing to the sockets stops at the first error.\<close>

fun send_until :: "'s doc_ops \<Rightarrow> nat list \<Rightarrow> int \<Rightarrow> ws_msg \<Rightarrow> 's webserver \<Rightarrow> 's webserver" where
  "send_until ops [] ty m st = st"
| "send_until ops (c # cs) ty m st = (if ws_ok ops c then send_until ops cs ty m (send ops c ty m st) else st)"

definition handleEdit :: "'s doc_ops \<Rightarrow> msgInfo \<Rightarrow> int \<Rightarrow> string \<Rightarrow> nat \<Rightarrow> 's webserver \<Rightarrow> 's webserver result" where
  "handleEdit ops editFile messageType p conn st =
     (let f = m_FileName editFile; lockIndex = lock_index f (m_Row editFile) (m_Column editFile)
      in case nodeMap st conn of
           None \<Rightarrow> Inr (send_until ops (conns_of f st) messageType (Forward p) st)
         | Some currNode \<Rightarrow>
             bindR (lk_try ops currNode lockIndex (w_fs st)) (\<lambda>(getLock, s).
               let st = st\<lparr>w_fs := s\<rparr>
               in if getLock
                  then let st = st\<lparr>lockMap := AList.update lockIndex (m_UserName editFile) (lockMap st)\<rparr>
                       in Inr (send_until ops (conns_of f st) messageType (Forward p) st)
                  else Inr (send ops conn messageType
                         (LockErrMsg (m_Row editFile) (m_Column editFile)
                           (case map_of (lockMap st) lockIndex of None \<Rightarrow> '''' | Some u \<Rightarrow> u) (m_UserName editFile)) st)))"

text \<open>The old value of a cell ends at the first five spaces; a cell without them is sliced at -1.\<close>

definition old_value :: "string \<Rightarrow> string result" where
  "old_value oldValue =
     (let slicePos = str_Index oldValue ''     ''
      in if slicePos = 0 then Inr '' '' else panic_unless (go_slice oldValue 0 slicePos))"

definition update_log :: "string \<Rightarrow> string \<Rightarrow> u64 \<Rightarrow> u64 \<Rightarrow> string \<Rightarrow> string \<Rightarrow> string \<Rightarrow> string" where
  "update_log tm user r c old new f =
     ''[UPDATE] '' @ tm @ '' user:'' @ user @ '' set row:'' @ Itoa (int_of_u64 r) @ '' col:'' @ Itoa (int_of_u64 c) @
     '' from:'' @ old @ '' to:'' @ new @ '' in file:'' @ f"

definition handleUpdate :: "'s doc_ops \<Rightarrow> string \<Rightarrow> msgInfo \<Rightarrow> int \<Rightarrow> string \<Rightarrow> nat \<Rightarrow> 's webserver \<Rightarrow> 's webserver result" where
  "handleUpdate ops tm msg messageType p conn st =
     (let r = m_Row msg; c = m_Column msg; f = m_FileName msg; currPosition = cell_position r c
      in bindR (rd ops f currPosition blockSize st) (\<lambda>(cell, st).
         bindR (old_value cell) (\<lambda>oldValue.
           let writeValue = take (unat blockSize) (m_NewValue msg)
           in bindR (wr ops f currPosition writeValue st) (\<lambda>st.
              bindR (case nodeMap st conn of
                       None \<Rightarrow> Inr st
                     | Some currNode \<Rightarrow>
                         let lockIndex = lock_index f r c
                         in bindR (lk_unlock ops currNode lockIndex (w_fs st)) (\<lambda>s.
                              Inr (st\<lparr>lockMap := AList.delete lockIndex (lockMap st), w_fs := s\<rparr>))) (\<lambda>st.
                let st = send_all ops (conns_of f st) messageType (Forward p) st
                in writeLog ops (update_log tm (m_UserName msg) r c oldValue writeValue f @ tab) st)))))"

section \<open>The log and rolling back\<close>

definition log_entries :: "'s doc_ops \<Rightarrow> 's webserver \<Rightarrow> (string list \<times> 's webserver) result" where
  "log_entries ops st =
     bindR (rd ops ''gDocLog'' 0 8 st) (\<lambda>(totalLenStr, st).
     bindR (rd ops ''gDocLog'' 0 (u64_of_int (Atoi totalLenStr)) st) (\<lambda>(logStr, st).
     bindR (panic_unless (go_slice_from logStr 9)) (\<lambda>logStr.
       Inr (str_Split CHR 0x09 logStr, st))))"

definition showLog :: "'s doc_ops \<Rightarrow> nat \<Rightarrow> 's webserver \<Rightarrow> 's webserver result" where
  "showLog ops conn st =
     bindR (log_entries ops st) (\<lambda>(strSlice, st). Inr (send ops conn 1 (BackendMsg ''LOG'' strSlice) st))"

definition parse_update :: "string \<Rightarrow> msgOldInfo result" where
  "parse_update s =
     (let userBegin = str_Index s ''user:'' + 5; rowBegin = str_Index s ''row:'' + 4;
          colBegin = str_Index s ''col:'' + 4; oldBegin = str_Index s ''from:'' + 5;
          newBegin = str_Index s ''to:'' + 3; fileBegin = str_Index s ''file:'' + 5
      in bindR (panic_unless (go_slice s userBegin (rowBegin - 9))) (\<lambda>userStr.
         bindR (panic_unless (go_slice s rowBegin (colBegin - 5))) (\<lambda>rowStr.
         bindR (panic_unless (go_slice s colBegin (oldBegin - 6))) (\<lambda>colStr.
         bindR (panic_unless (go_slice s oldBegin (newBegin - 4))) (\<lambda>oldStr.
         bindR (panic_unless (go_slice s newBegin (fileBegin - 9))) (\<lambda>newStr.
         bindR (panic_unless (go_slice s fileBegin (int (length s)))) (\<lambda>fileStr.
           Inr \<lparr>o_Type = ''ROLLBACK'', o_Row = u64_of_int (Atoi rowStr), o_Column = u64_of_int (Atoi colStr),
                o_NewValue = newStr, o_FileName = fileStr, o_UserName = userStr, o_OldValue = oldStr\<rparr>)))))))"

definition parse_rollback :: "string \<Rightarrow> (string \<times> string) result" where
  "parse_rollback s =
     (let us = str_Index s ''user:'' + 5; fs = str_Index s ''file:'' + 5
      in bindR (panic_unless (go_slice s us (fs - 6))) (\<lambda>u.
         bindR (panic_unless (go_slice s fs (int (length s)))) (\<lambda>f. Inr (u, f))))"

text \<open>
  The search for the update to undo: from the newest entry to the oldest, skipping as many updates of the
  user in the file as were rolled back after them, and remembering the cells that others wrote.
\<close>

fun rollback_scan ::
    "string \<Rightarrow> string \<Rightarrow> string list \<Rightarrow> nat \<Rightarrow> (u64 \<times> u64) list \<Rightarrow> (msgOldInfo option \<times> (u64 \<times> u64) list) result" where
  "rollback_scan u f [] skip rcs = Inr (None, rcs)"
| "rollback_scan u f (s # ss) skip rcs =
     bindR (panic_unless (go_slice s 0 8)) (\<lambda>h8.
       if h8 = ''[UPDATE]''
       then bindR (parse_update s) (\<lambda>info.
              if o_UserName info = u \<and> o_FileName info = f
              then (if skip = 0 then Inr (Some info, rcs) else rollback_scan u f ss (skip - 1) rcs)
              else bindR (panic_unless (go_slice s 0 10)) (\<lambda>_.
                     rollback_scan u f ss skip
                       (if o_FileName info = f then rcs @ [(o_Row info, o_Column info)] else rcs)))
       else bindR (panic_unless (go_slice s 0 10)) (\<lambda>h10.
              if h10 = ''[ROLLBACK]''
              then bindR (parse_rollback s) (\<lambda>(u', f').
                     rollback_scan u f ss (if u' = u \<and> f' = f then skip + 1 else skip) rcs)
              else rollback_scan u f ss skip rcs))"

definition rollback_value :: "msgOldInfo \<Rightarrow> string" where
  "rollback_value m = o_OldValue m @ replicate (length (o_NewValue m) - length (o_OldValue m)) (CHR '' '')"

definition handleRollBack :: "'s doc_ops \<Rightarrow> string \<Rightarrow> string \<Rightarrow> string \<Rightarrow> nat \<Rightarrow> 's webserver \<Rightarrow> 's webserver result" where
  "handleRollBack ops tm username filename conn st =
     bindR (log_entries ops st) (\<lambda>(strSlice, st).
       if length strSlice \<le> 1 then Inr st
       else bindR (rollback_scan username filename (rev (butlast strSlice)) 0 []) (\<lambda>(aim, rcSlice).
         case aim of
           None \<Rightarrow> Inr (send ops conn 1 (BackendMsg ''ROLLBACKEMPTY'' []) st)
         | Some aimMsg \<Rightarrow>
             let r = o_Row aimMsg; c = o_Column aimMsg; currFN = o_FileName aimMsg
             in if (r, c) \<in> set rcSlice then Inr (send ops conn 1 (BackendMsg ''ROLLBACKERR'' []) st)
                else if map_of (lockMap st) (lock_index currFN r c) \<noteq> None
                then Inr (send ops conn 1 (BackendMsg ''ROLLBACKLOCK'' []) st)
                else bindR (wr ops currFN (cell_position r c) (rollback_value aimMsg) st) (\<lambda>st.
                  let st = send_all ops (conns_of currFN st) 1 (RollbackMsg aimMsg) st
                  in writeLog ops (''[ROLLBACK] '' @ tm @ '' user:'' @ o_UserName aimMsg @ '' file:'' @ o_FileName aimMsg @ tab) st)))"

section \<open>Dispatch and start (webserver.go)\<close>

text \<open>One turn of \<open>reader\<close>: a request, or the end of the connection.\<close>

definition reader :: "'s doc_ops \<Rightarrow> string \<Rightarrow> nat \<Rightarrow> (int \<times> string \<times> msgInfo) option \<Rightarrow> 's webserver \<Rightarrow> 's webserver result" where
  "reader ops tm conn input st =
     (case input of
        None \<Rightarrow> Inr (removeConn ops conn st)
      | Some (messageType, p, receiveData) \<Rightarrow>
          let t = m_Type receiveData; fileName = m_FileName receiveData; userName = m_UserName receiveData
          in if t = ''connect'' then Inr (sendBakcMsg ops conn (commonConnect conn st))
             else if t = ''open'' then handleOpen ops tm fileName conn messageType userName (createConnect ops fileName conn st)
             else if t = ''create'' then handleCreate ops tm fileName conn userName st
             else if t = ''editing'' then handleEdit ops receiveData messageType p conn st
             else if t = ''update'' then handleUpdate ops tm receiveData messageType p conn st
             else if t = ''close'' then Inr (handleClose fileName conn st)
             else if t = ''mtt'' then moveToTrash ops tm fileName conn userName st
             else if t = ''recover'' then recoverWithRet ops tm fileName userName conn st
             else if t = ''ct'' then clearTrash ops tm fileName userName conn st
             else if t = ''trashList'' then Inr (getTrashList ops conn st)
             else if t = ''log'' then showLog ops conn st
             else if t = ''rollback'' then handleRollBack ops tm userName fileName conn st
             else Inr st)"

text \<open>The loop of \<open>main\<close> that builds the two maps from the records of the configuration file.\<close>

fun build_maps :: "'s doc_ops \<Rightarrow> nat \<Rightarrow> u64 \<Rightarrow> 's webserver \<Rightarrow> 's webserver result" where
  "build_maps ops 0 offset st = Inr st"
| "build_maps ops (Suc n) offset st =
     bindR (rd ops ''config'' offset 8 st) (\<lambda>(lenStr, st).
       let currFileNameLen = u64_of_int (Atoi lenStr); offset = offset + 8
       in bindR (rd ops ''config'' offset currFileNameLen st) (\<lambda>(currFileName, st).
            let offset = offset + currFileNameLen
            in bindR (rd ops ''config'' offset 8 st) (\<lambda>(sizeStr, st).
               bindR (rd ops ''config'' (offset + 8) 1 st) (\<lambda>(validStr, st).
                 let currFileSize = u64_of_int (Atoi sizeStr);
                     st = (if Atoi validStr = 1
                           then st\<lparr>fileMap := AList.update currFileName currFileSize (fileMap st)\<rparr>
                           else st\<lparr>trashMap := AList.update currFileName currFileSize (trashMap st)\<rparr>)
                 in build_maps ops n (offset + 8 + 1) st))))"

definition web_main :: "'s doc_ops \<Rightarrow> 's \<Rightarrow> 's webserver result" where
  "web_main ops s =
     (let st = \<lparr>fileMap = [], trashMap = [], connMap = [], nodeMap = Map.empty, lockMap = [], allConnMap = [],
                w_fs = s, w_sent = []\<rparr>
      in bindR (fs_create ops ''config'' (w_fs st)) (\<lambda>(noConfig, s).
           let st = st\<lparr>w_fs := s\<rparr>
           in bindR (if noConfig then wr ops ''config'' 0 (numExtend 0 8 @ numExtend 16 8) st
                     else bindR (rd ops ''config'' 0 8 st) (\<lambda>(fileNumStr, st).
                            build_maps ops (nat (Atoi fileNumStr)) 16 st)) (\<lambda>st.
              bindR (fs_create ops ''gDocLog'' (w_fs st)) (\<lambda>(onLog, s).
                let st = st\<lparr>w_fs := s\<rparr>
                in if onLog
                   then bindR (wr ops ''gDocLog'' 0 (numExtend 9 8) st) (\<lambda>st. wr ops ''gDocLog'' 8 tab st)
                   else Inr st))))"

end
