(* ===== verification/DocConfig.thy ===== *)
theory DocConfig
  imports WebServer Cluster ZkLock
begin

text \<open>
  The document server on the file system: what its handlers rely on, as the locale \<open>doc_store\<close>, the interpretation of
  that contract on the client of the modelled cluster and on the zookeeper locks, and the configuration file.

  The configuration file is text: the number of files, its own length, and a record per file (\<open>config_text\<close>). The
  server never reads it while it runs: \<open>fileMap\<close> and \<open>trashMap\<close> have to agree with it, or the next start builds other
  maps. \<open>web_inv\<close> says that they do. The handlers find the record of a file with \<open>strings.Index\<close>, by the first
  occurrence of its name anywhere in the text; \<open>names_ok\<close> is a condition on the names under which this is its record.
\<close>

section \<open>Fixed-width numbers\<close>

lemma nat_str_length: "n < 10 ^ Suc k \<Longrightarrow> length (nat_str n) \<le> Suc k"
proof (induction k arbitrary: n)
  case 0
  then show ?case by (simp add: nat_str.simps)
next
  case (Suc k)
  then have "n div 10 < 10 ^ Suc k" by (simp add: div_less_iff_less_mult mult.commute)
  with Suc.IH [of "n div 10"] show ?case by (subst nat_str.simps) simp
qed

lemma dec_val_zeros: "dec_val (replicate z (CHR ''0'') @ s) = dec_val s"
  by (induction z) (simp_all add: dec_val_def)

definition num8 :: "nat \<Rightarrow> string" where
  "num8 n = numExtend (int n) 8"

lemma num8_eq: "n < 10 ^ 8 \<Longrightarrow> num8 n = replicate (8 - length (nat_str n)) (CHR ''0'') @ nat_str n"
  using nat_str_length [of n 7] by (auto simp: num8_def numExtend_def Let_def)

lemma num8_length [simp]: "n < 10 ^ 8 \<Longrightarrow> length (num8 n) = 8"
  using nat_str_length [of n 7] by (simp add: num8_eq)

lemma num8_digits: "n < 10 ^ 8 \<Longrightarrow> list_all is_digit (num8 n)"
  by (simp add: num8_eq list_all_append nat_str_digits) (simp add: list_all_iff is_digit_def)

lemma num8_Atoi [simp]: "n < 10 ^ 8 \<Longrightarrow> Atoi (num8 n) = int n"
  using num8_digits [of n] by (subst Atoi_digits) (simp_all add: num8_eq clamp_int_id dec_val_zeros)

lemma u64_small: "n < 2 ^ 63 \<Longrightarrow> u64_of_int (int n) = of_nat n" "n < 2 ^ 63 \<Longrightarrow> unat (of_nat n :: u64) = n"
  by (simp_all add: u64_of_int_def unat_of_nat)

section \<open>The contract\<close>

locale doc_store =
  fixes ops :: "'s doc_ops" and inv :: "'s \<Rightarrow> bool" and has :: "'s \<Rightarrow> string \<Rightarrow> bool"
    and bytes :: "'s \<Rightarrow> string \<Rightarrow> nat \<Rightarrow> char option" and owner :: "'s \<Rightarrow> string \<rightharpoonup> nat"
  assumes read_law: "inv s \<Longrightarrow> unat off mod chunk_size + unat n < 2 * chunk_size \<Longrightarrow>
      (\<And>p. unat off \<le> p \<Longrightarrow> p < unat off + unat n \<Longrightarrow> bytes s f p \<noteq> None) \<Longrightarrow>
      fs_read ops f off n s = Inr (map (\<lambda>p. the (bytes s f p)) [unat off..<unat off + unat n], s)"
    and write_law: "inv s \<Longrightarrow> data \<noteq> [] \<Longrightarrow> unat off + length data < 2 ^ 63 \<Longrightarrow> bytes s f (unat off) \<noteq> None \<Longrightarrow>
      \<exists>s'. fs_write ops f off data s = Inr (True, s') \<and> inv s' \<and> has s' = has s \<and> owner s' = owner s \<and>
        bytes s' = (bytes s)(f := bytes_written (unat off) data (bytes s f))"
    and create_law: "inv s \<Longrightarrow> \<not> has s f \<Longrightarrow> creatable f \<Longrightarrow>
      \<exists>s'. fs_create ops f s = Inr (True, s') \<and> inv s' \<and> has s' = (has s)(f := True) \<and> owner s' = owner s \<and>
        bytes s' = (bytes s)(f := \<lambda>p. if p < chunk_size then Some (CHR 0x00) else None)"
    and create_old_law: "inv s \<Longrightarrow> has s f \<Longrightarrow> fs_create ops f s = Inr (False, s)"
    and delete_law: "inv s \<Longrightarrow> \<exists>s'. fs_delete ops f s = Inr s' \<and> inv s' \<and> has s' = (has s)(f := False) \<and> owner s' = owner s \<and>
        bytes s' = (bytes s)(f := \<lambda>_. None)"
    and connect_law: "inv s \<Longrightarrow> lk_connect ops s = (c, s') \<Longrightarrow> inv s' \<and> has s' = has s \<and> bytes s' = bytes s \<and> owner s' = owner s"
    and try_law: "inv s \<Longrightarrow> \<exists>s'. lk_try ops c p s = Inr (owner s p = None, s') \<and> inv s' \<and> has s' = has s \<and> bytes s' = bytes s \<and>
        owner s' = (if owner s p = None then (owner s)(p \<mapsto> c) else owner s)"
    and unlock_law: "inv s \<Longrightarrow> \<exists>s'. lk_unlock ops c p s = Inr s' \<and> inv s' \<and> has s' = has s \<and> bytes s' = bytes s \<and>
        owner s' = (owner s)(p := None)"
    and close_law: "inv s \<Longrightarrow> inv (lk_close ops c s) \<and> has (lk_close ops c s) = has s \<and> bytes (lk_close ops c s) = bytes s \<and>
        owner (lk_close ops c s) = (\<lambda>p. if owner s p = Some c then None else owner s p)"
begin

end

section \<open>Texts in files\<close>

definition holds :: "(nat \<Rightarrow> char option) \<Rightarrow> string \<Rightarrow> bool" where
  "holds F t \<longleftrightarrow> (\<forall>p < length t. F p = Some (t ! p))"

definition chunk_full :: "(nat \<Rightarrow> char option) \<Rightarrow> bool" where
  "chunk_full F \<longleftrightarrow> (\<forall>p < chunk_size. F p \<noteq> None)"

definition patch :: "nat \<Rightarrow> string \<Rightarrow> string \<Rightarrow> string" where
  "patch off d t = take off t @ d @ drop (off + length d) t"

lemma patch_parts:
  "off = length a \<Longrightarrow> length d = length b \<Longrightarrow> patch off d (a @ b @ c) = a @ d @ c"
  "off = length a \<Longrightarrow> patch off d a = a @ d"
  by (simp_all add: patch_def)

lemma holds_written: "holds F t \<Longrightarrow> off \<le> length t \<Longrightarrow> holds (bytes_written off d F) (patch off d t)"
  unfolding holds_def patch_def bytes_written_def by (auto simp: nth_append)

lemma holds_prefix: "holds F (t @ u) \<Longrightarrow> holds F t"
  unfolding holds_def by (metis length_append nth_append trans_less_add1)

lemma chunk_full_written: "chunk_full F \<Longrightarrow> chunk_full (bytes_written off d F)"
  by (simp add: chunk_full_def bytes_written_def)

lemma holds_map: "holds F t \<Longrightarrow> a + n \<le> length t \<Longrightarrow> map (\<lambda>p. the (F p)) [a..<a + n] = take n (drop a t)"
  by (intro nth_equalityI) (auto simp: holds_def)

context doc_store
begin

text \<open>What a call leaves as it was: everything but the bytes of the files \<open>A\<close>.\<close>

definition keeps :: "string set \<Rightarrow> 's \<Rightarrow> 's \<Rightarrow> bool" where
  "keeps A s s' \<longleftrightarrow> inv s' \<and> has s' = has s \<and> owner s' = owner s \<and> (\<forall>g. g \<notin> A \<longrightarrow> bytes s' g = bytes s g)"

lemma keeps_trans: "keeps A s s1 \<Longrightarrow> keeps B s1 s2 \<Longrightarrow> keeps (A \<union> B) s s2"
  by (simp add: keeps_def)

lemma rd_holds:
  assumes "inv (w_fs st)" "holds (bytes (w_fs st) f) t" "unat off + unat n \<le> length t" "length t \<le> chunk_size"
  shows "rd ops f off n st = Inr (take (unat n) (drop (unat off) t), st)"
proof -
  have "fs_read ops f off n (w_fs st) = Inr (map (\<lambda>p. the (bytes (w_fs st) f p)) [unat off..<unat off + unat n], w_fs st)"
  proof (rule read_law [OF assms(1)])
    have "unat off mod chunk_size \<le> unat off" by simp
    then show "unat off mod chunk_size + unat n < 2 * chunk_size"
      using assms(3,4) chunk_size_pos by linarith
  qed (use assms(2,3) in \<open>auto simp: holds_def\<close>)
  then show ?thesis using holds_map [OF assms(2,3)] by (simp add: rd_def)
qed

lemma wr_ok:
  assumes "inv (w_fs st)" "d \<noteq> []" "unat off < chunk_size" "length d < 2 ^ 62" "chunk_full (bytes (w_fs st) f)"
  shows "\<exists>s. wr ops f off d st = Inr (st\<lparr>w_fs := s\<rparr>) \<and> keeps {f} (w_fs st) s \<and> bytes s f = bytes_written (unat off) d (bytes (w_fs st) f)"
proof -
  have "unat off + length d < 2 ^ 63" using assms(3,4) by (simp add: chunk_size_def)
  moreover have "bytes (w_fs st) f (unat off) \<noteq> None" using assms(3,5) by (simp add: chunk_full_def)
  ultimately show ?thesis using write_law [OF assms(1,2), of off f] by (auto simp: wr_def keeps_def)
qed

lemma wr_holds:
  assumes "inv (w_fs st)" "d \<noteq> []" "chunk_full (bytes (w_fs st) f)" "holds (bytes (w_fs st) f) t"
    "unat off = k" "k \<le> length t" "k < chunk_size" "length d < 2 ^ 62"
  shows "\<exists>s. wr ops f off d st = Inr (st\<lparr>w_fs := s\<rparr>) \<and> keeps {f} (w_fs st) s \<and> chunk_full (bytes s f) \<and>
    holds (bytes s f) (patch k d t)"
proof -
  have "unat off < chunk_size" using assms(5,7) by simp
  from wr_ok [OF assms(1,2) this assms(8,3)] obtain s where "wr ops f off d st = Inr (st\<lparr>w_fs := s\<rparr>)" "keeps {f} (w_fs st) s"
    "bytes s f = bytes_written k d (bytes (w_fs st) f)" unfolding assms(5) by blast
  then show ?thesis using holds_written [OF assms(4,6), of d] chunk_full_written [OF assms(3)] by auto
qed

end

section \<open>The log file\<close>

text \<open>The log file: its length, and the entries.\<close>

definition log_file :: "(nat \<Rightarrow> char option) \<Rightarrow> string \<Rightarrow> bool" where
  "log_file F T \<longleftrightarrow> chunk_full F \<and> holds F (num8 (8 + length T) @ T) \<and> T \<noteq> [] \<and> 8 + length T < chunk_size"

lemma chunk_size_8: "n < chunk_size \<Longrightarrow> n < 10 ^ 8" "n \<le> chunk_size \<Longrightarrow> n < 2 ^ 62"
  by (simp_all add: chunk_size_def)

context doc_store
begin

lemma writeLog_ok:
  assumes "inv (w_fs st)" "log_file (bytes (w_fs st) ''gDocLog'') T" "d \<noteq> []" "8 + length T + length d < chunk_size"
  shows "\<exists>s. writeLog ops d st = Inr (st\<lparr>w_fs := s\<rparr>) \<and> keeps {''gDocLog''} (w_fs st) s \<and> log_file (bytes s ''gDocLog'') (T @ d)"
proof -
  let ?L = "8 + length T" and ?t = "num8 (8 + length T) @ T"
  have L: "?L < 10 ^ 8" "?L + length d < 10 ^ 8" "?L < 2 ^ 63" using assms(4) by (simp_all add: chunk_size_def)
  have full: "chunk_full (bytes (w_fs st) ''gDocLog'')" and h: "holds (bytes (w_fs st) ''gDocLog'') ?t" and small: "?L < chunk_size"
    using assms(2) by (simp_all add: log_file_def)
  have len: "length ?t = ?L" using L by simp
  have rd: "rd ops ''gDocLog'' 0 8 st = Inr (num8 ?L, st)" using rd_holds [OF assms(1) h, of 0 8] L small by simp
  have new: "numExtend (int ?L + int (length d)) 8 = num8 (?L + length d)" by (simp add: num8_def)
  have l8: "length (num8 (?L + length d)) = 8" using L(2) by (rule num8_length)
  have "\<exists>s. wr ops ''gDocLog'' 0 (num8 (?L + length d)) st = Inr (st\<lparr>w_fs := s\<rparr>) \<and> keeps {''gDocLog''} (w_fs st) s \<and>
      chunk_full (bytes s ''gDocLog'') \<and> holds (bytes s ''gDocLog'') (patch 0 (num8 (?L + length d)) ?t)"
    by (rule wr_holds [OF assms(1) _ full h]) (use l8 L in \<open>auto simp del: num8_length\<close>)
  then obtain s1 where w1: "wr ops ''gDocLog'' 0 (num8 (?L + length d)) st = Inr (st\<lparr>w_fs := s1\<rparr>)" "keeps {''gDocLog''} (w_fs st) s1"
    "chunk_full (bytes s1 ''gDocLog'')" "holds (bytes s1 ''gDocLog'') (patch 0 (num8 (?L + length d)) ?t)" by auto
  have p1: "patch 0 (num8 (?L + length d)) ?t = num8 (?L + length d) @ T"
    using patch_parts(1) [of 0 "[]" "num8 (?L + length d)" "num8 ?L" T] l8 L by simp
  have off: "unat (u64_of_int (int ?L)) = ?L" using L(3) by (simp add: u64_small del: of_nat_add)
  have inv1: "inv (w_fs (st\<lparr>w_fs := s1\<rparr>))" using w1(2) by (simp add: keeps_def)
  have "\<exists>s. wr ops ''gDocLog'' (u64_of_int (int ?L)) d (st\<lparr>w_fs := s1\<rparr>) = Inr (st\<lparr>w_fs := s1\<rparr>\<lparr>w_fs := s\<rparr>) \<and>
      keeps {''gDocLog''} (w_fs (st\<lparr>w_fs := s1\<rparr>)) s \<and> chunk_full (bytes s ''gDocLog'') \<and>
      holds (bytes s ''gDocLog'') (patch ?L d (num8 (?L + length d) @ T))"
    by (rule wr_holds [OF inv1 assms(3)]) (use w1 p1 off l8 assms(4) small chunk_size_8 in \<open>auto simp del: num8_length\<close>)
  then obtain s2 where w2: "wr ops ''gDocLog'' (u64_of_int (int ?L)) d (st\<lparr>w_fs := s1\<rparr>) = Inr (st\<lparr>w_fs := s2\<rparr>)"
    "keeps {''gDocLog''} s1 s2" "chunk_full (bytes s2 ''gDocLog'')" "holds (bytes s2 ''gDocLog'') (patch ?L d (num8 (?L + length d) @ T))"
    using off by auto
  have p2: "patch ?L d (num8 (?L + length d) @ T) = num8 (8 + length (T @ d)) @ T @ d"
    using patch_parts(2) [of ?L "num8 (?L + length d) @ T" d] l8 by (simp add: add.assoc)
  have "keeps {''gDocLog''} (w_fs st) s2" using keeps_trans [OF w1(2) w2(2)] by simp
  moreover have "log_file (bytes s2 ''gDocLog'') (T @ d)" using w2 p2 assms(2,4) by (simp add: log_file_def)
  moreover have "writeLog ops d st = Inr (st\<lparr>w_fs := s2\<rparr>)"
    using rd w1(1) w2(1) num8_Atoi [OF L(1)] new by (simp add: writeLog_def Let_def)
  ultimately show ?thesis by blast
qed

end


section \<open>The text of the configuration file\<close>

text \<open>A file by name, size and valid bit.\<close>

type_synonym doc_rec = "string \<times> nat \<times> bool"

definition rec_text :: "doc_rec \<Rightarrow> string" where
  "rec_text = (\<lambda>(f, n, v). config_record f (int n) (if v then ''1'' else ''0''))"

definition config_body :: "doc_rec list \<Rightarrow> string" where
  "config_body recs = concat (map rec_text recs)"

definition config_text :: "doc_rec list \<Rightarrow> string" where
  "config_text recs = num8 (length recs) @ num8 (16 + length (config_body recs)) @ config_body recs"

definition recs_ok :: "doc_rec list \<Rightarrow> bool" where
  "recs_ok recs \<longleftrightarrow> distinct (map fst recs) \<and> (\<forall>(f, n, v) \<in> set recs. n < 10 ^ 8) \<and> 16 + length (config_body recs) < chunk_size"

definition doc_name :: "string \<Rightarrow> bool" where
  "doc_name f \<longleftrightarrow> f \<noteq> ''config'' \<and> f \<noteq> ''gDocLog'' \<and> creatable f"

text \<open>Names without digits, none of which is part of another one.\<close>

definition names_ok :: "string set \<Rightarrow> bool" where
  "names_ok N \<longleftrightarrow> (\<forall>f \<in> N. f \<noteq> [] \<and> list_all (\<lambda>c. \<not> is_digit c) f) \<and> (\<forall>f \<in> N. \<forall>g \<in> N. sublist f g \<longrightarrow> f = g)"

lemma rec_text_eq: "rec_text (f, n, v) = num8 (length f) @ f @ num8 n @ (if v then ''1'' else ''0'')"
  by (simp add: rec_text_def config_record_def num8_def)

lemma config_body_simps [simp]:
  "config_body [] = []" "config_body (r # rs) = rec_text r @ config_body rs" "config_body (rs @ qs) = config_body rs @ config_body qs"
  by (simp_all add: config_body_def)

lemma recs_lengths:
  assumes "recs_ok (r1 @ (f, n, v) # r2)"
  shows "length (num8 (length f)) = 8" "length (num8 n) = 8" "length (rec_text (f, n, v)) = length f + 17"
    "16 + length (config_body r1) + (length f + 17) + length (config_body r2) < chunk_size"
proof -
  have n: "n < 10 ^ 8" and c: "16 + length (config_body r1) + length (rec_text (f, n, v)) + length (config_body r2) < chunk_size"
    using assms by (auto simp: recs_ok_def)
  have "length f < chunk_size" using c by (simp add: rec_text_eq)
  then have "length f < 10 ^ 8" by (rule chunk_size_8)
  then show 8: "length (num8 (length f)) = 8" "length (num8 n) = 8" using n by (simp_all only: num8_length)
  then show "length (rec_text (f, n, v)) = length f + 17" by (simp add: rec_text_eq)
  with c show "16 + length (config_body r1) + (length f + 17) + length (config_body r2) < chunk_size" by simp
qed

lemma recs_count: "length recs \<le> length (config_body recs)"
  by (induction recs) (auto simp: rec_text_eq split: if_splits)

lemma config_header:
  assumes "recs_ok recs"
  shows "length recs < 10 ^ 8" "16 + length (config_body recs) < 10 ^ 8" "length (num8 (length recs)) = 8"
    "length (num8 (16 + length (config_body recs))) = 8" "length (config_text recs) = 16 + length (config_body recs)"
    "length (config_text recs) < chunk_size"
proof -
  have c: "16 + length (config_body recs) < chunk_size" using assms by (simp add: recs_ok_def)
  then show 1: "length recs < 10 ^ 8" "16 + length (config_body recs) < 10 ^ 8"
    using recs_count [of recs] chunk_size_8(1) by (meson le_less_trans trans_le_add2)+
  from 1 show 2: "length (num8 (length recs)) = 8" "length (num8 (16 + length (config_body recs))) = 8" by (simp_all only: num8_length)
  then show "length (config_text recs) = 16 + length (config_body recs)" by (simp add: config_text_def)
  with c show "length (config_text recs) < chunk_size" by simp
qed

lemma config_text_parts: "recs_ok recs \<Longrightarrow> config_text recs = num8 (length recs) @ num8 (length (config_text recs)) @ config_body recs"
  by (simp only: config_header(5)) (rule config_text_def)

subsection \<open>Finding a record\<close>

lemma occurs_append: "occurs_at (s @ t) f j \<Longrightarrow> length s \<le> j \<Longrightarrow> occurs_at t f (j - length s)"
  by (simp add: occurs_at_def)

lemma occurs_digits:
  assumes "occurs_at (D @ s) f j" "list_all is_digit D" "f \<noteq> []" "list_all (\<lambda>c. \<not> is_digit c) f"
  shows "length D \<le> j"
proof (rule ccontr)
  assume "\<not> length D \<le> j"
  then have j: "j < length D" by simp
  obtain c cs where f: "f = c # cs" using assms(3) by (cases f) auto
  have "take (Suc (length cs)) (drop j (D @ s)) = c # cs" using assms(1) f by (simp add: occurs_at_def)
  moreover have "drop j (D @ s) = D ! j # drop (Suc j) (D @ s)" using j by (simp add: Cons_nth_drop_Suc [symmetric] nth_append)
  ultimately have "c = D ! j" by (simp del: drop_append)
  with j assms(2,4) f show False by (auto simp: list_all_length)
qed

lemma occurs_name:
  assumes "occurs_at (g @ d # s) f j" "is_digit d" "f \<noteq> []" "list_all (\<lambda>c. \<not> is_digit c) f" "\<not> sublist f g"
  shows "length g < j"
proof (rule ccontr)
  assume "\<not> length g < j"
  then have j: "j \<le> length g" by simp
  have eq: "take (length f) (drop j g @ d # s) = f" using assms(1) j by (simp add: occurs_at_def)
  show False
  proof (cases "length f \<le> length (drop j g)")
    case True
    then have "f = take (length f) (drop j g)" using eq by simp
    then have "g = take j g @ f @ drop (length f) (drop j g)" by (metis append_take_drop_id)
    then show False using assms(5) by (metis sublist_appendI)
  next
    case False
    then have "length (drop j g) < length f" by simp
    then have "f ! length (drop j g) = (drop j g @ d # s) ! length (drop j g)" using eq by (metis nth_take)
    then have "f ! length (drop j g) = d" by (simp only: nth_append_length)
    then show False using False assms(2,4) by (auto simp: list_all_length)
  qed
qed

lemma num8_nonempty: "n < 10 ^ 8 \<Longrightarrow> \<exists>d ds. num8 n = d # ds \<and> is_digit d \<and> list_all is_digit ds"
  using num8_length [of n] num8_digits [of n] by (cases "num8 n") auto

lemma occurs_rec:
  assumes "occurs_at (rec_text (g, n, v) @ s) f j" "length g < 10 ^ 8" "n < 10 ^ 8"
    "f \<noteq> []" "list_all (\<lambda>c. \<not> is_digit c) f" "\<not> sublist f g"
  shows "length (rec_text (g, n, v)) \<le> j \<and> occurs_at s f (j - length (rec_text (g, n, v)))"
proof -
  let ?v = "if v then ''1'' else ''0''"
  obtain d ds where n: "num8 n = d # ds" "is_digit d" "list_all is_digit ds" using num8_nonempty [OF assms(3)] by blast
  have eq: "rec_text (g, n, v) @ s = num8 (length g) @ g @ d # (ds @ ?v) @ s" by (simp add: rec_text_eq n)
  have 1: "length (num8 (length g)) \<le> j"
    using occurs_digits [OF assms(1) [unfolded eq] num8_digits [OF assms(2)] assms(4,5)] .
  note o1 = occurs_append [OF assms(1) [unfolded eq] 1]
  have 2: "length g < j - length (num8 (length g))" using occurs_name [OF o1 n(2) assms(4-6)] .
  have dv: "list_all is_digit (d # ds @ ?v)" using n by (simp add: is_digit_def)
  have o2: "occurs_at ((d # ds @ ?v) @ s) f (j - length (num8 (length g)) - length g)"
    using occurs_append [OF o1] 2 by simp
  from occurs_digits [OF o2 dv assms(4,5)] have 3: "length (d # ds @ ?v) \<le> j - length (num8 (length g)) - length g" .
  have l: "length (rec_text (g, n, v)) = length (num8 (length g)) + length g + length (d # ds @ ?v)" by (simp add: rec_text_eq n)
  show ?thesis using 1 2 3 occurs_append [OF o2 3] l by (simp add: algebra_simps)
qed

lemma occurs_body:
  "occurs_at (config_body r1 @ s) f j \<Longrightarrow> (\<And>g n v. (g, n, v) \<in> set r1 \<Longrightarrow> length g < 10 ^ 8 \<and> n < 10 ^ 8 \<and> \<not> sublist f g) \<Longrightarrow>
   f \<noteq> [] \<Longrightarrow> list_all (\<lambda>c. \<not> is_digit c) f \<Longrightarrow> length (config_body r1) \<le> j \<and> occurs_at s f (j - length (config_body r1))"
proof (induction r1 arbitrary: j)
  case (Cons r r1)
  obtain g n v where r: "r = (g, n, v)" by (cases r)
  have g: "length g < 10 ^ 8" "n < 10 ^ 8" "\<not> sublist f g" using Cons.prems(2) [of g n v] r by simp_all
  have "occurs_at (rec_text (g, n, v) @ config_body r1 @ s) f j" using Cons.prems(1) r by simp
  from occurs_rec [OF this g(1,2) Cons.prems(3,4) g(3)] have 1: "length (rec_text r) \<le> j"
    "occurs_at (config_body r1 @ s) f (j - length (rec_text r))" using r by simp_all
  from Cons.IH [OF this(2) _ Cons.prems(3,4)] Cons.prems(2) 1(1) show ?case by fastforce
qed simp

lemma config_index:
  assumes ok: "recs_ok recs" and recs: "recs = r1 @ (f, n, v) # r2" and names: "names_ok N" "fst ` set recs \<subseteq> N"
  shows "str_Index (config_text recs) f = int (16 + length (config_body r1) + 8)"
proof (rule str_Index_eqI)
  have f: "f \<noteq> []" "list_all (\<lambda>c. \<not> is_digit c) f" using names recs by (auto simp: names_ok_def)
  note h = config_header [OF ok] and l = recs_lengths [OF ok [unfolded recs]]
  have eq: "config_text recs = (num8 (length recs) @ num8 (16 + length (config_body recs))) @ config_body r1 @ num8 (length f) @ f @
      num8 n @ (if v then ''1'' else ''0'') @ config_body r2"
    unfolding config_text_def using recs by (simp add: rec_text_eq)
  have len: "length (num8 (length recs) @ num8 (16 + length (config_body recs))) = 16" using h by simp
  show "16 + length (config_body r1) + 8 \<le> length (config_text recs)" using h(5) l(3) recs by simp
  show "occurs_at (config_text recs) f (16 + length (config_body r1) + 8)"
    unfolding occurs_at_prefix eq
    by (intro disjI1 exI [of _ "(num8 (length recs) @ num8 (16 + length (config_body recs))) @ config_body r1 @ num8 (length f)"]
        exI [of _ "num8 n @ (if v then ''1'' else ''0'') @ config_body r2"] conjI) (use len l(1) in simp_all)
  fix j assume j: "j < 16 + length (config_body r1) + 8"
  show "\<not> occurs_at (config_text recs) f j"
  proof
    assume o: "occurs_at (config_text recs) f j"
    have dig: "list_all is_digit (num8 (length recs) @ num8 (16 + length (config_body recs)))"
      using num8_digits [OF h(1)] num8_digits [OF h(2)] by simp
    from occurs_digits [OF o [unfolded eq] dig f] len have 1: "16 \<le> j" by simp
    have o1: "occurs_at (config_body r1 @ num8 (length f) @ f @ num8 n @ (if v then ''1'' else ''0'') @ config_body r2) f (j - 16)"
      using occurs_append [OF o [unfolded eq]] len 1 by simp
    have r1: "length g < 10 ^ 8 \<and> m < 10 ^ 8 \<and> \<not> sublist f g" if g: "(g, m, w) \<in> set r1" for g m w
    proof -
      have "(g, m, w) \<in> set recs" using g recs by simp
      moreover have gf: "g \<noteq> f"
      proof -
        have "f \<notin> fst ` set r1" using ok recs by (simp add: recs_ok_def)
        moreover have "g \<in> fst ` set r1" using imageI [OF g, of fst] by simp
        ultimately show ?thesis by metis
      qed
      moreover have "\<not> sublist f g"
      proof -
        have "f \<in> N" using names(2) recs by simp
        moreover have "g \<in> N" using names(2) recs imageI [OF g, of fst] by (simp add: image_Un subset_eq)
        ultimately show ?thesis using names(1) gf unfolding names_ok_def by metis
      qed
      moreover obtain p q where "r1 = p @ (g, m, w) # q" using g by (meson split_list)
      then have "recs = p @ (g, m, w) # q @ (f, n, v) # r2" using recs by simp
      from recs_lengths(4) [OF ok [unfolded this]] have "length g < chunk_size" by simp
      ultimately show ?thesis using ok chunk_size_8(1) by (auto simp: recs_ok_def)
    qed
    have 2: "length (config_body r1) \<le> j - 16"
      "occurs_at (num8 (length f) @ f @ num8 n @ (if v then ''1'' else ''0'') @ config_body r2) f (j - 16 - length (config_body r1))"
      using occurs_body [OF o1 _ f] r1 by blast+
    have lf: "length f < 10 ^ 8" using l(4) by (intro chunk_size_8(1)) simp
    from occurs_digits [OF 2(2) num8_digits [OF lf] f] l(1) 2(1) 1 j show False by simp
  qed
qed


subsection \<open>Changing the configuration\<close>

definition config_file :: "(nat \<Rightarrow> char option) \<Rightarrow> doc_rec list \<Rightarrow> bool" where
  "config_file F recs \<longleftrightarrow> chunk_full F \<and> holds F (config_text recs) \<and> recs_ok recs"

lemma patch_at: "t = a @ b @ c \<Longrightarrow> off = length a \<Longrightarrow> length d = length b \<Longrightarrow> patch off d t = a @ d @ c"
  by (simp add: patch_parts)

context doc_store
begin

lemma read_config:
  assumes "inv (w_fs st)" "config_file (bytes (w_fs st) ''config'') recs"
  shows "rd ops ''config'' 0 8 st = Inr (num8 (length recs), st)"
    "rd ops ''config'' 8 8 st = Inr (num8 (length (config_text recs)), st)"
    "rd ops ''config'' 0 (of_nat (length (config_text recs))) st = Inr (config_text recs, st)"
proof -
  have h: "holds (bytes (w_fs st) ''config'') (config_text recs)" and ok: "recs_ok recs" using assms(2) by (simp_all add: config_file_def)
  note c = config_header [OF ok]
  have u: "unat (of_nat (length (config_text recs)) :: u64) = length (config_text recs)"
    using c(6) by (intro u64_small) (simp add: chunk_size_def)
  show "rd ops ''config'' 0 8 st = Inr (num8 (length recs), st)"
    using rd_holds [OF assms(1) h, of 0 8] c by (simp add: config_text_def)
  show "rd ops ''config'' 8 8 st = Inr (num8 (length (config_text recs)), st)"
    using rd_holds [OF assms(1) h, of 8 8] c by (simp add: config_text_def)
  show "rd ops ''config'' 0 (of_nat (length (config_text recs))) st = Inr (config_text recs, st)"
    using rd_holds [OF assms(1) h, of 0 "of_nat (length (config_text recs))"] c(6) u by simp
qed

lemma changeValidBit_ok:
  assumes "inv (w_fs st)" "config_file (bytes (w_fs st) ''config'') (r1 @ (f, n, v) # r2)"
    and names: "names_ok N" "fst ` set (r1 @ (f, n, v) # r2) \<subseteq> N"
  shows "\<exists>s. changeValidBit ops f b st = Inr (st\<lparr>w_fs := s\<rparr>) \<and> keeps {''config''} (w_fs st) s \<and>
    config_file (bytes s ''config'') (r1 @ (f, n, b = 1) # r2)"
proof -
  let ?recs = "r1 @ (f, n, v) # r2" and ?recs' = "r1 @ (f, n, b = 1) # r2"
  have full: "chunk_full (bytes (w_fs st) ''config'')" and h: "holds (bytes (w_fs st) ''config'') (config_text ?recs)" and ok: "recs_ok ?recs"
    using assms(2) by (simp_all add: config_file_def)
  note c = config_header [OF ok] and l = recs_lengths [OF ok] and rd = read_config [OF assms(1,2)]
  define pos where "pos = 16 + length (config_body r1) + 8 + length f + 8"
  have pos: "pos < length (config_text ?recs)" using c(5) l(3) by (simp add: pos_def)
  then have pos': "pos < chunk_size" using c(6) by simp
  have sm: "length (config_text ?recs) < 10 ^ 8" "length (config_text ?recs) < 2 ^ 63" "pos < 2 ^ 63"
    using c(6) pos' by (simp_all add: chunk_size_def)
  have idx: "str_Index (config_text ?recs) f + int (length f) + 8 = int pos"
    using config_index [OF ok refl names] by (simp add: pos_def)
  have same: "length (config_body ?recs') = length (config_body ?recs)" by (simp add: rec_text_eq)
  have pt: "patch pos (if b = 1 then ''1'' else ''0'') (config_text ?recs) = config_text ?recs'"
  proof -
    let ?a = "num8 (length ?recs) @ num8 (16 + length (config_body ?recs)) @ config_body r1 @ num8 (length f) @ f @ num8 n"
    have "config_text ?recs = ?a @ (if v then ''1'' else ''0'') @ config_body r2" by (simp add: config_text_def rec_text_eq)
    from patch_at [OF this, of pos "(if b = 1 then ''1'' else ''0'')"] show ?thesis using c(3,4) l(1,2) same by (simp add: pos_def config_text_def rec_text_eq)
  qed
  have "\<exists>s. wr ops ''config'' (of_nat pos) (if b = 1 then ''1'' else ''0'') st = Inr (st\<lparr>w_fs := s\<rparr>) \<and> keeps {''config''} (w_fs st) s \<and>
      chunk_full (bytes s ''config'') \<and> holds (bytes s ''config'') (patch pos (if b = 1 then ''1'' else ''0'') (config_text ?recs))"
    by (rule wr_holds [OF assms(1) _ full h]) (use pos pos' sm u64_small(2) in simp_all)
  then obtain s where s: "wr ops ''config'' (of_nat pos) (if b = 1 then ''1'' else ''0'') st = Inr (st\<lparr>w_fs := s\<rparr>)" "keeps {''config''} (w_fs st) s"
    "chunk_full (bytes s ''config'')" "holds (bytes s ''config'') (config_text ?recs')" unfolding pt by blast
  have "recs_ok ?recs'" using ok same by (simp add: recs_ok_def)
  moreover have "changeValidBit ops f b st = Inr (st\<lparr>w_fs := s\<rparr>)"
    using rd s(1) idx num8_Atoi [OF sm(1)] u64_small(1) [OF sm(2)] u64_small(1) [OF sm(3)] by (simp add: changeValidBit_def Let_def)
  ultimately show ?thesis using s by (auto simp: config_file_def)
qed

end

context doc_store
begin

text \<open>A file of which the first bytes are known, while it is changed.\<close>

definition text_file :: "'s \<Rightarrow> string \<Rightarrow> string \<Rightarrow> bool" where
  "text_file s f t \<longleftrightarrow> inv s \<and> chunk_full (bytes s f) \<and> holds (bytes s f) t \<and> length t < chunk_size"

lemma text_read:
  "text_file (w_fs st) f (a @ b @ c) \<Longrightarrow> unat off = length a \<Longrightarrow> unat k = length b \<Longrightarrow> rd ops f off k st = Inr (b, st)"
  using rd_holds [of st f "a @ b @ c" off k] by (simp add: text_file_def)

lemma text_write:
  assumes "text_file (w_fs st) f (a @ b @ c)" "unat off = length a" "length d = length b" "d \<noteq> []"
  shows "\<exists>s. wr ops f off d st = Inr (st\<lparr>w_fs := s\<rparr>) \<and> keeps {f} (w_fs st) s \<and> text_file s f (a @ d @ c)"
proof -
  have "\<exists>s. wr ops f off d st = Inr (st\<lparr>w_fs := s\<rparr>) \<and> keeps {f} (w_fs st) s \<and> chunk_full (bytes s f) \<and>
      holds (bytes s f) (patch (length a) d (a @ b @ c))"
    by (rule wr_holds) (use assms in \<open>auto simp: text_file_def chunk_size_def\<close>)
  then show ?thesis using assms(1,3) by (auto simp: text_file_def keeps_def patch_parts)
qed

lemma text_append:
  assumes "text_file (w_fs st) f a" "unat off = length a" "d \<noteq> []" "length a + length d < chunk_size"
  shows "\<exists>s. wr ops f off d st = Inr (st\<lparr>w_fs := s\<rparr>) \<and> keeps {f} (w_fs st) s \<and> text_file s f (a @ d)"
proof -
  have "\<exists>s. wr ops f off d st = Inr (st\<lparr>w_fs := s\<rparr>) \<and> keeps {f} (w_fs st) s \<and> chunk_full (bytes s f) \<and>
      holds (bytes s f) (patch (length a) d a)"
    by (rule wr_holds) (use assms in \<open>auto simp: text_file_def chunk_size_def\<close>)
  then show ?thesis using assms(4) by (auto simp: text_file_def keeps_def patch_parts)
qed

lemma config_text_file: "inv s \<Longrightarrow> config_file (bytes s ''config'') recs \<Longrightarrow> text_file s ''config'' (config_text recs)"
  using config_header(6) by (auto simp: text_file_def config_file_def)

lemma add_config_ok:
  assumes "inv (w_fs st)" "config_file (bytes (w_fs st) ''config'') recs" "recs_ok (recs @ [(f, n, True)])"
  shows "\<exists>s. add_config ops f (of_nat n) st = Inr (st\<lparr>w_fs := s\<rparr>) \<and> keeps {''config''} (w_fs st) s \<and>
    config_file (bytes s ''config'') (recs @ [(f, n, True)])"
proof -
  let ?recs' = "recs @ [(f, n, True)]" and ?k = "length recs" and ?r = "rec_text (f, n, True)"
  define t where "t = length (config_text recs)"
  have ok: "recs_ok recs" using assms(2) by (simp add: config_file_def)
  note c = config_header [OF ok, folded t_def] and c' = config_header [OF assms(3)] and l = recs_lengths [OF assms(3)]
  have n: "n < 10 ^ 8" using assms(3) by (simp add: recs_ok_def)
  have rec: "config_record f (int_of_u64 (of_nat n)) ''1'' = ?r"
  proof -
    have "unat (of_nat n :: u64) = n" using n by (intro u64_small) simp
    then have "int_of_u64 (of_nat n) = int n" using n int_of_u64_small [of "of_nat n"] by simp
    then show ?thesis by (simp add: rec_text_def)
  qed
  have tx: "config_text recs = num8 ?k @ num8 t @ config_body recs" using config_text_parts [OF ok] by (simp only: t_def)
  note tf = config_text_file [OF assms(1,2)]
  have nums: "numExtend (int ?k + 1) 8 = num8 (Suc ?k)" "numExtend (int t + int (length ?r)) 8 = num8 (t + length ?r)"
    by (simp_all add: num8_def add.commute)
  have len: "length (num8 (Suc ?k)) = 8" "length (num8 t) = 8" "length (num8 (t + length ?r)) = 8" "t < 10 ^ 8" "t < 2 ^ 63"
    using c c' by (simp_all add: algebra_simps)
  have r1: "rd ops ''config'' 0 8 st = Inr (num8 ?k, st)" by (rule read_config [OF assms(1,2)])
  from text_write [of st "''config''" "[]" "num8 ?k" "num8 t @ config_body recs" 0 "num8 (Suc ?k)"] tf len c(3)
  obtain s1 where w1: "wr ops ''config'' 0 (num8 (Suc ?k)) st = Inr (st\<lparr>w_fs := s1\<rparr>)" "keeps {''config''} (w_fs st) s1"
    "text_file s1 ''config'' (num8 (Suc ?k) @ num8 t @ config_body recs)" unfolding tx by (auto simp: length_0_conv [symmetric] simp del: length_0_conv)
  have r2: "rd ops ''config'' 8 8 (st\<lparr>w_fs := s1\<rparr>) = Inr (num8 t, st\<lparr>w_fs := s1\<rparr>)"
    using text_read [of "st\<lparr>w_fs := s1\<rparr>" "''config''" "num8 (Suc ?k)" "num8 t" "config_body recs" 8 8] w1(3) len by simp
  have "length (num8 (Suc ?k) @ num8 t @ config_body recs) = t" using len c(5) by simp
  then obtain s2 where w2: "wr ops ''config'' (of_nat t) ?r (st\<lparr>w_fs := s1\<rparr>) = Inr (st\<lparr>w_fs := s2\<rparr>)" "keeps {''config''} s1 s2"
    "text_file s2 ''config'' (num8 (Suc ?k) @ num8 t @ config_body recs @ ?r)"
    using text_append [of "st\<lparr>w_fs := s1\<rparr>" "''config''" "num8 (Suc ?k) @ num8 t @ config_body recs" "of_nat t" ?r] w1(3) c' len
    by (auto simp: u64_small rec_text_eq)
  from text_write [of "st\<lparr>w_fs := s2\<rparr>" "''config''" "num8 (Suc ?k)" "num8 t" "config_body recs @ ?r" 8 "num8 (t + length ?r)"] w2(3) len
  obtain s3 where w3: "wr ops ''config'' 8 (num8 (t + length ?r)) (st\<lparr>w_fs := s2\<rparr>) = Inr (st\<lparr>w_fs := s3\<rparr>)" "keeps {''config''} s2 s3"
    "text_file s3 ''config'' (num8 (Suc ?k) @ num8 (t + length ?r) @ config_body recs @ ?r)"
    by (auto simp: length_0_conv [symmetric] simp del: length_0_conv)
  have "config_text ?recs' = num8 (Suc ?k) @ num8 (t + length ?r) @ config_body recs @ ?r" using c(5) by (simp add: config_text_def add.assoc)
  then have "config_file (bytes s3 ''config'') ?recs'" using w3(3) assms(3) by (simp add: config_file_def text_file_def)
  moreover have "keeps {''config''} (w_fs st) s3" using keeps_trans [OF keeps_trans [OF w1(2) w2(2)] w3(2)] by simp
  moreover have "add_config ops f (of_nat n) st = Inr (st\<lparr>w_fs := s3\<rparr>)"
    using r1 r2 w1(1) w2(1) w3(1) rec nums num8_Atoi [OF c(1)] num8_Atoi [OF len(4)] u64_small(1) [OF len(5)]
    by (simp add: add_config_def Let_def)
  ultimately show ?thesis by blast
qed

lemma clear_config_ok:
  assumes "inv (w_fs st)" "config_file (bytes (w_fs st) ''config'') (r1 @ (f, n, v) # r2)"
    and names: "names_ok N" "fst ` set (r1 @ (f, n, v) # r2) \<subseteq> N"
  shows "\<exists>s. clear_config ops f st = Inr (st\<lparr>w_fs := s\<rparr>) \<and> keeps {''config''} (w_fs st) s \<and>
    config_file (bytes s ''config'') (r1 @ r2)"
proof -
  let ?recs = "r1 @ (f, n, v) # r2" and ?r = "rec_text (f, n, v)"
  define t where "t = length (config_text ?recs)"
  have ok: "recs_ok ?recs" and full: "chunk_full (bytes (w_fs st) ''config'')" and h: "holds (bytes (w_fs st) ''config'') (config_text ?recs)"
    using assms(2) by (simp_all add: config_file_def)
  note c = config_header [OF ok, folded t_def] and l = recs_lengths [OF ok] and rd = read_config [OF assms(1,2), folded t_def]
  have ok': "recs_ok (r1 @ r2)" using ok by (simp add: recs_ok_def)
  note c' = config_header [OF ok']
  have sm: "t < 10 ^ 8" "t < 2 ^ 63" using c(6) by (simp_all add: chunk_size_def)
  let ?h = "num8 (length ?recs) @ num8 t"
  have tx: "config_text ?recs = ?h @ config_body r1 @ ?r @ config_body r2" using config_text_parts [OF ok, folded t_def] by simp
  have h16: "length ?h = 16" using c(3,4,5) by simp
  define a where "a = 16 + int (length (config_body r1))"
  have start: "str_Index (config_text ?recs) f - 8 = a" using config_index [OF ok refl names] by (simp add: a_def)
  have s1: "go_slice (config_text ?recs) 0 8 = Some (num8 (length ?recs))"
    by (rule slice_eqI [of _ "[]" _ "num8 t @ config_body r1 @ ?r @ config_body r2"]) (use tx c(3) in simp_all)
  have s2: "go_slice (config_text ?recs) 8 16 = Some (num8 t)"
    by (rule slice_eqI [of _ "num8 (length ?recs)" _ "config_body r1 @ ?r @ config_body r2"]) (use tx c(3) h16 in simp_all)
  have s3: "go_slice (config_text ?recs) 16 a = Some (config_body r1)"
    by (rule slice_eqI [of _ ?h _ "?r @ config_body r2"]) (use tx h16 in \<open>simp_all add: a_def\<close>)
  have s4: "go_slice_from (config_text ?recs) (a + (8 + int (length f) + 8 + 1)) = Some (config_body r2)"
    by (rule slice_from_eqI [of _ "?h @ config_body r1 @ ?r"]) (use tx h16 l(3) in \<open>simp_all add: a_def\<close>)
  have t': "t = length (config_text (r1 @ r2)) + (length f + 17)" using c(5) c'(5) l(3) by simp
  have new: "numExtend (int (length ?recs) - 1) 8 @ numExtend (int t - (8 + int (length f) + 8 + 1)) 8 @ config_body r1 @ config_body r2 =
      config_text (r1 @ r2)"
  proof -
    have "int (length ?recs) - 1 = int (length (r1 @ r2))" by simp
    moreover have "int t - (8 + int (length f) + 8 + 1) = int (16 + length (config_body (r1 @ r2)))" using t' c'(5) by simp
    ultimately show ?thesis by (simp only: num8_def [symmetric] config_text_def config_body_simps)
  qed
  have "\<exists>s. wr ops ''config'' 0 (config_text (r1 @ r2)) st = Inr (st\<lparr>w_fs := s\<rparr>) \<and> keeps {''config''} (w_fs st) s \<and>
      chunk_full (bytes s ''config'') \<and> holds (bytes s ''config'') (patch 0 (config_text (r1 @ r2)) (config_text ?recs))"
    by (rule wr_holds [OF assms(1) _ full h]) (use c'(5,6) chunk_size_8 in \<open>auto simp: length_0_conv [symmetric] simp del: length_0_conv\<close>)
  then obtain s where s: "wr ops ''config'' 0 (config_text (r1 @ r2)) st = Inr (st\<lparr>w_fs := s\<rparr>)" "keeps {''config''} (w_fs st) s"
    "chunk_full (bytes s ''config'')" "holds (bytes s ''config'') (config_text (r1 @ r2))"
    by (auto simp: patch_def dest: holds_prefix)
  have "clear_config ops f st = Inr (st\<lparr>w_fs := s\<rparr>)"
    using rd(2,3) s1 s2 s3 s4 start s(1) new num8_Atoi [OF c(1)] num8_Atoi [OF sm(1)] u64_small(1) [OF sm(2)]
    by (simp add: clear_config_def Let_def)
  with s ok' show ?thesis by (auto simp: config_file_def)
qed

end


section \<open>The maps of the server and the configuration\<close>

definition files_in :: "bool \<Rightarrow> doc_rec list \<Rightarrow> (string, u64) gomap" where
  "files_in v recs = map (\<lambda>(f, n, _). (f, of_nat n)) (filter (\<lambda>(_, _, w). w = v) recs)"

definition set_valid :: "string \<Rightarrow> bool \<Rightarrow> doc_rec list \<Rightarrow> doc_rec list" where
  "set_valid f b recs = map (\<lambda>(g, n, v). (g, n, if g = f then b else v)) recs"

definition remove_rec :: "string \<Rightarrow> doc_rec list \<Rightarrow> doc_rec list" where
  "remove_rec f recs = filter (\<lambda>(g, _). g \<noteq> f) recs"

lemma map_of_files_in:
  "distinct (map fst recs) \<Longrightarrow> map_of (files_in v recs) f =
     (case map_of recs f of None \<Rightarrow> None | Some (n, w) \<Rightarrow> if w = v then Some (of_nat n) else None)"
proof (induction recs)
  case (Cons r recs)
  obtain g n w where r: "r = (g, n, w)" by (cases r)
  have "map_of recs g = None" using Cons.prems r by (simp add: map_of_eq_None_iff)
  with Cons r show ?case by (auto simp: files_in_def split: option.splits)
qed (simp add: files_in_def)

lemma files_in_snoc:
  assumes "f \<notin> fst ` set recs"
  shows "map_of (files_in w (recs @ [(f, n, v)])) = (if w = v then (map_of (files_in w recs))(f \<mapsto> of_nat n) else map_of (files_in w recs))"
proof -
  have "map_of (files_in w recs) f = None" using assms by (force simp: files_in_def map_of_eq_None_iff)
  moreover have "files_in w (recs @ [(f, n, v)]) = files_in w recs @ (if w = v then [(f, of_nat n)] else [])" by (auto simp: files_in_def)
  ultimately show ?thesis by (auto simp: fun_eq_iff map_add_def split: option.splits)
qed

lemma map_of_split: "map_of recs f = Some (n, v) \<Longrightarrow> \<exists>r1 r2. recs = r1 @ (f, n, v) # r2"
  by (meson map_of_SomeD split_list)

lemma other_recs: "f \<notin> fst ` set r \<Longrightarrow> set_valid f b r = r \<and> remove_rec f r = r"
  by (induction r) (auto simp: set_valid_def remove_rec_def)

lemma split_recs:
  assumes "recs = r1 @ (f, n, v) # r2" "distinct (map fst recs)"
  shows "set_valid f b recs = r1 @ (f, n, b) # r2" "remove_rec f recs = r1 @ r2"
proof -
  have "f \<notin> fst ` set r1" "f \<notin> fst ` set r2" using assms by auto
  from this [THEN other_recs, of b] assms(1)
  show "set_valid f b recs = r1 @ (f, n, b) # r2" "remove_rec f recs = r1 @ r2"
    by (simp_all add: set_valid_def remove_rec_def)
qed

lemma fst_set_valid [simp]: "map fst (set_valid f b recs) = map fst recs"
  by (simp add: set_valid_def comp_def case_prod_beta)

lemma map_of_set_valid: "map_of (set_valid f b recs) g = map_option (\<lambda>(n, v). (n, if g = f then b else v)) (map_of recs g)"
  by (induction recs) (auto simp: set_valid_def)

lemma map_of_remove_rec: "map_of (remove_rec f recs) g = (if g = f then None else map_of recs g)"
  by (induction recs) (auto simp: remove_rec_def)

lemma fst_remove_rec: "fst ` set (remove_rec f recs) = fst ` set recs - {f}"
  by (force simp: remove_rec_def)

text \<open>
  The server agrees with its files: the configuration file holds the records, the log file the entries, the
  two maps are the valid and the other records, of the names \<open>N\<close> exactly those in the records have a file,
  and each has its first chunk.
\<close>

definition web_inv ::
    "('s \<Rightarrow> bool) \<Rightarrow> ('s \<Rightarrow> string \<Rightarrow> bool) \<Rightarrow> ('s \<Rightarrow> string \<Rightarrow> nat \<Rightarrow> char option) \<Rightarrow> string set \<Rightarrow> doc_rec list \<Rightarrow> string \<Rightarrow> 's webserver \<Rightarrow> bool" where
  "web_inv J has bytes N recs T st \<longleftrightarrow>
     J (w_fs st) \<and> (\<forall>f \<in> N. doc_name f) \<and> fst ` set recs \<subseteq> N \<and> config_file (bytes (w_fs st) ''config'') recs \<and>
     log_file (bytes (w_fs st) ''gDocLog'') T \<and> has (w_fs st) ''config'' \<and> has (w_fs st) ''gDocLog'' \<and>
     (\<forall>f \<in> N. has (w_fs st) f \<longleftrightarrow> f \<in> fst ` set recs) \<and> (\<forall>f \<in> fst ` set recs. chunk_full (bytes (w_fs st) f)) \<and>
     map_of (fileMap st) = map_of (files_in True recs) \<and> map_of (trashMap st) = map_of (files_in False recs)"

lemma web_inv_names:
  assumes "web_inv J has bytes N recs T st" "f \<in> fst ` set recs"
  shows "f \<noteq> ''config''" "f \<noteq> ''gDocLog''" "chunk_full (bytes (w_fs st) f)"
  using assms unfolding web_inv_def by (blast dest: doc_name_def [THEN iffD1])+

lemma web_invD:
  assumes "web_inv J has bytes N recs T st"
  shows "J (w_fs st)" "f \<in> N \<Longrightarrow> doc_name f" "fst ` set recs \<subseteq> N" "config_file (bytes (w_fs st) ''config'') recs"
    "log_file (bytes (w_fs st) ''gDocLog'') T" "distinct (map fst recs)"
    "map_of (fileMap st) f = (case map_of recs f of None \<Rightarrow> None | Some (n, w) \<Rightarrow> if w then Some (of_nat n) else None)"
    "map_of (trashMap st) f = (case map_of recs f of None \<Rightarrow> None | Some (n, w) \<Rightarrow> if w then None else Some (of_nat n))"
    "f \<in> N \<Longrightarrow> has (w_fs st) f \<longleftrightarrow> map_of recs f \<noteq> None" "has (w_fs st) ''config''" "has (w_fs st) ''gDocLog''"
proof -
  note i = assms [unfolded web_inv_def]
  show d: "distinct (map fst recs)" using i by (simp add: config_file_def recs_ok_def)
  show "map_of (fileMap st) f = (case map_of recs f of None \<Rightarrow> None | Some (n, w) \<Rightarrow> if w then Some (of_nat n) else None)"
    "map_of (trashMap st) f = (case map_of recs f of None \<Rightarrow> None | Some (n, w) \<Rightarrow> if w then None else Some (of_nat n))"
    using i map_of_files_in [OF d, of _ f] by (simp_all cong: if_cong split: option.splits)
  show "f \<in> N \<Longrightarrow> has (w_fs st) f \<longleftrightarrow> map_of recs f \<noteq> None" using i by (simp add: map_of_eq_None_iff)
qed (use assms in \<open>simp_all add: web_inv_def\<close>)

text \<open>What a request makes of the records; \<open>busy\<close> is whether somebody edits the file.\<close>

definition request :: "bool \<Rightarrow> string \<Rightarrow> string \<Rightarrow> doc_rec list \<Rightarrow> doc_rec list" where
  "request busy t f recs =
     (if t = ''create'' then (case map_of recs f of
          None \<Rightarrow> recs @ [(f, 84 * 60 * 80, True)] | Some (n, v) \<Rightarrow> set_valid f True recs)
      else if t = ''mtt'' then (if busy then recs else set_valid f False recs)
      else if t = ''recover'' then set_valid f True recs
      else if t = ''ct'' then (case map_of recs f of Some (n, False) \<Rightarrow> remove_rec f recs | _ \<Rightarrow> recs)
      else recs)"


section \<open>The handlers keep the invariant\<close>

lemma send_simps [simp]:
  "w_fs (send ops c ty m st) = w_fs st" "fileMap (send ops c ty m st) = fileMap st" "trashMap (send ops c ty m st) = trashMap st"
  "connMap (send ops c ty m st) = connMap st" "nodeMap (send ops c ty m st) = nodeMap st" "lockMap (send ops c ty m st) = lockMap st"
  by (simp_all add: send_def)

lemma send_all_simps [simp]:
  "w_fs (send_all ops cs ty m st) = w_fs st" "fileMap (send_all ops cs ty m st) = fileMap st" "trashMap (send_all ops cs ty m st) = trashMap st"
  "connMap (send_all ops cs ty m st) = connMap st" "nodeMap (send_all ops cs ty m st) = nodeMap st" "lockMap (send_all ops cs ty m st) = lockMap st"
  by (induction cs arbitrary: st) (simp_all add: send_all_def)

lemma web_inv_cong:
  "w_fs st' = w_fs st \<Longrightarrow> fileMap st' = fileMap st \<Longrightarrow> trashMap st' = trashMap st \<Longrightarrow>
   web_inv J has bytes N recs T st' \<longleftrightarrow> web_inv J has bytes N recs T st"
  by (simp add: web_inv_def)

lemma handleClose_simps [simp]:
  "w_fs (handleClose f c st) = w_fs st" "fileMap (handleClose f c st) = fileMap st" "trashMap (handleClose f c st) = trashMap st"
  by (simp_all add: handleClose_def Let_def split: option.splits)

lemma default_size: "rowNum * colNum * blockSize = of_nat (84 * 60 * 80)"
  by (simp add: rowNum_def colNum_def blockSize_def)

context doc_store
begin

abbreviation winv :: "string set \<Rightarrow> doc_rec list \<Rightarrow> string \<Rightarrow> 's webserver \<Rightarrow> bool" where
  "winv \<equiv> web_inv inv has bytes"

lemma web_log:
  assumes "winv N recs T st" "d \<noteq> []" "8 + length T + length d < chunk_size"
  shows "\<exists>s. writeLog ops d st = Inr (st\<lparr>w_fs := s\<rparr>) \<and> winv N recs (T @ d) (st\<lparr>w_fs := s\<rparr>) \<and> keeps {''gDocLog''} (w_fs st) s"
proof -
  note i = assms(1) [unfolded web_inv_def]
  from writeLog_ok [of st T d] i assms(2,3) obtain s where s: "writeLog ops d st = Inr (st\<lparr>w_fs := s\<rparr>)"
    "keeps {''gDocLog''} (w_fs st) s" "log_file (bytes s ''gDocLog'') (T @ d)" by blast
  have "has s = has (w_fs st)" "inv s" "bytes s ''config'' = bytes (w_fs st) ''config''" using s(2) by (simp_all add: keeps_def)
  moreover have "chunk_full (bytes s f)" if "f \<in> fst ` set recs" for f
    using web_inv_names [OF assms(1) that] s(2) by (simp add: keeps_def)
  ultimately show ?thesis using i s by (intro exI [of _ s]) (simp add: web_inv_def)
qed

lemma web_bit:
  assumes "winv N recs T st" "map_of recs f = Some (n, v)" "w_fs st1 = w_fs st"
    "map_of (fileMap st1) = map_of (files_in True (set_valid f (b = 1) recs))"
    "map_of (trashMap st1) = map_of (files_in False (set_valid f (b = 1) recs))" and names: "names_ok N"
  shows "\<exists>s. changeValidBit ops f b st1 = Inr (st1\<lparr>w_fs := s\<rparr>) \<and> winv N (set_valid f (b = 1) recs) T (st1\<lparr>w_fs := s\<rparr>)"
proof -
  note i = assms(1) [unfolded web_inv_def] and d = web_invD(6) [OF assms(1)]
  obtain r1 r2 where r: "recs = r1 @ (f, n, v) # r2" using map_of_split [OF assms(2)] by blast
  note sv = split_recs(1) [OF r d, of "b = 1"]
  have "inv (w_fs st1)" "config_file (bytes (w_fs st1) ''config'') (r1 @ (f, n, v) # r2)" "fst ` set (r1 @ (f, n, v) # r2) \<subseteq> N"
    using i assms(3) r by simp_all
  from changeValidBit_ok [OF this(1,2) names this(3), of b] obtain s where s: "changeValidBit ops f b st1 = Inr (st1\<lparr>w_fs := s\<rparr>)"
    "keeps {''config''} (w_fs st1) s" "config_file (bytes s ''config'') (set_valid f (b = 1) recs)" unfolding sv by blast
  have "has s = has (w_fs st)" "inv s" "bytes s ''gDocLog'' = bytes (w_fs st) ''gDocLog''" using s(2) assms(3) by (simp_all add: keeps_def)
  moreover have "fst ` set (set_valid f (b = 1) recs) = fst ` set recs" by (metis fst_set_valid list.set_map)
  moreover have "chunk_full (bytes s g)" if "g \<in> fst ` set recs" for g
    using web_inv_names [OF assms(1) that] s(2) assms(3) by (simp add: keeps_def)
  ultimately show ?thesis using i s assms(4,5) by (intro exI [of _ s]) (simp add: web_inv_def)
qed

lemma valid_maps:
  assumes "distinct (map fst recs)" "map_of recs f = Some (n, v)"
  shows "map_of (files_in b (set_valid f b recs)) = (map_of (files_in b recs))(f \<mapsto> of_nat n)"
    "map_of (files_in (\<not> b) (set_valid f b recs)) = (map_of (files_in (\<not> b) recs))(f := None)"
proof -
  have d: "distinct (map fst (set_valid f b recs))" using assms(1) by simp
  show "map_of (files_in b (set_valid f b recs)) = (map_of (files_in b recs))(f \<mapsto> of_nat n)"
    "map_of (files_in (\<not> b) (set_valid f b recs)) = (map_of (files_in (\<not> b) recs))(f := None)"
    using assms(2) by (auto simp: fun_eq_iff map_of_files_in [OF d] map_of_files_in [OF assms(1)] map_of_set_valid split: option.splits)
qed

lemma recover_bit:
  assumes "winv N recs T st" "map_of (trashMap st) f \<noteq> None"
    and st1: "st1 = st\<lparr>fileMap := AList.update f (size_of (trashMap st) f) (fileMap st), trashMap := AList.delete f (trashMap st)\<rparr>"
    and names: "names_ok N"
  shows "\<exists>s. changeValidBit ops f 1 st1 = Inr (st1\<lparr>w_fs := s\<rparr>) \<and> winv N (set_valid f True recs) T (st1\<lparr>w_fs := s\<rparr>)"
proof -
  obtain n where n: "map_of recs f = Some (n, False)" "map_of (trashMap st) f = Some (of_nat n)"
    using assms(2) web_invD(8) [OF assms(1), of f] by (auto split: option.splits if_splits)
  have "size_of (trashMap st) f = of_nat n" using n(2) by (simp add: size_of_def)
  with web_bit [OF assms(1) n(1), of st1 1] valid_maps [OF web_invD(6) [OF assms(1)] n(1), of True] assms(1) names
  show ?thesis by (simp add: st1 web_inv_def)
qed

lemma trash_bit:
  assumes "winv N recs T st" "map_of (fileMap st) f \<noteq> None"
    and st1: "st1 = st\<lparr>trashMap := AList.update f (size_of (fileMap st) f) (trashMap st), fileMap := AList.delete f (fileMap st)\<rparr>"
    and names: "names_ok N"
  shows "\<exists>s. changeValidBit ops f 0 st1 = Inr (st1\<lparr>w_fs := s\<rparr>) \<and> winv N (set_valid f False recs) T (st1\<lparr>w_fs := s\<rparr>)"
proof -
  obtain n where n: "map_of recs f = Some (n, True)" "map_of (fileMap st) f = Some (of_nat n)"
    using assms(2) web_invD(7) [OF assms(1), of f] by (auto split: option.splits if_splits)
  have "size_of (fileMap st) f = of_nat n" using n(2) by (simp add: size_of_def)
  with web_bit [OF assms(1) n(1), of st1 0] valid_maps [OF web_invD(6) [OF assms(1)] n(1), of False] assms(1) names
  show ?thesis by (simp add: st1 web_inv_def)
qed

text \<open>Room for an entry in the log.\<close>

abbreviation room :: "string \<Rightarrow> string \<Rightarrow> string \<Rightarrow> string \<Rightarrow> bool" where
  "room T tm user f \<equiv> length T + length tm + length user + length f + 100 < chunk_size"

lemma recoverFile_ok:
  assumes "winv N recs T st" "map_of (trashMap st) f \<noteq> None" "room T tm user f" "names_ok N"
  shows "\<exists>st' T'. recoverFile ops tm f user st = Inr st' \<and> winv N (set_valid f True recs) T' st'"
proof -
  define st1 where "st1 = st\<lparr>fileMap := AList.update f (size_of (trashMap st) f) (fileMap st), trashMap := AList.delete f (trashMap st)\<rparr>"
  from recover_bit [OF assms(1,2) st1_def assms(4)] obtain s where s: "changeValidBit ops f 1 st1 = Inr (st1\<lparr>w_fs := s\<rparr>)"
    "winv N (set_valid f True recs) T (st1\<lparr>w_fs := s\<rparr>)" by blast
  from web_log [OF s(2), of "''[RECOVER] '' @ tm @ '' '' @ user @ '' recover the file '' @ f @ tab"] assms(3) obtain s2 where
    "writeLog ops (''[RECOVER] '' @ tm @ '' '' @ user @ '' recover the file '' @ f @ tab) (st1\<lparr>w_fs := s\<rparr>) = Inr (st1\<lparr>w_fs := s2\<rparr>)"
    "winv N (set_valid f True recs) (T @ ''[RECOVER] '' @ tm @ '' '' @ user @ '' recover the file '' @ f @ tab) (st1\<lparr>w_fs := s2\<rparr>)" by auto
  with s(1) show ?thesis by (auto simp: recoverFile_def st1_def [symmetric])
qed

lemma recoverWithRet_file:
  "recoverWithRet ops tm f user conn st = bindR (recoverFile ops tm f user st) (\<lambda>st.
     let st = send ops conn 1 (BackendMsg ''RECOVERET'' []) st in Inr (send_all ops (others conn st) 1 (BackendMsg ''RECOVERET'' []) st))"
  by (auto simp: recoverWithRet_def recoverFile_def bindR_def Let_def split: sum.splits)

lemma recoverWithRet_ok:
  assumes "winv N recs T st" "map_of (trashMap st) f \<noteq> None" "room T tm user f" "names_ok N"
  shows "\<exists>st' T'. recoverWithRet ops tm f user conn st = Inr st' \<and> winv N (set_valid f True recs) T' st'"
proof -
  from recoverFile_ok [OF assms] obtain st1 T' where "recoverFile ops tm f user st = Inr st1" "winv N (set_valid f True recs) T' st1" by blast
  then show ?thesis by (simp add: recoverWithRet_file Let_def) (auto simp: web_inv_def)
qed

lemma moveToTrash_ok:
  assumes "winv N recs T st" "map_of (fileMap st) f \<noteq> None" "room T tm user f" "names_ok N"
  shows "\<exists>st' T'. moveToTrash ops tm f conn user st = Inr st' \<and>
    winv N (if map_of (connMap st) f \<noteq> None then recs else set_valid f False recs) T' st'"
proof (cases "map_of (connMap st) f = None")
  case True
  define st1 where "st1 = st\<lparr>trashMap := AList.update f (size_of (fileMap st) f) (trashMap st), fileMap := AList.delete f (fileMap st)\<rparr>"
  let ?e = "''[MTT] '' @ tm @ '' '' @ user @ '' move the file '' @ f @ '' to trash'' @ tab"
  from trash_bit [OF assms(1,2) st1_def assms(4)] obtain s where s: "changeValidBit ops f 0 st1 = Inr (st1\<lparr>w_fs := s\<rparr>)"
    "winv N (set_valid f False recs) T (st1\<lparr>w_fs := s\<rparr>)" by blast
  define st2 where "st2 = send ops conn 1 (BackendMsg ''MTTSUCCESS'' (traverseFileMap (st1\<lparr>w_fs := s\<rparr>))) (st1\<lparr>w_fs := s\<rparr>)"
  define st3 where "st3 = send_all ops (others conn st2) 1 (BackendMsg ''MTTSUCCESS'' (traverseFileMap (st1\<lparr>w_fs := s\<rparr>))) st2"
  have "winv N (set_valid f False recs) T st3" using s(2) by (simp add: st3_def st2_def web_inv_def)
  from web_log [OF this, of ?e] assms(3) obtain s2 where
    "writeLog ops ?e st3 = Inr (st3\<lparr>w_fs := s2\<rparr>)" "winv N (set_valid f False recs) (T @ ?e) (st3\<lparr>w_fs := s2\<rparr>)" by auto
  with s(1) True show ?thesis by (auto simp: moveToTrash_def Let_def st1_def [symmetric] st2_def [symmetric] st3_def [symmetric])
qed (use assms(1) in \<open>auto simp: moveToTrash_def web_inv_def\<close>)

end

context doc_store
begin

lemma clearTrash_ok:
  assumes "winv N recs T st" "f \<in> N" "room T tm user f" "names_ok N"
  shows "\<exists>st' T'. clearTrash ops tm f user conn st = Inr st' \<and>
    winv N (case map_of recs f of Some (n, False) \<Rightarrow> remove_rec f recs | _ \<Rightarrow> recs) T' st'"
proof (cases "map_of (trashMap st) f")
  case None
  then have "(case map_of recs f of Some (n, False) \<Rightarrow> remove_rec f recs | _ \<Rightarrow> recs) = recs"
    using web_invD(8) [OF assms(1), of f] by (auto split: option.splits if_splits bool.splits)
  then show ?thesis using assms(1) None by (auto simp: clearTrash_def)
next
  case (Some x)
  note i = assms(1) [unfolded web_inv_def] and d = web_invD(6) [OF assms(1)]
  let ?e = "''[CLEAR TRASH] '' @ tm @ '' '' @ user @ '' really delete the file '' @ f @ tab" and ?recs = "remove_rec f recs"
  obtain n where n: "map_of recs f = Some (n, False)"
    using Some web_invD(8) [OF assms(1), of f] by (auto split: option.splits if_splits)
  obtain r1 r2 where r: "recs = r1 @ (f, n, False) # r2" using map_of_split [OF n] by blast
  have fN: "f \<noteq> ''config''" "f \<noteq> ''gDocLog''" using web_invD(2) [OF assms(1,2)] by (simp_all add: doc_name_def)
  define st1 where "st1 = st\<lparr>trashMap := AList.delete f (trashMap st)\<rparr>"
  have "inv (w_fs st1)" "config_file (bytes (w_fs st1) ''config'') (r1 @ (f, n, False) # r2)" "fst ` set (r1 @ (f, n, False) # r2) \<subseteq> N"
    using i r by (simp_all add: st1_def)
  from clear_config_ok [OF this(1,2) assms(4) this(3)] obtain s1 where s1: "clear_config ops f st1 = Inr (st1\<lparr>w_fs := s1\<rparr>)" "keeps {''config''} (w_fs st1) s1"
    "config_file (bytes s1 ''config'') ?recs" unfolding split_recs(2) [OF r d] by blast
  have k: "has s1 = has (w_fs st)" "inv s1" "bytes s1 ''gDocLog'' = bytes (w_fs st) ''gDocLog''" using s1(2) by (simp_all add: keeps_def st1_def)
  have "log_file (bytes (w_fs (st1\<lparr>w_fs := s1\<rparr>)) ''gDocLog'') T" using i k(3) by simp
  from writeLog_ok [OF _ this, of ?e] k(2) assms(3) obtain s2 where s2: "writeLog ops ?e (st1\<lparr>w_fs := s1\<rparr>) = Inr (st1\<lparr>w_fs := s2\<rparr>)"
    "keeps {''gDocLog''} s1 s2" "log_file (bytes s2 ''gDocLog'') (T @ ?e)" by auto
  then have "inv s2" by (simp add: keeps_def)
  from delete_law [OF this, of f] obtain s3 where s3: "fs_delete ops f s2 = Inr s3" "inv s3" "has s3 = (has s2)(f := False)"
    "bytes s3 = (bytes s2)(f := \<lambda>_. None)" by blast
  have h3: "has s3 = (has (w_fs st))(f := False)" using s3(3) s2(2) k(1) by (simp add: keeps_def)
  have b3: "bytes s3 ''gDocLog'' = bytes s2 ''gDocLog''" "bytes s3 ''config'' = bytes s1 ''config''"
    using s3(4) fN s2(2) by (simp_all add: keeps_def)
  have full: "chunk_full (bytes s3 g)" if "g \<in> fst ` set recs" "g \<noteq> f" for g
    using web_inv_names [OF assms(1) that(1)] that(2) s1(2) s2(2) s3(4) by (simp add: keeps_def st1_def)
  have maps: "map_of (files_in v ?recs) = (map_of (files_in v recs))(f := None)" for v
  proof -
    have "distinct (map fst ?recs)" using d by (simp add: remove_rec_def distinct_map_filter)
    then show ?thesis by (auto simp: fun_eq_iff map_of_files_in d map_of_remove_rec)
  qed
  have same: "(map_of (files_in True recs))(f := None) = map_of (files_in True recs)"
    using n by (simp add: fun_upd_idem_iff map_of_files_in [OF d])
  have "winv N ?recs (T @ ?e) (st1\<lparr>w_fs := s3\<rparr>)"
    using i s3(2) s1(3) s2(3) b3 h3 fN maps same full unfolding web_inv_def by (auto simp: st1_def fst_remove_rec)
  then show ?thesis using Some n s1(1) s2(1) s3(1) by (auto simp: clearTrash_def Let_def st1_def [symmetric] web_inv_def)
qed

lemma create_fresh_ok:
  assumes "winv N recs T st" "f \<in> N" "room T tm user f" "map_of recs f = None" "length (config_body recs) + length f + 33 < chunk_size"
  shows "\<exists>st' T'. handleCreate ops tm f conn user st = Inr st' \<and> winv N (recs @ [(f, 84 * 60 * 80, True)]) T' st' \<and>
    connMap st' = connMap st \<and> (T' = T \<or> T' = T @ ''[CREATE] '' @ tm @ '' '' @ user @ '' create the file '' @ f @ tab) \<and>
    holds (bytes (w_fs st') f) (getStr (rowNum * colNum * blockSize))"
proof -
  note i = assms(1) [unfolded web_inv_def] and d = web_invD(6) [OF assms(1)]
  let ?z = "84 * 60 * 80 :: nat" and ?e = "''[CREATE] '' @ tm @ '' '' @ user @ '' create the file '' @ f @ tab"
  let ?recs = "recs @ [(f, ?z, True)]"
  have fN: "f \<noteq> ''config''" "f \<noteq> ''gDocLog''" "creatable f"
    using web_invD(2) [OF assms(1,2)] by (simp_all add: doc_name_def)
  have "\<not> has (w_fs st) f" "map_of (trashMap st) f = None" using web_invD(8,9) [OF assms(1)] assms(2,4) by simp_all
  from create_law [OF _ this(1) fN(3)] i obtain s1 where s1: "fs_create ops f (w_fs st) = Inr (True, s1)" "inv s1"
    "has s1 = (has (w_fs st))(f := True)" "bytes s1 = (bytes (w_fs st))(f := \<lambda>p. if p < chunk_size then Some (CHR 0x00) else None)" by blast
  have u: "unat (rowNum * colNum * blockSize) = ?z" unfolding default_size by (rule u64_small) simp
  have len: "length (getStr (rowNum * colNum * blockSize)) = ?z" by (simp only: getStr_def length_replicate u)
  have "\<exists>s. wr ops f 0 (getStr (rowNum * colNum * blockSize)) (st\<lparr>w_fs := s1\<rparr>) = Inr (st\<lparr>w_fs := s1\<rparr>\<lparr>w_fs := s\<rparr>) \<and>
      keeps {f} (w_fs (st\<lparr>w_fs := s1\<rparr>)) s \<and> bytes s f = bytes_written (unat (0 :: u64)) (getStr (rowNum * colNum * blockSize)) (bytes (w_fs (st\<lparr>w_fs := s1\<rparr>)) f)"
  proof (rule wr_ok)
    show "getStr (rowNum * colNum * blockSize) \<noteq> []" using len by (metis length_0_conv mult_eq_0_iff zero_neq_numeral)
    show "length (getStr (rowNum * colNum * blockSize)) < 2 ^ 62" unfolding len by simp
  qed (use s1 in \<open>simp_all add: chunk_full_def\<close>)
  then obtain s2 where s2: "wr ops f 0 (getStr (rowNum * colNum * blockSize)) (st\<lparr>w_fs := s1\<rparr>) = Inr (st\<lparr>w_fs := s2\<rparr>)" "keeps {f} s1 s2"
    "bytes s2 f = bytes_written 0 (getStr (rowNum * colNum * blockSize)) (\<lambda>p. if p < chunk_size then Some (CHR 0x00) else None)"
    using s1(4) by auto
  have f2: "chunk_full (bytes s2 f)" "holds (bytes s2 f) (getStr (rowNum * colNum * blockSize))"
  proof -
    let ?zero = "\<lambda>p. if p < chunk_size then Some (CHR 0x00) else None"
    have "chunk_full ?zero" by (simp add: chunk_full_def)
    then show "chunk_full (bytes s2 f)" unfolding s2(3) by (rule chunk_full_written)
    have "holds ?zero []" by (simp add: holds_def)
    from holds_written [OF this, of 0 "getStr (rowNum * colNum * blockSize)"]
    show "holds (bytes s2 f) (getStr (rowNum * colNum * blockSize))" unfolding s2(3) by (simp add: patch_def)
  qed
  define st2 where "st2 = st\<lparr>w_fs := s2, fileMap := AList.update f (rowNum * colNum * blockSize) (fileMap st)\<rparr>"
  have b2: "inv s2" "bytes s2 ''config'' = bytes (w_fs st) ''config''" "bytes s2 ''gDocLog'' = bytes (w_fs st) ''gDocLog''"
    "has s2 = (has (w_fs st))(f := True)" using s2(2) s1(3,4) fN by (simp_all add: keeps_def)
  have new: "f \<notin> fst ` set recs" using assms(4) by (simp add: map_of_eq_None_iff)
  have rl: "length (rec_text (f, ?z, True)) = length f + 17"
  proof -
    have "length f < 10 ^ 8" using assms(5) by (intro chunk_size_8) simp
    then show ?thesis by (simp add: rec_text_eq)
  qed
  have ok: "recs_ok ?recs" using i new rl assms(5) d by (auto simp: recs_ok_def config_file_def)
  from add_config_ok [of st2 recs f ?z] i b2 ok obtain s3 where s3: "add_config ops f (of_nat ?z) st2 = Inr (st2\<lparr>w_fs := s3\<rparr>)"
    "keeps {''config''} s2 s3" "config_file (bytes s3 ''config'') ?recs" by (auto simp: st2_def)
  have inv3: "winv N ?recs T (st2\<lparr>w_fs := s3\<rparr>)"
  proof -
    have "map_of (files_in True ?recs) = (map_of (files_in True recs))(f \<mapsto> of_nat ?z)" "map_of (files_in False ?recs) = map_of (files_in False recs)"
      using assms(4) ok d by (auto simp: fun_eq_iff map_of_files_in recs_ok_def map_add_def split: option.splits)
    moreover have "has s3 = has s2" "inv s3" "bytes s3 ''gDocLog'' = bytes s2 ''gDocLog''" using s3(2) by (simp_all add: keeps_def)
    moreover have "chunk_full (bytes s3 f)" using f2(1) s3(2) fN by (simp add: keeps_def)
    moreover have "chunk_full (bytes s3 g)" if "g \<in> fst ` set recs" "g \<noteq> f" for g
      using web_inv_names [OF assms(1) that(1)] that(2) s1(4) s2(2) s3(2) by (simp add: keeps_def)
    moreover note new
    ultimately show ?thesis using i s3(3) b2 assms(2) fN unfolding web_inv_def by (auto simp: st2_def default_size)
  qed
  define st4 where "st4 = send ops conn 1 (BackendMsg ''CREATESUCCESS'' [f]) (st2\<lparr>w_fs := s3\<rparr>)"
  define st5 where "st5 = send_all ops (others conn st4) 1 (BackendMsg ''CREATESUCCESS2'' []) st4"
  have inv5: "winv N ?recs T st4" "winv N ?recs T st5" using inv3 by (simp_all add: st5_def st4_def web_inv_def)
  from web_log [OF inv5(2), of ?e] assms(3) obtain s6 where s6: "writeLog ops ?e st5 = Inr (st5\<lparr>w_fs := s6\<rparr>)" "winv N ?recs (T @ ?e) (st5\<lparr>w_fs := s6\<rparr>)"
    "keeps {''gDocLog''} (w_fs st5) s6" by auto
  have hold: "holds (bytes (w_fs st4) f) (getStr (rowNum * colNum * blockSize))" "holds (bytes s6 f) (getStr (rowNum * colNum * blockSize))"
    using f2(2) s3(2) s6(3) fN by (simp_all add: keeps_def st4_def st5_def)
  have "handleCreate ops tm f conn user st = (if \<not> ws_ok ops conn then Inr st4 else Inr (st5\<lparr>w_fs := s6\<rparr>))"
    using \<open>map_of (trashMap st) f = None\<close> s1(1) s2(1) s3(1) [folded default_size] s6(1)
    by (simp add: handleCreate_def Let_def st2_def [symmetric] st4_def [symmetric] st5_def [symmetric])
  moreover have "connMap st4 = connMap st" "connMap st5 = connMap st" by (simp_all add: st4_def st5_def st2_def)
  ultimately show ?thesis using inv5(1) s6(2) hold
    by (cases "ws_ok ops conn") (simp_all add: exI [of _ T] exI [of _ "T @ ?e"])
qed

end

context doc_store
begin

lemma handleCreate_ok:
  assumes "winv N recs T st" "f \<in> N" "room T tm user f" "length (config_body recs) + length f + 33 < chunk_size" "names_ok N"
  shows "\<exists>st' T'. handleCreate ops tm f conn user st = Inr st' \<and> winv N (request b ''create'' f recs) T' st'"
proof (cases "map_of recs f")
  case None
  then show ?thesis using create_fresh_ok [OF assms(1-3) None assms(4), of conn] by (auto simp: request_def)
next
  case (Some x)
  then obtain n v where x: "map_of recs f = Some (n, v)" by (cases x) auto
  have req: "request b ''create'' f recs = set_valid f True recs" using x by (simp add: request_def)
  show ?thesis
  proof (cases v)
    case True
    obtain r1 r2 where r: "recs = r1 @ (f, n, v) # r2" using map_of_split [OF x] by blast
    have "set_valid f True recs = recs" using split_recs(1) [OF r web_invD(6) [OF assms(1)], of True] r True by simp
    moreover have "map_of (trashMap st) f = None" "has (w_fs st) f" using web_invD(8) [OF assms(1), of f] web_invD(9) [OF assms(1,2)] x True by simp_all
    ultimately show ?thesis using create_old_law [OF web_invD(1) [OF assms(1)]] assms(1) req
      by (auto simp: handleCreate_def Let_def web_inv_def)
  next
    case False
    then have "map_of (trashMap st) f \<noteq> None" using web_invD(8) [OF assms(1), of f] x by simp
    with recoverFile_ok [OF assms(1) this assms(3,5)] req show ?thesis by (simp add: handleCreate_def)
  qed
qed

lemma request_other:
  "t \<notin> {''create'', ''mtt'', ''recover'', ''ct''} \<Longrightarrow> request b t f recs = recs"
  by (simp add: request_def)

lemma reader_ok:
  assumes "winv N recs T st" "f \<in> N" "room T tm user f" "length (config_body recs) + length f + 33 < chunk_size" "names_ok N"
    and msg: "m_Type msg = t" "m_FileName msg = f" "m_UserName msg = user"
    and mtt: "t = ''mtt'' \<Longrightarrow> map_of (fileMap st) f \<noteq> None" and rec: "t = ''recover'' \<Longrightarrow> map_of (trashMap st) f \<noteq> None"
    and t: "t \<notin> {''open'', ''editing'', ''update'', ''log'', ''rollback''}"
  shows "\<exists>st' T'. reader ops tm conn (Some (ty, p, msg)) st = Inr st' \<and>
    winv N (request (map_of (connMap st) f \<noteq> None) t f recs) T' st'"
proof -
  let ?G = "\<lambda>r. \<exists>st' T'. r = Inr st' \<and> winv N (request (map_of (connMap st) f \<noteq> None) t f recs) T' st'"
  consider "t = ''create''" | "t = ''mtt''" | "t = ''recover''" | "t = ''ct''" | "t \<notin> {''create'', ''mtt'', ''recover'', ''ct''}" by blast
  then show ?thesis
  proof cases
    case 1
    have "?G (handleCreate ops tm f conn user st)" using handleCreate_ok [OF assms(1-5)] 1 by simp
    then show ?thesis using msg 1 by (simp add: reader_def)
  next
    case 2
    have "?G (moveToTrash ops tm f conn user st)" using moveToTrash_ok [OF assms(1) mtt assms(3,5)] 2 by (simp add: request_def)
    then show ?thesis using msg 2 by (simp add: reader_def)
  next
    case 3
    have "?G (recoverWithRet ops tm f user conn st)" using recoverWithRet_ok [OF assms(1) rec assms(3,5)] 3 by (simp add: request_def)
    then show ?thesis using msg 3 by (simp add: reader_def)
  next
    case 4
    have "?G (clearTrash ops tm f user conn st)" using clearTrash_ok [OF assms(1-3,5)] 4 by (simp add: request_def)
    then show ?thesis using msg 4 by (simp add: reader_def)
  next
    case 5
    note r = request_other [OF 5]
    have "winv N recs T (sendBakcMsg ops conn (commonConnect conn st))" "winv N recs T (handleClose f conn st)" "winv N recs T (getTrashList ops conn st)"
      using assms(1) by (simp_all add: web_inv_def sendBakcMsg_def commonConnect_def getTrashList_def)
    then show ?thesis using msg 5 t assms(1) unfolding r by (auto simp: reader_def Let_def)
  qed
qed

section \<open>Starting the server\<close>

lemma build_maps_ok:
  "config_file (bytes (w_fs st) ''config'') (r1 @ r2) \<Longrightarrow> inv (w_fs st) \<Longrightarrow> unat off = 16 + length (config_body r1) \<Longrightarrow>
   map_of (fileMap st) = map_of (files_in True r1) \<Longrightarrow> map_of (trashMap st) = map_of (files_in False r1) \<Longrightarrow>
   \<exists>st'. build_maps ops (length r2) off st = Inr st' \<and> w_fs st' = w_fs st \<and>
     map_of (fileMap st') = map_of (files_in True (r1 @ r2)) \<and> map_of (trashMap st') = map_of (files_in False (r1 @ r2))"
proof (induction r2 arbitrary: r1 st off)
  case (Cons r r2)
  obtain f n v where r: "r = (f, n, v)" by (cases r)
  let ?recs = "r1 @ (f, n, v) # r2"
  have ok: "recs_ok ?recs" using Cons.prems(1) r by (simp add: config_file_def)
  note c = config_header [OF ok] and l = recs_lengths [OF ok]
  have tf: "text_file (w_fs st) ''config'' (config_text ?recs)" using config_text_file [OF Cons.prems(2)] Cons.prems(1) r by blast
  let ?h = "num8 (length ?recs) @ num8 (16 + length (config_body ?recs)) @ config_body r1"
  define vb where "vb = (if v then ''1'' else ''0'')"
  have tx: "config_text ?recs = ?h @ num8 (length f) @ f @ num8 n @ vb @ config_body r2" by (simp add: config_text_def rec_text_eq vb_def)
  have lv: "length vb = 1" by (simp add: vb_def)
  have h: "length ?h = unat off" using c(3,4) Cons.prems(3) by simp
  have n: "n < 10 ^ 8" and lf: "length f < 10 ^ 8" using ok l(4) chunk_size_8(1) by (auto simp: recs_ok_def)
  have uf: "unat (of_nat (length f) :: u64) = length f" using lf by (intro u64_small) simp
  have small: "unat off + length f + 17 < chunk_size" using l(4) Cons.prems(3) by simp
  define o1 o2 o3 :: u64 where "o1 = off + 8" and "o2 = off + 8 + of_nat (length f)" and "o3 = off + 8 + of_nat (length f) + 8"
  have o: "unat o1 = unat off + 8" "unat o2 = unat off + 8 + length f" "unat o3 = unat off + 8 + length f + 8"
    "unat (o3 + 1) = unat off + length f + 17"
    using small uf by (simp_all add: o1_def o2_def o3_def unat_word_ariths chunk_size_def)
  have rd1: "rd ops ''config'' off 8 st = Inr (num8 (length f), st)"
    using text_read [OF tf [unfolded tx], of off 8] h l(1) by simp
  have rd2: "rd ops ''config'' o1 (of_nat (length f)) st = Inr (f, st)"
    using text_read [of st "''config''" "?h @ num8 (length f)" f "num8 n @ vb @ config_body r2" o1 "of_nat (length f)"] tf tx h l(1) o uf by simp
  have rd3: "rd ops ''config'' o2 8 st = Inr (num8 n, st)"
    using text_read [of st "''config''" "?h @ num8 (length f) @ f" "num8 n" "vb @ config_body r2" o2 8] tf tx h l(1,2) o by simp
  have rd4: "rd ops ''config'' o3 1 st = Inr (vb, st)"
    using text_read [of st "''config''" "?h @ num8 (length f) @ f @ num8 n" vb "config_body r2" o3 1] tf tx h l(1,2) o lv by simp
  define st1 where "st1 = (if v then st\<lparr>fileMap := AList.update f (of_nat n) (fileMap st)\<rparr>
                           else st\<lparr>trashMap := AList.update f (of_nat n) (trashMap st)\<rparr>)"
  have v: "(Atoi vb = 1) = v" by (simp add: vb_def Atoi_def is_digit_def clamp_int_def dec_val_def)
  have step: "build_maps ops (length (r # r2)) off st = build_maps ops (length r2) (o3 + 1) st1"
    using rd1 rd2 rd3 rd4 num8_Atoi [OF lf] num8_Atoi [OF n] v lf n
    by (simp add: Let_def o1_def o2_def o3_def st1_def u64_small)
  have "\<exists>st'. build_maps ops (length r2) (o3 + 1) st1 = Inr st' \<and> w_fs st' = w_fs st1 \<and>
     map_of (fileMap st') = map_of (files_in True ((r1 @ [r]) @ r2)) \<and> map_of (trashMap st') = map_of (files_in False ((r1 @ [r]) @ r2))"
  proof (rule Cons.IH)
    show "config_file (bytes (w_fs st1) ''config'') ((r1 @ [r]) @ r2)" "inv (w_fs st1)" using Cons.prems(1,2) by (simp_all add: st1_def)
    show "unat (o3 + 1) = 16 + length (config_body (r1 @ [r]))" using o(4) Cons.prems(3) l(3) r by simp
    have "f \<notin> fst ` set r1" using ok by (auto simp: recs_ok_def)
    then show "map_of (fileMap st1) = map_of (files_in True (r1 @ [r]))" "map_of (trashMap st1) = map_of (files_in False (r1 @ [r]))"
      using Cons.prems(4,5) r by (simp_all add: st1_def files_in_snoc)
  qed
  moreover have "w_fs st1 = w_fs st" by (simp add: st1_def)
  ultimately show ?case unfolding step by simp
qed simp

lemma restart_ok:
  assumes "winv N recs T st"
  shows "\<exists>st'. web_main ops (w_fs st) = Inr st' \<and> winv N recs T st' \<and>
    map_of (fileMap st') = map_of (fileMap st) \<and> map_of (trashMap st') = map_of (trashMap st)"
proof -
  note i = assms [unfolded web_inv_def]
  define st0 where "st0 = \<lparr>fileMap = [], trashMap = [], connMap = [], nodeMap = Map.empty, lockMap = [], allConnMap = [],
    w_fs = w_fs st, w_sent = []\<rparr>"
  have c: "config_file (bytes (w_fs st0) ''config'') ([] @ recs)" "inv (w_fs st0)" using i by (simp_all add: st0_def)
  obtain st' where b: "build_maps ops (length recs) 16 st0 = Inr st'" "w_fs st' = w_fs st"
    "map_of (fileMap st') = map_of (files_in True recs)" "map_of (trashMap st') = map_of (files_in False recs)"
    using build_maps_ok [OF c, of 16] by (auto simp: st0_def files_in_def)
  have "fs_create ops ''config'' (w_fs st) = Inr (False, w_fs st)" "fs_create ops ''gDocLog'' (w_fs st) = Inr (False, w_fs st)"
    using i create_old_law by simp_all
  moreover have "rd ops ''config'' 0 8 st0 = Inr (num8 (length recs), st0)" using read_config(1) [OF c(2)] c(1) by simp
  moreover have "Atoi (num8 (length recs)) = int (length recs)"
    using config_header(1) [of recs] i by (simp add: config_file_def)
  moreover have upd: "st0\<lparr>w_fs := w_fs st\<rparr> = st0" "w_fs st0 = w_fs st" by (simp_all add: st0_def)
  ultimately have "web_main ops (w_fs st) = Inr (st'\<lparr>w_fs := w_fs st\<rparr>)"
    using b(1,2) by (simp add: web_main_def Let_def st0_def [symmetric] upd)
  then show ?thesis using i b by (auto simp: web_inv_def)
qed

end

context doc_store
begin

lemma first_start_ok:
  assumes "inv s" "\<not> has s ''config''" "\<not> has s ''gDocLog''" "\<And>f. f \<in> N \<Longrightarrow> doc_name f \<and> \<not> has s f"
  shows "\<exists>st. web_main ops s = Inr st \<and> winv N [] tab st \<and> owner (w_fs st) = owner s \<and> connMap st = [] \<and> lockMap st = []"
proof -
  define st0 where "st0 = \<lparr>fileMap = [], trashMap = [], connMap = [], nodeMap = Map.empty, lockMap = [], allConnMap = [],
    w_fs = s, w_sent = []\<rparr>"
  let ?zero = "\<lambda>p. if p < chunk_size then Some (CHR 0x00) else None"
  have nums: "num8 0 = ''00000000''" "num8 16 = ''00000016''" "num8 9 = ''00000009''"
    by (simp_all add: num8_def numExtend_def Itoa_def nat_str.simps Let_def) (simp_all add: numeral_eq_Suc)
  have names: "creatable ''config''" "creatable ''gDocLog''" by (simp_all add: creatable_def)
  from create_law [OF assms(1,2) names(1)] obtain s1 where s1: "fs_create ops ''config'' s = Inr (True, s1)" "inv s1"
    "has s1 = (has s)(''config'' := True)" "owner s1 = owner s" "bytes s1 = (bytes s)(''config'' := ?zero)" by blast
  have "text_file s1 ''config'' []" using s1 by (simp add: text_file_def chunk_full_def holds_def)
  from text_append [of "st0\<lparr>w_fs := s1\<rparr>" "''config''" "[]" 0 "num8 0 @ num8 16"] this
  obtain s2 where s2: "wr ops ''config'' 0 (num8 0 @ num8 16) (st0\<lparr>w_fs := s1\<rparr>) = Inr (st0\<lparr>w_fs := s2\<rparr>)" "keeps {''config''} s1 s2"
    "text_file s2 ''config'' (num8 0 @ num8 16)" by (auto simp: nums chunk_size_def)
  have "\<not> has s2 ''gDocLog''" "inv s2" using s2(2) s1(3) assms(3) by (simp_all add: keeps_def)
  from create_law [OF this(2,1) names(2)] obtain s3 where s3: "fs_create ops ''gDocLog'' s2 = Inr (True, s3)" "inv s3"
    "has s3 = (has s2)(''gDocLog'' := True)" "owner s3 = owner s2" "bytes s3 = (bytes s2)(''gDocLog'' := ?zero)" by blast
  have "text_file s3 ''gDocLog'' []" using s3 by (simp add: text_file_def chunk_full_def holds_def)
  from text_append [of "st0\<lparr>w_fs := s3\<rparr>" "''gDocLog''" "[]" 0 "num8 9"] this
  obtain s4 where s4: "wr ops ''gDocLog'' 0 (num8 9) (st0\<lparr>w_fs := s3\<rparr>) = Inr (st0\<lparr>w_fs := s4\<rparr>)" "keeps {''gDocLog''} s3 s4"
    "text_file s4 ''gDocLog'' (num8 9)" by (auto simp: nums chunk_size_def)
  from text_append [of "st0\<lparr>w_fs := s4\<rparr>" "''gDocLog''" "num8 9" 8 tab] s4(3)
  obtain s5 where s5: "wr ops ''gDocLog'' 8 tab (st0\<lparr>w_fs := s4\<rparr>) = Inr (st0\<lparr>w_fs := s5\<rparr>)" "keeps {''gDocLog''} s4 s5"
    "text_file s5 ''gDocLog'' (num8 9 @ tab)" by (auto simp: nums chunk_size_def)
  have k: "keeps {''gDocLog''} s3 s5" using keeps_trans [OF s4(2) s5(2)] by simp
  have "bytes s5 ''config'' = bytes s2 ''config''" using k s3(5) by (simp add: keeps_def)
  then have c: "config_file (bytes s5 ''config'') []" using s2(3)
    by (simp add: config_file_def text_file_def config_text_def recs_ok_def chunk_size_def)
  have l: "log_file (bytes s5 ''gDocLog'') tab" using s5(3) by (simp add: log_file_def text_file_def chunk_size_def)
  have h: "has s5 = (has s)(''config'' := True, ''gDocLog'' := True)" "owner s5 = owner s" "inv s5"
    using k s3(3,4) s2(2) s1(3,4) by (simp_all add: keeps_def)
  have "web_main ops s = Inr (st0\<lparr>w_fs := s5\<rparr>)"
    using s1(1) s2(1) s3(1) s4(1) s5(1) by (simp add: web_main_def Let_def st0_def num8_def)
  moreover have "winv N [] tab (st0\<lparr>w_fs := s5\<rparr>)"
  proof -
    have "f \<noteq> ''config'' \<and> f \<noteq> ''gDocLog''" if "f \<in> N" for f using assms(4) [OF that] by (simp add: doc_name_def)
    then have "\<forall>f \<in> N. has s5 f \<longleftrightarrow> f \<in> fst ` set ([] :: doc_rec list)" using assms(4) h(1) by simp
    then show ?thesis using c l h assms(4) unfolding web_inv_def by (simp add: st0_def files_in_def)
  qed
  ultimately show ?thesis using h by (auto simp: st0_def)
qed

end

section \<open>The file system and the locks below the server\<close>

text \<open>
  The operations of the document server: the client functions of \<open>gfs_api.go\<close> on the cluster, and the lock
  functions of \<open>lock.go\<close>. The state is the cluster, zookeeper and the number of connections made. A loop that
  does not end within the number of turns considered is \<open>Diverge\<close>.
\<close>

definition docs_ops :: "(nat \<Rightarrow> string) \<Rightarrow> 'z zk_ops \<Rightarrow> nat \<Rightarrow> (nat \<Rightarrow> bool) \<Rightarrow> (cluster \<times> 'z \<times> nat) doc_ops" where
  "docs_ops stamp zk fuel ok =
     \<lparr>fs_create = (\<lambda>f (c, z, k). bindR (create (cluster_ops stamp) f c) (\<lambda>(b, c). Inr (b, c, z, k))),
      fs_read = (\<lambda>f off n (c, z, k). case gfs_read (Suc (Suc fuel)) (cluster_ops stamp) f off n c of
        None \<Rightarrow> Inl Diverge | Some r \<Rightarrow> bindR r (\<lambda>(d, c). Inr (d, c, z, k))),
      fs_write = (\<lambda>f off d (c, z, k). bindR (gfs_write (cluster_ops stamp) f off d c) (\<lambda>(b, c). Inr (b, c, z, k))),
      fs_delete = (\<lambda>f (c, z, k). bindR (deletee (cluster_ops stamp) f c) (\<lambda>c. Inr (c, z, k))),
      lk_connect = (\<lambda>(c, z, k). (k, c, z, Suc k)),
      lk_try = (\<lambda>node p (c, z, k). case locknotblock zk (Suc (Suc fuel)) node p z of
        None \<Rightarrow> Inl Diverge | Some (b, z) \<Rightarrow> Inr (b, c, z, k)),
      lk_unlock = (\<lambda>node p (c, z, k). case unlock zk (Suc (Suc fuel)) node p z of
        None \<Rightarrow> Inl Diverge | Some z \<Rightarrow> Inr (c, z, k)),
      lk_close = (\<lambda>node (c, z, k). (c, close_conn zk node z, k)),
      ws_ok = ok\<rparr>"

definition docs_inv :: "'z zk_ops \<Rightarrow> ('z \<Rightarrow> string \<rightharpoonup> nat \<times> string) \<Rightarrow> cluster \<times> 'z \<times> nat \<Rightarrow> bool" where
  "docs_inv zk nodes = (\<lambda>(c, _, _). cl_inv c \<and> zk_reliable zk nodes)"

definition docs_has :: "cluster \<times> 'z \<times> nat \<Rightarrow> string \<Rightarrow> bool" where
  "docs_has = (\<lambda>(c, _, _). cl_has_file c)"

definition docs_bytes :: "cluster \<times> 'z \<times> nat \<Rightarrow> string \<Rightarrow> nat \<Rightarrow> char option" where
  "docs_bytes = (\<lambda>(c, _, _) f. file_bytes (\<lambda>i. cl_content c (f, i)))"

definition docs_owner :: "('z \<Rightarrow> string \<rightharpoonup> nat \<times> string) \<Rightarrow> cluster \<times> 'z \<times> nat \<Rightarrow> string \<rightharpoonup> nat" where
  "docs_owner nodes = (\<lambda>(_, z, _) p. map_option fst (nodes z p))"


interpretation docs: doc_store "docs_ops stamp zk fuel ok" "docs_inv zk nodes" docs_has docs_bytes "docs_owner nodes"
  for stamp zk fuel ok nodes
proof
  let ?ops = "docs_ops stamp zk fuel ok"
  fix s :: "cluster \<times> 'a \<times> nat" and f assume inv: "docs_inv zk nodes s"
  obtain c z k where s: "s = (c, z, k)" by (cases s)
  have cl: "cl_inv c" and zk: "zk_reliable zk nodes" using inv s by (simp_all add: docs_inv_def)
  have none: "cl_content c (f, i) = None" if "\<not> cl_has_file c f" for i
    using gfs.content_file [OF cl, of f i] that by (cases "cl_content c (f, i)") auto
  show "fs_read ?ops f off n s = Inr (map (\<lambda>p. the (docs_bytes s f p)) [unat off..<unat off + unat n], s)"
    if "unat off mod chunk_size + unat n < 2 * chunk_size" "\<And>p. unat off \<le> p \<Longrightarrow> p < unat off + unat n \<Longrightarrow> docs_bytes s f p \<noteq> None" for off n
    using gfs.read_ok [OF cl that(1), of "Suc (Suc fuel)" f stamp] that(2) by (simp add: docs_ops_def docs_bytes_def s gfs.bytes_def)
  show "\<exists>s'. fs_write ?ops f off data s = Inr (True, s') \<and> docs_inv zk nodes s' \<and> docs_has s' = docs_has s \<and>
      docs_owner nodes s' = docs_owner nodes s \<and> docs_bytes s' = (docs_bytes s)(f := bytes_written (unat off) data (docs_bytes s f))"
    if "data \<noteq> []" "unat off + length data < 2 ^ 63" "docs_bytes s f (unat off) \<noteq> None" for data off
  proof -
    have ne: "cl_content c (f, unat off div chunk_size) \<noteq> None" using that(3) by (auto simp: docs_bytes_def s file_bytes_def)
    then have "cl_has_file c f" using gfs.content_file [OF cl] by blast
    from gfs.write_ok [OF cl this that(1,2), of stamp] ne obtain c' where c': "gfs_write (cluster_ops stamp) f off data c = Inr (True, c')"
      "gfs.stores c f (unat off) data c'" by blast
    then have "docs_bytes (c', z, k) = (docs_bytes s)(f := bytes_written (unat off) data (docs_bytes s f))"
      by (auto simp: gfs.stores_def gfs.bytes_def docs_bytes_def s fun_eq_iff)
    with c' zk show ?thesis
      by (intro exI [of _ "(c', z, k)"]) (simp add: docs_ops_def s docs_inv_def docs_has_def docs_owner_def gfs.stores_def)
  qed
  show "\<exists>s'. fs_create ?ops f s = Inr (True, s') \<and> docs_inv zk nodes s' \<and> docs_has s' = (docs_has s)(f := True) \<and>
      docs_owner nodes s' = docs_owner nodes s \<and> docs_bytes s' = (docs_bytes s)(f := \<lambda>p. if p < chunk_size then Some (CHR 0x00) else None)"
    if "\<not> docs_has s f" "creatable f"
  proof -
    have no: "\<not> cl_has_file c f" using that(1) by (simp add: docs_has_def s)
    from gfs.new_file [OF cl no that(2), of stamp] obtain c' where c': "op_newfile (cluster_ops stamp) f c = Inr (0, c')" "cl_inv c'"
      "cl_has_file c' = (cl_has_file c)(f := True)" "cl_content c' = (cl_content c)((f, 0) \<mapsto> \<lambda>_. CHR 0x00)" by blast
    have "docs_bytes (c', z, k) = (docs_bytes s)(f := \<lambda>p. if p < chunk_size then Some (CHR 0x00) else None)"
      using none [OF no] by (auto simp: docs_bytes_def s file_bytes_def c'(4) fun_eq_iff div_eq_0_iff)
    with c' zk show ?thesis
      by (intro exI [of _ "(c', z, k)"]) (simp add: docs_ops_def s create_def docs_inv_def docs_has_def docs_owner_def)
  qed
  show "fs_create ?ops f s = Inr (False, s)" if "docs_has s f"
    using gfs.old_file [OF cl, of f stamp] that by (simp add: docs_ops_def s create_def docs_has_def)
  show "\<exists>s'. fs_delete ?ops f s = Inr s' \<and> docs_inv zk nodes s' \<and> docs_has s' = (docs_has s)(f := False) \<and>
      docs_owner nodes s' = docs_owner nodes s \<and> docs_bytes s' = (docs_bytes s)(f := \<lambda>_. None)"
  proof -
    from gfs.delete_file [OF cl, of stamp f] obtain c' where c': "op_delete (cluster_ops stamp) f c = Inr c'" "cl_inv c'"
      "cl_has_file c' = (cl_has_file c)(f := False)" "cl_content c' = (\<lambda>(g, i). if g = f then None else cl_content c (g, i))" by blast
    have "docs_bytes (c', z, k) = (docs_bytes s)(f := \<lambda>_. None)" by (auto simp: docs_bytes_def s file_bytes_def c'(4) fun_eq_iff)
    with c' zk show ?thesis
      by (intro exI [of _ "(c', z, k)"]) (simp add: docs_ops_def s deletee_def docs_inv_def docs_has_def docs_owner_def)
  qed
next
  let ?ops = "docs_ops stamp zk fuel ok"
  fix s :: "cluster \<times> 'a \<times> nat" and node p assume inv: "docs_inv zk nodes s"
  obtain c z k where s: "s = (c, z, k)" by (cases s)
  have cl: "cl_inv c" and zk: "zk_reliable zk nodes" using inv s by (simp_all add: docs_inv_def)
  show "docs_inv zk nodes s' \<and> docs_has s' = docs_has s \<and> docs_bytes s' = docs_bytes s \<and> docs_owner nodes s' = docs_owner nodes s"
    if "lk_connect ?ops s = (node, s')" for s' node
    using that cl zk by (auto simp: docs_ops_def s docs_inv_def docs_has_def docs_bytes_def docs_owner_def)
  show "\<exists>s'. lk_try ?ops node p s = Inr (docs_owner nodes s p = None, s') \<and> docs_inv zk nodes s' \<and> docs_has s' = docs_has s \<and>
      docs_bytes s' = docs_bytes s \<and> docs_owner nodes s' = (if docs_owner nodes s p = None then (docs_owner nodes s)(p \<mapsto> node) else docs_owner nodes s)"
  proof -
    obtain z' where z': "locknotblock zk (Suc (Suc fuel)) node p z = Some (nodes z p = None, z')"
      "nodes z' = (if nodes z p = None then (nodes z)(p \<mapsto> (node, ''lock'')) else nodes z)" using lock_calls [OF zk, of "Suc (Suc fuel)" node p z] by auto
    with cl zk show ?thesis
      by (intro exI [of _ "(c, z', k)"]) (auto simp: docs_ops_def s docs_inv_def docs_has_def docs_bytes_def docs_owner_def fun_eq_iff)
  qed
  show "\<exists>s'. lk_unlock ?ops node p s = Inr s' \<and> docs_inv zk nodes s' \<and> docs_has s' = docs_has s \<and> docs_bytes s' = docs_bytes s \<and>
      docs_owner nodes s' = (docs_owner nodes s)(p := None)"
  proof -
    obtain z' where z': "unlock zk (Suc (Suc fuel)) node p z = Some z'" "nodes z' = (nodes z)(p := None)"
      using lock_calls [OF zk, of "Suc (Suc fuel)" node p z] by auto
    with cl zk show ?thesis
      by (intro exI [of _ "(c, z', k)"]) (auto simp: docs_ops_def s docs_inv_def docs_has_def docs_bytes_def docs_owner_def fun_eq_iff)
  qed
  show "docs_inv zk nodes (lk_close ?ops node s) \<and> docs_has (lk_close ?ops node s) = docs_has s \<and>
      docs_bytes (lk_close ?ops node s) = docs_bytes s \<and>
      docs_owner nodes (lk_close ?ops node s) = (\<lambda>p. if docs_owner nodes s p = Some node then None else docs_owner nodes s p)"
  proof -
    have "zk_spec zk nodes" using zk by (simp add: zk_reliable_def)
    from zk_close [OF this, of node z] cl zk show ?thesis
      by (auto simp: docs_ops_def s docs_inv_def docs_has_def docs_bytes_def docs_owner_def close_conn_def fun_eq_iff split: option.splits)
  qed
qed


context doc_store
begin

text \<open>A name of which the configuration has an earlier occurrence: the valid bit that is written is not that of the file.\<close>

lemma zero_bit:
  assumes "winv N [(''0'', n, True)] T st" "w_fs st1 = w_fs st"
  shows "\<exists>s. changeValidBit ops ''0'' 0 st1 = Inr (st1\<lparr>w_fs := s\<rparr>) \<and> winv N [(''0'', n, True)] T (st\<lparr>w_fs := s\<rparr>)"
proof -
  let ?recs = "[(''0'', n, True)]"
  note i = assms(1) [unfolded web_inv_def]
  have c: "inv (w_fs st1)" "config_file (bytes (w_fs st1) ''config'') ?recs" using i assms(2) by simp_all
  have full: "chunk_full (bytes (w_fs st1) ''config'')" and h: "holds (bytes (w_fs st1) ''config'') (config_text ?recs)" and ok: "recs_ok ?recs"
    using c(2) by (simp_all add: config_file_def)
  note rd = read_config [OF c] and l = recs_lengths(3) [of "[]", simplified, OF ok] and hd = config_header [OF ok]
  have nums: "num8 1 = ''00000001''" "num8 34 = ''00000034''"
    by (simp_all add: num8_def numExtend_def Itoa_def nat_str.simps Let_def) (simp_all add: numeral_eq_Suc)
  have t: "config_text ?recs = ''000000010'' @ ''0'' @ ''000034'' @ rec_text (''0'', n, True)"
    using l nums by (simp add: config_text_def)
  have len: "length (config_text ?recs) = 34" using hd(5) l by simp
  have idx: "str_Index (config_text ?recs) ''0'' = 0" unfolding t using str_Index_char [of "CHR ''0''" "[]"] by simp
  have same: "patch 9 ''0'' (config_text ?recs) = config_text ?recs" using patch_at [OF t, of 9 "''0''"] t by simp
  have "\<exists>s. wr ops ''config'' 9 ''0'' st1 = Inr (st1\<lparr>w_fs := s\<rparr>) \<and> keeps {''config''} (w_fs st1) s \<and>
      chunk_full (bytes s ''config'') \<and> holds (bytes s ''config'') (patch 9 ''0'' (config_text ?recs))"
    by (rule wr_holds [OF c(1) _ full h]) (use len in \<open>simp_all add: chunk_size_def\<close>)
  then obtain s where s: "wr ops ''config'' 9 ''0'' st1 = Inr (st1\<lparr>w_fs := s\<rparr>)" "keeps {''config''} (w_fs st1) s"
    "config_file (bytes s ''config'') ?recs" using ok unfolding same by (auto simp: config_file_def)
  have "changeValidBit ops ''0'' 0 st1 = Inr (st1\<lparr>w_fs := s\<rparr>)"
    using rd(2,3) s(1) idx len num8_Atoi [of 34] by (simp add: changeValidBit_def Let_def u64_of_int_def)
  moreover have "inv s" "has s = has (w_fs st)" "bytes s ''gDocLog'' = bytes (w_fs st) ''gDocLog''" "bytes s ''0'' = bytes (w_fs st) ''0''"
    using s(2) assms(2) by (simp_all add: keeps_def)
  ultimately show ?thesis using i s(3) by (intro exI [of _ s]) (simp add: web_inv_def)
qed

lemma zero_trash:
  assumes "winv N [(''0'', n, True)] T st" "map_of (connMap st) ''0'' = None" "room T tm user ''0''"
  shows "\<exists>st3 st4. moveToTrash ops tm ''0'' conn user st = Inr st3 \<and> map_of (fileMap st3) ''0'' = None \<and> map_of (trashMap st3) ''0'' = Some (of_nat n) \<and>
    web_main ops (w_fs st3) = Inr st4 \<and> map_of (fileMap st4) ''0'' = Some (of_nat n) \<and> map_of (trashMap st4) ''0'' = None"
proof -
  define st1 where "st1 = st\<lparr>trashMap := AList.update ''0'' (size_of (fileMap st) ''0'') (trashMap st), fileMap := AList.delete ''0'' (fileMap st)\<rparr>"
  let ?e = "''[MTT] '' @ tm @ '' '' @ user @ '' move the file '' @ ''0'' @ '' to trash'' @ tab"
  have old: "map_of (fileMap st) ''0'' = Some (of_nat n)" using web_invD(7) [OF assms(1), of "''0''"] by simp
  from zero_bit [OF assms(1), of st1] obtain s where s: "changeValidBit ops ''0'' 0 st1 = Inr (st1\<lparr>w_fs := s\<rparr>)"
    "winv N [(''0'', n, True)] T (st\<lparr>w_fs := s\<rparr>)" by (auto simp: st1_def)
  define st2 where "st2 = send_all ops (others conn (send ops conn 1 (BackendMsg ''MTTSUCCESS'' (traverseFileMap (st1\<lparr>w_fs := s\<rparr>))) (st1\<lparr>w_fs := s\<rparr>)))
    1 (BackendMsg ''MTTSUCCESS'' (traverseFileMap (st1\<lparr>w_fs := s\<rparr>))) (send ops conn 1 (BackendMsg ''MTTSUCCESS'' (traverseFileMap (st1\<lparr>w_fs := s\<rparr>))) (st1\<lparr>w_fs := s\<rparr>))"
  have st2: "w_fs st2 = s" "fileMap st2 = fileMap st1" "trashMap st2 = trashMap st1" by (simp_all add: st2_def)
  note i = s(2) [unfolded web_inv_def]
  from writeLog_ok [of st2 T ?e] i assms(3) st2(1) obtain s2 where s2: "writeLog ops ?e st2 = Inr (st2\<lparr>w_fs := s2\<rparr>)"
    "keeps {''gDocLog''} s s2" "log_file (bytes s2 ''gDocLog'') (T @ ?e)" by auto
  have "inv s2" "has s2 = has s" "bytes s2 ''config'' = bytes s ''config''" "bytes s2 ''0'' = bytes s ''0''" using s2(2) by (simp_all add: keeps_def)
  then have "winv N [(''0'', n, True)] (T @ ?e) (st\<lparr>w_fs := s2\<rparr>)" using i s2(3) unfolding web_inv_def by simp
  from restart_ok [OF this] obtain st4 where st4: "web_main ops s2 = Inr st4" "map_of (fileMap st4) = map_of (fileMap st)" "map_of (trashMap st4) = map_of (trashMap st)" by auto
  have "moveToTrash ops tm ''0'' conn user st = Inr (st2\<lparr>w_fs := s2\<rparr>)"
    using assms(2) s(1) s2(1) by (simp add: moveToTrash_def Let_def st1_def [symmetric] st2_def [symmetric])
  moreover have "map_of (trashMap st) ''0'' = None" using web_invD(8) [OF assms(1), of "''0''"] by simp
  ultimately show ?thesis using st4 st2 old by (simp add: st1_def size_of_def)
qed

end

section \<open>Properties\<close>



text \<open>
  The record of a file is looked up by the first occurrence of its name in the configuration: a file named
  \<open>0\<close> that is moved to the recycle bin is a file again after a restart.
\<close>

theorem zero_name_not_trashed:
  assumes "docs_inv zk nodes s" and "\<And>f. \<not> docs_has s f" and "length tm + length user < 1000"
  shows "\<exists>st1 st2 st3 st4. web_main (docs_ops stamp zk fuel ok) s = Inr st1 \<and>
    handleCreate (docs_ops stamp zk fuel ok) tm ''0'' conn user st1 = Inr st2 \<and>
    moveToTrash (docs_ops stamp zk fuel ok) tm ''0'' conn user st2 = Inr st3 \<and>
    map_of (fileMap st3) ''0'' = None \<and> map_of (trashMap st3) ''0'' \<noteq> None \<and>
    web_main (docs_ops stamp zk fuel ok) (w_fs st3) = Inr st4 \<and>
    map_of (fileMap st4) ''0'' \<noteq> None \<and> map_of (trashMap st4) ''0'' = None"
proof -
  let ?ops = "docs_ops stamp zk fuel ok" and ?W = "web_inv (docs_inv zk nodes) docs_has docs_bytes {''0''}"
  have name: "doc_name f \<and> \<not> docs_has s f" if "f \<in> {''0''}" for f using that assms(2) by (simp add: doc_name_def creatable_def)
  from docs.first_start_ok [where N = "{''0''}" and stamp = stamp and fuel = fuel and ok = ok, OF assms(1) assms(2) assms(2) name] obtain st1 where
    st1: "web_main ?ops s = Inr st1" "?W [] tab st1" "connMap st1 = []" by auto
  from docs.create_fresh_ok [where f = "''0''" and tm = tm and user = user and stamp = stamp and fuel = fuel and ok = ok and conn = conn, OF st1(2)] assms(3) obtain st2 T where
    st2: "handleCreate ?ops tm ''0'' conn user st1 = Inr st2" "?W [(''0'', 84 * 60 * 80, True)] T st2" "connMap st2 = []"
      "length T \<le> length tm + length user + 40" using st1(3) by (auto simp: chunk_size_def)
  have "map_of (connMap st2) ''0'' = None" "length T + length tm + length user + length ''0'' + 100 < chunk_size"
    using st2(3,4) assms(3) by (simp_all add: chunk_size_def)
  from docs.zero_trash [where stamp = stamp and fuel = fuel and ok = ok and conn = conn, OF st2(2) this] st1(1) st2(1) show ?thesis by blast
qed


section \<open>Witnesses\<close>

text \<open>The server on the demonstration cluster.\<close>

abbreviation demo_docs :: "(cluster \<times> (string \<rightharpoonup> nat \<times> string) \<times> nat) doc_ops" where
  "demo_docs \<equiv> docs_ops demo_stamp map_zk 0 (\<lambda>_. True)"

abbreviation demo_web :: "string set \<Rightarrow> doc_rec list \<Rightarrow> string \<Rightarrow> (cluster \<times> (string \<rightharpoonup> nat \<times> string) \<times> nat) webserver \<Rightarrow> bool" where
  "demo_web \<equiv> web_inv (docs_inv map_zk (\<lambda>z. z)) docs_has docs_bytes"

lemma demo_store: "docs_inv map_zk (\<lambda>z. z) (demo_cluster, Map.empty, 0)" "\<not> docs_has (demo_cluster, Map.empty, 0) f"
proof -
  show "docs_inv map_zk (\<lambda>z. z) (demo_cluster, Map.empty, 0)" using demo_cluster_inv(1) map_zk_reliable by (simp add: docs_inv_def)
  show "\<not> docs_has (demo_cluster, Map.empty, 0) f" by (simp add: docs_has_def cl_has_file_def demo_cluster_def)
qed

lemma demo_start: "\<exists>st. web_main demo_docs (demo_cluster, Map.empty, 0) = Inr st \<and> demo_web {''a''} [] tab st \<and> connMap st = []"
proof -
  have "doc_name f \<and> \<not> docs_has (demo_cluster, Map.empty, 0) f" if "f \<in> {''a''}" for f
    using that demo_store(2) by (simp add: doc_name_def creatable_def)
  from docs.first_start_ok [where N = "{''a''}" and stamp = demo_stamp and fuel = 0 and ok = "\<lambda>_. True", OF demo_store(1) demo_store(2) demo_store(2) this]
  show ?thesis by auto
qed



theorem zero_name_not_trashed_witness:
  "\<exists>st1 st2 st3. web_main demo_docs (demo_cluster, Map.empty, 0) = Inr st1 \<and> handleCreate demo_docs ''now'' ''0'' 3 ''u'' st1 = Inr st2 \<and>
     moveToTrash demo_docs ''now'' ''0'' 3 ''u'' st2 = Inr st3 \<and> map_of (trashMap st3) ''0'' \<noteq> None"
  using zero_name_not_trashed [OF demo_store, of "''now''" "''u''" demo_stamp 0 "\<lambda>_. True" 3] by auto

end
