(* ===== verification/DocEdit.thy ===== *)
theory DocEdit
  imports DocConfig
begin

text \<open>
  Editing documents (\<open>handleEdit\<close>, \<open>handleUpdate\<close>, \<open>handleRollBack\<close> of \<open>handlers_ws.go\<close>): what an update writes, what a rollback
  undoes, and how the locks of the cells work. The handlers run on the contract \<open>doc_store\<close> of \<open>DocConfig\<close> and
  on its interpretation, the file system client on the cluster and the zookeeper locks.
\<close>

section \<open>Reading the fields of a log entry\<close>

text \<open>Two neighbouring characters in a string.\<close>

fun pair_in :: "char \<Rightarrow> char \<Rightarrow> string \<Rightarrow> bool" where
  "pair_in x y [] = False"
| "pair_in x y (a # s) = (a = x \<and> s \<noteq> [] \<and> hd s = y \<or> pair_in x y s)"

lemma pair_in_append:
  "pair_in x y (s @ t) \<longleftrightarrow> pair_in x y s \<or> pair_in x y t \<or> s \<noteq> [] \<and> t \<noteq> [] \<and> last s = x \<and> hd t = y"
  by (induction s) auto

lemma pair_in_nth: "Suc i < length s \<Longrightarrow> s ! i = x \<Longrightarrow> s ! Suc i = y \<Longrightarrow> pair_in x y s"
proof (induction s arbitrary: i)
  case (Cons a s)
  then show ?case by (cases i) (auto simp: hd_conv_nth)
qed simp

lemma pair_in_absent: "x \<notin> set s \<Longrightarrow> \<not> pair_in x y s" "y \<notin> set s \<Longrightarrow> \<not> pair_in x y s"
  by (induction s) auto

text \<open>A label ends in a colon: its first occurrence is at the first colon with the last letter of the label before it.\<close>

lemma index_label:
  assumes s: "s = pre @ (lab @ [x, y]) @ post" and no: "\<not> pair_in x y (pre @ lab @ [x])"
  shows "str_Index s (lab @ [x, y]) = int (length pre)"
proof (rule str_Index_eqI)
  show "occurs_at s (lab @ [x, y]) (length pre)" by (simp add: occurs_at_def s)
  show "length pre \<le> length s" by (simp add: s)
  fix j assume j: "j < length pre"
  show "\<not> occurs_at s (lab @ [x, y]) j"
  proof
    assume o: "occurs_at s (lab @ [x, y]) j"
    let ?p = "pre @ lab @ [x]"
    have eq: "s ! (j + k) = (lab @ [x, y]) ! k" if "k < length lab + 2" for k
    proof -
      have "take (length lab + 2) (drop j s) ! k = (lab @ [x, y]) ! k" using o by (simp add: occurs_at_def)
      moreover have "j \<le> length s" using j by (simp add: s)
      ultimately show ?thesis using that by simp
    qed
    have p: "?p ! k = s ! k" if "k < length ?p" for k using that by (simp add: s nth_append)
    have "?p ! (j + length lab) = x" using eq [of "length lab"] p [of "j + length lab"] j by simp
    moreover have "?p ! Suc (j + length lab) = y" using eq [of "Suc (length lab)"] p [of "Suc (j + length lab)"] j by (simp add: nth_append)
    ultimately show False using pair_in_nth [of "j + length lab" ?p x y] no j by simp
  qed
qed

text \<open>What may stand in an entry: a date without letters, names and values without colons and tabs.\<close>

definition time_ok :: "string \<Rightarrow> bool" where
  "time_ok tm \<longleftrightarrow> list_all (\<lambda>c. is_digit c \<or> c = CHR ''-'' \<or> c = CHR '':'' \<or> c = CHR '' '') tm"

definition field_ok :: "string \<Rightarrow> bool" where
  "field_ok s \<longleftrightarrow> CHR '':'' \<notin> set s \<and> CHR 0x09 \<notin> set s"

lemma time_pair: "time_ok tm \<Longrightarrow> \<not> is_digit x \<Longrightarrow> x \<noteq> CHR ''-'' \<Longrightarrow> x \<noteq> CHR '':'' \<Longrightarrow> x \<noteq> CHR '' '' \<Longrightarrow> \<not> pair_in x y tm"
  by (rule pair_in_absent(1)) (auto simp: time_ok_def list_all_iff)

lemma Itoa_no_colon [simp]: "\<not> pair_in x (CHR '':'') (Itoa i)"
  by (rule pair_in_absent(2)) simp

lemma letters [simp]:
  "\<not> is_digit CHR ''w''" "\<not> is_digit CHR ''l''" "\<not> is_digit CHR ''m''" "\<not> is_digit CHR ''o''"
  by (simp_all add: is_digit_def)

lemma update_indices:
  assumes "time_ok tm" "field_ok u" "field_ok old" "field_ok v" and s_def: "s = update_log tm u r c old v f"
  shows "str_Index s ''user:'' = int (9 + length tm + 1)"
    "str_Index s ''row:'' = int (9 + length tm + 6 + length u + 5)"
    "str_Index s ''col:'' = int (9 + length tm + 6 + length u + 9 + length (Itoa (int_of_u64 r)) + 1)"
    "str_Index s ''from:'' = int (9 + length tm + 6 + length u + 9 + length (Itoa (int_of_u64 r)) + 5 + length (Itoa (int_of_u64 c)) + 1)"
    "str_Index s ''to:'' = int (9 + length tm + 6 + length u + 9 + length (Itoa (int_of_u64 r)) + 5 + length (Itoa (int_of_u64 c)) + 6 + length old + 1)"
    "str_Index s ''file:'' = int (9 + length tm + 6 + length u + 9 + length (Itoa (int_of_u64 r)) + 5 + length (Itoa (int_of_u64 c)) + 6 + length old + 4 + length v + 4)"
proof -
  define R C where "R = Itoa (int_of_u64 r)" and "C = Itoa (int_of_u64 c)"
  have no: "\<not> pair_in x (CHR '':'') u" "\<not> pair_in x (CHR '':'') old" "\<not> pair_in x (CHR '':'') v"
    "\<not> pair_in x (CHR '':'') R" "\<not> pair_in x (CHR '':'') C" for x
    using assms(2-4) by (auto simp: field_ok_def R_def C_def intro!: pair_in_absent(2))
  note tp = time_pair [OF assms(1)]
  note L = index_label [where y = "CHR '':''"] and S = s_def update_log_def R_def [symmetric] C_def [symmetric]
  let ?p1 = "''[UPDATE] '' @ tm @ '' ''" and ?p2 = "''[UPDATE] '' @ tm @ '' user:'' @ u @ '' set ''"
  let ?p3 = "''[UPDATE] '' @ tm @ '' user:'' @ u @ '' set row:'' @ R @ '' ''"
  let ?p4 = "''[UPDATE] '' @ tm @ '' user:'' @ u @ '' set row:'' @ R @ '' col:'' @ C @ '' ''"
  let ?p5 = "''[UPDATE] '' @ tm @ '' user:'' @ u @ '' set row:'' @ R @ '' col:'' @ C @ '' from:'' @ old @ '' ''"
  let ?p6 = "''[UPDATE] '' @ tm @ '' user:'' @ u @ '' set row:'' @ R @ '' col:'' @ C @ '' from:'' @ old @ '' to:'' @ v @ '' in ''"
  show "str_Index s ''user:'' = int (9 + length tm + 1)"
    using L [of s ?p1 "''use''" "CHR ''r''" "u @ '' set row:'' @ R @ '' col:'' @ C @ '' from:'' @ old @ '' to:'' @ v @ '' in file:'' @ f"]
    by (simp add: S pair_in_append tp no)
  show "str_Index s ''row:'' = int (9 + length tm + 6 + length u + 5)"
    using L [of s ?p2 "''ro''" "CHR ''w''" "R @ '' col:'' @ C @ '' from:'' @ old @ '' to:'' @ v @ '' in file:'' @ f"]
    by (simp add: S pair_in_append tp no)
  show "str_Index s ''col:'' = int (9 + length tm + 6 + length u + 9 + length (Itoa (int_of_u64 r)) + 1)"
    using L [of s ?p3 "''co''" "CHR ''l''" "C @ '' from:'' @ old @ '' to:'' @ v @ '' in file:'' @ f"]
    by (simp add: S pair_in_append tp no)
  show "str_Index s ''from:'' = int (9 + length tm + 6 + length u + 9 + length (Itoa (int_of_u64 r)) + 5 + length (Itoa (int_of_u64 c)) + 1)"
    using L [of s ?p4 "''fro''" "CHR ''m''" "old @ '' to:'' @ v @ '' in file:'' @ f"]
    by (simp add: S pair_in_append tp no)
  show "str_Index s ''to:'' = int (9 + length tm + 6 + length u + 9 + length (Itoa (int_of_u64 r)) + 5 + length (Itoa (int_of_u64 c)) + 6 + length old + 1)"
    using L [of s ?p5 "''t''" "CHR ''o''" "v @ '' in file:'' @ f"]
    by (simp add: S pair_in_append tp no)
  show "str_Index s ''file:'' = int (9 + length tm + 6 + length u + 9 + length (Itoa (int_of_u64 r)) + 5 + length (Itoa (int_of_u64 c)) + 6 + length old + 4 + length v + 4)"
    using L [of s ?p6 "''fil''" "CHR ''e''" f]
    by (simp add: S pair_in_append tp no)
qed

lemma parse_update_log:
  assumes "time_ok tm" "field_ok u" "field_ok old" "field_ok v"
  shows "parse_update (update_log tm u r c old v f) = Inr \<lparr>o_Type = ''ROLLBACK'', o_Row = r, o_Column = c,
    o_NewValue = v, o_FileName = f, o_UserName = u, o_OldValue = old\<rparr>"
proof -
  let ?s = "update_log tm u r c old v f"
  define R C where "R = Itoa (int_of_u64 r)" and "C = Itoa (int_of_u64 c)"
  note idx = update_indices [OF assms refl, of r c f, folded R_def C_def]
  have S: "?s = ''[UPDATE] '' @ tm @ '' user:'' @ u @ '' set row:'' @ R @ '' col:'' @ C @ '' from:'' @ old @ '' to:'' @ v @ '' in file:'' @ f"
    by (simp add: update_log_def R_def C_def)
  have 1: "go_slice ?s (str_Index ?s ''user:'' + 5) (str_Index ?s ''row:'' + 4 - 9) = Some u"
    unfolding idx by (rule slice_eqI [of _ "''[UPDATE] '' @ tm @ '' user:''"]) (simp_all add: S)
  have 2: "go_slice ?s (str_Index ?s ''row:'' + 4) (str_Index ?s ''col:'' + 4 - 5) = Some R"
    unfolding idx by (rule slice_eqI [of _ "''[UPDATE] '' @ tm @ '' user:'' @ u @ '' set row:''"]) (simp_all add: S)
  have 3: "go_slice ?s (str_Index ?s ''col:'' + 4) (str_Index ?s ''from:'' + 5 - 6) = Some C"
    unfolding idx by (rule slice_eqI [of _ "''[UPDATE] '' @ tm @ '' user:'' @ u @ '' set row:'' @ R @ '' col:''"]) (simp_all add: S)
  have 4: "go_slice ?s (str_Index ?s ''from:'' + 5) (str_Index ?s ''to:'' + 3 - 4) = Some old"
    unfolding idx by (rule slice_eqI [of _ "''[UPDATE] '' @ tm @ '' user:'' @ u @ '' set row:'' @ R @ '' col:'' @ C @ '' from:''"]) (simp_all add: S)
  have 5: "go_slice ?s (str_Index ?s ''to:'' + 3) (str_Index ?s ''file:'' + 5 - 9) = Some v"
    unfolding idx by (rule slice_eqI [of _ "''[UPDATE] '' @ tm @ '' user:'' @ u @ '' set row:'' @ R @ '' col:'' @ C @ '' from:'' @ old @ '' to:''"]) (simp_all add: S)
  have 6: "go_slice ?s (str_Index ?s ''file:'' + 5) (int (length ?s)) = Some f"
    unfolding idx by (rule slice_eqI [of _ "''[UPDATE] '' @ tm @ '' user:'' @ u @ '' set row:'' @ R @ '' col:'' @ C @ '' from:'' @ old @ '' to:'' @ v @ '' in file:''" _ "[]"])
      (simp_all add: S)
  from 1 2 3 4 5 6 show ?thesis by (simp add: parse_update_def Let_def R_def C_def)
qed


section \<open>Cells and messages\<close>

text \<open>The 80 bytes of a file from a position on.\<close>

definition cell :: "(nat \<Rightarrow> char option) \<Rightarrow> nat \<Rightarrow> string" where
  "cell F pos = map (\<lambda>p. the (F p)) [pos..<pos + 80]"

lemma cell_position_nat:
  "unat r < 84 \<Longrightarrow> unat c < 60 \<Longrightarrow> unat (cell_position r c) = (unat r * 60 + unat c) * 80"
  by (simp add: cell_position_def unat_word_ariths colNum_def blockSize_def)

lemma cell_position_bound: "unat r < 84 \<Longrightarrow> unat c < 60 \<Longrightarrow> unat (cell_position r c) + 80 < chunk_size"
  using cell_position_nat [of r c] by (simp add: chunk_size_def)

lemma send_all_sent:
  "w_sent (send_all ops cs ty m st) = w_sent st @ map (\<lambda>c. (c, ty, m)) (filter (ws_ok ops) cs)"
proof (induction cs arbitrary: st)
  case (Cons c cs)
  have "send_all ops (c # cs) ty m st = send_all ops cs ty m (send ops c ty m st)" by (simp add: send_all_def)
  with Cons.IH show ?case by (simp add: send_def)
qed (simp add: send_all_def)

lemma send_all_keeps:
  "connMap (send_all ops cs ty m st) = connMap st" "allConnMap (send_all ops cs ty m st) = allConnMap st"
  by (induction cs arbitrary: st) (simp_all add: send_all_def send_def)

lemma old_value_length: "old_value s = Inr old \<Longrightarrow> old \<noteq> [] \<and> length old \<le> max 1 (length s)"
proof -
  assume o: "old_value s = Inr old"
  define i where "i = str_Index s ''     ''"
  show "old \<noteq> [] \<and> length old \<le> max 1 (length s)"
  proof (cases "i = 0")
    case True
    then have "old = '' ''" using o by (simp add: old_value_def i_def)
    then show ?thesis by simp
  next
    case False
    then have "panic_unless (go_slice s 0 i) = Inr old" using o by (simp add: old_value_def i_def)
    then have "go_slice s 0 i = Some old" by (cases "go_slice s 0 i") simp_all
    then show ?thesis using False by (auto simp: slice_Some_iff)
  qed
qed

context doc_store
begin

lemma rd_cell:
  assumes "inv (w_fs st)" "chunk_full (bytes (w_fs st) f)" "unat off + 80 < chunk_size"
  shows "rd ops f off blockSize st = Inr (cell (bytes (w_fs st) f) (unat off), st)"
proof -
  have "fs_read ops f off blockSize (w_fs st) = Inr (map (\<lambda>p. the (bytes (w_fs st) f p)) [unat off..<unat off + unat blockSize], w_fs st)"
  proof (rule read_law [OF assms(1)])
    have "unat off mod chunk_size \<le> unat off" by simp
    then show "unat off mod chunk_size + unat blockSize < 2 * chunk_size" using assms(3) by (simp add: blockSize_def)
    fix p assume "p < unat off + unat blockSize"
    then show "bytes (w_fs st) f p \<noteq> None" using assms(2,3) by (simp add: chunk_full_def blockSize_def)
  qed
  then show ?thesis by (simp add: rd_def cell_def blockSize_def)
qed

lemma web_inv_file:
  assumes "winv N recs T st" "f \<in> fst ` set recs" "keeps {f} (w_fs st) s" "chunk_full (bytes s f)"
  shows "winv N recs T (st\<lparr>w_fs := s\<rparr>)"
proof -
  have n: "f \<noteq> ''config''" "f \<noteq> ''gDocLog''" using web_inv_names [OF assms(1,2)] by simp_all
  have "chunk_full (bytes s g)" if "g \<in> fst ` set recs" for g
    using web_inv_names(3) [OF assms(1) that] assms(3,4) by (cases "g = f") (simp_all add: keeps_def)
  with assms(1,3) n show ?thesis by (simp add: web_inv_def keeps_def)
qed

lemma web_wr:
  assumes "winv N recs T st" "f \<in> fst ` set recs" "d \<noteq> []" "length d \<le> 80" "unat off + 80 < chunk_size"
  shows "\<exists>s. wr ops f off d st = Inr (st\<lparr>w_fs := s\<rparr>) \<and> winv N recs T (st\<lparr>w_fs := s\<rparr>) \<and> keeps {f} (w_fs st) s \<and>
    bytes s f = bytes_written (unat off) d (bytes (w_fs st) f)"
proof -
  note full = web_inv_names(3) [OF assms(1,2)]
  have "inv (w_fs st)" "unat off < chunk_size" "length d < 2 ^ 62" using web_invD(1) [OF assms(1)] assms(4,5) by simp_all
  from wr_ok [OF this(1) assms(3) this(2,3) full] obtain s where s: "wr ops f off d st = Inr (st\<lparr>w_fs := s\<rparr>)" "keeps {f} (w_fs st) s"
    "bytes s f = bytes_written (unat off) d (bytes (w_fs st) f)" by blast
  have "chunk_full (bytes s f)" using s(3) chunk_full_written [OF full] by simp
  with s web_inv_file [OF assms(1,2) s(2)] show ?thesis by blast
qed

lemma handleUpdate_ok:
  fixes msg
  defines "f \<equiv> m_FileName msg" and "pos \<equiv> unat (cell_position (m_Row msg) (m_Column msg))" and "v \<equiv> take 80 (m_NewValue msg)"
    and "lk \<equiv> lock_index (m_FileName msg) (m_Row msg) (m_Column msg)"
  assumes w: "winv N recs T st" and f: "f \<in> fst ` set recs" and rc: "unat (m_Row msg) < 84" "unat (m_Column msg) < 60"
    and old: "old_value (cell (bytes (w_fs st) f) pos) = Inr old" and v: "v \<noteq> []" and node: "nodeMap st conn = Some node"
    and room: "8 + length T + length (update_log tm (m_UserName msg) (m_Row msg) (m_Column msg) old v f @ tab) < chunk_size"
  shows "\<exists>st'. handleUpdate ops tm msg ty p conn st = Inr st' \<and>
    winv N recs (T @ update_log tm (m_UserName msg) (m_Row msg) (m_Column msg) old v f @ tab) st' \<and>
    bytes (w_fs st') f = bytes_written pos v (bytes (w_fs st) f) \<and>
    (\<forall>g. g \<notin> {f, ''gDocLog''} \<longrightarrow> bytes (w_fs st') g = bytes (w_fs st) g) \<and>
    owner (w_fs st') = (owner (w_fs st))(lk := None) \<and> lockMap st' = AList.delete lk (lockMap st) \<and>
    connMap st' = connMap st \<and> nodeMap st' = nodeMap st \<and>
    w_sent st' = w_sent st @ map (\<lambda>c. (c, ty, Forward p)) (filter (ws_ok ops) (conns_of f st))"
proof -
  let ?e = "update_log tm (m_UserName msg) (m_Row msg) (m_Column msg) old v f @ tab" and ?off = "cell_position (m_Row msg) (m_Column msg)"
  have b: "unat ?off + 80 < chunk_size" by (rule cell_position_bound [OF rc])
  have rd: "rd ops f ?off blockSize st = Inr (cell (bytes (w_fs st) f) pos, st)"
    unfolding pos_def by (rule rd_cell [OF web_invD(1) [OF w] web_inv_names(3) [OF w f] b])
  have "length v \<le> 80" by (simp add: v_def)
  from web_wr [OF w f v this b] obtain s1 where s1: "wr ops f ?off v st = Inr (st\<lparr>w_fs := s1\<rparr>)" "winv N recs T (st\<lparr>w_fs := s1\<rparr>)"
    "keeps {f} (w_fs st) s1" "bytes s1 f = bytes_written pos v (bytes (w_fs st) f)" unfolding pos_def by blast
  have "inv s1" using s1(3) by (simp add: keeps_def)
  from unlock_law [OF this, of node lk] obtain s2 where s2: "lk_unlock ops node lk s1 = Inr s2" "inv s2" "has s2 = has s1" "bytes s2 = bytes s1"
    "owner s2 = (owner s1)(lk := None)" by blast
  define st2 where "st2 = st\<lparr>lockMap := AList.delete lk (lockMap st), w_fs := s2\<rparr>"
  have lk: "lock_index f (m_Row msg) (m_Column msg) = lk" by (simp add: lk_def f_def)
  have w2: "winv N recs T st2" using s1(2) s2 by (simp add: st2_def web_inv_def)
  define st3 where "st3 = send_all ops (conns_of f st2) ty (Forward p) st2"
  have "winv N recs T st3" using w2 by (simp add: st3_def web_inv_def)
  from web_log [OF this _ room] obtain s4 where s4: "writeLog ops ?e st3 = Inr (st3\<lparr>w_fs := s4\<rparr>)"
    "winv N recs (T @ ?e) (st3\<lparr>w_fs := s4\<rparr>)" "keeps {''gDocLog''} (w_fs st3) s4" by blast
  have fs3: "w_fs st3 = s2" by (simp add: st3_def st2_def)
  have fl: "f \<noteq> ''gDocLog''" using web_inv_names [OF w f] by simp
  have h: "handleUpdate ops tm msg ty p conn st = Inr (st3\<lparr>w_fs := s4\<rparr>)"
    using rd old s1(1) s2(1) node s4(1) unfolding handleUpdate_def
    by (simp add: Let_def f_def [symmetric] v_def [symmetric] lk st2_def [symmetric] st3_def [symmetric] blockSize_def [THEN arg_cong [of _ _ unat]])
  have "bytes s4 f = bytes_written pos v (bytes (w_fs st) f)" "owner s4 = (owner (w_fs st))(lk := None)"
    "\<forall>g. g \<notin> {f, ''gDocLog''} \<longrightarrow> bytes s4 g = bytes (w_fs st) g"
    using s4(3) fs3 s2 s1(3,4) fl by (simp_all add: keeps_def)
  moreover have "lockMap st3 = AList.delete lk (lockMap st)" "connMap st3 = connMap st" "nodeMap st3 = nodeMap st"
    "w_sent st3 = w_sent st @ map (\<lambda>c. (c, ty, Forward p)) (filter (ws_ok ops) (conns_of f st))"
    by (simp_all add: st3_def st2_def send_all_sent conns_of_def)
  ultimately show ?thesis using h s4(2) by simp
qed

end


section \<open>Rolling back\<close>

text \<open>The text of a log file with the entries \<open>es\<close>.\<close>

definition log_of :: "string list \<Rightarrow> string" where
  "log_of es = tab @ concat (map (\<lambda>e. e @ tab) es)"

lemma log_of_snoc: "log_of (es @ [e]) = log_of es @ e @ tab"
  by (simp add: log_of_def)

lemma update_log_tab:
  assumes "time_ok tm" "field_ok u" "field_ok old" "field_ok v" "field_ok f"
  shows "CHR 0x09 \<notin> set (update_log tm u r c old v f)"
proof -
  have "CHR 0x09 \<notin> set tm" using assms(1) by (auto simp: time_ok_def list_all_iff is_digit_def)
  then show ?thesis using assms(2-5) by (simp add: update_log_def field_ok_def)
qed

lemma update_log_head: "go_slice (update_log tm u r c old v f) 0 8 = Some ''[UPDATE]''"
  by (rule slice_eqI [of _ "[]" _ "'' '' @ tm @ '' user:'' @ u @ '' set row:'' @ Itoa (int_of_u64 r) @ '' col:'' @ Itoa (int_of_u64 c) @
      '' from:'' @ old @ '' to:'' @ v @ '' in file:'' @ f"]) (simp_all add: update_log_def)

lemma rollback_scan_update:
  assumes "time_ok tm" "field_ok u" "field_ok old" "field_ok v"
  shows "rollback_scan u f (update_log tm u r c old v f # es) 0 [] =
    Inr (Some \<lparr>o_Type = ''ROLLBACK'', o_Row = r, o_Column = c, o_NewValue = v, o_FileName = f, o_UserName = u, o_OldValue = old\<rparr>, [])"
  by (simp add: update_log_head parse_update_log [OF assms])

context doc_store
begin

lemma log_entries_ok:
  assumes "winv N recs (log_of es) st" "\<And>e. e \<in> set es \<Longrightarrow> CHR 0x09 \<notin> set e"
  shows "log_entries ops st = Inr (es @ [[]], st)"
proof -
  let ?T = "log_of es" and ?L = "8 + length (log_of es)"
  have inv: "inv (w_fs st)" and h: "holds (bytes (w_fs st) ''gDocLog'') (num8 ?L @ ?T)" and c: "?L < chunk_size"
    using web_invD(1,5) [OF assms(1)] by (simp_all add: log_file_def)
  have L: "?L < 10 ^ 8" "?L < 2 ^ 63" using c by (simp_all add: chunk_size_def)
  have len: "length (num8 ?L) = 8" using L(1) by (rule num8_length)
  have u: "unat (of_nat ?L :: u64) = ?L" using L(2) by (rule u64_small)
  have 1: "rd ops ''gDocLog'' 0 8 st = Inr (num8 ?L, st)" using rd_holds [OF inv h, of 0 8] len c by simp
  have 2: "rd ops ''gDocLog'' 0 (of_nat ?L) st = Inr (num8 ?L @ ?T, st)"
    using rd_holds [OF inv h, of 0 "of_nat ?L"] u len c by (simp del: of_nat_add)
  have 3: "go_slice_from (num8 ?L @ ?T) 9 = Some (concat (map (\<lambda>e. e @ tab) es))"
    by (rule slice_from_eqI [of _ "num8 ?L @ tab"]) (use len in \<open>simp_all add: log_of_def\<close>)
  have 4: "str_Split CHR 0x09 (concat (map (\<lambda>e. e @ tab) es)) = es @ [[]]"
    using str_Split_records [of es "CHR 0x09"] assms(2) by simp
  show ?thesis using 1 2 3 4 num8_Atoi [OF L(1)] u64_small(1) [OF L(2)] by (simp add: log_entries_def)
qed

lemma handleRollBack_ok:
  fixes r c :: u64
  defines "pos \<equiv> unat (cell_position r c)"
  assumes w: "winv N recs (log_of (es @ [update_log tm u r c old v f])) st" and es: "\<And>e. e \<in> set es \<Longrightarrow> CHR 0x09 \<notin> set e"
    and ok: "time_ok tm" "field_ok u" "field_ok old" "field_ok v" "field_ok f" and f: "f \<in> fst ` set recs"
    and rc: "unat r < 84" "unat c < 60" and old: "old \<noteq> []" "length old \<le> 80" "length v \<le> 80"
    and free: "map_of (lockMap st) (lock_index f r c) = None"
    and room: "length (log_of (es @ [update_log tm u r c old v f])) + length tm' + length u + length f + 100 < chunk_size"
  shows "\<exists>st' T'. handleRollBack ops tm' u f conn st = Inr st' \<and> winv N recs T' st' \<and>
    bytes (w_fs st') f = bytes_written pos (old @ replicate (length v - length old) (CHR '' '')) (bytes (w_fs st) f) \<and>
    (\<forall>g. g \<notin> {f, ''gDocLog''} \<longrightarrow> bytes (w_fs st') g = bytes (w_fs st) g)"
proof -
  let ?u = "update_log tm u r c old v f" and ?T = "log_of (es @ [update_log tm u r c old v f])"
  let ?m = "\<lparr>o_Type = ''ROLLBACK'', o_Row = r, o_Column = c, o_NewValue = v, o_FileName = f, o_UserName = u, o_OldValue = old\<rparr>"
  let ?rv = "old @ replicate (length v - length old) (CHR '' '')" and ?e = "''[ROLLBACK] '' @ tm' @ '' user:'' @ u @ '' file:'' @ f @ tab"
  have ent: "log_entries ops st = Inr ((es @ [?u]) @ [[]], st)"
    by (rule log_entries_ok [OF w]) (use es update_log_tab [OF ok] in auto)
  have scan: "rollback_scan u f (rev (es @ [?u])) 0 [] = Inr (Some ?m, [])" using rollback_scan_update [OF ok(1-4), of f r c "rev es"] by simp
  have b: "unat (cell_position r c) + 80 < chunk_size" by (rule cell_position_bound [OF rc])
  have "?rv \<noteq> []" "length ?rv \<le> 80" using old by auto
  from web_wr [OF w f this b] obtain s1 where s1: "wr ops f (cell_position r c) ?rv st = Inr (st\<lparr>w_fs := s1\<rparr>)" "winv N recs ?T (st\<lparr>w_fs := s1\<rparr>)"
    "keeps {f} (w_fs st) s1" "bytes s1 f = bytes_written pos ?rv (bytes (w_fs st) f)" unfolding pos_def by blast
  define st2 where "st2 = send_all ops (conns_of f (st\<lparr>w_fs := s1\<rparr>)) 1 (RollbackMsg ?m) (st\<lparr>w_fs := s1\<rparr>)"
  have "winv N recs ?T st2" using s1(2) by (simp add: st2_def web_inv_def)
  from web_log [OF this, of ?e] room obtain s3 where s3: "writeLog ops ?e st2 = Inr (st2\<lparr>w_fs := s3\<rparr>)"
    "winv N recs (?T @ ?e) (st2\<lparr>w_fs := s3\<rparr>)" "keeps {''gDocLog''} (w_fs st2) s3" by auto
  have fs2: "w_fs st2 = s1" by (simp add: st2_def)
  have fl: "f \<noteq> ''gDocLog''" using web_inv_names [OF w f] by simp
  have "handleRollBack ops tm' u f conn st = Inr (st2\<lparr>w_fs := s3\<rparr>)"
    using ent scan s1(1) s3(1) free by (simp add: handleRollBack_def Let_def rollback_value_def butlast_append st2_def [symmetric] del: rollback_scan.simps)
  moreover have "bytes s3 f = bytes_written pos ?rv (bytes (w_fs st) f)" "\<forall>g. g \<notin> {f, ''gDocLog''} \<longrightarrow> bytes s3 g = bytes (w_fs st) g"
    using s3(3) fs2 s1(3,4) fl by (simp_all add: keeps_def)
  ultimately show ?thesis using s3(2) by (intro exI [of _ "st2\<lparr>w_fs := s3\<rparr>"] exI [of _ "?T @ ?e"]) simp
qed

end


lemma number_length: "unat x < 100 \<Longrightarrow> length (Itoa (int_of_u64 x)) \<le> 2"
proof -
  assume x: "unat x < 100"
  then have "int_of_u64 x = int (unat x)" by (intro int_of_u64_small) simp
  then have "Itoa (int_of_u64 x) = nat_str (unat x)" by (simp only: Itoa_of_nat)
  then show ?thesis using nat_str_length [of "unat x" 1] x by simp
qed

lemma update_log_length:
  assumes "unat r < 84" "unat c < 60"
  shows "length (update_log tm u r c old v f) \<le> 60 + length tm + length u + length old + length v + length f"
proof -
  have "length (Itoa (int_of_u64 r)) \<le> 2" "length (Itoa (int_of_u64 c)) \<le> 2" using assms by (auto intro!: number_length)
  then show ?thesis by (simp add: update_log_def)
qed

lemma old_value_filled:
  assumes "str_Index (val @ replicate k (CHR '' '')) ''     '' = int (length val)"
  shows "old_value (val @ replicate k (CHR '' '')) = Inr (if val = [] then '' '' else val)"
proof (cases "val = []")
  case True
  then show ?thesis using assms by (simp add: old_value_def)
next
  case False
  have "go_slice (val @ replicate k (CHR '' '')) 0 (int (length val)) = Some val" by (rule slice_eqI [of _ "[]"]) simp_all
  then show ?thesis using assms False by (simp add: old_value_def)
qed

text \<open>Writing back what a cell had, over a write that was not longer.\<close>

lemma written_back:
  assumes full: "chunk_full F" and pos: "pos + 80 < chunk_size" and rv: "rv = take (length rv) (cell F pos)" "length v \<le> length rv"
  shows "bytes_written pos rv (bytes_written pos v F) = F"
proof
  fix p
  have len: "length rv \<le> 80" using arg_cong [OF rv(1), of length] by (simp add: cell_def)
  show "bytes_written pos rv (bytes_written pos v F) p = F p"
  proof (cases "pos \<le> p \<and> p < pos + length rv")
    case True
    then have i: "p - pos < length rv" "p < chunk_size" using len pos by auto
    have "rv ! (p - pos) = cell F pos ! (p - pos)" using i(1) by (subst rv(1)) simp
    also have "\<dots> = the (F p)"
    proof -
      have "p - pos < length [pos..<pos + 80]" "[pos..<pos + 80] ! (p - pos) = p" using True len by auto
      then show ?thesis by (simp only: cell_def nth_map)
    qed
    finally show ?thesis using True full i(2) by (auto simp: bytes_written_def chunk_full_def)
  next
    case False
    have chunk: "F p \<noteq> None" if "p div chunk_size \<le> (pos + n - 1) div chunk_size" "n \<le> 80" for n
    proof -
      have "(pos + n - 1) div chunk_size = 0" using pos that(2) by (intro div_less) simp
      then have "p div chunk_size = 0" using that(1) by (metis le_zero_eq)
      then have "p < chunk_size" using chunk_size_pos by (metis div_eq_0_iff less_numeral_extra(3))
      then show ?thesis using full by (simp add: chunk_full_def)
    qed
    have v: "\<not> (pos \<le> p \<and> p < pos + length v)" using False rv(2) by linarith
    have "bytes_written pos v F p = F p" using v chunk [of "length v"] rv(2) len by (auto simp: bytes_written_def)
    moreover have "bytes_written pos rv G p = G p" if "G p = F p" for G using False chunk [of "length rv"] len that by (auto simp: bytes_written_def)
    ultimately show ?thesis by simp
  qed
qed

lemma filled_take:
  assumes "length val \<le> 80" "length v \<le> 80" "old = (if val = [] then '' '' else val)"
  shows "old @ replicate (length v - length old) (CHR '' '') =
    take (length (old @ replicate (length v - length old) (CHR '' ''))) (val @ replicate (80 - length val) (CHR '' ''))"
proof (cases "val = []")
  case True
  have "'' '' @ replicate (length v - 1) (CHR '' '') = replicate (Suc (length v - 1)) (CHR '' '')" by simp
  then show ?thesis using True assms by simp
next
  case False
  then show ?thesis using assms by (simp add: min_def)
qed

section \<open>Locks\<close>

lemma send_until_keeps [simp]:
  "w_fs (send_until ops cs ty m st) = w_fs st" "lockMap (send_until ops cs ty m st) = lockMap st" "nodeMap (send_until ops cs ty m st) = nodeMap st"
  "fileMap (send_until ops cs ty m st) = fileMap st" "trashMap (send_until ops cs ty m st) = trashMap st" "connMap (send_until ops cs ty m st) = connMap st"
  by (induction ops cs ty m st rule: send_until.induct) simp_all

context doc_store
begin

lemma handleEdit_free:
  assumes "inv (w_fs st)" "nodeMap st conn = Some node" "owner (w_fs st) (lock_index (m_FileName msg) (m_Row msg) (m_Column msg)) = None"
  shows "\<exists>st'. handleEdit ops msg ty p conn st = Inr st' \<and> inv (w_fs st') \<and> has (w_fs st') = has (w_fs st) \<and> bytes (w_fs st') = bytes (w_fs st) \<and>
    owner (w_fs st') = (owner (w_fs st))(lock_index (m_FileName msg) (m_Row msg) (m_Column msg) \<mapsto> node) \<and>
    lockMap st' = AList.update (lock_index (m_FileName msg) (m_Row msg) (m_Column msg)) (m_UserName msg) (lockMap st) \<and>
    nodeMap st' = nodeMap st \<and> connMap st' = connMap st \<and> fileMap st' = fileMap st \<and> trashMap st' = trashMap st"
proof -
  let ?lk = "lock_index (m_FileName msg) (m_Row msg) (m_Column msg)"
  from try_law [OF assms(1), of node ?lk] assms(3) obtain s where s: "lk_try ops node ?lk (w_fs st) = Inr (True, s)" "inv s" "has s = has (w_fs st)"
    "bytes s = bytes (w_fs st)" "owner s = (owner (w_fs st))(?lk \<mapsto> node)" by auto
  then show ?thesis using assms(2) by (simp add: handleEdit_def Let_def)
qed

lemma handleEdit_held:
  assumes "inv (w_fs st)" "nodeMap st conn = Some node" "owner (w_fs st) (lock_index (m_FileName msg) (m_Row msg) (m_Column msg)) \<noteq> None"
    "map_of (lockMap st) (lock_index (m_FileName msg) (m_Row msg) (m_Column msg)) = Some u"
  shows "\<exists>s. handleEdit ops msg ty p conn st =
      Inr (send ops conn ty (LockErrMsg (m_Row msg) (m_Column msg) u (m_UserName msg)) (st\<lparr>w_fs := s\<rparr>)) \<and>
    inv s \<and> has s = has (w_fs st) \<and> bytes s = bytes (w_fs st) \<and> owner s = owner (w_fs st)"
proof -
  let ?lk = "lock_index (m_FileName msg) (m_Row msg) (m_Column msg)"
  from try_law [OF assms(1), of node ?lk] assms(3) obtain s where s: "lk_try ops node ?lk (w_fs st) = Inr (False, s)" "inv s" "has s = has (w_fs st)"
    "bytes s = bytes (w_fs st)" "owner s = owner (w_fs st)" by auto
  then show ?thesis using assms(2,4) by (intro exI [of _ s]) (simp add: handleEdit_def Let_def)
qed

end

section \<open>Properties\<close>



text \<open>
  C35: the lock of a cell: while one connection edits it, the request of another connection to edit it is refused with
  the name of the first user and changes neither the locks nor the documents.
\<close>

theorem edit_lock_excludes:
  assumes "docs_inv zk nodes (w_fs st)" and "nodeMap st conn1 = Some node1" and "nodeMap st conn2 = Some node2"
    and "docs_owner nodes (w_fs st) (lock_index (m_FileName msg1) (m_Row msg1) (m_Column msg1)) = None"
    and "lock_index (m_FileName msg2) (m_Row msg2) (m_Column msg2) = lock_index (m_FileName msg1) (m_Row msg1) (m_Column msg1)"
  shows "\<exists>st1 s2. handleEdit (docs_ops stamp zk fuel ok) msg1 ty p1 conn1 st = Inr st1 \<and>
    docs_owner nodes (w_fs st1) (lock_index (m_FileName msg1) (m_Row msg1) (m_Column msg1)) = Some node1 \<and>
    docs_bytes (w_fs st1) = docs_bytes (w_fs st) \<and>
    handleEdit (docs_ops stamp zk fuel ok) msg2 ty p2 conn2 st1 =
      Inr (send (docs_ops stamp zk fuel ok) conn2 ty (LockErrMsg (m_Row msg2) (m_Column msg2) (m_UserName msg1) (m_UserName msg2)) (st1\<lparr>w_fs := s2\<rparr>)) \<and>
    docs_owner nodes s2 = docs_owner nodes (w_fs st1) \<and> docs_bytes s2 = docs_bytes (w_fs st1)"
proof -
  let ?ops = "docs_ops stamp zk fuel ok" and ?lk = "lock_index (m_FileName msg1) (m_Row msg1) (m_Column msg1)"
  from docs.handleEdit_free [where stamp = stamp and fuel = fuel and ok = ok and ty = ty and p = p1, OF assms(1,2,4)] obtain st1 where
    st1: "handleEdit ?ops msg1 ty p1 conn1 st = Inr st1" "docs_inv zk nodes (w_fs st1)" "docs_bytes (w_fs st1) = docs_bytes (w_fs st)"
    "docs_owner nodes (w_fs st1) = (docs_owner nodes (w_fs st))(?lk \<mapsto> node1)" "lockMap st1 = AList.update ?lk (m_UserName msg1) (lockMap st)"
    "nodeMap st1 = nodeMap st" by blast
  have "nodeMap st1 conn2 = Some node2" "docs_owner nodes (w_fs st1) (lock_index (m_FileName msg2) (m_Row msg2) (m_Column msg2)) \<noteq> None"
    "map_of (lockMap st1) (lock_index (m_FileName msg2) (m_Row msg2) (m_Column msg2)) = Some (m_UserName msg1)"
    using st1(4-6) assms(3,5) by simp_all
  from docs.handleEdit_held [where stamp = stamp and fuel = fuel and ok = ok and ty = ty and p = p2, OF st1(2) this] st1(1,3,4) show ?thesis by auto
qed


section \<open>Witnesses\<close>

abbreviation demo_update :: msgInfo where
  "demo_update \<equiv> \<lparr>m_Type = ''update'', m_Row = 0, m_Column = 0, m_NewValue = ''hi'', m_FileName = ''a'', m_UserName = ''u''\<rparr>"

lemma spaces_5: "''     '' = replicate 5 (CHR '' '')"
  by (simp add: numeral_eq_Suc)

lemma empty_cell:
  "old_value (replicate 80 (CHR '' '')) = Inr '' ''" "str_Index (replicate 80 (CHR '' '')) ''     '' = 0"
proof -
  have "occurs_at (replicate 80 (CHR '' '')) ''     '' 0" by (simp add: occurs_at_def spaces_5 del: replicate.simps)
  from str_Index_eqI [OF this] show "str_Index (replicate 80 (CHR '' '')) ''     '' = 0" by simp
  then show "old_value (replicate 80 (CHR '' '')) = Inr '' ''" by (simp add: old_value_def)
qed

lemma demo_document:
  "\<exists>st es. demo_web {''a''} [(''a'', 403200, True)] (log_of es) st \<and> (\<forall>e \<in> set es. CHR 0x09 \<notin> set e) \<and> length (log_of es) < 100 \<and>
     nodeMap st 5 = Some 0 \<and> cell (docs_bytes (w_fs st) ''a'') 0 = replicate 80 (CHR '' '')"
proof -
  obtain st1 where st1: "demo_web {''a''} [] tab st1" using demo_start by blast
  from docs.create_fresh_ok [where f = "''a''" and tm = "''0''" and user = "''u''" and stamp = demo_stamp and fuel = 0 and ok = "\<lambda>_. True" and conn = 5, OF st1]
  obtain st2 T where st2: "demo_web {''a''} [(''a'', 84 * 60 * 80, True)] T st2" "T = tab \<or> T = tab @ ''[CREATE] 0 u create the file a'' @ tab"
    "holds (docs_bytes (w_fs st2) ''a'') (getStr (rowNum * colNum * blockSize))" by (auto simp: chunk_size_def)
  have u: "unat (rowNum * colNum * blockSize) = 84 * 60 * 80" unfolding default_size by (rule u64_small) simp
  have g: "getStr (rowNum * colNum * blockSize) = replicate (84 * 60 * 80) (CHR '' '')" by (simp only: getStr_def u)
  have "cell (docs_bytes (w_fs st2) ''a'') 0 = take 80 (drop 0 (getStr (rowNum * colNum * blockSize)))"
    unfolding cell_def using holds_map [OF st2(3), of 0 80] by (simp add: g)
  then have c: "cell (docs_bytes (w_fs st2) ''a'') 0 = replicate 80 (CHR '' '')" by (simp add: g)
  obtain es where es: "T = log_of es" "es = [] \<or> es = [''[CREATE] 0 u create the file a'']" 
  proof (cases "T = tab")
    case True
    then show ?thesis using that [of "[]"] by (simp add: log_of_def)
  next
    case False
    then show ?thesis using that [of "[''[CREATE] 0 u create the file a'']"] st2(2) by (simp add: log_of_def)
  qed
  let ?st = "st2\<lparr>nodeMap := [5 \<mapsto> 0]\<rparr>"
  have "demo_web {''a''} [(''a'', 403200, True)] (log_of es) ?st" using st2(1) es(1) by (simp add: web_inv_def)
  moreover have "\<forall>e \<in> set es. CHR 0x09 \<notin> set e" "length (log_of es) < 100" using es(2) by (auto simp: log_of_def)
  ultimately show ?thesis using c by (intro exI [of _ ?st] exI [of _ es]) simp
qed

lemma demo_position: "unat (cell_position 0 0) = 0"
  by (simp add: cell_position_def)



theorem edit_lock_excludes_witness:
  "\<exists>st st1 s2. handleEdit demo_docs demo_update 1 ''m'' 5 st = Inr st1 \<and>
     handleEdit demo_docs (demo_update\<lparr>m_UserName := ''v''\<rparr>) 1 ''n'' 6 st1 = Inr (send demo_docs 6 1 (LockErrMsg 0 0 ''u'' ''v'') (st1\<lparr>w_fs := s2\<rparr>))"
proof -
  let ?st = "\<lparr>fileMap = [], trashMap = [], connMap = [], nodeMap = [5 \<mapsto> 0, 6 \<mapsto> 1], lockMap = [], allConnMap = [],
    w_fs = (demo_cluster, Map.empty, 2), w_sent = []\<rparr>"
  have "docs_inv map_zk (\<lambda>z. z) (w_fs ?st)" using demo_store(1) by (simp add: docs_inv_def)
  from edit_lock_excludes [where stamp = demo_stamp and fuel = 0 and ok = "\<lambda>_. True" and ?msg1.0 = demo_update and ?msg2.0 = "demo_update\<lparr>m_UserName := ''v''\<rparr>"
      and ?conn1.0 = 5 and ?conn2.0 = 6 and ?node1.0 = 0 and ?node2.0 = 1 and ty = 1 and ?p1.0 = "''m''" and ?p2.0 = "''n''", OF this]
  obtain st1 s2 where "handleEdit demo_docs demo_update 1 ''m'' 5 ?st = Inr st1"
    "handleEdit demo_docs (demo_update\<lparr>m_UserName := ''v''\<rparr>) 1 ''n'' 6 st1 = Inr (send demo_docs 6 1 (LockErrMsg 0 0 ''u'' ''v'') (st1\<lparr>w_fs := s2\<rparr>))"
    by (auto simp: docs_owner_def)
  then show ?thesis by blast
qed

end
