(* ===== verification/LinCheck.thy ===== *)
theory LinCheck
  imports GoLib
begin

unbundle bit_operations_syntax

text \<open>
  The linearizability checker of the labs: \<open>bitset.go\<close>, \<open>model.go\<close>, \<open>models.go\<close> and \<open>linearizability.go\<close>
  (\<open>src/lab4/src/linearizability\<close>).

  \<^item> The doubly linked list of the history is an explicit store: a function from addresses to nodes, with pointers as
    \<open>nat option\<close>. The node that is allocated for the entry with index \<open>i\<close> has the address \<open>i\<close>; a dereference of nil is
    a panic. \<open>lift\<close> and \<open>unlift\<close> take a call and its return out of the list and put them back.
  \<^item> A bitset is a list of 64-bit words; an index out of range is a panic.
  \<^item> \<open>interface{}\<close> values are a type \<open>'v\<close>, the states of a model a type \<open>'s\<close>. A step of a model may panic (a failed
    type assertion).
  \<^item> The loop of \<open>checkSingle\<close> is a partial function: \<open>None\<close> is a loop that never ends. \<open>kill\<close> tells at which turns the flag is
    set. The results of the goroutines reach the collecting loop as a list of events.
\<close>

section \<open>Bitsets (bitset.go)\<close>

type_synonym bitset = "u64 list"

definition newBitset :: "nat \<Rightarrow> bitset" where
  "newBitset bits = replicate (bits div 64 + (if bits mod 64 \<noteq> 0 then 1 else 0)) 0"

definition bitsetIndex :: "nat \<Rightarrow> nat \<times> nat" where
  "bitsetIndex pos = (pos div 64, pos mod 64)"

definition bs_set :: "bitset \<Rightarrow> nat \<Rightarrow> bitset result" where
  "bs_set b pos =
     (case bitsetIndex pos of (major, minor) \<Rightarrow>
        if major < length b then Inr (b[major := b ! major OR push_bit minor 1]) else Inl Panic)"

definition bs_clear :: "bitset \<Rightarrow> nat \<Rightarrow> bitset result" where
  "bs_clear b pos =
     (case bitsetIndex pos of (major, minor) \<Rightarrow>
        if major < length b then Inr (b[major := b ! major AND NOT (push_bit minor 1)]) else Inl Panic)"

definition bs_get :: "bitset \<Rightarrow> nat \<Rightarrow> bool result" where
  "bs_get b pos =
     (case bitsetIndex pos of (major, minor) \<Rightarrow>
        if major < length b then Inr (b ! major AND push_bit minor 1 \<noteq> 0) else Inl Panic)"

definition popcnt_word :: "u64 \<Rightarrow> u64" where
  "popcnt_word v =
     (let v = (v AND 0x5555555555555555) + drop_bit 1 (v AND 0xAAAAAAAAAAAAAAAA);
          v = (v AND 0x3333333333333333) + drop_bit 2 (v AND 0xCCCCCCCCCCCCCCCC);
          v = (v AND 0x0F0F0F0F0F0F0F0F) + drop_bit 4 (v AND 0xF0F0F0F0F0F0F0F0);
          v = v * 0x0101010101010101
      in drop_bit 56 v AND 0xFF)"

definition popcnt :: "bitset \<Rightarrow> u64" where
  "popcnt b = foldl (\<lambda>total v. total + popcnt_word v) 0 b"

definition bs_hash :: "bitset \<Rightarrow> u64" where
  "bs_hash b = foldl (\<lambda>h v. h XOR v) (popcnt b) b"

fun equals_from :: "bitset \<Rightarrow> bitset \<Rightarrow> bool" where
  "equals_from (x # b) (y # b2) = (if x \<noteq> y then False else equals_from b b2)"
| "equals_from b b2 = True"

definition bs_equals :: "bitset \<Rightarrow> bitset \<Rightarrow> bool" where
  "bs_equals b b2 = (if length b \<noteq> length b2 then False else equals_from b b2)"

section \<open>Models and histories (model.go, models.go)\<close>

record 'v Operation =
  op_Input :: 'v
  op_Call :: int
  op_Output :: 'v
  op_Return :: int

datatype EventKind = CallEvent | ReturnEvent

record 'v Event =
  ev_Kind :: EventKind
  ev_Value :: 'v
  ev_Id :: nat

record ('s, 'v) Model =
  md_Partition :: "'v Operation list \<Rightarrow> 'v Operation list list result"
  md_PartitionEvent :: "'v Event list \<Rightarrow> 'v Event list list result"
  md_Init :: 's
  md_Step :: "'s \<Rightarrow> 'v \<Rightarrow> 'v \<Rightarrow> (bool \<times> 's) result"
  md_Equal :: "'s \<Rightarrow> 's \<Rightarrow> bool"

text \<open>A model as the client writes it, where a nil function field is \<open>None\<close>; \<open>fillDefault\<close> makes a \<open>Model\<close> of it.\<close>

record ('s, 'v) client_model =
  cm_Partition :: "('v Operation list \<Rightarrow> 'v Operation list list result) option"
  cm_PartitionEvent :: "('v Event list \<Rightarrow> 'v Event list list result) option"
  cm_Init :: 's
  cm_Step :: "'s \<Rightarrow> 'v \<Rightarrow> 'v \<Rightarrow> (bool \<times> 's) result"
  cm_Equal :: "('s \<Rightarrow> 's \<Rightarrow> bool) option"

definition NoPartition :: "'v Operation list \<Rightarrow> 'v Operation list list result" where
  "NoPartition history = Inr [history]"

definition NoPartitionEvent :: "'v Event list \<Rightarrow> 'v Event list list result" where
  "NoPartitionEvent history = Inr [history]"

definition ShallowEqual :: "'s \<Rightarrow> 's \<Rightarrow> bool" where
  "ShallowEqual state1 state2 \<longleftrightarrow> state1 = state2"

record KvInput =
  kv_Op :: "8 word"
  kv_Key :: string
  kv_Value :: string

record KvOutput =
  kvo_Value :: string

datatype kv_value = KvIn KvInput | KvOut KvOutput

text \<open>\<open>m[key] = append(m[key], v)\<close> in a map that is ranged over.\<close>

fun kv_partition :: "(string, kv_value Operation list) gomap \<Rightarrow> kv_value Operation list \<Rightarrow> (string, kv_value Operation list) gomap result" where
  "kv_partition m [] = Inr m"
| "kv_partition m (v # history) =
     (case op_Input v of
        KvOut _ \<Rightarrow> Inl Panic
      | KvIn inp \<Rightarrow>
          let old = (case map_of m (kv_Key inp) of None \<Rightarrow> [] | Some l \<Rightarrow> l)
          in kv_partition (AList.update (kv_Key inp) (old @ [v]) m) history)"

definition kv_step :: "string \<Rightarrow> kv_value \<Rightarrow> kv_value \<Rightarrow> (bool \<times> string) result" where
  "kv_step st input output =
     (case (input, output) of
        (KvIn inp, KvOut out) \<Rightarrow>
          if kv_Op inp = 0 then Inr (kvo_Value out = st, st)
          else if kv_Op inp = 1 then Inr (True, kv_Value inp)
          else Inr (True, st @ kv_Value inp)
      | _ \<Rightarrow> Inl Panic)"

text \<open>\<open>order\<close> is the order in which the loop over the map visits its partitions.\<close>

definition KvModel ::
    "((string, kv_value Operation list) gomap \<Rightarrow> (string, kv_value Operation list) gomap) \<Rightarrow> (string, kv_value) client_model" where
  "KvModel order =
     \<lparr>cm_Partition = Some (\<lambda>history. bindR (kv_partition [] history) (\<lambda>m. Inr (map snd (order m)))),
      cm_PartitionEvent = None, cm_Init = [], cm_Step = kv_step, cm_Equal = Some ShallowEqual\<rparr>"

section \<open>Entries (linearizability.go)\<close>

datatype entryKind = callEntry | returnEntry

record 'v entry =
  e_kind :: entryKind
  e_value :: 'v
  e_id :: nat
  e_time :: int

fun entries_from :: "nat \<Rightarrow> 'v Operation list \<Rightarrow> 'v entry list" where
  "entries_from i [] = []"
| "entries_from i (elem # history) =
     \<lparr>e_kind = callEntry, e_value = op_Input elem, e_id = i, e_time = op_Call elem\<rparr> #
     \<lparr>e_kind = returnEntry, e_value = op_Output elem, e_id = i, e_time = op_Return elem\<rparr> # entries_from (Suc i) history"

definition makeEntries :: "'v Operation list \<Rightarrow> 'v entry list" where
  "makeEntries history = go_sort_by e_time (entries_from 0 history)"

fun renumber_from :: "(nat \<rightharpoonup> nat) \<Rightarrow> nat \<Rightarrow> 'v Event list \<Rightarrow> 'v Event list" where
  "renumber_from m i [] = []"
| "renumber_from m i (v # events) =
     (case m (ev_Id v) of
        Some r \<Rightarrow> v\<lparr>ev_Id := r\<rparr> # renumber_from m i events
      | None \<Rightarrow> v\<lparr>ev_Id := i\<rparr> # renumber_from (m(ev_Id v \<mapsto> i)) (Suc i) events)"

definition renumber :: "'v Event list \<Rightarrow> 'v Event list" where
  "renumber events = renumber_from Map.empty 0 events"

definition convertEntries :: "'v Event list \<Rightarrow> 'v entry list" where
  "convertEntries events =
     map (\<lambda>elem. \<lparr>e_kind = (if ev_Kind elem = ReturnEvent then returnEntry else callEntry), e_value = ev_Value elem,
                   e_id = ev_Id elem, e_time = - 1\<rparr>) events"

section \<open>The linked list\<close>

record 'v node =
  n_value :: "'v option"
  n_match :: "nat option"
  n_id :: nat
  n_next :: "nat option"
  n_prev :: "nat option"

type_synonym 'v heap = "nat \<Rightarrow> 'v node"

definition insertBefore :: "'v heap \<Rightarrow> nat \<Rightarrow> nat option \<Rightarrow> 'v heap" where
  "insertBefore h n mark =
     (case mark of
        None \<Rightarrow> h
      | Some m \<Rightarrow>
          let beforeMark = n_prev (h m);
              h = h(m := (h m)\<lparr>n_prev := Some n\<rparr>);
              h = h(n := (h n)\<lparr>n_next := Some m\<rparr>)
          in case beforeMark of
               None \<Rightarrow> h
             | Some b \<Rightarrow> (let h = h(n := (h n)\<lparr>n_prev := Some b\<rparr>) in h(b := (h b)\<lparr>n_next := Some n\<rparr>)))"

partial_function (option) node_length :: "'v heap \<Rightarrow> nat option \<Rightarrow> nat \<Rightarrow> nat option" where
  "node_length h n l = (case n of None \<Rightarrow> Some l | Some a \<Rightarrow> node_length h (n_next (h a)) (Suc l))"

fun link_entries :: "'v entry list \<Rightarrow> nat \<Rightarrow> 'v heap \<Rightarrow> nat option \<Rightarrow> (nat \<rightharpoonup> nat) \<Rightarrow> 'v heap \<times> nat option" where
  "link_entries entries 0 h root match = (h, root)"
| "link_entries entries (Suc i) h root match =
     (let elem = entries ! i
      in if e_kind elem = returnEntry
         then let h = h(i := \<lparr>n_value = Some (e_value elem), n_match = None, n_id = e_id elem, n_next = None, n_prev = None\<rparr>);
                  match = match(e_id elem \<mapsto> i)
              in link_entries entries i (insertBefore h i root) (Some i) match
         else let h = h(i := \<lparr>n_value = Some (e_value elem), n_match = match (e_id elem), n_id = e_id elem, n_next = None, n_prev = None\<rparr>)
              in link_entries entries i (insertBefore h i root) (Some i) match)"

definition makeLinkedEntries :: "'v heap \<Rightarrow> 'v entry list \<Rightarrow> 'v heap \<times> nat option" where
  "makeLinkedEntries h entries = link_entries entries (length entries) h None Map.empty"

definition lift :: "'v heap \<Rightarrow> nat \<Rightarrow> 'v heap result" where
  "lift h entry =
     bindR (panic_unless (n_prev (h entry))) (\<lambda>p.
       let h = h(p := (h p)\<lparr>n_next := n_next (h entry)\<rparr>)
       in bindR (panic_unless (n_next (h entry))) (\<lambda>nx.
            let h = h(nx := (h nx)\<lparr>n_prev := n_prev (h entry)\<rparr>)
            in bindR (panic_unless (n_match (h entry))) (\<lambda>match.
               bindR (panic_unless (n_prev (h match))) (\<lambda>mp.
                 let h = h(mp := (h mp)\<lparr>n_next := n_next (h match)\<rparr>)
                 in case n_next (h match) of
                      None \<Rightarrow> Inr h
                    | Some mn \<Rightarrow> Inr (h(mn := (h mn)\<lparr>n_prev := n_prev (h match)\<rparr>))))))"

definition unlift :: "'v heap \<Rightarrow> nat \<Rightarrow> 'v heap result" where
  "unlift h entry =
     bindR (panic_unless (n_match (h entry))) (\<lambda>match.
     bindR (panic_unless (n_prev (h match))) (\<lambda>mp.
       let h = h(mp := (h mp)\<lparr>n_next := Some match\<rparr>);
           h = (case n_next (h match) of None \<Rightarrow> h | Some mn \<Rightarrow> h(mn := (h mn)\<lparr>n_prev := Some match\<rparr>))
       in bindR (panic_unless (n_prev (h entry))) (\<lambda>p.
            let h = h(p := (h p)\<lparr>n_next := Some entry\<rparr>)
            in bindR (panic_unless (n_next (h entry))) (\<lambda>nx.
                 Inr (h(nx := (h nx)\<lparr>n_prev := Some entry\<rparr>))))))"

section \<open>The search\<close>

record 's cacheEntry =
  ce_linearized :: bitset
  ce_state :: 's

definition cacheContains :: "('s, 'v) Model \<Rightarrow> (u64 \<Rightarrow> 's cacheEntry list) \<Rightarrow> 's cacheEntry \<Rightarrow> bool" where
  "cacheContains model cache entry =
     list_ex (\<lambda>elem. bs_equals (ce_linearized entry) (ce_linearized elem) \<and> md_Equal model (ce_state entry) (ce_state elem))
       (cache (bs_hash (ce_linearized entry)))"

text \<open>The local variables of \<open>checkSingle\<close>, and one turn of its loop: an answer, or the variables after it.\<close>

record ('s, 'v) search =
  s_heap :: "'v heap"
  s_entry :: "nat option"
  s_state :: 's
  s_linearized :: bitset
  s_cache :: "u64 \<Rightarrow> 's cacheEntry list"
  s_calls :: "(nat \<times> 's) list"

definition turn :: "('s, 'v) Model \<Rightarrow> nat \<Rightarrow> ('s, 'v) search \<Rightarrow> (bool + ('s, 'v) search) result" where
  "turn model headEntry st =
     bindR (panic_unless (s_entry st)) (\<lambda>entry.
       let h = s_heap st
       in case n_match (h entry) of
            Some matching \<Rightarrow>
              bindR (panic_unless (n_value (h entry))) (\<lambda>input.
              bindR (panic_unless (n_value (h matching))) (\<lambda>output.
              bindR (md_Step model (s_state st) input output) (\<lambda>(ok, newState).
                if ok
                then bindR (bs_set (s_linearized st) (n_id (h entry))) (\<lambda>newLinearized.
                       let newCacheEntry = \<lparr>ce_linearized = newLinearized, ce_state = newState\<rparr>
                       in if \<not> cacheContains model (s_cache st) newCacheEntry
                          then let hash = bs_hash newLinearized;
                                   cache = (s_cache st)(hash := s_cache st hash @ [newCacheEntry]);
                                   calls = s_calls st @ [(entry, s_state st)]
                               in bindR (lift h entry) (\<lambda>h.
                                    Inr (Inr \<lparr>s_heap = h, s_entry = n_next (h headEntry), s_state = newState,
                                      s_linearized = newLinearized, s_cache = cache, s_calls = calls\<rparr>))
                          else Inr (Inr (st\<lparr>s_entry := n_next (h entry)\<rparr>)))
                else Inr (Inr (st\<lparr>s_entry := n_next (h entry)\<rparr>)))))
          | None \<Rightarrow>
              if s_calls st = [] then Inr (Inl False)
              else case last (s_calls st) of (entry, state) \<Rightarrow>
                bindR (bs_clear (s_linearized st) (n_id (h entry))) (\<lambda>linearized.
                bindR (unlift h entry) (\<lambda>h.
                  Inr (Inr \<lparr>s_heap = h, s_entry = n_next (h entry), s_state = state, s_linearized = linearized,
                    s_cache = s_cache st, s_calls = butlast (s_calls st)\<rparr>))))"

partial_function (option) checkSingle_loop ::
    "('s, 'v) Model \<Rightarrow> (nat \<Rightarrow> bool) \<Rightarrow> nat \<Rightarrow> nat \<Rightarrow> ('s, 'v) search \<Rightarrow> bool result option" where
  "checkSingle_loop model kill headEntry k st =
     (if n_next (s_heap st headEntry) = None then Some (Inr True)
      else if kill k then Some (Inr False)
      else (case turn model headEntry st of
              Inl e \<Rightarrow> Some (Inl e)
            | Inr (Inl b) \<Rightarrow> Some (Inr b)
            | Inr (Inr st') \<Rightarrow> checkSingle_loop model kill headEntry (Suc k) st'))"

text \<open>\<open>headEntry\<close> is the address of the node that \<open>checkSingle\<close> allocates.\<close>

definition checkSingle ::
    "('s, 'v) Model \<Rightarrow> (nat \<Rightarrow> bool) \<Rightarrow> nat \<Rightarrow> 'v heap \<Rightarrow> nat option \<Rightarrow> bool result option" where
  "checkSingle model kill headEntry h subhistory =
     (case node_length h subhistory 0 of
        None \<Rightarrow> None
      | Some len \<Rightarrow>
          let h = h(headEntry := \<lparr>n_value = None, n_match = None, n_id = 2 ^ 64 - 1, n_next = None, n_prev = None\<rparr>);
              h = insertBefore h headEntry subhistory
          in checkSingle_loop model kill headEntry 0
               \<lparr>s_heap = h, s_entry = subhistory, s_state = md_Init model, s_linearized = newBitset (len div 2),
                s_cache = (\<lambda>_. []), s_calls = []\<rparr>)"

section \<open>Checking a history\<close>

definition fillDefault :: "('s, 'v) client_model \<Rightarrow> ('s, 'v) Model" where
  "fillDefault model =
     \<lparr>md_Partition = (case cm_Partition model of None \<Rightarrow> NoPartition | Some f \<Rightarrow> f),
      md_PartitionEvent = (case cm_PartitionEvent model of None \<Rightarrow> NoPartitionEvent | Some f \<Rightarrow> f),
      md_Init = cm_Init model, md_Step = cm_Step model,
      md_Equal = (case cm_Equal model of None \<Rightarrow> ShallowEqual | Some f \<Rightarrow> f)\<rparr>"

text \<open>
  What the \<open>select\<close> of the collecting loop receives: the result of the goroutine of a partition, or the tick of the timer
  (which exists only for a positive timeout). The flag \<open>kill\<close> is set when the loop ends, so that the results it
  received were computed with the flag clear. An outcome \<open>None\<close> is a loop that still waits.
\<close>

datatype received = Result nat | Tick

fun collect :: "bool \<Rightarrow> nat \<Rightarrow> (nat \<Rightarrow> bool result option) \<Rightarrow> bool \<Rightarrow> nat \<Rightarrow> received list \<Rightarrow> bool result option" where
  "collect timer partitions results ok cnt [] = None"
| "collect timer partitions results ok cnt (Tick # evs) =
     (if timer then Some (Inr ok) else collect timer partitions results ok cnt evs)"
| "collect timer partitions results ok cnt (Result i # evs) =
     (case results i of
        None \<Rightarrow> None
      | Some (Inl e) \<Rightarrow> Some (Inl e)
      | Some (Inr result) \<Rightarrow>
          if \<not> (ok \<and> result) then Some (Inr False)
          else if partitions \<le> Suc cnt then Some (Inr True)
          else collect timer partitions results True (Suc cnt) evs)"

definition empty_heap :: "'v heap" where
  "empty_heap = (\<lambda>_. \<lparr>n_value = None, n_match = None, n_id = 0, n_next = None, n_prev = None\<rparr>)"

definition check_entries :: "('s, 'v) Model \<Rightarrow> 'v entry list \<Rightarrow> bool result option" where
  "check_entries model es = (case makeLinkedEntries empty_heap es of (h, l) \<Rightarrow> checkSingle model (\<lambda>_. False) (length es) h l)"

definition CheckOperationsTimeout :: "('s, 'v) client_model \<Rightarrow> 'v Operation list \<Rightarrow> int \<Rightarrow> received list \<Rightarrow> bool result option" where
  "CheckOperationsTimeout model history timeout evs =
     (let model = fillDefault model
      in case md_Partition model history of
           Inl e \<Rightarrow> Some (Inl e)
         | Inr partitions \<Rightarrow>
             collect (0 < timeout) (length partitions) (\<lambda>i. check_entries model (makeEntries (partitions ! i))) True 0 evs)"

definition CheckOperations :: "('s, 'v) client_model \<Rightarrow> 'v Operation list \<Rightarrow> received list \<Rightarrow> bool result option" where
  "CheckOperations model history evs = CheckOperationsTimeout model history 0 evs"

definition CheckEventsTimeout :: "('s, 'v) client_model \<Rightarrow> 'v Event list \<Rightarrow> int \<Rightarrow> received list \<Rightarrow> bool result option" where
  "CheckEventsTimeout model history timeout evs =
     (let model = fillDefault model
      in case md_PartitionEvent model history of
           Inl e \<Rightarrow> Some (Inl e)
         | Inr partitions \<Rightarrow>
             collect (0 < timeout) (length partitions) (\<lambda>i. check_entries model (convertEntries (renumber (partitions ! i)))) True 0 evs)"

definition CheckEvents :: "('s, 'v) client_model \<Rightarrow> 'v Event list \<Rightarrow> received list \<Rightarrow> bool result option" where
  "CheckEvents model history evs = CheckEventsTimeout model history 0 evs"

end
