(* ===== verification/LinStore.thy ===== *)
theory LinStore
  imports LinCheck
begin

unbundle bit_operations_syntax

text \<open>
  The data structures of the linearizability checker: a bitset as the set of its elements, and the doubly
  linked list in the store as a list of addresses. \<open>lift\<close> takes a call and its return out of the list and \<open>unlift\<close>
  gives back the store as it was before.
\<close>

section \<open>Bitsets as sets\<close>

definition bits_of :: "bitset \<Rightarrow> nat set" where
  "bits_of b = {i. i div 64 < length b \<and> bit (b ! (i div 64)) (i mod 64)}"

lemma newBitset_bits [simp]: "bits_of (newBitset n) = {}"
  by (simp add: bits_of_def newBitset_def)

lemma newBitset_room: "i < n \<Longrightarrow> i div 64 < length (newBitset n)"
  by (auto simp: newBitset_def)

lemma bit_single: "m < 64 \<Longrightarrow> bit (2 ^ m :: u64) i \<longleftrightarrow> i = m"
  by (auto simp: bit_simps)

lemma bs_set_ok:
  assumes "i div 64 < length b"
  shows "\<exists>b'. bs_set b i = Inr b' \<and> length b' = length b \<and> bits_of b' = insert i (bits_of b)"
proof -
  let ?b = "b[i div 64 := b ! (i div 64) OR push_bit (i mod 64) 1]"
  have "j \<in> bits_of ?b \<longleftrightarrow> j \<in> insert i (bits_of b)" for j
  proof (cases "j div 64 = i div 64")
    case True
    then have "j mod 64 = i mod 64 \<longleftrightarrow> j = i" by (metis div_mult_mod_eq)
    then show ?thesis using assms True by (auto simp: bits_of_def bit_or_iff bit_single)
  next
    case False
    then show ?thesis using assms by (auto simp: bits_of_def)
  qed
  then show ?thesis using assms by (auto simp: bs_set_def bitsetIndex_def)
qed

lemma bs_clear_ok:
  assumes "i div 64 < length b"
  shows "\<exists>b'. bs_clear b i = Inr b' \<and> length b' = length b \<and> bits_of b' = bits_of b - {i}"
proof -
  let ?b = "b[i div 64 := b ! (i div 64) AND NOT (push_bit (i mod 64) 1)]"
  have "j \<in> bits_of ?b \<longleftrightarrow> j \<in> bits_of b - {i}" for j
  proof (cases "j div 64 = i div 64")
    case True
    then have "j mod 64 = i mod 64 \<longleftrightarrow> j = i" by (metis div_mult_mod_eq)
    then show ?thesis using assms True by (auto simp: bits_of_def bit_and_iff bit_not_iff bit_single)
  next
    case False
    then show ?thesis using assms by (auto simp: bits_of_def)
  qed
  then show ?thesis using assms by (auto simp: bs_clear_def bitsetIndex_def)
qed

lemma equals_from_iff: "length b = length c \<Longrightarrow> equals_from b c \<longleftrightarrow> b = c"
  by (induction b c rule: equals_from.induct) auto

lemma bits_of_inj:
  assumes "length b = length c" "bits_of b = bits_of c"
  shows "b = c"
proof (rule nth_equalityI [OF assms(1)])
  fix k assume k: "k < length b"
  show "b ! k = c ! k"
  proof (rule bit_word_eqI)
    fix i assume "i < LENGTH(64)"
    then have i: "i < 64" by simp
    have "k * 64 + i \<in> bits_of b \<longleftrightarrow> k * 64 + i \<in> bits_of c" using assms(2) by simp
    then show "bit (b ! k) i \<longleftrightarrow> bit (c ! k) i" using k i assms(1) by (simp add: bits_of_def)
  qed
qed

lemma bs_equals_iff: "length b = length c \<Longrightarrow> bs_equals b c \<longleftrightarrow> bits_of b = bits_of c"
  using bits_of_inj [of b c] by (auto simp: bs_equals_def equals_from_iff)

section \<open>The linked list\<close>

text \<open>The nodes \<open>xs\<close> are linked in this order, between the nodes \<open>p\<close> and \<open>q\<close>.\<close>

fun seg :: "'v heap \<Rightarrow> nat option \<Rightarrow> nat list \<Rightarrow> nat option \<Rightarrow> bool" where
  "seg h p [] q = True"
| "seg h p (x # xs) q = (n_prev (h x) = p \<and> n_next (h x) = (case xs of [] \<Rightarrow> q | y # _ \<Rightarrow> Some y) \<and> seg h (Some x) xs q)"

lemma seg_append:
  "seg h p (xs @ ys) q \<longleftrightarrow> seg h p xs (case ys of [] \<Rightarrow> q | y # _ \<Rightarrow> Some y) \<and> seg h (if xs = [] then p else Some (last xs)) ys q"
  by (induction h p xs q rule: seg.induct) (auto split: list.splits)

lemma seg_upd [simp]: "x \<notin> set xs \<Longrightarrow> seg (h(x := n)) p xs q = seg h p xs q"
  by (induction h p xs q rule: seg.induct) auto

lemma seg_cong: "(\<And>x. x \<in> set xs \<Longrightarrow> n_prev (h x) = n_prev (h' x) \<and> n_next (h x) = n_next (h' x)) \<Longrightarrow> seg h p xs q = seg h' p xs q"
  by (induction xs arbitrary: p) auto

lemma seg_join:
  assumes "seg h None A (Some p)" "n_prev (h p) = (if A = [] then None else Some (last A))" "n_next (h p) = Some (hd bs)" "bs \<noteq> []"
    "seg h (Some p) bs (case cs of [] \<Rightarrow> None | c # _ \<Rightarrow> Some c)" "seg h (Some (last bs)) cs None"
  shows "seg h None (A @ [p] @ bs @ cs) None"
proof -
  have "seg h (Some p) (bs @ cs) None" using assms(4-6) by (simp add: seg_append)
  moreover obtain b bs' where "bs = b # bs'" using assms(4) by (cases bs) auto
  ultimately have "seg h (if A = [] then None else Some (last A)) (p # bs @ cs) None" using assms(2,3) by simp
  then show ?thesis using assms(1) by (simp add: seg_append)
qed

lemma seg_last: "seg h p xs q \<Longrightarrow> xs \<noteq> [] \<Longrightarrow> n_next (h (last xs)) = q"
  by (induction h p xs q rule: seg.induct) (auto split: list.splits)

lemma seg_retarget:
  "seg h p xs q \<Longrightarrow> xs \<noteq> [] \<Longrightarrow> distinct xs \<Longrightarrow>
   (\<And>x. x \<in> set xs \<Longrightarrow> n_prev (h' x) = (if x = hd xs then p' else n_prev (h x)) \<and> n_next (h' x) = (if x = last xs then q' else n_next (h x))) \<Longrightarrow>
   seg h' p' xs q'"
proof (induction xs arbitrary: p p')
  case (Cons b bs)
  show ?case
  proof (cases bs)
    case Nil
    then show ?thesis using Cons.prems(4) [of b] by simp
  next
    case bs: (Cons c cs)
    have "seg h' (Some b) bs q'"
    proof (rule Cons.IH)
      show "seg h (Some b) bs q" "bs \<noteq> []" "distinct bs" using Cons.prems bs by simp_all
      fix x assume x: "x \<in> set bs"
      then have "x \<noteq> b" using Cons.prems(3) by auto
      then show "n_prev (h' x) = (if x = hd bs then Some b else n_prev (h x)) \<and> n_next (h' x) = (if x = last bs then q' else n_next (h x))"
        using Cons.prems(1) Cons.prems(4) [of x] x bs by auto
    qed
    moreover have "b \<noteq> last bs" using Cons.prems(3) bs by (metis distinct.simps(2) last_in_set list.distinct(1))
    ultimately show ?thesis using Cons.prems(1) Cons.prems(4) [of b] bs by simp
  qed
qed simp

text \<open>What a lift keeps: everything but the links.\<close>

definition same_nodes :: "'v heap \<Rightarrow> 'v heap \<Rightarrow> bool" where
  "same_nodes h h' \<longleftrightarrow> (\<forall>x. n_value (h' x) = n_value (h x) \<and> n_match (h' x) = n_match (h x) \<and> n_id (h' x) = n_id (h x))"

definition lifted :: "'v heap \<Rightarrow> nat \<Rightarrow> nat list \<Rightarrow> 'v heap \<Rightarrow> bool" where
  "lifted h e xs h' \<longleftrightarrow> lift h e = Inr h' \<and> unlift h' e = Inr h \<and> seg h' None xs None \<and> same_nodes h h'"

lemma lift_adjacent:
  assumes "seg h None (A @ [p, e, m] @ cs) None" "distinct (A @ [p, e, m] @ cs)" "n_match (h e) = Some m"
  shows "\<exists>h'. lifted h e (A @ [p] @ cs) h'"
proof -
  have links: "n_prev (h e) = Some p" "n_next (h e) = Some m" "n_next (h p) = Some e" "n_prev (h m) = Some e"
    "n_next (h m) = (case cs of [] \<Rightarrow> None | c # _ \<Rightarrow> Some c)" "seg h None A (Some p)" "n_prev (h p) = (if A = [] then None else Some (last A))"
    "seg h (Some m) cs None" using assms(1) by (simp_all add: seg_append)
  have ne: "p \<noteq> e" "p \<noteq> m" "e \<noteq> m" "e \<noteq> p" "m \<noteq> p" "m \<noteq> e" "p \<notin> set A" "m \<notin> set A" "m \<notin> set cs" "p \<notin> set cs" using assms(2) by auto
  show ?thesis
  proof (cases cs)
    case Nil
    let ?h = "h(p := (h p)\<lparr>n_next := None\<rparr>, m := (h m)\<lparr>n_prev := Some p\<rparr>)"
    have "lift h e = Inr ?h" using links ne assms(3) Nil by (simp add: lift_def Let_def fun_eq_iff)
    moreover have "unlift ?h e = Inr h"
      using links ne assms(3) Nil by (simp add: unlift_def Let_def fun_eq_iff)
    moreover have "seg ?h None (A @ [p] @ cs) None" using links(6,7) ne Nil by (simp add: seg_append)
    ultimately show ?thesis unfolding lifted_def same_nodes_def by (intro exI [of _ ?h]) simp
  next
    case (Cons c cs')
    let ?h = "h(p := (h p)\<lparr>n_next := Some c\<rparr>, m := (h m)\<lparr>n_prev := Some p\<rparr>, c := (h c)\<lparr>n_prev := Some p\<rparr>)"
    have c: "c \<noteq> p" "c \<noteq> m" "c \<noteq> e" "p \<noteq> c" "m \<noteq> c" "e \<noteq> c" "c \<notin> set A" "c \<notin> set cs'" "n_prev (h c) = Some m"
      using assms(2) links(8) Cons by auto
    have "lift h e = Inr ?h" using links ne c assms(3) Cons by (simp add: lift_def Let_def fun_eq_iff)
    moreover have "unlift ?h e = Inr h"
      using links ne c assms(3) Cons by (simp add: unlift_def Let_def fun_eq_iff)
    moreover have "seg ?h None (A @ [p] @ cs) None" using links(6-8) ne c Cons by (simp add: seg_append)
    ultimately show ?thesis unfolding lifted_def same_nodes_def by (intro exI [of _ ?h]) simp
  qed
qed

lemma lift_apart:
  assumes "seg h None (A @ [p, e] @ bs @ m # cs) None" "distinct (A @ [p, e] @ bs @ m # cs)" "n_match (h e) = Some m" "bs \<noteq> []"
  shows "\<exists>h'. lifted h e (A @ [p] @ bs @ cs) h'"
proof -
  obtain b bs' where b: "bs = b # bs'" using assms(4) by (cases bs) auto
  obtain bs'' l where l: "bs = bs'' @ [l]" using assms(4) by (cases bs rule: rev_cases) auto
  define h2 where "h2 = h(p := (h p)\<lparr>n_next := Some b\<rparr>, b := (h b)\<lparr>n_prev := Some p\<rparr>)"
  have "seg h None (A @ [p, e] @ (b # bs') @ m # cs) None" "seg h None (A @ [p, e] @ (bs'' @ [l]) @ m # cs) None" using assms(1) b l by simp_all
  note sb = this(1) and sl = this(2)
  have links: "n_prev (h e) = Some p" "n_next (h e) = Some b" "n_next (h p) = Some e" "n_prev (h b) = Some e"
    using sb by (simp_all add: seg_append)
  have links2: "n_prev (h m) = Some l" "n_next (h l) = Some m" "n_next (h m) = (case cs of [] \<Rightarrow> None | c # _ \<Rightarrow> Some c)"
    using sl by (simp_all add: seg_append)
  note links = links links2
  have parts: "seg h None A (Some p)" "n_prev (h p) = (if A = [] then None else Some (last A))" "seg h (Some e) bs (Some m)" "seg h (Some m) cs None"
    using assms(1) b by (simp_all add: seg_append split: list.splits)
  have dist: "distinct bs" "p \<notin> set bs" "p \<notin> set A" "set A \<inter> set bs = {}" "set bs \<inter> set cs = {}" "p \<notin> set cs" "set A \<inter> set cs = {}" "distinct cs"
    using assms(2) by auto
  have "hd bs = b" "b \<in> set bs" using b by simp_all
  moreover have "last bs = l" "l \<in> set bs" using l by simp_all
  ultimately have hl: "hd bs = b" "last bs = l" "b \<in> set bs" "l \<in> set bs" by simp_all
  have ne: "p \<noteq> e" "p \<noteq> b" "p \<noteq> m" "p \<noteq> l" "e \<noteq> b" "e \<noteq> m" "e \<noteq> l" "b \<noteq> m" "l \<noteq> m" using assms(2) hl(3,4) by auto
  have notA: "b \<notin> set A" "l \<notin> set A" using dist(4) hl(3,4) by blast+
  show ?thesis
  proof (cases cs)
    case Nil
    let ?h = "h2(l := (h2 l)\<lparr>n_next := None\<rparr>)"
    have "lift h e = Inr ?h" using links ne ne [symmetric] assms(3) Nil by (cases "b = l") (simp_all add: h2_def lift_def fun_eq_iff Let_def)
    moreover have "unlift ?h e = Inr h" using links ne ne [symmetric] assms(3) Nil by (cases "b = l") (simp_all add: h2_def unlift_def fun_eq_iff Let_def)
    moreover have "same_nodes h ?h" by (simp add: h2_def same_nodes_def)
    moreover have "seg ?h None (A @ [p] @ bs @ cs) None"
    proof -
      have "seg ?h (Some p) bs None"
        by (rule seg_retarget [OF parts(3) assms(4) dist(1)]) (use hl dist(2) in \<open>auto simp: h2_def\<close>)
      moreover have "seg ?h None A (Some p)" using parts(1) dist(3) notA by (simp add: h2_def)
      ultimately show ?thesis
        by (intro seg_join) (use parts(2) assms(4) hl Nil ne in \<open>simp_all add: h2_def\<close>)
    qed
    ultimately show ?thesis unfolding lifted_def by blast
  next
    case (Cons c cs')
    let ?h = "h2(l := (h2 l)\<lparr>n_next := Some c\<rparr>, c := (h c)\<lparr>n_prev := Some l\<rparr>)"
    have c: "c \<noteq> p" "c \<noteq> e" "c \<noteq> b" "c \<noteq> l" "c \<noteq> m" using assms(2) hl(3,4) Cons by auto
    have "n_prev (h c) = Some m" using assms(1) Cons by (simp add: seg_append)
    note l2 = links this ne ne [symmetric] c c [symmetric] assms(3) Cons
    have "lift h e = Inr ?h" using l2 by (cases "b = l") (simp_all add: h2_def lift_def fun_eq_iff Let_def)
    moreover have "unlift ?h e = Inr h" using l2 by (cases "b = l") (simp_all add: h2_def unlift_def fun_eq_iff Let_def)
    moreover have "same_nodes h ?h" by (simp add: h2_def same_nodes_def)
    moreover have "seg ?h None (A @ [p] @ bs @ cs) None"
    proof -
      have "seg ?h (Some p) bs (Some c)"
        by (rule seg_retarget [OF parts(3) assms(4) dist(1)]) (use hl dist(2,5) Cons in \<open>auto simp: h2_def\<close>)
      moreover have "seg ?h None A (Some p)" using parts(1) dist(3,7) notA Cons by (simp add: h2_def)
      moreover have "seg ?h (Some l) cs None"
        by (rule seg_retarget [OF parts(4)]) (use dist hl Cons parts(4) seg_last [OF parts(4)] in \<open>auto simp: h2_def\<close>)
      ultimately show ?thesis
        by (intro seg_join) (use parts(2) assms(4) hl Cons ne c in \<open>simp_all add: h2_def\<close>)
    qed
    ultimately show ?thesis unfolding lifted_def by blast
  qed
qed

lemma lift_ok:
  assumes "seg h None (A @ [p, e] @ bs @ m # cs) None" "distinct (A @ [p, e] @ bs @ m # cs)" "n_match (h e) = Some m"
  shows "\<exists>h'. lifted h e (A @ [p] @ bs @ cs) h'"
  using lift_adjacent [of h A p e m cs] lift_apart [of h A p e bs m cs] assms by (cases "bs = []") simp_all

section \<open>Building the list\<close>

lemma same_nodes_refl [simp]: "same_nodes h h"
  by (simp add: same_nodes_def)

lemma node_length_seg: "seg h p xs None \<Longrightarrow> node_length h (case xs of [] \<Rightarrow> None | x # _ \<Rightarrow> Some x) l = Some (l + length xs)"
proof (induction xs arbitrary: p l)
  case Nil
  then show ?case by (simp add: node_length.simps)
next
  case (Cons x xs)
  then show ?case by (subst node_length.simps) (auto split: list.splits)
qed

lemma insertBefore_seg:
  assumes "seg h None xs None" "n \<notin> set xs" "distinct xs" "n_prev (h n) = None" "n_next (h n) = None"
  shows "seg (insertBefore h n (case xs of [] \<Rightarrow> None | x # _ \<Rightarrow> Some x)) None (n # xs) None" "same_nodes h (insertBefore h n (case xs of [] \<Rightarrow> None | x # _ \<Rightarrow> Some x))"
proof -
  have "seg (insertBefore h n (case xs of [] \<Rightarrow> None | x # _ \<Rightarrow> Some x)) None (n # xs) None \<and>
      same_nodes h (insertBefore h n (case xs of [] \<Rightarrow> None | x # _ \<Rightarrow> Some x))"
  proof (cases xs)
    case Nil
    then show ?thesis using assms by (simp add: insertBefore_def)
  next
    case (Cons x ys)
    then have "n_prev (h x) = None" "x \<notin> set ys" "n \<noteq> x" "n \<notin> set ys" using assms by auto
    then show ?thesis using assms Cons by (simp add: insertBefore_def same_nodes_def)
  qed
  then show "seg (insertBefore h n (case xs of [] \<Rightarrow> None | x # _ \<Rightarrow> Some x)) None (n # xs) None"
    "same_nodes h (insertBefore h n (case xs of [] \<Rightarrow> None | x # _ \<Rightarrow> Some x))" by blast+
qed

text \<open>The nodes of the entries from index \<open>i\<close> on: value, id, and for a call the return with the same id.\<close>

definition return_of :: "'v entry list \<Rightarrow> nat \<Rightarrow> nat \<rightharpoonup> nat" where
  "return_of es i k = find (\<lambda>j. e_kind (es ! j) = returnEntry \<and> e_id (es ! j) = k) [i..<length es]"

definition node_ok :: "'v entry list \<Rightarrow> 'v heap \<Rightarrow> nat \<Rightarrow> bool" where
  "node_ok es h j \<longleftrightarrow> n_value (h j) = Some (e_value (es ! j)) \<and> n_id (h j) = e_id (es ! j) \<and>
     n_match (h j) = (if e_kind (es ! j) = returnEntry then None else return_of es (Suc j) (e_id (es ! j)))"

lemma node_ok_same: "same_nodes h h' \<Longrightarrow> node_ok es h' j = node_ok es h j"
  by (simp add: node_ok_def same_nodes_def)

lemma return_of_step:
  assumes "i < length es"
  shows "return_of es i = (if e_kind (es ! i) = returnEntry then (return_of es (Suc i))(e_id (es ! i) \<mapsto> i) else return_of es (Suc i))"
proof -
  have "[i..<length es] = i # [Suc i..<length es]" using assms by (simp add: upt_conv_Cons)
  then show ?thesis by (auto simp: return_of_def fun_eq_iff)
qed

lemma link_entries_ok:
  "i \<le> length es \<Longrightarrow> seg h None [i..<length es] None \<Longrightarrow> (\<forall>j \<in> {i..<length es}. node_ok es h j) \<Longrightarrow>
   root = (if i < length es then Some i else None) \<Longrightarrow> match = return_of es i \<Longrightarrow>
   \<exists>h'. link_entries es i h root match = (h', if es = [] then None else Some 0) \<and> seg h' None [0..<length es] None \<and>
     (\<forall>j < length es. node_ok es h' j)"
proof (induction i arbitrary: h root match)
  case 0
  then show ?case by auto
next
  case (Suc i)
  have i: "i < length es" using Suc.prems(1) by simp
  let ?n = "\<lparr>n_value = Some (e_value (es ! i)), n_match = (if e_kind (es ! i) = returnEntry then None else match (e_id (es ! i))),
    n_id = e_id (es ! i), n_next = None, n_prev = None\<rparr>"
  define h1 where "h1 = h(i := ?n)"
  define h2 where "h2 = insertBefore h1 i root"
  have root: "root = (case [Suc i..<length es] of [] \<Rightarrow> None | x # _ \<Rightarrow> Some x)"
    using Suc.prems(4) by (simp add: upt_conv_Cons)
  have "seg h1 None [Suc i..<length es] None" using Suc.prems(2) by (simp add: h1_def)
  from insertBefore_seg [OF this, of i] have s: "seg h2 None (i # [Suc i..<length es]) None" "same_nodes h1 h2"
    unfolding h2_def root by (simp_all add: h1_def)
  have "node_ok es h1 j" if "j \<in> {i..<length es}" for j
  proof (cases "j = i")
    case True
    then show ?thesis using Suc.prems(5) by (simp add: h1_def node_ok_def)
  next
    case False
    then show ?thesis using Suc.prems(3) that by (simp add: h1_def node_ok_def)
  qed
  then have ok: "\<forall>j \<in> {i..<length es}. node_ok es h2 j" using node_ok_same [OF s(2)] by blast
  have seg2: "seg h2 None [i..<length es] None" using s(1) i by (simp add: upt_conv_Cons)
  have "link_entries es (Suc i) h root match = link_entries es i h2 (Some i) (return_of es i)"
    using Suc.prems(5) by (simp add: return_of_step [OF i] h2_def h1_def Let_def)
  then show ?case using Suc.IH [OF _ seg2 ok, of "Some i" "return_of es i"] i by simp
qed

lemma makeLinkedEntries_ok:
  "\<exists>h'. makeLinkedEntries h es = (h', if es = [] then None else Some 0) \<and> seg h' None [0..<length es] None \<and> (\<forall>j < length es. node_ok es h' j)"
  unfolding makeLinkedEntries_def by (rule link_entries_ok) (simp_all add: return_of_def fun_eq_iff)

end
