(* ===== verification/LinSearch.thy ===== *)
theory LinSearch
  imports LinStore
begin

text \<open>
  The search of \<open>checkSingle\<close> decides linearizability. A configuration is the set of operations that are linearized and the
  state they lead to; it \<open>completes\<close> when the other operations can follow in an order that respects real time.
  The invariant of the loop: the calls on the stack are a path of configurations, every cached configuration is
  on this path or does not complete, and the operations before the current entry have been tried. The loop
  ends because every turn caches a new configuration, shortens the stack or moves on in the list.
\<close>

section \<open>Histories and linearizations\<close>

definition cpos :: "'v entry list \<Rightarrow> nat \<Rightarrow> nat" where
  "cpos es k = hd (filter (\<lambda>j. e_kind (es ! j) = callEntry \<and> e_id (es ! j) = k) [0..<length es])"

definition rpos :: "'v entry list \<Rightarrow> nat \<Rightarrow> nat" where
  "rpos es k = hd (filter (\<lambda>j. e_kind (es ! j) = returnEntry \<and> e_id (es ! j) = k) [0..<length es])"

text \<open>A complete history of \<open>n\<close> operations: each has a call and, after it, a return.\<close>

definition complete :: "'v entry list \<Rightarrow> nat \<Rightarrow> bool" where
  "complete es n \<longleftrightarrow> length es = 2 * n \<and> (\<forall>j < length es. e_id (es ! j) < n) \<and>
     (\<forall>k < n. \<exists>c r. c < r \<and> r < length es \<and> e_kind (es ! c) = callEntry \<and> e_kind (es ! r) = returnEntry \<and>
        e_id (es ! c) = k \<and> e_id (es ! r) = k \<and> (\<forall>j < length es. e_id (es ! j) = k \<longrightarrow> j = c \<or> j = r))"

definition op_step :: "('s, 'v) Model \<Rightarrow> 'v entry list \<Rightarrow> 's \<Rightarrow> nat \<Rightarrow> (bool \<times> 's) result" where
  "op_step model es s k = md_Step model s (e_value (es ! cpos es k)) (e_value (es ! rpos es k))"

text \<open>An order of operations: nobody comes before an operation that had returned before its call.\<close>

fun in_order :: "'v entry list \<Rightarrow> nat list \<Rightarrow> bool" where
  "in_order es [] = True"
| "in_order es (k # ks) = ((\<forall>j \<in> set ks. \<not> rpos es j < cpos es k) \<and> in_order es ks)"

fun run_ops :: "('s, 'v) Model \<Rightarrow> 'v entry list \<Rightarrow> 's \<Rightarrow> nat list \<Rightarrow> bool" where
  "run_ops model es s [] = True"
| "run_ops model es s (k # ks) = (case op_step model es s k of Inr (True, s') \<Rightarrow> run_ops model es s' ks | _ \<Rightarrow> False)"

definition linearizable :: "('s, 'v) Model \<Rightarrow> 'v entry list \<Rightarrow> nat \<Rightarrow> bool" where
  "linearizable model es n \<longleftrightarrow> (\<exists>ks. distinct ks \<and> set ks = {..<n} \<and> in_order es ks \<and> run_ops model es (md_Init model) ks)"

definition enabled :: "'v entry list \<Rightarrow> nat \<Rightarrow> nat set \<Rightarrow> nat \<Rightarrow> bool" where
  "enabled es n S k \<longleftrightarrow> k < n \<and> k \<notin> S \<and> (\<forall>j < n. j \<notin> S \<longrightarrow> \<not> rpos es j < cpos es k)"

inductive completes :: "('s, 'v) Model \<Rightarrow> 'v entry list \<Rightarrow> nat \<Rightarrow> nat set \<Rightarrow> 's \<Rightarrow> bool" for model es n where
  all: "completes model es n {..<n} s"
| step: "enabled es n S k \<Longrightarrow> op_step model es s k = Inr (True, s') \<Longrightarrow> completes model es n (insert k S) s' \<Longrightarrow> completes model es n S s"

lemma complete_pos:
  assumes "complete es n" "k < n"
  shows "cpos es k < rpos es k" "rpos es k < length es" "e_kind (es ! cpos es k) = callEntry" "e_kind (es ! rpos es k) = returnEntry"
    "e_id (es ! cpos es k) = k" "e_id (es ! rpos es k) = k" "\<And>j. j < length es \<Longrightarrow> e_id (es ! j) = k \<Longrightarrow> j = cpos es k \<or> j = rpos es k"
proof -
  obtain c r where cr: "c < r" "r < length es" "e_kind (es ! c) = callEntry" "e_kind (es ! r) = returnEntry" "e_id (es ! c) = k" "e_id (es ! r) = k"
    "\<And>j. j < length es \<Longrightarrow> e_id (es ! j) = k \<Longrightarrow> j = c \<or> j = r" using assms unfolding complete_def by blast
  let ?C = "filter (\<lambda>j. e_kind (es ! j) = callEntry \<and> e_id (es ! j) = k) [0..<length es]"
    and ?R = "filter (\<lambda>j. e_kind (es ! j) = returnEntry \<and> e_id (es ! j) = k) [0..<length es]"
  have "set ?C = {c}" using cr by (auto; metis entryKind.distinct(1))
  moreover have "set ?R = {r}" using cr by (auto; metis entryKind.distinct(1))
  moreover have hd: "hd xs = y" if "set xs = {y}" for xs and y :: nat using that by (cases xs) auto
  ultimately have "cpos es k = c" "rpos es k = r" unfolding cpos_def rpos_def by (blast intro: hd)+
  with cr show "cpos es k < rpos es k" "rpos es k < length es" "e_kind (es ! cpos es k) = callEntry" "e_kind (es ! rpos es k) = returnEntry"
    "e_id (es ! cpos es k) = k" "e_id (es ! rpos es k) = k" "\<And>j. j < length es \<Longrightarrow> e_id (es ! j) = k \<Longrightarrow> j = cpos es k \<or> j = rpos es k"
    by auto
qed

lemma completes_iff:
  assumes "complete es n"
  shows "S \<subseteq> {..<n} \<Longrightarrow> completes model es n S s \<longleftrightarrow> (\<exists>ks. distinct ks \<and> set ks = {..<n} - S \<and> in_order es ks \<and> run_ops model es s ks)"
proof
  show "completes model es n S s \<Longrightarrow> \<exists>ks. distinct ks \<and> set ks = {..<n} - S \<and> in_order es ks \<and> run_ops model es s ks"
  proof (induction rule: completes.induct)
    case (all s)
    then show ?case by (intro exI [of _ "[]"]) simp
  next
    case (step S k s s')
    then obtain ks where "distinct ks" "set ks = {..<n} - insert k S" "in_order es ks" "run_ops model es s' ks" by blast
    with step.hyps show ?case by (intro exI [of _ "k # ks"]) (auto simp: enabled_def)
  qed
next
  assume "S \<subseteq> {..<n}" "\<exists>ks. distinct ks \<and> set ks = {..<n} - S \<and> in_order es ks \<and> run_ops model es s ks"
  then obtain ks where "distinct ks" "set ks = {..<n} - S" "in_order es ks" "run_ops model es s ks" "S \<subseteq> {..<n}" by blast
  then show "completes model es n S s"
  proof (induction ks arbitrary: S s)
    case Nil
    then have "S = {..<n}" by auto
    then show ?case by (simp add: completes.all)
  next
    case (Cons k ks)
    obtain s' where s': "op_step model es s k = Inr (True, s')" "run_ops model es s' ks"
      using Cons.prems(4) by (auto split: sum.splits prod.splits bool.splits)
    have k: "k < n" "k \<notin> S" "set ks = {..<n} - insert k S" using Cons.prems(1,2) by auto
    have "enabled es n S k" unfolding enabled_def
    proof (intro conjI allI impI k(1,2))
      fix j assume "j < n" "j \<notin> S"
      then have "j = k \<or> j \<in> set ks" using k(3) by auto
      then show "\<not> rpos es j < cpos es k" using Cons.prems(3) complete_pos(1) [OF assms k(1)] by auto
    qed
    moreover have "completes model es n (insert k S) s'" using Cons.IH [of "insert k S" s'] Cons.prems s' k by auto
    ultimately show ?case using s'(1) by (blast intro: completes.step)
  qed
qed

lemma linearizable_completes: "complete es n \<Longrightarrow> linearizable model es n \<longleftrightarrow> completes model es n {} (md_Init model)"
  using completes_iff [of es n "{}" model "md_Init model"] by (simp add: linearizable_def)


section \<open>The list of the operations that are left\<close>

definition left_over :: "'v entry list \<Rightarrow> nat set \<Rightarrow> nat list" where
  "left_over es S = filter (\<lambda>j. e_id (es ! j) \<notin> S) [0..<length es]"

definition heap_ok :: "nat \<Rightarrow> 'v entry list \<Rightarrow> nat set \<Rightarrow> 'v heap \<Rightarrow> bool" where
  "heap_ok H es S h \<longleftrightarrow> length es \<le> H \<and> seg h None (H # left_over es S) None \<and> (\<forall>j < length es. node_ok es h j)"

lemma left_over_set [simp]: "j \<in> set (left_over es S) \<longleftrightarrow> j < length es \<and> e_id (es ! j) \<notin> S"
  by (auto simp: left_over_def)

lemma left_over_distinct [simp]: "distinct (left_over es S)"
  by (simp add: left_over_def)

lemma left_over_sorted: "sorted_wrt (<) (left_over es S)"
  by (simp add: left_over_def sorted_wrt_filter)

lemma complete_id: "complete es n \<Longrightarrow> j < length es \<Longrightarrow> e_id (es ! j) < n"
  by (simp add: complete_def)

lemma call_pos: "complete es n \<Longrightarrow> j < length es \<Longrightarrow> e_kind (es ! j) = callEntry \<Longrightarrow> j = cpos es (e_id (es ! j))"
  using complete_pos(4) [of es n "e_id (es ! j)"] complete_pos(7) [of es n "e_id (es ! j)" j] complete_id by force

lemma return_pos: "complete es n \<Longrightarrow> j < length es \<Longrightarrow> e_kind (es ! j) = returnEntry \<Longrightarrow> j = rpos es (e_id (es ! j))"
  using complete_pos(3) [of es n "e_id (es ! j)"] complete_pos(7) [of es n "e_id (es ! j)" j] complete_id by force

lemma left_over_pos:
  assumes "complete es n" "k < n" "k \<notin> S"
  shows "cpos es k \<in> set (left_over es S)" "rpos es k \<in> set (left_over es S)"
  using complete_pos [OF assms(1,2)] assms(3) by auto

lemma left_over_Nil: "complete es n \<Longrightarrow> S \<subseteq> {..<n} \<Longrightarrow> left_over es S = [] \<longleftrightarrow> S = {..<n}"
proof
  assume a: "complete es n" "S \<subseteq> {..<n}" "left_over es S = []"
  show "S = {..<n}"
  proof (rule ccontr)
    assume "S \<noteq> {..<n}"
    then obtain k where "k < n" "k \<notin> S" using a(2) by auto
    then show False using left_over_pos(1) [OF a(1)] a(3) by (metis empty_iff empty_set)
  qed
next
  assume "complete es n" "S = {..<n}"
  then show "left_over es S = []" by (auto simp: left_over_def filter_empty_conv complete_id)
qed

lemma node_call:
  assumes "complete es n" "k < n" "node_ok es h (cpos es k)"
  shows "n_match (h (cpos es k)) = Some (rpos es k)" "n_id (h (cpos es k)) = k" "n_value (h (cpos es k)) = Some (e_value (es ! cpos es k))"
proof -
  note p = complete_pos [OF assms(1,2)]
  have "return_of es (Suc (cpos es k)) k = Some (rpos es k)"
  proof (cases "return_of es (Suc (cpos es k)) k")
    case None
    then show ?thesis using p(1,2,4,6) unfolding return_of_def find_None_iff by force
  next
    case (Some y)
    then have "y < length es" "e_kind (es ! y) = returnEntry" "e_id (es ! y) = k"
      unfolding return_of_def find_Some_iff by (metis atLeastLessThan_iff nth_mem set_upt)+
    then show ?thesis using Some p(3) p(7) [of y] by auto
  qed
  then show "n_match (h (cpos es k)) = Some (rpos es k)" "n_id (h (cpos es k)) = k" "n_value (h (cpos es k)) = Some (e_value (es ! cpos es k))"
    using assms(3) p(3,5) by (simp_all add: node_ok_def)
qed

lemma node_match: "complete es n \<Longrightarrow> node_ok es h j \<Longrightarrow> j < length es \<Longrightarrow> n_match (h j) = None \<longleftrightarrow> e_kind (es ! j) = returnEntry"
  using node_call(1) [of es n "e_id (es ! j)" h] call_pos [of es n j] complete_id [of es n j]
  by (cases "e_kind (es ! j)") (auto simp: node_ok_def)

lemma left_over_split:
  assumes "complete es n" "k < n" "k \<notin> S"
  obtains A bs cs where "left_over es S = A @ cpos es k # bs @ rpos es k # cs" "left_over es (insert k S) = A @ bs @ cs"
proof -
  note p = complete_pos [OF assms(1,2)]
  obtain A rest where A: "left_over es S = A @ cpos es k # rest" using left_over_pos(1) [OF assms] by (meson split_list)
  have "rpos es k \<notin> set A" using left_over_sorted [of es S] p(1) unfolding A by (auto simp: sorted_wrt_append)
  then have "rpos es k \<in> set rest" using left_over_pos(2) [OF assms] p(1) unfolding A by auto
  then obtain bs cs where bs: "rest = bs @ rpos es k # cs" by (meson split_list)
  have "left_over es (insert k S) = filter (\<lambda>j. e_id (es ! j) \<noteq> k) (left_over es S)"
    by (auto simp: left_over_def intro: filter_cong)
  also have "\<dots> = filter (\<lambda>j. j \<noteq> cpos es k \<and> j \<noteq> rpos es k) (left_over es S)"
    by (rule filter_cong) (use p in auto)
  also have "\<dots> = A @ bs @ cs"
  proof -
    have "filter (\<lambda>j. j \<noteq> cpos es k \<and> j \<noteq> rpos es k) xs = xs" if "cpos es k \<notin> set xs" "rpos es k \<notin> set xs" for xs
      using that by (auto simp: filter_id_conv)
    then show ?thesis using left_over_distinct [of es S] unfolding A bs by simp
  qed
  finally show ?thesis using that A bs by blast
qed

lemma heap_lift:
  assumes "complete es n" "heap_ok H es S h" "k < n" "k \<notin> S"
  shows "\<exists>h'. lifted h (cpos es k) (H # left_over es (insert k S)) h' \<and> heap_ok H es (insert k S) h'"
proof -
  obtain A bs cs where s: "left_over es S = A @ cpos es k # bs @ rpos es k # cs" "left_over es (insert k S) = A @ bs @ cs"
    using left_over_split [OF assms(1,3,4)] .
  obtain A' p where A': "H # A = A' @ [p]" by (metis append_Nil list.distinct(1) rev_exhaust)
  have eq: "H # left_over es S = A' @ [p, cpos es k] @ bs @ rpos es k # cs" "H # left_over es (insert k S) = A' @ [p] @ bs @ cs"
    using A' s by simp_all
  have "distinct (H # left_over es S)" using assms(2) by (auto simp: heap_ok_def)
  then obtain h' where h': "lifted h (cpos es k) (H # left_over es (insert k S)) h'"
    using lift_ok [of h A' p "cpos es k" bs "rpos es k" cs] assms(2) node_call(1) [OF assms(1,3), of h] complete_pos(1,2) [OF assms(1,3)]
    unfolding heap_ok_def eq by fastforce
  then have "heap_ok H es (insert k S) h'" using assms(2) by (auto simp: heap_ok_def lifted_def node_ok_same)
  with h' show ?thesis by blast
qed

lemma seg_next: "seg h p (xs @ x # ys) q \<Longrightarrow> n_next (h x) = (case ys of [] \<Rightarrow> q | y # _ \<Rightarrow> Some y)"
  by (simp add: seg_append)


section \<open>The configurations of the search\<close>

definition decides :: "('s, 'v) Model \<Rightarrow> 'v entry list \<Rightarrow> nat \<Rightarrow> bool" where
  "decides model es n \<longleftrightarrow> complete es n \<and> md_Equal model = (=) \<and> (\<forall>s. \<forall>k < n. \<exists>r. op_step model es s k = Inr r)"

inductive_set configs :: "('s, 'v) Model \<Rightarrow> 'v entry list \<Rightarrow> nat \<Rightarrow> (nat set \<times> 's) set" for model es n where
  start: "({}, md_Init model) \<in> configs model es n"
| step: "(S, s) \<in> configs model es n \<Longrightarrow> k < n \<Longrightarrow> k \<notin> S \<Longrightarrow> op_step model es s k = Inr (True, s') \<Longrightarrow> (insert k S, s') \<in> configs model es n"

fun state_after :: "('s, 'v) Model \<Rightarrow> 'v entry list \<Rightarrow> nat list \<Rightarrow> 's" where
  "state_after model es [] = md_Init model"
| "state_after model es (k # ks) = (case op_step model es (state_after model es ks) k of Inr (_, s) \<Rightarrow> s | Inl _ \<Rightarrow> md_Init model)"

lemma finite_configs: "finite (configs model es n)"
proof -
  have "\<exists>ks. set ks \<subseteq> {..<n} \<and> distinct ks \<and> S = set ks \<and> s = state_after model es ks" if "(S, s) \<in> configs model es n" for S s
    using that
  proof (induction rule: configs.induct)
    case start
    then show ?case by (intro exI [of _ "[]"]) simp
  next
    case (step S s k s')
    then obtain ks where "set ks \<subseteq> {..<n}" "distinct ks" "S = set ks" "s = state_after model es ks" by auto
    with step.hyps show ?case by (intro exI [of _ "k # ks"]) auto
  qed
  then have "configs model es n \<subseteq> (\<lambda>ks. (set ks, state_after model es ks)) ` {ks. set ks \<subseteq> {..<n} \<and> distinct ks}" by fastforce
  then show ?thesis by (rule finite_subset) (simp add: finite_subset_distinct)
qed

text \<open>The operations with a call before \<open>pos\<close> lead nowhere.\<close>

definition tried :: "('s, 'v) Model \<Rightarrow> 'v entry list \<Rightarrow> nat \<Rightarrow> nat set \<Rightarrow> 's \<Rightarrow> nat \<Rightarrow> bool" where
  "tried model es n S s pos \<longleftrightarrow>
     (\<forall>k s'. enabled es n S k \<longrightarrow> cpos es k < pos \<longrightarrow> op_step model es s k = Inr (True, s') \<longrightarrow> \<not> completes model es n (insert k S) s')"

inductive stacked ::
    "('s, 'v) Model \<Rightarrow> 'v entry list \<Rightarrow> nat \<Rightarrow> nat \<Rightarrow> 'v heap \<Rightarrow> nat set \<Rightarrow> 's \<Rightarrow> (nat \<times> 's) list \<Rightarrow> (nat set \<times> 's) set \<Rightarrow> bool"
    for model es n H where
  bottom: "heap_ok H es {} h \<Longrightarrow> stacked model es n H h {} (md_Init model) [] {}"
| push: "stacked model es n H h S s calls C \<Longrightarrow> enabled es n S k \<Longrightarrow> op_step model es s k = Inr (True, s') \<Longrightarrow>
    tried model es n S s (cpos es k) \<Longrightarrow> lifted h (cpos es k) (H # left_over es (insert k S)) h' \<Longrightarrow> heap_ok H es (insert k S) h' \<Longrightarrow>
    stacked model es n H h' (insert k S) s' (calls @ [(cpos es k, s)]) (insert (insert k S, s') C)"

inductive_cases stacked_bottom: "stacked model es n H h S s [] C"
inductive_cases stacked_push: "stacked model es n H h S s (calls @ [c]) C"

lemma stacked_facts:
  assumes "stacked model es n H h S s calls C"
  shows "S \<subseteq> {..<n} \<and> heap_ok H es S h \<and> (S, s) \<in> configs model es n \<and> C \<subseteq> configs model es n \<and> (\<forall>c \<in> C. fst c \<subseteq> S) \<and>
    (completes model es n S s \<longrightarrow> completes model es n {} (md_Init model))"
  using assms
proof (induction rule: stacked.induct)
  case (push h S s calls C k s' h')
  then have k: "k < n" "k \<notin> S" by (auto simp: enabled_def)
  then have "(insert k S, s') \<in> configs model es n" using push by (blast intro: configs.step)
  moreover have "completes model es n (insert k S) s' \<Longrightarrow> completes model es n {} (md_Init model)"
    using completes.step [OF push.hyps(2,3)] push.IH by blast
  ultimately show ?case using push k by auto
qed (auto intro: configs.start)

lemma enabled_iff:
  assumes "complete es n" "S \<subseteq> {..<n}"
  shows "enabled es n S k \<longleftrightarrow> k < n \<and> k \<notin> S \<and> (\<forall>j \<in> set (left_over es S). j < cpos es k \<longrightarrow> e_kind (es ! j) = callEntry)"
proof
  assume e: "enabled es n S k"
  have "e_kind (es ! j) = callEntry" if "j \<in> set (left_over es S)" "j < cpos es k" for j
  proof (cases "e_kind (es ! j)")
    case returnEntry
    then have "j = rpos es (e_id (es ! j))" "e_id (es ! j) < n" "e_id (es ! j) \<notin> S"
      using that return_pos [OF assms(1)] complete_id [OF assms(1)] by auto
    then show ?thesis using e that(2) unfolding enabled_def by metis
  qed
  with e show "k < n \<and> k \<notin> S \<and> (\<forall>j \<in> set (left_over es S). j < cpos es k \<longrightarrow> e_kind (es ! j) = callEntry)" by (auto simp: enabled_def)
next
  assume a: "k < n \<and> k \<notin> S \<and> (\<forall>j \<in> set (left_over es S). j < cpos es k \<longrightarrow> e_kind (es ! j) = callEntry)"
  have "\<not> rpos es j < cpos es k" if "j < n" "j \<notin> S" for j
    using a left_over_pos(2) [OF assms(1) that] complete_pos(4) [OF assms(1) that(1)] by (metis entryKind.distinct(1))
  with a show "enabled es n S k" by (simp add: enabled_def)
qed

text \<open>At a return everything that is enabled has been tried, and the configuration does not complete.\<close>

lemma dead_end:
  assumes "complete es n" "S \<subseteq> {..<n}" "tried model es n S s e" "e \<in> set (left_over es S)" "e_kind (es ! e) = returnEntry"
  shows "\<not> completes model es n S s"
proof
  assume c: "completes model es n S s"
  have "e_id (es ! e) < n" "e_id (es ! e) \<notin> S" using assms(1,4) by (auto simp: complete_id)
  then have ne: "S \<noteq> {..<n}" by auto
  obtain k s' where k: "enabled es n S k" "op_step model es s k = Inr (True, s')" "completes model es n (insert k S) s'"
    using c ne by (cases rule: completes.cases) auto
  have "\<not> e < cpos es k" using k(1) assms(4,5) unfolding enabled_iff [OF assms(1,2)] by auto
  moreover have "cpos es k \<noteq> e" using k(1) complete_pos(3) [OF assms(1), of k] assms(5) by (auto simp: enabled_def)
  ultimately show False using assms(3) k unfolding tried_def by force
qed


definition at_entry :: "('s, 'v) Model \<Rightarrow> 'v entry list \<Rightarrow> nat \<Rightarrow> nat set \<Rightarrow> 's \<Rightarrow> nat \<Rightarrow> bool" where
  "at_entry model es n S s e \<longleftrightarrow> e \<in> set (left_over es S) \<and> tried model es n S s e \<and>
     (\<forall>j \<in> set (left_over es S). j < e \<longrightarrow> e_kind (es ! j) = callEntry)"

lemma at_entry_enabled:
  "complete es n \<Longrightarrow> S \<subseteq> {..<n} \<Longrightarrow> at_entry model es n S s e \<Longrightarrow> e_kind (es ! e) = callEntry \<Longrightarrow>
   enabled es n S (e_id (es ! e)) \<and> cpos es (e_id (es ! e)) = e"
  using call_pos [of es n e] by (simp add: at_entry_def enabled_iff complete_id)

lemma move_on:
  assumes "complete es n" "heap_ok H es S h" "enabled es n S k" "tried model es n S s (cpos es k)" "S \<subseteq> {..<n}"
    "\<And>s'. op_step model es s k = Inr (True, s') \<Longrightarrow> \<not> completes model es n (insert k S) s'"
  shows "\<exists>e'. n_next (h (cpos es k)) = Some e' \<and> at_entry model es n S s e' \<and> cpos es k < e'"
proof -
  have k: "k < n" "k \<notin> S" using assms(3) by (auto simp: enabled_def)
  obtain A bs cs where s: "left_over es S = A @ cpos es k # bs @ rpos es k # cs" using left_over_split [OF assms(1) k] .
  obtain e' ys where e': "bs @ rpos es k # cs = e' # ys" by (cases bs) auto
  note s' = s [unfolded e']
  have "seg h None ((H # A) @ cpos es k # e' # ys) None" using assms(2) s' by (simp add: heap_ok_def)
  then have "n_next (h (cpos es k)) = Some e'" using seg_next by fastforce
  moreover have lt: "cpos es k < e'" "\<And>j. j \<in> set ys \<Longrightarrow> e' < j" using left_over_sorted [of es S] unfolding s' by (auto simp: sorted_wrt_append)
  have before: "j < cpos es k \<or> j = cpos es k" if "j \<in> set (left_over es S)" "j < e'" for j
    using that left_over_sorted [of es S] lt(2) unfolding s' by (fastforce simp: sorted_wrt_append)
  have "tried model es n S s e'" unfolding tried_def
  proof (intro allI impI)
    fix k' s'' assume a: "enabled es n S k'" "cpos es k' < e'" "op_step model es s k' = Inr (True, s'')"
    then have k': "k' < n" "k' \<notin> S" by (auto simp: enabled_def)
    have "cpos es k' < cpos es k \<or> k' = k" using before [OF left_over_pos(1) [OF assms(1) k'] a(2)]
        complete_pos(5) [OF assms(1) k(1)] complete_pos(5) [OF assms(1) k'(1)] by auto
    then show "\<not> completes model es n (insert k' S) s''" using assms(4,6) a unfolding tried_def by blast
  qed
  moreover have "e_kind (es ! j) = callEntry" if "j \<in> set (left_over es S)" "j < e'" for j
    using before [OF that] that(1) assms(3) complete_pos(3) [OF assms(1) k(1)] unfolding enabled_iff [OF assms(1,5)] by auto
  moreover have "e' \<in> set (left_over es S)" unfolding s' by simp
  ultimately show ?thesis using lt(1) unfolding at_entry_def by blast
qed

lemma first_entry:
  assumes "complete es n" "heap_ok H es S h" "S \<subseteq> {..<n}"
  shows "n_next (h H) = None \<longleftrightarrow> S = {..<n}" "S \<noteq> {..<n} \<Longrightarrow> \<exists>e. n_next (h H) = Some e \<and> at_entry model es n S s e"
proof -
  have nx: "n_next (h H) = (case left_over es S of [] \<Rightarrow> None | e # _ \<Rightarrow> Some e)" using assms(2) by (simp add: heap_ok_def)
  then show "n_next (h H) = None \<longleftrightarrow> S = {..<n}" using left_over_Nil [OF assms(1,3)] by (auto split: list.splits)
  assume "S \<noteq> {..<n}"
  then obtain e xs where l: "left_over es S = e # xs" using left_over_Nil [OF assms(1,3)] by (cases "left_over es S") auto
  then have first: "\<not> j < e" if "j \<in> set (left_over es S)" for j using that left_over_sorted [of es S] by auto
  then have "tried model es n S s e" unfolding tried_def enabled_def using left_over_pos(1) [OF assms(1)] by blast
  moreover have "e \<in> set (left_over es S)" unfolding l by simp
  ultimately show "\<exists>e. n_next (h H) = Some e \<and> at_entry model es n S s e" using nx l first unfolding at_entry_def by auto
qed

section \<open>The cache\<close>

definition cached :: "(u64 \<Rightarrow> 's cacheEntry list) \<Rightarrow> (nat set \<times> 's) set" where
  "cached cache = {(bits_of (ce_linearized ce), ce_state ce) | ce. \<exists>x. ce \<in> set (cache x)}"

definition cache_ok :: "nat \<Rightarrow> (u64 \<Rightarrow> 's cacheEntry list) \<Rightarrow> bool" where
  "cache_ok len cache \<longleftrightarrow> (\<forall>x. \<forall>ce \<in> set (cache x). x = bs_hash (ce_linearized ce) \<and> length (ce_linearized ce) = len)"

lemma cacheContains_iff:
  assumes "md_Equal model = (=)" "cache_ok len cache" "length b = len"
  shows "cacheContains model cache \<lparr>ce_linearized = b, ce_state = s\<rparr> \<longleftrightarrow> (bits_of b, s) \<in> cached cache"
proof
  assume "cacheContains model cache \<lparr>ce_linearized = b, ce_state = s\<rparr>"
  then obtain ce where ce: "ce \<in> set (cache (bs_hash b))" "bs_equals b (ce_linearized ce)" "s = ce_state ce"
    using assms(1) by (auto simp: cacheContains_def list_ex_iff)
  then have "bits_of b = bits_of (ce_linearized ce)" using bs_equals_iff assms(2,3) by (auto simp: cache_ok_def)
  then show "(bits_of b, s) \<in> cached cache" using ce by (auto simp: cached_def)
next
  assume "(bits_of b, s) \<in> cached cache"
  then obtain ce x where ce: "ce \<in> set (cache x)" "bits_of b = bits_of (ce_linearized ce)" "s = ce_state ce" by (auto simp: cached_def)
  then have "x = bs_hash (ce_linearized ce)" "length (ce_linearized ce) = length b" using assms(2,3) by (auto simp: cache_ok_def)
  moreover from this have "b = ce_linearized ce" using bits_of_inj ce(2) by metis
  ultimately show "cacheContains model cache \<lparr>ce_linearized = b, ce_state = s\<rparr>"
    using ce assms(1) bs_equals_iff [of b b] by (auto simp: cacheContains_def list_ex_iff)
qed

lemma cache_add:
  "cache_ok len cache \<Longrightarrow> length b = len \<Longrightarrow> cache_ok len (cache(bs_hash b := cache (bs_hash b) @ [\<lparr>ce_linearized = b, ce_state = s\<rparr>]))"
  "cached (cache(bs_hash b := cache (bs_hash b) @ [\<lparr>ce_linearized = b, ce_state = s\<rparr>])) = insert (bits_of b, s) (cached cache)"
proof -
  show "cache_ok len cache \<Longrightarrow> length b = len \<Longrightarrow> cache_ok len (cache(bs_hash b := cache (bs_hash b) @ [\<lparr>ce_linearized = b, ce_state = s\<rparr>]))"
    by (auto simp: cache_ok_def)
  let ?c = "cache(bs_hash b := cache (bs_hash b) @ [\<lparr>ce_linearized = b, ce_state = s\<rparr>])"
  have "(\<exists>x. ce \<in> set (?c x)) \<longleftrightarrow> ce = \<lparr>ce_linearized = b, ce_state = s\<rparr> \<or> (\<exists>x. ce \<in> set (cache x))" for ce
    by auto metis
  then show "cached ?c = insert (bits_of b, s) (cached cache)" unfolding cached_def
    by (auto intro: exI [of _ "\<lparr>ce_linearized = b, ce_state = s\<rparr>"])
qed


section \<open>The loop\<close>

definition search_inv ::
    "('s, 'v) Model \<Rightarrow> 'v entry list \<Rightarrow> nat \<Rightarrow> nat \<Rightarrow> ('s, 'v) search \<Rightarrow> nat set \<Rightarrow> (nat set \<times> 's) set \<Rightarrow> bool" where
  "search_inv model es n H st S C \<longleftrightarrow>
     stacked model es n H (s_heap st) S (s_state st) (s_calls st) C \<and>
     bits_of (s_linearized st) = S \<and> length (s_linearized st) = length (newBitset n) \<and>
     cache_ok (length (newBitset n)) (s_cache st) \<and> cached (s_cache st) \<subseteq> configs model es n \<and>
     (\<forall>c \<in> cached (s_cache st). c \<in> C \<or> \<not> completes model es n (fst c) (snd c)) \<and>
     (S \<noteq> {..<n} \<longrightarrow> (\<exists>e. s_entry st = Some e \<and> at_entry model es n S (s_state st) e))"

lemma search_facts:
  "search_inv model es n H st S C \<Longrightarrow> S \<subseteq> {..<n} \<and> heap_ok H es S (s_heap st) \<and> (\<forall>c \<in> C. fst c \<subseteq> S) \<and>
   (completes model es n S (s_state st) \<longrightarrow> completes model es n {} (md_Init model))"
  using stacked_facts [of model es n H "s_heap st" S "s_state st" "s_calls st" C] unfolding search_inv_def by blast

definition progress :: "('s, 'v) Model \<Rightarrow> 'v entry list \<Rightarrow> nat \<Rightarrow> ('s, 'v) search \<Rightarrow> nat \<times> nat \<times> nat" where
  "progress model es n st =
     (card (configs model es n - cached (s_cache st)), length (s_calls st), case s_entry st of None \<Rightarrow> 0 | Some e \<Rightarrow> length es - e)"

abbreviation smaller :: "(nat \<times> nat \<times> nat) rel" where
  "smaller \<equiv> less_than <*lex*> less_than <*lex*> less_than"

definition goes_on where
  "goes_on model es n H st st' \<longleftrightarrow> (\<exists>S C. search_inv model es n H st' S C) \<and> (progress model es n st', progress model es n st) \<in> smaller"

lemma turn_skip:
  assumes "complete es n" "search_inv model es n H st S C" "s_entry st = Some e" "at_entry model es n S (s_state st) e" "e_kind (es ! e) = callEntry"
    "\<And>s'. op_step model es (s_state st) (e_id (es ! e)) = Inr (True, s') \<Longrightarrow> \<not> completes model es n (insert (e_id (es ! e)) S) s'"
  shows "goes_on model es n H st (st\<lparr>s_entry := n_next (s_heap st e)\<rparr>)"
proof -
  have f: "S \<subseteq> {..<n}" "heap_ok H es S (s_heap st)" using search_facts [OF assms(2)] by auto
  note en = at_entry_enabled [OF assms(1) f(1) assms(4,5)]
  obtain e' where e': "n_next (s_heap st e) = Some e'" "at_entry model es n S (s_state st) e'" "e < e'"
    using move_on [OF assms(1) f(2) conjunct1 [OF en], of model "s_state st"] f(1) assms(4,6) en by (auto simp: at_entry_def)
  then have "search_inv model es n H (st\<lparr>s_entry := n_next (s_heap st e)\<rparr>) S C" using assms(2) by (simp add: search_inv_def)
  moreover have "length es - e' < length es - e" using e' by (auto simp: at_entry_def)
  ultimately show ?thesis unfolding goes_on_def using assms(3) e'(1) by (auto simp: progress_def)
qed

lemma turn_push:
  assumes "complete es n" "search_inv model es n H st S C" "enabled es n S k" "at_entry model es n S (s_state st) (cpos es k)"
    "op_step model es (s_state st) k = Inr (True, s')" "bits_of b = insert k S" "length b = length (newBitset n)" "(insert k S, s') \<notin> cached (s_cache st)"
  shows "\<exists>h'. lift (s_heap st) (cpos es k) = Inr h' \<and>
    goes_on model es n H st \<lparr>s_heap = h', s_entry = n_next (h' H), s_state = s', s_linearized = b,
      s_cache = (s_cache st)(bs_hash b := s_cache st (bs_hash b) @ [\<lparr>ce_linearized = b, ce_state = s'\<rparr>]), s_calls = s_calls st @ [(cpos es k, s_state st)]\<rparr>"
proof -
  have f: "S \<subseteq> {..<n}" "heap_ok H es S (s_heap st)" using search_facts [OF assms(2)] by auto
  have k: "k < n" "k \<notin> S" using assms(3) by (auto simp: enabled_def)
  obtain h' where h': "lifted (s_heap st) (cpos es k) (H # left_over es (insert k S)) h'" "heap_ok H es (insert k S) h'"
    using heap_lift [OF assms(1) f(2) k] by blast
  let ?st = "\<lparr>s_heap = h', s_entry = n_next (h' H), s_state = s', s_linearized = b,
      s_cache = (s_cache st)(bs_hash b := s_cache st (bs_hash b) @ [\<lparr>ce_linearized = b, ce_state = s'\<rparr>]), s_calls = s_calls st @ [(cpos es k, s_state st)]\<rparr>"
  have stk: "stacked model es n H h' (insert k S) s' (s_calls st @ [(cpos es k, s_state st)]) (insert (insert k S, s') C)"
    using assms(2-5) h' by (auto simp: search_inv_def at_entry_def intro: stacked.push)
  then have new: "(insert k S, s') \<in> configs model es n" "insert k S \<subseteq> {..<n}" using stacked_facts [OF stk] by auto
  have "cached (s_cache ?st) = insert (insert k S, s') (cached (s_cache st))" using assms(6) by (simp add: cache_add(2))
  moreover have "search_inv model es n H ?st (insert k S) (insert (insert k S, s') C)"
  proof -
    have "cache_ok (length (newBitset n)) (s_cache ?st)"
      using assms(2,7) cache_add(1) [of "length (newBitset n)" "s_cache st" b s'] by (simp add: search_inv_def)
    moreover note first_entry(2) [OF assms(1) h'(2) new(2), of model s']
    ultimately show ?thesis using assms(2,6,7) stk new(1) \<open>cached (s_cache ?st) = _\<close> unfolding search_inv_def by simp
  qed
  moreover have "card (configs model es n - insert (insert k S, s') (cached (s_cache st))) < card (configs model es n - cached (s_cache st))"
    using new(1) assms(8) by (intro psubset_card_mono finite_Diff finite_configs) auto
  ultimately show ?thesis using h'(1) by (intro exI [of _ h']) (auto simp: goes_on_def progress_def lifted_def)
qed


lemma turn_pop:
  assumes "complete es n" "search_inv model es n H st S C" "s_calls st = calls @ [(e, s)]" "\<not> completes model es n S (s_state st)"
  shows "\<exists>b h'. bs_clear (s_linearized st) (n_id (s_heap st e)) = Inr b \<and> unlift (s_heap st) e = Inr h' \<and>
    goes_on model es n H st \<lparr>s_heap = h', s_entry = n_next (h' e), s_state = s, s_linearized = b, s_cache = s_cache st, s_calls = calls\<rparr>"
proof -
  have "stacked model es n H (s_heap st) S (s_state st) (calls @ [(e, s)]) C" using assms(2,3) by (simp add: search_inv_def)
  then obtain h S0 C0 k where p: "stacked model es n H h S0 s calls C0" "enabled es n S0 k" "op_step model es s k = Inr (True, s_state st)"
    "tried model es n S0 s (cpos es k)" "lifted h (cpos es k) (H # left_over es (insert k S0)) (s_heap st)" "heap_ok H es (insert k S0) (s_heap st)"
    "S = insert k S0" "C = insert (S, s_state st) C0" "e = cpos es k"
    by (cases rule: stacked_push) auto
  have k: "k < n" "k \<notin> S0" using p(2) by (auto simp: enabled_def)
  have "node_ok es (s_heap st) e" using p(6,9) complete_pos(1,2) [OF assms(1) k(1)] by (auto simp: heap_ok_def)
  then have "n_id (s_heap st e) = k" using node_call(2) [OF assms(1) k(1)] p(9) by simp
  moreover obtain b where b: "bs_clear (s_linearized st) k = Inr b" "length b = length (newBitset n)" "bits_of b = S0"
    using bs_clear_ok [of k "s_linearized st"] newBitset_room [OF k(1)] assms(2) p(7) k(2) by (auto simp: search_inv_def)
  moreover have "unlift (s_heap st) e = Inr h" using p(5,9) by (simp add: lifted_def)
  moreover have "goes_on model es n H st \<lparr>s_heap = h, s_entry = n_next (h e), s_state = s, s_linearized = b, s_cache = s_cache st, s_calls = calls\<rparr>"
  proof -
    have f: "heap_ok H es S0 h" "S0 \<subseteq> {..<n}" using stacked_facts [OF p(1)] by auto
    have "\<exists>e'. n_next (h e) = Some e' \<and> at_entry model es n S0 s e'"
      using move_on [OF assms(1) f(1) p(2) p(4) f(2)] assms(4) p(3,7,9) by auto
    then have "search_inv model es n H \<lparr>s_heap = h, s_entry = n_next (h e), s_state = s, s_linearized = b, s_cache = s_cache st, s_calls = calls\<rparr> S0 C0"
      using assms(2,4) p(1,8) b by (auto simp: search_inv_def)
    then show ?thesis using assms(3) by (auto simp: goes_on_def progress_def)
  qed
  ultimately show ?thesis by blast
qed

lemma turn_ok:
  assumes d: "decides model es n" and inv_st: "search_inv model es n H st S C" and ne: "S \<noteq> {..<n}"
  shows "turn model H st = Inr (Inl False) \<and> \<not> completes model es n {} (md_Init model) \<or>
    (\<exists>st'. turn model H st = Inr (Inr st') \<and> goes_on model es n H st st')"
proof -
  have c: "complete es n" and eq: "md_Equal model = (=)" using d by (auto simp: decides_def)
  obtain e where e: "s_entry st = Some e" "at_entry model es n S (s_state st) e" using inv_st ne by (auto simp: search_inv_def)
  have S: "S \<subseteq> {..<n}" and nodes: "\<And>j. j < length es \<Longrightarrow> node_ok es (s_heap st) j" using search_facts [OF inv_st] by (auto simp: heap_ok_def)
  have el: "e < length es" "e_id (es ! e) \<notin> S" using e(2) by (auto simp: at_entry_def)
  show ?thesis
  proof (cases "e_kind (es ! e)")
    case returnEntry
    then have m: "n_match (s_heap st e) = None" using node_match [OF c nodes [OF el(1)] el(1)] by simp
    have dead: "\<not> completes model es n S (s_state st)" 
      using e(2) returnEntry dead_end [of es n S model "s_state st" e] c S by (simp add: at_entry_def)
    show ?thesis
    proof (cases "s_calls st" rule: rev_cases)
      case Nil
      then have "stacked model es n H (s_heap st) S (s_state st) [] C" using inv_st by (simp add: search_inv_def)
      then have "S = {}" "s_state st = md_Init model" by (auto elim: stacked_bottom)
      then show ?thesis using Nil e(1) m dead by (simp add: turn_def panic_unless_def)
    next
      case (snoc calls top)
      obtain e0 s0 where top: "top = (e0, s0)" by force
      show ?thesis using turn_pop [OF c inv_st snoc [unfolded top] dead] snoc top e(1) m by (auto simp: turn_def panic_unless_def)
    qed
  next
    case callEntry
    let ?k = "e_id (es ! e)"
    have k: "enabled es n S ?k" "cpos es ?k = e" "?k < n" using at_entry_enabled [OF c S e(2) callEntry] complete_id [OF c el(1)] by auto
    have nd: "n_match (s_heap st e) = Some (rpos es ?k)" "n_id (s_heap st e) = ?k" "n_value (s_heap st e) = Some (e_value (es ! e))"
      using node_call [OF c k(3), of "s_heap st"] nodes [OF el(1)] k(2) by auto
    have rv: "n_value (s_heap st (rpos es ?k)) = Some (e_value (es ! rpos es ?k))"
      using nodes [OF complete_pos(2) [OF c k(3)]] by (simp add: node_ok_def)
    obtain ok s' where s': "op_step model es (s_state st) ?k = Inr (ok, s')" using d k(3) unfolding decides_def by (metis surj_pair)
    then have step: "md_Step model (s_state st) (e_value (es ! e)) (e_value (es ! rpos es ?k)) = Inr (ok, s')" using k(2) by (simp add: op_step_def)
    obtain b where b: "bs_set (s_linearized st) ?k = Inr b" "length b = length (newBitset n)" "bits_of b = insert ?k S"
      using bs_set_ok [of ?k "s_linearized st"] newBitset_room [OF k(3)] inv_st by (auto simp: search_inv_def)
    have cc: "cacheContains model (s_cache st) \<lparr>ce_linearized = b, ce_state = s'\<rparr> \<longleftrightarrow> (insert ?k S, s') \<in> cached (s_cache st)"
      using cacheContains_iff [OF eq, of "length (newBitset n)"] inv_st b by (auto simp: search_inv_def)
    note run = turn_def panic_unless_def e(1) nd rv step b(1) cc Let_def
    show ?thesis
    proof (cases "ok \<and> (insert ?k S, s') \<notin> cached (s_cache st)")
      case True
      then show ?thesis using turn_push [OF c inv_st k(1) _ _ b(3,2)] e(2) k(2) s' by (auto simp: run)
    next
      case False
      have "(insert ?k S, s') \<notin> C" using search_facts [OF inv_st] el(2) by fastforce
      then have "\<not> completes model es n (insert ?k S) s'" if ok using False that inv_st by (force simp: search_inv_def)
      then have "goes_on model es n H st (st\<lparr>s_entry := n_next (s_heap st e)\<rparr>)"
        using turn_skip [OF c inv_st e callEntry] s' by auto
      then show ?thesis using False by (auto simp: run)
    qed
  qed
qed


text \<open>The loop ends. A true answer is right even when the flag is set on the way, and without it the answer is exact.\<close>

definition answers :: "bool \<Rightarrow> bool \<Rightarrow> bool result option \<Rightarrow> bool" where
  "answers killed truth out \<longleftrightarrow> (\<exists>b. out = Some (Inr b) \<and> (b \<longrightarrow> truth) \<and> (\<not> killed \<longrightarrow> b = truth))"

lemma loop_ok:
  assumes d: "decides model es n"
  shows "search_inv model es n H st S C \<Longrightarrow>
    answers (\<exists>k. kill k) (completes model es n {} (md_Init model)) (checkSingle_loop model kill H k st)"
proof (induction "progress model es n st" arbitrary: st S C k rule: wf_induct_rule [OF wf_lex_prod [OF wf_less_than wf_lex_prod [OF wf_less_than wf_less_than]]])
  case 1
  have c: "complete es n" using d by (simp add: decides_def)
  have S: "S \<subseteq> {..<n}" "heap_ok H es S (s_heap st)" "completes model es n S (s_state st) \<Longrightarrow> completes model es n {} (md_Init model)"
    using search_facts [OF 1(2)] by auto
  show ?case
  proof (cases "S = {..<n}")
    case True
    then have "n_next (s_heap st H) = None" using first_entry(1) [OF c S(2,1)] by simp
    moreover have "completes model es n {} (md_Init model)" using S(3) True completes.all [of model es n "s_state st"] by simp
    ultimately show ?thesis by (auto simp: checkSingle_loop.simps answers_def)
  next
    case False
    then have more: "n_next (s_heap st H) \<noteq> None" using first_entry(1) [OF c S(2,1)] by simp
    show ?thesis
    proof (cases "kill k")
      case True
      with more have "checkSingle_loop model kill H k st = Some (Inr False)" by (simp add: checkSingle_loop.simps [of model kill H k st])
      then show ?thesis using True by (auto simp: answers_def)
    next
      case nk: False
      from turn_ok [OF d 1(2) False] show ?thesis
      proof (elim disjE exE conjE)
        fix st' assume t: "turn model H st = Inr (Inr st')" "goes_on model es n H st st'"
        with more nk have "checkSingle_loop model kill H k st = checkSingle_loop model kill H (Suc k) st'"
          by (auto simp: checkSingle_loop.simps [of model kill H k st])
        then show ?thesis using 1(1) t(2) by (auto simp: goes_on_def simp del: in_lex_prod)
      next
        assume "turn model H st = Inr (Inl False)" "\<not> completes model es n {} (md_Init model)"
        with more nk show ?thesis by (auto simp: checkSingle_loop.simps [of model kill H k st] answers_def)
      qed
    qed
  qed
qed

lemma checkSingle_ok:
  assumes d: "decides model es n" and H: "length es \<le> H" and l: "makeLinkedEntries h es = (h', l)"
  shows "answers (\<exists>k. kill k) (linearizable model es n) (checkSingle model kill H h' l)"
proof -
  have c: "complete es n" and n: "length es = 2 * n" using d by (auto simp: decides_def complete_def)
  let ?xs = "[0..<length es]"
  have l': "l = (case ?xs of [] \<Rightarrow> None | x # _ \<Rightarrow> Some x)" "seg h' None ?xs None" "\<forall>j < length es. node_ok es h' j"
    using makeLinkedEntries_ok [of h es] l by (auto simp: upt_conv_Cons)
  define h0 where "h0 = h'(H := \<lparr>n_value = None, n_match = None, n_id = 2 ^ 64 - 1, n_next = None, n_prev = None\<rparr>)"
  have seg0: "seg h0 None ?xs None" "H \<notin> set ?xs" using l'(2) H by (simp_all add: h0_def)
  define h1 where "h1 = insertBefore h0 H l"
  have h1: "seg h1 None (H # ?xs) None" "same_nodes h0 h1"
    using insertBefore_seg [OF seg0] unfolding h1_def l'(1) by (simp_all add: h0_def)
  have "node_ok es h0 j" if "j < length es" for j using that H l'(3) by (simp add: node_ok_def h0_def)
  then have hp: "heap_ok H es {} h1" using H h1 by (simp add: heap_ok_def left_over_def node_ok_same)
  have "n_next (h1 H) = l" using h1(1) l'(1) by simp
  then have "\<exists>e. l = Some e \<and> at_entry model es n {} (md_Init model) e" if "{} \<noteq> {..<n}"
    using first_entry(2) [OF c hp _ that, of model "md_Init model"] by simp
  then have "search_inv model es n H \<lparr>s_heap = h1, s_entry = l, s_state = md_Init model, s_linearized = newBitset n, s_cache = (\<lambda>_. []), s_calls = []\<rparr> {} {}"
    using stacked.bottom [OF hp] by (simp add: search_inv_def cache_ok_def cached_def)
  moreover have "node_length h' l 0 = Some (2 * n)" using node_length_seg [OF l'(2), of 0] n unfolding l'(1) by simp
  ultimately show ?thesis using loop_ok [OF d] linearizable_completes [OF c, of model]
    by (simp add: checkSingle_def h1_def h0_def Let_def)
qed

end
