(* ===== verification/LinHistory.thy ===== *)
theory LinHistory
  imports LinSearch
begin

text \<open>
  What the checker answers on a timed history: \<open>makeEntries\<close> gives a complete history, an order of its entries that respects
  real time is an order of the operations that does, and \<open>CheckOperations\<close> with the key/value model answers whether the
  operations on every key are linearizable, in whatever order the goroutines deliver their results.
\<close>

section \<open>Timed histories\<close>

definition well_timed :: "'v Operation list \<Rightarrow> bool" where
  "well_timed ops \<longleftrightarrow> (\<forall>v \<in> set ops. op_Call v < op_Return v) \<and> distinct (map op_Call ops @ map op_Return ops)"

definition real_time :: "'v Operation list \<Rightarrow> nat list \<Rightarrow> bool" where
  "real_time ops ks \<longleftrightarrow> sorted_wrt (\<lambda>i j. \<not> op_Return (ops ! j) < op_Call (ops ! i)) ks"

fun legal :: "('s, 'v) Model \<Rightarrow> 'v Operation list \<Rightarrow> 's \<Rightarrow> nat list \<Rightarrow> bool" where
  "legal model ops s [] = True"
| "legal model ops s (k # ks) =
     (case md_Step model s (op_Input (ops ! k)) (op_Output (ops ! k)) of Inr (True, s') \<Rightarrow> legal model ops s' ks | _ \<Rightarrow> False)"

definition linearizable_history :: "('s, 'v) Model \<Rightarrow> 'v Operation list \<Rightarrow> bool" where
  "linearizable_history model ops \<longleftrightarrow>
     (\<exists>ks. distinct ks \<and> set ks = {..<length ops} \<and> real_time ops ks \<and> legal model ops (md_Init model) ks)"

definition call_of :: "'v Operation list \<Rightarrow> nat \<Rightarrow> 'v entry" where
  "call_of ops i = \<lparr>e_kind = callEntry, e_value = op_Input (ops ! i), e_id = i, e_time = op_Call (ops ! i)\<rparr>"

definition ret_of :: "'v Operation list \<Rightarrow> nat \<Rightarrow> 'v entry" where
  "ret_of ops i = \<lparr>e_kind = returnEntry, e_value = op_Output (ops ! i), e_id = i, e_time = op_Return (ops ! i)\<rparr>"

lemma entries_enumerate:
  "entries_from m ops = concat (map (\<lambda>(j, v). [\<lparr>e_kind = callEntry, e_value = op_Input v, e_id = j, e_time = op_Call v\<rparr>,
     \<lparr>e_kind = returnEntry, e_value = op_Output v, e_id = j, e_time = op_Return v\<rparr>]) (List.enumerate m ops))"
  by (induction m ops rule: entries_from.induct) simp_all

lemma set_entries: "set (entries_from 0 ops) = call_of ops ` {..<length ops} \<union> ret_of ops ` {..<length ops}"
proof -
  have "set (List.enumerate 0 ops) = (\<lambda>j. (j, ops ! j)) ` {..<length ops}" by (auto simp: in_set_enumerate_eq)
  then show ?thesis unfolding entries_enumerate by (auto simp: call_of_def ret_of_def)
qed

lemma entries_times: "mset (map e_time (entries_from m ops)) = mset (map op_Call ops @ map op_Return ops)"
  by (induction m ops rule: entries_from.induct) simp_all

lemma entries_length: "length (entries_from m ops) = 2 * length ops"
  by (induction m ops rule: entries_from.induct) simp_all

lemma makeEntries_facts:
  assumes "well_timed ops"
  shows "length (makeEntries ops) = 2 * length ops" "set (makeEntries ops) = call_of ops ` {..<length ops} \<union> ret_of ops ` {..<length ops}"
    "sorted_wrt (<) (map e_time (makeEntries ops))"
proof -
  have m: "mset (makeEntries ops) = mset (entries_from 0 ops)" unfolding makeEntries_def by (rule go_sort.mset_srt)
  then show "length (makeEntries ops) = 2 * length ops" by (metis entries_length size_mset)
  show "set (makeEntries ops) = call_of ops ` {..<length ops} \<union> ret_of ops ` {..<length ops}"
    using m by (metis set_entries set_mset_mset)
  have "mset (map e_time (makeEntries ops)) = mset (map op_Call ops @ map op_Return ops)" using m by (metis entries_times mset_map)
  then have "distinct (map e_time (makeEntries ops))" using assms mset_eq_imp_distinct_iff unfolding well_timed_def by blast
  moreover have "sorted (map e_time (makeEntries ops))" unfolding makeEntries_def by (rule go_sort.sorted_srt)
  ultimately show "sorted_wrt (<) (map e_time (makeEntries ops))" by (simp add: strict_sorted_iff)
qed

lemma makeEntries_order:
  "well_timed ops \<Longrightarrow> i < 2 * length ops \<Longrightarrow> j < 2 * length ops \<Longrightarrow>
   i < j \<longleftrightarrow> e_time (makeEntries ops ! i) < e_time (makeEntries ops ! j)"
  using sorted_wrt_nth_less [OF makeEntries_facts(3), of ops i j] sorted_wrt_nth_less [OF makeEntries_facts(3), of ops j i]
  by (cases i j rule: linorder_cases) (simp_all add: makeEntries_facts(1))

lemma makeEntries_nth:
  assumes "well_timed ops" "j < 2 * length ops"
  shows "e_id (makeEntries ops ! j) < length ops"
    "makeEntries ops ! j = (if e_kind (makeEntries ops ! j) = callEntry then call_of ops else ret_of ops) (e_id (makeEntries ops ! j))"
proof -
  have "makeEntries ops ! j \<in> set (makeEntries ops)" using assms by (simp add: makeEntries_facts(1))
  then show "e_id (makeEntries ops ! j) < length ops"
    "makeEntries ops ! j = (if e_kind (makeEntries ops ! j) = callEntry then call_of ops else ret_of ops) (e_id (makeEntries ops ! j))"
    unfolding makeEntries_facts(2) [OF assms(1)] by (auto simp: call_of_def ret_of_def)
qed

lemma makeEntries_complete:
  assumes "well_timed ops"
  shows "complete (makeEntries ops) (length ops)"
proof -
  let ?es = "makeEntries ops"
  have "\<exists>c r. c < r \<and> r < length ?es \<and> e_kind (?es ! c) = callEntry \<and> e_kind (?es ! r) = returnEntry \<and> e_id (?es ! c) = k \<and> e_id (?es ! r) = k \<and>
      (\<forall>j < length ?es. e_id (?es ! j) = k \<longrightarrow> j = c \<or> j = r)" if k: "k < length ops" for k
  proof -
    have "call_of ops k \<in> set ?es" "ret_of ops k \<in> set ?es" using k makeEntries_facts(2) [OF assms] by auto
    then obtain c r where cr: "c < length ?es" "?es ! c = call_of ops k" "r < length ?es" "?es ! r = ret_of ops k" by (metis in_set_conv_nth)
    have "op_Call (ops ! k) < op_Return (ops ! k)" using assms k by (simp add: well_timed_def)
    then have "c < r" using makeEntries_order [OF assms, of c r] cr by (simp add: makeEntries_facts(1) [OF assms] call_of_def ret_of_def)
    moreover have "j = c \<or> j = r" if j: "j < length ?es" "e_id (?es ! j) = k" for j
    proof -
      have "?es ! j = ?es ! c \<or> ?es ! j = ?es ! r" using makeEntries_nth(2) [OF assms, of j] j cr by (metis makeEntries_facts(1) [OF assms])
      then show ?thesis using makeEntries_order [OF assms] j(1) cr(1,3) unfolding makeEntries_facts(1) [OF assms] by (metis less_irrefl linorder_neqE_nat)
    qed
    ultimately show ?thesis using cr by (intro exI [of _ c] exI [of _ r]) (simp add: call_of_def ret_of_def)
  qed
  then show ?thesis unfolding complete_def using makeEntries_nth(1) [OF assms] makeEntries_facts(1) [OF assms] by auto
qed

lemma makeEntries_pos:
  assumes "well_timed ops" "k < length ops"
  shows "makeEntries ops ! cpos (makeEntries ops) k = call_of ops k" "makeEntries ops ! rpos (makeEntries ops) k = ret_of ops k"
proof -
  note p = complete_pos [OF makeEntries_complete [OF assms(1)] assms(2)]
  have "cpos (makeEntries ops) k < 2 * length ops" "rpos (makeEntries ops) k < 2 * length ops" using p(1,2) makeEntries_facts(1) [OF assms(1)] by auto
  then show "makeEntries ops ! cpos (makeEntries ops) k = call_of ops k" "makeEntries ops ! rpos (makeEntries ops) k = ret_of ops k"
    using makeEntries_nth(2) [OF assms(1), of "cpos (makeEntries ops) k"] makeEntries_nth(2) [OF assms(1), of "rpos (makeEntries ops) k"] p(3-6) by simp_all
qed

lemma linearizable_entries:
  assumes "well_timed ops"
  shows "linearizable model (makeEntries ops) (length ops) \<longleftrightarrow> linearizable_history model ops"
proof -
  let ?es = "makeEntries ops"
  note p = complete_pos [OF makeEntries_complete [OF assms]]
  have before: "rpos ?es j < cpos ?es k \<longleftrightarrow> op_Return (ops ! j) < op_Call (ops ! k)" if "j < length ops" "k < length ops" for j k
    using makeEntries_order [OF assms, of "rpos ?es j" "cpos ?es k"] makeEntries_pos [OF assms] p(1,2) [OF that(1)] p(1,2) [OF that(2)] that
    by (simp add: makeEntries_facts(1) [OF assms] call_of_def ret_of_def)
  have "in_order ?es ks = real_time ops ks" if "set ks \<subseteq> {..<length ops}" for ks
    using that by (induction ks) (simp_all add: real_time_def subset_eq before)
  moreover have "run_ops model ?es s ks = legal model ops s ks" if "set ks \<subseteq> {..<length ops}" for s ks
    using that by (induction ks arbitrary: s)
      (auto simp: op_step_def makeEntries_pos [OF assms] call_of_def ret_of_def split: sum.splits prod.splits bool.splits)
  ultimately show ?thesis unfolding linearizable_def linearizable_history_def by (metis order_refl)
qed

lemma history_decides:
  assumes "well_timed ops" "md_Equal model = (=)" "\<And>v s. v \<in> set ops \<Longrightarrow> \<exists>r. md_Step model s (op_Input v) (op_Output v) = Inr r"
  shows "decides model (makeEntries ops) (length ops)"
proof -
  have "\<exists>r. op_step model (makeEntries ops) s k = Inr r" if "k < length ops" for s k
    using makeEntries_pos [OF assms(1) that] assms(3) [OF nth_mem [OF that]] by (simp add: op_step_def call_of_def ret_of_def)
  then show ?thesis using assms(2) makeEntries_complete [OF assms(1)] by (simp add: decides_def)
qed

lemma check_entries_ok:
  assumes "well_timed ops" "md_Equal model = (=)" "\<And>v s. v \<in> set ops \<Longrightarrow> \<exists>r. md_Step model s (op_Input v) (op_Output v) = Inr r"
  shows "check_entries model (makeEntries ops) = Some (Inr (linearizable_history model ops))"
  using checkSingle_ok [OF history_decides [OF assms], of "length (makeEntries ops)" empty_heap _ _ "\<lambda>_. False"]
    linearizable_entries [OF assms(1), of model] by (simp add: check_entries_def answers_def split: prod.splits)

section \<open>The key/value model\<close>

definition kv_ok :: "kv_value Operation \<Rightarrow> bool" where
  "kv_ok v \<longleftrightarrow> (case (op_Input v, op_Output v) of (KvIn _, KvOut _) \<Rightarrow> True | _ \<Rightarrow> False)"

definition kv_key :: "kv_value Operation \<Rightarrow> string" where
  "kv_key v = (case op_Input v of KvIn inp \<Rightarrow> kv_Key inp | KvOut _ \<Rightarrow> [])"

definition at_key :: "string \<Rightarrow> kv_value Operation list \<Rightarrow> kv_value Operation list" where
  "at_key key history = filter (\<lambda>v. kv_key v = key) history"

lemma kv_equal: "md_Equal (fillDefault (KvModel order)) = (=)"
  by (simp add: fillDefault_def KvModel_def ShallowEqual_def fun_eq_iff)

lemma kv_step_total: "kv_ok v \<Longrightarrow> \<exists>r. md_Step (fillDefault (KvModel order)) s (op_Input v) (op_Output v) = Inr r"
  by (auto simp: fillDefault_def KvModel_def kv_step_def kv_ok_def split: kv_value.splits)

text \<open>
  C19: \<open>checkSingle\<close> always ends on a timed history: a true answer means that the history is linearizable even when \<open>kill\<close> is set on
  the way, and when it is not set the answer is true exactly for the linearizable histories.
\<close>

theorem checkSingle_decides:
  assumes "well_timed ops" "md_Equal model = (=)" "\<And>v s. v \<in> set ops \<Longrightarrow> \<exists>r. md_Step model s (op_Input v) (op_Output v) = Inr r"
    "makeLinkedEntries h (makeEntries ops) = (h', subhistory)" "length (makeEntries ops) \<le> headEntry"
  shows "\<exists>b. checkSingle model kill headEntry h' subhistory = Some (Inr b) \<and> (b \<longrightarrow> linearizable_history model ops) \<and>
    ((\<forall>k. \<not> kill k) \<longrightarrow> b = linearizable_history model ops)"
  using checkSingle_ok [OF history_decides [OF assms(1-3)] assms(5,4), of kill] linearizable_entries [OF assms(1), of model]
  by (simp add: answers_def)

theorem checkSingle_decides_witness:
  "\<exists>ops. length ops = 2 \<and> well_timed ops \<and> (case makeLinkedEntries empty_heap (makeEntries ops) of (h', l) \<Rightarrow>
     \<exists>b. checkSingle (fillDefault (KvModel rev)) (\<lambda>k. k = 7) 4 h' l = Some (Inr b))"
proof -
  let ?p = "\<lparr>op_Input = KvIn \<lparr>kv_Op = 1, kv_Key = ''a'', kv_Value = ''x''\<rparr>, op_Call = 1, op_Output = KvOut \<lparr>kvo_Value = []\<rparr>, op_Return = 5\<rparr>"
  let ?g = "\<lparr>op_Input = KvIn \<lparr>kv_Op = 0, kv_Key = ''a'', kv_Value = []\<rparr>, op_Call = 2, op_Output = KvOut \<lparr>kvo_Value = ''x''\<rparr>, op_Return = 4\<rparr>"
  have w: "well_timed [?p, ?g]" by (simp add: well_timed_def)
  have "length (makeEntries [?p, ?g]) \<le> 4" using makeEntries_facts(1) [OF w] by simp
  moreover have ok: "kv_ok v" if "v \<in> set [?p, ?g]" for v using that by (auto simp: kv_ok_def)
  ultimately have "\<exists>b. checkSingle (fillDefault (KvModel rev)) (\<lambda>k. k = 7) 4 h' l = Some (Inr b)"
    if "makeLinkedEntries empty_heap (makeEntries [?p, ?g]) = (h', l)" for h' l
    using checkSingle_decides [OF w kv_equal kv_step_total [OF ok] that, of 4 rev "\<lambda>k. k = 7"] by auto
  then show ?thesis using w by (intro exI [of _ "[?p, ?g]"]) (simp split: prod.splits)
qed

lemma kv_partition_ok:
  assumes "\<forall>v \<in> set history. kv_ok v" "gomap_ok m"
  shows "\<exists>m'. kv_partition m history = Inr m' \<and> gomap_ok m' \<and>
    (\<forall>key. map_of m' key =
       (if at_key key history = [] then map_of m key
        else Some ((case map_of m key of None \<Rightarrow> [] | Some l \<Rightarrow> l) @ at_key key history)))"
  using assms
proof (induction history arbitrary: m)
  case (Cons v history)
  obtain inp where inp: "op_Input v = KvIn inp" using Cons.prems(1) by (cases "op_Input v") (auto simp: kv_ok_def)
  then have key: "kv_key v = kv_Key inp" by (simp add: kv_key_def)
  let ?m = "AList.update (kv_Key inp) ((case map_of m (kv_Key inp) of None \<Rightarrow> [] | Some l \<Rightarrow> l) @ [v]) m"
  obtain m' where "kv_partition ?m history = Inr m'" "gomap_ok m'"
    "\<forall>key. map_of m' key = (if at_key key history = [] then map_of ?m key
       else Some ((case map_of ?m key of None \<Rightarrow> [] | Some l \<Rightarrow> l) @ at_key key history))"
    using Cons.IH [of ?m] Cons.prems by auto
  then show ?case using inp key by (auto simp: Let_def at_key_def)
qed (simp add: at_key_def)

lemma kv_partitions:
  assumes "\<forall>v \<in> set history. kv_ok v" "\<And>m. mset (order m) = mset m"
  obtains parts where "md_Partition (fillDefault (KvModel order)) history = Inr parts" "length parts = card (kv_key ` set history)"
    "set parts = (\<lambda>key. at_key key history) ` kv_key ` set history"
proof -
  obtain m where m: "kv_partition [] history = Inr m" "gomap_ok m"
    "\<And>key. map_of m key = (if at_key key history = [] then None else Some (at_key key history))"
    using kv_partition_ok [OF assms(1), of "[]"] by (auto cong: if_cong)
  have dom: "fst ` set m = kv_key ` set history"
  proof -
    have "key \<in> fst ` set m \<longleftrightarrow> at_key key history \<noteq> []" for key using m(3) [of key] by (metis map_of_eq_None_iff option.distinct(1))
    then show ?thesis unfolding set_eq_iff image_iff by (auto simp: at_key_def filter_empty_conv)
  qed
  have "snd ` set m = (\<lambda>key. at_key key history) ` fst ` set m"
  proof -
    have "snd p = at_key (fst p) history" if "p \<in> set m" for p
      using that m(2,3) map_of_is_SomeI [of m "fst p" "snd p"] by (auto simp: gomap_ok_def split: if_splits)
    then show ?thesis by (force simp: image_image)
  qed
  moreover have "length m = card (kv_key ` set history)" using m(2) dom unfolding gomap_ok_def by (metis distinct_card length_map set_map)
  moreover have "set (order m) = set m" "length (order m) = length m" using assms(2) by (metis set_mset_mset, metis size_mset)
  ultimately show ?thesis using that [of "map snd (order m)"] m(1) dom by (simp add: fillDefault_def KvModel_def)
qed

lemma well_timed_filter: "well_timed ops \<Longrightarrow> well_timed (filter P ops)"
  by (auto simp: well_timed_def distinct_map_filter)

lemma collect_ok:
  "(\<And>i. i \<in> set is \<Longrightarrow> results i = Some (Inr (r i))) \<Longrightarrow> is \<noteq> [] \<Longrightarrow> length is + cnt = n \<Longrightarrow>
   collect timer n results True cnt (map Result is) = Some (Inr (\<forall>i \<in> set is. r i))"
proof (induction "is" arbitrary: cnt)
  case (Cons i "is")
  show ?case
  proof (cases "r i \<and> is \<noteq> []")
    case True
    then show ?thesis using Cons.IH [of "Suc cnt"] Cons.prems by (cases "is") simp_all
  next
    case False
    then show ?thesis using Cons.prems by auto
  qed
qed simp

text \<open>
  C10: \<open>CheckOperations\<close> with the key/value model returns, in whatever order the goroutines deliver their results, and its
  answer is whether the operations on every key have an order that respects real time and explains every output.
\<close>

theorem CheckOperations_decides:
  assumes "history \<noteq> []" "well_timed history" "\<forall>v \<in> set history. kv_ok v" "\<And>m. mset (order m) = mset m"
    "distinct is" "set is = {..<card (kv_key ` set history)}"
  shows "CheckOperations (KvModel order) history (map Result is) =
    Some (Inr (\<forall>key. linearizable_history (fillDefault (KvModel order)) (at_key key history)))"
proof -
  let ?model = "fillDefault (KvModel order)" and ?lin = "\<lambda>key. linearizable_history (fillDefault (KvModel order)) (at_key key history)"
  obtain parts where parts: "md_Partition ?model history = Inr parts" "length parts = card (kv_key ` set history)"
    "set parts = (\<lambda>key. at_key key history) ` kv_key ` set history" using kv_partitions [OF assms(3,4)] .
  have len: "length is = length parts" using assms(5,6) parts(2) by (metis card_lessThan distinct_card)
  have "check_entries ?model (makeEntries (parts ! i)) = Some (Inr (linearizable_history ?model (parts ! i)))" if "i \<in> set is" for i
  proof -
    have "parts ! i \<in> set parts" using that assms(6) parts(2) by auto
    then obtain key where key: "parts ! i = at_key key history" unfolding parts(3) by auto
    show ?thesis
    proof (rule check_entries_ok)
      show "well_timed (parts ! i)" unfolding key at_key_def by (rule well_timed_filter [OF assms(2)])
      show "md_Equal ?model = (=)" by (rule kv_equal)
      show "\<exists>r. md_Step ?model s (op_Input v) (op_Output v) = Inr r" if "v \<in> set (parts ! i)" for v s
        using assms(3) that kv_step_total unfolding key at_key_def by auto
    qed
  qed
  moreover have "is \<noteq> []" using assms(1) parts(3) len by fastforce
  ultimately have "CheckOperations (KvModel order) history (map Result is) = Some (Inr (\<forall>i \<in> set is. linearizable_history ?model (parts ! i)))"
    using collect_ok [of "is" "\<lambda>i. check_entries ?model (makeEntries (parts ! i))" "\<lambda>i. linearizable_history ?model (parts ! i)" 0 "length parts" False] len parts(1)
    by (simp add: CheckOperations_def CheckOperationsTimeout_def Let_def)
  moreover have "(\<forall>i \<in> set is. linearizable_history ?model (parts ! i)) \<longleftrightarrow> (\<forall>l \<in> set parts. linearizable_history ?model l)"
    using assms(6) parts(2) by (metis all_set_conv_all_nth lessThan_iff)
  moreover have "\<dots> \<longleftrightarrow> (\<forall>key. ?lin key)"
  proof -
    have "?lin key" if "key \<notin> kv_key ` set history" for key
    proof -
      have "at_key key history = []" using that by (auto simp: at_key_def filter_empty_conv)
      then show ?thesis by (auto simp: linearizable_history_def real_time_def intro!: exI [of _ "[]"])
    qed
    then show ?thesis unfolding parts(3) by blast
  qed
  ultimately show ?thesis by simp
qed

theorem CheckOperations_decides_witness:
  "\<exists>history. length history = 2 \<and> well_timed history \<and>
     CheckOperations (KvModel rev) history (map Result [1, 0]) =
       Some (Inr (\<forall>key. linearizable_history (fillDefault (KvModel rev)) (at_key key history)))"
proof -
  let ?p = "\<lparr>op_Input = KvIn \<lparr>kv_Op = 1, kv_Key = ''a'', kv_Value = ''x''\<rparr>, op_Call = 1, op_Output = KvOut \<lparr>kvo_Value = []\<rparr>, op_Return = 5\<rparr>"
  let ?g = "\<lparr>op_Input = KvIn \<lparr>kv_Op = 0, kv_Key = ''b'', kv_Value = []\<rparr>, op_Call = 2, op_Output = KvOut \<lparr>kvo_Value = []\<rparr>, op_Return = 4\<rparr>"
  have "well_timed [?p, ?g]" "{..<card (kv_key ` set [?p, ?g])} = {0, 1}"
    by (simp_all add: well_timed_def kv_key_def card_insert_if lessThan_Suc insert_commute)
  then show ?thesis using CheckOperations_decides [of "[?p, ?g]" rev "[1, 0]"]
    by (intro exI [of _ "[?p, ?g]"]) (auto simp: kv_ok_def insert_commute)
qed

text \<open>An empty history has no partition, nothing is ever sent and the collecting loop waits for ever.\<close>

lemma CheckOperations_empty_waits:
  assumes "order [] = []" "set evs \<subseteq> {Tick}"
  shows "CheckOperations (KvModel order) [] evs = None"
proof -
  have "collect False n results ok cnt evs = None" for n results ok cnt using assms(2) by (induction evs) auto
  then show ?thesis using assms(1) by (simp add: CheckOperations_def CheckOperationsTimeout_def fillDefault_def KvModel_def)
qed

end
