(* ===== verification/LinBits.thy ===== *)
theory LinBits
  imports LinStore
begin

unbundle bit_operations_syntax

text \<open>
  The population count of the bitset (\<open>src/lab4/src/linearizability/bitset.go\<close>) adds the bits of a word in parallel: in pairs, in nibbles, in bytes, and then
  all bytes by one multiplication. Here it is shown equal to the number of bits that are set.

  The steps are seen on naturals, byte by byte: no step carries from one byte to the next, so a word is counted by counting its bytes.
\<close>

section \<open>One step, byte by byte\<close>

text \<open>A mask that repeats a byte \<open>k\<close> times, and a step of the count on \<open>k\<close> bytes.\<close>

fun rep_byte :: "nat \<Rightarrow> nat \<Rightarrow> nat" where
  "rep_byte m 0 = 0"
| "rep_byte m (Suc k) = m + 256 * rep_byte m k"

definition fold_bits :: "nat \<Rightarrow> nat \<Rightarrow> nat \<Rightarrow> nat \<Rightarrow> nat \<Rightarrow> nat" where
  "fold_bits s m m' k n = (n AND rep_byte m k) + (n AND rep_byte m' k) div 2 ^ s"

definition fold_byte :: "nat \<Rightarrow> nat \<Rightarrow> nat \<Rightarrow> nat \<Rightarrow> nat" where
  "fold_byte s m m' x = (x AND m) + (x AND m') div 2 ^ s"

lemma byte_split: "(a :: nat) = take_bit 8 a + 256 * drop_bit 8 a"
  by (simp add: take_bit_eq_mod drop_bit_eq_div)

lemma byte_join [simp]: "x < 256 \<Longrightarrow> take_bit 8 (x + 256 * y) = x" "x < 256 \<Longrightarrow> drop_bit 8 (x + 256 * y) = (y :: nat)"
  by (simp_all add: take_bit_eq_mod drop_bit_eq_div)

lemma and_bytes: "x < 256 \<Longrightarrow> m < 256 \<Longrightarrow> (x + 256 * y) AND (m + 256 * z) = (x AND m) + 256 * (y AND z :: nat)"
  using byte_split [of "(x + 256 * y) AND (m + 256 * z)"] by (simp add: take_bit_and drop_bit_and)

lemma rep_byte_dvd: "2 ^ s dvd m \<Longrightarrow> s \<le> 8 \<Longrightarrow> 2 ^ s dvd rep_byte m k"
proof (induction k)
  case (Suc k)
  have "(2 :: nat) ^ s dvd 2 ^ 8"
    using Suc.prems(2) by (rule le_imp_power_dvd)
  then show ?case
    using Suc.prems(1) by simp
qed simp

lemma and_dvd: "2 ^ s dvd (b :: nat) \<Longrightarrow> 2 ^ s dvd a AND b"
  by (simp flip: take_bit_eq_0_iff add: take_bit_and)

lemma fold_bits_Suc:
  assumes "x < 256" "m < 256" "m' < 256" "2 ^ s dvd m'" "s \<le> 8"
  shows "fold_bits s m m' (Suc k) (x + 256 * y) = fold_byte s m m' x + 256 * fold_bits s m m' k y"
proof -
  let ?z = "y AND rep_byte m' k"
  obtain c where c: "?z = 2 ^ s * c"
    using and_dvd [OF rep_byte_dvd [OF assms(4,5)], of y k] by (auto elim: dvdE)
  have "((x AND m') + 256 * ?z) div 2 ^ s = (x AND m') div 2 ^ s + 256 * (?z div 2 ^ s)"
    using div_mult_self2 [of "2 ^ s :: nat" "x AND m'" "256 * c"] by (simp add: c ac_simps)
  then show ?thesis
    using assms by (simp add: fold_bits_def fold_byte_def and_bytes)
qed

lemma nat_and_le: "x AND m \<le> (m :: nat)"
proof -
  have "int x AND int m \<le> int m"
    by simp
  then show ?thesis
    by (simp flip: of_nat_and_eq)
qed

lemma fold_byte_bound: "m + m' div 2 ^ s < 256 \<Longrightarrow> fold_byte s m m' x < 256"
  unfolding fold_byte_def by (rule le_less_trans [OF add_mono]) (auto intro: div_le_mono nat_and_le)

lemma fold_bits_bound:
  assumes "m + m' div 2 ^ s < 256" "m < 256" "m' < 256" "2 ^ s dvd m'" "s \<le> 8"
  shows "fold_bits s m m' k n < 256 ^ k"
proof (induction k arbitrary: n)
  case (Suc k)
  let ?x = "take_bit 8 n" and ?y = "drop_bit 8 n"
  have "fold_bits s m m' (Suc k) n = fold_byte s m m' ?x + 256 * fold_bits s m m' k ?y"
    using fold_bits_Suc [of ?x m m' s k ?y] assms byte_split [of n] by (simp add: take_bit_eq_mod)
  moreover have "fold_byte s m m' ?x < 256" "fold_bits s m m' k ?y < 256 ^ k"
    using fold_byte_bound [OF assms(1)] Suc.IH by simp_all
  ultimately show ?case
    by simp
qed (simp add: fold_bits_def)

section \<open>Three steps\<close>

definition count_bytes :: "nat \<Rightarrow> nat \<Rightarrow> nat" where
  "count_bytes k n = fold_bits 4 0x0F 0xF0 k (fold_bits 2 0x33 0xCC k (fold_bits 1 0x55 0xAA k n))"

definition count_byte :: "nat \<Rightarrow> nat" where
  "count_byte x = fold_byte 4 0x0F 0xF0 (fold_byte 2 0x33 0xCC (fold_byte 1 0x55 0xAA x))"

lemma count_bytes_Suc: "count_bytes (Suc k) n = count_byte (take_bit 8 n) + 256 * count_bytes k (drop_bit 8 n)"
proof -
  let ?x = "take_bit 8 n" and ?y = "drop_bit 8 n"
  let ?x1 = "fold_byte 1 0x55 0xAA ?x"
  let ?x2 = "fold_byte 2 0x33 0xCC ?x1"
  have x: "?x < 256" "?x1 < 256" "?x2 < 256"
    by (simp add: take_bit_eq_mod) (rule fold_byte_bound; simp)+
  have "fold_bits 1 0x55 0xAA (Suc k) (?x + 256 * ?y) = ?x1 + 256 * fold_bits 1 0x55 0xAA k ?y"
    using x by (intro fold_bits_Suc) simp_all
  moreover have "fold_bits 2 0x33 0xCC (Suc k) (?x1 + 256 * z) = ?x2 + 256 * fold_bits 2 0x33 0xCC k z" for z
    using x by (intro fold_bits_Suc) simp_all
  moreover have "fold_bits 4 0x0F 0xF0 (Suc k) (?x2 + 256 * z) = fold_byte 4 0x0F 0xF0 ?x2 + 256 * fold_bits 4 0x0F 0xF0 k z" for z
    using x by (intro fold_bits_Suc) simp_all
  ultimately have "count_bytes (Suc k) (?x + 256 * ?y) = count_byte ?x + 256 * count_bytes k ?y"
    by (simp only: count_bytes_def count_byte_def)
  then show ?thesis
    by (simp only: byte_split [of n, symmetric])
qed

text \<open>A byte has eight bits.\<close>

lemma low_bit: "n < 2 * m \<Longrightarrow> \<exists>b n'. n = of_bool b + 2 * n' \<and> n' < (m :: nat)"
  by (intro exI [of _ "odd n"] exI [of _ "n div 2"]) (auto simp: of_bool_def)

lemma byte_bits:
  assumes "x < (256 :: nat)"
  obtains b0 b1 b2 b3 b4 b5 b6 b7 where
    "x = of_bool b0 + 2 * (of_bool b1 + 2 * (of_bool b2 + 2 * (of_bool b3 + 2 * (of_bool b4 + 2 * (of_bool b5 + 2 * (of_bool b6 + 2 * of_bool b7))))))"
proof -
  obtain b0 x1 where 0: "x = of_bool b0 + 2 * x1" "x1 < 128" using low_bit [of x 128] assms by auto
  obtain b1 x2 where 1: "x1 = of_bool b1 + 2 * x2" "x2 < 64" using low_bit [of x1 64] 0 by auto
  obtain b2 x3 where 2: "x2 = of_bool b2 + 2 * x3" "x3 < 32" using low_bit [of x2 32] 1 by auto
  obtain b3 x4 where 3: "x3 = of_bool b3 + 2 * x4" "x4 < 16" using low_bit [of x3 16] 2 by auto
  obtain b4 x5 where 4: "x4 = of_bool b4 + 2 * x5" "x5 < 8" using low_bit [of x4 8] 3 by auto
  obtain b5 x6 where 5: "x5 = of_bool b5 + 2 * x6" "x6 < 4" using low_bit [of x5 4] 4 by auto
  obtain b6 x7 where 6: "x6 = of_bool b6 + 2 * x7" "x7 < 2" using low_bit [of x6 2] 5 by auto
  obtain b7 where 7: "x7 = of_bool b7" using 6 by (metis less_2_cases of_bool_eq(1) of_bool_eq(2) One_nat_def)
  show ?thesis
    using that 0(1) 1(1) 2(1) 3(1) 4(1) 5(1) 6(1) 7 by blast
qed

definition bit_sum :: "nat \<Rightarrow> nat \<Rightarrow> nat" where
  "bit_sum k n = (\<Sum>i < k. of_bool (bit n i))"

lemma bit_sum_step: "bit_sum (Suc k) (of_bool b + 2 * n) = of_bool b + bit_sum k n"
  by (simp add: bit_sum_def sum.lessThan_Suc_shift bit_Suc del: sum.lessThan_Suc) (simp add: bit_0)

lemma bit_sum_0 [simp]: "bit_sum 0 n = 0"
  by (simp add: bit_sum_def)

lemma count_byte_ok:
  assumes "x < 256"
  shows "count_byte x = bit_sum 8 x"
proof -
  obtain b0 b1 b2 b3 b4 b5 b6 b7 where
    x: "x = of_bool b0 + 2 * (of_bool b1 + 2 * (of_bool b2 + 2 * (of_bool b3 + 2 * (of_bool b4 + 2 * (of_bool b5 + 2 * (of_bool b6 + 2 * of_bool b7))))))"
    using byte_bits [OF assms] .
  have "bit_sum 8 x = of_bool b0 + (of_bool b1 + (of_bool b2 + (of_bool b3 + (of_bool b4 + (of_bool b5 + (of_bool b6 + of_bool b7))))))"
  proof -
    have top: "bit_sum (Suc 0) (of_bool b7) = of_bool b7"
      using bit_sum_step [of 0 b7 0] by simp
    have "(8 :: nat) = Suc (Suc (Suc (Suc (Suc (Suc (Suc (Suc 0)))))))"
      by simp
    then show ?thesis
      unfolding x by (simp only: bit_sum_step top)
  qed
  moreover have "count_byte x = of_bool b0 + (of_bool b1 + (of_bool b2 + (of_bool b3 + (of_bool b4 + (of_bool b5 + (of_bool b6 + of_bool b7))))))"
    unfolding x count_byte_def fold_byte_def
    by (cases b0; cases b1; cases b2; cases b3; cases b4; cases b5; cases b6; cases b7; simp flip: numeral_2_eq_2)
  ultimately show ?thesis
    by simp
qed

lemma count_byte_take: "count_byte (take_bit 8 n) = bit_sum 8 n"
proof -
  have "bit_sum 8 (take_bit 8 n) = bit_sum 8 n"
    unfolding bit_sum_def by (rule sum.cong) (simp_all add: bit_take_bit_iff)
  then show ?thesis
    using count_byte_ok [of "take_bit 8 n"] by (simp add: take_bit_eq_mod)
qed

lemma bit_sum_bytes: "bit_sum (8 + k) n = bit_sum 8 n + bit_sum k (drop_bit 8 n)"
proof (induction k)
  case (Suc k)
  have last_bit: "bit_sum (Suc j) m = bit_sum j m + of_bool (bit m j)" for j m
    unfolding bit_sum_def by (rule sum.lessThan_Suc)
  show ?case
    using Suc.IH by (simp only: add_Suc_right last_bit bit_drop_bit_eq comp_apply add.assoc)
qed simp

lemma bit_sum_le: "bit_sum k n \<le> k"
  unfolding bit_sum_def by (rule order_trans [OF sum_bounded_above [of _ _ 1]]) simp_all

section \<open>The multiplication adds the bytes\<close>

lemma add_bytes:
  assumes "a \<le> 8" "b \<le> 8" "c \<le> 8" "d \<le> 8" "e \<le> 8" "f \<le> 8" "g \<le> 8" "h \<le> (8 :: nat)"
  shows "(a + 256 * (b + 256 * (c + 256 * (d + 256 * (e + 256 * (f + 256 * (g + 256 * h))))))) * 0x0101010101010101 mod 2 ^ 64 div 2 ^ 56
    = a + b + c + d + e + f + g + h"
proof -
  let ?T = "a + b + c + d + e + f + g + h"
  let ?L = "a + 256 * ((a + b) + 256 * ((a + b + c) + 256 * ((a + b + c + d) + 256 * ((a + b + c + d + e) + 256 * ((a + b + c + d + e + f) + 256 * (a + b + c + d + e + f + g))))))"
  let ?H = "(b + c + d + e + f + g + h) + 256 * ((c + d + e + f + g + h) + 256 * ((d + e + f + g + h) + 256 * ((e + f + g + h) + 256 * ((f + g + h) + 256 * ((g + h) + 256 * h)))))"
  have prod: "(a + 256 * (b + 256 * (c + 256 * (d + 256 * (e + 256 * (f + 256 * (g + 256 * h))))))) * 0x0101010101010101 = ?L + 2 ^ 56 * ?T + 2 ^ 64 * ?H"
    by simp
  have L: "?L < 2 ^ 56" and T: "?T \<le> 64"
    using assms by simp_all
  have "l + 2 ^ 56 * t < 2 ^ 64" if "l < 2 ^ 56" "t \<le> 64" for l t :: nat
    using that by simp
  from this [OF L T] have "?L + 2 ^ 56 * ?T < 2 ^ 64" .
  then have low: "(?L + 2 ^ 56 * ?T + 2 ^ 64 * ?H) mod 2 ^ 64 = ?L + 2 ^ 56 * ?T"
    by (simp only: mod_mult_self2 mod_less)
  have "(?L + 2 ^ 56 * ?T) div 2 ^ 56 = ?T + ?L div 2 ^ 56"
    by (rule div_mult_self2) simp
  then have "(?L + 2 ^ 56 * ?T) div 2 ^ 56 = ?T"
    using div_less [OF L] by (simp only: add_0_right)
  then show ?thesis
    unfolding prod low .
qed

section \<open>Words\<close>

lemma unat_drop: "unat (drop_bit s w :: u64) = unat w div 2 ^ s"
proof -
  have "take_bit 64 (unat w) = unat w"
    using take_bit_nat_eq_self [OF unsigned_less [of w]] by simp
  then show ?thesis
    unfolding unsigned_drop_bit_eq by (simp add: drop_bit_eq_div)
qed

lemma unat_fold:
  assumes "unat M = rep_byte m 8" "unat M' = rep_byte m' 8" "m + m' div 2 ^ s < 256" "m < 256" "m' < 256" "2 ^ s dvd m'" "s \<le> 8"
  shows "unat ((v AND M) + drop_bit s (v AND M') :: u64) = fold_bits s m m' 8 (unat v)"
proof -
  have parts: "unat (v AND M) = unat v AND rep_byte m 8" "unat (drop_bit s (v AND M')) = (unat v AND rep_byte m' 8) div 2 ^ s"
    using assms(1,2) by (simp_all only: unsigned_and_eq unat_drop)
  have "fold_bits s m m' 8 (unat v) < 2 ^ 64"
    using fold_bits_bound [OF assms(3-7), of 8 "unat v"] by simp
  then have "unat (v AND M) + unat (drop_bit s (v AND M')) < 2 ^ LENGTH(64)"
    by (simp only: parts fold_bits_def) simp
  then have "unat ((v AND M) + drop_bit s (v AND M')) = unat (v AND M) + unat (drop_bit s (v AND M'))"
    by (rule unat_add_lem [THEN iffD1])
  then show ?thesis
    by (simp only: parts fold_bits_def)
qed

lemma rep_byte_8: "rep_byte m 8 = 0x0101010101010101 * m"
proof -
  have "(8 :: nat) = Suc (Suc (Suc (Suc (Suc (Suc (Suc (Suc 0)))))))"
    by simp
  then show ?thesis
    by (simp only: rep_byte.simps) simp
qed

definition byte_count :: "nat \<Rightarrow> nat \<Rightarrow> nat" where
  "byte_count n j = bit_sum 8 (drop_bit (8 * j) n)"

lemma byte_count_Suc: "byte_count (drop_bit 8 n) j = byte_count n (Suc j)"
  by (simp add: byte_count_def add.commute)

lemma byte_count_0: "byte_count n 0 = bit_sum 8 n"
  by (simp add: byte_count_def)

lemma count_bytes_sum: "count_bytes k n = (\<Sum>j < k. byte_count n j * 256 ^ j)"
proof (induction k arbitrary: n)
  case (Suc k)
  have "(\<Sum>j < Suc k. byte_count n j * 256 ^ j) = byte_count n 0 + (\<Sum>j < k. byte_count n (Suc j) * 256 ^ Suc j)"
    unfolding sum.lessThan_Suc_shift by simp
  also have "\<dots> = byte_count n 0 + 256 * (\<Sum>j < k. byte_count n (Suc j) * 256 ^ j)"
    by (simp add: sum_distrib_left ac_simps)
  finally show ?case
    using Suc.IH [of "drop_bit 8 n"] by (simp add: count_bytes_Suc count_byte_take byte_count_Suc byte_count_0)
qed (simp add: count_bytes_def fold_bits_def)

lemma bit_sum_sum: "bit_sum (8 * k) n = (\<Sum>j < k. byte_count n j)"
proof (induction k arbitrary: n)
  case (Suc k)
  have "(\<Sum>j < Suc k. byte_count n j) = byte_count n 0 + (\<Sum>j < k. byte_count n (Suc j))"
    by (rule sum.lessThan_Suc_shift)
  then show ?case
    using Suc.IH [of "drop_bit 8 n"] bit_sum_bytes [of "8 * k" n] by (simp add: byte_count_Suc byte_count_0)
qed simp

lemma popcnt_word_unat: "unat (popcnt_word v) = bit_sum 64 (unat v)"
proof -
  define v1 where "v1 = (v AND 0x5555555555555555) + drop_bit 1 (v AND 0xAAAAAAAAAAAAAAAA)"
  define v2 where "v2 = (v1 AND 0x3333333333333333) + drop_bit 2 (v1 AND 0xCCCCCCCCCCCCCCCC)"
  define v3 where "v3 = (v2 AND 0x0F0F0F0F0F0F0F0F) + drop_bit 4 (v2 AND 0xF0F0F0F0F0F0F0F0)"
  have "unat v1 = fold_bits 1 0x55 0xAA 8 (unat v)" "unat v2 = fold_bits 2 0x33 0xCC 8 (unat v1)" "unat v3 = fold_bits 4 0x0F 0xF0 8 (unat v2)"
    unfolding v1_def v2_def v3_def by (rule unat_fold; simp add: rep_byte_8)+
  then have v3: "unat v3 = (\<Sum>j < 8. byte_count (unat v) j * 256 ^ j)"
    using count_bytes_sum [of 8 "unat v"] by (simp only: count_bytes_def)
  let ?c = "byte_count (unat v)"
  have c: "?c j \<le> 8" for j
    by (simp add: byte_count_def bit_sum_le)
  have "unat v3 = ?c 0 + 256 * (?c 1 + 256 * (?c 2 + 256 * (?c 3 + 256 * (?c 4 + 256 * (?c 5 + 256 * (?c 6 + 256 * ?c 7))))))"
    unfolding v3 by (simp add: lessThan_nat_numeral lessThan_Suc)
  then have "unat (v3 * 0x0101010101010101) div 2 ^ 56 = ?c 0 + ?c 1 + ?c 2 + ?c 3 + ?c 4 + ?c 5 + ?c 6 + ?c 7"
    using add_bytes [OF c c c c c c c c] by (simp add: unat_word_ariths)
  also have "\<dots> = bit_sum 64 (unat v)"
    using bit_sum_sum [of 8 "unat v"] by (simp add: lessThan_nat_numeral lessThan_Suc)
  finally have top: "unat (drop_bit 56 (v3 * 0x0101010101010101)) = bit_sum 64 (unat v)"
    by (simp add: unat_drop)
  have "popcnt_word v = drop_bit 56 (v3 * 0x0101010101010101) AND 0xFF"
    by (simp add: popcnt_word_def v1_def v2_def v3_def Let_def)
  then have "unat (popcnt_word v) = take_bit 8 (bit_sum 64 (unat v))"
    using top by (simp add: unsigned_and_eq take_bit_eq_mask mask_eq_exp_minus_1)
  then show ?thesis
    using bit_sum_le [of 64 "unat v"] by (simp add: take_bit_eq_mod)
qed

lemma bit_sum_card: "bit_sum 64 (unat v) = card {i. i < 64 \<and> bit (v :: u64) i}"
proof -
  have "bit_sum 64 (unat v) = card ({..<64} \<inter> {i. bit (unat v) i})"
    unfolding bit_sum_def by (simp add: Int_def)
  moreover have "{..<64} \<inter> {i. bit (unat v) i} = {i. i < 64 \<and> bit v i}"
    by (auto simp: bit_unsigned_iff)
  ultimately show ?thesis
    by simp
qed

lemma bits_of_Cons: "bits_of (v # b) = {i. i < 64 \<and> bit v i} \<union> (\<lambda>i. i + 64) ` bits_of b"
proof (rule set_eqI)
  fix i
  show "i \<in> bits_of (v # b) \<longleftrightarrow> i \<in> {i. i < 64 \<and> bit v i} \<union> (\<lambda>i. i + 64) ` bits_of b"
  proof (cases "i < 64")
    case True
    then show ?thesis
      by (auto simp: bits_of_def)
  next
    case False
    then obtain k where "i = k + 64"
      by (metis le_add_diff_inverse2 not_less)
    moreover have "(k + 64) div 64 = Suc (k div 64)"
      by simp
    ultimately show ?thesis
      by (auto simp: bits_of_def)
  qed
qed

lemma card_bits_of: "finite (bits_of b) \<and> card (bits_of b) = (\<Sum>v \<leftarrow> b. bit_sum 64 (unat v))"
proof (induction b)
  case Nil
  then show ?case
    by (simp add: bits_of_def)
next
  case (Cons v b)
  have "{i. i < 64 \<and> bit v i} \<inter> (\<lambda>i. i + 64) ` bits_of b = {}"
    by auto
  then show ?case
    using Cons.IH by (simp add: bits_of_Cons card_Un_disjoint card_image bit_sum_card)
qed

section \<open>Property\<close>

text \<open>
  C27: The population count of a bitset, computed with masks, shifts and one multiplication on 64-bit words that wrap, is the number of elements of the
  set that the bitset stands for, modulo the word size; the count of one word is exactly the number of its bits, at most 64.
\<close>

theorem popcnt_counts:
  "popcnt b = of_nat (card (bits_of b)) \<and> unat (popcnt_word v) = card {i. i < 64 \<and> bit v i} \<and> unat (popcnt_word v) \<le> 64"
proof -
  have w: "popcnt_word v = of_nat (bit_sum 64 (unat v))" for v
    using popcnt_word_unat [of v] bit_sum_le [of 64 "unat v"] by (simp add: word_unat_eq_iff unat_of_nat)
  have "foldl (\<lambda>total v. total + popcnt_word v) t b = t + of_nat (\<Sum>v \<leftarrow> b. bit_sum 64 (unat v))" for t
    by (induction b arbitrary: t) (simp_all add: w add.assoc)
  then have "popcnt b = of_nat (card (bits_of b))"
    by (simp add: popcnt_def card_bits_of)
  then show ?thesis
    using popcnt_word_unat [of v] bit_sum_card [of v] bit_sum_le [of 64 "unat v"] by simp
qed

end
