(* ===== verification/LabRpc.thy ===== *)
theory LabRpc
  imports GoLib
begin

text \<open>
  The simulated network of the labs (\<open>src/lab4/src/labrpc/labrpc.go\<close>).

  \<^item> Names are \<open>interface{}\<close> values: a string (an end) or an int (a server); nil is \<open>None\<close>. A map that is read without
    testing the presence of the key is a function with the zero value as its default.
  \<^item> \<open>*Server\<close> pointers are compared, so that servers live in a store with addresses. The handlers act on a state \<open>'o\<close>
    of all receivers.
  \<^item> \<open>encoding/gob\<close> is a parameter \<open>gob\<close>; a \<open>reflect.Type\<close> is its name.
  \<^item> The goroutines of a call (the caller, \<open>ProcessReq\<close>, the goroutine of the handler) are a step relation. Delays and the
    random number generator are choices. A handler runs in one step. Reflection calls it with the arguments the client sent; arguments of another type
    than the parameter of the method, with which \<open>function.Call\<close> panics, are not modelled.
\<close>

section \<open>Servers and services\<close>

datatype iface = IStr string | IInt int

text \<open>\<open>dec\<close> decodes into a variable: it returns whether there was no error, and the variable afterwards.\<close>

record 'v gob =
  typeof :: "'v \<Rightarrow> string"
  zero_of :: "string \<Rightarrow> 'v"
  enc :: "'v \<Rightarrow> string"
  dec :: "'v \<Rightarrow> string \<Rightarrow> bool \<times> 'v"

record reqMsg =
  rq_endname :: iface
  rq_svcMeth :: string
  rq_argsType :: string
  rq_args :: string

record replyMsg =
  rp_ok :: bool
  rp_reply :: string

record ('o, 'v) Method =
  mt_name :: string
  mt_PkgPath :: string
  mt_NumIn :: nat
  mt_In2Ptr :: bool
  mt_NumOut :: nat
  mt_replyType :: string
  mt_Func :: "'o \<Rightarrow> 'v \<Rightarrow> 'v \<Rightarrow> 'o \<times> 'v"

record ('o, 'v) Service =
  svc_name :: string
  svc_methods :: "string \<rightharpoonup> ('o, 'v) Method"

record ('o, 'v) Server =
  sv_services :: "string \<rightharpoonup> ('o, 'v) Service"
  sv_count :: int

text \<open>The methods of a receiver are what reflection reports for its type.\<close>

fun service_methods :: "('o, 'v) Method list \<Rightarrow> (string \<rightharpoonup> ('o, 'v) Method) \<Rightarrow> string \<rightharpoonup> ('o, 'v) Method" where
  "service_methods [] m = m"
| "service_methods (method # ms) m =
     (if mt_PkgPath method \<noteq> [] \<or> mt_NumIn method \<noteq> 3 \<or> \<not> mt_In2Ptr method \<or> mt_NumOut method \<noteq> 0
      then service_methods ms m
      else service_methods ms (m(mt_name method \<mapsto> method)))"

definition MakeService :: "string \<Rightarrow> ('o, 'v) Method list \<Rightarrow> ('o, 'v) Service" where
  "MakeService tname ms = \<lparr>svc_name = tname, svc_methods = service_methods ms Map.empty\<rparr>"

definition svc_dispatch :: "'v gob \<Rightarrow> ('o, 'v) Service \<Rightarrow> string \<Rightarrow> reqMsg \<Rightarrow> 'o \<Rightarrow> (replyMsg \<times> 'o) result" where
  "svc_dispatch g svc methname req w =
     (case svc_methods svc methname of
        Some method \<Rightarrow>
          let args = snd (dec g (zero_of g (rq_argsType req)) (rq_args req));
              replyv = zero_of g (mt_replyType method)
          in (case mt_Func method w args replyv of (w, replyv) \<Rightarrow> Inr (\<lparr>rp_ok = True, rp_reply = enc g replyv\<rparr>, w))
      | None \<Rightarrow> Inl Fatal)"

definition MakeServer :: "('o, 'v) Server" where
  "MakeServer = \<lparr>sv_services = Map.empty, sv_count = 0\<rparr>"

definition AddService :: "('o, 'v) Service \<Rightarrow> ('o, 'v) Server \<Rightarrow> ('o, 'v) Server" where
  "AddService svc rs = rs\<lparr>sv_services := (sv_services rs)(svc_name svc \<mapsto> svc)\<rparr>"

definition dispatch :: "'v gob \<Rightarrow> reqMsg \<Rightarrow> ('o, 'v) Server \<Rightarrow> 'o \<Rightarrow> (replyMsg \<times> ('o, 'v) Server \<times> 'o) result" where
  "dispatch g req rs w =
     (let rs = rs\<lparr>sv_count := sv_count rs + 1\<rparr>; dot = str_LastIndex (rq_svcMeth req) ''.''
      in bindR (panic_unless (go_slice (rq_svcMeth req) 0 dot)) (\<lambda>serviceName.
         bindR (panic_unless (go_slice_from (rq_svcMeth req) (dot + 1))) (\<lambda>methodName.
           case sv_services rs serviceName of
             Some service \<Rightarrow> bindR (svc_dispatch g service methodName req w) (\<lambda>(r, w). Inr (r, rs, w))
           | None \<Rightarrow> Inl Fatal)))"

section \<open>The network\<close>

record Network =
  reliable :: bool
  longDelays :: bool
  longReordering :: bool
  ends :: "iface set"
  enabled :: "iface \<Rightarrow> bool"
  servers :: "iface \<Rightarrow> nat option"
  connections :: "iface \<Rightarrow> iface option"
  net_done :: bool
  net_count :: "32 word"

definition MakeNetwork :: Network where
  "MakeNetwork = \<lparr>reliable = True, longDelays = False, longReordering = False, ends = {}, enabled = (\<lambda>_. False),
     servers = (\<lambda>_. None), connections = (\<lambda>_. None), net_done = False, net_count = 0\<rparr>"

definition Cleanup :: "Network \<Rightarrow> Network result" where
  "Cleanup rn = (if net_done rn then Inl Panic else Inr (rn\<lparr>net_done := True\<rparr>))"

definition Reliable :: "bool \<Rightarrow> Network \<Rightarrow> Network" where
  "Reliable yes rn = rn\<lparr>reliable := yes\<rparr>"

definition LongReordering :: "bool \<Rightarrow> Network \<Rightarrow> Network" where
  "LongReordering yes rn = rn\<lparr>longReordering := yes\<rparr>"

definition LongDelays :: "bool \<Rightarrow> Network \<Rightarrow> Network" where
  "LongDelays yes rn = rn\<lparr>longDelays := yes\<rparr>"

definition ReadEndnameInfo :: "iface \<Rightarrow> Network \<Rightarrow> bool \<times> iface option \<times> nat option \<times> bool \<times> bool" where
  "ReadEndnameInfo endname rn =
     (let servername = connections rn endname
      in (enabled rn endname, servername, (case servername of None \<Rightarrow> None | Some n \<Rightarrow> servers rn n), reliable rn, longReordering rn))"

definition IsServerDead :: "iface \<Rightarrow> iface \<Rightarrow> nat \<Rightarrow> Network \<Rightarrow> bool" where
  "IsServerDead endname servername server rn \<longleftrightarrow> enabled rn endname = False \<or> servers rn servername \<noteq> Some server"

definition MakeEnd :: "iface \<Rightarrow> Network \<Rightarrow> Network result" where
  "MakeEnd endname rn =
     (if endname \<in> ends rn then Inl Fatal
      else Inr (rn\<lparr>ends := insert endname (ends rn), enabled := (enabled rn)(endname := False),
                   connections := (connections rn)(endname := None)\<rparr>))"

definition AddServer :: "iface \<Rightarrow> nat \<Rightarrow> Network \<Rightarrow> Network" where
  "AddServer servername rs rn = rn\<lparr>servers := (servers rn)(servername := Some rs)\<rparr>"

definition DeleteServer :: "iface \<Rightarrow> Network \<Rightarrow> Network" where
  "DeleteServer servername rn = rn\<lparr>servers := (servers rn)(servername := None)\<rparr>"

definition Connect :: "iface \<Rightarrow> iface \<Rightarrow> Network \<Rightarrow> Network" where
  "Connect endname servername rn = rn\<lparr>connections := (connections rn)(endname := Some servername)\<rparr>"

definition Enable :: "iface \<Rightarrow> bool \<Rightarrow> Network \<Rightarrow> Network" where
  "Enable endname b rn = rn\<lparr>enabled := (enabled rn)(endname := b)\<rparr>"

text \<open>A server that was deleted is a nil pointer, and its \<open>GetCount\<close> panics.\<close>

definition GetCount :: "iface \<Rightarrow> (nat \<rightharpoonup> ('o, 'v) Server) \<Rightarrow> Network \<Rightarrow> int result" where
  "GetCount servername store rn =
     bindR (panic_unless (servers rn servername)) (\<lambda>a. bindR (panic_unless (store a)) (\<lambda>svr. Inr (sv_count svr)))"

definition GetTotalCount :: "Network \<Rightarrow> int" where
  "GetTotalCount rn = sint (net_count rn)"

section \<open>Calls\<close>

text \<open>
  What \<open>ProcessReq\<close> read when it started, and where a call and its handler stand. The log of the system records which
  call was executed by which server, in which state of the receivers and with which reply.
\<close>

record req_info =
  ri_servername :: iface
  ri_server :: nat
  ri_reliable :: bool

datatype handler = NotStarted | Started | Executed replyMsg

datatype 'v call_pc =
    Sending
  | Accepted
  | WaitReply
  | GotReply replyMsg
  | Replying replyMsg
  | Returned bool 'v

record 'v rpc_call =
  rc_req :: reqMsg
  rc_reply :: 'v
  rc_pc :: "'v call_pc"
  rc_info :: "req_info option"
  rc_handler :: handler

record ('o, 'v) rpc_sys =
  rs_net :: Network
  rs_loop :: bool
  rs_store :: "nat \<rightharpoonup> ('o, 'v) Server"
  rs_world :: 'o
  rs_calls :: "nat \<rightharpoonup> 'v rpc_call"
  rs_log :: "(nat \<times> nat \<times> 'o \<times> replyMsg) list"
  rs_fatal :: bool

definition make_request :: "'v gob \<Rightarrow> iface \<Rightarrow> string \<Rightarrow> 'v \<Rightarrow> reqMsg" where
  "make_request g endname svcMeth args =
     \<lparr>rq_endname = endname, rq_svcMeth = svcMeth, rq_argsType = typeof g args, rq_args = enc g args\<rparr>"

definition no_reply :: replyMsg where
  "no_reply = \<lparr>rp_ok = False, rp_reply = []\<rparr>"

definition set_call :: "nat \<Rightarrow> 'v rpc_call \<Rightarrow> ('o, 'v) rpc_sys \<Rightarrow> ('o, 'v) rpc_sys" where
  "set_call k c s = s\<lparr>rs_calls := (rs_calls s)(k \<mapsto> c)\<rparr>"

text \<open>The administration of the network, which tests run beside the calls.\<close>

inductive net_admin :: "Network \<Rightarrow> Network \<Rightarrow> bool" where
  "net_admin rn (Reliable b rn)"
| "net_admin rn (LongReordering b rn)"
| "net_admin rn (LongDelays b rn)"
| "net_admin rn (DeleteServer sn rn)"
| "net_admin rn (Connect en sn rn)"
| "net_admin rn (Enable en b rn)"
| "MakeEnd en rn = Inr rn' \<Longrightarrow> net_admin rn rn'"
| "Cleanup rn = Inr rn' \<Longrightarrow> net_admin rn rn'"

inductive rpc_step :: "'v gob \<Rightarrow> ('o, 'v) rpc_sys \<Rightarrow> ('o, 'v) rpc_sys \<Rightarrow> bool" for g where
  admin: "net_admin (rs_net s) rn \<Longrightarrow> rpc_step g s (s\<lparr>rs_net := rn\<rparr>)"
| new_server: "rs_store s a = None \<Longrightarrow> sv_count srv = 0 \<Longrightarrow>
    rpc_step g s (s\<lparr>rs_store := (rs_store s)(a \<mapsto> srv), rs_net := AddServer sn a (rs_net s)\<rparr>)"
| add_server: "rs_store s a \<noteq> None \<Longrightarrow> rpc_step g s (s\<lparr>rs_net := AddServer sn a (rs_net s)\<rparr>)"
| call: "rs_calls s k = None \<Longrightarrow> en \<in> ends (rs_net s) \<Longrightarrow>
    rpc_step g s (set_call k \<lparr>rc_req = make_request g en svcMeth args, rc_reply = v, rc_pc = Sending, rc_info = None, rc_handler = NotStarted\<rparr> s)"
| cleaned: "rs_calls s k = Some c \<Longrightarrow> rc_pc c = Sending \<Longrightarrow> net_done (rs_net s) \<Longrightarrow>
    rpc_step g s (set_call k (c\<lparr>rc_pc := Returned False (rc_reply c)\<rparr>) s)"
| accept: "rs_calls s k = Some c \<Longrightarrow> rc_pc c = Sending \<Longrightarrow> rs_loop s \<Longrightarrow>
    rpc_step g s (set_call k (c\<lparr>rc_pc := Accepted\<rparr>) (s\<lparr>rs_net := (rs_net s)\<lparr>net_count := net_count (rs_net s) + 1\<rparr>\<rparr>))"
| loop_ends: "net_done (rs_net s) \<Longrightarrow> rpc_step g s (s\<lparr>rs_loop := False\<rparr>)"
| unreachable: "rs_calls s k = Some c \<Longrightarrow> rc_pc c = Accepted \<Longrightarrow>
    ReadEndnameInfo (rq_endname (rc_req c)) (rs_net s) = (en, sn, sv, rel, lr) \<Longrightarrow> \<not> en \<or> sn = None \<or> sv = None \<Longrightarrow>
    rpc_step g s (set_call k (c\<lparr>rc_pc := Replying no_reply\<rparr>) s)"
| drop_request: "rs_calls s k = Some c \<Longrightarrow> rc_pc c = Accepted \<Longrightarrow>
    ReadEndnameInfo (rq_endname (rc_req c)) (rs_net s) = (True, Some sn, Some a, False, lr) \<Longrightarrow>
    rpc_step g s (set_call k (c\<lparr>rc_pc := Replying no_reply\<rparr>) s)"
| start_handler: "rs_calls s k = Some c \<Longrightarrow> rc_pc c = Accepted \<Longrightarrow>
    ReadEndnameInfo (rq_endname (rc_req c)) (rs_net s) = (True, Some sn, Some a, rel, lr) \<Longrightarrow>
    rpc_step g s (set_call k (c\<lparr>rc_pc := WaitReply, rc_info := Some \<lparr>ri_servername = sn, ri_server = a, ri_reliable = rel\<rparr>, rc_handler := Started\<rparr>) s)"
| execute: "rs_calls s k = Some c \<Longrightarrow> rc_handler c = Started \<Longrightarrow> rc_info c = Some ri \<Longrightarrow> rs_store s (ri_server ri) = Some srv \<Longrightarrow>
    dispatch g (rc_req c) srv (rs_world s) = Inr (r, srv', w) \<Longrightarrow>
    rpc_step g s (set_call k (c\<lparr>rc_handler := Executed r\<rparr>)
      (s\<lparr>rs_store := (rs_store s)(ri_server ri \<mapsto> srv'), rs_world := w, rs_log := rs_log s @ [(k, ri_server ri, rs_world s, r)]\<rparr>))"
| execute_fails: "rs_calls s k = Some c \<Longrightarrow> rc_handler c = Started \<Longrightarrow> rc_info c = Some ri \<Longrightarrow> rs_store s (ri_server ri) = Some srv \<Longrightarrow>
    dispatch g (rc_req c) srv (rs_world s) = Inl e \<Longrightarrow> rpc_step g s (s\<lparr>rs_fatal := True\<rparr>)"
| receive: "rs_calls s k = Some c \<Longrightarrow> rc_pc c = WaitReply \<Longrightarrow> rc_handler c = Executed r \<Longrightarrow>
    rpc_step g s (set_call k (c\<lparr>rc_pc := GotReply r\<rparr>) s)"
| give_up: "rs_calls s k = Some c \<Longrightarrow> rc_pc c = WaitReply \<Longrightarrow> rc_info c = Some ri \<Longrightarrow>
    IsServerDead (rq_endname (rc_req c)) (ri_servername ri) (ri_server ri) (rs_net s) \<Longrightarrow>
    rpc_step g s (set_call k (c\<lparr>rc_pc := Replying no_reply\<rparr>) s)"
| killed: "rs_calls s k = Some c \<Longrightarrow> rc_pc c = GotReply r \<Longrightarrow> rc_info c = Some ri \<Longrightarrow>
    IsServerDead (rq_endname (rc_req c)) (ri_servername ri) (ri_server ri) (rs_net s) \<Longrightarrow>
    rpc_step g s (set_call k (c\<lparr>rc_pc := Replying no_reply\<rparr>) s)"
| drop_reply: "rs_calls s k = Some c \<Longrightarrow> rc_pc c = GotReply r \<Longrightarrow> rc_info c = Some ri \<Longrightarrow> \<not> ri_reliable ri \<Longrightarrow>
    \<not> IsServerDead (rq_endname (rc_req c)) (ri_servername ri) (ri_server ri) (rs_net s) \<Longrightarrow>
    rpc_step g s (set_call k (c\<lparr>rc_pc := Replying no_reply\<rparr>) s)"
| answer: "rs_calls s k = Some c \<Longrightarrow> rc_pc c = GotReply r \<Longrightarrow> rc_info c = Some ri \<Longrightarrow>
    \<not> IsServerDead (rq_endname (rc_req c)) (ri_servername ri) (ri_server ri) (rs_net s) \<Longrightarrow>
    rpc_step g s (set_call k (c\<lparr>rc_pc := Replying r\<rparr>) s)"
| return_false: "rs_calls s k = Some c \<Longrightarrow> rc_pc c = Replying r \<Longrightarrow> \<not> rp_ok r \<Longrightarrow>
    rpc_step g s (set_call k (c\<lparr>rc_pc := Returned False (rc_reply c)\<rparr>) s)"
| return_true: "rs_calls s k = Some c \<Longrightarrow> rc_pc c = Replying r \<Longrightarrow> rp_ok r \<Longrightarrow> dec g (rc_reply c) (rp_reply r) = (True, v) \<Longrightarrow>
    rpc_step g s (set_call k (c\<lparr>rc_pc := Returned True v\<rparr>) s)"
| decode_fails: "rs_calls s k = Some c \<Longrightarrow> rc_pc c = Replying r \<Longrightarrow> rp_ok r \<Longrightarrow> dec g (rc_reply c) (rp_reply r) = (False, v) \<Longrightarrow>
    rpc_step g s (s\<lparr>rs_fatal := True\<rparr>)"

inductive_simps net_admin_simps: "net_admin rn rn'"

text \<open>A run of the process: it starts with an empty network and takes no step after \<open>log.Fatalf\<close> or a panic.\<close>

definition rpc_init :: "'o \<Rightarrow> ('o, 'v) rpc_sys" where
  "rpc_init w = \<lparr>rs_net = MakeNetwork, rs_loop = True, rs_store = Map.empty, rs_world = w, rs_calls = Map.empty, rs_log = [], rs_fatal = False\<rparr>"

inductive rpc_reach :: "'v gob \<Rightarrow> 'o \<Rightarrow> ('o, 'v) rpc_sys \<Rightarrow> bool" for g w where
  start: "rpc_reach g w (rpc_init w)"
| more: "rpc_reach g w s \<Longrightarrow> \<not> rs_fatal s \<Longrightarrow> rpc_step g s s' \<Longrightarrow> rpc_reach g w s'"


section \<open>Dispatch\<close>

lemma service_methods_dom: "service_methods ms m x = Some method \<Longrightarrow> m x = Some method \<or> method \<in> set ms \<and> mt_name method = x"
  by (induction ms m rule: service_methods.induct) (auto split: if_splits)

text \<open>
  The shape of a handler, and servers whose tables hold handlers under their own names. \<open>serve\<close> is the server to which services have been added,
  given by the names of their types and the methods of these types.
\<close>

definition handler_shaped :: "('o, 'v) Method \<Rightarrow> bool" where
  "handler_shaped m \<longleftrightarrow> mt_PkgPath m = [] \<and> mt_NumIn m = 3 \<and> mt_In2Ptr m \<and> mt_NumOut m = 0"

definition well_typed :: "('o, 'v) Server \<Rightarrow> bool" where
  "well_typed rs \<longleftrightarrow> (\<forall>n svc. sv_services rs n = Some svc \<longrightarrow> svc_name svc = n \<and>
     (\<forall>x m. svc_methods svc x = Some m \<longrightarrow> mt_name m = x \<and> handler_shaped m))"

definition serve :: "(string \<times> ('o, 'v) Method list) list \<Rightarrow> ('o, 'v) Server" where
  "serve decls = fold (\<lambda>(n, ms). AddService (MakeService n ms)) decls MakeServer"

text \<open>The last handler of that name, and what a call of it answers.\<close>

definition handler_of :: "('o, 'v) Method list \<Rightarrow> string \<Rightarrow> ('o, 'v) Method option" where
  "handler_of ms x = find (\<lambda>m. mt_name m = x \<and> handler_shaped m) (rev ms)"

definition answer_of :: "'v gob \<Rightarrow> reqMsg \<Rightarrow> 'o \<Rightarrow> ('o, 'v) Method \<Rightarrow> 'o \<times> 'v" where
  "answer_of g req w m = mt_Func m w (snd (dec g (zero_of g (rq_argsType req)) (rq_args req))) (zero_of g (mt_replyType m))"

lemma find_snoc: "find P (xs @ [x]) = (case find P xs of None \<Rightarrow> if P x then Some x else None | Some y \<Rightarrow> Some y)"
  by (induction xs) simp_all

lemma service_methods_find: "service_methods ms f x = (case handler_of ms x of Some m \<Rightarrow> Some m | None \<Rightarrow> f x)"
  by (induction ms arbitrary: f)
    (auto simp: handler_of_def handler_shaped_def find_snoc split: option.splits)

lemma MakeService_methods: "svc_methods (MakeService n ms) = handler_of ms" "svc_name (MakeService n ms) = n"
  by (auto simp: MakeService_def service_methods_find fun_eq_iff split: option.splits)

lemma handler_of_shape: "handler_of ms x = Some m \<Longrightarrow> mt_name m = x \<and> handler_shaped m \<and> m \<in> set ms"
  by (auto simp: handler_of_def find_Some_iff) (metis length_rev nth_mem set_rev)

lemma serve_services: "sv_services (serve decls) n = map_option (MakeService n) (map_of (rev decls) n)"
  by (induction decls rule: rev_induct) (auto simp: serve_def AddService_def MakeServer_def MakeService_methods)

lemma serve_well_typed: "well_typed (serve decls)"
  by (auto simp: well_typed_def serve_services MakeService_methods dest: handler_of_shape)

lemma dispatch_names:
  assumes "rq_svcMeth req = sname @ CHR ''.'' # mname" "CHR ''.'' \<notin> set mname"
  shows "dispatch g req rs w =
    (case sv_services rs sname of
       Some service \<Rightarrow> bindR (svc_dispatch g service mname req w) (\<lambda>(r, w). Inr (r, rs\<lparr>sv_count := sv_count rs + 1\<rparr>, w))
     | None \<Rightarrow> Inl Fatal)"
proof -
  have "str_LastIndex (rq_svcMeth req) ''.'' = int (length sname)" using assms str_LastIndex_char by simp
  moreover have "go_slice (rq_svcMeth req) 0 (int (length sname)) = Some sname" unfolding assms(1) by (simp add: go_slice_def)
  moreover have "go_slice_from (rq_svcMeth req) (int (length sname) + 1) = Some mname" unfolding assms(1)
    by (rule slice_from_eqI [of _ "sname @ ''.''"]) simp_all
  ultimately show ?thesis by (simp add: dispatch_def Let_def)
qed

lemma dispatch_method:
  assumes "rq_svcMeth req = sname @ CHR ''.'' # mname" "CHR ''.'' \<notin> set mname" "sv_services rs sname = Some svc" "svc_methods svc mname = Some m"
    "dec g (zero_of g (rq_argsType req)) (rq_args req) = (b, args)" "mt_Func m w args (zero_of g (mt_replyType m)) = (w', r)"
  shows "dispatch g req rs w = Inr (\<lparr>rp_ok = True, rp_reply = enc g r\<rparr>, rs\<lparr>sv_count := sv_count rs + 1\<rparr>, w')"
  using assms by (simp add: dispatch_names [OF assms(1,2)] svc_dispatch_def Let_def)

text \<open>
  C24: The services of a server hold only methods with the shape of a handler, each under its own name and in the service of its type, and a dispatch keeps
  this. A request for \<open>Type.Method\<close> is answered by the last such method of the last service added for that type, applied to the decoded
  arguments and the zero value of its reply type; if there is none the program ends with the fatal message.
\<close>

theorem dispatch_typed:
  assumes "rq_svcMeth req = sname @ CHR ''.'' # mname" and "CHR ''.'' \<notin> set mname"
  shows "well_typed (serve decls) \<and>
    dispatch g req (serve decls) w =
      (case Option.bind (map_of (rev decls) sname) (\<lambda>ms. handler_of ms mname) of
         None \<Rightarrow> Inl Fatal
       | Some m \<Rightarrow> (case answer_of g req w m of (w', r) \<Rightarrow>
           Inr (\<lparr>rp_ok = True, rp_reply = enc g r\<rparr>, (serve decls)\<lparr>sv_count := sv_count (serve decls) + 1\<rparr>, w'))) \<and>
    (\<forall>rs rs' r w'. well_typed rs \<and> dispatch g req rs w = Inr (r, rs', w') \<longrightarrow> well_typed rs')"
proof (intro conjI allI impI serve_well_typed)
  show "dispatch g req (serve decls) w =
      (case Option.bind (map_of (rev decls) sname) (\<lambda>ms. handler_of ms mname) of
         None \<Rightarrow> Inl Fatal
       | Some m \<Rightarrow> (case answer_of g req w m of (w', r) \<Rightarrow>
           Inr (\<lparr>rp_ok = True, rp_reply = enc g r\<rparr>, (serve decls)\<lparr>sv_count := sv_count (serve decls) + 1\<rparr>, w')))"
    by (simp add: dispatch_names [OF assms] serve_services svc_dispatch_def MakeService_methods answer_of_def Let_def
        split: option.split prod.split)
  fix rs rs' :: "('a, 'b) Server" and r w' assume "well_typed rs \<and> dispatch g req rs w = Inr (r, rs', w')"
  then show "well_typed rs'"
    by (auto simp: dispatch_names [OF assms] well_typed_def bindR_Inr_iff split: option.splits)
qed

lemma svc_dispatch_ok: "svc_dispatch g svc mname req w = Inr (r, w') \<Longrightarrow> rp_ok r"
  by (auto simp: svc_dispatch_def Let_def split: option.split_asm prod.split_asm)

lemma dispatch_count: "dispatch g req rs w = Inr (r, rs', w') \<Longrightarrow> sv_count rs' = sv_count rs + 1 \<and> rp_ok r"
  by (auto simp: dispatch_def Let_def bindR_def dest: svc_dispatch_ok split: option.split_asm prod.split_asm sum.split_asm)

section \<open>The invariant of the calls\<close>

definition executions :: "nat \<Rightarrow> ('o, 'v) rpc_sys \<Rightarrow> (nat \<times> nat \<times> 'o \<times> replyMsg) list" where
  "executions k s = filter (\<lambda>e. fst e = k) (rs_log s)"

definition served :: "'v gob \<Rightarrow> reqMsg \<Rightarrow> 'o \<Rightarrow> replyMsg \<Rightarrow> bool" where
  "served g req w r \<longleftrightarrow> (\<exists>(srv :: ('o, 'v) Server) srv' w'. dispatch g req srv w = Inr (r, srv', w'))"

fun pc_ok :: "'v gob \<Rightarrow> 'v \<Rightarrow> handler \<Rightarrow> 'v call_pc \<Rightarrow> bool" where
  "pc_ok g v0 hn Sending = (hn = NotStarted)"
| "pc_ok g v0 hn Accepted = (hn = NotStarted)"
| "pc_ok g v0 hn WaitReply = (hn \<noteq> NotStarted)"
| "pc_ok g v0 hn (GotReply r) = (hn = Executed r)"
| "pc_ok g v0 hn (Replying r) = (rp_ok r \<longrightarrow> hn = Executed r)"
| "pc_ok g v0 hn (Returned b v) = (b \<longrightarrow> (\<exists>r. hn = Executed r \<and> dec g v0 (rp_reply r) = (True, v)))"

definition call_ok :: "'v gob \<Rightarrow> ('o, 'v) rpc_sys \<Rightarrow> nat \<Rightarrow> 'v rpc_call \<Rightarrow> bool" where
  "call_ok g s k c \<longleftrightarrow>
     (case rc_handler c of
        NotStarted \<Rightarrow> rc_info c = None \<and> executions k s = []
      | Started \<Rightarrow> rc_info c \<noteq> None \<and> executions k s = []
      | Executed r \<Rightarrow> rp_ok r \<and> (\<exists>ri w. rc_info c = Some ri \<and> executions k s = [(k, ri_server ri, w, r)] \<and> served g (rc_req c) w r)) \<and>
     (\<forall>ri. rc_info c = Some ri \<longrightarrow> rs_store s (ri_server ri) \<noteq> None) \<and>
     pc_ok g (rc_reply c) (rc_handler c) (rc_pc c)"

definition rpc_inv :: "'v gob \<Rightarrow> ('o, 'v) rpc_sys \<Rightarrow> bool" where
  "rpc_inv g s \<longleftrightarrow> (\<forall>k c. rs_calls s k = Some c \<longrightarrow> call_ok g s k c) \<and>
     (\<forall>k. rs_calls s k = None \<longrightarrow> executions k s = []) \<and>
     (\<forall>sn a. servers (rs_net s) sn = Some a \<longrightarrow> rs_store s a \<noteq> None) \<and>
     (\<forall>a srv. rs_store s a = Some srv \<longrightarrow> sv_count srv = int (length (filter (\<lambda>e. fst (snd e) = a) (rs_log s)))) \<and>
     (\<forall>a. rs_store s a = None \<longrightarrow> a \<notin> (\<lambda>e. fst (snd e)) ` set (rs_log s)) \<and>
     (\<not> rs_loop s \<longrightarrow> net_done (rs_net s))"


lemma call_ok_cong: "rs_log s' = rs_log s \<Longrightarrow> rs_store s' = rs_store s \<Longrightarrow> call_ok g s' k c = call_ok g s k c"
  by (simp add: call_ok_def executions_def cong: handler.case_cong)

lemma set_call_simps [simp]:
  "rs_log (set_call k c s) = rs_log s" "rs_store (set_call k c s) = rs_store s" "rs_net (set_call k c s) = rs_net s"
  "rs_calls (set_call k c s) = (rs_calls s)(k \<mapsto> c)" "rs_loop (set_call k c s) = rs_loop s" "rs_fatal (set_call k c s) = rs_fatal s"
  "executions j (set_call k c s) = executions j s" "rs_world (set_call k c s) = rs_world s"
  by (simp_all add: set_call_def executions_def)

lemma rpc_invI:
  assumes "\<And>k c. rs_calls s k = Some c \<Longrightarrow> call_ok g s k c" "\<And>k. rs_calls s k = None \<Longrightarrow> executions k s = []"
    "\<And>a srv. rs_store s a = Some srv \<Longrightarrow> sv_count srv = int (length (filter (\<lambda>e. fst (snd e) = a) (rs_log s)))"
    "\<And>a. rs_store s a = None \<Longrightarrow> a \<notin> (\<lambda>e. fst (snd e)) ` set (rs_log s)"
    "\<And>sn a. servers (rs_net s) sn = Some a \<Longrightarrow> rs_store s a \<noteq> None" "\<not> rs_loop s \<longrightarrow> net_done (rs_net s)"
  shows "rpc_inv g s"
  using assms unfolding rpc_inv_def by blast

lemma inv_call: "rpc_inv g s \<Longrightarrow> rs_calls s k = Some c \<Longrightarrow> call_ok g s k c"
  by (simp add: rpc_inv_def)

lemma inv_set_call: "rpc_inv g s \<Longrightarrow> call_ok g s k c \<Longrightarrow> rpc_inv g (set_call k c s)"
  by (simp add: rpc_inv_def call_ok_cong [of "set_call k c s" s])

lemma call_ok_pc: "call_ok g s k c \<Longrightarrow> pc_ok g (rc_reply c) (rc_handler c) p \<Longrightarrow> call_ok g s k (c\<lparr>rc_pc := p\<rparr>)"
  by (simp add: call_ok_def cong: handler.case_cong)

lemma inv_pc:
  "rpc_inv g s \<Longrightarrow> rs_calls s k = Some c \<Longrightarrow> pc_ok g (rc_reply c) (rc_handler c) p \<Longrightarrow> rpc_inv g (set_call k (c\<lparr>rc_pc := p\<rparr>) s)"
  by (intro inv_set_call call_ok_pc inv_call)

lemma inv_pc_ok: "rpc_inv g s \<Longrightarrow> rs_calls s k = Some c \<Longrightarrow> pc_ok g (rc_reply c) (rc_handler c) (rc_pc c)"
  using inv_call by (auto simp: call_ok_def)

lemma inv_servers: "rpc_inv g s \<Longrightarrow> servers (rs_net s) sn = Some a \<Longrightarrow> rs_store s a \<noteq> None"
  by (simp add: rpc_inv_def)

lemma inv_net:
  assumes "rpc_inv g s" "\<And>sn a. servers rn sn = Some a \<Longrightarrow> rs_store s a \<noteq> None" "net_done (rs_net s) \<Longrightarrow> net_done rn"
  shows "rpc_inv g (s\<lparr>rs_net := rn\<rparr>)"
  using assms by (auto simp: rpc_inv_def call_ok_cong [of "s\<lparr>rs_net := rn\<rparr>" s] executions_def)

lemma admin_keeps:
  assumes "net_admin rn rn'"
  shows "servers rn' sn = Some a \<Longrightarrow> servers rn sn = Some a" "net_done rn \<Longrightarrow> net_done rn'"
  using assms by (cases; auto simp: Reliable_def LongReordering_def LongDelays_def DeleteServer_def Connect_def Enable_def MakeEnd_def Cleanup_def split: if_splits)+

lemma inv_execute:
  assumes i: "rpc_inv g s" and c: "rs_calls s k = Some c" "rc_handler c = Started" "rc_info c = Some ri" "rs_store s (ri_server ri) = Some srv"
    and d: "dispatch g (rc_req c) srv (rs_world s) = Inr (r, srv', w)"
  shows "rpc_inv g (set_call k (c\<lparr>rc_handler := Executed r\<rparr>)
    (s\<lparr>rs_store := (rs_store s)(ri_server ri \<mapsto> srv'), rs_world := w, rs_log := rs_log s @ [(k, ri_server ri, rs_world s, r)]\<rparr>))" (is "rpc_inv g ?t")
proof -
  have cnt: "sv_count srv' = sv_count srv + 1" "rp_ok r" using dispatch_count [OF d] by auto
  have old: "executions k s = []" "rc_pc c = WaitReply \<or> (\<exists>r. rc_pc c = Replying r \<and> \<not> rp_ok r) \<or> (\<exists>v. rc_pc c = Returned False v)"
    using inv_call [OF i c(1)] c(2) by (auto simp: call_ok_def elim: pc_ok.elims)
  have ex: "executions j ?t = executions j s @ (if j = k then [(k, ri_server ri, rs_world s, r)] else [])" for j
    by (auto simp: executions_def)
  have "call_ok g ?t k (c\<lparr>rc_handler := Executed r\<rparr>)"
    using old c(3) cnt(2) d unfolding call_ok_def ex by (auto simp: served_def)
  moreover have "call_ok g ?t j cj" if "rs_calls s j = Some cj" "j \<noteq> k" for j cj
    using inv_call [OF i that(1)] that(2) unfolding call_ok_def ex by (auto cong: handler.case_cong)
  ultimately have "call_ok g ?t j cj" if "rs_calls ?t j = Some cj" for j cj using that by (cases "j = k") simp_all
  moreover have "executions j ?t = []" if "rs_calls ?t j = None" for j using i that unfolding ex by (simp add: rpc_inv_def split: if_splits)
  moreover have "sv_count sv = int (length (filter (\<lambda>e. fst (snd e) = a) (rs_log ?t)))" if "rs_store ?t a = Some sv" for a sv
    using i c(4) cnt(1) that unfolding rpc_inv_def by (cases "a = ri_server ri") simp_all
  moreover have "a \<notin> (\<lambda>e. fst (snd e)) ` set (rs_log ?t)" if "rs_store ?t a = None" for a
    using i that by (simp add: rpc_inv_def split: if_splits)
  moreover have "rs_store ?t a \<noteq> None" if "servers (rs_net ?t) sn = Some a" for sn a
    using inv_servers [OF i] that by simp
  moreover have "\<not> rs_loop ?t \<longrightarrow> net_done (rs_net ?t)" using i by (simp add: rpc_inv_def)
  ultimately show ?thesis by (rule rpc_invI)
qed

lemma inv_new_server:
  assumes "rpc_inv g s" "rs_store s a = None" "sv_count srv = 0"
  shows "rpc_inv g (s\<lparr>rs_store := (rs_store s)(a \<mapsto> srv), rs_net := AddServer sn a (rs_net s)\<rparr>)" (is "rpc_inv g ?t")
proof -
  have "call_ok g ?t k c" if "rs_calls s k = Some c" for k c
    using inv_call [OF assms(1) that] by (auto simp: call_ok_def executions_def cong: handler.case_cong)
  moreover have "executions k ?t = executions k s" for k by (simp add: executions_def)
  moreover have "filter (\<lambda>e. fst (snd e) = a) (rs_log s) = []"
  proof -
    have "a \<notin> (\<lambda>e. fst (snd e)) ` set (rs_log s)" using assms(1,2) by (simp add: rpc_inv_def)
    then show ?thesis by (auto simp: filter_empty_conv)
  qed
  moreover have "rs_store ?t b \<noteq> None" if "servers (rs_net ?t) n = Some b" for n b
    using that inv_servers [OF assms(1)] by (auto simp: AddServer_def split: if_splits)
  ultimately show ?thesis using assms(1,3) by (intro rpc_invI) (auto simp: rpc_inv_def AddServer_def split: if_splits)
qed

lemma inv_step:
  assumes i: "rpc_inv g s" and st: "rpc_step g s s'"
  shows "rpc_inv g s'"
  using st
proof cases
  case (admin rn)
  show ?thesis unfolding admin(1)
  proof (rule inv_net [OF i])
    show "rs_store s a \<noteq> None" if "servers rn sn = Some a" for sn a
      using inv_servers [OF i admin_keeps(1) [OF admin(2) that]] .
    show "net_done rn" if "net_done (rs_net s)" by (rule admin_keeps(2) [OF admin(2) that])
  qed
next
  case (new_server a srv sn)
  then show ?thesis using inv_new_server [OF i] by simp
next
  case (add_server a sn)
  show ?thesis unfolding add_server(1)
  proof (rule inv_net [OF i])
    show "rs_store s b \<noteq> None" if "servers (AddServer sn a (rs_net s)) n = Some b" for n b
      using that add_server(2) inv_servers [OF i] by (auto simp: AddServer_def split: if_splits)
  qed (simp add: AddServer_def)
next
  case (call k en svcMeth args v)
  have "executions k s = []" using i call(2) by (simp add: rpc_inv_def)
  then show ?thesis unfolding call(1) by (intro inv_set_call [OF i]) (simp add: call_ok_def)
next
  case (accept k c)
  let ?rn = "(rs_net s)\<lparr>net_count := net_count (rs_net s) + 1\<rparr>"
  have "rpc_inv g (s\<lparr>rs_net := ?rn\<rparr>)" using inv_net [OF i, of ?rn] i by (simp add: rpc_inv_def)
  moreover have "call_ok g (s\<lparr>rs_net := ?rn\<rparr>) k (c\<lparr>rc_pc := Accepted\<rparr>)"
    using call_ok_pc [OF inv_call [OF i accept(2)], of Accepted] inv_pc_ok [OF i accept(2)] accept(3)
      call_ok_cong [of "s\<lparr>rs_net := ?rn\<rparr>" s] by simp
  ultimately show ?thesis using accept(1) inv_set_call by blast
next
  case (execute k c ri srv r srv' w)
  then show ?thesis using inv_execute [OF i] by simp
next
  case (start_handler k c sn a rel lr)
  have "rs_store s a \<noteq> None" using i start_handler(4) by (auto simp: rpc_inv_def ReadEndnameInfo_def Let_def split: option.splits)
  then show ?thesis using inv_call [OF i start_handler(2)] start_handler by (auto intro!: inv_set_call i simp: call_ok_def)
next
  case loop_ends
  then show ?thesis using i call_ok_cong [of "s\<lparr>rs_loop := False\<rparr>" s] by (simp add: rpc_inv_def executions_def)
next
  case (execute_fails k c ri srv e)
  then show ?thesis using i call_ok_cong [of "s\<lparr>rs_fatal := True\<rparr>" s] by (simp add: rpc_inv_def executions_def)
next
  case (decode_fails k c r v)
  then show ?thesis using i call_ok_cong [of "s\<lparr>rs_fatal := True\<rparr>" s] by (simp add: rpc_inv_def executions_def)
next
  case (return_true k c r v)
  then show ?thesis using inv_pc [OF i return_true(2)] inv_pc_ok [OF i return_true(2)] by simp
next
  case (answer k c r ri)
  then show ?thesis using inv_pc [OF i answer(2)] inv_pc_ok [OF i answer(2)] by simp
next
  case (receive k c r)
  then show ?thesis using inv_pc [OF i receive(2)] by simp
qed (simp_all add: inv_pc [OF i] no_reply_def)


lemma reach_inv: "rpc_reach g w s \<Longrightarrow> rpc_inv g s"
proof (induction rule: rpc_reach.induct)
  case start
  then show ?case by (simp add: rpc_inv_def rpc_init_def executions_def MakeNetwork_def)
next
  case (more s s')
  then show ?case using inv_step by blast
qed

section \<open>What a call gives its client\<close>

text \<open>
  C11: In every run of the network, with requests and replies lost, ends disabled and servers deleted at any time, a handler
  executes a call at most once; and when \<open>Call\<close> returns true exactly one server has executed it, the one that
  \<open>ProcessReq\<close> read for the end, and the reply is decoded from what its handler answered.
\<close>

theorem rpc_executes_once:
  assumes "rpc_reach g w s" "rs_calls s k = Some c"
  shows "length (executions k s) \<le> 1 \<and>
    (\<forall>v. rc_pc c = Returned True v \<longrightarrow>
      (\<exists>ri w0 r. rc_info c = Some ri \<and> executions k s = [(k, ri_server ri, w0, r)] \<and> served g (rc_req c) w0 r \<and>
         dec g (rc_reply c) (rp_reply r) = (True, v)))"
proof -
  have "call_ok g s k c" using inv_call [OF reach_inv [OF assms(1)] assms(2)] .
  then show ?thesis unfolding call_ok_def by (auto split: handler.splits)
qed


section \<open>Calls can always return\<close>

definition run_step :: "'v gob \<Rightarrow> ('o, 'v) rpc_sys \<Rightarrow> ('o, 'v) rpc_sys \<Rightarrow> bool" where
  "run_step g s s' \<longleftrightarrow> \<not> rs_fatal s \<and> rpc_step g s s'"

definition can_finish :: "'v gob \<Rightarrow> nat \<Rightarrow> ('o, 'v) rpc_sys \<Rightarrow> bool" where
  "can_finish g k s \<longleftrightarrow> (\<exists>s'. (run_step g)\<^sup>*\<^sup>* s s' \<and> (rs_fatal s' \<or> (\<exists>c b v. rs_calls s' k = Some c \<and> rc_pc c = Returned b v)))"

lemma can_stepI: "\<not> rs_fatal s \<Longrightarrow> rpc_step g s s' \<Longrightarrow> can_finish g k s' \<Longrightarrow> can_finish g k s"
  unfolding can_finish_def by (metis converse_rtranclp_into_rtranclp [of "run_step g"] run_step_def)

lemma can_nowI: "rs_fatal s \<or> rs_calls s k = Some c \<and> rc_pc c = Returned b v \<Longrightarrow> can_finish g k s"
  unfolding can_finish_def by blast

lemma finish_replying:
  assumes "\<not> rs_fatal s" "rs_calls s k = Some c" "rc_pc c = Replying r"
  shows "can_finish g k s"
proof (cases "rp_ok r")
  case True
  obtain b v where d: "dec g (rc_reply c) (rp_reply r) = (b, v)" by force
  show ?thesis
  proof (cases b)
    case True
    then show ?thesis using can_stepI [OF assms(1) return_true [OF assms(2,3) \<open>rp_ok r\<close>, of g v], of k] d
      by (simp add: can_nowI [where c = "c\<lparr>rc_pc := Returned True v\<rparr>" and b = True and v = v])
  next
    case False
    then show ?thesis using can_stepI [OF assms(1) decode_fails [OF assms(2,3) \<open>rp_ok r\<close>, of g v], of k] d by (simp add: can_nowI)
  qed
next
  case False
  then show ?thesis using can_stepI [OF assms(1) return_false [OF assms(2,3), of g], of k]
    by (simp add: can_nowI [where c = "c\<lparr>rc_pc := Returned False (rc_reply c)\<rparr>" and b = False and v = "rc_reply c"])
qed

lemma finish_reply_set: "\<not> rs_fatal s \<Longrightarrow> can_finish g k (set_call k (c\<lparr>rc_pc := Replying r\<rparr>) s)"
  by (rule finish_replying [where c = "c\<lparr>rc_pc := Replying r\<rparr>" and r = r]) simp_all

lemma finish_got:
  assumes "rpc_inv g s" "\<not> rs_fatal s" "rs_calls s k = Some c" "rc_pc c = GotReply r"
  shows "can_finish g k s"
proof -
  obtain ri where ri: "rc_info c = Some ri" using inv_call [OF assms(1,3)] assms(4) by (auto simp: call_ok_def)
  show ?thesis
  proof (cases "IsServerDead (rq_endname (rc_req c)) (ri_servername ri) (ri_server ri) (rs_net s)")
    case True
    show ?thesis by (rule can_stepI [OF assms(2) killed [OF assms(3,4) ri True, of g]], rule finish_reply_set) (rule assms(2))
  next
    case False
    show ?thesis by (rule can_stepI [OF assms(2) answer [OF assms(3,4) ri False, of g]], rule finish_reply_set) (rule assms(2))
  qed
qed

lemma finish_executed:
  assumes "rpc_inv g s" "\<not> rs_fatal s" "rs_calls s k = Some c" "rc_pc c = WaitReply" "rc_handler c = Executed r"
  shows "can_finish g k s"
  by (rule can_stepI [OF assms(2) receive [OF assms(3-5), of g]], rule finish_got [where c = "c\<lparr>rc_pc := GotReply r\<rparr>" and r = r])
    (simp_all add: assms inv_step [OF assms(1) receive [OF assms(3-5)]])

lemma finish_waiting:
  assumes i: "rpc_inv g s" and f: "\<not> rs_fatal s" and c: "rs_calls s k = Some c" "rc_pc c = WaitReply"
  shows "can_finish g k s"
proof (cases "rc_handler c")
  case NotStarted
  then show ?thesis using inv_pc_ok [OF i c(1)] c(2) by simp
next
  case Started
  then obtain ri srv where ri: "rc_info c = Some ri" "rs_store s (ri_server ri) = Some srv"
    using inv_call [OF i c(1)] by (auto simp: call_ok_def)
  show ?thesis
  proof (cases "dispatch g (rc_req c) srv (rs_world s)")
    case (Inl e)
    show ?thesis by (rule can_stepI [OF f execute_fails [OF c(1) Started ri Inl]]) (simp add: can_nowI)
  next
    case (Inr x)
    obtain r srv' w where x: "dispatch g (rc_req c) srv (rs_world s) = Inr (r, srv', w)" using Inr by (cases x) auto
    show ?thesis by (rule can_stepI [OF f execute [OF c(1) Started ri x]], rule finish_executed [where c = "c\<lparr>rc_handler := Executed r\<rparr>" and r = r])
      (simp_all add: inv_step [OF i execute [OF c(1) Started ri x]] f c(2))
  qed
next
  case (Executed r)
  then show ?thesis using finish_executed [OF i f c] by simp
qed

lemma finish_accepted:
  assumes i: "rpc_inv g s" and f: "\<not> rs_fatal s" and c: "rs_calls s k = Some c" "rc_pc c = Accepted"
  shows "can_finish g k s"
proof -
  obtain en sn sv rel lr where r: "ReadEndnameInfo (rq_endname (rc_req c)) (rs_net s) = (en, sn, sv, rel, lr)" by (metis prod_cases5)
  show ?thesis
  proof (cases "\<not> en \<or> sn = None \<or> sv = None")
    case True
    show ?thesis by (rule can_stepI [OF f unreachable [OF c r True]], rule finish_reply_set) (rule f)
  next
    case False
    then obtain n a where "ReadEndnameInfo (rq_endname (rc_req c)) (rs_net s) = (True, Some n, Some a, rel, lr)" using r by auto
    note st = start_handler [OF c this, of g]
    let ?c = "c\<lparr>rc_pc := WaitReply, rc_info := Some \<lparr>ri_servername = n, ri_server = a, ri_reliable = rel\<rparr>, rc_handler := Started\<rparr>"
    show ?thesis by (rule can_stepI [OF f st], rule finish_waiting [where c = ?c]) (simp_all add: inv_step [OF i st] f)
  qed
qed



section \<open>A run\<close>

definition demo_gob :: "string gob" where
  "demo_gob = \<lparr>typeof = (\<lambda>_. ''string''), zero_of = (\<lambda>_. []), enc = (\<lambda>v. v), dec = (\<lambda>_ b. (True, b))\<rparr>"

definition demo_echo :: "(nat, string) Method" where
  "demo_echo = \<lparr>mt_name = ''Echo'', mt_PkgPath = [], mt_NumIn = 3, mt_In2Ptr = True, mt_NumOut = 0, mt_replyType = ''string'',
     mt_Func = (\<lambda>w args _. (Suc w, args))\<rparr>"

definition demo_server :: "(nat, string) Server" where
  "demo_server = AddService (MakeService ''S'' [demo_echo]) MakeServer"

definition demo_net :: Network where
  "demo_net = Enable (IStr ''e'') True (Connect (IStr ''e'') (IInt 0) (AddServer (IInt 0) 5
     (MakeNetwork\<lparr>ends := {IStr ''e''}, enabled := (\<lambda>_. False)(IStr ''e'' := False), connections := (\<lambda>_. None)(IStr ''e'' := None)\<rparr>)))"

definition demo_ready :: "(nat, string) rpc_sys" where
  "demo_ready = (rpc_init 0)\<lparr>rs_net := demo_net, rs_store := [5 \<mapsto> demo_server]\<rparr>"

lemma reach_more: "rpc_reach g w s \<Longrightarrow> rpc_step g s s' \<Longrightarrow> \<not> rs_fatal s \<Longrightarrow> rpc_reach g w s'"
  by (rule rpc_reach.more)

lemma demo_ready_reach: "rpc_reach demo_gob 0 demo_ready"
proof -
  let ?n1 = "MakeNetwork\<lparr>ends := {IStr ''e''}, enabled := (\<lambda>_. False)(IStr ''e'' := False), connections := (\<lambda>_. None)(IStr ''e'' := None)\<rparr>"
  let ?s0 = "rpc_init 0 :: (nat, string) rpc_sys"
  let ?s1 = "?s0\<lparr>rs_net := ?n1\<rparr>"
  let ?s2 = "?s1\<lparr>rs_store := (rs_store ?s1)(5 \<mapsto> demo_server), rs_net := AddServer (IInt 0) 5 (rs_net ?s1)\<rparr>"
  let ?s3 = "?s2\<lparr>rs_net := Connect (IStr ''e'') (IInt 0) (rs_net ?s2)\<rparr>"
  let ?s4 = "?s3\<lparr>rs_net := Enable (IStr ''e'') True (rs_net ?s3)\<rparr>"
  have "MakeEnd (IStr ''e'') (rs_net ?s0) = Inr ?n1" by (simp add: MakeEnd_def rpc_init_def MakeNetwork_def)
  then have "rpc_step demo_gob ?s0 ?s1" by (intro rpc_step.admin net_admin.intros(7))
  then have "rpc_reach demo_gob 0 ?s1" by (intro rpc_reach.more [OF rpc_reach.start]) (simp_all add: rpc_init_def)
  moreover have "rpc_step demo_gob ?s1 ?s2"
    by (rule rpc_step.new_server) (simp_all add: rpc_init_def demo_server_def AddService_def MakeServer_def)
  ultimately have "rpc_reach demo_gob 0 ?s2" by (rule reach_more) (simp add: rpc_init_def)
  moreover have "rpc_step demo_gob ?s2 ?s3" by (intro rpc_step.admin net_admin.intros(5))
  ultimately have "rpc_reach demo_gob 0 ?s3" by (rule reach_more) (simp add: rpc_init_def)
  moreover have "rpc_step demo_gob ?s3 ?s4" by (intro rpc_step.admin net_admin.intros(6))
  ultimately have "rpc_reach demo_gob 0 ?s4" by (rule reach_more) (simp add: rpc_init_def)
  moreover have "?s4 = demo_ready" by (simp add: demo_ready_def demo_net_def rpc_init_def)
  ultimately show ?thesis by simp
qed


definition demo_call :: "string rpc_call" where
  "demo_call = \<lparr>rc_req = make_request demo_gob (IStr ''e'') ''S.Echo'' ''hi'', rc_reply = [], rc_pc = Sending, rc_info = None, rc_handler = NotStarted\<rparr>"

lemma demo_dispatch:
  "dispatch demo_gob (rc_req demo_call) demo_server w = Inr (\<lparr>rp_ok = True, rp_reply = ''hi''\<rparr>, demo_server\<lparr>sv_count := 1\<rparr>, Suc w)"
proof -
  have "dispatch demo_gob (rc_req demo_call) demo_server w =
      Inr (\<lparr>rp_ok = True, rp_reply = enc demo_gob ''hi''\<rparr>, demo_server\<lparr>sv_count := sv_count demo_server + 1\<rparr>, Suc w)"
    by (rule dispatch_method [where sname = "''S''" and mname = "''Echo''" and svc = "MakeService ''S'' [demo_echo]" and m = demo_echo and b = True and args = "''hi''"])
      (simp_all add: demo_call_def make_request_def demo_gob_def demo_server_def AddService_def MakeServer_def MakeService_def demo_echo_def)
  then show ?thesis by (simp add: demo_gob_def demo_server_def AddService_def MakeServer_def)
qed

lemma demo_info: "ReadEndnameInfo (IStr ''e'') (demo_net\<lparr>net_count := 1\<rparr>) = (True, Some (IInt 0), Some 5, True, False)"
  by (simp add: ReadEndnameInfo_def demo_net_def Enable_def Connect_def AddServer_def MakeNetwork_def)

definition demo_reply :: replyMsg where
  "demo_reply = \<lparr>rp_ok = True, rp_reply = ''hi''\<rparr>"

definition demo_got :: "string rpc_call" where
  "demo_got = demo_call\<lparr>rc_pc := GotReply demo_reply, rc_info := Some \<lparr>ri_servername = IInt 0, ri_server = 5, ri_reliable = True\<rparr>, rc_handler := Executed demo_reply\<rparr>"

definition demo_sys :: "string rpc_call \<Rightarrow> (nat, string) rpc_sys" where
  "demo_sys c = \<lparr>rs_net = demo_net\<lparr>net_count := 1\<rparr>, rs_loop = True, rs_store = [5 \<mapsto> demo_server\<lparr>sv_count := 1\<rparr>], rs_world = 1, rs_calls = [0 \<mapsto> c],
     rs_log = [(0, 5, 0, demo_reply)], rs_fatal = False\<rparr>"

lemma demo_got_reach: "rpc_reach demo_gob 0 (demo_sys demo_got)"
proof -
  let ?s1 = "set_call 0 demo_call demo_ready"
  let ?c2 = "demo_call\<lparr>rc_pc := Accepted\<rparr>" and ?n2 = "demo_net\<lparr>net_count := 1\<rparr>"
  let ?s2 = "set_call 0 ?c2 (?s1\<lparr>rs_net := ?n2\<rparr>)"
  let ?c3 = "?c2\<lparr>rc_pc := WaitReply, rc_info := Some \<lparr>ri_servername = IInt 0, ri_server = 5, ri_reliable = True\<rparr>, rc_handler := Started\<rparr>"
  let ?s3 = "set_call 0 ?c3 ?s2"
  let ?c4 = "?c3\<lparr>rc_handler := Executed demo_reply\<rparr>"
  let ?s4 = "set_call 0 ?c4 (?s3\<lparr>rs_store := (rs_store ?s3)(5 \<mapsto> demo_server\<lparr>sv_count := 1\<rparr>), rs_world := Suc (rs_world ?s3),
    rs_log := rs_log ?s3 @ [(0, 5, rs_world ?s3, demo_reply)]\<rparr>)"
  let ?s5 = "set_call 0 (?c4\<lparr>rc_pc := GotReply demo_reply\<rparr>) ?s4"
  note ready = demo_ready_def rpc_init_def
  have "rpc_step demo_gob demo_ready ?s1" unfolding demo_call_def
    by (rule rpc_step.call) (simp_all add: ready demo_net_def Enable_def Connect_def AddServer_def)
  then have "rpc_reach demo_gob 0 ?s1" by (rule reach_more [OF demo_ready_reach]) (simp add: ready)
  moreover have "rpc_step demo_gob ?s1 ?s2"
    using rpc_step.accept [of ?s1 0 demo_call demo_gob] by (simp add: ready demo_call_def demo_net_def Enable_def Connect_def AddServer_def MakeNetwork_def)
  ultimately have "rpc_reach demo_gob 0 ?s2" by (rule reach_more) (simp add: ready)
  moreover have "rpc_step demo_gob ?s2 ?s3"
    by (rule rpc_step.start_handler [where lr = False]) (simp_all add: ready demo_call_def make_request_def demo_info)
  ultimately have "rpc_reach demo_gob 0 ?s3" by (rule reach_more) (simp add: ready)
  moreover have "rpc_step demo_gob ?s3 ?s4"
    using rpc_step.execute [of ?s3 0 ?c3 "\<lparr>ri_servername = IInt 0, ri_server = 5, ri_reliable = True\<rparr>" demo_server demo_gob demo_reply
        "demo_server\<lparr>sv_count := 1\<rparr>" "Suc (rs_world ?s3)"] demo_dispatch by (simp add: ready demo_reply_def)
  ultimately have "rpc_reach demo_gob 0 ?s4" by (rule reach_more) (simp add: ready)
  moreover have "rpc_step demo_gob ?s4 ?s5" by (rule rpc_step.receive) simp_all
  ultimately have "rpc_reach demo_gob 0 ?s5" by (rule reach_more) (simp add: ready)
  moreover have "?s5 = demo_sys demo_got" by (simp add: demo_sys_def demo_got_def demo_call_def ready set_call_def fun_eq_iff)
  ultimately show ?thesis by simp
qed


lemma demo_answer_step: "rpc_step demo_gob (demo_sys demo_got) (demo_sys (demo_got\<lparr>rc_pc := Replying demo_reply\<rparr>))"
proof -
  have "rpc_step demo_gob (demo_sys demo_got) (set_call 0 (demo_got\<lparr>rc_pc := Replying demo_reply\<rparr>) (demo_sys demo_got))"
    by (rule rpc_step.answer [where ri = "\<lparr>ri_servername = IInt 0, ri_server = 5, ri_reliable = True\<rparr>" and r = demo_reply])
      (simp_all add: demo_sys_def demo_got_def demo_call_def make_request_def IsServerDead_def demo_net_def Enable_def Connect_def AddServer_def)
  then show ?thesis by (simp add: set_call_def demo_sys_def fun_eq_iff)
qed

lemma demo_returned_reach: "rpc_reach demo_gob 0 (demo_sys (demo_got\<lparr>rc_pc := Returned True ''hi''\<rparr>))"
proof -
  let ?s = "demo_sys (demo_got\<lparr>rc_pc := Replying demo_reply\<rparr>)"
  have "rpc_reach demo_gob 0 ?s" by (rule reach_more [OF demo_got_reach demo_answer_step]) (simp add: demo_sys_def)
  moreover have "rpc_step demo_gob ?s (set_call 0 (demo_got\<lparr>rc_pc := Replying demo_reply\<rparr>\<lparr>rc_pc := Returned True ''hi''\<rparr>) ?s)"
    by (rule rpc_step.return_true [where r = demo_reply]) (simp_all add: demo_sys_def demo_reply_def demo_gob_def)
  ultimately have "rpc_reach demo_gob 0 (set_call 0 (demo_got\<lparr>rc_pc := Replying demo_reply\<rparr>\<lparr>rc_pc := Returned True ''hi''\<rparr>) ?s)"
    by (rule reach_more) (simp add: demo_sys_def)
  then show ?thesis by (simp add: set_call_def demo_sys_def fun_eq_iff)
qed

theorem dispatch_typed_witness:
  "dispatch demo_gob (make_request demo_gob (IStr ''e'') ''S.Echo'' ''hi'') (serve [(''S'', [demo_echo])]) 0 =
     Inr (\<lparr>rp_ok = True, rp_reply = ''hi''\<rparr>, (serve [(''S'', [demo_echo])])\<lparr>sv_count := 1\<rparr>, 1)"
proof -
  have "handler_of [demo_echo] ''Echo'' = Some demo_echo" by (simp add: handler_of_def handler_shaped_def demo_echo_def)
  then show ?thesis
    using dispatch_typed [of "make_request demo_gob (IStr ''e'') ''S.Echo'' ''hi''" "''S''" "''Echo''" "[(''S'', [demo_echo])]" demo_gob 0]
    by (simp add: make_request_def answer_of_def demo_gob_def demo_echo_def serve_def AddService_def MakeServer_def)
qed

theorem rpc_executes_once_witness:
  "\<exists>w0. executions 0 (demo_sys (demo_got\<lparr>rc_pc := Returned True ''hi''\<rparr>)) = [(0, 5, w0, demo_reply)] \<and> served demo_gob (rc_req demo_got) w0 demo_reply"
  using rpc_executes_once [OF demo_returned_reach, of 0 "demo_got\<lparr>rc_pc := Returned True ''hi''\<rparr>"]
  by (auto simp: demo_sys_def demo_got_def executions_def)



end
