(* ===== verification/LabCall.thy ===== *)
theory LabCall
  imports LabRpc
begin

text \<open>
  A call on the simulated network (\<open>src/lab4/src/labrpc/labrpc.go\<close>) that nothing interrupts: \<open>net_call\<close> says as a function what \<open>Call\<close> returns and what
  becomes of the server and of the receivers, and the step relation of \<open>LabRpc\<close> is shown to compute it. Clients that make one call after the other on a
  reliable network may therefore be modelled with the function.
\<close>

section \<open>The call as a function\<close>

definition net_call :: "'v gob \<Rightarrow> reqMsg \<Rightarrow> 'v \<Rightarrow> Network \<Rightarrow> (nat \<rightharpoonup> ('o, 'v) Server) \<Rightarrow> 'o \<Rightarrow> (bool \<times> 'v \<times> (nat \<rightharpoonup> ('o, 'v) Server) \<times> 'o) result" where
  "net_call g req reply rn store w =
     (case ReadEndnameInfo (rq_endname req) rn of
        (True, Some servername, Some a, _) \<Rightarrow>
          bindR (panic_unless (store a)) (\<lambda>srv. bindR (dispatch g req srv w) (\<lambda>(r, srv', w').
            if rp_ok r then (case dec g reply (rp_reply r) of (True, v) \<Rightarrow> Inr (True, v, store(a \<mapsto> srv'), w') | (False, _) \<Rightarrow> Inl Fatal)
            else Inr (False, reply, store(a \<mapsto> srv'), w')))
      | _ \<Rightarrow> Inr (False, reply, store, w))"

section \<open>Runs that nothing interrupts\<close>

text \<open>The network changes only in its counter, and no server and no call is added. The other calls have returned, their handlers too.\<close>

definition alone_step :: "'v gob \<Rightarrow> ('o, 'v) rpc_sys \<Rightarrow> ('o, 'v) rpc_sys \<Rightarrow> bool" where
  "alone_step g s t \<longleftrightarrow> run_step g s t \<and> rs_net t = (rs_net s)\<lparr>net_count := net_count (rs_net t)\<rparr>
     \<and> dom (rs_store t) = dom (rs_store s) \<and> dom (rs_calls t) = dom (rs_calls s)"

definition quiet :: "nat \<Rightarrow> ('o, 'v) rpc_sys \<Rightarrow> bool" where
  "quiet k s \<longleftrightarrow> rs_loop s \<and> \<not> net_done (rs_net s) \<and> reliable (rs_net s)
     \<and> (\<forall>j c. j \<noteq> k \<longrightarrow> rs_calls s j = Some c \<longrightarrow> (\<exists>b v. rc_pc c = Returned b v) \<and> rc_handler c \<noteq> Started)"

text \<open>Where the call stands, seen from the state \<open>s\<close> in which it was sent: \<open>executed\<close> once the handler has run.\<close>

definition executed :: "'v gob \<Rightarrow> ('o, 'v) rpc_sys \<Rightarrow> reqMsg \<Rightarrow> req_info \<Rightarrow> replyMsg \<Rightarrow> ('o, 'v) rpc_sys \<Rightarrow> bool" where
  "executed g s req ri r t \<longleftrightarrow> (\<exists>srv srv'. rs_store s (ri_server ri) = Some srv \<and> dispatch g req srv (rs_world s) = Inr (r, srv', rs_world t)
     \<and> rs_store t = (rs_store s)(ri_server ri \<mapsto> srv'))"

definition untouched :: "('o, 'v) rpc_sys \<Rightarrow> ('o, 'v) rpc_sys \<Rightarrow> bool" where
  "untouched s t \<longleftrightarrow> rs_store t = rs_store s \<and> rs_world t = rs_world s"

definition leads_to :: "('o, 'v) rpc_sys \<Rightarrow> reqMsg \<Rightarrow> req_info \<Rightarrow> bool" where
  "leads_to s req ri \<longleftrightarrow> (\<exists>lr. ReadEndnameInfo (rq_endname req) (rs_net s) = (True, Some (ri_servername ri), Some (ri_server ri), True, lr)) \<and> ri_reliable ri"

fun stands :: "'v gob \<Rightarrow> ('o, 'v) rpc_sys \<Rightarrow> reqMsg \<Rightarrow> 'v \<Rightarrow> 'v call_pc \<Rightarrow> req_info option \<Rightarrow> handler \<Rightarrow> ('o, 'v) rpc_sys \<Rightarrow> bool" where
  "stands g s req v Sending i h t \<longleftrightarrow> untouched s t \<and> h = NotStarted"
| "stands g s req v Accepted i h t \<longleftrightarrow> untouched s t \<and> h = NotStarted"
| "stands g s req v WaitReply i h t \<longleftrightarrow> (\<exists>ri. i = Some ri \<and> leads_to s req ri
     \<and> (h = Started \<and> untouched s t \<or> (\<exists>r. h = Executed r \<and> executed g s req ri r t)))"
| "stands g s req v (GotReply r) i h t \<longleftrightarrow> (\<exists>ri. i = Some ri \<and> leads_to s req ri \<and> h \<noteq> Started \<and> executed g s req ri r t)"
| "stands g s req v (Replying r) i h t \<longleftrightarrow> h \<noteq> Started \<and>
     ((\<exists>ri. leads_to s req ri \<and> executed g s req ri r t)
      \<or> r = no_reply \<and> untouched s t \<and> net_call g req v (rs_net s) (rs_store s) (rs_world s) = Inr (False, v, rs_store s, rs_world s))"
| "stands g s req v (Returned b x) i h t \<longleftrightarrow> h \<noteq> Started \<and> net_call g req v (rs_net s) (rs_store s) (rs_world s) = Inr (b, x, rs_store t, rs_world t)"

definition follows :: "'v gob \<Rightarrow> nat \<Rightarrow> reqMsg \<Rightarrow> 'v \<Rightarrow> ('o, 'v) rpc_sys \<Rightarrow> ('o, 'v) rpc_sys \<Rightarrow> bool" where
  "follows g k req v s t \<longleftrightarrow> quiet k t \<and> rs_net t = (rs_net s)\<lparr>net_count := net_count (rs_net t)\<rparr>
     \<and> (if rs_fatal t then \<exists>e. net_call g req v (rs_net s) (rs_store s) (rs_world s) = Inl e
        else \<exists>c. rs_calls t k = Some c \<and> rc_req c = req \<and> rc_reply c = v \<and> stands g s req v (rc_pc c) (rc_info c) (rc_handler c) t)"

lemma same_route:
  assumes "rn' = rn\<lparr>net_count := n\<rparr>"
  shows "ReadEndnameInfo e rn' = ReadEndnameInfo e rn" "IsServerDead e sn a rn' = IsServerDead e sn a rn"
  using assms by (auto simp: ReadEndnameInfo_def IsServerDead_def Let_def split: option.split)

lemma leads_to_alive: "leads_to s req ri \<Longrightarrow> \<not> IsServerDead (rq_endname req) (ri_servername ri) (ri_server ri) (rs_net s)"
  by (auto simp: leads_to_def ReadEndnameInfo_def IsServerDead_def Let_def split: option.splits)

lemma executed_call:
  assumes "leads_to s req ri" "executed g s req ri r t"
  shows "net_call g req v (rs_net s) (rs_store s) (rs_world s) =
    (if rp_ok r then (case dec g v (rp_reply r) of (True, x) \<Rightarrow> Inr (True, x, rs_store t, rs_world t) | (False, _) \<Rightarrow> Inl Fatal)
     else Inr (False, v, rs_store t, rs_world t))"
  using assms by (auto simp: leads_to_def executed_def net_call_def split: prod.split bool.split)

text \<open>What \<open>stands\<close> says of a call does not change with anything but the store and the receivers.\<close>

lemma stands_cong: "rs_store t = rs_store t' \<Longrightarrow> rs_world t = rs_world t' \<Longrightarrow> stands g s req v pc i h t = stands g s req v pc i h t'"
  by (cases pc) (simp_all add: untouched_def executed_def)

lemma quiet_others:
  assumes "quiet k t" "rs_calls t j = Some c" "(\<forall>b v. rc_pc c \<noteq> Returned b v) \<or> rc_handler c = Started"
  shows "j = k"
  using assms unfolding quiet_def by blast

lemma quiet_set_call: "quiet k (set_call k c t) = quiet k t"
  by (auto simp: quiet_def)

lemma follows_call:
  assumes "follows g k req v s t" "\<not> rs_fatal t" "rs_calls t j = Some c" "(\<forall>b v. rc_pc c \<noteq> Returned b v) \<or> rc_handler c = Started"
  shows "j = k \<and> rc_req c = req \<and> rc_reply c = v \<and> stands g s req v (rc_pc c) (rc_info c) (rc_handler c) t"
  using assms quiet_others [of k t j c] by (auto simp: follows_def)

lemma follows_set:
  assumes "follows g k req v s t" "\<not> rs_fatal t" "rc_req c = req" "rc_reply c = v" "stands g s req v (rc_pc c) (rc_info c) (rc_handler c) t"
  shows "follows g k req v s (set_call k c t)"
  using assms stands_cong [of "set_call k c t" t] by (simp add: follows_def quiet_set_call)

lemma follows_net:
  assumes "follows g k req v s t" "\<not> rs_fatal t" "rn = (rs_net t)\<lparr>net_count := n\<rparr>"
  shows "follows g k req v s (t\<lparr>rs_net := rn\<rparr>)"
proof -
  obtain c where "rs_calls t k = Some c" "rc_req c = req" "rc_reply c = v" "stands g s req v (rc_pc c) (rc_info c) (rc_handler c) t"
    "quiet k t" "rs_net t = (rs_net s)\<lparr>net_count := net_count (rs_net t)\<rparr>"
    using assms(1,2) by (auto simp: follows_def)
  moreover from this(6) have "rn = (rs_net s)\<lparr>net_count := n\<rparr>"
    using assms(3) by (metis Network.surjective Network.update_convs(9))
  moreover have "quiet k (t\<lparr>rs_net := rn\<rparr>)"
    using assms(3) \<open>quiet k t\<close> by (simp add: quiet_def)
  ultimately show ?thesis
    using assms(2) stands_cong [of "t\<lparr>rs_net := rn\<rparr>" t] by (simp add: follows_def)
qed

lemma follows_fatal:
  assumes "follows g k req v s t" "net_call g req v (rs_net s) (rs_store s) (rs_world s) = Inl e"
  shows "follows g k req v s (t\<lparr>rs_fatal := True\<rparr>)"
  using assms by (auto simp: follows_def quiet_def)

lemma follows_execute:
  assumes "follows g k req v s t" "\<not> rs_fatal t" "rs_calls t j = Some c" "rc_handler c = Started" "rc_info c = Some ri"
    and "rs_store t (ri_server ri) = Some srv" "dispatch g (rc_req c) srv (rs_world t) = Inr (r, srv', w)"
  shows "follows g k req v s (set_call j (c\<lparr>rc_handler := Executed r\<rparr>)
    (t\<lparr>rs_store := (rs_store t)(ri_server ri \<mapsto> srv'), rs_world := w, rs_log := l\<rparr>))"
proof -
  have c: "j = k" "rc_req c = req" "rc_reply c = v" "stands g s req v (rc_pc c) (rc_info c) (rc_handler c) t"
    using follows_call [OF assms(1-3)] assms(4) by auto
  then have "rc_pc c = WaitReply" "leads_to s req ri" "untouched s t"
    using assms(4,5) by (cases "rc_pc c"; auto)+
  then show ?thesis
    using assms c(1-3) by (auto simp: follows_def quiet_def untouched_def executed_def)
qed

lemma follows_fails:
  assumes "follows g k req v s t" "\<not> rs_fatal t" "rs_calls t j = Some c" "rc_handler c = Started" "rc_info c = Some ri"
    and "rs_store t (ri_server ri) = Some srv" "dispatch g (rc_req c) srv (rs_world t) = Inl e"
  shows "follows g k req v s (t\<lparr>rs_fatal := True\<rparr>)"
proof (rule follows_fatal [OF assms(1)])
  have c: "rc_req c = req" "stands g s req v (rc_pc c) (rc_info c) (rc_handler c) t"
    using follows_call [OF assms(1-3)] assms(4) by auto
  then have "leads_to s req ri" "untouched s t"
    using assms(4,5) by (cases "rc_pc c"; auto)+
  then show "net_call g req v (rs_net s) (rs_store s) (rs_world s) = Inl e"
    using assms(6,7) c(1) by (auto simp: net_call_def leads_to_def untouched_def)
qed

lemma follows_net_same:
  assumes "follows g k req v s t"
  shows "ReadEndnameInfo e (rs_net t) = ReadEndnameInfo e (rs_net s)" "IsServerDead e sn a (rs_net t) = IsServerDead e sn a (rs_net s)" "reliable (rs_net t)"
    "\<not> net_done (rs_net t)"
proof -
  have "rs_net t = (rs_net s)\<lparr>net_count := net_count (rs_net t)\<rparr>" "quiet k t"
    using assms by (simp_all add: follows_def)
  then show "ReadEndnameInfo e (rs_net t) = ReadEndnameInfo e (rs_net s)" "IsServerDead e sn a (rs_net t) = IsServerDead e sn a (rs_net s)" "reliable (rs_net t)"
    "\<not> net_done (rs_net t)"
    using same_route [of "rs_net t" _ "rs_net s"] by (metis, metis, simp_all add: quiet_def)
qed

lemma follows_step:
  assumes F: "follows g k req v s t" and S: "alone_step g t t'"
  shows "follows g k req v s t'"
proof -
  have f: "\<not> rs_fatal t" and st: "rpc_step g t t'" and net: "rs_net t' = (rs_net t)\<lparr>net_count := net_count (rs_net t')\<rparr>"
    and doms: "dom (rs_store t') = dom (rs_store t)" "dom (rs_calls t') = dom (rs_calls t)"
    using S by (simp_all add: alone_step_def run_step_def)
  note same = follows_net_same [OF F] and mine = follows_call [OF F f]
  from st show ?thesis
  proof cases
    case (admin rn)
    then show ?thesis using follows_net [OF F f, of rn "net_count rn"] net by simp
  next
    case (add_server a sn)
    then show ?thesis using follows_net [OF F f, of "AddServer sn a (rs_net t)"] net by (metis rpc_sys.select_convs(1) rpc_sys.surjective rpc_sys.update_convs(1))
  next
    case (accept j c)
    note c = mine [OF accept(2)]
    have "follows g k req v s (t\<lparr>rs_net := (rs_net t)\<lparr>net_count := net_count (rs_net t) + 1\<rparr>\<rparr>)"
      by (rule follows_net [OF F f refl])
    from follows_set [OF this, of "c\<lparr>rc_pc := Accepted\<rparr>"] show ?thesis
      using accept(1,3) c f by (simp add: untouched_def)
  next
    case (unreachable j c en sn sv rel lr)
    have "net_call g req v (rs_net s) (rs_store s) (rs_world s) = Inr (False, v, rs_store s, rs_world s)"
      using unreachable(4,5) mine [OF unreachable(2)] unreachable(3) same(1) by (auto simp: net_call_def split: prod.split bool.split option.split)
    then show ?thesis using follows_set [OF F f, of "c\<lparr>rc_pc := Replying no_reply\<rparr>"] unreachable mine [OF unreachable(2)] by simp
  next
    case (start_handler j c sn a rel lr)
    have "rel"
      using start_handler(4) same(3) by (simp add: ReadEndnameInfo_def Let_def)
    then have "leads_to s req \<lparr>ri_servername = sn, ri_server = a, ri_reliable = rel\<rparr>"
      using start_handler(3,4) mine [OF start_handler(2)] same(1) by (simp add: leads_to_def)
    then show ?thesis
      using start_handler mine [OF start_handler(2)]
        follows_set [OF F f, of "c\<lparr>rc_pc := WaitReply, rc_info := Some \<lparr>ri_servername = sn, ri_server = a, ri_reliable = rel\<rparr>, rc_handler := Started\<rparr>"]
      by simp
  next
    case (execute j c ri srv r srv' w)
    then show ?thesis using follows_execute [OF F f] by simp
  next
    case (execute_fails j c ri srv e)
    then show ?thesis using follows_fails [OF F f] by simp
  next
    case (receive j c r)
    then show ?thesis using follows_set [OF F f, of "c\<lparr>rc_pc := GotReply r\<rparr>"] mine [OF receive(2)] by auto
  next
    case (give_up j c ri)
    then show ?thesis using mine [OF give_up(2)] leads_to_alive [of s req ri] same(2) by auto
  next
    case (killed j c r ri)
    then show ?thesis using mine [OF killed(2)] leads_to_alive [of s req ri] same(2) by auto
  next
    case (drop_request j c sn a lr)
    then show ?thesis using same(3) by (simp add: ReadEndnameInfo_def Let_def)
  next
    case (drop_reply j c r ri)
    then show ?thesis using mine [OF drop_reply(2)] by (auto simp: leads_to_def)
  next
    case (answer j c r ri)
    then show ?thesis using follows_set [OF F f, of "c\<lparr>rc_pc := Replying r\<rparr>"] mine [OF answer(2)] by auto
  next
    case (return_false j c r)
    then show ?thesis using follows_set [OF F f, of "c\<lparr>rc_pc := Returned False (rc_reply c)\<rparr>"] mine [OF return_false(2)]
      by (auto simp: executed_call untouched_def)
  next
    case (return_true j c r x)
    then show ?thesis using follows_set [OF F f, of "c\<lparr>rc_pc := Returned True x\<rparr>"] mine [OF return_true(2)]
      by (auto simp: executed_call no_reply_def)
  next
    case (decode_fails j c r x)
    then show ?thesis using follows_fatal [OF F] mine [OF decode_fails(2)] by (auto simp: executed_call no_reply_def)
  qed (use doms same(4) in \<open>auto simp: set_call_def AddServer_def\<close>)
qed

section \<open>The run can go on\<close>

fun steps_left :: "'v call_pc \<Rightarrow> handler \<Rightarrow> nat" where
  "steps_left Sending h = 6"
| "steps_left Accepted h = 5"
| "steps_left WaitReply h = (if h = Started then 4 else 3)"
| "steps_left (GotReply r) h = 2"
| "steps_left (Replying r) h = 1"
| "steps_left (Returned b v) h = 0"

definition left_at :: "nat \<Rightarrow> ('o, 'v) rpc_sys \<Rightarrow> nat" where
  "left_at k t = (case rs_calls t k of None \<Rightarrow> 0 | Some c \<Rightarrow> if rs_fatal t then 0 else steps_left (rc_pc c) (rc_handler c))"

lemma alone_set: "\<not> rs_fatal t \<Longrightarrow> rs_calls t k \<noteq> None \<Longrightarrow> rpc_step g t (set_call k c t) \<Longrightarrow> alone_step g t (set_call k c t)"
  by (auto simp: alone_step_def run_step_def set_call_def)

lemma left_at_set [simp]: "\<not> rs_fatal t \<Longrightarrow> left_at k (set_call k c t) = steps_left (rc_pc c) (rc_handler c)"
  by (simp add: left_at_def)

lemma goes_on:
  assumes F: "follows g k req v s t" and inv: "rpc_inv g t" and c: "left_at k t \<noteq> 0"
  shows "\<exists>t'. alone_step g t t' \<and> left_at k t' < left_at k t"
proof -
  obtain c where f: "\<not> rs_fatal t" and k: "rs_calls t k = Some c" and left: "left_at k t = steps_left (rc_pc c) (rc_handler c)"
    using c by (auto simp: left_at_def split: option.splits if_splits)
  then have K: "rs_calls t k \<noteq> None" by simp
  note same = follows_net_same [OF F] and here = follows_call [OF F f k]
  note alone = alone_set [OF f K] and ok = inv_call [OF inv k]
  show ?thesis
  proof (cases "rc_pc c")
    case Sending
    let ?t = "set_call k (c\<lparr>rc_pc := Accepted\<rparr>) (t\<lparr>rs_net := (rs_net t)\<lparr>net_count := net_count (rs_net t) + 1\<rparr>\<rparr>)"
    have "rpc_step g t ?t" using rpc_step.accept [OF k Sending] F by (simp add: follows_def quiet_def)
    then have "alone_step g t ?t" using f k by (auto simp: alone_step_def run_step_def set_call_def)
    then show ?thesis using left Sending f by (intro exI [of _ ?t]) simp
  next
    case Accepted
    obtain en sn sv rel lr where r: "ReadEndnameInfo (rq_endname (rc_req c)) (rs_net t) = (en, sn, sv, rel, lr)" by (metis prod_cases5)
    show ?thesis
    proof (cases "\<not> en \<or> sn = None \<or> sv = None")
      case True
      show ?thesis using alone [OF unreachable [OF k Accepted r True]] left Accepted f by (intro exI conjI) auto
    next
      case False
      then obtain n a where "ReadEndnameInfo (rq_endname (rc_req c)) (rs_net t) = (True, Some n, Some a, rel, lr)" using r by auto
      from alone [OF start_handler [OF k Accepted this]] show ?thesis using left Accepted f by (intro exI conjI) auto
    qed
  next
    case WaitReply
    then obtain ri where ri: "rc_info c = Some ri" and h: "rc_handler c = Started \<or> (\<exists>r. rc_handler c = Executed r)"
      using here by auto
    show ?thesis
    proof (cases "rc_handler c = Started")
      case True
      then obtain srv where srv: "rs_store t (ri_server ri) = Some srv" using ok ri by (auto simp: call_ok_def)
      show ?thesis
      proof (cases "dispatch g (rc_req c) srv (rs_world t)")
        case (Inl e)
        have "alone_step g t (t\<lparr>rs_fatal := True\<rparr>)"
          using execute_fails [OF k True ri srv Inl] f by (simp add: alone_step_def run_step_def)
        then show ?thesis using left WaitReply True k by (intro exI [of _ "t\<lparr>rs_fatal := True\<rparr>"]) (simp add: left_at_def)
      next
        case (Inr x)
        obtain r srv' w where x: "dispatch g (rc_req c) srv (rs_world t) = Inr (r, srv', w)" using Inr by (cases x) auto
        let ?t = "set_call k (c\<lparr>rc_handler := Executed r\<rparr>)
          (t\<lparr>rs_store := (rs_store t)(ri_server ri \<mapsto> srv'), rs_world := w, rs_log := rs_log t @ [(k, ri_server ri, rs_world t, r)]\<rparr>)"
        have "alone_step g t ?t" using execute [OF k True ri srv x] f k srv by (auto simp: alone_step_def run_step_def set_call_def)
        then show ?thesis using left WaitReply True f by (intro exI [of _ ?t]) simp
      qed
    next
      case False
      then obtain r where "rc_handler c = Executed r" using h by auto
      from alone [OF receive [OF k WaitReply this]] show ?thesis using left WaitReply False f by (intro exI conjI) auto
    qed
  next
    case (GotReply r)
    then obtain ri where ri: "rc_info c = Some ri" "leads_to s req ri" using here by auto
    have "\<not> IsServerDead (rq_endname (rc_req c)) (ri_servername ri) (ri_server ri) (rs_net t)"
      using leads_to_alive [OF ri(2)] here GotReply same(2) by simp
    from alone [OF answer [OF k GotReply ri(1) this]] show ?thesis using left GotReply f by (intro exI conjI) auto
  next
    case (Replying r)
    obtain b x where d: "dec g (rc_reply c) (rp_reply r) = (b, x)" by force
    show ?thesis
    proof (cases "rp_ok r \<and> \<not> b")
      case True
      then have "alone_step g t (t\<lparr>rs_fatal := True\<rparr>)"
        using decode_fails [OF k Replying] d f by (simp add: alone_step_def run_step_def)
      then show ?thesis using left Replying k by (intro exI [of _ "t\<lparr>rs_fatal := True\<rparr>"]) (simp add: left_at_def)
    next
      case False
      then have "rpc_step g t (set_call k (c\<lparr>rc_pc := Returned (rp_ok r) (if rp_ok r then x else rc_reply c)\<rparr>) t)"
        using return_false [OF k Replying, of g] return_true [OF k Replying, of g x] d by (cases "rp_ok r") simp_all
      from alone [OF this] show ?thesis using left Replying f by (intro exI conjI) auto
    qed
  next
    case (Returned b v)
    then show ?thesis using c left by simp
  qed
qed

lemma alone_run:
  assumes "(alone_step g)\<^sup>*\<^sup>* s t" "rpc_inv g s" "follows g k req v s0 s"
  shows "rpc_inv g t \<and> follows g k req v s0 t"
  using assms
proof (induction rule: rtranclp_induct)
  case (step t u)
  then show ?case using follows_step [of g k req v s0 t u] inv_step [of g t u] by (auto simp: alone_step_def run_step_def)
qed simp

lemma alone_ends:
  assumes "rpc_inv g t" "follows g k req v s t"
  shows "\<exists>u. (alone_step g)\<^sup>*\<^sup>* t u \<and> left_at k u = 0"
  using assms
proof (induction "left_at k t" arbitrary: t rule: less_induct)
  case less
  show ?case
  proof (cases "left_at k t = 0")
    case False
    obtain u where u: "alone_step g t u" "left_at k u < left_at k t" using goes_on [OF less.prems(2,1) False] by blast
    have "rpc_inv g u" "follows g k req v s u" using alone_run [OF r_into_rtranclp [of "alone_step g", OF u(1)] less.prems] by simp_all
    from less.hyps [OF u(2) this] show ?thesis using u(1) by (meson converse_rtranclp_into_rtranclp)
  qed auto
qed

lemma left_at_0:
  assumes "follows g k req v s t" "left_at k t = 0"
  shows "rs_fatal t \<or> (\<exists>c b x. rs_calls t k = Some c \<and> rc_pc c = Returned b x)"
proof (cases "rs_fatal t")
  case False
  then obtain c where "rs_calls t k = Some c" using assms(1) by (auto simp: follows_def)
  then show ?thesis using assms(2) False by (cases "rc_pc c") (auto simp: left_at_def split: if_splits)
qed simp

section \<open>Property\<close>

text \<open>
  C28: A call on a reliable network that nothing interrupts behaves as the function \<open>net_call\<close>. From a reachable state in which it has just been sent, however the caller, the
  network and the handler interleave: when the call returns, its result, the servers and the receivers are those of the function; the process has
  ended only when the function fails; and the call can always be brought to its end.
\<close>

theorem call_uninterrupted:
  assumes "rpc_reach g w s" "\<not> rs_fatal s" "quiet k s" "rs_calls s k = Some c" "rc_pc c = Sending"
  shows "(\<forall>t. (alone_step g)\<^sup>*\<^sup>* s t \<longrightarrow>
      (if rs_fatal t then \<exists>e. net_call g (rc_req c) (rc_reply c) (rs_net s) (rs_store s) (rs_world s) = Inl e
       else \<forall>c' b v. rs_calls t k = Some c' \<and> rc_pc c' = Returned b v \<longrightarrow>
              net_call g (rc_req c) (rc_reply c) (rs_net s) (rs_store s) (rs_world s) = Inr (b, v, rs_store t, rs_world t)))
    \<and> (\<exists>t. (alone_step g)\<^sup>*\<^sup>* s t \<and> (rs_fatal t \<or> (\<exists>c' b v. rs_calls t k = Some c' \<and> rc_pc c' = Returned b v)))"
proof -
  have inv: "rpc_inv g s" using reach_inv [OF assms(1)] .
  then have "rc_handler c = NotStarted" using inv_pc_ok [OF inv assms(4)] assms(5) by simp
  then have F: "follows g k (rc_req c) (rc_reply c) s s" using assms(2-5) by (simp add: follows_def untouched_def)
  have "if rs_fatal t then \<exists>e. net_call g (rc_req c) (rc_reply c) (rs_net s) (rs_store s) (rs_world s) = Inl e
       else \<forall>c' b v. rs_calls t k = Some c' \<and> rc_pc c' = Returned b v \<longrightarrow>
              net_call g (rc_req c) (rc_reply c) (rs_net s) (rs_store s) (rs_world s) = Inr (b, v, rs_store t, rs_world t)"
    if "(alone_step g)\<^sup>*\<^sup>* s t" for t
    using alone_run [OF that inv F] by (auto simp: follows_def)
  moreover obtain t where t: "(alone_step g)\<^sup>*\<^sup>* s t" "left_at k t = 0" using alone_ends [OF inv F] by blast
  moreover have "rs_fatal t \<or> (\<exists>c' b v. rs_calls t k = Some c' \<and> rc_pc c' = Returned b v)"
    using left_at_0 [of g k "rc_req c" "rc_reply c" s t] alone_run [OF t(1) inv F] t(2) by simp
  ultimately show ?thesis by blast
qed

lemma demo_sent: "rpc_reach demo_gob 0 (set_call 0 demo_call demo_ready)"
proof (rule rpc_reach.more [OF demo_ready_reach])
  show "rpc_step demo_gob demo_ready (set_call 0 demo_call demo_ready)"
    unfolding demo_call_def by (rule rpc_step.call) (simp_all add: demo_ready_def rpc_init_def demo_net_def Enable_def Connect_def AddServer_def)
qed (simp add: demo_ready_def rpc_init_def)

theorem call_uninterrupted_witness:
  "\<exists>t. (alone_step demo_gob)\<^sup>*\<^sup>* (set_call 0 demo_call demo_ready) t \<and> (\<exists>c. rs_calls t 0 = Some c \<and> rc_pc c = Returned True ''hi'') \<and> rs_world t = 1"
proof -
  have q: "quiet 0 (set_call 0 demo_call demo_ready)"
    by (simp add: quiet_def demo_ready_def rpc_init_def demo_net_def Enable_def Connect_def AddServer_def MakeNetwork_def)
  have "ReadEndnameInfo (rq_endname (rc_req demo_call)) demo_net = (True, Some (IInt 0), Some 5, True, False)"
    by (simp add: ReadEndnameInfo_def demo_net_def Enable_def Connect_def AddServer_def MakeNetwork_def demo_call_def make_request_def)
  then have n: "net_call demo_gob (rc_req demo_call) (rc_reply demo_call) demo_net [5 \<mapsto> demo_server] (0 :: nat)
      = Inr (True, ''hi'', [5 \<mapsto> demo_server\<lparr>sv_count := 1\<rparr>], 1)"
    by (simp add: net_call_def demo_dispatch) (simp add: demo_gob_def)
  have s: "\<not> rs_fatal (set_call 0 demo_call demo_ready)" "rs_calls (set_call 0 demo_call demo_ready) 0 = Some demo_call" "rc_pc demo_call = Sending"
    "rs_net (set_call 0 demo_call demo_ready) = demo_net" "rs_store (set_call 0 demo_call demo_ready) = [5 \<mapsto> demo_server]"
    "rs_world (set_call 0 demo_call demo_ready) = 0"
    by (simp_all add: demo_ready_def rpc_init_def demo_call_def)
  note call = call_uninterrupted [OF demo_sent s(1) q s(2,3), unfolded s(4-6) n]
  then obtain t where t: "(alone_step demo_gob)\<^sup>*\<^sup>* (set_call 0 demo_call demo_ready) t"
    "rs_fatal t \<or> (\<exists>c' b v. rs_calls t 0 = Some c' \<and> rc_pc c' = Returned b v)" by blast
  note end_of = conjunct1 [OF call, rule_format, OF t(1)]
  have f: "\<not> rs_fatal t" using end_of by (cases "rs_fatal t") simp_all
  then obtain c' b v where c': "rs_calls t 0 = Some c'" "rc_pc c' = Returned b v" using t(2) by blast
  have "Inr (True, ''hi'', [5 \<mapsto> demo_server\<lparr>sv_count := 1\<rparr>], 1) = (Inr (b, v, rs_store t, rs_world t) :: (bool \<times> string \<times> (nat \<rightharpoonup> (nat, string) Server) \<times> nat) result)"
    using end_of f c' by simp
  then have "b" "v = ''hi''" "rs_world t = 1" by simp_all
  then show ?thesis using t(1) c' by (intro exI [of _ t] conjI exI [of _ c']) simp_all
qed

end
