(* ===== verification/LabGob.thy ===== *)
theory LabGob
  imports GoLib
begin

text \<open>
  The encoder wrapper of the labs (\<open>src/lab4/src/labgob/labgob.go\<close>): it warns about struct fields that \<open>encoding/gob\<close> does
  not send and about decoding into variables that are not zero.

  \<^item> \<open>reflect\<close>: a type is an address, \<open>tenv\<close> gives its name and its kind with the component types; types may be recursive.
    A value is a tree that tells for every basic value whether it is the zero value.
  \<^item> \<open>unicode.IsUpper\<close> of the first rune of a name is a parameter.
  \<^item> \<open>checkType\<close> recurs through the types that are not checked yet; its fuel bounds the depth, and the number of types that are
    not checked, plus one, is enough. Warnings are collected in order.
\<close>

type_synonym ty = nat

datatype kind = Struct "(string \<times> ty) list" | Slice ty | Array ty | Ptr ty | Map ty ty | OtherKind

record tenv =
  ty_name :: "ty \<Rightarrow> string"
  ty_kind :: "ty \<Rightarrow> kind"

datatype warning = LowerCase string string | NonDefault string

record labgob =
  errorCount :: int
  checked :: "ty set"
  printed :: "warning list"

section \<open>Checking types\<close>

fun checkType :: "(string \<Rightarrow> bool) \<Rightarrow> nat \<Rightarrow> tenv \<Rightarrow> ty \<Rightarrow> labgob \<Rightarrow> labgob option"
  and checkFields :: "(string \<Rightarrow> bool) \<Rightarrow> nat \<Rightarrow> tenv \<Rightarrow> ty \<Rightarrow> (string \<times> ty) list \<Rightarrow> labgob \<Rightarrow> labgob option" where
  "checkType upper 0 env t st = None"
| "checkType upper (Suc fuel) env t st =
     (if t \<in> checked st then Some st
      else let st = st\<lparr>checked := insert t (checked st)\<rparr>
           in case ty_kind env t of
                Struct fs \<Rightarrow> checkFields upper fuel env t fs st
              | Slice e \<Rightarrow> checkType upper fuel env e st
              | Array e \<Rightarrow> checkType upper fuel env e st
              | Ptr e \<Rightarrow> checkType upper fuel env e st
              | Map k e \<Rightarrow> Option.bind (checkType upper fuel env e st) (checkType upper fuel env k)
              | OtherKind \<Rightarrow> Some st)"
| "checkFields upper fuel env t [] st = Some st"
| "checkFields upper fuel env t ((fname, ft) # fs) st =
     (let st = (if \<not> upper fname
                then st\<lparr>errorCount := errorCount st + 1, printed := printed st @ [LowerCase fname (ty_name env t)]\<rparr> else st)
      in Option.bind (checkType upper fuel env ft st) (checkFields upper fuel env t fs))"

section \<open>Checking that a variable is zero\<close>

text \<open>A basic value carries the name of its type and whether it equals the zero value.\<close>

datatype rvalue = VStruct "(string \<times> rvalue) list" | VNil | VPtr rvalue | VBasic string bool | VOther

fun checkDefault1 :: "rvalue \<Rightarrow> nat \<Rightarrow> string \<Rightarrow> labgob \<Rightarrow> labgob"
  and checkDefaults :: "(string \<times> rvalue) list \<Rightarrow> nat \<Rightarrow> string \<Rightarrow> labgob \<Rightarrow> labgob" where
  "checkDefault1 (VStruct fs) depth name st = (if depth > 3 then st else checkDefaults fs depth name st)"
| "checkDefault1 VNil depth name st = st"
| "checkDefault1 (VPtr v) depth name st = (if depth > 3 then st else checkDefault1 v (depth + 1) name st)"
| "checkDefault1 (VBasic tname zero) depth name st =
     (if depth > 3 \<or> zero then st
      else let st = (if errorCount st < 1 then st\<lparr>printed := printed st @ [NonDefault (if name = [] then tname else name)]\<rparr> else st)
           in st\<lparr>errorCount := errorCount st + 1\<rparr>)"
| "checkDefault1 VOther depth name st = st"
| "checkDefaults [] depth name st = st"
| "checkDefaults ((fname, v) # fs) depth name st =
     checkDefaults fs depth name (checkDefault1 v (depth + 1) (if name \<noteq> [] then name @ ''.'' @ fname else fname) st)"

definition checkDefault :: "rvalue option \<Rightarrow> labgob \<Rightarrow> labgob" where
  "checkDefault value st = (case value of None \<Rightarrow> st | Some v \<Rightarrow> checkDefault1 v 1 [] st)"

text \<open>
  The operations, with \<open>encoding/gob\<close> as a parameter. A nil interface has a nil type, whose \<open>Kind\<close> panics; \<open>None\<close> in a result means
  that the fuel of the check was too small.
\<close>

definition checkValue :: "(string \<Rightarrow> bool) \<Rightarrow> nat \<Rightarrow> tenv \<Rightarrow> ty option \<Rightarrow> labgob \<Rightarrow> labgob option result" where
  "checkValue upper fuel env typ st = bindR (panic_unless typ) (\<lambda>t. Inr (checkType upper fuel env t st))"

definition Encode ::
  "(string \<Rightarrow> bool) \<Rightarrow> nat \<Rightarrow> tenv \<Rightarrow> ('v \<Rightarrow> string) \<Rightarrow> ty option \<Rightarrow> 'v \<Rightarrow> labgob \<Rightarrow> (string \<times> labgob) option result" where
  "Encode upper fuel env gob_Encode typ e st =
     bindR (checkValue upper fuel env typ st) (\<lambda>r. Inr (map_option (\<lambda>st. (gob_Encode e, st)) r))"

definition EncodeValue ::
  "(string \<Rightarrow> bool) \<Rightarrow> nat \<Rightarrow> tenv \<Rightarrow> ('v \<Rightarrow> string) \<Rightarrow> ty option \<Rightarrow> 'v \<Rightarrow> labgob \<Rightarrow> (string \<times> labgob) option result" where
  "EncodeValue upper fuel env gob_EncodeValue typ value st =
     bindR (checkValue upper fuel env typ st) (\<lambda>r. Inr (map_option (\<lambda>st. (gob_EncodeValue value, st)) r))"

definition Decode ::
  "(string \<Rightarrow> bool) \<Rightarrow> nat \<Rightarrow> tenv \<Rightarrow> (rvalue option \<Rightarrow> string \<Rightarrow> 'v) \<Rightarrow> ty option \<Rightarrow> rvalue option \<Rightarrow> string \<Rightarrow> labgob \<Rightarrow> ('v \<times> labgob) option result" where
  "Decode upper fuel env gob_Decode typ e bs st =
     bindR (checkValue upper fuel env typ st) (\<lambda>r. Inr (map_option (\<lambda>st. (gob_Decode e bs, checkDefault e st)) r))"

definition gob_Register ::
  "(string \<Rightarrow> bool) \<Rightarrow> nat \<Rightarrow> tenv \<Rightarrow> (ty option \<Rightarrow> 'r \<Rightarrow> 'r) \<Rightarrow> ty option \<Rightarrow> 'r \<times> labgob \<Rightarrow> ('r \<times> labgob) option result" where
  "gob_Register upper fuel env register typ = (\<lambda>(reg, st).
     bindR (checkValue upper fuel env typ st) (\<lambda>r. Inr (map_option (\<lambda>st. (register typ reg, st)) r)))"

definition gob_RegisterName ::
  "(string \<Rightarrow> bool) \<Rightarrow> nat \<Rightarrow> tenv \<Rightarrow> (string \<Rightarrow> ty option \<Rightarrow> 'r \<Rightarrow> 'r) \<Rightarrow> string \<Rightarrow> ty option \<Rightarrow> 'r \<times> labgob \<Rightarrow> ('r \<times> labgob) option result" where
  "gob_RegisterName upper fuel env register name typ = (\<lambda>(reg, st).
     bindR (checkValue upper fuel env typ st) (\<lambda>r. Inr (map_option (\<lambda>st. (register name typ reg, st)) r)))"

section \<open>What the check of a type counts\<close>

fun component_types :: "kind \<Rightarrow> ty list" where
  "component_types (Struct fs) = map snd fs"
| "component_types (Slice e) = [e]"
| "component_types (Array e) = [e]"
| "component_types (Ptr e) = [e]"
| "component_types (Map k e) = [e, k]"
| "component_types OtherKind = []"

definition lower_fields :: "(string \<Rightarrow> bool) \<Rightarrow> tenv \<Rightarrow> ty \<Rightarrow> nat" where
  "lower_fields upper env t = (case ty_kind env t of Struct fs \<Rightarrow> length (filter (\<lambda>f. \<not> upper (fst f)) fs) | _ \<Rightarrow> 0)"

definition component :: "tenv \<Rightarrow> (ty \<times> ty) set" where
  "component env = {(t, u). u \<in> set (component_types (ty_kind env t))}"

text \<open>A check of types \<open>ts\<close> from \<open>st\<close> to \<open>st'\<close>; \<open>own\<close> counts lower-case fields of the type whose fields are checked.\<close>

definition checks :: "(string \<Rightarrow> bool) \<Rightarrow> tenv \<Rightarrow> ty list \<Rightarrow> nat \<Rightarrow> labgob \<Rightarrow> labgob \<Rightarrow> bool" where
  "checks upper env ts own st st' \<longleftrightarrow>
     checked st \<subseteq> checked st' \<and> set ts \<subseteq> checked st' \<and> finite (checked st' - checked st) \<and>
     checked st' - checked st \<subseteq> (component env)\<^sup>* `` set ts \<and>
     (\<forall>t \<in> checked st' - checked st. component env `` {t} \<subseteq> checked st') \<and>
     errorCount st' = errorCount st + int own + (\<Sum>t \<in> checked st' - checked st. int (lower_fields upper env t))"

lemma checks_trans:
  assumes "checks upper env ts m st st1" "checks upper env us n st1 st2"
  shows "checks upper env (ts @ us) (m + n) st st2"
proof -
  let ?A = "checked st1 - checked st" and ?B = "checked st2 - checked st1"
  have eq: "checked st2 - checked st = ?A \<union> ?B" using assms by (auto simp: checks_def)
  have "(\<Sum>t \<in> ?A \<union> ?B. int (lower_fields upper env t)) = (\<Sum>t \<in> ?A. int (lower_fields upper env t)) + (\<Sum>t \<in> ?B. int (lower_fields upper env t))"
    using assms by (intro sum.union_disjoint) (auto simp: checks_def)
  moreover have "component env `` {t} \<subseteq> checked st2" if "t \<in> ?A \<union> ?B" for t using assms that unfolding checks_def by blast
  ultimately show ?thesis using assms unfolding checks_def eq by auto
qed

lemma checks_enter:
  assumes "t \<notin> checked st" "checks upper env (component_types (ty_kind env t)) (lower_fields upper env t) (st\<lparr>checked := insert t (checked st)\<rparr>) st'"
  shows "checks upper env [t] 0 st st'"
proof -
  let ?B = "checked st' - insert t (checked st)"
  have eq: "checked st' - checked st = insert t ?B" using assms by (auto simp: checks_def)
  have sum: "(\<Sum>u \<in> insert t ?B. int (lower_fields upper env u)) = int (lower_fields upper env t) + (\<Sum>u \<in> ?B. int (lower_fields upper env u))"
    using assms(2) by (subst sum.insert) (simp_all add: checks_def)
  have "(component env)\<^sup>* `` set (component_types (ty_kind env t)) \<subseteq> (component env)\<^sup>* `` {t}"
    by (auto simp: component_def intro: converse_rtrancl_into_rtrancl)
  moreover have "?B \<subseteq> (component env)\<^sup>* `` set (component_types (ty_kind env t))" using assms(2) by (simp add: checks_def)
  ultimately have "insert t ?B \<subseteq> (component env)\<^sup>* `` {t}" by blast
  moreover have "component env `` {u} \<subseteq> checked st'" if "u \<in> insert t ?B" for u
    using assms(2) that unfolding checks_def by (auto simp: component_def)
  moreover have "checked st \<subseteq> checked st'" "t \<in> checked st'" "finite ?B"
    "errorCount st' = errorCount st + int (lower_fields upper env t) + (\<Sum>u \<in> ?B. int (lower_fields upper env u))"
    using assms(2) by (auto simp: checks_def)
  ultimately show ?thesis unfolding checks_def eq sum by simp
qed

lemma checks_refl: "t \<in> checked st \<Longrightarrow> checks upper env [t] 0 st st"
  by (auto simp: checks_def)

lemma checks_nothing: "checks upper env [] 0 st st"
  by (auto simp: checks_def)

lemma checks_own:
  "checks upper env ts m st0 st' \<Longrightarrow> checked st0 = checked st \<Longrightarrow> errorCount st0 = errorCount st + int j \<Longrightarrow> checks upper env ts (j + m) st st'"
  by (simp add: checks_def)

lemma enough_fuel:
  "finite U \<Longrightarrow> t \<in> U \<Longrightarrow> t \<notin> checked st \<Longrightarrow> card (U - checked st) < Suc fuel \<Longrightarrow> card (U - insert t (checked st)) < fuel"
  using card_Diff1_less [of "U - checked st" t] by (simp add: Diff_insert [symmetric])

lemma still_enough: "finite U \<Longrightarrow> checks upper env ts m st st' \<Longrightarrow> card (U - checked st) < fuel \<Longrightarrow> card (U - checked st') < fuel"
  by (auto simp: checks_def intro: le_less_trans [OF card_mono])

lemma check_ok:
  assumes U: "finite U" "component env `` U \<subseteq> U"
  shows "t \<in> U \<Longrightarrow> card (U - checked st) < fuel \<Longrightarrow> \<exists>st'. checkType upper fuel env t st = Some st' \<and> checks upper env [t] 0 st st'"
    and "set (map snd fs) \<subseteq> U \<Longrightarrow> card (U - checked st) < fuel \<Longrightarrow>
      \<exists>st'. checkFields upper fuel env t fs st = Some st' \<and> checks upper env (map snd fs) (length (filter (\<lambda>f. \<not> upper (fst f)) fs)) st st'"
  using U
proof (induction upper fuel env t st and upper fuel env t fs st rule: checkType_checkFields.induct)
  case (2 upper fuel env t st)
  show ?case
  proof (cases "t \<in> checked st")
    case True
    then show ?thesis by (simp add: checks_refl)
  next
    case False
    let ?st = "st\<lparr>checked := insert t (checked st)\<rparr>"
    have f: "card (U - checked ?st) < fuel" using enough_fuel [OF U(1), of t st fuel] "2.prems" False by auto
    have c: "set (component_types (ty_kind env t)) \<subseteq> U" using "2.prems" by (auto simp: component_def)
    have "\<exists>st'. checkType upper (Suc fuel) env t st = Some st' \<and> checks upper env (component_types (ty_kind env t)) (lower_fields upper env t) ?st st'"
    proof (cases "ty_kind env t")
      case (Struct fs)
      then show ?thesis using "2.IH"(1) "2.prems" False f c by (simp add: lower_fields_def Let_def)
    next
      case (Map k e)
      obtain st1 where st1: "checkType upper fuel env e ?st = Some st1" "checks upper env [e] 0 ?st st1"
        using "2.IH"(5) [OF False refl Map] "2.prems" Map f c by auto
      moreover obtain st2 where "checkType upper fuel env k st1 = Some st2" "checks upper env [k] 0 st1 st2"
        using "2.IH"(6) [OF False refl Map] "2.prems" Map still_enough [OF U(1) st1(2) f] c st1 by auto
      ultimately show ?thesis using checks_trans [OF st1(2)] False Map by (fastforce simp: lower_fields_def Let_def)
    next
      case OtherKind
      then show ?thesis using False by (simp add: lower_fields_def checks_nothing)
    qed (use "2.IH"(2-4) "2.prems" False f c in \<open>simp_all add: lower_fields_def Let_def\<close>)
    then show ?thesis using checks_enter [OF False] by blast
  qed
next
  case (4 upper fuel env t fname ft fs st)
  let ?st = "if \<not> upper fname then st\<lparr>errorCount := errorCount st + 1, printed := printed st @ [LowerCase fname (ty_name env t)]\<rparr> else st"
  have same: "checked ?st = checked st" "errorCount ?st = errorCount st + int (if upper fname then 0 else 1)" by simp_all
  obtain st1 where st1: "checkType upper fuel env ft ?st = Some st1" "checks upper env [ft] 0 ?st st1"
    using "4.IH"(1) "4.prems" same(1) by auto
  moreover have "card (U - checked st1) < fuel" using still_enough [OF U(1) st1(2)] "4.prems" same(1) by simp
  moreover obtain st2 where st2: "checkFields upper fuel env t fs st1 = Some st2"
    "checks upper env (map snd fs) (length (filter (\<lambda>f. \<not> upper (fst f)) fs)) st1 st2"
    using "4.IH"(2) [OF refl st1(1)] "4.prems" calculation by auto
  ultimately show ?case using checks_own [OF checks_trans [OF st1(2) st2(2)] same] by (cases "upper fname") simp_all
qed (simp_all add: checks_nothing)

text \<open>
  C38: With fuel for the types that can occur, \<open>checkType\<close> ends also on recursive types: it marks exactly the types that are
  reachable, counts every lower-case field of a type that was not checked before once, and a second check of the type
  changes nothing.
\<close>

theorem checkType_counts:
  assumes "finite U" "component env `` U \<subseteq> U" "t \<in> U" "component env `` checked st \<subseteq> checked st" "card (U - checked st) < fuel"
  shows "\<exists>st'. checkType upper fuel env t st = Some st' \<and> checked st' = checked st \<union> (component env)\<^sup>* `` {t} \<and>
    errorCount st' = errorCount st + (\<Sum>u \<in> (component env)\<^sup>* `` {t} - checked st. int (lower_fields upper env u)) \<and>
    checkType upper fuel env t st' = Some st'"
proof -
  obtain st' where st': "checkType upper fuel env t st = Some st'" "checks upper env [t] 0 st st'"
    using check_ok(1) [OF assms(1,2,3,5)] by blast
  have "component env `` checked st' \<subseteq> checked st'" using assms(4) st'(2) unfolding checks_def by blast
  then have "(component env)\<^sup>* `` {t} \<subseteq> checked st'" using st'(2) Image_closed_trancl [of "component env" "checked st'"]
    unfolding checks_def by (metis Image_mono empty_subsetI insert_subset list.set(1) list.set(2) order_refl subset_trans)
  then have eq: "checked st' = checked st \<union> (component env)\<^sup>* `` {t}" using st'(2) unfolding checks_def by auto
  then have "checked st' - checked st = (component env)\<^sup>* `` {t} - checked st" by auto
  then have "errorCount st' = errorCount st + (\<Sum>u \<in> (component env)\<^sup>* `` {t} - checked st. int (lower_fields upper env u))"
    using st'(2) unfolding checks_def by simp
  moreover have "checkType upper fuel env t st' = Some st'" using st'(2) assms(5) by (cases fuel) (auto simp: checks_def)
  ultimately show ?thesis using st'(1) eq by blast
qed

definition demo_tenv :: tenv where
  "demo_tenv = \<lparr>ty_name = (\<lambda>_. ''Node''), ty_kind = (\<lambda>t. if t = 0 then Struct [(''next'', 1), (''Val'', 2)] else if t = 1 then Ptr 0 else OtherKind)\<rparr>"

theorem checkType_counts_witness:
  "\<exists>st'. checkType (\<lambda>s. s = ''Val'') 4 demo_tenv 0 \<lparr>errorCount = 0, checked = {}, printed = []\<rparr> = Some st' \<and> 0 \<in> checked st'"
proof -
  have "component demo_tenv `` {0, 1, 2} \<subseteq> {0, 1, 2}" by (auto simp: component_def demo_tenv_def split: if_splits)
  then show ?thesis
    using checkType_counts [where upper = "\<lambda>s. s = ''Val''" and fuel = 4 and t = 0 and U = "{0, 1, 2}" and env = demo_tenv and st = "\<lparr>errorCount = 0, checked = {}, printed = []\<rparr>"]
    by auto
qed

section \<open>What the check of a variable counts\<close>

fun non_defaults :: "nat \<Rightarrow> rvalue \<Rightarrow> nat" and non_defaults_fields :: "nat \<Rightarrow> (string \<times> rvalue) list \<Rightarrow> nat" where
  "non_defaults d (VStruct fs) = (if d > 3 then 0 else non_defaults_fields d fs)"
| "non_defaults d VNil = 0"
| "non_defaults d (VPtr v) = (if d > 3 then 0 else non_defaults (d + 1) v)"
| "non_defaults d (VBasic tname zero) = (if d > 3 \<or> zero then 0 else 1)"
| "non_defaults d VOther = 0"
| "non_defaults_fields d [] = 0"
| "non_defaults_fields d ((fname, v) # fs) = non_defaults (d + 1) v + non_defaults_fields d fs"

lemma checkDefault1_count:
  "errorCount (checkDefault1 v depth name st) = errorCount st + int (non_defaults depth v)"
  "errorCount (checkDefaults fs depth name st) = errorCount st + int (non_defaults_fields depth fs)"
  by (induction v depth name st and fs depth name st rule: checkDefault1_checkDefaults.induct) (auto simp: Let_def)

end
