(* ===== verification/LabConfig.thy ===== *)
theory LabConfig
  imports LabRpc
begin

text \<open>
  The harness of the key/value exercise on the simulated network (\<open>src/lab4/src/kvraft/config.go\<close>) with the persister
  (\<open>src/lab4/src/raft/persister.go\<close>): servers that start, stop and restart, partitions of the network, clerks.

  \<^item> Persisters, servers and clerks are addresses. A server instance keeps the address of the persister that it was given: an old
    instance goes on writing to its own persister.
  \<^item> \<open>randstring\<close> draws the names \<open>fresh 0, fresh 1, \<dots>\<close>. An index out of range is a panic, a nil slice is \<open>None\<close>.
  \<^item> The mutex serialises the operations; the server code itself is a skeleton in the repository and only its start is modelled.
\<close>

section \<open>The persister\<close>

record Persister =
  raftstate :: string
  snapshot :: string

definition MakePersister :: Persister where
  "MakePersister = \<lparr>raftstate = [], snapshot = []\<rparr>"

definition Copy :: "Persister \<Rightarrow> Persister" where
  "Copy ps = MakePersister\<lparr>raftstate := raftstate ps, snapshot := snapshot ps\<rparr>"

definition SaveRaftState :: "string \<Rightarrow> Persister \<Rightarrow> Persister" where
  "SaveRaftState state ps = ps\<lparr>raftstate := state\<rparr>"

definition ReadRaftState :: "Persister \<Rightarrow> string" where
  "ReadRaftState ps = raftstate ps"

definition RaftStateSize :: "Persister \<Rightarrow> nat" where
  "RaftStateSize ps = length (raftstate ps)"

definition SaveStateAndSnapshot :: "string \<Rightarrow> string \<Rightarrow> Persister \<Rightarrow> Persister" where
  "SaveStateAndSnapshot state snap ps = ps\<lparr>raftstate := state, snapshot := snap\<rparr>"

definition ReadSnapshot :: "Persister \<Rightarrow> string" where
  "ReadSnapshot ps = snapshot ps"

definition SnapshotSize :: "Persister \<Rightarrow> nat" where
  "SnapshotSize ps = length (snapshot ps)"

lemma Copy_id [simp]: "Copy ps = ps"
  by (simp add: Copy_def MakePersister_def)

section \<open>The configuration\<close>

text \<open>\<open>cf_store\<close> holds the persisters, \<open>cf_inst\<close> the persister of a server instance; \<open>cf_alloc\<close> is the next free address, \<open>cf_rand\<close> the next draw.\<close>

record config =
  cf_net :: Network
  cf_n :: nat
  cf_servers :: "nat option list"
  cf_saved :: "nat option list"
  cf_endnames :: "string list option list"
  cf_clerks :: "nat \<rightharpoonup> string list"
  cf_nextClientId :: int
  cf_maxraftstate :: int
  cf_rpcs0 :: int
  cf_ops :: "32 word"
  cf_store :: "nat \<Rightarrow> Persister"
  cf_inst :: "nat \<rightharpoonup> nat"
  cf_alloc :: nat
  cf_rand :: nat

definition go_nth :: "'a list \<Rightarrow> nat \<Rightarrow> 'a result" where
  "go_nth xs i = (if i < length xs then Inr (xs ! i) else Inl Panic)"

definition endname :: "config \<Rightarrow> nat \<Rightarrow> nat \<Rightarrow> string result" where
  "endname cfg i j = bindR (go_nth (cf_endnames cfg) i) (\<lambda>row. bindR (panic_unless row) (\<lambda>r. go_nth r j))"

definition enable_end :: "string \<Rightarrow> bool \<Rightarrow> config \<Rightarrow> config" where
  "enable_end e b cfg = cfg\<lparr>cf_net := Enable (IStr e) b (cf_net cfg)\<rparr>"

fun connect_out :: "nat \<Rightarrow> nat list \<Rightarrow> config \<Rightarrow> config result" where
  "connect_out i [] cfg = Inr cfg"
| "connect_out i (t # to) cfg = bindR (endname cfg i t) (\<lambda>e. connect_out i to (enable_end e True cfg))"

fun connect_in :: "nat \<Rightarrow> nat list \<Rightarrow> config \<Rightarrow> config result" where
  "connect_in i [] cfg = Inr cfg"
| "connect_in i (t # to) cfg = bindR (endname cfg t i) (\<lambda>e. connect_in i to (enable_end e True cfg))"

definition connectUnlocked :: "nat \<Rightarrow> nat list \<Rightarrow> config \<Rightarrow> config result" where
  "connectUnlocked i to cfg = bindR (connect_out i to cfg) (connect_in i to)"

fun disconnect_out :: "nat \<Rightarrow> nat list \<Rightarrow> config \<Rightarrow> config result" where
  "disconnect_out i [] cfg = Inr cfg"
| "disconnect_out i (f # from) cfg =
     bindR (go_nth (cf_endnames cfg) i) (\<lambda>row.
       if row = None then disconnect_out i from cfg
       else bindR (endname cfg i f) (\<lambda>e. disconnect_out i from (enable_end e False cfg)))"

text \<open>The second loop tests the row of the loop index \<open>j\<close> and uses the row of \<open>from[j]\<close>.\<close>

fun disconnect_in :: "nat \<Rightarrow> nat \<Rightarrow> nat list \<Rightarrow> config \<Rightarrow> config result" where
  "disconnect_in i j [] cfg = Inr cfg"
| "disconnect_in i j (f # from) cfg =
     bindR (go_nth (cf_endnames cfg) j) (\<lambda>row.
       if row = None then disconnect_in i (Suc j) from cfg
       else bindR (endname cfg f i) (\<lambda>e. disconnect_in i (Suc j) from (enable_end e False cfg)))"

definition disconnectUnlocked :: "nat \<Rightarrow> nat list \<Rightarrow> config \<Rightarrow> config result" where
  "disconnectUnlocked i from cfg = bindR (disconnect_out i from cfg) (disconnect_in i 0 from)"

definition cfg_All :: "config \<Rightarrow> nat list" where
  "cfg_All cfg = [0..<cf_n cfg]"

fun connect_all :: "nat list \<Rightarrow> config \<Rightarrow> config result" where
  "connect_all [] cfg = Inr cfg"
| "connect_all (i # is) cfg = bindR (connectUnlocked i (cfg_All cfg) cfg) (connect_all is)"

definition ConnectAll :: "config \<Rightarrow> config result" where
  "ConnectAll cfg = connect_all [0..<cf_n cfg] cfg"

fun split_off :: "nat list \<Rightarrow> nat list \<Rightarrow> nat list \<Rightarrow> config \<Rightarrow> config result" where
  "split_off [] mine theirs cfg = Inr cfg"
| "split_off (i # is) mine theirs cfg =
     bindR (disconnectUnlocked i theirs cfg) (\<lambda>cfg. bindR (connectUnlocked i mine cfg) (split_off is mine theirs))"

definition cfg_partition :: "nat list \<Rightarrow> nat list \<Rightarrow> config \<Rightarrow> config result" where
  "cfg_partition p1 p2 cfg = bindR (split_off p1 p1 p2 cfg) (split_off p2 p2 p1)"

section \<open>Clerks\<close>

definition draw :: "(nat \<Rightarrow> string) \<Rightarrow> config \<Rightarrow> string list" where
  "draw fresh cfg = map fresh [cf_rand cfg..<cf_rand cfg + cf_n cfg]"

fun make_ends :: "nat \<Rightarrow> string list \<Rightarrow> config \<Rightarrow> config result" where
  "make_ends j [] cfg = Inr cfg"
| "make_ends j (e # es) cfg =
     bindR (MakeEnd (IStr e) (cf_net cfg)) (\<lambda>rn.
       make_ends (Suc j) es (cfg\<lparr>cf_net := Connect (IStr e) (IInt (int j)) rn, cf_rand := Suc (cf_rand cfg)\<rparr>))"

fun enable_clerk :: "string list \<Rightarrow> bool \<Rightarrow> nat list \<Rightarrow> config \<Rightarrow> config result" where
  "enable_clerk names b [] cfg = Inr cfg"
| "enable_clerk names b (t # to) cfg = bindR (go_nth names t) (\<lambda>e. enable_clerk names b to (enable_end e b cfg))"

definition ConnectClientUnlocked :: "nat \<Rightarrow> nat list \<Rightarrow> config \<Rightarrow> config result" where
  "ConnectClientUnlocked ck to cfg = enable_clerk (case cf_clerks cfg ck of None \<Rightarrow> [] | Some ns \<Rightarrow> ns) True to cfg"

definition DisconnectClientUnlocked :: "nat \<Rightarrow> nat list \<Rightarrow> config \<Rightarrow> config result" where
  "DisconnectClientUnlocked ck from cfg = enable_clerk (case cf_clerks cfg ck of None \<Rightarrow> [] | Some ns \<Rightarrow> ns) False from cfg"

definition makeClient :: "(nat \<Rightarrow> string) \<Rightarrow> nat list \<Rightarrow> config \<Rightarrow> (nat \<times> config) result" where
  "makeClient fresh to cfg =
     (let endnames = draw fresh cfg
      in bindR (make_ends 0 endnames cfg) (\<lambda>cfg.
           let ck = cf_alloc cfg;
               cfg = cfg\<lparr>cf_alloc := Suc ck, cf_clerks := (cf_clerks cfg)(ck \<mapsto> endnames), cf_nextClientId := cf_nextClientId cfg + 1\<rparr>
           in bindR (ConnectClientUnlocked ck to cfg) (\<lambda>cfg. Inr (ck, cfg))))"

definition deleteClient :: "nat \<Rightarrow> config \<Rightarrow> config" where
  "deleteClient ck cfg = cfg\<lparr>cf_clerks := (cf_clerks cfg)(ck := None)\<rparr>"

section \<open>Starting and stopping servers\<close>

definition new_persister :: "Persister \<Rightarrow> nat \<Rightarrow> config \<Rightarrow> config" where
  "new_persister ps i cfg =
     cfg\<lparr>cf_store := (cf_store cfg)(cf_alloc cfg := ps), cf_saved := (cf_saved cfg)[i := Some (cf_alloc cfg)], cf_alloc := Suc (cf_alloc cfg)\<rparr>"

definition ShutdownServer :: "nat \<Rightarrow> config \<Rightarrow> config result" where
  "ShutdownServer i cfg =
     bindR (disconnectUnlocked i (cfg_All cfg) cfg) (\<lambda>cfg.
       let cfg = cfg\<lparr>cf_net := DeleteServer (IInt (int i)) (cf_net cfg)\<rparr>
       in bindR (go_nth (cf_saved cfg) i) (\<lambda>sv.
            let cfg = (case sv of None \<Rightarrow> cfg | Some p \<Rightarrow> new_persister (Copy (cf_store cfg p)) i cfg)
            in bindR (go_nth (cf_servers cfg) i) (\<lambda>kv.
                 Inr (if kv \<noteq> None then cfg\<lparr>cf_servers := (cf_servers cfg)[i := None]\<rparr> else cfg))))"

definition StartServer :: "(nat \<Rightarrow> string) \<Rightarrow> nat \<Rightarrow> config \<Rightarrow> config result" where
  "StartServer fresh i cfg =
     (if i < length (cf_endnames cfg)
      then let row = draw fresh cfg; cfg = cfg\<lparr>cf_endnames := (cf_endnames cfg)[i := Some row]\<rparr>
           in bindR (make_ends 0 row cfg) (\<lambda>cfg.
              bindR (go_nth (cf_saved cfg) i) (\<lambda>sv.
                let cfg = new_persister (case sv of None \<Rightarrow> MakePersister | Some p \<Rightarrow> Copy (cf_store cfg p)) i cfg;
                    kv = cf_alloc cfg; srv = Suc kv
                in bindR (go_nth (cf_saved cfg) i) (\<lambda>sv. bindR (panic_unless sv) (\<lambda>p.
                     Inr (cfg\<lparr>cf_servers := (cf_servers cfg)[i := Some kv], cf_inst := (cf_inst cfg)(kv \<mapsto> p), cf_alloc := Suc srv,
                              cf_net := AddServer (IInt (int i)) srv (cf_net cfg)\<rparr>)))))
      else Inl Panic)"

fun start_all :: "(nat \<Rightarrow> string) \<Rightarrow> nat list \<Rightarrow> config \<Rightarrow> config result" where
  "start_all fresh [] cfg = Inr cfg"
| "start_all fresh (i # is) cfg = bindR (StartServer fresh i cfg) (start_all fresh is)"

definition make_config :: "(nat \<Rightarrow> string) \<Rightarrow> nat \<Rightarrow> bool \<Rightarrow> int \<Rightarrow> config result" where
  "make_config fresh n unreliable maxraftstate =
     (let cfg = \<lparr>cf_net = MakeNetwork, cf_n = n, cf_servers = replicate n None, cf_saved = replicate n None, cf_endnames = replicate n None,
                 cf_clerks = Map.empty, cf_nextClientId = int n + 1000,
                 cf_maxraftstate = maxraftstate, cf_rpcs0 = 0, cf_ops = 0, cf_store = (\<lambda>_. MakePersister), cf_inst = Map.empty, cf_alloc = 0, cf_rand = 0\<rparr>
      in bindR (start_all fresh [0..<n] cfg) (\<lambda>cfg. bindR (ConnectAll cfg) (\<lambda>cfg.
           Inr (cfg\<lparr>cf_net := Reliable (\<not> unreliable) (cf_net cfg)\<rparr>))))"

fun max_size :: "(Persister \<Rightarrow> nat) \<Rightarrow> nat list \<Rightarrow> config \<Rightarrow> nat \<Rightarrow> nat result" where
  "max_size sz [] cfg m = Inr m"
| "max_size sz (i # is) cfg m =
     bindR (go_nth (cf_saved cfg) i) (\<lambda>sv. bindR (panic_unless sv) (\<lambda>p.
       let n = sz (cf_store cfg p) in max_size sz is cfg (if n > m then n else m)))"

definition cfg_LogSize :: "config \<Rightarrow> nat result" where
  "cfg_LogSize cfg = max_size RaftStateSize [0..<cf_n cfg] cfg 0"

definition cfg_SnapshotSize :: "config \<Rightarrow> nat result" where
  "cfg_SnapshotSize cfg = max_size SnapshotSize [0..<cf_n cfg] cfg 0"

text \<open>The statistics of a test, and its end. The two minutes of a test are measured in nanoseconds.\<close>

definition checkTimeout :: "bool \<Rightarrow> int \<Rightarrow> unit result" where
  "checkTimeout failed elapsed = (if \<not> failed \<and> elapsed > 120 * 10 ^ 9 then Inl Fatal else Inr ())"

definition cfg_cleanup :: "bool \<Rightarrow> int \<Rightarrow> config \<Rightarrow> config result" where
  "cfg_cleanup failed elapsed cfg =
     bindR (Cleanup (cf_net cfg)) (\<lambda>rn. bindR (checkTimeout failed elapsed) (\<lambda>_. Inr (cfg\<lparr>cf_net := rn\<rparr>)))"

definition cfg_rpcTotal :: "config \<Rightarrow> int" where
  "cfg_rpcTotal cfg = GetTotalCount (cf_net cfg)"

definition cfg_begin :: "config \<Rightarrow> config" where
  "cfg_begin cfg = cfg\<lparr>cf_rpcs0 := cfg_rpcTotal cfg, cf_ops := 0\<rparr>"

definition cfg_op :: "config \<Rightarrow> config" where
  "cfg_op cfg = cfg\<lparr>cf_ops := cf_ops cfg + 1\<rparr>"

definition cfg_end :: "bool \<Rightarrow> int \<Rightarrow> config \<Rightarrow> (nat \<times> int \<times> int) option result" where
  "cfg_end failed elapsed cfg =
     bindR (checkTimeout failed elapsed) (\<lambda>_.
       Inr (if failed then None else Some (cf_n cfg, cfg_rpcTotal cfg - cf_rpcs0 cfg, sint (cf_ops cfg))))"

text \<open>\<open>is_leader\<close> is what \<open>rf.GetState\<close> of the running servers returns.\<close>

fun find_leader :: "(nat \<Rightarrow> bool) \<Rightarrow> nat list \<Rightarrow> config \<Rightarrow> (bool \<times> nat) result" where
  "find_leader is_leader [] cfg = Inr (False, 0)"
| "find_leader is_leader (i # is) cfg =
     bindR (go_nth (cf_servers cfg) i) (\<lambda>kv. bindR (panic_unless kv) (\<lambda>a.
       if is_leader a then Inr (True, i) else find_leader is_leader is cfg))"

definition Leader :: "(nat \<Rightarrow> bool) \<Rightarrow> config \<Rightarrow> (bool \<times> nat) result" where
  "Leader is_leader cfg = find_leader is_leader [0..<cf_n cfg] cfg"

definition set_nth :: "'a list \<Rightarrow> nat \<Rightarrow> 'a \<Rightarrow> 'a list result" where
  "set_nth xs i x = (if i < length xs then Inr (xs[i := x]) else Inl Panic)"

fun fill_parts :: "nat \<Rightarrow> nat list \<Rightarrow> nat \<Rightarrow> nat list \<times> nat list \<Rightarrow> (nat list \<times> nat list) result" where
  "fill_parts l [] j (p1, p2) = Inr (p1, p2)"
| "fill_parts l (i # is) j (p1, p2) =
     (if i \<noteq> l
      then if j < length p1 then bindR (set_nth p1 j i) (\<lambda>p1. fill_parts l is (Suc j) (p1, p2))
           else bindR (set_nth p2 (j - length p1) i) (\<lambda>p2. fill_parts l is (Suc j) (p1, p2))
      else fill_parts l is j (p1, p2))"

definition make_partition :: "(nat \<Rightarrow> bool) \<Rightarrow> config \<Rightarrow> (nat list \<times> nat list) result" where
  "make_partition is_leader cfg =
     bindR (Leader is_leader cfg) (\<lambda>(_, l).
     bindR (fill_parts l [0..<cf_n cfg] 0 (replicate (cf_n cfg div 2 + 1) 0, replicate (cf_n cfg div 2) 0)) (\<lambda>(p1, p2).
       if p2 = [] then Inl Panic else Inr (p1, p2[length p2 - 1 := l])))"


section \<open>Sequences of operations\<close>

text \<open>
  The contract that the harnesses meet with a specification of what they keep: an allowed operation on a harness that refines the specification succeeds,
  and the result refines what the specification makes of the operation. Then so does every sequence of allowed operations.
\<close>

fun run_all :: "('x \<Rightarrow> 'c \<Rightarrow> 'c result) \<Rightarrow> 'x list \<Rightarrow> 'c \<Rightarrow> 'c result" where
  "run_all step [] c = Inr c"
| "run_all step (x # xs) c = bindR (step x c) (run_all step xs)"

locale refining_steps =
  fixes step :: "'x \<Rightarrow> 'c \<Rightarrow> 'c result"
    and spec :: "'x \<Rightarrow> 'a \<Rightarrow> 'a"
    and allowed :: "'x \<Rightarrow> bool"
    and refines :: "'c \<Rightarrow> 'a \<Rightarrow> bool"
  assumes step_refines: "refines c a \<Longrightarrow> allowed x \<Longrightarrow> \<exists>c'. step x c = Inr c' \<and> refines c' (spec x a)"
begin

lemma run_refines:
  "refines c a \<Longrightarrow> \<forall>x \<in> set xs. allowed x \<Longrightarrow> \<exists>c'. run_all step xs c = Inr c' \<and> refines c' (fold spec xs a)"
proof (induction xs arbitrary: c a)
  case (Cons x xs)
  obtain c1 where c1: "step x c = Inr c1" "refines c1 (spec x a)"
    using step_refines [OF Cons.prems(1)] Cons.prems(2) by auto
  then show ?case
    using Cons.IH [OF c1(2)] Cons.prems(2) by simp
qed simp

end

section \<open>The links between servers\<close>

definition nm :: "config \<Rightarrow> nat \<Rightarrow> nat \<Rightarrow> string" where
  "nm cfg i j = (case cf_endnames cfg ! i of None \<Rightarrow> [] | Some r \<Rightarrow> r ! j)"

text \<open>Every server is started: it has an end for every server, and no two ends share a name.\<close>

definition wired :: "config \<Rightarrow> bool" where
  "wired cfg \<longleftrightarrow> length (cf_endnames cfg) = cf_n cfg \<and> (\<forall>i < cf_n cfg. \<exists>r. cf_endnames cfg ! i = Some r \<and> length r = cf_n cfg) \<and>
     inj_on (\<lambda>(i, j). nm cfg i j) ({..<cf_n cfg} \<times> {..<cf_n cfg})"

definition link :: "config \<Rightarrow> nat \<Rightarrow> nat \<Rightarrow> bool" where
  "link cfg i j \<longleftrightarrow> enabled (cf_net cfg) (IStr (nm cfg i j))"

definition set_links :: "(nat \<times> nat) set \<Rightarrow> bool \<Rightarrow> config \<Rightarrow> config" where
  "set_links Q b cfg = cfg\<lparr>cf_net := (cf_net cfg)\<lparr>enabled := (\<lambda>x. if x \<in> (\<lambda>(i, j). IStr (nm cfg i j)) ` Q then b else enabled (cf_net cfg) x)\<rparr>\<rparr>"

lemma endname_wired: "wired cfg \<Longrightarrow> i < cf_n cfg \<Longrightarrow> j < cf_n cfg \<Longrightarrow> endname cfg i j = Inr (nm cfg i j)"
  by (auto simp: wired_def endname_def go_nth_def nm_def)

lemma set_links_simps [simp]:
  "cf_n (set_links Q b cfg) = cf_n cfg" "cf_endnames (set_links Q b cfg) = cf_endnames cfg" "nm (set_links Q b cfg) = nm cfg"
  "wired (set_links Q b cfg) = wired cfg" "cf_saved (set_links Q b cfg) = cf_saved cfg" "cf_servers (set_links Q b cfg) = cf_servers cfg"
  "cf_store (set_links Q b cfg) = cf_store cfg" "cf_alloc (set_links Q b cfg) = cf_alloc cfg" "cf_clerks (set_links Q b cfg) = cf_clerks cfg"
  "cf_rand (set_links Q b cfg) = cf_rand cfg" "cf_inst (set_links Q b cfg) = cf_inst cfg" "servers (cf_net (set_links Q b cfg)) = servers (cf_net cfg)"
  "ends (cf_net (set_links Q b cfg)) = ends (cf_net cfg)" "cfg_All (set_links Q b cfg) = cfg_All cfg"
  by (simp_all add: set_links_def nm_def wired_def fun_eq_iff cfg_All_def)

lemma enable_end_links: "enable_end (nm cfg i j) b cfg = set_links {(i, j)} b cfg"
  by (simp add: enable_end_def set_links_def Enable_def fun_upd_def)

lemma set_links_twice: "set_links Q b (set_links R b cfg) = set_links (R \<union> Q) b cfg"
proof -
  have "nm (set_links R b cfg) = nm cfg" by simp
  then show ?thesis unfolding set_links_def by (simp add: image_Un fun_eq_iff)
qed

lemma set_links_empty [simp]: "set_links {} b cfg = cfg"
  by (simp add: set_links_def)

lemma link_set_links:
  assumes "wired cfg" "i < cf_n cfg" "j < cf_n cfg" "Q \<subseteq> {..<cf_n cfg} \<times> {..<cf_n cfg}"
  shows "link (set_links Q b cfg) i j = (if (i, j) \<in> Q then b else link cfg i j)"
proof -
  have "IStr (nm cfg i j) \<in> (\<lambda>(i, j). IStr (nm cfg i j)) ` Q \<longleftrightarrow> (i, j) \<in> Q"
  proof
    assume "IStr (nm cfg i j) \<in> (\<lambda>(i, j). IStr (nm cfg i j)) ` Q"
    then obtain i' j' where p: "(i', j') \<in> Q" "nm cfg i j = nm cfg i' j'" by auto
    have "(i, j) = (i', j')" using assms p by (intro inj_onD [of "\<lambda>(i, j). nm cfg i j" "{..<cf_n cfg} \<times> {..<cf_n cfg}"]) (auto simp: wired_def)
    with p(1) show "(i, j) \<in> Q" by simp
  qed (force intro: image_eqI)
  then show ?thesis by (simp add: link_def) (simp add: set_links_def)
qed

lemma connect_out_ok:
  "wired cfg \<Longrightarrow> i < cf_n cfg \<Longrightarrow> set to \<subseteq> {..<cf_n cfg} \<Longrightarrow> connect_out i to cfg = Inr (set_links ({i} \<times> set to) True cfg)"
proof (induction to arbitrary: cfg)
  case (Cons t to)
  then show ?case by (simp add: endname_wired enable_end_links set_links_twice)
qed simp

lemma connect_in_ok:
  "wired cfg \<Longrightarrow> i < cf_n cfg \<Longrightarrow> set to \<subseteq> {..<cf_n cfg} \<Longrightarrow> connect_in i to cfg = Inr (set_links (set to \<times> {i}) True cfg)"
proof (induction to arbitrary: cfg)
  case (Cons t to)
  then show ?case by (simp add: endname_wired enable_end_links set_links_twice)
qed simp

lemma disconnect_out_ok:
  "wired cfg \<Longrightarrow> i < cf_n cfg \<Longrightarrow> set from \<subseteq> {..<cf_n cfg} \<Longrightarrow> disconnect_out i from cfg = Inr (set_links ({i} \<times> set from) False cfg)"
proof (induction "from" arbitrary: cfg)
  case (Cons f "from")
  then have "go_nth (cf_endnames cfg) i = Inr (cf_endnames cfg ! i)" "cf_endnames cfg ! i \<noteq> None" by (auto simp: go_nth_def wired_def)
  with Cons show ?case by (auto simp: endname_wired enable_end_links set_links_twice)
qed simp

lemma disconnect_in_ok:
  "wired cfg \<Longrightarrow> i < cf_n cfg \<Longrightarrow> set from \<subseteq> {..<cf_n cfg} \<Longrightarrow> j + length from \<le> cf_n cfg \<Longrightarrow>
   disconnect_in i j from cfg = Inr (set_links (set from \<times> {i}) False cfg)"
proof (induction "from" arbitrary: cfg j)
  case (Cons f "from")
  then have "go_nth (cf_endnames cfg) j = Inr (cf_endnames cfg ! j)" "cf_endnames cfg ! j \<noteq> None" by (auto simp: go_nth_def wired_def dest!: spec [of _ j])
  with Cons show ?case by (auto simp: endname_wired enable_end_links set_links_twice)
qed simp

definition both_ways :: "nat \<Rightarrow> nat set \<Rightarrow> (nat \<times> nat) set" where
  "both_ways i T = {i} \<times> T \<union> T \<times> {i}"

lemma connect_ok:
  "wired cfg \<Longrightarrow> i < cf_n cfg \<Longrightarrow> set to \<subseteq> {..<cf_n cfg} \<Longrightarrow> connectUnlocked i to cfg = Inr (set_links (both_ways i (set to)) True cfg)"
  by (simp add: connectUnlocked_def connect_out_ok connect_in_ok set_links_twice both_ways_def)

lemma disconnect_ok:
  "wired cfg \<Longrightarrow> i < cf_n cfg \<Longrightarrow> set from \<subseteq> {..<cf_n cfg} \<Longrightarrow> length from \<le> cf_n cfg \<Longrightarrow>
   disconnectUnlocked i from cfg = Inr (set_links (both_ways i (set from)) False cfg)"
  by (simp add: disconnectUnlocked_def disconnect_out_ok disconnect_in_ok set_links_twice both_ways_def)

text \<open>Only the links between servers change.\<close>

definition rewired :: "config \<Rightarrow> config \<Rightarrow> bool" where
  "rewired cfg cfg' \<longleftrightarrow> (\<exists>E. cfg' = cfg\<lparr>cf_net := (cf_net cfg)\<lparr>enabled := E\<rparr>\<rparr> \<and>
     (\<forall>x. x \<notin> (\<lambda>(i, j). IStr (nm cfg i j)) ` ({..<cf_n cfg} \<times> {..<cf_n cfg}) \<longrightarrow> E x = enabled (cf_net cfg) x))"

lemma rewired_refl [simp]: "rewired cfg cfg"
  by (auto simp: rewired_def intro: exI [of _ "enabled (cf_net cfg)"])

lemma rewired_same: "rewired cfg cfg' \<Longrightarrow> cf_n cfg' = cf_n cfg \<and> cf_endnames cfg' = cf_endnames cfg \<and> nm cfg' = nm cfg \<and> wired cfg' = wired cfg"
  by (auto simp: rewired_def nm_def wired_def fun_eq_iff)

lemma rewired_trans: "rewired cfg cfg1 \<Longrightarrow> rewired cfg1 cfg2 \<Longrightarrow> rewired cfg cfg2"
  using rewired_same [of cfg cfg1] by (auto simp: rewired_def)

lemma rewired_links: "Q \<subseteq> {..<cf_n cfg} \<times> {..<cf_n cfg} \<Longrightarrow> rewired cfg (set_links Q b cfg)"
  unfolding rewired_def set_links_def by (intro exI conjI, rule refl) auto


lemma both_ways_mem [simp]: "(a, b) \<in> both_ways i T \<longleftrightarrow> a = i \<and> b \<in> T \<or> b = i \<and> a \<in> T"
  by (auto simp: both_ways_def)

lemma both_ways_bound: "i < n \<Longrightarrow> T \<subseteq> {..<n} \<Longrightarrow> both_ways i T \<subseteq> {..<n} \<times> {..<n}"
  by (auto simp: both_ways_def)

lemma split_off_ok:
  assumes "set mine \<subseteq> {..<n}" "set theirs \<subseteq> {..<n}" "length theirs \<le> n" "set mine \<inter> set theirs = {}"
  shows "wired cfg \<Longrightarrow> cf_n cfg = n \<Longrightarrow> set is \<subseteq> set mine \<Longrightarrow>
    \<exists>cfg'. split_off is mine theirs cfg = Inr cfg' \<and> rewired cfg cfg' \<and>
      (\<forall>a < n. \<forall>b < n. link cfg' a b = (if a \<in> set is \<and> b \<in> set mine \<or> b \<in> set is \<and> a \<in> set mine then True
         else if a \<in> set is \<and> b \<in> set theirs \<or> b \<in> set is \<and> a \<in> set theirs then False else link cfg a b))"
proof (induction "is" arbitrary: cfg)
  case (Cons i "is")
  have i: "i < n" "i \<in> set mine" using Cons.prems(3) assms(1) by auto
  let ?c1 = "set_links (both_ways i (set theirs)) False cfg"
  let ?c2 = "set_links (both_ways i (set mine)) True ?c1"
  have r: "rewired cfg ?c2" using rewired_links [of "both_ways i (set theirs)" cfg False] rewired_links [of "both_ways i (set mine)" ?c1 True]
      both_ways_bound [OF i(1) assms(1)] both_ways_bound [OF i(1) assms(2)] Cons.prems(2) by (auto intro: rewired_trans)
  obtain cfg' where c': "split_off is mine theirs ?c2 = Inr cfg'" "rewired ?c2 cfg'"
    "\<forall>a < n. \<forall>b < n. link cfg' a b = (if a \<in> set is \<and> b \<in> set mine \<or> b \<in> set is \<and> a \<in> set mine then True
       else if a \<in> set is \<and> b \<in> set theirs \<or> b \<in> set is \<and> a \<in> set theirs then False else link ?c2 a b)"
    using Cons.IH [of ?c2] Cons.prems by auto
  have l: "link ?c2 a b = (if (a, b) \<in> both_ways i (set mine) then True else if (a, b) \<in> both_ways i (set theirs) then False else link cfg a b)"
    if "a < n" "b < n" for a b
  proof -
    have "link ?c2 a b = (if (a, b) \<in> both_ways i (set mine) then True else link ?c1 a b)"
      using that Cons.prems(1,2) both_ways_bound [OF i(1) assms(1)] by (intro link_set_links) simp_all
    moreover have "link ?c1 a b = (if (a, b) \<in> both_ways i (set theirs) then False else link cfg a b)"
      using that Cons.prems(1,2) both_ways_bound [OF i(1) assms(2)] by (intro link_set_links) simp_all
    ultimately show ?thesis by argo
  qed
  have "split_off (i # is) mine theirs cfg = Inr cfg'"
    using c'(1) connect_ok [of ?c1 i mine] disconnect_ok [of cfg i theirs] i(1) assms Cons.prems by simp
  moreover have "link cfg' a b = (if a \<in> set (i # is) \<and> b \<in> set mine \<or> b \<in> set (i # is) \<and> a \<in> set mine then True
       else if a \<in> set (i # is) \<and> b \<in> set theirs \<or> b \<in> set (i # is) \<and> a \<in> set theirs then False else link cfg a b)" if "a < n" "b < n" for a b
    using c'(3) l [OF that] that i(2) Cons.prems(3) assms(4) by auto
  ultimately show ?case using rewired_trans [OF r c'(2)] by blast
qed simp

lemma partition_ok:
  assumes "wired cfg" "set p1 \<subseteq> {..<cf_n cfg}" "set p2 \<subseteq> {..<cf_n cfg}" "set p1 \<inter> set p2 = {}" "distinct p1" "distinct p2"
  shows "\<exists>cfg'. cfg_partition p1 p2 cfg = Inr cfg' \<and> rewired cfg cfg' \<and>
    (\<forall>i < cf_n cfg. \<forall>j < cf_n cfg. link cfg' i j =
      (if i \<in> set p1 \<and> j \<in> set p1 \<or> i \<in> set p2 \<and> j \<in> set p2 then True
       else if i \<in> set p1 \<and> j \<in> set p2 \<or> i \<in> set p2 \<and> j \<in> set p1 then False else link cfg i j))"
proof -
  have len: "length p1 \<le> cf_n cfg" "length p2 \<le> cf_n cfg"
    using assms card_mono [of "{..<cf_n cfg}" "set p1"] card_mono [of "{..<cf_n cfg}" "set p2"] by (simp_all add: distinct_card)
  obtain c1 where c1: "split_off p1 p1 p2 cfg = Inr c1" "rewired cfg c1"
    "\<forall>a < cf_n cfg. \<forall>b < cf_n cfg. link c1 a b = (if a \<in> set p1 \<and> b \<in> set p1 then True
       else if a \<in> set p1 \<and> b \<in> set p2 \<or> b \<in> set p1 \<and> a \<in> set p2 then False else link cfg a b)"
    using split_off_ok [OF assms(2,3) len(2) assms(4) assms(1) refl, of p1] by auto
  have w: "wired c1" "cf_n c1 = cf_n cfg" using rewired_same [OF c1(2)] assms(1) by auto
  have "set p2 \<inter> set p1 = {}" using assms(4) by blast
  then obtain c2 where c2: "split_off p2 p2 p1 c1 = Inr c2" "rewired c1 c2"
    "\<forall>a < cf_n cfg. \<forall>b < cf_n cfg. link c2 a b = (if a \<in> set p2 \<and> b \<in> set p2 then True
       else if a \<in> set p2 \<and> b \<in> set p1 \<or> b \<in> set p2 \<and> a \<in> set p1 then False else link c1 a b)"
    using split_off_ok [OF assms(3,2) len(1) _ w, of p2] by auto
  have "cfg_partition p1 p2 cfg = Inr c2" using c1(1) c2(1) by (simp add: cfg_partition_def)
  moreover have "link c2 i j = (if i \<in> set p1 \<and> j \<in> set p1 \<or> i \<in> set p2 \<and> j \<in> set p2 then True
       else if i \<in> set p1 \<and> j \<in> set p2 \<or> i \<in> set p2 \<and> j \<in> set p1 then False else link cfg i j)" if "i < cf_n cfg" "j < cf_n cfg" for i j
    using c1(3) c2(3) that assms(4) by auto
  ultimately show ?thesis using rewired_trans [OF c1(2) c2(2)] by blast
qed

section \<open>Starting all servers\<close>

text \<open>The servers with indices in \<open>K\<close> are started, with names that were drawn.\<close>

definition started :: "(nat \<Rightarrow> string) \<Rightarrow> nat set \<Rightarrow> config \<Rightarrow> bool" where
  "started fresh K cfg \<longleftrightarrow> length (cf_endnames cfg) = cf_n cfg \<and> length (cf_saved cfg) = cf_n cfg \<and> length (cf_servers cfg) = cf_n cfg \<and>
     ends (cf_net cfg) = (\<lambda>m. IStr (fresh m)) ` {..<cf_rand cfg} \<and>
     (\<forall>i \<in> K. \<exists>m. cf_endnames cfg ! i = Some (map fresh [m..<m + cf_n cfg]) \<and> m + cf_n cfg \<le> cf_rand cfg) \<and>
     (\<forall>i \<in> K. servers (cf_net cfg) (IInt (int i)) \<noteq> None \<and> (\<forall>j < cf_n cfg. connections (cf_net cfg) (IStr (nm cfg i j)) = Some (IInt (int j)))) \<and>
     (\<forall>i \<in> K. \<exists>kv p. cf_servers cfg ! i = Some kv \<and> cf_inst cfg kv = Some p \<and> cf_saved cfg ! i = Some p \<and> p < cf_alloc cfg \<and> kv < cf_alloc cfg) \<and>
     K \<subseteq> {..<cf_n cfg} \<and> inj_on (\<lambda>(i, j). nm cfg i j) (K \<times> {..<cf_n cfg})"

lemma make_ends_ok:
  "distinct es \<Longrightarrow> IStr ` set es \<inter> ends (cf_net cfg) = {} \<Longrightarrow>
   \<exists>rn. make_ends j es cfg = Inr (cfg\<lparr>cf_net := rn, cf_rand := cf_rand cfg + length es\<rparr>) \<and> ends rn = ends (cf_net cfg) \<union> IStr ` set es \<and>
     servers rn = servers (cf_net cfg) \<and>
     (\<forall>x. x \<notin> IStr ` set es \<longrightarrow> connections rn x = connections (cf_net cfg) x \<and> enabled rn x = enabled (cf_net cfg) x) \<and>
     (\<forall>k < length es. connections rn (IStr (es ! k)) = Some (IInt (int (j + k))) \<and> \<not> enabled rn (IStr (es ! k)))"
proof (induction es arbitrary: j cfg)
  case Nil
  then show ?case by (auto intro!: exI [of _ "cf_net cfg"])
next
  case (Cons e es)
  let ?rn = "(cf_net cfg)\<lparr>ends := insert (IStr e) (ends (cf_net cfg)), enabled := (enabled (cf_net cfg))(IStr e := False),
                   connections := (connections (cf_net cfg))(IStr e := None)\<rparr>"
  let ?cfg = "cfg\<lparr>cf_net := Connect (IStr e) (IInt (int j)) ?rn, cf_rand := Suc (cf_rand cfg)\<rparr>"
  have m: "MakeEnd (IStr e) (cf_net cfg) = Inr ?rn" using Cons.prems by (simp add: MakeEnd_def)
  obtain rn where rn: "make_ends (Suc j) es ?cfg = Inr (?cfg\<lparr>cf_net := rn, cf_rand := cf_rand ?cfg + length es\<rparr>)"
    "ends rn = ends (cf_net ?cfg) \<union> IStr ` set es" "servers rn = servers (cf_net ?cfg)"
    "\<forall>x. x \<notin> IStr ` set es \<longrightarrow> connections rn x = connections (cf_net ?cfg) x \<and> enabled rn x = enabled (cf_net ?cfg) x"
    "\<forall>k < length es. connections rn (IStr (es ! k)) = Some (IInt (int (Suc j + k))) \<and> \<not> enabled rn (IStr (es ! k))"
    using Cons.IH [of ?cfg "Suc j"] Cons.prems by (auto simp: Connect_def)
  have "make_ends j (e # es) cfg = Inr (cfg\<lparr>cf_net := rn, cf_rand := cf_rand cfg + length (e # es)\<rparr>)" using m rn(1) by simp
  moreover have "connections rn (IStr ((e # es) ! k)) = Some (IInt (int (j + k))) \<and> \<not> enabled rn (IStr ((e # es) ! k))" if "k < length (e # es)" for k
    using that rn(4,5) Cons.prems by (cases k) (auto simp: Connect_def)
  ultimately show ?case using rn(2-4) Cons.prems by (intro exI [of _ rn]) (auto simp: Connect_def)
qed


lemma started_nm: "started fresh K cfg \<Longrightarrow> i \<in> K \<Longrightarrow> \<exists>m. m + cf_n cfg \<le> cf_rand cfg \<and> (\<forall>j < cf_n cfg. nm cfg i j = fresh (m + j))"
  unfolding started_def nm_def by force

lemma started_server:
  "started fresh K cfg \<Longrightarrow> i \<in> K \<Longrightarrow>
   \<exists>kv p. cf_servers cfg ! i = Some kv \<and> cf_inst cfg kv = Some p \<and> cf_saved cfg ! i = Some p \<and> p < cf_alloc cfg \<and> kv < cf_alloc cfg"
  by (simp add: started_def)

lemma StartServer_ok:
  assumes st: "started fresh K cfg" and f: "inj fresh" and i: "i < cf_n cfg"
  obtains cfg' kv where "StartServer fresh i cfg = Inr cfg'" "started fresh (insert i K) cfg'" "cf_n cfg' = cf_n cfg"
    "cf_servers cfg' = (cf_servers cfg)[i := Some kv]" "cf_saved cfg' = (cf_saved cfg)[i := Some (cf_alloc cfg)]" "cf_inst cfg' = (cf_inst cfg)(kv \<mapsto> cf_alloc cfg)"
    "cf_store cfg' = (cf_store cfg)(cf_alloc cfg := (case cf_saved cfg ! i of None \<Rightarrow> MakePersister | Some p \<Rightarrow> cf_store cfg p))" "cf_alloc cfg < kv"
proof -
  let ?n = "cf_n cfg" and ?r = "cf_rand cfg" and ?row = "draw fresh cfg"
  let ?c1 = "cfg\<lparr>cf_endnames := (cf_endnames cfg)[i := Some ?row]\<rparr>"
  have row: "distinct ?row" "length ?row = ?n" "set ?row = fresh ` {?r..<?r + ?n}" "\<And>j. j < ?n \<Longrightarrow> ?row ! j = fresh (?r + j)"
    using f by (auto simp: draw_def distinct_map inj_on_def)
  have new: "IStr ` set ?row \<inter> ends (cf_net cfg) = {}" using st f row(3) by (auto simp: started_def dest: injD)
  obtain rn where rn: "make_ends 0 ?row ?c1 = Inr (?c1\<lparr>cf_net := rn, cf_rand := ?r + ?n\<rparr>)" "ends rn = ends (cf_net cfg) \<union> IStr ` set ?row"
    "servers rn = servers (cf_net cfg)" "\<forall>x. x \<notin> IStr ` set ?row \<longrightarrow> connections rn x = connections (cf_net cfg) x \<and> enabled rn x = enabled (cf_net cfg) x"
    "\<forall>k < ?n. connections rn (IStr (?row ! k)) = Some (IInt (int k)) \<and> \<not> enabled rn (IStr (?row ! k))"
    using make_ends_ok [OF row(1), of ?c1 0] new row(2) by auto
  have len: "i < length (cf_endnames cfg)" "i < length (cf_saved cfg)" "i < length (cf_servers cfg)" using st i by (simp_all add: started_def)
  let ?ps = "case cf_saved cfg ! i of None \<Rightarrow> MakePersister | Some p \<Rightarrow> cf_store cfg p" and ?a = "cf_alloc cfg"
  let ?cfg = "?c1\<lparr>cf_net := AddServer (IInt (int i)) (Suc (Suc ?a)) rn, cf_rand := ?r + ?n, cf_store := (cf_store cfg)(?a := ?ps),
      cf_saved := (cf_saved cfg)[i := Some ?a], cf_alloc := Suc (Suc (Suc ?a)), cf_servers := (cf_servers cfg)[i := Some (Suc ?a)],
      cf_inst := (cf_inst cfg)(Suc ?a \<mapsto> ?a)\<rparr>"
  have run: "StartServer fresh i cfg = Inr ?cfg"
    using len rn(1) by (simp add: StartServer_def Let_def go_nth_def new_persister_def cong: option.case_cong)
  have nm: "nm ?cfg a j = (if a = i then fresh (?r + j) else nm cfg a j)" if "j < ?n" for a j
    using len(1) row(4) [OF that] by (simp add: nm_def nth_list_update)
  have old: "nm cfg a j \<in> fresh ` {..<?r}" if a: "a \<in> K" "j < ?n" for a j
  proof -
    obtain m where "m + ?n \<le> ?r" "nm cfg a j = fresh (m + j)" using started_nm [OF st a(1)] a(2) by blast
    then show ?thesis using a(2) by auto
  qed
  have inj: "inj_on (\<lambda>(a, j). nm ?cfg a j) (insert i K \<times> {..<?n})"
  proof (rule inj_onI)
    fix x y assume xy: "x \<in> insert i K \<times> {..<?n}" "y \<in> insert i K \<times> {..<?n}" "(case x of (a, j) \<Rightarrow> nm ?cfg a j) = (case y of (a, j) \<Rightarrow> nm ?cfg a j)"
    obtain a j b k where e: "x = (a, j)" "y = (b, k)" by (metis surj_pair)
    have *: "a \<in> insert i K" "j \<in> {..<?n}" "b \<in> insert i K" "k \<in> {..<?n}" "nm ?cfg a j = nm ?cfg b k" using xy e by auto
    have "a = b \<and> j = k"
    proof (cases "a = i \<or> b = i")
      case True
      have clash: "fresh (?r + x) \<notin> fresh ` {..<?r}" for x using f by (auto dest: injD)
      have "a = i \<and> b = i"
        using * True nm clash [of j] clash [of k] old [of b k] old [of a j] by (cases "a = i"; cases "b = i") auto
      then show ?thesis using * nm f by (auto dest: injD)
    next
      case False
      then have "nm cfg a j = nm cfg b k" "(a, j) \<in> K \<times> {..<?n}" "(b, k) \<in> K \<times> {..<?n}" using * nm by auto
      then show ?thesis using st unfolding started_def inj_on_def by fastforce
    qed
    then show "x = y" using e by simp
  qed
  have con: "connections rn (IStr (nm ?cfg a j)) = Some (IInt (int j))" if "a \<in> insert i K" "j < ?n" for a j
  proof (cases "a = i")
    case True
    then show ?thesis using rn(5) row(4) that nm by simp
  next
    case False
    then have "nm cfg a j \<notin> set ?row" using old [of a j] that row(3) by (auto simp: inj_eq [OF f])
    then have "connections rn (IStr (nm cfg a j)) = connections (cf_net cfg) (IStr (nm cfg a j))" using rn(4) by auto
    then show ?thesis using st False that nm by (simp add: started_def)
  qed
  have "started fresh (insert i K) ?cfg" unfolding started_def
  proof (intro conjI ballI allI impI)
    show "ends (cf_net ?cfg) = (\<lambda>m. IStr (fresh m)) ` {..<cf_rand ?cfg}"
      using st rn(2) row(3) by (auto simp: started_def AddServer_def image_iff) (metis add_diff_inverse_nat atLeastLessThan_iff lessThan_iff linorder_not_less nat_add_left_cancel_less)
    show "\<exists>m. cf_endnames ?cfg ! a = Some (map fresh [m..<m + cf_n ?cfg]) \<and> m + cf_n ?cfg \<le> cf_rand ?cfg" if "a \<in> insert i K" for a
    proof (cases "a = i")
      case True
      then show ?thesis using len(1) by (intro exI [of _ ?r]) (simp add: draw_def)
    next
      case False
      then show ?thesis using st that len(1) by (fastforce simp: started_def)
    qed
    show "servers (cf_net ?cfg) (IInt (int a)) \<noteq> None" if "a \<in> insert i K" for a
      using st that rn(3) by (auto simp: started_def AddServer_def)
    show "connections (cf_net ?cfg) (IStr (nm ?cfg a j)) = Some (IInt (int j))" if "a \<in> insert i K" "j < cf_n ?cfg" for a j
      using con that by (simp add: AddServer_def)
    show "\<exists>kv p. cf_servers ?cfg ! a = Some kv \<and> cf_inst ?cfg kv = Some p \<and> cf_saved ?cfg ! a = Some p \<and> p < cf_alloc ?cfg \<and> kv < cf_alloc ?cfg"
      if aK: "a \<in> insert i K" for a
    proof (cases "a = i")
      case True
      then show ?thesis using len by simp
    next
      case False
      then obtain kv p where "cf_servers cfg ! a = Some kv" "cf_inst cfg kv = Some p" "cf_saved cfg ! a = Some p" "p < ?a" "kv < ?a"
        using started_server [OF st, of a] aK by blast
      then show ?thesis using len False by simp
    qed
    show "inj_on (\<lambda>(i, j). nm ?cfg i j) (insert i K \<times> {..<cf_n ?cfg})" using inj by simp
  qed (use st i in \<open>auto simp: started_def\<close>)
  then show ?thesis using that [OF run, of "Suc ?a"] by simp
qed


lemma start_all_ok:
  assumes "inj fresh"
  shows "started fresh K cfg \<Longrightarrow> set is \<subseteq> {..<cf_n cfg} \<Longrightarrow>
    \<exists>cfg'. start_all fresh is cfg = Inr cfg' \<and> started fresh (set is \<union> K) cfg' \<and> cf_n cfg' = cf_n cfg"
proof (induction "is" arbitrary: K cfg)
  case (Cons i "is")
  then have "i < cf_n cfg" by simp
  obtain c1 kv where c1: "StartServer fresh i cfg = Inr c1" "started fresh (insert i K) c1" "cf_n c1 = cf_n cfg"
    using StartServer_ok [OF Cons.prems(1) assms \<open>i < cf_n cfg\<close>] .
  then show ?case using Cons.IH [OF c1(2)] Cons.prems(2) by auto
qed simp

lemma started_wired:
  assumes "started fresh {..<cf_n cfg} cfg"
  shows "wired cfg"
proof -
  have "\<exists>r. cf_endnames cfg ! i = Some r \<and> length r = cf_n cfg" if "i < cf_n cfg" for i
  proof -
    obtain m where "cf_endnames cfg ! i = Some (map fresh [m..<m + cf_n cfg])" using assms \<open>i < cf_n cfg\<close> unfolding started_def by blast
    then show ?thesis by simp
  qed
  then show ?thesis using assms by (simp add: wired_def started_def)
qed

lemma connect_all_ok:
  assumes "wired cfg" "set is \<subseteq> {..<cf_n cfg}"
  shows "connect_all is cfg = Inr (set_links (\<Union>i \<in> set is. both_ways i {..<cf_n cfg}) True cfg)"
  using assms
proof (induction "is" arbitrary: cfg)
  case (Cons i "is")
  let ?c = "set_links (both_ways i {..<cf_n cfg}) True cfg"
  have "connectUnlocked i (cfg_All cfg) cfg = Inr ?c" using Cons.prems connect_ok [of cfg i "cfg_All cfg"] by (simp add: cfg_All_def atLeast0LessThan)
  moreover have "connect_all is ?c = Inr (set_links (\<Union>i \<in> set is. both_ways i {..<cf_n cfg}) True ?c)" using Cons.IH [of ?c] Cons.prems by simp
  ultimately show ?case by (simp add: set_links_twice)
qed simp

lemma make_config_ok:
  assumes "inj fresh"
  obtains cfg where "make_config fresh n unreliable maxraftstate = Inr cfg" "started fresh {..<n} cfg" "cf_n cfg = n" "wired cfg" "\<forall>i < n. \<forall>j < n. link cfg i j"
proof -
  let ?c0 = "\<lparr>cf_net = MakeNetwork, cf_n = n, cf_servers = replicate n None, cf_saved = replicate n None, cf_endnames = replicate n None,
     cf_clerks = Map.empty, cf_nextClientId = int n + 1000,
                 cf_maxraftstate = maxraftstate, cf_rpcs0 = 0, cf_ops = 0, cf_store = (\<lambda>_. MakePersister), cf_inst = Map.empty, cf_alloc = 0, cf_rand = 0\<rparr>"
  have "started fresh {} ?c0" by (simp add: started_def MakeNetwork_def)
  then obtain c1 where c1: "start_all fresh [0..<n] ?c0 = Inr c1" "started fresh {..<n} c1" "cf_n c1 = n"
    using start_all_ok [OF assms, of "{}" ?c0 "[0..<n]"] by (auto simp: atLeast0LessThan)
  have w: "wired c1" using started_wired c1(2,3) by auto
  let ?Q = "\<Union>i \<in> {..<n}. both_ways i {..<n}"
  let ?c2 = "set_links ?Q True c1"
  have c2: "ConnectAll c1 = Inr ?c2" using connect_all_ok [OF w, of "[0..<n]"] c1(3) by (simp add: ConnectAll_def atLeast0LessThan)
  let ?c3 = "?c2\<lparr>cf_net := Reliable (\<not> unreliable) (cf_net ?c2)\<rparr>"
  have same: "cf_endnames ?c3 = cf_endnames c1" "cf_saved ?c3 = cf_saved c1" "cf_servers ?c3 = cf_servers c1" "cf_rand ?c3 = cf_rand c1" "cf_n ?c3 = n"
      "ends (cf_net ?c3) = ends (cf_net c1)" "servers (cf_net ?c3) = servers (cf_net c1)" "connections (cf_net ?c3) = connections (cf_net c1)"
      "cf_inst ?c3 = cf_inst c1" "cf_alloc ?c3 = cf_alloc c1"
    using c1(3) by (simp_all add: Reliable_def) (simp add: set_links_def)
  have nm: "nm ?c3 = nm c1" by (simp add: nm_def fun_eq_iff)
  have st: "started fresh {..<n} ?c3" using c1(2,3) unfolding started_def same nm by simp
  have "link ?c3 i j" if "i < n" "j < n" for i j
  proof -
    have "?Q \<subseteq> {..<n} \<times> {..<n}" "(i, j) \<in> ?Q" using that by (auto simp: both_ways_def)
    then have "link ?c2 i j" using link_set_links [OF w, of i j ?Q True] that c1(3) by simp
    moreover have "enabled (cf_net ?c3) = enabled (cf_net ?c2)" by (simp add: Reliable_def)
    ultimately show ?thesis unfolding link_def nm by simp
  qed
  moreover have "make_config fresh n unreliable maxraftstate = Inr ?c3" using c1(1) c2 by (simp add: make_config_def Let_def)
  moreover have "wired ?c3" using started_wired [of fresh ?c3] st same(5) by simp
  ultimately show ?thesis using that [OF _ st same(5)] by blast
qed

text \<open>
  C17: A cluster that \<open>make_config\<close> sets up and \<open>partition\<close> splits into two disjoint groups is connected exactly inside the groups: the end
  from one server to another, which leads to that server, is enabled if both are in the same group and disabled if they are in
  different ones.
\<close>

theorem partition_separates:
  assumes "inj fresh" "distinct p1" "distinct p2" "set p1 \<union> set p2 = {..<n}" "set p1 \<inter> set p2 = {}"
  shows "\<exists>cfg cfg'. make_config fresh n unreliable maxraftstate = Inr cfg \<and> cfg_partition p1 p2 cfg = Inr cfg' \<and>
    (\<forall>i < n. \<forall>j < n. \<exists>e. endname cfg' i j = Inr e \<and> connections (cf_net cfg') (IStr e) = Some (IInt (int j)) \<and>
       servers (cf_net cfg') (IInt (int j)) \<noteq> None \<and> enabled (cf_net cfg') (IStr e) = (i \<in> set p1 \<longleftrightarrow> j \<in> set p1))"
proof -
  obtain cfg where c: "make_config fresh n unreliable maxraftstate = Inr cfg" "started fresh {..<n} cfg" "cf_n cfg = n" "wired cfg" "\<forall>i < n. \<forall>j < n. link cfg i j"
    using make_config_ok [OF assms(1), of n unreliable maxraftstate] .
  obtain cfg' where c': "cfg_partition p1 p2 cfg = Inr cfg'" "rewired cfg cfg'"
    "\<forall>i < n. \<forall>j < n. link cfg' i j = (if i \<in> set p1 \<and> j \<in> set p1 \<or> i \<in> set p2 \<and> j \<in> set p2 then True
       else if i \<in> set p1 \<and> j \<in> set p2 \<or> i \<in> set p2 \<and> j \<in> set p1 then False else link cfg i j)"
  proof -
    have "set p1 \<subseteq> {..<cf_n cfg}" "set p2 \<subseteq> {..<cf_n cfg}" using assms(4) c(3) by auto
    from partition_ok [OF c(4) this assms(5,2,3)] show thesis unfolding c(3) using that by blast
  qed
  have s: "cf_n cfg' = n" "wired cfg'" "nm cfg' = nm cfg" using rewired_same [OF c'(2)] c(3,4) by auto
  have net: "connections (cf_net cfg') = connections (cf_net cfg)" "servers (cf_net cfg') = servers (cf_net cfg)" using c'(2) by (auto simp: rewired_def)
  have "endname cfg' i j = Inr (nm cfg i j) \<and> connections (cf_net cfg') (IStr (nm cfg i j)) = Some (IInt (int j)) \<and>
      servers (cf_net cfg') (IInt (int j)) \<noteq> None \<and> enabled (cf_net cfg') (IStr (nm cfg i j)) = (i \<in> set p1 \<longleftrightarrow> j \<in> set p1)" if "i < n" "j < n" for i j
  proof -
    have "i \<in> set p1 \<longleftrightarrow> i \<notin> set p2" "j \<in> set p1 \<longleftrightarrow> j \<notin> set p2" using that assms(4,5) by auto
    then have "link cfg' i j = (i \<in> set p1 \<longleftrightarrow> j \<in> set p1)" using c'(3) that by auto
    then show ?thesis using endname_wired [OF s(2)] s that c(2,3) net by (simp add: started_def link_def)
  qed
  then show ?thesis using c(1) c'(1) by blast
qed


theorem partition_separates_witness:
  "\<exists>cfg cfg'. make_config nat_str 3 False (- 1) = Inr cfg \<and> cfg_partition [0, 2] [1] cfg = Inr cfg' \<and>
    (\<exists>e. endname cfg' 0 1 = Inr e \<and> \<not> enabled (cf_net cfg') (IStr e)) \<and> (\<exists>e. endname cfg' 2 0 = Inr e \<and> enabled (cf_net cfg') (IStr e))"
proof -
  have "inj nat_str" "set [0, 2] \<union> set [1] = {..<3 :: nat}" by (auto simp: inj_def)
  from partition_separates [OF this(1) _ _ this(2), of False "- 1"] obtain cfg cfg' where
    c: "make_config nat_str 3 False (- 1) = Inr cfg" "cfg_partition [0, 2] [1] cfg = Inr cfg'"
    "\<forall>i < 3. \<forall>j < 3. \<exists>e. endname cfg' i j = Inr e \<and> connections (cf_net cfg') (IStr e) = Some (IInt (int j)) \<and>
       servers (cf_net cfg') (IInt (int j)) \<noteq> None \<and> enabled (cf_net cfg') (IStr e) = (i \<in> set [0, 2] \<longleftrightarrow> j \<in> set [1 - 1, 2])" by auto
  have "\<exists>e. endname cfg' 0 1 = Inr e \<and> \<not> enabled (cf_net cfg') (IStr e)" using c(3) [rule_format, of 0 1] by auto
  moreover have "\<exists>e. endname cfg' 2 0 = Inr e \<and> enabled (cf_net cfg') (IStr e)" using c(3) [rule_format, of 2 0] by auto
  ultimately show ?thesis using c(1,2) by blast
qed

section \<open>Restarts\<close>

lemma ShutdownServer_ok:
  assumes st: "started fresh {..<cf_n cfg} cfg" and i: "i < cf_n cfg" and p: "cf_saved cfg ! i = Some p"
  obtains cfg' where "ShutdownServer i cfg = Inr cfg'" "started fresh ({..<cf_n cfg} - {i}) cfg'" "cf_n cfg' = cf_n cfg"
    "servers (cf_net cfg') (IInt (int i)) = None" "cf_saved cfg' ! i = Some (cf_alloc cfg)" "cf_store cfg' (cf_alloc cfg) = cf_store cfg p"
    "cf_alloc cfg < cf_alloc cfg'"
proof -
  let ?Q = "both_ways i {..<cf_n cfg}" and ?a = "cf_alloc cfg"
  let ?c1 = "set_links ?Q False cfg"
  have d: "disconnectUnlocked i (cfg_All cfg) cfg = Inr ?c1"
    using disconnect_ok [OF started_wired [OF st] i, of "cfg_All cfg"] by (simp add: cfg_All_def atLeast0LessThan)
  have len: "i < length (cf_saved cfg)" "i < length (cf_servers cfg)" using st i by (simp_all add: started_def)
  obtain kv where kv: "cf_servers cfg ! i = Some kv" using started_server [OF st, of i] i by auto
  let ?cfg = "?c1\<lparr>cf_net := DeleteServer (IInt (int i)) (cf_net ?c1), cf_store := (cf_store cfg)(?a := cf_store cfg p),
      cf_saved := (cf_saved cfg)[i := Some ?a], cf_alloc := Suc ?a, cf_servers := (cf_servers cfg)[i := None]\<rparr>"
  have run: "ShutdownServer i cfg = Inr ?cfg"
    using d len p kv by (simp add: ShutdownServer_def Let_def go_nth_def new_persister_def)
  have con: "connections (cf_net ?cfg) = connections (cf_net cfg)" by (simp add: set_links_def DeleteServer_def)
  have nm: "nm ?cfg = nm cfg" by (simp add: nm_def fun_eq_iff)
  have srv: "\<exists>kv q. cf_servers ?cfg ! a = Some kv \<and> cf_inst ?cfg kv = Some q \<and> cf_saved ?cfg ! a = Some q \<and> q < cf_alloc ?cfg \<and> kv < cf_alloc ?cfg"
    if a: "a \<in> {..<cf_n cfg} - {i}" for a
  proof -
    obtain kv q where "cf_servers cfg ! a = Some kv" "cf_inst cfg kv = Some q" "cf_saved cfg ! a = Some q" "q < ?a" "kv < ?a"
      using started_server [OF st, of a] a by auto
    then show ?thesis using a by (intro exI [of _ kv] exI [of _ q]) auto
  qed
  have "started fresh ({..<cf_n cfg} - {i}) ?cfg" unfolding started_def
  proof (intro conjI ballI allI impI)
    show "servers (cf_net ?cfg) (IInt (int a)) \<noteq> None" if "a \<in> {..<cf_n cfg} - {i}" for a
      using st that by (auto simp: started_def DeleteServer_def)
    show "connections (cf_net ?cfg) (IStr (nm ?cfg a j)) = Some (IInt (int j))" if "a \<in> {..<cf_n cfg} - {i}" "j < cf_n ?cfg" for a j
      using st that unfolding con nm started_def by simp
    show "inj_on (\<lambda>(i, j). nm ?cfg i j) (({..<cf_n cfg} - {i}) \<times> {..<cf_n ?cfg})"
      using st unfolding nm started_def by (auto intro: inj_on_subset)
    show "ends (cf_net ?cfg) = (\<lambda>m. IStr (fresh m)) ` {..<cf_rand ?cfg}" using st by (simp add: started_def DeleteServer_def)
  qed (use st srv in \<open>auto simp: started_def\<close>)
  then show ?thesis using that [OF run] len by (simp add: DeleteServer_def)
qed

text \<open>
  C22: A server that is shut down and started again gets a persister with what the old instance had persisted at the moment of the
  shutdown, whatever the old instance, which cannot be stopped, writes to its own persister afterwards; in between no server is
  registered under its name.
\<close>

theorem restart_keeps_persisted:
  assumes f: "inj fresh" and i: "i < n"
  shows "\<exists>cfg kv p. make_config fresh n unreliable maxraftstate = Inr cfg \<and> cf_servers cfg ! i = Some kv \<and> cf_inst cfg kv = Some p \<and>
    (\<forall>ps. \<exists>cfg1. ShutdownServer i (cfg\<lparr>cf_store := (cf_store cfg)(p := ps)\<rparr>) = Inr cfg1 \<and> servers (cf_net cfg1) (IInt (int i)) = None \<and>
      (\<forall>late. \<exists>cfg2 kv2 q. StartServer fresh i (cfg1\<lparr>cf_store := (cf_store cfg1)(p := late)\<rparr>) = Inr cfg2 \<and>
         cf_servers cfg2 ! i = Some kv2 \<and> cf_inst cfg2 kv2 = Some q \<and> q \<noteq> p \<and> cf_store cfg2 q = ps))"
proof -
  obtain cfg where c: "make_config fresh n unreliable maxraftstate = Inr cfg" "started fresh {..<n} cfg" "cf_n cfg = n"
    using make_config_ok [OF f, of n unreliable maxraftstate] by metis
  obtain kv p where kv: "cf_servers cfg ! i = Some kv" "cf_inst cfg kv = Some p" "cf_saved cfg ! i = Some p" "p < cf_alloc cfg"
    using started_server [OF c(2), of i] i by auto
  have store: "started fresh K (d\<lparr>cf_store := S\<rparr>) = started fresh K d" for K d S by (simp add: started_def nm_def)
  have "\<exists>cfg1. ShutdownServer i (cfg\<lparr>cf_store := (cf_store cfg)(p := ps)\<rparr>) = Inr cfg1 \<and> servers (cf_net cfg1) (IInt (int i)) = None \<and>
      (\<forall>late. \<exists>cfg2 kv2 q. StartServer fresh i (cfg1\<lparr>cf_store := (cf_store cfg1)(p := late)\<rparr>) = Inr cfg2 \<and>
         cf_servers cfg2 ! i = Some kv2 \<and> cf_inst cfg2 kv2 = Some q \<and> q \<noteq> p \<and> cf_store cfg2 q = ps)" for ps
  proof -
    let ?cfg = "cfg\<lparr>cf_store := (cf_store cfg)(p := ps)\<rparr>"
    obtain cfg1 where c1: "ShutdownServer i ?cfg = Inr cfg1" "started fresh ({..<n} - {i}) cfg1" "cf_n cfg1 = n"
      "servers (cf_net cfg1) (IInt (int i)) = None" "cf_saved cfg1 ! i = Some (cf_alloc cfg)" "cf_store cfg1 (cf_alloc cfg) = ps" "cf_alloc cfg < cf_alloc cfg1"
      using ShutdownServer_ok [of fresh ?cfg i p] c(2,3) i kv(3) store by auto
    have "\<exists>cfg2 kv2 q. StartServer fresh i (cfg1\<lparr>cf_store := (cf_store cfg1)(p := late)\<rparr>) = Inr cfg2 \<and>
         cf_servers cfg2 ! i = Some kv2 \<and> cf_inst cfg2 kv2 = Some q \<and> q \<noteq> p \<and> cf_store cfg2 q = ps" for late
    proof -
      let ?d = "cfg1\<lparr>cf_store := (cf_store cfg1)(p := late)\<rparr>"
      have "started fresh ({..<n} - {i}) ?d" "i < cf_n ?d" using c1(2,3) store i by auto
      from StartServer_ok [OF this(1) f this(2)] obtain cfg2 kv2 where c2: "StartServer fresh i ?d = Inr cfg2" "cf_servers cfg2 = (cf_servers ?d)[i := Some kv2]"
        "cf_inst cfg2 = (cf_inst ?d)(kv2 \<mapsto> cf_alloc ?d)"
        "cf_store cfg2 = (cf_store ?d)(cf_alloc ?d := (case cf_saved ?d ! i of None \<Rightarrow> MakePersister | Some p \<Rightarrow> cf_store ?d p))"
        by metis
      moreover have "i < length (cf_servers cfg1)" using c1(2,3) i by (simp add: started_def)
      ultimately show ?thesis using c1(5-7) kv(4) by (intro exI [of _ cfg2] exI [of _ kv2] exI [of _ "cf_alloc ?d"]) simp
    qed
    then show ?thesis using c1(1,4) by blast
  qed
  then show ?thesis using c(1) kv(1,2) by blast
qed

theorem restart_keeps_persisted_witness:
  "\<exists>cfg kv p cfg1 cfg2 kv2 q. make_config nat_str 3 False (- 1) = Inr cfg \<and> cf_servers cfg ! 1 = Some kv \<and> cf_inst cfg kv = Some p \<and>
     ShutdownServer 1 (cfg\<lparr>cf_store := (cf_store cfg)(p := \<lparr>raftstate = ''log'', snapshot = ''s''\<rparr>)\<rparr>) = Inr cfg1 \<and>
     StartServer nat_str 1 (cfg1\<lparr>cf_store := (cf_store cfg1)(p := MakePersister)\<rparr>) = Inr cfg2 \<and>
     cf_servers cfg2 ! 1 = Some kv2 \<and> cf_inst cfg2 kv2 = Some q \<and> cf_store cfg2 q = \<lparr>raftstate = ''log'', snapshot = ''s''\<rparr>"
proof -
  have "inj nat_str" "(1 :: nat) < 3" by (auto simp: inj_def)
  from restart_keeps_persisted [OF this, of False "- 1"] show ?thesis by metis
qed


section \<open>A partition with the leader in the minority\<close>

lemma fill_parts_ok:
  "j + length (filter (\<lambda>i. i \<noteq> l) is) \<le> length p1 + length p2 \<Longrightarrow>
   \<exists>q1 q2. fill_parts l is j (p1, p2) = Inr (q1, q2) \<and> length q1 = length p1 \<and> length q2 = length p2 \<and>
     q1 @ q2 = take j (p1 @ p2) @ filter (\<lambda>i. i \<noteq> l) is @ drop (j + length (filter (\<lambda>i. i \<noteq> l) is)) (p1 @ p2)"
proof (induction "is" arbitrary: j p1 p2)
  case (Cons i "is")
  show ?case
  proof (cases "i = l")
    case True
    then show ?thesis using Cons by simp
  next
    case False
    let ?xs = "filter (\<lambda>i. i \<noteq> l) is"
    define r1 r2 where "r1 = (if j < length p1 then p1[j := i] else p1)" and "r2 = (if j < length p1 then p2 else p2[j - length p1 := i])"
    have r: "length r1 = length p1" "length r2 = length p2" "r1 @ r2 = (p1 @ p2)[j := i]"
      by (auto simp: r1_def r2_def list_update_append)
    have j: "j < length (p1 @ p2)" "Suc j + length ?xs \<le> length r1 + length r2" using Cons.prems False r by auto
    obtain q1 q2 where q: "fill_parts l is (Suc j) (r1, r2) = Inr (q1, q2)" "length q1 = length r1" "length q2 = length r2"
      "q1 @ q2 = take (Suc j) (r1 @ r2) @ ?xs @ drop (Suc j + length ?xs) (r1 @ r2)" using Cons.IH [OF j(2)] by blast
    have "fill_parts l (i # is) j (p1, p2) = Inr (q1, q2)" using False q(1) j(1) by (auto simp: r1_def r2_def set_nth_def split: if_splits)
    moreover have "take (Suc j) (r1 @ r2) = take j (p1 @ p2) @ [i]" unfolding r(3) using j(1) by (simp add: take_Suc_conv_app_nth del: take_append append_assoc)
    ultimately show ?thesis using q False r by (intro exI [of _ q1] exI [of _ q2]) (simp del: append_assoc take_append drop_append)
  qed
qed (simp del: take_append drop_append add: append_take_drop_id)


lemma find_leader_ok:
  assumes "\<forall>i \<in> set is. i < length (cf_servers cfg) \<and> cf_servers cfg ! i \<noteq> None"
  shows "\<exists>b l. find_leader is_leader is cfg = Inr (b, l) \<and> (b \<longrightarrow> l \<in> set is \<and> is_leader (the (cf_servers cfg ! l))) \<and>
    (\<not> b \<longrightarrow> l = 0 \<and> (\<forall>i \<in> set is. \<not> is_leader (the (cf_servers cfg ! i))))"
  using assms by (induction "is") (auto simp: go_nth_def)

text \<open>
  In a cluster of an odd number of servers, at least three, \<open>make_partition\<close> splits the servers into a majority and a minority without
  overlap, and the leader, if there is one, is in the minority.
\<close>

theorem make_partition_minority:
  assumes "started fresh {..<n} cfg" "cf_n cfg = n" "odd n" "1 < n"
  shows "\<exists>p1 p2 b l. Leader is_leader cfg = Inr (b, l) \<and> make_partition is_leader cfg = Inr (p1, p2) \<and>
    length p1 = n div 2 + 1 \<and> length p2 = n div 2 \<and> distinct (p1 @ p2) \<and> set (p1 @ p2) = {..<n} \<and> l \<in> set p2 \<and>
    (b \<longrightarrow> is_leader (the (cf_servers cfg ! l))) \<and> (\<not> b \<longrightarrow> (\<forall>i < n. \<not> is_leader (the (cf_servers cfg ! i))))"
proof -
  have "\<forall>i \<in> set [0..<n]. i < length (cf_servers cfg) \<and> cf_servers cfg ! i \<noteq> None"
    using started_server [OF assms(1)] assms(1,2) by (fastforce simp: started_def)
  then obtain b l where l: "Leader is_leader cfg = Inr (b, l)" "b \<longrightarrow> l \<in> set [0..<n] \<and> is_leader (the (cf_servers cfg ! l))"
    "\<not> b \<longrightarrow> l = 0 \<and> (\<forall>i \<in> set [0..<n]. \<not> is_leader (the (cf_servers cfg ! i)))"
    using find_leader_ok [of "[0..<n]" cfg is_leader] assms(2) by (auto simp: Leader_def)
  have ln: "l < n" using l(2,3) assms(4) by (cases b) auto
  let ?xs = "filter (\<lambda>i. i \<noteq> l) [0..<n]" and ?m = "n div 2"
  have "n = 2 * ?m + 1" using assms(3) by presburger
  have xs: "length ?xs = 2 * ?m" "distinct ?xs" "set ?xs = {..<n} - {l}"
  proof -
    show "set ?xs = {..<n} - {l}" by auto
    moreover have "distinct ?xs" by simp
    ultimately have "length ?xs = card ({..<n} - {l})" by (metis distinct_card)
    then show "length ?xs = 2 * ?m" using ln \<open>n = 2 * ?m + 1\<close> by simp
  qed simp
  obtain q1 q2 where q: "fill_parts l [0..<n] 0 (replicate (?m + 1) 0, replicate ?m 0) = Inr (q1, q2)" "length q1 = ?m + 1" "length q2 = ?m"
    "q1 @ q2 = ?xs @ drop (length ?xs) (replicate (?m + 1) 0 @ replicate ?m 0)"
    using fill_parts_ok [of 0 l "[0..<n]" "replicate (?m + 1) 0" "replicate ?m 0"] xs(1) by auto
  have "drop (length ?xs) (replicate (?m + 1) 0 @ replicate ?m 0 :: nat list) = [0]"
  proof -
    have "replicate (?m + 1) 0 @ replicate ?m 0 = replicate (2 * ?m) 0 @ [0 :: nat]"
      unfolding replicate_add [symmetric] by (simp add: replicate_append_same mult_2)
    then show ?thesis unfolding xs(1) by simp
  qed
  then have qx: "q1 @ q2 = ?xs @ [0]" using q(4) by simp
  have "0 < ?m" using assms(4) by simp
  then obtain ys z where ys: "q2 = ys @ [z]" using q(3) by (cases q2 rule: rev_cases) auto
  have eq: "q1 @ ys = ?xs" using qx ys by simp
  let ?p2 = "q2[length q2 - 1 := l]"
  have p2: "?p2 = ys @ [l]" using ys by simp
  have "make_partition is_leader cfg = Inr (q1, ?p2)" using l(1) q(1,3) assms(2) \<open>0 < ?m\<close> by (simp add: make_partition_def Let_def) auto
  moreover have "distinct (q1 @ ?p2)" "set (q1 @ ?p2) = {..<n}"
  proof -
    have e: "q1 @ ?p2 = ?xs @ [l]" using eq p2 by (metis append_assoc)
    show "distinct (q1 @ ?p2)" unfolding e using xs(2,3) by simp
    show "set (q1 @ ?p2) = {..<n}" unfolding e using xs(3) ln by auto
  qed
  moreover have "l \<in> set ?p2" unfolding p2 by simp
  moreover have "length ?p2 = ?m" "\<not> b \<longrightarrow> (\<forall>i < n. \<not> is_leader (the (cf_servers cfg ! i)))" using q(3) l(3) by simp_all
  ultimately show ?thesis using l(1,2) q(2) by blast
qed

text \<open>With four servers and leader 3 the server 0 is in both parts.\<close>

lemma make_partition_even_overlaps:
  assumes "cf_n cfg = 4" "Leader is_leader cfg = Inr (True, 3)"
  shows "make_partition is_leader cfg = Inr ([0, 1, 2], [0, 3])"
proof -
  have e: "[0..<4] = [0, 1, 2, 3 :: nat]" "replicate 2 (0 :: nat) = [0, 0]" "replicate 3 (0 :: nat) = [0, 0, 0]"
    by (simp_all add: upt_rec numeral_2_eq_2 numeral_3_eq_3)
  show ?thesis using assms unfolding make_partition_def by (simp add: e set_nth_def)
qed


theorem make_partition_minority_witness:
  "\<exists>cfg p1 p2. make_config nat_str 3 False (- 1) = Inr cfg \<and> make_partition (\<lambda>_. True) cfg = Inr (p1, p2) \<and> length p1 = 2 \<and> length p2 = 1"
proof -
  have "inj nat_str" by (auto simp: inj_def)
  then obtain cfg where "make_config nat_str 3 False (- 1) = Inr cfg" "started nat_str {..<3} cfg" "cf_n cfg = 3"
    using make_config_ok [of nat_str 3 False "- 1"] by metis
  then show ?thesis using make_partition_minority [of nat_str 3 cfg "\<lambda>_. True"] by auto
qed

end
