(* ===== verification/MasterConfig.thy ===== *)
theory MasterConfig
  imports LabConfig
begin

text \<open>
  The harness of the shard master exercise (\<open>src/lab4/src/shardmaster/config.go\<close>): a copy of the harness of the key/value exercise that was made before that one got
  a snapshot limit and statistics. It is translated from its own source; the theorem shows that the copies have not drifted apart: under the abstraction
  \<open>as_kv\<close>, which adds the fields that are missing, every operation is the operation of \<open>LabConfig\<close>. What is proved there of partitions and restarts carries over.
\<close>

section \<open>The configuration\<close>

text \<open>\<open>mc_store\<close> holds the persisters, \<open>mc_inst\<close> the persister of a server instance; \<open>mc_alloc\<close> is the next free address, \<open>mc_rand\<close> the next draw.\<close>

record sm_config =
  mc_net :: Network
  mc_n :: nat
  mc_servers :: "nat option list"
  mc_saved :: "nat option list"
  mc_endnames :: "string list option list"
  mc_clerks :: "nat \<rightharpoonup> string list"
  mc_nextClientId :: int
  mc_store :: "nat \<Rightarrow> Persister"
  mc_inst :: "nat \<rightharpoonup> nat"
  mc_alloc :: nat
  mc_rand :: nat

definition sm_endname :: "sm_config \<Rightarrow> nat \<Rightarrow> nat \<Rightarrow> string result" where
  "sm_endname cfg i j = bindR (go_nth (mc_endnames cfg) i) (\<lambda>row. bindR (panic_unless row) (\<lambda>r. go_nth r j))"

definition sm_enable_end :: "string \<Rightarrow> bool \<Rightarrow> sm_config \<Rightarrow> sm_config" where
  "sm_enable_end e b cfg = cfg\<lparr>mc_net := Enable (IStr e) b (mc_net cfg)\<rparr>"

fun sm_connect_out :: "nat \<Rightarrow> nat list \<Rightarrow> sm_config \<Rightarrow> sm_config result" where
  "sm_connect_out i [] cfg = Inr cfg"
| "sm_connect_out i (t # to) cfg = bindR (sm_endname cfg i t) (\<lambda>e. sm_connect_out i to (sm_enable_end e True cfg))"

fun sm_connect_in :: "nat \<Rightarrow> nat list \<Rightarrow> sm_config \<Rightarrow> sm_config result" where
  "sm_connect_in i [] cfg = Inr cfg"
| "sm_connect_in i (t # to) cfg = bindR (sm_endname cfg t i) (\<lambda>e. sm_connect_in i to (sm_enable_end e True cfg))"

definition sm_connectUnlocked :: "nat \<Rightarrow> nat list \<Rightarrow> sm_config \<Rightarrow> sm_config result" where
  "sm_connectUnlocked i to cfg = bindR (sm_connect_out i to cfg) (sm_connect_in i to)"

fun sm_disconnect_out :: "nat \<Rightarrow> nat list \<Rightarrow> sm_config \<Rightarrow> sm_config result" where
  "sm_disconnect_out i [] cfg = Inr cfg"
| "sm_disconnect_out i (f # from) cfg =
     bindR (go_nth (mc_endnames cfg) i) (\<lambda>row.
       if row = None then sm_disconnect_out i from cfg
       else bindR (sm_endname cfg i f) (\<lambda>e. sm_disconnect_out i from (sm_enable_end e False cfg)))"

text \<open>The second loop tests the row of the loop index \<open>j\<close> and uses the row of \<open>from[j]\<close>.\<close>

fun sm_disconnect_in :: "nat \<Rightarrow> nat \<Rightarrow> nat list \<Rightarrow> sm_config \<Rightarrow> sm_config result" where
  "sm_disconnect_in i j [] cfg = Inr cfg"
| "sm_disconnect_in i j (f # from) cfg =
     bindR (go_nth (mc_endnames cfg) j) (\<lambda>row.
       if row = None then sm_disconnect_in i (Suc j) from cfg
       else bindR (sm_endname cfg f i) (\<lambda>e. sm_disconnect_in i (Suc j) from (sm_enable_end e False cfg)))"

definition sm_disconnectUnlocked :: "nat \<Rightarrow> nat list \<Rightarrow> sm_config \<Rightarrow> sm_config result" where
  "sm_disconnectUnlocked i from cfg = bindR (sm_disconnect_out i from cfg) (sm_disconnect_in i 0 from)"

definition sm_All :: "sm_config \<Rightarrow> nat list" where
  "sm_All cfg = [0..<mc_n cfg]"

fun sm_connect_all :: "nat list \<Rightarrow> sm_config \<Rightarrow> sm_config result" where
  "sm_connect_all [] cfg = Inr cfg"
| "sm_connect_all (i # is) cfg = bindR (sm_connectUnlocked i (sm_All cfg) cfg) (sm_connect_all is)"

definition sm_ConnectAll :: "sm_config \<Rightarrow> sm_config result" where
  "sm_ConnectAll cfg = sm_connect_all [0..<mc_n cfg] cfg"

fun sm_split_off :: "nat list \<Rightarrow> nat list \<Rightarrow> nat list \<Rightarrow> sm_config \<Rightarrow> sm_config result" where
  "sm_split_off [] mine theirs cfg = Inr cfg"
| "sm_split_off (i # is) mine theirs cfg =
     bindR (sm_disconnectUnlocked i theirs cfg) (\<lambda>cfg. bindR (sm_connectUnlocked i mine cfg) (sm_split_off is mine theirs))"

definition sm_partition :: "nat list \<Rightarrow> nat list \<Rightarrow> sm_config \<Rightarrow> sm_config result" where
  "sm_partition p1 p2 cfg = bindR (sm_split_off p1 p1 p2 cfg) (sm_split_off p2 p2 p1)"

section \<open>Clerks\<close>

definition sm_draw :: "(nat \<Rightarrow> string) \<Rightarrow> sm_config \<Rightarrow> string list" where
  "sm_draw fresh cfg = map fresh [mc_rand cfg..<mc_rand cfg + mc_n cfg]"

fun sm_make_ends :: "nat \<Rightarrow> string list \<Rightarrow> sm_config \<Rightarrow> sm_config result" where
  "sm_make_ends j [] cfg = Inr cfg"
| "sm_make_ends j (e # es) cfg =
     bindR (MakeEnd (IStr e) (mc_net cfg)) (\<lambda>rn.
       sm_make_ends (Suc j) es (cfg\<lparr>mc_net := Connect (IStr e) (IInt (int j)) rn, mc_rand := Suc (mc_rand cfg)\<rparr>))"

fun sm_enable_clerk :: "string list \<Rightarrow> bool \<Rightarrow> nat list \<Rightarrow> sm_config \<Rightarrow> sm_config result" where
  "sm_enable_clerk names b [] cfg = Inr cfg"
| "sm_enable_clerk names b (t # to) cfg = bindR (go_nth names t) (\<lambda>e. sm_enable_clerk names b to (sm_enable_end e b cfg))"

definition sm_ConnectClientUnlocked :: "nat \<Rightarrow> nat list \<Rightarrow> sm_config \<Rightarrow> sm_config result" where
  "sm_ConnectClientUnlocked ck to cfg = sm_enable_clerk (case mc_clerks cfg ck of None \<Rightarrow> [] | Some ns \<Rightarrow> ns) True to cfg"

definition sm_DisconnectClientUnlocked :: "nat \<Rightarrow> nat list \<Rightarrow> sm_config \<Rightarrow> sm_config result" where
  "sm_DisconnectClientUnlocked ck from cfg = sm_enable_clerk (case mc_clerks cfg ck of None \<Rightarrow> [] | Some ns \<Rightarrow> ns) False from cfg"

definition sm_makeClient :: "(nat \<Rightarrow> string) \<Rightarrow> nat list \<Rightarrow> sm_config \<Rightarrow> (nat \<times> sm_config) result" where
  "sm_makeClient fresh to cfg =
     (let endnames = sm_draw fresh cfg
      in bindR (sm_make_ends 0 endnames cfg) (\<lambda>cfg.
           let ck = mc_alloc cfg;
               cfg = cfg\<lparr>mc_alloc := Suc ck, mc_clerks := (mc_clerks cfg)(ck \<mapsto> endnames), mc_nextClientId := mc_nextClientId cfg + 1\<rparr>
           in bindR (sm_ConnectClientUnlocked ck to cfg) (\<lambda>cfg. Inr (ck, cfg))))"

definition sm_deleteClient :: "nat \<Rightarrow> sm_config \<Rightarrow> sm_config" where
  "sm_deleteClient ck cfg = cfg\<lparr>mc_clerks := (mc_clerks cfg)(ck := None)\<rparr>"

section \<open>Starting and stopping servers\<close>

definition sm_new_persister :: "Persister \<Rightarrow> nat \<Rightarrow> sm_config \<Rightarrow> sm_config" where
  "sm_new_persister ps i cfg =
     cfg\<lparr>mc_store := (mc_store cfg)(mc_alloc cfg := ps), mc_saved := (mc_saved cfg)[i := Some (mc_alloc cfg)], mc_alloc := Suc (mc_alloc cfg)\<rparr>"

definition sm_ShutdownServer :: "nat \<Rightarrow> sm_config \<Rightarrow> sm_config result" where
  "sm_ShutdownServer i cfg =
     bindR (sm_disconnectUnlocked i (sm_All cfg) cfg) (\<lambda>cfg.
       let cfg = cfg\<lparr>mc_net := DeleteServer (IInt (int i)) (mc_net cfg)\<rparr>
       in bindR (go_nth (mc_saved cfg) i) (\<lambda>sv.
            let cfg = (case sv of None \<Rightarrow> cfg | Some p \<Rightarrow> sm_new_persister (Copy (mc_store cfg p)) i cfg)
            in bindR (go_nth (mc_servers cfg) i) (\<lambda>kv.
                 Inr (if kv \<noteq> None then cfg\<lparr>mc_servers := (mc_servers cfg)[i := None]\<rparr> else cfg))))"

definition sm_StartServer :: "(nat \<Rightarrow> string) \<Rightarrow> nat \<Rightarrow> sm_config \<Rightarrow> sm_config result" where
  "sm_StartServer fresh i cfg =
     (if i < length (mc_endnames cfg)
      then let row = sm_draw fresh cfg; cfg = cfg\<lparr>mc_endnames := (mc_endnames cfg)[i := Some row]\<rparr>
           in bindR (sm_make_ends 0 row cfg) (\<lambda>cfg.
              bindR (go_nth (mc_saved cfg) i) (\<lambda>sv.
                let cfg = sm_new_persister (case sv of None \<Rightarrow> MakePersister | Some p \<Rightarrow> Copy (mc_store cfg p)) i cfg;
                    kv = mc_alloc cfg; srv = Suc kv
                in bindR (go_nth (mc_saved cfg) i) (\<lambda>sv. bindR (panic_unless sv) (\<lambda>p.
                     Inr (cfg\<lparr>mc_servers := (mc_servers cfg)[i := Some kv], mc_inst := (mc_inst cfg)(kv \<mapsto> p), mc_alloc := Suc srv,
                              mc_net := AddServer (IInt (int i)) srv (mc_net cfg)\<rparr>)))))
      else Inl Panic)"

fun sm_start_all :: "(nat \<Rightarrow> string) \<Rightarrow> nat list \<Rightarrow> sm_config \<Rightarrow> sm_config result" where
  "sm_start_all fresh [] cfg = Inr cfg"
| "sm_start_all fresh (i # is) cfg = bindR (sm_StartServer fresh i cfg) (sm_start_all fresh is)"

definition sm_make_config :: "(nat \<Rightarrow> string) \<Rightarrow> nat \<Rightarrow> bool \<Rightarrow> sm_config result" where
  "sm_make_config fresh n unreliable =
     (let cfg = \<lparr>mc_net = MakeNetwork, mc_n = n, mc_servers = replicate n None, mc_saved = replicate n None, mc_endnames = replicate n None,
                 mc_clerks = Map.empty, mc_nextClientId = int n + 1000,
                 mc_store = (\<lambda>_. MakePersister), mc_inst = Map.empty, mc_alloc = 0, mc_rand = 0\<rparr>
      in bindR (sm_start_all fresh [0..<n] cfg) (\<lambda>cfg. bindR (sm_ConnectAll cfg) (\<lambda>cfg.
           Inr (cfg\<lparr>mc_net := Reliable (\<not> unreliable) (mc_net cfg)\<rparr>))))"

fun sm_max_size :: "(Persister \<Rightarrow> nat) \<Rightarrow> nat list \<Rightarrow> sm_config \<Rightarrow> nat \<Rightarrow> nat result" where
  "sm_max_size sz [] cfg m = Inr m"
| "sm_max_size sz (i # is) cfg m =
     bindR (go_nth (mc_saved cfg) i) (\<lambda>sv. bindR (panic_unless sv) (\<lambda>p.
       let n = sz (mc_store cfg p) in sm_max_size sz is cfg (if n > m then n else m)))"

definition sm_LogSize :: "sm_config \<Rightarrow> nat result" where
  "sm_LogSize cfg = sm_max_size RaftStateSize [0..<mc_n cfg] cfg 0"

definition sm_cleanup :: "bool \<Rightarrow> int \<Rightarrow> sm_config \<Rightarrow> sm_config result" where
  "sm_cleanup failed elapsed cfg =
     bindR (Cleanup (mc_net cfg)) (\<lambda>rn. bindR (checkTimeout failed elapsed) (\<lambda>_. Inr (cfg\<lparr>mc_net := rn\<rparr>)))"

text \<open>\<open>is_leader\<close> is what \<open>rf.GetState\<close> of the running servers returns.\<close>

fun sm_find_leader :: "(nat \<Rightarrow> bool) \<Rightarrow> nat list \<Rightarrow> sm_config \<Rightarrow> (bool \<times> nat) result" where
  "sm_find_leader is_leader [] cfg = Inr (False, 0)"
| "sm_find_leader is_leader (i # is) cfg =
     bindR (go_nth (mc_servers cfg) i) (\<lambda>kv. bindR (panic_unless kv) (\<lambda>a.
       if is_leader a then Inr (True, i) else sm_find_leader is_leader is cfg))"

definition sm_Leader :: "(nat \<Rightarrow> bool) \<Rightarrow> sm_config \<Rightarrow> (bool \<times> nat) result" where
  "sm_Leader is_leader cfg = sm_find_leader is_leader [0..<mc_n cfg] cfg"

fun sm_fill_parts :: "nat \<Rightarrow> nat list \<Rightarrow> nat \<Rightarrow> nat list \<times> nat list \<Rightarrow> (nat list \<times> nat list) result" where
  "sm_fill_parts l [] j (p1, p2) = Inr (p1, p2)"
| "sm_fill_parts l (i # is) j (p1, p2) =
     (if i \<noteq> l
      then if j < length p1 then bindR (set_nth p1 j i) (\<lambda>p1. sm_fill_parts l is (Suc j) (p1, p2))
           else bindR (set_nth p2 (j - length p1) i) (\<lambda>p2. sm_fill_parts l is (Suc j) (p1, p2))
      else sm_fill_parts l is j (p1, p2))"

definition sm_make_partition :: "(nat \<Rightarrow> bool) \<Rightarrow> sm_config \<Rightarrow> (nat list \<times> nat list) result" where
  "sm_make_partition is_leader cfg =
     bindR (sm_Leader is_leader cfg) (\<lambda>(_, l).
     bindR (sm_fill_parts l [0..<mc_n cfg] 0 (replicate (mc_n cfg div 2 + 1) 0, replicate (mc_n cfg div 2) 0)) (\<lambda>(p1, p2).
       if p2 = [] then Inl Panic else Inr (p1, p2[length p2 - 1 := l])))"

section \<open>The harness of the key/value exercise\<close>

definition as_kv :: "int \<Rightarrow> sm_config \<Rightarrow> config" where
  "as_kv m cfg = \<lparr>cf_net = mc_net cfg, cf_n = mc_n cfg, cf_servers = mc_servers cfg, cf_saved = mc_saved cfg, cf_endnames = mc_endnames cfg,
     cf_clerks = mc_clerks cfg, cf_nextClientId = mc_nextClientId cfg, cf_maxraftstate = m, cf_rpcs0 = 0, cf_ops = 0,
     cf_store = mc_store cfg, cf_inst = mc_inst cfg, cf_alloc = mc_alloc cfg, cf_rand = mc_rand cfg\<rparr>"

named_theorems same_as_kv

lemma kv_simps [simp]:
  "cf_net (as_kv m cfg) = mc_net cfg" "cf_n (as_kv m cfg) = mc_n cfg" "cf_servers (as_kv m cfg) = mc_servers cfg" "cf_saved (as_kv m cfg) = mc_saved cfg"
  "cf_endnames (as_kv m cfg) = mc_endnames cfg" "cf_clerks (as_kv m cfg) = mc_clerks cfg" "cf_nextClientId (as_kv m cfg) = mc_nextClientId cfg"
  "cf_store (as_kv m cfg) = mc_store cfg" "cf_inst (as_kv m cfg) = mc_inst cfg" "cf_alloc (as_kv m cfg) = mc_alloc cfg" "cf_rand (as_kv m cfg) = mc_rand cfg"
  "as_kv m (cfg\<lparr>mc_net := rn\<rparr>) = (as_kv m cfg)\<lparr>cf_net := rn\<rparr>" "as_kv m (cfg\<lparr>mc_servers := ss\<rparr>) = (as_kv m cfg)\<lparr>cf_servers := ss\<rparr>"
  "as_kv m (cfg\<lparr>mc_saved := ps\<rparr>) = (as_kv m cfg)\<lparr>cf_saved := ps\<rparr>" "as_kv m (cfg\<lparr>mc_endnames := es\<rparr>) = (as_kv m cfg)\<lparr>cf_endnames := es\<rparr>"
  "as_kv m (cfg\<lparr>mc_clerks := cs\<rparr>) = (as_kv m cfg)\<lparr>cf_clerks := cs\<rparr>" "as_kv m (cfg\<lparr>mc_nextClientId := k\<rparr>) = (as_kv m cfg)\<lparr>cf_nextClientId := k\<rparr>"
  "as_kv m (cfg\<lparr>mc_store := st\<rparr>) = (as_kv m cfg)\<lparr>cf_store := st\<rparr>" "as_kv m (cfg\<lparr>mc_inst := is\<rparr>) = (as_kv m cfg)\<lparr>cf_inst := is\<rparr>"
  "as_kv m (cfg\<lparr>mc_alloc := a\<rparr>) = (as_kv m cfg)\<lparr>cf_alloc := a\<rparr>" "as_kv m (cfg\<lparr>mc_rand := r\<rparr>) = (as_kv m cfg)\<lparr>cf_rand := r\<rparr>"
  by (simp_all add: as_kv_def)

text \<open>One equation per function, in the order of the source.\<close>

lemma kv_endname [same_as_kv]: "endname (as_kv m cfg) i j = sm_endname cfg i j"
  by (simp add: endname_def sm_endname_def)

lemma kv_enable_end [same_as_kv]: "enable_end e b (as_kv m cfg) = as_kv m (sm_enable_end e b cfg)"
  by (simp add: enable_end_def sm_enable_end_def)

lemma kv_connect [same_as_kv]:
  "connect_out i to (as_kv m cfg) = map_sum id (as_kv m) (sm_connect_out i to cfg)"
  "connect_in i to (as_kv m cfg) = map_sum id (as_kv m) (sm_connect_in i to cfg)"
  by (induction "to" arbitrary: cfg) (simp_all add: map_bindR bindR_map same_as_kv)

lemma kv_disconnect [same_as_kv]:
  "disconnect_out i from (as_kv m cfg) = map_sum id (as_kv m) (sm_disconnect_out i from cfg)"
  "disconnect_in i j from (as_kv m cfg) = map_sum id (as_kv m) (sm_disconnect_in i j from cfg)"
  by (induction "from" arbitrary: cfg j) (simp_all add: map_bindR bindR_map same_as_kv if_distrib [of "map_sum id (as_kv m)"] cong: if_cong)

lemma kv_connectUnlocked [same_as_kv]:
  "connectUnlocked i to (as_kv m cfg) = map_sum id (as_kv m) (sm_connectUnlocked i to cfg)"
  "disconnectUnlocked i to (as_kv m cfg) = map_sum id (as_kv m) (sm_disconnectUnlocked i to cfg)"
  "cfg_All (as_kv m cfg) = sm_All cfg"
  by (simp_all add: connectUnlocked_def sm_connectUnlocked_def disconnectUnlocked_def sm_disconnectUnlocked_def cfg_All_def sm_All_def map_bindR bindR_map same_as_kv)

lemma kv_connect_all [same_as_kv]:
  "connect_all is (as_kv m cfg) = map_sum id (as_kv m) (sm_connect_all is cfg)"
  "split_off is p q (as_kv m cfg) = map_sum id (as_kv m) (sm_split_off is p q cfg)"
  by (induction "is" arbitrary: cfg) (simp_all add: map_bindR bindR_map same_as_kv)

lemma kv_partition [same_as_kv]:
  "ConnectAll (as_kv m cfg) = map_sum id (as_kv m) (sm_ConnectAll cfg)"
  "cfg_partition p q (as_kv m cfg) = map_sum id (as_kv m) (sm_partition p q cfg)"
  by (simp_all add: ConnectAll_def sm_ConnectAll_def cfg_partition_def sm_partition_def map_bindR bindR_map same_as_kv)

lemma kv_make_ends [same_as_kv]: "make_ends j es (as_kv m cfg) = map_sum id (as_kv m) (sm_make_ends j es cfg)"
  by (induction es arbitrary: j cfg) (simp_all add: map_bindR bindR_map flip: kv_simps(12,21))

lemma kv_enable_clerk [same_as_kv]: "enable_clerk names b to (as_kv m cfg) = map_sum id (as_kv m) (sm_enable_clerk names b to cfg)"
  by (induction "to" arbitrary: cfg) (simp_all add: map_bindR bindR_map same_as_kv)

lemma kv_clerks [same_as_kv]:
  "draw fresh (as_kv m cfg) = sm_draw fresh cfg"
  "ConnectClientUnlocked ck to (as_kv m cfg) = map_sum id (as_kv m) (sm_ConnectClientUnlocked ck to cfg)"
  "DisconnectClientUnlocked ck to (as_kv m cfg) = map_sum id (as_kv m) (sm_DisconnectClientUnlocked ck to cfg)"
  "deleteClient ck (as_kv m cfg) = as_kv m (sm_deleteClient ck cfg)"
  by (simp_all add: draw_def sm_draw_def ConnectClientUnlocked_def sm_ConnectClientUnlocked_def DisconnectClientUnlocked_def
      sm_DisconnectClientUnlocked_def deleteClient_def sm_deleteClient_def same_as_kv)

lemma kv_makeClient [same_as_kv]: "makeClient fresh to (as_kv m cfg) = map_sum id (map_prod id (as_kv m)) (sm_makeClient fresh to cfg)"
  by (simp add: makeClient_def sm_makeClient_def Let_def map_bindR bindR_map same_as_kv flip: kv_simps(16,17,20))

lemma kv_new_persister [same_as_kv]: "new_persister ps i (as_kv m cfg) = as_kv m (sm_new_persister ps i cfg)"
  by (simp add: new_persister_def sm_new_persister_def)

lemma kv_case: "(case sv of None \<Rightarrow> as_kv m a | Some p \<Rightarrow> as_kv m (b p)) = as_kv m (case sv of None \<Rightarrow> a | Some p \<Rightarrow> b p)"
  by (cases sv) simp_all

lemma kv_ShutdownServer [same_as_kv]: "ShutdownServer i (as_kv m cfg) = map_sum id (as_kv m) (sm_ShutdownServer i cfg)"
  by (simp add: ShutdownServer_def sm_ShutdownServer_def Let_def map_bindR bindR_map same_as_kv kv_case if_distrib [of "as_kv m"] flip: kv_simps(12,13) cong: if_cong option.case_cong)

lemma kv_StartServer [same_as_kv]: "StartServer fresh i (as_kv m cfg) = map_sum id (as_kv m) (sm_StartServer fresh i cfg)"
  by (simp add: StartServer_def sm_StartServer_def Let_def map_bindR bindR_map same_as_kv flip: kv_simps(15) cong: option.case_cong)

lemma kv_start_all [same_as_kv]: "start_all fresh is (as_kv m cfg) = map_sum id (as_kv m) (sm_start_all fresh is cfg)"
  by (induction "is" arbitrary: cfg) (simp_all add: map_bindR bindR_map same_as_kv)

lemma kv_sizes [same_as_kv]: "max_size sz is (as_kv m cfg) k = sm_max_size sz is cfg k" "cfg_LogSize (as_kv m cfg) = sm_LogSize cfg"
proof -
  show max: "max_size sz is (as_kv m cfg) k = sm_max_size sz is cfg k" for sz "is" k
    by (induction "is" arbitrary: k) (simp_all add: Let_def)
  show "cfg_LogSize (as_kv m cfg) = sm_LogSize cfg"
    by (simp add: cfg_LogSize_def sm_LogSize_def max)
qed

lemma kv_leader [same_as_kv]:
  "find_leader is_leader is (as_kv m cfg) = sm_find_leader is_leader is cfg" "fill_parts l is j pq = sm_fill_parts l is j pq"
  by (induction "is" arbitrary: j pq) (auto simp: bindR_def split: sum.split prod.split)

lemma kv_make_partition [same_as_kv]: "make_partition is_leader (as_kv m cfg) = sm_make_partition is_leader cfg" "Leader is_leader (as_kv m cfg) = sm_Leader is_leader cfg"
  by (simp_all add: make_partition_def sm_make_partition_def Leader_def sm_Leader_def same_as_kv)

lemma kv_cleanup [same_as_kv]: "cfg_cleanup failed elapsed (as_kv m cfg) = map_sum id (as_kv m) (sm_cleanup failed elapsed cfg)"
  by (simp add: cfg_cleanup_def sm_cleanup_def map_bindR bindR_map)

lemma kv_make_config [same_as_kv]: "make_config fresh n unreliable m = map_sum id (as_kv m) (sm_make_config fresh n unreliable)"
proof -
  let ?cfg = "\<lparr>mc_net = MakeNetwork, mc_n = n, mc_servers = replicate n None, mc_saved = replicate n None, mc_endnames = replicate n None,
    mc_clerks = Map.empty, mc_nextClientId = int n + 1000, mc_store = (\<lambda>_. MakePersister), mc_inst = Map.empty, mc_alloc = 0, mc_rand = 0\<rparr>"
  have "make_config fresh n unreliable m = bindR (start_all fresh [0..<n] (as_kv m ?cfg)) (\<lambda>cfg. bindR (ConnectAll cfg) (\<lambda>cfg.
      Inr (cfg\<lparr>cf_net := Reliable (\<not> unreliable) (cf_net cfg)\<rparr>)))"
    by (simp add: make_config_def as_kv_def)
  then show ?thesis
    by (simp add: sm_make_config_def Let_def map_bindR bindR_map same_as_kv)
qed

section \<open>Sequences of operations\<close>

datatype harness_op =
    HConnect nat "nat list" | HDisconnect nat "nat list" | HConnectAll | HPartition "nat list" "nat list"
  | HMakeClient "nat list" | HDeleteClient nat | HConnectClient nat "nat list" | HDisconnectClient nat "nat list"
  | HShutdown nat | HStart nat

fun sm_run_op :: "(nat \<Rightarrow> string) \<Rightarrow> harness_op \<Rightarrow> sm_config \<Rightarrow> sm_config result" where
  "sm_run_op fresh (HConnect i to) cfg = sm_connectUnlocked i to cfg"
| "sm_run_op fresh (HDisconnect i from) cfg = sm_disconnectUnlocked i from cfg"
| "sm_run_op fresh HConnectAll cfg = sm_ConnectAll cfg"
| "sm_run_op fresh (HPartition p1 p2) cfg = sm_partition p1 p2 cfg"
| "sm_run_op fresh (HMakeClient to) cfg = map_sum id snd (sm_makeClient fresh to cfg)"
| "sm_run_op fresh (HDeleteClient ck) cfg = Inr (sm_deleteClient ck cfg)"
| "sm_run_op fresh (HConnectClient ck to) cfg = sm_ConnectClientUnlocked ck to cfg"
| "sm_run_op fresh (HDisconnectClient ck from) cfg = sm_DisconnectClientUnlocked ck from cfg"
| "sm_run_op fresh (HShutdown i) cfg = sm_ShutdownServer i cfg"
| "sm_run_op fresh (HStart i) cfg = sm_StartServer fresh i cfg"

fun kv_run_op :: "(nat \<Rightarrow> string) \<Rightarrow> harness_op \<Rightarrow> config \<Rightarrow> config result" where
  "kv_run_op fresh (HConnect i to) cfg = connectUnlocked i to cfg"
| "kv_run_op fresh (HDisconnect i from) cfg = disconnectUnlocked i from cfg"
| "kv_run_op fresh HConnectAll cfg = ConnectAll cfg"
| "kv_run_op fresh (HPartition p1 p2) cfg = cfg_partition p1 p2 cfg"
| "kv_run_op fresh (HMakeClient to) cfg = map_sum id snd (makeClient fresh to cfg)"
| "kv_run_op fresh (HDeleteClient ck) cfg = Inr (deleteClient ck cfg)"
| "kv_run_op fresh (HConnectClient ck to) cfg = ConnectClientUnlocked ck to cfg"
| "kv_run_op fresh (HDisconnectClient ck from) cfg = DisconnectClientUnlocked ck from cfg"
| "kv_run_op fresh (HShutdown i) cfg = ShutdownServer i cfg"
| "kv_run_op fresh (HStart i) cfg = StartServer fresh i cfg"

lemma kv_run_op [same_as_kv]: "kv_run_op fresh x (as_kv m cfg) = map_sum id (as_kv m) (sm_run_op fresh x cfg)"
  by (cases x) (simp_all add: same_as_kv sum.map_comp comp_def map_prod_def case_prod_unfold)

lemma kv_run_all [same_as_kv]: "run_all (kv_run_op fresh) xs (as_kv m cfg) = map_sum id (as_kv m) (run_all (sm_run_op fresh) xs cfg)"
  by (induction xs arbitrary: cfg) (simp_all add: map_bindR bindR_map same_as_kv)

text \<open>
  C29: The harness of the shard master exercise and that of the key/value exercise are equivalent: after the setup and any sequence of operations, panics and
  \<open>log.Fatalf\<close> included, the two have the same network, servers, persisters and clerks, and they answer the same leader, the same partition and the same log size.
\<close>

theorem sm_harness_equiv:
  "bindR (make_config fresh n unreliable m) (run_all (kv_run_op fresh) xs)
     = map_sum id (as_kv m) (bindR (sm_make_config fresh n unreliable) (run_all (sm_run_op fresh) xs))
   \<and> Leader is_leader (as_kv m cfg) = sm_Leader is_leader cfg
   \<and> make_partition is_leader (as_kv m cfg) = sm_make_partition is_leader cfg
   \<and> cfg_LogSize (as_kv m cfg) = sm_LogSize cfg"
  by (simp add: map_bindR bindR_map same_as_kv)

end
