(* ===== verification/RaftConfig.thy ===== *)
theory RaftConfig
  imports LabConfig
begin

text \<open>
  The harness of the Raft exercise (\<open>src/lab4/src/raft/config.go\<close>): servers that crash, restart and leave the network, the reader that
  checks what the servers commit, and the checks that the tests make of leaders, terms and committed entries.

  \<^item> A server is an address. What \<open>GetState\<close> and \<open>Start\<close> answer at a server is an argument, because the exercise leaves both to be written.
    A wait observes the harness at the times \<open>0, 1, \<dots>\<close>; a loop bounded by real time runs through the list of what it observes.
  \<^item> A command is an \<open>int\<close> or something else (\<open>None\<close>). \<open>applyErr\<close> is never set, because \<open>log.Fatalf\<close> ends the process just before.
    \<open>t.Fatalf\<close> and \<open>log.Fatalf\<close> end the test (\<open>Fatal\<close>).
\<close>

record raft_config =
  rf_net :: Network
  rf_n :: nat
  rf_rafts :: "nat option list"
  rf_connected :: "bool list"
  rf_saved :: "Persister option list"
  rf_endnames :: "string list option list"
  rf_logs :: "(int \<rightharpoonup> int) list"
  rf_maxIndex :: int
  rf_maxIndex0 :: int
  rf_rpcs0 :: int
  rf_rand :: nat
  rf_alloc :: nat

section \<open>Leaving and joining the network\<close>

definition rf_endname :: "raft_config \<Rightarrow> nat \<Rightarrow> nat \<Rightarrow> string result" where
  "rf_endname cfg i j = bindR (go_nth (rf_endnames cfg) i) (\<lambda>row. bindR (panic_unless row) (\<lambda>r. go_nth r j))"

definition rf_enable :: "string \<Rightarrow> bool \<Rightarrow> raft_config \<Rightarrow> raft_config" where
  "rf_enable e b cfg = cfg\<lparr>rf_net := Enable (IStr e) b (rf_net cfg)\<rparr>"

fun rf_attach :: "(nat \<Rightarrow> nat \<times> nat) \<Rightarrow> nat list \<Rightarrow> raft_config \<Rightarrow> raft_config result" where
  "rf_attach way [] cfg = Inr cfg"
| "rf_attach way (j # js) cfg =
     bindR (go_nth (rf_connected cfg) j) (\<lambda>c.
       if c then bindR (case way j of (a, b) \<Rightarrow> rf_endname cfg a b) (\<lambda>e. rf_attach way js (rf_enable e True cfg))
       else rf_attach way js cfg)"

fun rf_detach :: "(nat \<Rightarrow> nat \<times> nat) \<Rightarrow> nat list \<Rightarrow> raft_config \<Rightarrow> raft_config result" where
  "rf_detach way [] cfg = Inr cfg"
| "rf_detach way (j # js) cfg =
     (case way j of (a, b) \<Rightarrow>
       bindR (go_nth (rf_endnames cfg) a) (\<lambda>row.
         if row = None then rf_detach way js cfg
         else bindR (rf_endname cfg a b) (\<lambda>e. rf_detach way js (rf_enable e False cfg))))"

definition rf_connect :: "nat \<Rightarrow> raft_config \<Rightarrow> raft_config result" where
  "rf_connect i cfg =
     bindR (set_nth (rf_connected cfg) i True) (\<lambda>cs.
     bindR (rf_attach (\<lambda>j. (i, j)) [0..<rf_n cfg] (cfg\<lparr>rf_connected := cs\<rparr>)) (rf_attach (\<lambda>j. (j, i)) [0..<rf_n cfg]))"

definition rf_disconnect :: "nat \<Rightarrow> raft_config \<Rightarrow> raft_config result" where
  "rf_disconnect i cfg =
     bindR (set_nth (rf_connected cfg) i False) (\<lambda>cs.
     bindR (rf_detach (\<lambda>j. (i, j)) [0..<rf_n cfg] (cfg\<lparr>rf_connected := cs\<rparr>)) (rf_detach (\<lambda>j. (j, i)) [0..<rf_n cfg]))"

definition setunreliable :: "bool \<Rightarrow> raft_config \<Rightarrow> raft_config" where
  "setunreliable unrel cfg = cfg\<lparr>rf_net := Reliable (\<not> unrel) (rf_net cfg)\<rparr>"

definition setlongreordering :: "bool \<Rightarrow> raft_config \<Rightarrow> raft_config" where
  "setlongreordering longrel cfg = cfg\<lparr>rf_net := LongReordering longrel (rf_net cfg)\<rparr>"

section \<open>Crashes and restarts\<close>

text \<open>The persister that is kept after a crash has the Raft state and no snapshot.\<close>

definition crash1 :: "nat \<Rightarrow> raft_config \<Rightarrow> raft_config result" where
  "crash1 i cfg =
     bindR (rf_disconnect i cfg) (\<lambda>cfg.
       let cfg = cfg\<lparr>rf_net := DeleteServer (IInt (int i)) (rf_net cfg)\<rparr>
       in bindR (go_nth (rf_saved cfg) i) (\<lambda>sv.
          bindR (set_nth (rf_saved cfg) i (map_option Copy sv)) (\<lambda>saved.
          bindR (set_nth (rf_rafts cfg) i None) (\<lambda>rafts.
            Inr (cfg\<lparr>rf_rafts := rafts,
                     rf_saved := saved[i := map_option (\<lambda>ps. SaveRaftState (ReadRaftState ps) MakePersister) (saved ! i)]\<rparr>)))))"

fun rf_make_ends :: "nat \<Rightarrow> string list \<Rightarrow> raft_config \<Rightarrow> raft_config result" where
  "rf_make_ends j [] cfg = Inr cfg"
| "rf_make_ends j (e # es) cfg =
     bindR (MakeEnd (IStr e) (rf_net cfg)) (\<lambda>rn.
       rf_make_ends (Suc j) es (cfg\<lparr>rf_net := Connect (IStr e) (IInt (int j)) rn, rf_rand := Suc (rf_rand cfg)\<rparr>))"

definition start1 :: "(nat \<Rightarrow> string) \<Rightarrow> nat \<Rightarrow> raft_config \<Rightarrow> raft_config result" where
  "start1 fresh i cfg =
     bindR (crash1 i cfg) (\<lambda>cfg.
       let row = map fresh [rf_rand cfg..<rf_rand cfg + rf_n cfg]
       in bindR (set_nth (rf_endnames cfg) i (Some row)) (\<lambda>names.
          bindR (rf_make_ends 0 row (cfg\<lparr>rf_endnames := names\<rparr>)) (\<lambda>cfg.
          bindR (go_nth (rf_saved cfg) i) (\<lambda>sv.
            let ps = (case sv of None \<Rightarrow> MakePersister | Some ps \<Rightarrow> Copy ps); rf = rf_alloc cfg
            in bindR (set_nth (rf_rafts cfg) i (Some rf)) (\<lambda>rafts.
                 Inr (cfg\<lparr>rf_saved := (rf_saved cfg)[i := Some ps], rf_rafts := rafts, rf_alloc := Suc (Suc rf),
                          rf_net := AddServer (IInt (int i)) (Suc rf) (rf_net cfg)\<rparr>))))))"

section \<open>The reader of committed entries\<close>

record ApplyMsg =
  CommandValid :: bool
  Command :: "int option"
  CommandIndex :: int

definition apply_msg :: "nat \<Rightarrow> ApplyMsg \<Rightarrow> raft_config \<Rightarrow> raft_config result" where
  "apply_msg i m cfg =
     (if \<not> CommandValid m then Inr cfg
      else case Command m of
             None \<Rightarrow> Inl Fatal
           | Some v \<Rightarrow>
               let differs = list_ex (\<lambda>lg. case lg (CommandIndex m) of None \<Rightarrow> False | Some old \<Rightarrow> old \<noteq> v) (rf_logs cfg)
               in bindR (go_nth (rf_logs cfg) i) (\<lambda>lg.
                    let prevok = lg (CommandIndex m - 1) \<noteq> None;
                        cfg = cfg\<lparr>rf_logs := (rf_logs cfg)[i := lg(CommandIndex m \<mapsto> v)],
                                  rf_maxIndex := (if CommandIndex m > rf_maxIndex cfg then CommandIndex m else rf_maxIndex cfg)\<rparr>
                    in if differs \<or> (CommandIndex m > 1 \<and> \<not> prevok) then Inl Fatal else Inr cfg))"

fun apply_all :: "(nat \<times> ApplyMsg) list \<Rightarrow> raft_config \<Rightarrow> raft_config result" where
  "apply_all [] cfg = Inr cfg"
| "apply_all ((i, m) # ms) cfg = bindR (apply_msg i m cfg) (apply_all ms)"

fun n_committed :: "int \<Rightarrow> (int \<rightharpoonup> int) list \<Rightarrow> nat \<Rightarrow> int \<Rightarrow> (nat \<times> int) result" where
  "n_committed index [] cnt cmd = Inr (cnt, cmd)"
| "n_committed index (lg # logs) cnt cmd =
     (case lg index of
        None \<Rightarrow> n_committed index logs cnt cmd
      | Some cmd1 \<Rightarrow> if cnt > 0 \<and> cmd \<noteq> cmd1 then Inl Fatal else n_committed index logs (Suc cnt) cmd1)"

definition nCommitted :: "int \<Rightarrow> raft_config \<Rightarrow> (nat \<times> int) result" where
  "nCommitted index cfg = n_committed index (rf_logs cfg) 0 (- 1)"

text \<open>\<open>wait\<close> looks at most thirty times; \<open>env k\<close> is the harness at the time \<open>k\<close> and what \<open>GetState\<close> answers there.\<close>

type_synonym GetState = "nat option \<Rightarrow> (int \<times> bool) result"

fun moved_on :: "GetState \<Rightarrow> int \<Rightarrow> nat option list \<Rightarrow> bool result" where
  "moved_on state startTerm [] = Inr False"
| "moved_on state startTerm (r # rs) =
     bindR (state r) (\<lambda>(t, _). if t > startTerm then Inr True else moved_on state startTerm rs)"

fun wait_loop :: "(nat \<Rightarrow> raft_config \<times> GetState) \<Rightarrow> int \<Rightarrow> nat \<Rightarrow> int \<Rightarrow> nat \<Rightarrow> nat \<Rightarrow> (bool \<times> nat) result" where
  "wait_loop env index n startTerm k 0 = Inr (False, k)"
| "wait_loop env index n startTerm k (Suc iters) =
     bindR (nCommitted index (fst (env k))) (\<lambda>(nd, _).
       if nd \<ge> n then Inr (False, k)
       else bindR (if startTerm > - 1 then moved_on (snd (env k)) startTerm (rf_rafts (fst (env k))) else Inr False) (\<lambda>moved.
              if moved then Inr (True, k) else wait_loop env index n startTerm (Suc k) iters))"

definition rf_wait :: "(nat \<Rightarrow> raft_config \<times> GetState) \<Rightarrow> int \<Rightarrow> nat \<Rightarrow> int \<Rightarrow> int result" where
  "rf_wait env index n startTerm =
     bindR (wait_loop env index n startTerm 0 30) (\<lambda>(moved, k).
       if moved then Inr (- 1)
       else bindR (nCommitted index (fst (env k))) (\<lambda>(nd, cmd). if nd < n then Inl Fatal else Inr cmd))"

text \<open>
  One agreement. A round of the loop sees the harness and what \<open>Start\<close> answers while it looks for a leader, then the harness at every look of the
  two seconds that follow; the rounds of the ten seconds are the list.
\<close>

type_synonym Start = "nat \<Rightarrow> int \<Rightarrow> (int \<times> int \<times> bool) result"

type_synonym one_round = "(raft_config \<times> Start) \<times> raft_config list"

fun try_servers :: "Start \<Rightarrow> int \<Rightarrow> raft_config \<Rightarrow> nat \<Rightarrow> nat \<Rightarrow> (int \<times> nat) result" where
  "try_servers Start cmd cfg starts 0 = Inr (- 1, starts)"
| "try_servers Start cmd cfg starts (Suc si) =
     (let starts = (starts + 1) mod rf_n cfg
      in bindR (go_nth (rf_connected cfg) starts) (\<lambda>c.
         bindR (if c then go_nth (rf_rafts cfg) starts else Inr None) (\<lambda>rf.
           case rf of
             None \<Rightarrow> try_servers Start cmd cfg starts si
           | Some a \<Rightarrow> bindR (Start a cmd) (\<lambda>(index1, _, ok).
                if ok then Inr (index1, starts) else try_servers Start cmd cfg starts si))))"

fun await_commit :: "int \<Rightarrow> int \<Rightarrow> nat \<Rightarrow> raft_config list \<Rightarrow> bool result" where
  "await_commit index cmd expectedServers [] = Inr False"
| "await_commit index cmd expectedServers (cfg # looks) =
     bindR (nCommitted index cfg) (\<lambda>(nd, cmd1).
       if nd > 0 \<and> nd \<ge> expectedServers \<and> cmd1 = cmd then Inr True else await_commit index cmd expectedServers looks)"

fun one_loop :: "int \<Rightarrow> nat \<Rightarrow> bool \<Rightarrow> nat \<Rightarrow> one_round list \<Rightarrow> int result" where
  "one_loop cmd expectedServers retry starts [] = Inl Fatal"
| "one_loop cmd expectedServers retry starts (((cfg, Start), looks) # rounds) =
     bindR (try_servers Start cmd cfg starts (rf_n cfg)) (\<lambda>(index, starts).
       if index \<noteq> - 1
       then bindR (await_commit index cmd expectedServers looks) (\<lambda>done.
              if done then Inr index
              else if \<not> retry then Inl Fatal
              else one_loop cmd expectedServers retry starts rounds)
       else one_loop cmd expectedServers retry starts rounds)"

definition one :: "int \<Rightarrow> nat \<Rightarrow> bool \<Rightarrow> one_round list \<Rightarrow> int result" where
  "one cmd expectedServers retry rounds = one_loop cmd expectedServers retry 0 rounds"

section \<open>Checks of leaders and terms\<close>

fun leaders_of :: "GetState \<Rightarrow> nat list \<Rightarrow> raft_config \<Rightarrow> (int, nat list) gomap \<Rightarrow> (int, nat list) gomap result" where
  "leaders_of state [] cfg m = Inr m"
| "leaders_of state (i # is) cfg m =
     bindR (go_nth (rf_connected cfg) i) (\<lambda>c.
       if c then bindR (go_nth (rf_rafts cfg) i) (\<lambda>rf. bindR (state rf) (\<lambda>(trm, leader).
              leaders_of state is cfg (if leader then AList.update trm ((case map_of m trm of None \<Rightarrow> [] | Some l \<Rightarrow> l) @ [i]) m else m)))
       else leaders_of state is cfg m)"

fun last_term :: "(int, nat list) gomap \<Rightarrow> int \<Rightarrow> int result" where
  "last_term [] lt = Inr lt"
| "last_term ((trm, ls) # m) lt =
     (if length ls > 1 then Inl Fatal else last_term m (if trm > lt then trm else lt))"

text \<open>\<open>order\<close> is the order in which the loop over the map visits the terms; \<open>state k\<close> is what \<open>GetState\<close> answers in the round \<open>k\<close>.\<close>

fun one_leader_loop :: "((int, nat list) gomap \<Rightarrow> (int, nat list) gomap) \<Rightarrow> (nat \<Rightarrow> GetState) \<Rightarrow> nat \<Rightarrow> nat \<Rightarrow> raft_config \<Rightarrow> nat result" where
  "one_leader_loop order state k 0 cfg = Inl Fatal"
| "one_leader_loop order state k (Suc iters) cfg =
     bindR (leaders_of (state k) [0..<rf_n cfg] cfg []) (\<lambda>leaders.
     bindR (last_term (order leaders) (- 1)) (\<lambda>lastTermWithLeader.
       if length leaders \<noteq> 0
       then go_nth (case map_of leaders lastTermWithLeader of None \<Rightarrow> [] | Some ls \<Rightarrow> ls) 0
       else one_leader_loop order state (Suc k) iters cfg))"

definition checkOneLeader :: "((int, nat list) gomap \<Rightarrow> (int, nat list) gomap) \<Rightarrow> (nat \<Rightarrow> GetState) \<Rightarrow> raft_config \<Rightarrow> nat result" where
  "checkOneLeader order state cfg = one_leader_loop order state 0 10 cfg"

fun check_terms :: "GetState \<Rightarrow> nat list \<Rightarrow> raft_config \<Rightarrow> int \<Rightarrow> int result" where
  "check_terms state [] cfg trm = Inr trm"
| "check_terms state (i # is) cfg trm =
     bindR (go_nth (rf_connected cfg) i) (\<lambda>c.
       if c then bindR (go_nth (rf_rafts cfg) i) (\<lambda>rf. bindR (state rf) (\<lambda>(xterm, _).
              if trm = - 1 then check_terms state is cfg xterm
              else if trm \<noteq> xterm then Inl Fatal else check_terms state is cfg trm))
       else check_terms state is cfg trm)"

definition checkTerms :: "GetState \<Rightarrow> raft_config \<Rightarrow> int result" where
  "checkTerms state cfg = check_terms state [0..<rf_n cfg] cfg (- 1)"

fun check_no_leader :: "GetState \<Rightarrow> nat list \<Rightarrow> raft_config \<Rightarrow> unit result" where
  "check_no_leader state [] cfg = Inr ()"
| "check_no_leader state (i # is) cfg =
     bindR (go_nth (rf_connected cfg) i) (\<lambda>c.
       if c then bindR (go_nth (rf_rafts cfg) i) (\<lambda>rf. bindR (state rf) (\<lambda>(_, is_leader).
              if is_leader then Inl Fatal else check_no_leader state is cfg))
       else check_no_leader state is cfg)"

definition checkNoLeader :: "GetState \<Rightarrow> raft_config \<Rightarrow> unit result" where
  "checkNoLeader state cfg = check_no_leader state [0..<rf_n cfg] cfg"

section \<open>Setting up, counting and closing\<close>

fun start_rafts :: "(nat \<Rightarrow> string) \<Rightarrow> nat list \<Rightarrow> raft_config \<Rightarrow> raft_config result" where
  "start_rafts fresh [] cfg = Inr cfg"
| "start_rafts fresh (i # is) cfg =
     bindR (set_nth (rf_logs cfg) i Map.empty) (\<lambda>logs.
     bindR (start1 fresh i (cfg\<lparr>rf_logs := logs\<rparr>)) (start_rafts fresh is))"

fun connect_rafts :: "nat list \<Rightarrow> raft_config \<Rightarrow> raft_config result" where
  "connect_rafts [] cfg = Inr cfg"
| "connect_rafts (i # is) cfg = bindR (rf_connect i cfg) (connect_rafts is)"

definition make_raft_config :: "(nat \<Rightarrow> string) \<Rightarrow> nat \<Rightarrow> bool \<Rightarrow> raft_config result" where
  "make_raft_config fresh n unreliable =
     (let cfg = \<lparr>rf_net = MakeNetwork, rf_n = n, rf_rafts = replicate n None, rf_connected = replicate n False,
                 rf_saved = replicate n None, rf_endnames = replicate n None, rf_logs = replicate n Map.empty,
                 rf_maxIndex = 0, rf_maxIndex0 = 0, rf_rpcs0 = 0, rf_rand = 0, rf_alloc = 0\<rparr>;
          cfg = setunreliable unreliable cfg;
          cfg = cfg\<lparr>rf_net := LongDelays True (rf_net cfg)\<rparr>
      in bindR (start_rafts fresh [0..<n] cfg) (connect_rafts [0..<n]))"

definition rpcCount :: "nat \<Rightarrow> (nat \<rightharpoonup> ('o, 'v) Server) \<Rightarrow> raft_config \<Rightarrow> int result" where
  "rpcCount server store cfg = GetCount (IInt (int server)) store (rf_net cfg)"

definition rpcTotal :: "raft_config \<Rightarrow> int" where
  "rpcTotal cfg = GetTotalCount (rf_net cfg)"

definition rf_begin :: "raft_config \<Rightarrow> raft_config" where
  "rf_begin cfg = cfg\<lparr>rf_rpcs0 := rpcTotal cfg, rf_maxIndex0 := rf_maxIndex cfg\<rparr>"

text \<open>The end of a test that did not fail prints the number of servers, of calls and of agreements since its beginning.\<close>

definition rf_end :: "bool \<Rightarrow> int \<Rightarrow> raft_config \<Rightarrow> (nat \<times> int \<times> int) option result" where
  "rf_end failed elapsed cfg =
     bindR (checkTimeout failed elapsed) (\<lambda>_.
       Inr (if failed then None else Some (rf_n cfg, rpcTotal cfg - rf_rpcs0 cfg, rf_maxIndex cfg - rf_maxIndex0 cfg)))"

definition rf_cleanup :: "bool \<Rightarrow> int \<Rightarrow> raft_config \<Rightarrow> raft_config result" where
  "rf_cleanup failed elapsed cfg =
     bindR (Cleanup (rf_net cfg)) (\<lambda>rn. bindR (checkTimeout failed elapsed) (\<lambda>_. Inr (cfg\<lparr>rf_net := rn\<rparr>)))"

section \<open>What the reader accepts\<close>

text \<open>Two logs agree when they hold the same command wherever both hold one. A log has no gap when every index above one follows another.\<close>

definition logs_agree :: "(int \<rightharpoonup> int) list \<Rightarrow> bool" where
  "logs_agree logs \<longleftrightarrow> (\<forall>la \<in> set logs. \<forall>lb \<in> set logs. \<forall>x a b. la x = Some a \<and> lb x = Some b \<longrightarrow> a = b)"

definition log_gapless :: "(int \<rightharpoonup> int) \<Rightarrow> bool" where
  "log_gapless lg \<longleftrightarrow> (\<forall>x. x > 1 \<and> x \<in> dom lg \<longrightarrow> x - 1 \<in> dom lg)"

definition logs_inv :: "raft_config \<Rightarrow> bool" where
  "logs_inv cfg \<longleftrightarrow> logs_agree (rf_logs cfg) \<and> (\<forall>lg \<in> set (rf_logs cfg). log_gapless lg \<and> (\<forall>x \<in> dom lg. x \<le> rf_maxIndex cfg))"

lemma logs_agreeI:
  assumes agree: "logs_agree logs" and same: "\<And>lg old. lg \<in> set logs \<Longrightarrow> lg x = Some old \<Longrightarrow> old = v" and lg: "lg \<in> set logs"
  shows "logs_agree (logs[i := lg(x \<mapsto> v)])"
proof -
  have at: "y = x \<and> a = v \<or> (\<exists>l \<in> set logs. l y = Some a)" if "la \<in> set (logs[i := lg(x \<mapsto> v)])" "la y = Some a" for la y a
  proof -
    have "la = lg(x \<mapsto> v) \<or> la \<in> set logs"
      using that(1) set_update_subset_insert [of logs i "lg(x \<mapsto> v)"] by blast
    then show ?thesis
      using that(2) lg by (auto split: if_splits)
  qed
  have old: "a = b" if "l \<in> set logs" "l y = Some a" "l' \<in> set logs" "l' y = Some b" for l l' y a b
    using agree that unfolding logs_agree_def by blast
  show ?thesis
    unfolding logs_agree_def using at old same by metis
qed

lemma apply_msg_Inr:
  assumes "apply_msg i m cfg = Inr cfg'"
  shows "cfg' = cfg \<and> \<not> CommandValid m \<or> (\<exists>v. CommandValid m \<and> Command m = Some v \<and> i < length (rf_logs cfg)
    \<and> (\<forall>lg \<in> set (rf_logs cfg). \<forall>old. lg (CommandIndex m) = Some old \<longrightarrow> old = v)
    \<and> (CommandIndex m > 1 \<longrightarrow> CommandIndex m - 1 \<in> dom (rf_logs cfg ! i))
    \<and> cfg' = cfg\<lparr>rf_logs := (rf_logs cfg)[i := (rf_logs cfg ! i)(CommandIndex m \<mapsto> v)], rf_maxIndex := max (CommandIndex m) (rf_maxIndex cfg)\<rparr>)"
  using assms
  by (auto simp: apply_msg_def go_nth_def Let_def list_ex_iff max_def dom_def split: if_splits option.splits)

lemma apply_msg_inv:
  assumes ok: "apply_msg i m cfg = Inr cfg'" and I: "logs_inv cfg"
  shows "logs_inv cfg'"
  using apply_msg_Inr [OF ok]
proof (elim disjE exE conjE)
  fix v
  let ?x = "CommandIndex m" and ?lg = "rf_logs cfg ! i"
  assume i: "i < length (rf_logs cfg)" and same: "\<forall>lg \<in> set (rf_logs cfg). \<forall>old. lg ?x = Some old \<longrightarrow> old = v"
    and prev: "?x > 1 \<longrightarrow> ?x - 1 \<in> dom ?lg"
    and cfg': "cfg' = cfg\<lparr>rf_logs := (rf_logs cfg)[i := ?lg(?x \<mapsto> v)], rf_maxIndex := max ?x (rf_maxIndex cfg)\<rparr>"
  have lg: "?lg \<in> set (rf_logs cfg)"
    using i by simp
  have "logs_agree (rf_logs cfg')"
    unfolding cfg' using logs_agreeI [of "rf_logs cfg" ?x v ?lg i] I same lg by (simp add: logs_inv_def)
  moreover have "log_gapless (?lg(?x \<mapsto> v))"
    using I lg prev by (fastforce simp: logs_inv_def log_gapless_def)
  moreover have "lg = ?lg(?x \<mapsto> v) \<or> lg \<in> set (rf_logs cfg)" if "lg \<in> set (rf_logs cfg')" for lg
    using that set_update_subset_insert [of "rf_logs cfg" i "?lg(?x \<mapsto> v)"] unfolding cfg' by auto
  moreover have old: "log_gapless lg \<and> (\<forall>y \<in> dom lg. y \<le> max ?x (rf_maxIndex cfg))" if "lg \<in> set (rf_logs cfg)" for lg
    using I that unfolding logs_inv_def by (metis max.coboundedI2)
  moreover have "\<forall>y \<in> dom (?lg(?x \<mapsto> v)). y \<le> max ?x (rf_maxIndex cfg)"
    using old [OF lg] by (metis domIff fun_upd_other max.cobounded1)
  moreover have "rf_maxIndex cfg' = max ?x (rf_maxIndex cfg)"
    by (simp add: cfg')
  ultimately show ?thesis
    unfolding logs_inv_def by metis
qed (use I in simp)

lemma apply_all_inv: "apply_all ms cfg = Inr cfg' \<Longrightarrow> logs_inv cfg \<Longrightarrow> logs_inv cfg'"
  by (induction ms cfg rule: apply_all.induct) (auto simp: bindR_Inr_iff intro: apply_msg_inv)

text \<open>What \<open>nCommitted\<close> counts: the servers that hold the index.\<close>

definition holders :: "int \<Rightarrow> (int \<rightharpoonup> int) list \<Rightarrow> nat" where
  "holders index logs = length (filter (\<lambda>lg. lg index \<noteq> None) logs)"

definition hold_only :: "int \<Rightarrow> int \<Rightarrow> (int \<rightharpoonup> int) list \<Rightarrow> bool" where
  "hold_only index v logs \<longleftrightarrow> (\<forall>lg \<in> set logs. lg index = None \<or> lg index = Some v)"

lemma holders_simps [simp]:
  "holders index [] = 0"
  "holders index (lg # logs) = (if lg index = None then 0 else 1) + holders index logs"
  by (simp_all add: holders_def)

lemma hold_only_simps [simp]:
  "hold_only index v []"
  "hold_only index v (lg # logs) \<longleftrightarrow> (lg index = None \<or> lg index = Some v) \<and> hold_only index v logs"
  by (simp_all add: hold_only_def)

lemma n_committed_agree:
  "hold_only index v logs \<Longrightarrow> cnt > 0 \<longrightarrow> cmd = v \<Longrightarrow>
   n_committed index logs cnt cmd = Inr (cnt + holders index logs, if holders index logs = 0 then cmd else v)"
  by (induction logs arbitrary: cnt cmd) auto

lemma n_committed_Inr:
  assumes "n_committed index logs cnt cmd = Inr (nd, c)"
  shows "nd = cnt + holders index logs \<and> hold_only index c logs \<and> (cnt > 0 \<longrightarrow> c = cmd)"
  using assms
proof (induction logs arbitrary: cnt cmd)
  case (Cons lg logs)
  show ?case
  proof (cases "lg index")
    case (Some c1)
    then have "n_committed index logs (Suc cnt) c1 = Inr (nd, c)" "cnt = 0 \<or> cmd = c1"
      using Cons.prems by (auto split: if_splits)
    then show ?thesis
      using Cons.IH [of "Suc cnt" c1] Some by auto
  qed (use Cons in simp)
qed simp

lemma holders_pos: "holders index logs > 0 \<longleftrightarrow> (\<exists>lg \<in> set logs. lg index \<noteq> None)"
  by (induction logs) auto

lemma nCommitted_agree:
  assumes "logs_agree (rf_logs cfg)"
  shows "\<exists>v. hold_only index v (rf_logs cfg)
    \<and> nCommitted index cfg = Inr (holders index (rf_logs cfg), if holders index (rf_logs cfg) = 0 then - 1 else v)"
proof -
  obtain v where v: "hold_only index v (rf_logs cfg)"
    using assms unfolding logs_agree_def hold_only_def by (metis not_None_eq)
  then show ?thesis
    using n_committed_agree [OF v, of 0 "- 1"] by (auto simp: nCommitted_def)
qed

lemma nCommitted_Inr: "nCommitted index cfg = Inr (nd, c) \<Longrightarrow> nd = holders index (rf_logs cfg) \<and> hold_only index c (rf_logs cfg)"
  unfolding nCommitted_def using n_committed_Inr by fastforce

section \<open>What the checks conclude\<close>

lemma await_commit_True:
  "await_commit index cmd expectedServers looks = Inr True \<Longrightarrow>
   \<exists>cfg \<in> set looks. holders index (rf_logs cfg) > 0 \<and> holders index (rf_logs cfg) \<ge> expectedServers \<and> hold_only index cmd (rf_logs cfg)"
proof (induction looks)
  case (Cons cfg looks)
  obtain nd c where n: "nCommitted index cfg = Inr (nd, c)"
    and rest: "nd > 0 \<and> nd \<ge> expectedServers \<and> c = cmd \<or> await_commit index cmd expectedServers looks = Inr True"
    using Cons.prems by (auto simp: bindR_Inr_iff split: if_splits)
  then show ?case
    using nCommitted_Inr [OF n] Cons.IH by auto
qed simp

lemma one_loop_ok:
  assumes "one_loop cmd expectedServers retry starts rounds = Inr index"
  shows "index \<noteq> - 1 \<and> (\<exists>rd \<in> set rounds. \<exists>cfg \<in> set (snd rd).
    holders index (rf_logs cfg) > 0 \<and> holders index (rf_logs cfg) \<ge> expectedServers \<and> hold_only index cmd (rf_logs cfg))"
  using assms
proof (induction rounds arbitrary: starts)
  case (Cons rd rounds)
  obtain cfg Start looks where rd: "rd = ((cfg, Start), looks)"
    by (metis surj_pair)
  obtain ix st where t: "try_servers Start cmd cfg starts (rf_n cfg) = Inr (ix, st)"
    using Cons.prems rd by (auto simp: bindR_Inr_iff)
  consider (found) "ix \<noteq> - 1" "index = ix" "await_commit ix cmd expectedServers looks = Inr True"
    | (again) "one_loop cmd expectedServers retry st rounds = Inr index"
    using Cons.prems rd t by (auto simp: bindR_Inr_iff split: if_splits)
  then show ?case
  proof cases
    case found
    then show ?thesis
      using await_commit_True [OF found(3)] rd by auto
  next
    case again
    then show ?thesis
      using Cons.IH by auto
  qed
qed simp

text \<open>The leaders that one look collects: under a term, the connected servers that claim it, in order.\<close>

definition led :: "GetState \<Rightarrow> raft_config \<Rightarrow> int \<Rightarrow> nat \<Rightarrow> bool" where
  "led state cfg t i \<longleftrightarrow> rf_connected cfg ! i \<and> state (rf_rafts cfg ! i) = Inr (t, True)"

definition term_leaders :: "(int, nat list) gomap \<Rightarrow> int \<Rightarrow> nat list" where
  "term_leaders m t = (case map_of m t of None \<Rightarrow> [] | Some l \<Rightarrow> l)"

definition newest_leader :: "GetState \<Rightarrow> raft_config \<Rightarrow> int \<Rightarrow> nat \<Rightarrow> bool" where
  "newest_leader state cfg t i \<longleftrightarrow>
     i < rf_n cfg \<and> led state cfg t i \<and> (\<forall>u j. j < rf_n cfg \<and> led state cfg u j \<longrightarrow> u \<le> t \<and> (u = t \<longrightarrow> j = i))"

lemma leaders_of_Inr:
  assumes "leaders_of state is cfg m = Inr m'"
  shows "term_leaders m' t = term_leaders m t @ filter (led state cfg t) is"
  using assms
proof (induction "is" arbitrary: m)
  case (Cons i "is")
  obtain c where c: "go_nth (rf_connected cfg) i = Inr c" "c = rf_connected cfg ! i"
    using Cons.prems by (auto simp: bindR_Inr_iff go_nth_def split: if_splits)
  show ?case
  proof (cases c)
    case True
    obtain rf u leader where st: "go_nth (rf_rafts cfg) i = Inr rf" "rf = rf_rafts cfg ! i" "state rf = Inr (u, leader)"
      using Cons.prems c True by (auto simp: bindR_Inr_iff go_nth_def split: if_splits)
    define m1 where "m1 = (if leader then AList.update u (term_leaders m u @ [i]) m else m)"
    have "leaders_of state is cfg m1 = Inr m'"
      using Cons.prems c True st by (cases leader) (simp_all add: m1_def term_leaders_def)
    moreover have "term_leaders m1 t = term_leaders m t @ filter (led state cfg t) [i]"
      using c True st by (auto simp: m1_def term_leaders_def led_def update_conv')
    ultimately show ?thesis
      using Cons.IH [of m1] by simp
  next
    case False
    then have "\<not> led state cfg t i"
      using c by (simp add: led_def)
    then show ?thesis
      using Cons c False by simp
  qed
qed simp

lemma last_term_Inr:
  assumes "last_term m lt = Inr t"
  shows "(\<forall>(u, l) \<in> set m. length l \<le> 1 \<and> u \<le> t) \<and> lt \<le> t \<and> (t = lt \<or> t \<in> fst ` set m)"
  using assms
proof (induction m lt rule: last_term.induct)
  case (2 trm ls m lt)
  then show ?case
    by (force split: if_splits)
qed simp

lemma one_leader_round:
  assumes ls: "leaders_of state [0..<rf_n cfg] cfg [] = Inr leaders" and lt: "last_term (order leaders) (- 1) = Inr t"
    and order: "set (order leaders) = set leaders" and r: "go_nth (term_leaders leaders t) 0 = Inr i"
  shows "newest_leader state cfg t i"
proof -
  have L: "term_leaders leaders u = filter (led state cfg u) [0..<rf_n cfg]" for u
    using leaders_of_Inr [OF ls, of u] by (simp add: term_leaders_def)
  have only: "length (term_leaders leaders u) \<le> 1 \<and> u \<le> t" if "j \<in> set (term_leaders leaders u)" for u j
  proof -
    have "(u, term_leaders leaders u) \<in> set leaders"
      using that by (auto simp: term_leaders_def split: option.splits dest: map_of_SomeD)
    then show ?thesis
      using last_term_Inr [OF lt] order by auto
  qed
  have i: "i \<in> set (term_leaders leaders t)" "term_leaders leaders t ! 0 = i"
    using r by (auto simp: go_nth_def split: if_splits)
  then have one: "term_leaders leaders t = [i]"
    using only [OF i(1)] by (cases "term_leaders leaders t") auto
  have mem: "j \<in> set (term_leaders leaders u) \<longleftrightarrow> j < rf_n cfg \<and> led state cfg u j" for u j
    unfolding L by auto
  have "u \<le> t \<and> (u = t \<longrightarrow> j = i)" if "j < rf_n cfg" "led state cfg u j" for u j
    using that mem [of j u] only [of j u] one by auto
  then show ?thesis
    using i(1) mem [of i t] unfolding newest_leader_def by blast
qed

lemma one_leader_loop_Inr:
  assumes "one_leader_loop order state k iters cfg = Inr i" and order: "\<And>m. set (order m) = set m"
  shows "\<exists>k' t. k' < k + iters \<and> newest_leader (state k') cfg t i"
  using assms(1)
proof (induction iters arbitrary: k)
  case (Suc iters)
  obtain leaders t where L: "leaders_of (state k) [0..<rf_n cfg] cfg [] = Inr leaders" "last_term (order leaders) (- 1) = Inr t"
    and rest: "go_nth (term_leaders leaders t) 0 = Inr i \<or> one_leader_loop order state (Suc k) iters cfg = Inr i"
    using Suc.prems by (auto simp: bindR_Inr_iff term_leaders_def split: if_splits)
  from rest show ?case
  proof
    assume "go_nth (term_leaders leaders t) 0 = Inr i"
    then have "newest_leader (state k) cfg t i"
      using one_leader_round [where order = order, OF L order] by simp
    then show ?thesis
      by (metis less_add_same_cancel1 zero_less_Suc)
  qed (use Suc.IH [of "Suc k"] in simp)
qed simp

section \<open>The links follow the flags\<close>

definition rf_name :: "raft_config \<Rightarrow> nat \<times> nat \<Rightarrow> string" where
  "rf_name cfg p = the (rf_endnames cfg ! fst p) ! snd p"

definition rf_pairs :: "raft_config \<Rightarrow> (nat \<times> nat) set" where
  "rf_pairs cfg = {(a, b). a < rf_n cfg \<and> b < rf_n cfg \<and> rf_endnames cfg ! a \<noteq> None}"

definition switch_ends :: "iface set \<Rightarrow> bool \<Rightarrow> Network \<Rightarrow> Network" where
  "switch_ends A b rn = rn\<lparr>enabled := (\<lambda>x. if x \<in> A then b else enabled rn x)\<rparr>"

definition rf_set :: "(nat \<times> nat) set \<Rightarrow> bool \<Rightarrow> raft_config \<Rightarrow> raft_config" where
  "rf_set Q b cfg = cfg\<lparr>rf_net := switch_ends ((\<lambda>p. IStr (rf_name cfg p)) ` Q) b (rf_net cfg)\<rparr>"

definition rf_shape :: "raft_config \<Rightarrow> bool" where
  "rf_shape cfg \<longleftrightarrow> length (rf_connected cfg) = rf_n cfg \<and> length (rf_rafts cfg) = rf_n cfg \<and> length (rf_saved cfg) = rf_n cfg
     \<and> length (rf_endnames cfg) = rf_n cfg \<and> length (rf_logs cfg) = rf_n cfg
     \<and> (\<forall>a < rf_n cfg. \<forall>r. rf_endnames cfg ! a = Some r \<longrightarrow> length r = rf_n cfg)"

text \<open>
  The invariant of the harness: the ends of the current instances have different names, all drawn before; each leads to its server and is enabled exactly
  when both servers are flagged as connected; a server that is flagged has ends; a server is registered exactly when an instance runs.
\<close>

definition rf_inv :: "(nat \<Rightarrow> string) \<Rightarrow> raft_config \<Rightarrow> bool" where
  "rf_inv fresh cfg \<longleftrightarrow> rf_shape cfg \<and> inj_on (rf_name cfg) (rf_pairs cfg) \<and> rf_name cfg ` rf_pairs cfg \<subseteq> fresh ` {..<rf_rand cfg}
     \<and> ends (rf_net cfg) = IStr ` fresh ` {..<rf_rand cfg}
     \<and> (\<forall>p \<in> rf_pairs cfg. connections (rf_net cfg) (IStr (rf_name cfg p)) = Some (IInt (int (snd p)))
           \<and> enabled (rf_net cfg) (IStr (rf_name cfg p)) = (rf_connected cfg ! fst p \<and> rf_connected cfg ! snd p))
     \<and> (\<forall>a < rf_n cfg. rf_connected cfg ! a \<longrightarrow> rf_endnames cfg ! a \<noteq> None)
     \<and> (\<forall>a < rf_n cfg. servers (rf_net cfg) (IInt (int a)) = None \<longleftrightarrow> rf_rafts cfg ! a = None)"

lemma switch_ends_simps [simp]:
  "ends (switch_ends A b rn) = ends rn" "servers (switch_ends A b rn) = servers rn" "connections (switch_ends A b rn) = connections rn"
  "enabled (switch_ends A b rn) x = (if x \<in> A then b else enabled rn x)" "switch_ends {} b rn = rn"
  by (simp_all add: switch_ends_def)

lemma switch_ends_twice: "switch_ends A b (switch_ends B b rn) = switch_ends (B \<union> A) b rn"
  unfolding switch_ends_def by (rule Network.equality) auto

lemma rf_set_simps [simp]:
  "rf_n (rf_set Q b cfg) = rf_n cfg" "rf_endnames (rf_set Q b cfg) = rf_endnames cfg" "rf_connected (rf_set Q b cfg) = rf_connected cfg"
  "rf_rafts (rf_set Q b cfg) = rf_rafts cfg" "rf_saved (rf_set Q b cfg) = rf_saved cfg" "rf_logs (rf_set Q b cfg) = rf_logs cfg"
  "rf_rand (rf_set Q b cfg) = rf_rand cfg" "rf_name (rf_set Q b cfg) = rf_name cfg" "rf_pairs (rf_set Q b cfg) = rf_pairs cfg"
  "ends (rf_net (rf_set Q b cfg)) = ends (rf_net cfg)" "servers (rf_net (rf_set Q b cfg)) = servers (rf_net cfg)"
  "connections (rf_net (rf_set Q b cfg)) = connections (rf_net cfg)" "rf_shape (rf_set Q b cfg) = rf_shape cfg"
  by (simp_all add: rf_set_def rf_name_def rf_pairs_def rf_shape_def fun_eq_iff)

lemma rf_set_empty [simp]: "rf_set {} b cfg = cfg"
  by (simp add: rf_set_def)

lemma rf_set_twice: "rf_set Q b (rf_set R b cfg) = rf_set (R \<union> Q) b cfg"
  by (simp add: rf_set_def rf_name_def image_Un switch_ends_twice)

lemma rf_enable_set: "rf_enable (rf_name cfg p) b cfg = rf_set {p} b cfg"
  by (simp add: rf_enable_def rf_set_def switch_ends_def Enable_def fun_upd_def)

lemma rf_endname_ok: "rf_shape cfg \<Longrightarrow> (a, b) \<in> rf_pairs cfg \<Longrightarrow> rf_endname cfg a b = Inr (rf_name cfg (a, b))"
  by (auto simp: rf_shape_def rf_endname_def go_nth_def rf_name_def rf_pairs_def)

lemma rf_enabled_set:
  assumes "inj_on (rf_name cfg) (rf_pairs cfg)" "p \<in> rf_pairs cfg" "Q \<subseteq> rf_pairs cfg"
  shows "enabled (rf_net (rf_set Q b cfg)) (IStr (rf_name cfg p)) = (if p \<in> Q then b else enabled (rf_net cfg) (IStr (rf_name cfg p)))"
proof -
  have "rf_name cfg p \<in> rf_name cfg ` Q \<longleftrightarrow> p \<in> Q"
    using assms by (rule inj_on_image_mem_iff)
  moreover have "IStr (rf_name cfg p) \<in> (\<lambda>p. IStr (rf_name cfg p)) ` Q \<longleftrightarrow> rf_name cfg p \<in> rf_name cfg ` Q"
    by auto
  ultimately show ?thesis
    by (simp add: rf_set_def)
qed

lemma rf_attach_ok:
  assumes "rf_shape cfg" "set js \<subseteq> {..<rf_n cfg}" "\<And>j. j \<in> set js \<Longrightarrow> rf_connected cfg ! j \<Longrightarrow> way j \<in> rf_pairs cfg"
  shows "rf_attach way js cfg = Inr (rf_set {way j | j. j \<in> set js \<and> rf_connected cfg ! j} True cfg)"
  using assms
proof (induction js arbitrary: cfg)
  case (Cons j js)
  have c: "go_nth (rf_connected cfg) j = Inr (rf_connected cfg ! j)"
    using Cons.prems by (simp add: go_nth_def rf_shape_def)
  show ?case
  proof (cases "rf_connected cfg ! j")
    case True
    let ?c = "rf_set {way j} True cfg"
    have "(case way j of (a, b) \<Rightarrow> rf_endname cfg a b) = Inr (rf_name cfg (way j))"
      using rf_endname_ok [OF Cons.prems(1), of "fst (way j)" "snd (way j)"] Cons.prems(3) [of j] True by (simp add: case_prod_unfold)
    then have "rf_attach way (j # js) cfg = rf_attach way js ?c"
      using c True by (simp add: rf_enable_set)
    also have "\<dots> = Inr (rf_set {way j | j. j \<in> set js \<and> rf_connected cfg ! j} True ?c)"
      using Cons.IH [of ?c] Cons.prems by simp
    also have "\<dots> = Inr (rf_set {way j' | j'. j' \<in> set (j # js) \<and> rf_connected cfg ! j'} True cfg)"
      unfolding rf_set_twice using True by (intro arg_cong [where f = "\<lambda>Q. Inr (rf_set Q True cfg)"]) auto
    finally show ?thesis .
  next
    case False
    then have "{way j' | j'. j' \<in> set (j # js) \<and> rf_connected cfg ! j'} = {way j | j. j \<in> set js \<and> rf_connected cfg ! j}"
      by auto
    then show ?thesis
      using Cons c False by simp
  qed
qed simp

lemma rf_detach_ok:
  assumes "rf_shape cfg" "\<And>j. j \<in> set js \<Longrightarrow> fst (way j) < rf_n cfg \<and> snd (way j) < rf_n cfg"
  shows "rf_detach way js cfg = Inr (rf_set (way ` set js \<inter> rf_pairs cfg) False cfg)"
  using assms
proof (induction js arbitrary: cfg)
  case (Cons j js)
  obtain a b where w: "way j = (a, b)" "a < rf_n cfg" "b < rf_n cfg"
    using Cons.prems(2) [of j] by (metis fst_conv list.set_intros(1) snd_conv surj_pair)
  have r: "go_nth (rf_endnames cfg) a = Inr (rf_endnames cfg ! a)"
    using Cons.prems(1) w by (simp add: go_nth_def rf_shape_def)
  show ?case
  proof (cases "rf_endnames cfg ! a = None")
    case True
    then have "(a, b) \<notin> rf_pairs cfg"
      by (simp add: rf_pairs_def)
    then show ?thesis
      using Cons w r True by simp
  next
    case False
    then have p: "(a, b) \<in> rf_pairs cfg"
      using w by (simp add: rf_pairs_def)
    let ?c = "rf_set {(a, b)} False cfg"
    have "rf_detach way (j # js) cfg = rf_detach way js ?c"
      using rf_endname_ok [OF Cons.prems(1) p] r w False by (simp add: rf_enable_set del: not_None_eq)
    also have "\<dots> = Inr (rf_set (way ` set js \<inter> rf_pairs cfg) False ?c)"
      using Cons.IH [of ?c] Cons.prems by simp
    finally show ?thesis
      using w p by (simp add: rf_set_twice)
  qed
qed simp

lemma rf_flags_simps [simp]:
  "rf_name (cfg\<lparr>rf_connected := cs\<rparr>) = rf_name cfg" "rf_pairs (cfg\<lparr>rf_connected := cs\<rparr>) = rf_pairs cfg"
  by (simp_all add: rf_name_def rf_pairs_def fun_eq_iff)

lemma rf_switch_inv:
  assumes I: "rf_inv fresh cfg" and cs: "length cs = rf_n cfg" "\<And>a. a < rf_n cfg \<Longrightarrow> cs ! a \<Longrightarrow> rf_endnames cfg ! a \<noteq> None"
    and Q: "Q \<subseteq> rf_pairs cfg"
    and flags: "\<And>a c. (a, c) \<in> rf_pairs cfg \<Longrightarrow> (if (a, c) \<in> Q then b else rf_connected cfg ! a \<and> rf_connected cfg ! c) = (cs ! a \<and> cs ! c)"
  shows "rf_inv fresh (rf_set Q b (cfg\<lparr>rf_connected := cs\<rparr>))"
proof -
  let ?c = "cfg\<lparr>rf_connected := cs\<rparr>"
  have "rf_shape ?c"
    using I cs by (auto simp: rf_inv_def rf_shape_def)
  moreover have "enabled (rf_net (rf_set Q b ?c)) (IStr (rf_name cfg p)) = (cs ! fst p \<and> cs ! snd p)" if "p \<in> rf_pairs cfg" for p
    using rf_enabled_set [of ?c p Q b] flags [of "fst p" "snd p"] that I Q by (simp add: rf_inv_def split: if_splits)
  ultimately show ?thesis
    using I cs by (simp add: rf_inv_def)
qed

lemma rf_connect_ok:
  assumes I: "rf_inv fresh cfg" and i: "i < rf_n cfg" "rf_endnames cfg ! i \<noteq> None"
  shows "\<exists>cfg'. rf_connect i cfg = Inr cfg' \<and> rf_inv fresh cfg' \<and> rf_n cfg' = rf_n cfg \<and> rf_connected cfg' = (rf_connected cfg)[i := True]
    \<and> rf_endnames cfg' = rf_endnames cfg \<and> rf_rafts cfg' = rf_rafts cfg \<and> rf_logs cfg' = rf_logs cfg"
proof -
  let ?cs = "(rf_connected cfg)[i := True]" and ?js = "[0..<rf_n cfg]"
  let ?c = "cfg\<lparr>rf_connected := ?cs\<rparr>"
  let ?A = "{(i, j) | j. j \<in> set ?js \<and> ?cs ! j}" and ?B = "{(j, i) | j. j \<in> set ?js \<and> ?cs ! j}"
  have len: "length (rf_connected cfg) = rf_n cfg"
    using I by (simp add: rf_inv_def rf_shape_def)
  have sh: "rf_shape ?c"
    using I by (simp add: rf_inv_def rf_shape_def)
  have named: "rf_endnames cfg ! a \<noteq> None" if "a < rf_n cfg" "?cs ! a" for a
    using that i I len by (cases "a = i") (auto simp: rf_inv_def)
  then have ways: "(i, j) \<in> rf_pairs cfg" "(j, i) \<in> rf_pairs cfg" if "j \<in> set ?js" "?cs ! j" for j
    using that i by (auto simp: rf_pairs_def)
  have out: "rf_attach (\<lambda>j. (i, j)) ?js ?c = Inr (rf_set ?A True ?c)"
    using rf_attach_ok [OF sh, of ?js "\<lambda>j. (i, j)"] ways by (auto simp: atLeast0LessThan)
  have "rf_attach (\<lambda>j. (j, i)) ?js (rf_set ?A True ?c) = Inr (rf_set ?B True (rf_set ?A True ?c))"
    using rf_attach_ok [of "rf_set ?A True ?c" ?js "\<lambda>j. (j, i)"] sh ways by (auto simp: atLeast0LessThan)
  then have run: "rf_connect i cfg = Inr (rf_set (?A \<union> ?B) True ?c)"
    using out i len by (simp add: rf_connect_def set_nth_def rf_set_twice)
  have "rf_inv fresh (rf_set (?A \<union> ?B) True ?c)"
  proof (rule rf_switch_inv [OF I])
    show "?A \<union> ?B \<subseteq> rf_pairs cfg"
      using ways by auto
    show "(if (a, c) \<in> ?A \<union> ?B then True else rf_connected cfg ! a \<and> rf_connected cfg ! c) = (?cs ! a \<and> ?cs ! c)"
      if "(a, c) \<in> rf_pairs cfg" for a c
      using that i len by (auto simp: rf_pairs_def nth_list_update)
  qed (use len named in auto)
  then show ?thesis
    using run by auto
qed

lemma rf_disconnect_ok:
  assumes I: "rf_inv fresh cfg" and i: "i < rf_n cfg"
  shows "\<exists>cfg'. rf_disconnect i cfg = Inr cfg' \<and> rf_inv fresh cfg' \<and> rf_n cfg' = rf_n cfg \<and> rf_connected cfg' = (rf_connected cfg)[i := False]
    \<and> rf_endnames cfg' = rf_endnames cfg \<and> rf_rafts cfg' = rf_rafts cfg \<and> rf_logs cfg' = rf_logs cfg \<and> rf_saved cfg' = rf_saved cfg \<and> rf_rand cfg' = rf_rand cfg"
proof -
  let ?cs = "(rf_connected cfg)[i := False]" and ?js = "[0..<rf_n cfg]"
  let ?c = "cfg\<lparr>rf_connected := ?cs\<rparr>"
  let ?A = "(\<lambda>j. (i, j)) ` set ?js \<inter> rf_pairs cfg" and ?B = "(\<lambda>j. (j, i)) ` set ?js \<inter> rf_pairs cfg"
  have len: "length (rf_connected cfg) = rf_n cfg" and sh: "rf_shape ?c"
    using I by (simp_all add: rf_inv_def rf_shape_def)
  have out: "rf_detach (\<lambda>j. (i, j)) ?js ?c = Inr (rf_set ?A False ?c)"
    using rf_detach_ok [OF sh, of ?js "\<lambda>j. (i, j)"] i by simp
  have "rf_detach (\<lambda>j. (j, i)) ?js (rf_set ?A False ?c) = Inr (rf_set ?B False (rf_set ?A False ?c))"
    using rf_detach_ok [of "rf_set ?A False ?c" ?js "\<lambda>j. (j, i)"] sh i by simp
  then have run: "rf_disconnect i cfg = Inr (rf_set (?A \<union> ?B) False ?c)"
    using out i len by (simp add: rf_disconnect_def set_nth_def rf_set_twice)
  have "rf_inv fresh (rf_set (?A \<union> ?B) False ?c)"
  proof (rule rf_switch_inv [OF I])
    show "rf_endnames cfg ! a \<noteq> None" if "a < rf_n cfg" "?cs ! a" for a
      using that I len by (cases "a = i") (auto simp: rf_inv_def)
    show "(if (a, c) \<in> ?A \<union> ?B then False else rf_connected cfg ! a \<and> rf_connected cfg ! c) = (?cs ! a \<and> ?cs ! c)"
      if "(a, c) \<in> rf_pairs cfg" for a c
      using that i len by (auto simp: rf_pairs_def nth_list_update)
  qed (use len in auto)
  then show ?thesis
    using run by auto
qed

lemma crash1_ok:
  assumes I: "rf_inv fresh cfg" and i: "i < rf_n cfg"
  shows "\<exists>cfg'. crash1 i cfg = Inr cfg' \<and> rf_inv fresh cfg' \<and> rf_n cfg' = rf_n cfg \<and> rf_connected cfg' = (rf_connected cfg)[i := False]
    \<and> rf_endnames cfg' = rf_endnames cfg \<and> rf_rafts cfg' = (rf_rafts cfg)[i := None] \<and> rf_logs cfg' = rf_logs cfg \<and> rf_rand cfg' = rf_rand cfg
    \<and> rf_saved cfg' = (rf_saved cfg)[i := map_option (\<lambda>ps. \<lparr>raftstate = raftstate ps, snapshot = []\<rparr>) (rf_saved cfg ! i)]"
proof -
  obtain c where c: "rf_disconnect i cfg = Inr c" "rf_inv fresh c" "rf_n c = rf_n cfg" "rf_connected c = (rf_connected cfg)[i := False]"
    "rf_endnames c = rf_endnames cfg" "rf_rafts c = rf_rafts cfg" "rf_logs c = rf_logs cfg" "rf_saved c = rf_saved cfg" "rf_rand c = rf_rand cfg"
    using rf_disconnect_ok [OF I i] by blast
  let ?sv = "(rf_saved c)[i := map_option (\<lambda>ps. \<lparr>raftstate = raftstate ps, snapshot = []\<rparr>) (rf_saved c ! i)]"
  let ?c = "c\<lparr>rf_net := DeleteServer (IInt (int i)) (rf_net c), rf_rafts := (rf_rafts c)[i := None], rf_saved := ?sv\<rparr>"
  have sh: "rf_shape c"
    using c(2) by (simp add: rf_inv_def)
  then have len: "i < length (rf_saved c)" "i < length (rf_rafts c)"
    using i c(3) by (simp_all add: rf_shape_def)
  have "crash1 i cfg = Inr ?c"
    using c(1) len by (simp add: crash1_def go_nth_def set_nth_def Let_def option.map_comp comp_def SaveRaftState_def ReadRaftState_def MakePersister_def)
  moreover have "rf_name ?c = rf_name c" "rf_pairs ?c = rf_pairs c"
    by (simp_all add: rf_name_def rf_pairs_def fun_eq_iff)
  moreover have "rf_shape ?c"
    using sh by (simp add: rf_shape_def)
  ultimately have "crash1 i cfg = Inr ?c \<and> rf_inv fresh ?c"
    using c(2,3) len i by (auto simp: rf_inv_def DeleteServer_def nth_list_update)
  then show ?thesis
    using c(3-) by auto
qed

text \<open>The ends are made as in the harness of the key/value exercise.\<close>

lemma rf_make_ends_eq:
  "cf_net K = rf_net cfg \<Longrightarrow>
   rf_make_ends j es cfg = bindR (make_ends j es K) (\<lambda>K'. Inr (cfg\<lparr>rf_net := cf_net K', rf_rand := rf_rand cfg + length es\<rparr>))"
proof (induction es arbitrary: j cfg K)
  case (Cons e es)
  show ?case
  proof (cases "MakeEnd (IStr e) (rf_net cfg)")
    case (Inr rn)
    let ?rn = "Connect (IStr e) (IInt (int j)) rn"
    show ?thesis
      using Cons.IH [of "K\<lparr>cf_net := ?rn, cf_rand := Suc (cf_rand K)\<rparr>" "cfg\<lparr>rf_net := ?rn, rf_rand := Suc (rf_rand cfg)\<rparr>" "Suc j"] Inr Cons.prems
      by simp
  qed (use Cons.prems in simp)
qed simp

definition net0 :: "raft_config \<Rightarrow> config" where
  "net0 cfg = \<lparr>cf_net = rf_net cfg, cf_n = 0, cf_servers = [], cf_saved = [], cf_endnames = [], cf_clerks = Map.empty, cf_nextClientId = 0, cf_maxraftstate = 0, cf_rpcs0 = 0, cf_ops = 0,
     cf_store = (\<lambda>_. MakePersister), cf_inst = Map.empty, cf_alloc = 0, cf_rand = 0\<rparr>"

lemma rf_make_ends_ok:
  assumes "distinct es" "IStr ` set es \<inter> ends (rf_net cfg) = {}"
  shows "\<exists>rn. rf_make_ends 0 es cfg = Inr (cfg\<lparr>rf_net := rn, rf_rand := rf_rand cfg + length es\<rparr>)
     \<and> ends rn = ends (rf_net cfg) \<union> IStr ` set es \<and> servers rn = servers (rf_net cfg)
     \<and> (\<forall>x. x \<notin> IStr ` set es \<longrightarrow> connections rn x = connections (rf_net cfg) x \<and> enabled rn x = enabled (rf_net cfg) x)
     \<and> (\<forall>k < length es. connections rn (IStr (es ! k)) = Some (IInt (int k)) \<and> \<not> enabled rn (IStr (es ! k)))"
proof -
  have n: "cf_net (net0 cfg) = rf_net cfg"
    by (simp add: net0_def)
  obtain rn where "make_ends 0 es (net0 cfg) = Inr ((net0 cfg)\<lparr>cf_net := rn, cf_rand := cf_rand (net0 cfg) + length es\<rparr>)"
    and "ends rn = ends (rf_net cfg) \<union> IStr ` set es" "servers rn = servers (rf_net cfg)"
    "\<forall>x. x \<notin> IStr ` set es \<longrightarrow> connections rn x = connections (rf_net cfg) x \<and> enabled rn x = enabled (rf_net cfg) x"
    "\<forall>k < length es. connections rn (IStr (es ! k)) = Some (IInt (int k)) \<and> \<not> enabled rn (IStr (es ! k))"
    using make_ends_ok [OF assms(1), of "net0 cfg" 0] assms(2) n by auto
  then show ?thesis
    using rf_make_ends_eq [OF n, of 0 es] by (intro exI [of _ rn]) simp
qed

text \<open>An instance that starts gets a row of new names; the names of all rows stay different.\<close>

lemma new_row:
  assumes I: "rf_inv fresh c" and f: "inj fresh" and i: "i < rf_n c"
    and c2: "rf_endnames c2 = (rf_endnames c)[i := Some (map fresh [rf_rand c..<rf_rand c + rf_n c])]" "rf_n c2 = rf_n c"
  shows "\<And>p. snd p < rf_n c \<Longrightarrow> rf_name c2 p = (if fst p = i then fresh (rf_rand c + snd p) else rf_name c p)"
    and "\<And>p. p \<in> rf_pairs c2 \<longleftrightarrow> (if fst p = i then snd p < rf_n c else p \<in> rf_pairs c)"
    and "\<And>p. p \<in> rf_pairs c \<Longrightarrow> fst p < rf_n c \<and> snd p < rf_n c"
    and "\<And>p. p \<in> rf_pairs c \<Longrightarrow> \<exists>m < rf_rand c. rf_name c p = fresh m"
    and "inj_on (rf_name c2) (rf_pairs c2)"
proof -
  let ?n = "rf_n c" and ?r = "rf_rand c"
  have len: "i < length (rf_endnames c)"
    using I i by (simp add: rf_inv_def rf_shape_def)
  have nm: "rf_name c2 p = (if fst p = i then fresh (?r + snd p) else rf_name c p)" if "snd p < ?n" for p
    using that len by (simp add: rf_name_def c2 nth_list_update)
  have pairs: "p \<in> rf_pairs c2 \<longleftrightarrow> (if fst p = i then snd p < ?n else p \<in> rf_pairs c)" for p
    using len i by (auto simp: rf_pairs_def c2 nth_list_update)
  have bound: "p \<in> rf_pairs c \<Longrightarrow> fst p < ?n \<and> snd p < ?n" for p
    by (auto simp: rf_pairs_def)
  have old: "p \<in> rf_pairs c \<Longrightarrow> \<exists>m < ?r. rf_name c p = fresh m" for p
    using I by (auto simp: rf_inv_def)
  have inj: "inj_on (rf_name c2) (rf_pairs c2)"
  proof (rule inj_onI)
    fix p q assume pq: "p \<in> rf_pairs c2" "q \<in> rf_pairs c2" "rf_name c2 p = rf_name c2 q"
    have clash: "fresh (?r + x) \<noteq> rf_name c p'" if "p' \<in> rf_pairs c" for x p'
      using old [OF that] f by (auto dest: injD)
    have "fst p = i \<longleftrightarrow> fst q = i"
      using pq pairs nm [of p] nm [of q] bound [of p] bound [of q] clash [of p "snd q"] clash [of q "snd p"] by (auto split: if_splits)
    then consider "fst p = i" "fst q = i" "fresh (?r + snd p) = fresh (?r + snd q)"
      | "p \<in> rf_pairs c" "q \<in> rf_pairs c" "rf_name c p = rf_name c q"
      using pq pairs [of p] pairs [of q] nm [of p] nm [of q] bound [of p] bound [of q] by (auto split: if_splits)
    then show "p = q"
    proof cases
      case 1
      then show ?thesis
        using injD [OF f, of "?r + snd p" "?r + snd q"] by (simp add: prod_eq_iff)
    next
      case 2
      have "inj_on (rf_name c) (rf_pairs c)"
        using I by (simp add: rf_inv_def)
      then show ?thesis
        using 2 by (simp add: inj_on_def)
    qed
  qed
  show "\<And>p. snd p < ?n \<Longrightarrow> rf_name c2 p = (if fst p = i then fresh (?r + snd p) else rf_name c p)"
    "\<And>p. p \<in> rf_pairs c2 \<longleftrightarrow> (if fst p = i then snd p < ?n else p \<in> rf_pairs c)"
    "\<And>p. p \<in> rf_pairs c \<Longrightarrow> fst p < ?n \<and> snd p < ?n" "\<And>p. p \<in> rf_pairs c \<Longrightarrow> \<exists>m < ?r. rf_name c p = fresh m" "inj_on (rf_name c2) (rf_pairs c2)"
    by (fact nm pairs bound old inj)+
qed

lemma new_row_drawn:
  assumes I: "rf_inv fresh c" and f: "inj fresh" and i: "i < rf_n c"
    and c2: "rf_endnames c2 = (rf_endnames c)[i := Some (map fresh [rf_rand c..<rf_rand c + rf_n c])]" "rf_n c2 = rf_n c"
  shows "rf_name c2 ` rf_pairs c2 \<subseteq> fresh ` {..<rf_rand c + rf_n c}"
proof (rule image_subsetI)
  fix p assume p: "p \<in> rf_pairs c2"
  note nm = new_row(1) [OF assms] and pairs = new_row(2) [OF assms]
  have "\<exists>m < rf_rand c + rf_n c. rf_name c2 p = fresh m"
  proof (cases "fst p = i")
    case True
    then show ?thesis
      using p pairs [of p] nm [of p] by (intro exI [of _ "rf_rand c + snd p"]) simp
  next
    case False
    then show ?thesis
      using p pairs [of p] nm [of p] new_row(3,4) [OF assms, of p] trans_less_add1 by metis
  qed
  then show "rf_name c2 p \<in> fresh ` {..<rf_rand c + rf_n c}"
    by auto
qed

lemma new_row_links:
  assumes I: "rf_inv fresh c" and f: "inj fresh" and i: "i < rf_n c"
    and c2: "rf_endnames c2 = (rf_endnames c)[i := Some (map fresh [rf_rand c..<rf_rand c + rf_n c])]" "rf_n c2 = rf_n c"
    and off: "\<not> rf_connected c ! i" and p: "p \<in> rf_pairs c2"
    and rest: "\<forall>x. x \<notin> IStr ` fresh ` {rf_rand c..<rf_rand c + rf_n c} \<longrightarrow> connections rn x = connections (rf_net c) x \<and> enabled rn x = enabled (rf_net c) x"
    and row: "\<forall>k < rf_n c. connections rn (IStr (fresh (rf_rand c + k))) = Some (IInt (int k)) \<and> \<not> enabled rn (IStr (fresh (rf_rand c + k)))"
  shows "connections rn (IStr (rf_name c2 p)) = Some (IInt (int (snd p)))
    \<and> enabled rn (IStr (rf_name c2 p)) = (rf_connected c ! fst p \<and> rf_connected c ! snd p)"
proof (cases "fst p = i")
  case True
  then show ?thesis
    using p new_row(1,2) [OF I f i c2, of p] row off by auto
next
  case False
  then have q: "p \<in> rf_pairs c" "rf_name c2 p = rf_name c p"
    using p new_row(1-3) [OF I f i c2, of p] by auto
  then have "IStr (rf_name c p) \<notin> IStr ` fresh ` {rf_rand c..<rf_rand c + rf_n c}"
    using new_row(4) [OF I f i c2 q(1)] by (auto simp: inj_eq [OF f])
  then show ?thesis
    using rest I q by (simp add: rf_inv_def)
qed

lemma start1_ok:
  assumes I: "rf_inv fresh cfg" and f: "inj fresh" and i: "i < rf_n cfg"
  shows "\<exists>cfg'. start1 fresh i cfg = Inr cfg' \<and> rf_inv fresh cfg' \<and> rf_n cfg' = rf_n cfg \<and> rf_connected cfg' = (rf_connected cfg)[i := False]
    \<and> (\<exists>r. rf_endnames cfg' = (rf_endnames cfg)[i := Some r]) \<and> (\<exists>a. rf_rafts cfg' = (rf_rafts cfg)[i := Some a]) \<and> rf_logs cfg' = rf_logs cfg
    \<and> rf_saved cfg' = (rf_saved cfg)[i := Some \<lparr>raftstate = (case rf_saved cfg ! i of None \<Rightarrow> [] | Some ps \<Rightarrow> raftstate ps), snapshot = []\<rparr>]"
proof -
  obtain c where c: "crash1 i cfg = Inr c" "rf_inv fresh c" "rf_n c = rf_n cfg" "rf_connected c = (rf_connected cfg)[i := False]"
    "rf_endnames c = rf_endnames cfg" "rf_rafts c = (rf_rafts cfg)[i := None]" "rf_logs c = rf_logs cfg" "rf_rand c = rf_rand cfg"
    "rf_saved c = (rf_saved cfg)[i := map_option (\<lambda>ps. \<lparr>raftstate = raftstate ps, snapshot = []\<rparr>) (rf_saved cfg ! i)]"
    using crash1_ok [OF I i] by blast
  let ?n = "rf_n c" and ?r = "rf_rand c"
  let ?row = "map fresh [?r..<?r + ?n]"
  let ?c1 = "c\<lparr>rf_endnames := (rf_endnames c)[i := Some ?row]\<rparr>"
  have sh: "rf_shape c"
    using c(2) by (simp add: rf_inv_def)
  then have len: "i < length (rf_endnames c)" "i < length (rf_saved c)" "i < length (rf_rafts c)" "i < ?n" "length (rf_connected c) = ?n"
    using i c(3) by (simp_all add: rf_shape_def)
  have row: "distinct ?row" "length ?row = ?n" "set ?row = fresh ` {?r..<?r + ?n}"
    using f by (auto simp: distinct_map inj_on_def)
  have new: "IStr ` set ?row \<inter> ends (rf_net ?c1) = {}"
    using c(2) f row(3) by (auto simp: rf_inv_def dest: injD)
  obtain rn where rn: "rf_make_ends 0 ?row ?c1 = Inr (?c1\<lparr>rf_net := rn, rf_rand := ?r + ?n\<rparr>)" "ends rn = ends (rf_net c) \<union> IStr ` set ?row"
    "servers rn = servers (rf_net c)" "\<forall>x. x \<notin> IStr ` set ?row \<longrightarrow> connections rn x = connections (rf_net c) x \<and> enabled rn x = enabled (rf_net c) x"
    "\<forall>k < ?n. connections rn (IStr (?row ! k)) = Some (IInt (int k)) \<and> \<not> enabled rn (IStr (?row ! k))"
    using rf_make_ends_ok [OF row(1) new] row(2) by auto
  let ?a = "rf_alloc c" and ?ps = "case rf_saved c ! i of None \<Rightarrow> MakePersister | Some ps \<Rightarrow> ps"
  let ?c2 = "?c1\<lparr>rf_net := AddServer (IInt (int i)) (Suc ?a) rn, rf_rand := ?r + ?n, rf_saved := (rf_saved c)[i := Some ?ps],
      rf_rafts := (rf_rafts c)[i := Some ?a], rf_alloc := Suc (Suc ?a)\<rparr>"
  have run: "start1 fresh i cfg = Inr ?c2"
    using c(1) rn(1) len by (simp add: start1_def Let_def go_nth_def set_nth_def cong: option.case_cong)
  have c2: "rf_endnames ?c2 = (rf_endnames c)[i := Some ?row]" "rf_n ?c2 = ?n"
    by simp_all
  have "\<not> rf_connected c ! i"
    using c(3,4) i len(5) by simp
  then have links: "connections rn (IStr (rf_name ?c2 p)) = Some (IInt (int (snd p)))
     \<and> enabled rn (IStr (rf_name ?c2 p)) = (rf_connected c ! fst p \<and> rf_connected c ! snd p)" if "p \<in> rf_pairs ?c2" for p
    using new_row_links [OF c(2) f len(4) c2 _ that, of rn] rn(4,5) row(3) by simp
  have "rf_inv fresh ?c2"
    unfolding rf_inv_def
  proof (intro conjI)
    show "rf_shape ?c2"
      using sh len row(2) by (auto simp: rf_shape_def nth_list_update)
    show "rf_name ?c2 ` rf_pairs ?c2 \<subseteq> fresh ` {..<rf_rand ?c2}"
      using new_row_drawn [OF c(2) f len(4) c2] by simp
    show "ends (rf_net ?c2) = IStr ` fresh ` {..<rf_rand ?c2}"
      using c(2) rn(2) row(3) by (simp add: rf_inv_def AddServer_def image_Un [symmetric] ivl_disj_un)
    show "\<forall>p \<in> rf_pairs ?c2. connections (rf_net ?c2) (IStr (rf_name ?c2 p)) = Some (IInt (int (snd p)))
       \<and> enabled (rf_net ?c2) (IStr (rf_name ?c2 p)) = (rf_connected ?c2 ! fst p \<and> rf_connected ?c2 ! snd p)"
      using links by (simp add: AddServer_def)
    show "\<forall>a < rf_n ?c2. rf_connected ?c2 ! a \<longrightarrow> rf_endnames ?c2 ! a \<noteq> None"
      using c(2) len by (auto simp: rf_inv_def nth_list_update)
    show "\<forall>a < rf_n ?c2. (servers (rf_net ?c2) (IInt (int a)) = None) = (rf_rafts ?c2 ! a = None)"
      using c(2) rn(3) len by (auto simp: rf_inv_def AddServer_def nth_list_update)
  qed (rule new_row(5) [OF c(2) f len(4) c2])
  then show ?thesis
    using run c(3-) i len(2) by (auto simp: MakePersister_def split: option.splits)
qed

section \<open>Sequences of operations\<close>

datatype raft_op = OpConnect nat | OpDisconnect nat | OpCrash nat | OpStart nat

fun op_server :: "raft_op \<Rightarrow> nat" where
  "op_server (OpConnect i) = i"
| "op_server (OpDisconnect i) = i"
| "op_server (OpCrash i) = i"
| "op_server (OpStart i) = i"

fun run_op :: "(nat \<Rightarrow> string) \<Rightarrow> raft_op \<Rightarrow> raft_config \<Rightarrow> raft_config result" where
  "run_op fresh (OpConnect i) cfg = rf_connect i cfg"
| "run_op fresh (OpDisconnect i) cfg = rf_disconnect i cfg"
| "run_op fresh (OpCrash i) cfg = crash1 i cfg"
| "run_op fresh (OpStart i) cfg = start1 fresh i cfg"

text \<open>What an operation makes of the flags: only a connect sets one.\<close>

fun flag_op :: "raft_op \<Rightarrow> bool list \<Rightarrow> bool list" where
  "flag_op (OpConnect i) cs = cs[i := True]"
| "flag_op (OpDisconnect i) cs = cs[i := False]"
| "flag_op (OpCrash i) cs = cs[i := False]"
| "flag_op (OpStart i) cs = cs[i := False]"

definition rf_ready :: "(nat \<Rightarrow> string) \<Rightarrow> raft_config \<Rightarrow> bool" where
  "rf_ready fresh cfg \<longleftrightarrow> rf_inv fresh cfg \<and> (\<forall>a < rf_n cfg. rf_endnames cfg ! a \<noteq> None)"

lemma list_update_not_None: "\<forall>a < n. xs ! a \<noteq> None \<Longrightarrow> \<forall>a < n. xs[i := Some r] ! a \<noteq> None"
  by (metis list_update_beyond not_le nth_list_update option.distinct(1))

lemma run_op_ok:
  assumes R: "rf_ready fresh cfg" and f: "inj fresh" and i: "op_server x < rf_n cfg"
  shows "\<exists>cfg'. run_op fresh x cfg = Inr cfg' \<and> rf_ready fresh cfg' \<and> rf_n cfg' = rf_n cfg \<and> rf_connected cfg' = flag_op x (rf_connected cfg)"
proof -
  have I: "rf_inv fresh cfg" and all: "\<forall>a < rf_n cfg. rf_endnames cfg ! a \<noteq> None"
    using R by (simp_all add: rf_ready_def)
  show ?thesis
  proof (cases x)
    case (OpConnect i)
    then show ?thesis
      using rf_connect_ok [OF I, of i] i all by (auto simp: rf_ready_def)
  next
    case (OpDisconnect i)
    then show ?thesis
      using rf_disconnect_ok [OF I, of i] i all by (auto simp: rf_ready_def)
  next
    case (OpCrash i)
    then show ?thesis
      using crash1_ok [OF I, of i] i all by (auto simp: rf_ready_def)
  next
    case (OpStart i)
    then obtain c r where "start1 fresh i cfg = Inr c" "rf_inv fresh c" "rf_n c = rf_n cfg" "rf_connected c = (rf_connected cfg)[i := False]"
      "rf_endnames c = (rf_endnames cfg)[i := Some r]"
      using start1_ok [OF I f, of i] i by auto
    then show ?thesis
      using OpStart list_update_not_None [OF all, of i r] by (simp add: rf_ready_def)
  qed
qed

definition rf_refines :: "(nat \<Rightarrow> string) \<Rightarrow> nat \<Rightarrow> raft_config \<Rightarrow> bool list \<Rightarrow> bool" where
  "rf_refines fresh n cfg cs \<longleftrightarrow> inj fresh \<and> rf_ready fresh cfg \<and> rf_n cfg = n \<and> rf_connected cfg = cs"

interpretation rf_steps: refining_steps "run_op fresh" flag_op "\<lambda>x. op_server x < n" "rf_refines fresh n" for fresh n
proof unfold_locales
  fix cfg cs x
  assume "rf_refines fresh n cfg cs" "op_server x < n"
  then show "\<exists>cfg'. run_op fresh x cfg = Inr cfg' \<and> rf_refines fresh n cfg' (flag_op x cs)"
    using run_op_ok [of fresh cfg x] by (auto simp: rf_refines_def)
qed

lemma start_rafts_ok:
  assumes f: "inj fresh"
  shows "rf_inv fresh cfg \<Longrightarrow> set is \<subseteq> {..<rf_n cfg} \<Longrightarrow>
    \<exists>cfg'. start_rafts fresh is cfg = Inr cfg' \<and> rf_inv fresh cfg' \<and> rf_n cfg' = rf_n cfg
      \<and> (\<forall>a. a < rf_n cfg \<longrightarrow> (a \<in> set is \<or> rf_endnames cfg ! a \<noteq> None) \<longrightarrow> rf_endnames cfg' ! a \<noteq> None)"
proof (induction "is" arbitrary: cfg)
  case (Cons i "is")
  let ?c0 = "cfg\<lparr>rf_logs := (rf_logs cfg)[i := Map.empty]\<rparr>"
  have "rf_name ?c0 = rf_name cfg" "rf_pairs ?c0 = rf_pairs cfg" "rf_shape ?c0 = rf_shape cfg"
    by (simp_all add: rf_name_def rf_pairs_def rf_shape_def fun_eq_iff)
  then have "rf_inv fresh ?c0"
    using Cons.prems(1) by (simp add: rf_inv_def)
  then obtain c r where c: "start1 fresh i ?c0 = Inr c" "rf_inv fresh c" "rf_n c = rf_n cfg" "rf_endnames c = (rf_endnames cfg)[i := Some r]"
    using start1_ok [OF _ f, of ?c0 i] Cons.prems(2) by auto
  have len: "i < length (rf_logs cfg)" "i < length (rf_endnames cfg)"
    using Cons.prems by (simp_all add: rf_inv_def rf_shape_def)
  have "rf_endnames c ! a \<noteq> None" if "a = i \<or> rf_endnames cfg ! a \<noteq> None" for a
    using that c(4) len by (cases "a = i") auto
  moreover have "start_rafts fresh (i # is) cfg = start_rafts fresh is c"
    using c(1) len by (simp add: set_nth_def)
  ultimately show ?case
    using Cons.IH [OF c(2)] c(3) Cons.prems(2) by auto
qed simp

lemma connect_rafts_run: "connect_rafts is cfg = run_all (run_op fresh) (map OpConnect is) cfg"
  by (induction "is" arbitrary: cfg) (auto simp: bindR_def split: sum.splits)

lemma flags_connected: "a < length cs \<Longrightarrow> a \<in> set is \<or> cs ! a \<Longrightarrow> fold flag_op (map OpConnect is) cs ! a"
proof (induction "is" arbitrary: cs)
  case (Cons i "is")
  then have "a \<in> set is \<or> cs[i := True] ! a"
    by (cases "a = i") auto
  then show ?case
    using Cons.IH [of "cs[i := True]"] Cons.prems(1) by simp
qed simp

lemma make_raft_config_ok:
  assumes f: "inj fresh"
  shows "\<exists>cfg. make_raft_config fresh n unreliable = Inr cfg \<and> rf_ready fresh cfg \<and> rf_n cfg = n \<and> (\<forall>a < n. rf_connected cfg ! a)"
proof -
  let ?c0 = "\<lparr>rf_net = LongDelays True (Reliable (\<not> unreliable) MakeNetwork), rf_n = n, rf_rafts = replicate n None, rf_connected = replicate n False,
     rf_saved = replicate n None, rf_endnames = replicate n None, rf_logs = replicate n Map.empty,
     rf_maxIndex = 0, rf_maxIndex0 = 0, rf_rpcs0 = 0, rf_rand = 0, rf_alloc = 0\<rparr>"
  have "rf_pairs ?c0 = {}"
    by (auto simp: rf_pairs_def)
  then have "rf_inv fresh ?c0"
    by (simp add: rf_inv_def rf_shape_def LongDelays_def Reliable_def MakeNetwork_def)
  then obtain c1 where c1: "start_rafts fresh [0..<n] ?c0 = Inr c1" "rf_ready fresh c1" "rf_n c1 = n"
    using start_rafts_ok [OF f, of ?c0 "[0..<n]"] by (auto simp: rf_ready_def atLeast0LessThan)
  then obtain c2 where c2: "connect_rafts [0..<n] c1 = Inr c2" "rf_ready fresh c2" "rf_n c2 = n"
    "rf_connected c2 = fold flag_op (map OpConnect [0..<n]) (rf_connected c1)"
    using rf_steps.run_refines [of fresh n c1 "rf_connected c1" "map OpConnect [0..<n]"] f
    by (auto simp: connect_rafts_run [of _ _ fresh] rf_refines_def)
  have "length (rf_connected c1) = n"
    using c1(2,3) by (simp add: rf_ready_def rf_inv_def rf_shape_def)
  then have "\<forall>a < n. rf_connected c2 ! a"
    using c2(4) flags_connected [of _ "rf_connected c1" "[0..<n]"] by simp
  then show ?thesis
    using c1(1) c2 by (auto simp: make_raft_config_def setunreliable_def Let_def)
qed

section \<open>A small harness\<close>

text \<open>Two connected servers, no calls yet; what the tests below report is entry by entry.\<close>

definition raft_demo :: raft_config where
  "raft_demo = \<lparr>rf_net = MakeNetwork, rf_n = 2, rf_rafts = [Some 1, Some 2], rf_connected = [True, True], rf_saved = [None, None],
     rf_endnames = [None, None], rf_logs = [Map.empty, Map.empty], rf_maxIndex = 0, rf_maxIndex0 = 0, rf_rpcs0 = 0, rf_rand = 0, rf_alloc = 3\<rparr>"

definition committed :: "int \<Rightarrow> int \<Rightarrow> ApplyMsg" where
  "committed index v = \<lparr>CommandValid = True, Command = Some v, CommandIndex = index\<rparr>"

definition raft_demo' :: raft_config where
  "raft_demo' = raft_demo\<lparr>rf_logs := [[1 \<mapsto> 7], [1 \<mapsto> 7, 2 \<mapsto> 8]], rf_maxIndex := 2\<rparr>"

lemma raft_demo_runs: "apply_all [(0, committed 1 7), (1, committed 1 7), (1, committed 2 8)] raft_demo = Inr raft_demo'"
  by (simp add: raft_demo_def raft_demo'_def committed_def apply_msg_def go_nth_def fun_upd_twist)

section \<open>Properties\<close>

text \<open>
  C21: Whatever entries the servers of the Raft exercise report, in whatever interleaving, as long as the readers of the harness accept them all: no two
  servers hold different commands at an index, no server's log has a gap above index one, no index exceeds \<open>maxIndex\<close>, and \<open>nCommitted\<close>
  answers the number of servers that hold the index with their common command, or zero and minus one.
\<close>

theorem apply_checker_agrees:
  assumes run: "apply_all ms cfg = Inr cfg'" and start: "set (rf_logs cfg) \<subseteq> {Map.empty}"
  shows "(\<forall>la \<in> set (rf_logs cfg'). \<forall>lb \<in> set (rf_logs cfg'). \<forall>x a b. la x = Some a \<and> lb x = Some b \<longrightarrow> a = b)
    \<and> (\<forall>lg \<in> set (rf_logs cfg'). \<forall>x \<in> dom lg. x \<le> rf_maxIndex cfg' \<and> (x > 1 \<longrightarrow> x - 1 \<in> dom lg))
    \<and> (\<exists>v. nCommitted index cfg' = Inr (length (filter (\<lambda>lg. lg index \<noteq> None) (rf_logs cfg')), v)
        \<and> (\<forall>lg \<in> set (rf_logs cfg'). lg index = None \<or> lg index = Some v)
        \<and> ((\<forall>lg \<in> set (rf_logs cfg'). lg index = None) \<longrightarrow> v = - 1))"
proof (intro conjI)
  have "logs_inv cfg"
    using start by (auto simp: logs_inv_def logs_agree_def log_gapless_def)
  then have I: "logs_inv cfg'"
    by (rule apply_all_inv [OF run])
  then show "\<forall>la \<in> set (rf_logs cfg'). \<forall>lb \<in> set (rf_logs cfg'). \<forall>x a b. la x = Some a \<and> lb x = Some b \<longrightarrow> a = b"
    by (simp add: logs_inv_def logs_agree_def)
  show "\<forall>lg \<in> set (rf_logs cfg'). \<forall>x \<in> dom lg. x \<le> rf_maxIndex cfg' \<and> (x > 1 \<longrightarrow> x - 1 \<in> dom lg)"
    using I by (auto simp: logs_inv_def log_gapless_def)
  obtain v where v: "hold_only index v (rf_logs cfg')"
    and n: "nCommitted index cfg' = Inr (holders index (rf_logs cfg'), if holders index (rf_logs cfg') = 0 then - 1 else v)"
    using nCommitted_agree [of cfg' index] I by (auto simp: logs_inv_def)
  have none: "holders index (rf_logs cfg') = 0 \<longleftrightarrow> (\<forall>lg \<in> set (rf_logs cfg'). lg index = None)"
    using holders_pos [of index "rf_logs cfg'"] by auto
  show "\<exists>v. nCommitted index cfg' = Inr (length (filter (\<lambda>lg. lg index \<noteq> None) (rf_logs cfg')), v)
        \<and> (\<forall>lg \<in> set (rf_logs cfg'). lg index = None \<or> lg index = Some v)
        \<and> ((\<forall>lg \<in> set (rf_logs cfg'). lg index = None) \<longrightarrow> v = - 1)"
    unfolding holders_def [symmetric] using v n none by (cases "holders index (rf_logs cfg') = 0") (simp_all add: hold_only_def)
qed

text \<open>
  When \<open>one\<close> returns an index, one of its looks at the harness saw at least the expected number of servers, and at least one, with the
  submitted command committed at that index, and no server with another command there.
\<close>

theorem one_confirms:
  assumes "one cmd expectedServers retry rounds = Inr index"
  shows "index \<noteq> - 1 \<and> (\<exists>rd \<in> set rounds. \<exists>cfg \<in> set (snd rd).
    length (filter (\<lambda>lg. lg index = Some cmd) (rf_logs cfg)) \<ge> max 1 expectedServers
    \<and> (\<forall>lg \<in> set (rf_logs cfg). lg index = None \<or> lg index = Some cmd))"
proof -
  obtain rd cfg where ix: "index \<noteq> - 1" "rd \<in> set rounds" "cfg \<in> set (snd rd)"
    and h: "holders index (rf_logs cfg) > 0" "holders index (rf_logs cfg) \<ge> expectedServers" "hold_only index cmd (rf_logs cfg)"
    using one_loop_ok assms unfolding one_def by blast
  have "length (filter (\<lambda>lg. lg index = Some cmd) (rf_logs cfg)) = holders index (rf_logs cfg)"
    unfolding holders_def using h(3) by (intro arg_cong [where f = length] filter_cong) (auto simp: hold_only_def)
  then have "length (filter (\<lambda>lg. lg index = Some cmd) (rf_logs cfg)) \<ge> max 1 expectedServers"
    using h(1,2) by simp
  then show ?thesis
    using ix h(3) unfolding hold_only_def by blast
qed

text \<open>
  When \<open>checkOneLeader\<close> returns, whatever the order of the map, the server is connected and leads a term, in one of the ten looks; no connected
  server leads a later term in that look, and no other one the same term.
\<close>

theorem checkOneLeader_newest:
  assumes "checkOneLeader order state cfg = Inr i" and "\<And>m. set (order m) = set m"
  shows "\<exists>k t. k < 10 \<and> i < rf_n cfg \<and> rf_connected cfg ! i \<and> state k (rf_rafts cfg ! i) = Inr (t, True)
    \<and> (\<forall>u j. j < rf_n cfg \<and> rf_connected cfg ! j \<and> state k (rf_rafts cfg ! j) = Inr (u, True) \<longrightarrow> u \<le> t \<and> (u = t \<longrightarrow> j = i))"
  using one_leader_loop_Inr [of order state 0 10 cfg i] assms by (auto simp: checkOneLeader_def newest_leader_def led_def)

text \<open>
  C16: However a test connects, disconnects, crashes and restarts the servers of the harness that \<open>make_config\<close> set up, no operation panics or
  fails, and the end from one server to another leads to that server and is enabled exactly when both are connected: made so by the last connect and
  not undone since. A server is registered with the network exactly when an instance of it runs.
\<close>

theorem raft_links_follow_flags:
  assumes "inj fresh" and "\<forall>x \<in> set xs. op_server x < n"
  shows "\<exists>cfg cfg'. make_raft_config fresh n unreliable = Inr cfg \<and> run_all (run_op fresh) xs cfg = Inr cfg' \<and> rf_connected cfg' = fold flag_op xs (replicate n True)
    \<and> (\<forall>i < n. servers (rf_net cfg') (IInt (int i)) = None \<longleftrightarrow> rf_rafts cfg' ! i = None)
    \<and> (\<forall>i < n. \<forall>j < n. \<exists>e. rf_endname cfg' i j = Inr e \<and> connections (rf_net cfg') (IStr e) = Some (IInt (int j))
          \<and> enabled (rf_net cfg') (IStr e) = (rf_connected cfg' ! i \<and> rf_connected cfg' ! j))"
proof -
  obtain cfg where cfg: "make_raft_config fresh n unreliable = Inr cfg" "rf_ready fresh cfg" "rf_n cfg = n" "\<forall>a < n. rf_connected cfg ! a"
    using make_raft_config_ok [OF assms(1)] by blast
  then have flags: "rf_connected cfg = replicate n True"
    by (intro nth_equalityI) (simp_all add: rf_ready_def rf_inv_def rf_shape_def)
  obtain cfg' where cfg': "run_all (run_op fresh) xs cfg = Inr cfg'" "rf_ready fresh cfg'" "rf_n cfg' = n" "rf_connected cfg' = fold flag_op xs (replicate n True)"
    using rf_steps.run_refines [of fresh n cfg "replicate n True" xs] assms cfg(2,3) flags by (auto simp: rf_refines_def)
  have pairs: "(i, j) \<in> rf_pairs cfg'" if "i < n" "j < n" for i j
    using cfg'(2,3) that by (auto simp: rf_ready_def rf_pairs_def)
  then have ends: "\<exists>e. rf_endname cfg' i j = Inr e \<and> connections (rf_net cfg') (IStr e) = Some (IInt (int j))
      \<and> enabled (rf_net cfg') (IStr e) = (rf_connected cfg' ! i \<and> rf_connected cfg' ! j)" if "i < n" "j < n" for i j
    using rf_endname_ok [of cfg' i j] that cfg'(2) by (fastforce simp: rf_ready_def rf_inv_def)
  have "\<forall>i < n. servers (rf_net cfg') (IInt (int i)) = None \<longleftrightarrow> rf_rafts cfg' ! i = None"
    using cfg'(2,3) by (simp add: rf_ready_def rf_inv_def)
  then show ?thesis
    using cfg(1) cfg'(1,4) ends by blast
qed

theorem raft_links_follow_flags_witness:
  "\<exists>cfg cfg' e. make_raft_config (\<lambda>m. replicate m CHR ''x'') 3 False = Inr cfg
     \<and> run_all (run_op (\<lambda>m. replicate m CHR ''x'')) [OpCrash 1, OpStart 1, OpDisconnect 0, OpConnect 1] cfg = Inr cfg'
     \<and> rf_endname cfg' 1 2 = Inr e \<and> enabled (rf_net cfg') (IStr e)"
proof -
  have "inj (\<lambda>m. replicate m CHR ''x'')"
    by (rule injI) (metis length_replicate)
  moreover have "\<forall>x \<in> set [OpCrash 1, OpStart 1, OpDisconnect 0, OpConnect 1]. op_server x < 3"
    by simp
  moreover have "fold flag_op [OpCrash 1, OpStart 1, OpDisconnect 0, OpConnect 1] (replicate 3 True) = [False, True, True]"
    by (simp add: numeral_3_eq_3)
  moreover have "[False, True, True] ! 1" "[False, True, True] ! 2" "(1 :: nat) < 3" "(2 :: nat) < 3"
    by simp_all
  ultimately show ?thesis
    using raft_links_follow_flags [of "\<lambda>m. replicate m CHR ''x''" "[OpCrash 1, OpStart 1, OpDisconnect 0, OpConnect 1]" 3 False] by metis
qed

theorem apply_checker_agrees_witness:
  "\<exists>v. nCommitted 1 raft_demo' = Inr (2, v) \<and> (\<forall>lg \<in> set (rf_logs raft_demo'). lg 1 = None \<or> lg 1 = Some v)"
proof -
  have "set (rf_logs raft_demo) \<subseteq> {Map.empty}"
    by (simp add: raft_demo_def)
  then obtain v where "nCommitted 1 raft_demo' = Inr (length (filter (\<lambda>lg. lg 1 \<noteq> None) (rf_logs raft_demo')), v)"
    "\<forall>lg \<in> set (rf_logs raft_demo'). lg 1 = None \<or> lg 1 = Some v"
    using apply_checker_agrees [OF raft_demo_runs, of 1] by blast
  moreover have "length (filter (\<lambda>lg. lg 1 \<noteq> None) (rf_logs raft_demo')) = 2"
    by (simp add: raft_demo'_def)
  ultimately show ?thesis
    by metis
qed

theorem one_confirms_witness:
  "one 7 2 False [((raft_demo, \<lambda>_ _. Inr (1, 1, True)), [raft_demo, raft_demo'])] = Inr 1
   \<and> (\<exists>cfg \<in> {raft_demo, raft_demo'}. length (filter (\<lambda>lg. lg 1 = Some 7) (rf_logs cfg)) \<ge> 2)"
proof -
  have run: "one 7 2 False [((raft_demo, \<lambda>_ _. Inr (1, 1, True)), [raft_demo, raft_demo'])] = Inr 1"
    by (simp add: one_def raft_demo_def raft_demo'_def go_nth_def nCommitted_def numeral_2_eq_2)
  from one_confirms [OF run] run show ?thesis
    by auto
qed

theorem checkOneLeader_newest_witness:
  "checkOneLeader rev (\<lambda>_ rf. Inr (if rf = Some 1 then (3, True) else (2, True))) raft_demo = Inr 0
   \<and> (\<exists>t. (\<lambda>rf. Inr (if rf = Some 1 then (3, True) else (2, True)) :: (int \<times> bool) result) (rf_rafts raft_demo ! 0) = Inr (t, True))"
proof -
  have run: "checkOneLeader rev (\<lambda>_ rf. Inr (if rf = Some 1 then (3, True) else (2, True))) raft_demo = Inr 0"
    by (simp add: checkOneLeader_def raft_demo_def go_nth_def numeral_eq_Suc)
  from checkOneLeader_newest [OF run] run show ?thesis
    by auto
qed

end
