(* ===== verification/ShardClient.thy ===== *)
theory ShardClient
  imports GoLib "HOL-Library.Monad_Syntax"
begin

text \<open>
  The clerks of the sharded key/value exercise: the clerk of the shard master (\<open>src/lab4/src/shardmaster/client.go\<close>, \<open>common.go\<close>) and the clerk of
  the key/value groups (\<open>src/lab4/src/shardkv/client.go\<close>, \<open>common.go\<close>).

  \<^item> The network and the servers are a state \<open>'w\<close>: a call at an end takes it to the next state and gives back \<open>ok\<close> with the reply; \<open>make_end\<close> is
    the function that the clerk is given; while a clerk sleeps the state changes as \<open>sleep\<close> says. All three are arguments, the servers being exercises.
  \<^item> A clerk retries for ever. A loop is \<open>retry\<close>, a partial function of the option monad: \<open>None\<close> means that it does not return.
\<close>

section \<open>Data\<close>

definition NShards :: nat where
  "NShards = 10"

record shard_Config =
  Num :: int
  Shards :: "int list"
  Groups :: "int \<rightharpoonup> string list"

text \<open>The zero value of a configuration, which a new clerk starts with: all shards belong to group zero and there is no group.\<close>

definition zero_Config :: shard_Config where
  "zero_Config = \<lparr>Num = 0, Shards = replicate NShards 0, Groups = Map.empty\<rparr>"

datatype sm_args = QueryArgs int | JoinArgs "int \<rightharpoonup> string list" | LeaveArgs "int list" | MoveArgs int int

record sm_reply =
  smr_WrongLeader :: bool
  smr_Err :: string
  smr_Config :: shard_Config

definition zero_sm_reply :: sm_reply where
  "zero_sm_reply = \<lparr>smr_WrongLeader = False, smr_Err = [], smr_Config = zero_Config\<rparr>"

datatype kv_args = GetArgs string | PutAppendArgs string string string

record kv_reply =
  kvr_WrongLeader :: bool
  kvr_Err :: string
  kvr_Value :: string

record ('w, 'e) shard_env =
  sm_call :: "'e \<Rightarrow> sm_args \<Rightarrow> 'w \<Rightarrow> (bool \<times> sm_reply) \<times> 'w"
  kv_call :: "'e \<Rightarrow> kv_args \<Rightarrow> 'w \<Rightarrow> (bool \<times> kv_reply) \<times> 'w"
  make_end :: "string \<Rightarrow> 'w \<Rightarrow> 'e \<times> 'w"
  sleep :: "'w \<Rightarrow> 'w"

section \<open>Loops that retry\<close>

partial_function (option) retry :: "('s \<Rightarrow> ('a + 's) option) \<Rightarrow> 's \<Rightarrow> 'a option" where
  "retry attempt s = do { r \<leftarrow> attempt s; case r of Inl a \<Rightarrow> Some a | Inr s' \<Rightarrow> retry attempt s' }"

text \<open>The state after \<open>k\<close> attempts that all failed.\<close>

fun after :: "('s \<Rightarrow> ('a + 's) option) \<Rightarrow> nat \<Rightarrow> 's \<Rightarrow> 's option" where
  "after attempt 0 s = Some s"
| "after attempt (Suc k) s = do { r \<leftarrow> attempt s; case r of Inl a \<Rightarrow> None | Inr s' \<Rightarrow> after attempt k s' }"

section \<open>The clerk of the shard master\<close>

fun try_masters :: "('w, 'e) shard_env \<Rightarrow> sm_args \<Rightarrow> 'e list \<Rightarrow> 'w \<Rightarrow> sm_reply option \<times> 'w" where
  "try_masters E args [] w = (None, w)"
| "try_masters E args (srv # srvs) w =
     (case sm_call E srv args w of ((ok, reply), w) \<Rightarrow>
        if ok \<and> smr_WrongLeader reply = False then (Some reply, w) else try_masters E args srvs w)"

definition sm_attempt :: "('w, 'e) shard_env \<Rightarrow> sm_args \<Rightarrow> 'e list \<Rightarrow> 'w \<Rightarrow> ((sm_reply \<times> 'w) + 'w) option" where
  "sm_attempt E args servers w =
     Some (case try_masters E args servers w of (Some reply, w) \<Rightarrow> Inl (reply, w) | (None, w) \<Rightarrow> Inr (sleep E w))"

definition sm_loop :: "('w, 'e) shard_env \<Rightarrow> sm_args \<Rightarrow> 'e list \<Rightarrow> 'w \<Rightarrow> (sm_reply \<times> 'w) option" where
  "sm_loop E args servers w = retry (sm_attempt E args servers) w"

definition Query :: "('w, 'e) shard_env \<Rightarrow> 'e list \<Rightarrow> int \<Rightarrow> 'w \<Rightarrow> (shard_Config \<times> 'w) option" where
  "Query E servers num w = do { (reply, w) \<leftarrow> sm_loop E (QueryArgs num) servers w; Some (smr_Config reply, w) }"

definition Join :: "('w, 'e) shard_env \<Rightarrow> 'e list \<Rightarrow> (int \<rightharpoonup> string list) \<Rightarrow> 'w \<Rightarrow> 'w option" where
  "Join E servers grps w = do { (_, w) \<leftarrow> sm_loop E (JoinArgs grps) servers w; Some w }"

definition Leave :: "('w, 'e) shard_env \<Rightarrow> 'e list \<Rightarrow> int list \<Rightarrow> 'w \<Rightarrow> 'w option" where
  "Leave E servers gids w = do { (_, w) \<leftarrow> sm_loop E (LeaveArgs gids) servers w; Some w }"

definition Move :: "('w, 'e) shard_env \<Rightarrow> 'e list \<Rightarrow> int \<Rightarrow> int \<Rightarrow> 'w \<Rightarrow> 'w option" where
  "Move E servers shard gid w = do { (_, w) \<leftarrow> sm_loop E (MoveArgs shard gid) servers w; Some w }"

section \<open>The clerk of the key/value groups\<close>

definition key2shard :: "string \<Rightarrow> nat" where
  "key2shard key =
     (let shard = (if length key > 0 then of_char (key ! 0) else 0)
      in shard mod NShards)"

record 'e shard_Clerk =
  sck_sm :: "'e list"
  sck_config :: shard_Config

definition MakeClerk :: "'e list \<Rightarrow> 'e shard_Clerk" where
  "MakeClerk masters = \<lparr>sck_sm = masters, sck_config = zero_Config\<rparr>"

text \<open>One pass over the servers of a group: the first acceptable reply ends it, and so does a reply of the wrong group.\<close>

fun try_group :: "('w, 'e) shard_env \<Rightarrow> kv_args \<Rightarrow> (kv_reply \<Rightarrow> bool) \<Rightarrow> string list \<Rightarrow> 'w \<Rightarrow> kv_reply option \<times> 'w" where
  "try_group E args good [] w = (None, w)"
| "try_group E args good (s # ss) w =
     (case make_end E s w of (srv, w) \<Rightarrow>
      case kv_call E srv args w of ((ok, reply), w) \<Rightarrow>
        if ok \<and> kvr_WrongLeader reply = False \<and> good reply then (Some reply, w)
        else if ok \<and> kvr_Err reply = ''ErrWrongGroup'' then (None, w)
        else try_group E args good ss w)"

definition kv_attempt ::
    "('w, 'e) shard_env \<Rightarrow> kv_args \<Rightarrow> (kv_reply \<Rightarrow> bool) \<Rightarrow> string \<Rightarrow> 'e shard_Clerk \<times> 'w \<Rightarrow> ((kv_reply \<times> 'e shard_Clerk \<times> 'w) + ('e shard_Clerk \<times> 'w)) option" where
  "kv_attempt E args good key = (\<lambda>(ck, w).
     let gid = Shards (sck_config ck) ! key2shard key;
         (found, w) = (case Groups (sck_config ck) gid of
             Some servers \<Rightarrow> try_group E args good servers w
           | None \<Rightarrow> (None, w))
     in case found of
          Some reply \<Rightarrow> Some (Inl (reply, ck, w))
        | None \<Rightarrow> do { (cfg, w) \<leftarrow> Query E (sck_sm ck) (- 1) (sleep E w); Some (Inr (ck\<lparr>sck_config := cfg\<rparr>, w)) })"

definition get_good :: "kv_reply \<Rightarrow> bool" where
  "get_good reply \<longleftrightarrow> kvr_Err reply = ''OK'' \<or> kvr_Err reply = ''ErrNoKey''"

definition put_good :: "kv_reply \<Rightarrow> bool" where
  "put_good reply \<longleftrightarrow> kvr_Err reply = ''OK''"

definition shard_Get :: "('w, 'e) shard_env \<Rightarrow> string \<Rightarrow> 'e shard_Clerk \<Rightarrow> 'w \<Rightarrow> (string \<times> 'e shard_Clerk \<times> 'w) option" where
  "shard_Get E key ck w = do { (reply, ck, w) \<leftarrow> retry (kv_attempt E (GetArgs key) get_good key) (ck, w); Some (kvr_Value reply, ck, w) }"

definition shard_PutAppend :: "('w, 'e) shard_env \<Rightarrow> string \<Rightarrow> string \<Rightarrow> string \<Rightarrow> 'e shard_Clerk \<Rightarrow> 'w \<Rightarrow> ('e shard_Clerk \<times> 'w) option" where
  "shard_PutAppend E key value opn ck w = do { (_, ck, w) \<leftarrow> retry (kv_attempt E (PutAppendArgs key value opn) put_good key) (ck, w); Some (ck, w) }"

definition shard_Put :: "('w, 'e) shard_env \<Rightarrow> string \<Rightarrow> string \<Rightarrow> 'e shard_Clerk \<Rightarrow> 'w \<Rightarrow> ('e shard_Clerk \<times> 'w) option" where
  "shard_Put E key value ck w = shard_PutAppend E key value ''Put'' ck w"

definition shard_Append :: "('w, 'e) shard_env \<Rightarrow> string \<Rightarrow> string \<Rightarrow> 'e shard_Clerk \<Rightarrow> 'w \<Rightarrow> ('e shard_Clerk \<times> 'w) option" where
  "shard_Append E key value ck w = shard_PutAppend E key value ''Append'' ck w"

section \<open>When a loop returns\<close>

lemma after_Suc: "after attempt (Suc k) s = Some s' \<longleftrightarrow> (\<exists>s1. attempt s = Some (Inr s1) \<and> after attempt k s1 = Some s')"
  by (cases "attempt s") (auto split: sum.splits)

lemma retry_after: "after attempt k s = Some s' \<Longrightarrow> retry attempt s = retry attempt s'"
proof (induction k arbitrary: s)
  case (Suc k)
  then show ?case
    by (subst retry.simps) (auto split: bind_splits sum.splits)
qed simp

lemma retry_returns:
  assumes "retry attempt s = Some a"
  shows "\<exists>k s'. after attempt k s = Some s' \<and> attempt s' = Some (Inl a)"
proof (rule retry.raw_induct [OF _ assms, where P = "\<lambda>attempt s a. \<exists>k s'. after attempt k s = Some s' \<and> attempt s' = Some (Inl a)"])
  fix loop attempt s a
  assume IH: "\<And>attempt s a. loop attempt s = Some a \<Longrightarrow> \<exists>k s'. after attempt k s = Some s' \<and> attempt s' = Some (Inl a)"
    and run: "do { r \<leftarrow> attempt s; case r of Inl a \<Rightarrow> Some a | Inr s' \<Rightarrow> loop attempt s' } = Some a"
  from run obtain r where r: "attempt s = Some r" "(case r of Inl a \<Rightarrow> Some a | Inr s' \<Rightarrow> loop attempt s') = Some a"
    by (auto simp: bind_eq_Some_conv)
  show "\<exists>k s'. after attempt k s = Some s' \<and> attempt s' = Some (Inl a)"
  proof (cases r)
    case (Inl b)
    then show ?thesis
      using r by (intro exI [of _ 0] exI [of _ s]) simp
  next
    case (Inr s1)
    then obtain k s' where "after attempt k s1 = Some s'" "attempt s' = Some (Inl a)"
      using r(2) IH [of attempt s1 a] by auto
    then show ?thesis
      using r(1) Inr by (intro exI [of _ "Suc k"] exI [of _ s']) simp
  qed
qed

lemma retry_iff: "retry attempt s = Some a \<longleftrightarrow> (\<exists>k s'. after attempt k s = Some s' \<and> attempt s' = Some (Inl a))"
proof
  assume "\<exists>k s'. after attempt k s = Some s' \<and> attempt s' = Some (Inl a)"
  then obtain k s' where k: "after attempt k s = Some s'" "attempt s' = Some (Inl a)"
    by blast
  then have "retry attempt s' = Some a"
    by (subst retry.simps) simp
  then show "retry attempt s = Some a"
    using retry_after [OF k(1)] by simp
qed (rule retry_returns)

section \<open>One pass over the servers\<close>

definition sm_answers :: "('w, 'e) shard_env \<Rightarrow> sm_args \<Rightarrow> 'e \<Rightarrow> 'w \<Rightarrow> sm_reply \<Rightarrow> bool" where
  "sm_answers E args srv w reply \<longleftrightarrow> fst (sm_call E srv args w) = (True, reply) \<and> \<not> smr_WrongLeader reply"

lemma try_masters_sound: "try_masters E args srvs w = (Some reply, w') \<Longrightarrow> \<exists>srv \<in> set srvs. \<exists>w. sm_answers E args srv w reply"
proof (induction srvs arbitrary: w)
  case (Cons srv srvs)
  obtain ok r w1 where c: "sm_call E srv args w = ((ok, r), w1)"
    by (metis surj_pair)
  show ?case
  proof (cases "ok \<and> smr_WrongLeader r = False")
    case True
    then have "sm_answers E args srv w reply"
      using Cons.prems c by (simp add: sm_answers_def)
    then show ?thesis
      by auto
  next
    case False
    then have "try_masters E args srvs w1 = (Some reply, w')"
      using Cons.prems c by (simp split: if_splits)
    then show ?thesis
      using Cons.IH by auto
  qed
qed simp

lemma try_masters_complete: "srv \<in> set srvs \<Longrightarrow> \<forall>w. \<exists>r. sm_answers E args srv w r \<Longrightarrow> \<exists>reply w'. try_masters E args srvs w = (Some reply, w')"
proof (induction srvs arbitrary: w)
  case (Cons s srvs)
  obtain ok r w1 where c: "sm_call E s args w = ((ok, r), w1)"
    by (metis surj_pair)
  show ?case
  proof (cases "s = srv")
    case True
    then have "ok \<and> \<not> smr_WrongLeader r"
      using Cons.prems(2) c by (auto simp: sm_answers_def dest: spec [of _ w])
    then show ?thesis
      using c by simp
  next
    case False
    then show ?thesis
      using Cons c by simp
  qed
qed simp

definition kv_answers :: "('w, 'e) shard_env \<Rightarrow> kv_args \<Rightarrow> string \<Rightarrow> 'w \<Rightarrow> kv_reply \<Rightarrow> bool" where
  "kv_answers E args s w reply \<longleftrightarrow> (case make_end E s w of (srv, w1) \<Rightarrow> fst (kv_call E srv args w1) = (True, reply))"

definition kv_accepts :: "(kv_reply \<Rightarrow> bool) \<Rightarrow> kv_reply \<Rightarrow> bool" where
  "kv_accepts good reply \<longleftrightarrow> \<not> kvr_WrongLeader reply \<and> good reply"

lemma try_group_step:
  obtains ok r w1 where "try_group E args good (s # ss) w =
      (if ok \<and> kv_accepts good r then (Some r, w1) else if ok \<and> kvr_Err r = ''ErrWrongGroup'' then (None, w1) else try_group E args good ss w1)"
    and "\<And>reply. kv_answers E args s w reply \<longleftrightarrow> ok \<and> reply = r"
proof -
  obtain srv w0 where m: "make_end E s w = (srv, w0)"
    by fastforce
  obtain ok r w1 where c: "kv_call E srv args w0 = ((ok, r), w1)"
    by (metis surj_pair)
  show ?thesis
    using that [of ok r w1] m c by (auto simp: kv_answers_def kv_accepts_def)
qed

lemma try_group_sound:
  "try_group E args good ss w = (Some reply, w') \<Longrightarrow> \<exists>s \<in> set ss. \<exists>w. kv_answers E args s w reply \<and> kv_accepts good reply"
proof (induction ss arbitrary: w)
  case (Cons s ss)
  obtain ok r w1 where st: "try_group E args good (s # ss) w =
      (if ok \<and> kv_accepts good r then (Some r, w1) else if ok \<and> kvr_Err r = ''ErrWrongGroup'' then (None, w1) else try_group E args good ss w1)"
    and ans: "\<And>reply. kv_answers E args s w reply \<longleftrightarrow> ok \<and> reply = r"
    using try_group_step [of E args good s ss w] by blast
  show ?case
    using Cons st ans by (auto split: if_splits)
qed simp

lemma try_group_complete:
  assumes "\<forall>w. \<exists>r. kv_answers E args s w r \<and> kv_accepts good r" "s \<in> set ss"
    and "\<forall>t \<in> set ss. \<forall>w r. kv_answers E args t w r \<longrightarrow> kvr_Err r \<noteq> ''ErrWrongGroup''"
  shows "\<exists>reply w'. try_group E args good ss w = (Some reply, w')"
  using assms(2,3)
proof (induction ss arbitrary: w)
  case (Cons t ss)
  obtain ok r w1 where st: "try_group E args good (t # ss) w =
      (if ok \<and> kv_accepts good r then (Some r, w1) else if ok \<and> kvr_Err r = ''ErrWrongGroup'' then (None, w1) else try_group E args good ss w1)"
    and ans: "\<And>reply. kv_answers E args t w reply \<longleftrightarrow> ok \<and> reply = r"
    using try_group_step [of E args good t ss w] by blast
  have "\<not> (ok \<and> kvr_Err r = ''ErrWrongGroup'')"
    using Cons.prems(2) ans by auto
  moreover have "ok \<and> kv_accepts good r" if "t = s"
    using assms(1) ans that by metis
  ultimately show ?case
    using st Cons by (cases "t = s") auto
qed simp

section \<open>Whole requests\<close>

lemma sm_attempt_Inl: "sm_attempt E args servers w = Some (Inl (reply, w')) \<longleftrightarrow> try_masters E args servers w = (Some reply, w')"
  by (cases "try_masters E args servers w") (auto simp: sm_attempt_def split: option.splits)

lemma Query_sound:
  assumes "Query E masters num w = Some (cfg, w')"
  shows "\<exists>srv \<in> set masters. \<exists>w reply. sm_answers E (QueryArgs num) srv w reply \<and> smr_Config reply = cfg"
proof -
  obtain reply where r: "sm_loop E (QueryArgs num) masters w = Some (reply, w')" "smr_Config reply = cfg"
    using assms by (auto simp: Query_def bind_eq_Some_conv)
  then obtain w1 where "try_masters E (QueryArgs num) masters w1 = (Some reply, w')"
    by (auto simp: sm_loop_def retry_iff sm_attempt_Inl)
  then show ?thesis
    using try_masters_sound r(2) by metis
qed

lemma Query_returns:
  assumes "srv \<in> set masters" "\<forall>w. \<exists>r. sm_answers E (QueryArgs num) srv w r"
  shows "\<exists>cfg w'. Query E masters num w = Some (cfg, w')"
proof -
  obtain reply w' where "try_masters E (QueryArgs num) masters w = (Some reply, w')"
    using try_masters_complete [OF assms] by blast
  then have "sm_loop E (QueryArgs num) masters w = Some (reply, w')"
    unfolding sm_loop_def by (subst retry.simps) (simp add: sm_attempt_def)
  then show ?thesis
    by (simp add: Query_def)
qed

text \<open>What an attempt of a clerk does, by what the pass over the group of the key finds.\<close>

definition key_group :: "string \<Rightarrow> shard_Config \<Rightarrow> string list option" where
  "key_group key cfg = Groups cfg (Shards cfg ! key2shard key)"

lemma kv_attempt_Inl:
  "kv_attempt E args good key (ck, w) = Some (Inl (reply, ck', w')) \<longleftrightarrow>
   ck' = ck \<and> (\<exists>servers. key_group key (sck_config ck) = Some servers \<and> try_group E args good servers w = (Some reply, w'))"
  by (auto simp: kv_attempt_def key_group_def Let_def bind_eq_Some_conv split: prod.splits option.splits)

lemma kv_attempt_Inr:
  assumes "kv_attempt E args good key (ck, w) = Some (Inr (ck', w'))"
  shows "\<exists>cfg w1. ck' = ck\<lparr>sck_config := cfg\<rparr> \<and> Query E (sck_sm ck) (- 1) w1 = Some (cfg, w')"
  using assms by (auto simp: kv_attempt_def Let_def bind_eq_Some_conv split: prod.splits option.splits)

lemma kv_attempt_defined:
  assumes "\<forall>w. Query E (sck_sm ck) (- 1) w \<noteq> None"
  shows "\<exists>r. kv_attempt E args good key (ck, w) = Some r"
proof -
  obtain found w1 where f: "(case Groups (sck_config ck) (Shards (sck_config ck) ! key2shard key) of
      Some servers \<Rightarrow> try_group E args good servers w | None \<Rightarrow> (None, w)) = (found, w1)"
    by fastforce
  obtain cfg w2 where "Query E (sck_sm ck) (- 1) (sleep E w1) = Some (cfg, w2)"
    using assms by (metis not_None_eq surj_pair)
  then show ?thesis
    using f by (cases found) (simp_all add: kv_attempt_def)
qed

text \<open>Every configuration that a clerk uses is its first one or an answer of the shard master.\<close>

definition config_from :: "('w, 'e) shard_env \<Rightarrow> 'e shard_Clerk \<Rightarrow> shard_Config \<Rightarrow> bool" where
  "config_from E ck cfg \<longleftrightarrow> cfg = sck_config ck
     \<or> (\<exists>srv \<in> set (sck_sm ck). \<exists>w reply. sm_answers E (QueryArgs (- 1)) srv w reply \<and> smr_Config reply = cfg)"

lemma after_config:
  "after (kv_attempt E args good key) k (ck, w) = Some (ck', w') \<Longrightarrow> sck_sm ck' = sck_sm ck \<and> config_from E ck (sck_config ck')"
proof (induction k arbitrary: ck w)
  case (Suc k)
  obtain ck1 w1 where st: "kv_attempt E args good key (ck, w) = Some (Inr (ck1, w1))"
    and rest: "after (kv_attempt E args good key) k (ck1, w1) = Some (ck', w')"
    using Suc.prems unfolding after_Suc by auto
  obtain cfg w2 where c: "ck1 = ck\<lparr>sck_config := cfg\<rparr>" "Query E (sck_sm ck) (- 1) w2 = Some (cfg, w1)"
    using kv_attempt_Inr [OF st] by blast
  have "sck_sm ck1 = sck_sm ck" "sck_config ck1 = cfg"
    using c(1) by simp_all
  then show ?case
    using Suc.IH [OF rest] Query_sound [OF c(2)] unfolding config_from_def by metis
qed (simp add: config_from_def)

lemma kv_retry_sound:
  assumes "retry (kv_attempt E args good key) (ck, w) = Some (reply, ck', w')"
  shows "\<exists>servers. config_from E ck (sck_config ck') \<and> key_group key (sck_config ck') = Some servers
    \<and> (\<exists>s \<in> set servers. \<exists>w. kv_answers E args s w reply \<and> kv_accepts good reply)"
proof -
  obtain k ck1 w1 where k: "after (kv_attempt E args good key) k (ck, w) = Some (ck1, w1)"
    "kv_attempt E args good key (ck1, w1) = Some (Inl (reply, ck', w'))"
    using assms unfolding retry_iff by auto
  obtain servers where s: "ck' = ck1" "key_group key (sck_config ck1) = Some servers" "try_group E args good servers w1 = (Some reply, w')"
    using k(2) unfolding kv_attempt_Inl by blast
  show ?thesis
    using after_config [OF k(1)] s try_group_sound [OF s(3)] by auto
qed

lemma kv_retry_returns:
  assumes master: "srv \<in> set (sck_sm ck)" "\<forall>w. \<exists>r. sm_answers E (QueryArgs (- 1)) srv w r"
    and latest: "\<forall>srv \<in> set (sck_sm ck). \<forall>w r. sm_answers E (QueryArgs (- 1)) srv w r \<longrightarrow> smr_Config r = cfg"
    and group: "key_group key cfg = Some servers" "s \<in> set servers" "\<forall>w. \<exists>r. kv_answers E args s w r \<and> kv_accepts good r"
    and right: "\<forall>t \<in> set servers. \<forall>w r. kv_answers E args t w r \<longrightarrow> kvr_Err r \<noteq> ''ErrWrongGroup''"
  shows "\<exists>x. retry (kv_attempt E args good key) (ck, w) = Some x"
proof -
  let ?at = "kv_attempt E args good key"
  obtain r where r: "?at (ck, w) = Some r"
    using kv_attempt_defined [of E ck args good key w] Query_returns [OF master] by fastforce
  show ?thesis
  proof (cases r)
    case (Inl x)
    then have "retry ?at (ck, w) = Some x"
      using r by (subst retry.simps) simp
    then show ?thesis
      by blast
  next
    case (Inr y)
    obtain ck1 w1 where y: "y = (ck1, w1)"
      by fastforce
    then obtain cfg1 w2 where c: "ck1 = ck\<lparr>sck_config := cfg1\<rparr>" "Query E (sck_sm ck) (- 1) w2 = Some (cfg1, w1)"
      using kv_attempt_Inr r Inr by metis
    have "cfg1 = cfg"
      using Query_sound [OF c(2)] latest by auto
    then obtain reply w' where "?at (ck1, w1) = Some (Inl (reply, ck1, w'))"
      using kv_attempt_Inl [of E args good key ck1 w1] try_group_complete [OF group(3,2) right, of w1] group(1) c(1) by fastforce
    then show ?thesis
      using r Inr y by (subst retry.simps, simp, subst retry.simps, simp)
  qed
qed

section \<open>A small service\<close>

text \<open>Two shard masters, the second of which leads, and one group of two servers, the first of which is never reached.\<close>

definition demo_cfg :: shard_Config where
  "demo_cfg = \<lparr>Num = 1, Shards = replicate NShards 1, Groups = [1 \<mapsto> [''a'', ''b'']]\<rparr>"

definition demo_env :: "(nat, string) shard_env" where
  "demo_env = \<lparr>
     sm_call = (\<lambda>e args w. ((True, \<lparr>smr_WrongLeader = (e \<noteq> ''m1''), smr_Err = ''OK'', smr_Config = demo_cfg\<rparr>), Suc w)),
     kv_call = (\<lambda>e args w. ((e = ''b'', \<lparr>kvr_WrongLeader = False, kvr_Err = ''OK'', kvr_Value = ''x''\<rparr>), Suc w)),
     make_end = (\<lambda>name w. (name, w)), sleep = (\<lambda>w. w)\<rparr>"

lemma demo_Query: "Query demo_env [''m0'', ''m1''] (- 1) w = Some (demo_cfg, Suc (Suc w))"
  unfolding Query_def sm_loop_def by (subst retry.simps) (simp add: sm_attempt_def demo_env_def)

lemma demo_Get: "shard_Get demo_env ''k'' (MakeClerk [''m0'', ''m1'']) 0 = Some (''x'', (MakeClerk [''m0'', ''m1''])\<lparr>sck_config := demo_cfg\<rparr>, 4)"
proof -
  let ?at = "kv_attempt demo_env (GetArgs ''k'') get_good ''k''" and ?ck = "MakeClerk [''m0'', ''m1''] :: string shard_Clerk"
  have shard: "key2shard ''k'' = 7"
    by (simp add: key2shard_def NShards_def)
  have "sleep demo_env w = w" for w
    by (simp add: demo_env_def)
  then have one: "?at (?ck, 0) = Some (Inr (?ck\<lparr>sck_config := demo_cfg\<rparr>, 2))"
    using demo_Query [of 0] by (simp add: kv_attempt_def MakeClerk_def zero_Config_def)
  have "?at (?ck\<lparr>sck_config := demo_cfg\<rparr>, 2) = Some (Inl (\<lparr>kvr_WrongLeader = False, kvr_Err = ''OK'', kvr_Value = ''x''\<rparr>, ?ck\<lparr>sck_config := demo_cfg\<rparr>, 4))"
    by (simp add: kv_attempt_def demo_cfg_def shard NShards_def demo_env_def get_good_def)
  then show ?thesis
    unfolding shard_Get_def using one by (subst retry.simps, simp, subst retry.simps, simp)
qed

section \<open>Properties\<close>

text \<open>
  C25: A shard number is always an index of the array of shards. When the clerk's \<open>Get\<close> returns, the configuration it used is the one it had or one that
  a shard master answered; the value is in a reply, accepted as \<open>OK\<close> or \<open>ErrNoKey\<close> and not from a wrong leader, of a server of the group which
  that configuration gives the shard of the key.
\<close>

theorem shard_Get_answer:
  assumes "shard_Get E key ck w = Some (v, ck', w')"
  shows "key2shard key < NShards
    \<and> (sck_config ck' = sck_config ck
        \<or> (\<exists>srv \<in> set (sck_sm ck). \<exists>w1 r. fst (sm_call E srv (QueryArgs (- 1)) w1) = (True, r) \<and> \<not> smr_WrongLeader r \<and> smr_Config r = sck_config ck'))
    \<and> (\<exists>servers. Groups (sck_config ck') (Shards (sck_config ck') ! key2shard key) = Some servers
        \<and> (\<exists>s \<in> set servers. \<exists>w1 r. fst (kv_call E (fst (make_end E s w1)) (GetArgs key) (snd (make_end E s w1))) = (True, r)
              \<and> \<not> kvr_WrongLeader r \<and> kvr_Err r \<in> {''OK'', ''ErrNoKey''} \<and> kvr_Value r = v))"
proof -
  obtain reply where r: "retry (kv_attempt E (GetArgs key) get_good key) (ck, w) = Some (reply, ck', w')" "kvr_Value reply = v"
    using assms by (auto simp: shard_Get_def bind_eq_Some_conv)
  obtain servers s w1 where s: "config_from E ck (sck_config ck')" "key_group key (sck_config ck') = Some servers" "s \<in> set servers"
    "kv_answers E (GetArgs key) s w1 reply" "kv_accepts get_good reply"
    using kv_retry_sound [OF r(1)] by metis
  have "fst (kv_call E (fst (make_end E s w1)) (GetArgs key) (snd (make_end E s w1))) = (True, reply)
      \<and> \<not> kvr_WrongLeader reply \<and> kvr_Err reply \<in> {''OK'', ''ErrNoKey''} \<and> kvr_Value reply = v"
    using s(4,5) r(2) by (auto simp: kv_answers_def kv_accepts_def get_good_def split: prod.splits)
  moreover have "key2shard key < NShards"
    by (simp add: key2shard_def NShards_def)
  ultimately show ?thesis
    using s(1-3) unfolding config_from_def sm_answers_def key_group_def by metis
qed

text \<open>
  A clerk does not retry for ever once the service has settled: when some shard master always answers and all answers carry the same configuration,
  which gives the shard of the key a group with one server that always accepts and no server that calls itself the wrong group, then \<open>Get\<close> and
  \<open>PutAppend\<close> return, whatever configuration the clerk had.
\<close>

theorem shard_clerk_returns:
  assumes "srv \<in> set (sck_sm ck)" "\<forall>w. \<exists>r. fst (sm_call E srv (QueryArgs (- 1)) w) = (True, r) \<and> \<not> smr_WrongLeader r"
    and "\<forall>srv \<in> set (sck_sm ck). \<forall>w r. fst (sm_call E srv (QueryArgs (- 1)) w) = (True, r) \<and> \<not> smr_WrongLeader r \<longrightarrow> smr_Config r = cfg"
    and "Groups cfg (Shards cfg ! key2shard key) = Some servers" "s \<in> set servers"
    and "\<forall>args w. \<exists>r. fst (kv_call E (fst (make_end E s w)) args (snd (make_end E s w))) = (True, r) \<and> \<not> kvr_WrongLeader r \<and> kvr_Err r = ''OK''"
    and "\<forall>t \<in> set servers. \<forall>args w r. fst (kv_call E (fst (make_end E t w)) args (snd (make_end E t w))) = (True, r) \<longrightarrow> kvr_Err r \<noteq> ''ErrWrongGroup''"
  shows "(\<exists>v ck' w'. shard_Get E key ck w = Some (v, ck', w')) \<and> (\<exists>ck' w'. shard_PutAppend E key value opn ck w = Some (ck', w'))"
proof -
  have ans: "kv_answers E args t w r \<longleftrightarrow> fst (kv_call E (fst (make_end E t w)) args (snd (make_end E t w))) = (True, r)" for args t w r
    by (simp add: kv_answers_def case_prod_unfold)
  note returns = kv_retry_returns [of srv ck E cfg key servers s, unfolded sm_answers_def key_group_def, OF assms(1-5)]
  have "\<exists>x. retry (kv_attempt E (GetArgs key) get_good key) (ck, w) = Some x"
    using returns [of "GetArgs key" get_good w] assms(6,7) by (auto simp: ans kv_accepts_def get_good_def) metis+
  moreover have "\<exists>x. retry (kv_attempt E (PutAppendArgs key value opn) put_good key) (ck, w) = Some x"
    using returns [of "PutAppendArgs key value opn" put_good w] assms(6,7) by (auto simp: ans kv_accepts_def put_good_def)
  ultimately show ?thesis
    by (auto simp: shard_Get_def shard_PutAppend_def)
qed

theorem shard_Get_answer_witness:
  "shard_Get demo_env ''k'' (MakeClerk [''m0'', ''m1'']) 0 = Some (''x'', (MakeClerk [''m0'', ''m1''])\<lparr>sck_config := demo_cfg\<rparr>, 4)
   \<and> key2shard ''k'' < NShards"
  using demo_Get shard_Get_answer [OF demo_Get] by blast

theorem shard_clerk_returns_witness:
  "\<exists>ck' w'. shard_PutAppend demo_env ''k'' ''v'' ''Put'' (MakeClerk [''m0'', ''m1'']) 5 = Some (ck', w')"
proof -
  have "Groups demo_cfg (Shards demo_cfg ! key2shard ''k'') = Some [''a'', ''b'']"
    by (simp add: demo_cfg_def key2shard_def NShards_def)
  then have "(\<exists>v ck' w'. shard_Get demo_env ''k'' (MakeClerk [''m0'', ''m1'']) 5 = Some (v, ck', w'))
     \<and> (\<exists>ck' w'. shard_PutAppend demo_env ''k'' ''v'' ''Put'' (MakeClerk [''m0'', ''m1'']) 5 = Some (ck', w'))"
    by (intro shard_clerk_returns [where srv = "''m1''" and cfg = demo_cfg and servers = "[''a'', ''b'']" and s = "''b''"])
       (auto simp: MakeClerk_def demo_env_def)
  then show ?thesis
    by (rule conjunct2)
qed

end
