(* ===== verification/ShardConfig.thy ===== *)
theory ShardConfig
  imports LabConfig ShardClient
begin

text \<open>
  The harness of the sharded key/value exercise on the simulated network (\<open>src/lab4/src/shardkv/config.go\<close>): three shard masters, three groups of
  servers that are started and shut down, clerks, and the requests to the shard master that groups join and leave.

  \<^item> Servers, shard masters and clerks are addresses; ends are their names; \<open>randstring\<close> draws the names \<open>fresh 0, fresh 1, \<dots>\<close>.
  \<^item> An index out of range and a nil slice that is indexed are panics; a failed check of a test is \<open>Fatal\<close>.
  \<^item> The servers themselves are exercises; the clerk of the harness is the one of the previous theory, on the ends of this network.
\<close>

record group =
  g_gid :: int
  g_servers :: "nat option list"
  g_saved :: "Persister option list"
  g_endnames :: "string list option list"
  g_mendnames :: "string list option list"

record skv_config =
  sc_net :: Network
  sc_nmasters :: nat
  sc_masterservers :: "nat option list"
  sc_mck :: "string list"
  sc_ngroups :: nat
  sc_n :: nat
  sc_groups :: "group option list"
  sc_clerks :: "nat \<rightharpoonup> string list"
  sc_nextClientId :: int
  sc_maxraftstate :: int
  sc_rand :: nat
  sc_alloc :: nat

definition mastername :: "nat \<Rightarrow> string" where
  "mastername i = ''master'' @ Itoa (int i)"

definition servername :: "int \<Rightarrow> nat \<Rightarrow> string" where
  "servername gid i = ''server-'' @ Itoa gid @ ''-'' @ Itoa (int i)"

section \<open>Ends\<close>

text \<open>An end is made, led to a server and enabled.\<close>

definition linked_end :: "string \<Rightarrow> string \<Rightarrow> Network \<Rightarrow> Network result" where
  "linked_end name server rn = bindR (MakeEnd (IStr name) rn) (\<lambda>rn. Inr (Enable (IStr name) True (Connect (IStr name) (IStr server) rn)))"

fun linked_ends :: "(string \<times> string) list \<Rightarrow> Network \<Rightarrow> Network result" where
  "linked_ends [] rn = Inr rn"
| "linked_ends ((name, server) # es) rn = bindR (linked_end name server rn) (linked_ends es)"

definition sk_draw :: "(nat \<Rightarrow> string) \<Rightarrow> nat \<Rightarrow> nat \<Rightarrow> string list" where
  "sk_draw fresh r k = map fresh [r..<r + k]"

fun disable_ends :: "string list \<Rightarrow> Network \<Rightarrow> Network" where
  "disable_ends [] rn = rn"
| "disable_ends (e # es) rn = disable_ends es (Enable (IStr e) False rn)"

fun client_ends :: "nat \<Rightarrow> string list \<Rightarrow> string list \<Rightarrow> Network \<Rightarrow> (string list \<times> Network) result" where
  "client_ends j [] endnames rn = Inr (endnames, rn)"
| "client_ends j (e # es) endnames rn =
     bindR (set_nth endnames j e) (\<lambda>endnames.
     bindR (linked_end e (mastername j) rn) (client_ends (Suc j) es endnames))"

definition sk_makeClient :: "(nat \<Rightarrow> string) \<Rightarrow> skv_config \<Rightarrow> (nat \<times> skv_config) result" where
  "sk_makeClient fresh cfg =
     (let es = sk_draw fresh (sc_rand cfg) (sc_nmasters cfg); ck = sc_alloc cfg
      in bindR (client_ends 0 es (replicate (sc_n cfg) []) (sc_net cfg)) (\<lambda>(endnames, rn).
           Inr (ck, cfg\<lparr>sc_net := rn, sc_rand := sc_rand cfg + sc_nmasters cfg, sc_clerks := (sc_clerks cfg)(ck \<mapsto> endnames),
                        sc_nextClientId := sc_nextClientId cfg + 1, sc_alloc := Suc ck\<rparr>)))"

text \<open>The function that a clerk gets to make an end.\<close>

definition sk_make_end :: "(nat \<Rightarrow> string) \<Rightarrow> string \<Rightarrow> skv_config \<Rightarrow> (string \<times> skv_config) result" where
  "sk_make_end fresh server cfg =
     (let name = fresh (sc_rand cfg)
      in bindR (linked_end name server (sc_net cfg)) (\<lambda>rn. Inr (name, cfg\<lparr>sc_net := rn, sc_rand := Suc (sc_rand cfg)\<rparr>)))"

definition sk_deleteClient :: "nat \<Rightarrow> skv_config \<Rightarrow> skv_config" where
  "sk_deleteClient ck cfg = cfg\<lparr>sc_clerks := (sc_clerks cfg)(ck := None)\<rparr>"

section \<open>Servers and groups\<close>

definition go_group :: "nat \<Rightarrow> skv_config \<Rightarrow> group result" where
  "go_group gi cfg = bindR (go_nth (sc_groups cfg) gi) panic_unless"

definition sk_ShutdownServer :: "nat \<Rightarrow> nat \<Rightarrow> skv_config \<Rightarrow> skv_config result" where
  "sk_ShutdownServer gi i cfg =
     bindR (go_group gi cfg) (\<lambda>gg.
     bindR (go_nth (g_endnames gg) i) (\<lambda>row.
     bindR (if length (g_servers gg) > length (case row of None \<Rightarrow> [] | Some r \<Rightarrow> r) then Inl Panic
            else Inr (take (length (g_servers gg)) (case row of None \<Rightarrow> [] | Some r \<Rightarrow> r))) (\<lambda>names.
     bindR (go_nth (g_mendnames gg) i) (\<lambda>mrow.
     bindR (go_nth (g_saved gg) i) (\<lambda>sv.
     bindR (set_nth (g_servers gg) i None) (\<lambda>servers.
       let rn = disable_ends (case mrow of None \<Rightarrow> [] | Some r \<Rightarrow> r) (disable_ends names (sc_net cfg));
           rn = DeleteServer (IStr (servername (g_gid gg) i)) rn;
           gg = gg\<lparr>g_saved := (g_saved gg)[i := map_option Copy sv], g_servers := servers\<rparr>
       in Inr (cfg\<lparr>sc_net := rn, sc_groups := (sc_groups cfg)[gi := Some gg]\<rparr>)))))))"

fun shutdown_servers :: "nat \<Rightarrow> nat list \<Rightarrow> skv_config \<Rightarrow> skv_config result" where
  "shutdown_servers gi [] cfg = Inr cfg"
| "shutdown_servers gi (i # is) cfg = bindR (sk_ShutdownServer gi i cfg) (shutdown_servers gi is)"

definition ShutdownGroup :: "nat \<Rightarrow> skv_config \<Rightarrow> skv_config result" where
  "ShutdownGroup gi cfg = shutdown_servers gi [0..<sc_n cfg] cfg"

definition sk_StartServer :: "(nat \<Rightarrow> string) \<Rightarrow> nat \<Rightarrow> nat \<Rightarrow> skv_config \<Rightarrow> skv_config result" where
  "sk_StartServer fresh gi i cfg =
     bindR (go_group gi cfg) (\<lambda>gg.
       let row = sk_draw fresh (sc_rand cfg) (sc_n cfg); mrow = sk_draw fresh (sc_rand cfg + sc_n cfg) (sc_nmasters cfg)
       in bindR (set_nth (g_endnames gg) i (Some row)) (\<lambda>endnames.
          bindR (linked_ends (zip row (map (servername (g_gid gg)) [0..<sc_n cfg])) (sc_net cfg)) (\<lambda>rn.
          bindR (set_nth (g_mendnames gg) i (Some mrow)) (\<lambda>mendnames.
          bindR (linked_ends (zip mrow (map mastername [0..<sc_nmasters cfg])) rn) (\<lambda>rn.
          bindR (go_nth (g_saved gg) i) (\<lambda>sv.
            let ps = (case sv of None \<Rightarrow> MakePersister | Some ps \<Rightarrow> Copy ps); kv = sc_alloc cfg; srv = Suc kv
            in bindR (set_nth (g_servers gg) i (Some kv)) (\<lambda>servers.
                 Inr (cfg\<lparr>sc_net := AddServer (IStr (servername (g_gid gg) i)) srv rn,
                          sc_rand := sc_rand cfg + sc_n cfg + sc_nmasters cfg, sc_alloc := Suc srv,
                          sc_groups := (sc_groups cfg)[gi := Some (gg\<lparr>g_servers := servers, g_saved := (g_saved gg)[i := Some ps],
                             g_endnames := endnames, g_mendnames := mendnames\<rparr>)]\<rparr>))))))))"

fun start_servers :: "(nat \<Rightarrow> string) \<Rightarrow> nat \<Rightarrow> nat list \<Rightarrow> skv_config \<Rightarrow> skv_config result" where
  "start_servers fresh gi [] cfg = Inr cfg"
| "start_servers fresh gi (i # is) cfg = bindR (sk_StartServer fresh gi i cfg) (start_servers fresh gi is)"

definition StartGroup :: "(nat \<Rightarrow> string) \<Rightarrow> nat \<Rightarrow> skv_config \<Rightarrow> skv_config result" where
  "StartGroup fresh gi cfg = start_servers fresh gi [0..<sc_n cfg] cfg"

section \<open>Shard masters\<close>

definition StartMasterServer :: "(nat \<Rightarrow> string) \<Rightarrow> nat \<Rightarrow> skv_config \<Rightarrow> skv_config result" where
  "StartMasterServer fresh i cfg =
     bindR (linked_ends (zip (sk_draw fresh (sc_rand cfg) (sc_nmasters cfg)) (map mastername [0..<sc_nmasters cfg])) (sc_net cfg)) (\<lambda>rn.
     bindR (set_nth (sc_masterservers cfg) i (Some (sc_alloc cfg))) (\<lambda>ms.
       Inr (cfg\<lparr>sc_net := AddServer (IStr (mastername i)) (Suc (sc_alloc cfg)) rn, sc_masterservers := ms,
                sc_rand := sc_rand cfg + sc_nmasters cfg, sc_alloc := Suc (Suc (sc_alloc cfg))\<rparr>)))"

definition shardclerk :: "(nat \<Rightarrow> string) \<Rightarrow> skv_config \<Rightarrow> (string list \<times> skv_config) result" where
  "shardclerk fresh cfg =
     (let names = sk_draw fresh (sc_rand cfg) (sc_nmasters cfg)
      in bindR (linked_ends (zip names (map mastername [0..<sc_nmasters cfg])) (sc_net cfg)) (\<lambda>rn.
           Inr (names, cfg\<lparr>sc_net := rn, sc_rand := sc_rand cfg + sc_nmasters cfg\<rparr>)))"

fun join_groups :: "nat list \<Rightarrow> skv_config \<Rightarrow> (int \<rightharpoonup> string list) \<Rightarrow> (int \<rightharpoonup> string list) result" where
  "join_groups [] cfg m = Inr m"
| "join_groups (g # gis) cfg m =
     bindR (go_group g cfg) (\<lambda>gg. join_groups gis cfg (m(g_gid gg \<mapsto> map (servername (g_gid gg)) [0..<sc_n cfg])))"

text \<open>The request to the shard master may not return: \<open>None\<close> inside the result.\<close>

definition joinm :: "('w, string) shard_env \<Rightarrow> nat list \<Rightarrow> skv_config \<Rightarrow> 'w \<Rightarrow> 'w option result" where
  "joinm E gis cfg w = bindR (join_groups gis cfg Map.empty) (\<lambda>m. Inr (Join E (sc_mck cfg) m w))"

definition sk_join :: "('w, string) shard_env \<Rightarrow> nat \<Rightarrow> skv_config \<Rightarrow> 'w \<Rightarrow> 'w option result" where
  "sk_join E gi cfg w = joinm E [gi] cfg w"

fun leave_groups :: "nat list \<Rightarrow> skv_config \<Rightarrow> int list \<Rightarrow> int list result" where
  "leave_groups [] cfg gids = Inr gids"
| "leave_groups (g # gis) cfg gids = bindR (go_group g cfg) (\<lambda>gg. leave_groups gis cfg (gids @ [g_gid gg]))"

definition leavem :: "('w, string) shard_env \<Rightarrow> nat list \<Rightarrow> skv_config \<Rightarrow> 'w \<Rightarrow> 'w option result" where
  "leavem E gis cfg w = bindR (leave_groups gis cfg []) (\<lambda>gids. Inr (Leave E (sc_mck cfg) gids w))"

definition sk_leave :: "('w, string) shard_env \<Rightarrow> nat \<Rightarrow> skv_config \<Rightarrow> 'w \<Rightarrow> 'w option result" where
  "sk_leave E gi cfg w = leavem E [gi] cfg w"

section \<open>Setting up, checking and closing\<close>

fun start_masters :: "(nat \<Rightarrow> string) \<Rightarrow> nat list \<Rightarrow> skv_config \<Rightarrow> skv_config result" where
  "start_masters fresh [] cfg = Inr cfg"
| "start_masters fresh (i # is) cfg = bindR (StartMasterServer fresh i cfg) (start_masters fresh is)"

definition new_group :: "nat \<Rightarrow> skv_config \<Rightarrow> group" where
  "new_group gi cfg = \<lparr>g_gid = 100 + int gi, g_servers = replicate (sc_n cfg) None, g_saved = replicate (sc_n cfg) None,
     g_endnames = replicate (sc_n cfg) None, g_mendnames = replicate (sc_nmasters cfg) None\<rparr>"

fun start_groups :: "(nat \<Rightarrow> string) \<Rightarrow> nat list \<Rightarrow> skv_config \<Rightarrow> skv_config result" where
  "start_groups fresh [] cfg = Inr cfg"
| "start_groups fresh (gi # gis) cfg =
     bindR (set_nth (sc_groups cfg) gi (Some (new_group gi cfg))) (\<lambda>gs.
     bindR (start_servers fresh gi [0..<sc_n cfg] (cfg\<lparr>sc_groups := gs\<rparr>)) (start_groups fresh gis))"

definition make_skv_config :: "(nat \<Rightarrow> string) \<Rightarrow> nat \<Rightarrow> bool \<Rightarrow> int \<Rightarrow> skv_config result" where
  "make_skv_config fresh n unreliable maxraftstate =
     (let cfg = \<lparr>sc_net = MakeNetwork, sc_nmasters = 3, sc_masterservers = replicate 3 None, sc_mck = [], sc_ngroups = 0, sc_n = 0, sc_groups = [],
                 sc_clerks = Map.empty, sc_nextClientId = 0, sc_maxraftstate = maxraftstate, sc_rand = 0, sc_alloc = 0\<rparr>
      in bindR (start_masters fresh [0..<3] cfg) (\<lambda>cfg.
         bindR (shardclerk fresh cfg) (\<lambda>(mck, cfg).
         bindR (start_groups fresh [0..<3] (cfg\<lparr>sc_mck := mck, sc_ngroups := 3, sc_groups := replicate 3 None, sc_n := n\<rparr>)) (\<lambda>cfg.
           Inr (cfg\<lparr>sc_clerks := Map.empty, sc_nextClientId := int n + 1000, sc_net := Reliable (\<not> unreliable) (sc_net cfg)\<rparr>)))))"

fun check_saved :: "int \<Rightarrow> nat list \<Rightarrow> group \<Rightarrow> unit result" where
  "check_saved maxraftstate [] gg = Inr ()"
| "check_saved maxraftstate (i # is) gg =
     bindR (go_nth (g_saved gg) i) (\<lambda>sv. bindR (panic_unless sv) (\<lambda>ps.
       let raft = int (RaftStateSize ps); snap = int (length (ReadSnapshot ps))
       in if maxraftstate \<ge> 0 \<and> raft > 2 * maxraftstate then Inl Fatal
          else if maxraftstate < 0 \<and> snap > 0 then Inl Fatal
          else check_saved maxraftstate is gg))"

fun check_groups :: "nat list \<Rightarrow> skv_config \<Rightarrow> unit result" where
  "check_groups [] cfg = Inr ()"
| "check_groups (gi # gis) cfg =
     (if sc_n cfg = 0 then check_groups gis cfg
      else bindR (go_group gi cfg) (\<lambda>gg. bindR (check_saved (sc_maxraftstate cfg) [0..<sc_n cfg] gg) (\<lambda>_. check_groups gis cfg)))"

definition checklogs :: "skv_config \<Rightarrow> unit result" where
  "checklogs cfg = check_groups [0..<sc_ngroups cfg] cfg"

fun shutdown_groups :: "nat list \<Rightarrow> skv_config \<Rightarrow> skv_config result" where
  "shutdown_groups [] cfg = Inr cfg"
| "shutdown_groups (gi # gis) cfg = bindR (ShutdownGroup gi cfg) (shutdown_groups gis)"

definition sk_cleanup :: "bool \<Rightarrow> int \<Rightarrow> skv_config \<Rightarrow> skv_config result" where
  "sk_cleanup failed elapsed cfg =
     bindR (shutdown_groups [0..<sc_ngroups cfg] cfg) (\<lambda>cfg.
     bindR (Cleanup (sc_net cfg)) (\<lambda>rn.
     bindR (checkTimeout failed elapsed) (\<lambda>_. Inr (cfg\<lparr>sc_net := rn\<rparr>))))"

section \<open>Names and ends\<close>

lemma dash_split: "CHR ''-'' \<notin> set a \<Longrightarrow> CHR ''-'' \<notin> set b \<Longrightarrow> a @ CHR ''-'' # x = b @ CHR ''-'' # y \<Longrightarrow> a = b \<and> x = y"
proof -
  assume n: "CHR ''-'' \<notin> set a" "CHR ''-'' \<notin> set b" and e: "a @ CHR ''-'' # x = b @ CHR ''-'' # y"
  have "takeWhile (\<lambda>c. c \<noteq> CHR ''-'') (l @ CHR ''-'' # z) = l" if "CHR ''-'' \<notin> set l" for l z
    using that by (induction l) auto
  then have "a = b"
    using n e by metis
  then show "a = b \<and> x = y"
    using e by simp
qed

lemma servername_inject: "0 \<le> g \<Longrightarrow> 0 \<le> h \<Longrightarrow> servername g i = servername h j \<longleftrightarrow> g = h \<and> i = j"
  using dash_split [of "nat_str (nat g)" "nat_str (nat h)" "nat_str i" "nat_str j"]
  by (auto simp: servername_def Itoa_nonneg eq_nat_nat_iff)

lemma server_not_master: "servername g i \<noteq> mastername j"
  by (simp add: servername_def mastername_def)

lemma disable_ends_eq: "disable_ends es rn = rn\<lparr>enabled := (\<lambda>x. x \<notin> IStr ` set es \<and> enabled rn x)\<rparr>"
proof (induction es arbitrary: rn)
  case (Cons e es)
  have "(\<lambda>x. x \<notin> IStr ` set es \<and> ((enabled rn)(IStr e := False)) x) = (\<lambda>x. x \<notin> IStr ` set (e # es) \<and> enabled rn x)"
    by auto
  then show ?case
    using Cons.IH [of "Enable (IStr e) False rn"] by (simp add: Enable_def)
qed simp

definition links_to :: "Network \<Rightarrow> string \<Rightarrow> string \<Rightarrow> bool" where
  "links_to rn e server \<longleftrightarrow> connections rn (IStr e) = Some (IStr server)"

lemma linked_ends_ok:
  assumes "distinct (map fst es)" "IStr ` fst ` set es \<inter> ends rn = {}"
  shows "\<exists>rn'. linked_ends es rn = Inr rn' \<and> ends rn' = ends rn \<union> IStr ` fst ` set es \<and> servers rn' = servers rn
    \<and> (\<forall>x. x \<notin> IStr ` fst ` set es \<longrightarrow> enabled rn' x = enabled rn x \<and> connections rn' x = connections rn x)
    \<and> (\<forall>(e, server) \<in> set es. enabled rn' (IStr e) \<and> links_to rn' e server)"
  using assms
proof (induction es arbitrary: rn)
  case (Cons p es)
  obtain e server where p: "p = (e, server)"
    by fastforce
  let ?rn = "rn\<lparr>ends := insert (IStr e) (ends rn), enabled := (enabled rn)(IStr e := True), connections := (connections rn)(IStr e \<mapsto> IStr server)\<rparr>"
  have one: "linked_end e server rn = Inr ?rn"
    using Cons.prems p by (simp add: linked_end_def MakeEnd_def Connect_def Enable_def)
  obtain rn' where rn': "linked_ends es ?rn = Inr rn'" "ends rn' = ends ?rn \<union> IStr ` fst ` set es" "servers rn' = servers ?rn"
    "\<forall>x. x \<notin> IStr ` fst ` set es \<longrightarrow> enabled rn' x = enabled ?rn x \<and> connections rn' x = connections ?rn x"
    "\<forall>(e, server) \<in> set es. enabled rn' (IStr e) \<and> links_to rn' e server"
    using Cons.IH [of ?rn] Cons.prems p by auto
  have "IStr e \<notin> IStr ` fst ` set es"
    using Cons.prems(1) p by auto
  then have "enabled rn' (IStr e) \<and> links_to rn' e server"
    using rn'(4) by (simp add: links_to_def)
  then show ?case
    using one rn' p by (intro exI [of _ rn']) auto
qed auto

lemma sk_draw_facts:
  assumes "inj fresh"
  shows "distinct (sk_draw fresh r k)" "length (sk_draw fresh r k) = k" "set (sk_draw fresh r k) = fresh ` {r..<r + k}"
  using assms by (auto simp: sk_draw_def distinct_map inj_on_def)

text \<open>Ends with names that are drawn next.\<close>

lemma draw_linked_ends:
  assumes f: "inj fresh" and e: "ends rn = IStr ` fresh ` {..<r}" and k: "length srvs = k"
  shows "\<exists>rn'. linked_ends (zip (sk_draw fresh r k) srvs) rn = Inr rn' \<and> ends rn' = IStr ` fresh ` {..<r + k} \<and> servers rn' = servers rn
    \<and> (\<forall>x. x \<notin> IStr ` fresh ` {r..<r + k} \<longrightarrow> enabled rn' x = enabled rn x \<and> connections rn' x = connections rn x)
    \<and> (\<forall>x \<in> fresh ` {r..<r + k}. enabled rn' (IStr x)) \<and> (\<forall>j < k. links_to rn' (sk_draw fresh r k ! j) (srvs ! j))"
proof -
  let ?es = "zip (sk_draw fresh r k) srvs"
  have names: "map fst ?es = sk_draw fresh r k" "fst ` set ?es = fresh ` {r..<r + k}"
    using sk_draw_facts [OF f] k by (simp_all flip: set_map)
  have d: "distinct (map fst ?es)"
    using names(1) sk_draw_facts(1) [OF f] by simp
  have new: "IStr ` fst ` set ?es \<inter> ends rn = {}"
    unfolding names(2) e by (auto simp: inj_eq [OF f])
  obtain rn' where rn': "linked_ends ?es rn = Inr rn'" "ends rn' = ends rn \<union> IStr ` fst ` set ?es" "servers rn' = servers rn"
    "\<forall>x. x \<notin> IStr ` fst ` set ?es \<longrightarrow> enabled rn' x = enabled rn x \<and> connections rn' x = connections rn x"
    "\<forall>(e, server) \<in> set ?es. enabled rn' (IStr e) \<and> links_to rn' e server"
    using linked_ends_ok [OF d new] by blast
  have "{..<r} \<union> {r..<r + k} = {..<r + k}"
    by auto
  then have "ends rn' = IStr ` fresh ` {..<r + k}"
    using rn'(2) e names(2) by (metis image_Un)
  moreover have "links_to rn' (sk_draw fresh r k ! j) (srvs ! j)" if "j < k" for j
    using rn'(5) that k sk_draw_facts(2) [OF f] by (fastforce simp: set_zip)
  moreover have "enabled rn' (IStr x)" if "x \<in> fresh ` {r..<r + k}" for x
    using that rn'(5) unfolding names(2) [symmetric] by auto
  ultimately show ?thesis
    using rn'(1,3,4) names(2) by auto
qed

section \<open>The invariant of the groups\<close>

text \<open>A server as the harness sees it: its group, the running instance, the names of its ends to its group and to the shard masters.\<close>

type_synonym sk_view = "int \<times> nat option \<times> string list option \<times> string list option"

definition sk_view :: "skv_config \<Rightarrow> nat \<times> nat \<Rightarrow> sk_view" where
  "sk_view cfg p = (let gg = the (sc_groups cfg ! fst p) in (g_gid gg, g_servers gg ! snd p, g_endnames gg ! snd p, g_mendnames gg ! snd p))"

definition row_of :: "string list option \<Rightarrow> string list" where
  "row_of r = (case r of None \<Rightarrow> [] | Some r \<Rightarrow> r)"

lemma row_of_simps [simp]: "row_of None = []" "row_of (Some r) = r"
  by (simp_all add: row_of_def)

fun view_names :: "sk_view \<Rightarrow> string set" where
  "view_names (gid, kv, r, m) = set (row_of r) \<union> set (row_of m)"

fun view_ok :: "skv_config \<Rightarrow> nat \<Rightarrow> sk_view \<Rightarrow> bool" where
  "view_ok cfg i (gid, kv, r, m) \<longleftrightarrow>
     (servers (sc_net cfg) (IStr (servername gid i)) = None \<longleftrightarrow> kv = None)
     \<and> (\<forall>x \<in> view_names (gid, kv, r, m). enabled (sc_net cfg) (IStr x) \<longleftrightarrow> kv \<noteq> None)
     \<and> (kv \<noteq> None \<longrightarrow> r \<noteq> None)
     \<and> (r \<noteq> None \<longrightarrow> length (row_of r) = sc_n cfg \<and> (\<forall>j < sc_n cfg. links_to (sc_net cfg) (row_of r ! j) (servername gid j)))
     \<and> (m \<noteq> None \<longrightarrow> length (row_of m) = sc_nmasters cfg \<and> (\<forall>j < sc_nmasters cfg. links_to (sc_net cfg) (row_of m ! j) (mastername j)))"

definition group_shape :: "skv_config \<Rightarrow> nat \<Rightarrow> bool" where
  "group_shape cfg gi \<longleftrightarrow> (\<exists>gg. sc_groups cfg ! gi = Some gg \<and> g_gid gg = 100 + int gi \<and> length (g_servers gg) = sc_n cfg
     \<and> length (g_saved gg) = sc_n cfg \<and> length (g_endnames gg) = sc_n cfg \<and> length (g_mendnames gg) = sc_nmasters cfg)"

text \<open>The servers that can be started: there is a row of ends to the shard masters for as many servers as there are shard masters.\<close>

definition sk_servers :: "nat set \<Rightarrow> skv_config \<Rightarrow> (nat \<times> nat) set" where
  "sk_servers G cfg = G \<times> {..<min (sc_n cfg) (sc_nmasters cfg)}"

definition sk_inv :: "(nat \<Rightarrow> string) \<Rightarrow> nat set \<Rightarrow> skv_config \<Rightarrow> bool" where
  "sk_inv fresh G cfg \<longleftrightarrow> length (sc_groups cfg) = sc_ngroups cfg \<and> G \<subseteq> {..<sc_ngroups cfg}
     \<and> (\<forall>gi \<in> G. group_shape cfg gi)
     \<and> ends (sc_net cfg) = IStr ` fresh ` {..<sc_rand cfg}
     \<and> (\<forall>p \<in> sk_servers G cfg. view_names (sk_view cfg p) \<subseteq> fresh ` {..<sc_rand cfg} \<and> view_ok cfg (snd p) (sk_view cfg p))
     \<and> (\<forall>p \<in> sk_servers G cfg. \<forall>q \<in> sk_servers G cfg. p \<noteq> q \<longrightarrow> view_names (sk_view cfg p) \<inter> view_names (sk_view cfg q) = {})"

lemma view_ok_frame:
  assumes "view_ok cfg i (gid, kv, r, m)" "sc_n cfg' = sc_n cfg" "sc_nmasters cfg' = sc_nmasters cfg"
    and "servers (sc_net cfg') (IStr (servername gid i)) = servers (sc_net cfg) (IStr (servername gid i))"
    and same: "\<And>x. x \<in> view_names (gid, kv, r, m) \<Longrightarrow> enabled (sc_net cfg') (IStr x) = enabled (sc_net cfg) (IStr x) \<and> connections (sc_net cfg') (IStr x) = connections (sc_net cfg) (IStr x)"
  shows "view_ok cfg' i (gid, kv, r, m)"
proof -
  have r: "links_to (sc_net cfg') (row_of r ! j) s = links_to (sc_net cfg) (row_of r ! j) s" if "j < length (row_of r)" for j s
    using that same [of "row_of r ! j"] by (simp add: links_to_def)
  have m: "links_to (sc_net cfg') (row_of m ! j) s = links_to (sc_net cfg) (row_of m ! j) s" if "j < length (row_of m)" for j s
    using that same [of "row_of m ! j"] by (simp add: links_to_def)
  show ?thesis
    using assms r m by (simp del: view_names.simps)
qed

lemma view_gid: "group_shape cfg gi \<Longrightarrow> fst (sk_view cfg (gi, i)) = 100 + int gi"
  by (auto simp: group_shape_def sk_view_def)

text \<open>
  A step changes one server: the names that its new view has are its old ones or newly drawn, the network changes at these names only, and no other
  server is registered or deleted.
\<close>

lemma sk_step_inv:
  assumes I: "sk_inv fresh G cfg" and f: "inj fresh" and p: "p \<in> sk_servers G cfg"
    and same: "sc_n cfg' = sc_n cfg" "sc_nmasters cfg' = sc_nmasters cfg" "sc_ngroups cfg' = sc_ngroups cfg" "length (sc_groups cfg') = length (sc_groups cfg)"
    and shape: "\<And>gi. gi \<in> G \<Longrightarrow> group_shape cfg' gi" and views: "\<And>q. q \<in> sk_servers G cfg \<Longrightarrow> q \<noteq> p \<Longrightarrow> sk_view cfg' q = sk_view cfg q"
    and names: "ends (sc_net cfg') = IStr ` fresh ` {..<sc_rand cfg'}" "sc_rand cfg \<le> sc_rand cfg'"
      "view_names (sk_view cfg' p) \<subseteq> view_names (sk_view cfg p) \<union> fresh ` {sc_rand cfg..<sc_rand cfg'}"
    and net: "\<And>x. x \<notin> view_names (sk_view cfg p) \<Longrightarrow> x \<notin> fresh ` {sc_rand cfg..<sc_rand cfg'} \<Longrightarrow>
        enabled (sc_net cfg') (IStr x) = enabled (sc_net cfg) (IStr x) \<and> connections (sc_net cfg') (IStr x) = connections (sc_net cfg) (IStr x)"
    and srv: "\<And>s. s \<noteq> servername (100 + int (fst p)) (snd p) \<Longrightarrow> servers (sc_net cfg') (IStr s) = servers (sc_net cfg) (IStr s)"
    and ok: "view_ok cfg' (snd p) (sk_view cfg' p)"
  shows "sk_inv fresh G cfg'"
proof -
  let ?S = "sk_servers G cfg"
  have S: "sk_servers G cfg' = ?S"
    using same by (simp add: sk_servers_def)
  have old: "view_names (sk_view cfg q) \<subseteq> fresh ` {..<sc_rand cfg}" "view_ok cfg (snd q) (sk_view cfg q)" if "q \<in> ?S" for q
    using I that by (auto simp: sk_inv_def)
  have apart: "view_names (sk_view cfg q) \<inter> view_names (sk_view cfg q') = {}" if "q \<in> ?S" "q' \<in> ?S" "q \<noteq> q'" for q q'
    using I that by (auto simp: sk_inv_def)
  have clash: "x \<notin> fresh ` {sc_rand cfg..<sc_rand cfg'}" if "x \<in> fresh ` {..<sc_rand cfg}" for x
    using that by (auto simp: inj_eq [OF f])
  have others: "view_ok cfg' (snd q) (sk_view cfg' q)" if q: "q \<in> ?S" "q \<noteq> p" for q
  proof -
    obtain gid kv r m where v: "sk_view cfg q = (gid, kv, r, m)"
      by (metis surj_pair)
    have gid: "gid = 100 + int (fst q)"
      using view_gid [of cfg "fst q" "snd q"] I q(1) v by (auto simp: sk_inv_def sk_servers_def)
    have "servername gid (snd q) \<noteq> servername (100 + int (fst p)) (snd p)"
      using q(2) gid by (auto simp: servername_inject prod_eq_iff)
    moreover have "x \<notin> view_names (sk_view cfg p) \<and> x \<notin> fresh ` {sc_rand cfg..<sc_rand cfg'}" if "x \<in> view_names (gid, kv, r, m)" for x
      using that apart [OF q(1) p q(2)] old(1) [OF q(1)] clash [of x] unfolding v by blast
    ultimately show ?thesis
      unfolding views [OF q] v using view_ok_frame [of cfg "snd q" gid kv r m cfg'] old(2) [OF q(1)] same(1,2) net srv v by simp
  qed
  have grown: "fresh ` {..<sc_rand cfg} \<subseteq> fresh ` {..<sc_rand cfg'}" "fresh ` {sc_rand cfg..<sc_rand cfg'} \<subseteq> fresh ` {..<sc_rand cfg'}"
    using names(2) by auto
  have in_names: "view_names (sk_view cfg' q) \<subseteq> fresh ` {..<sc_rand cfg'}" if "q \<in> ?S" for q
  proof (cases "q = p")
    case True
    then show ?thesis
      using names(3) old(1) [OF p] grown by blast
  next
    case False
    then show ?thesis
      using old(1) [OF that] views [OF that] grown(1) by simp
  qed
  have new_apart: "view_names (sk_view cfg' p) \<inter> view_names (sk_view cfg' q) = {}" if "q \<in> ?S" "q \<noteq> p" for q
  proof -
    have "view_names (sk_view cfg p) \<inter> view_names (sk_view cfg q) = {}" "fresh ` {sc_rand cfg..<sc_rand cfg'} \<inter> view_names (sk_view cfg q) = {}"
      using apart [OF p that(1)] that(2) old(1) [OF that(1)] clash by auto
    then show ?thesis
      unfolding views [OF that] using names(3) by blast
  qed
  have "view_names (sk_view cfg' q) \<inter> view_names (sk_view cfg' q') = {}" if "q \<in> ?S" "q' \<in> ?S" "q \<noteq> q'" for q q'
    using that new_apart [of q] new_apart [of q'] apart [of q q'] views [of q] views [of q'] by (cases "q = p"; cases "q' = p") auto
  then show ?thesis
    using I S same shape names(1) ok others in_names unfolding sk_inv_def by (metis (no_types, lifting))
qed

section \<open>Servers that start and stop\<close>

definition sk_saved :: "skv_config \<Rightarrow> nat \<times> nat \<Rightarrow> Persister option" where
  "sk_saved cfg p = g_saved (the (sc_groups cfg ! fst p)) ! snd p"

definition sk_runs :: "skv_config \<Rightarrow> nat \<times> nat \<Rightarrow> bool" where
  "sk_runs cfg p \<longleftrightarrow> fst (snd (sk_view cfg p)) \<noteq> None"

definition sk_named :: "skv_config \<Rightarrow> nat \<times> nat \<Rightarrow> bool" where
  "sk_named cfg p \<longleftrightarrow> fst (snd (snd (sk_view cfg p))) \<noteq> None"

definition sk_same :: "skv_config \<Rightarrow> skv_config \<Rightarrow> bool" where
  "sk_same cfg cfg' \<longleftrightarrow> sc_n cfg' = sc_n cfg \<and> sc_nmasters cfg' = sc_nmasters cfg \<and> sc_ngroups cfg' = sc_ngroups cfg
     \<and> length (sc_groups cfg') = length (sc_groups cfg)"

text \<open>The new group is put in its place: what the other servers see does not change.\<close>

lemma sk_put_group:
  assumes "gi < length (sc_groups cfg)" "sc_groups cfg ! gi = Some gg"
    and "sc_groups cfg' = (sc_groups cfg)[gi := Some gg']" "g_gid gg' = g_gid gg"
    and "\<And>j. j \<noteq> i \<Longrightarrow> g_servers gg' ! j = g_servers gg ! j \<and> g_endnames gg' ! j = g_endnames gg ! j \<and> g_mendnames gg' ! j = g_mendnames gg ! j \<and> g_saved gg' ! j = g_saved gg ! j"
    and "q \<noteq> (gi, i)"
  shows "sk_view cfg' q = sk_view cfg q \<and> sk_saved cfg' q = sk_saved cfg q"
  using assms by (cases "fst q = gi") (auto simp: sk_view_def sk_saved_def prod_eq_iff)

lemma sk_group:
  assumes "sk_inv fresh G cfg" "(gi, i) \<in> sk_servers G cfg"
  obtains gg where "sc_groups cfg ! gi = Some gg" "gi < length (sc_groups cfg)" "go_group gi cfg = Inr gg" "g_gid gg = 100 + int gi"
    "length (g_servers gg) = sc_n cfg" "length (g_saved gg) = sc_n cfg" "length (g_endnames gg) = sc_n cfg" "length (g_mendnames gg) = sc_nmasters cfg"
    "i < sc_n cfg" "i < sc_nmasters cfg" "gi \<in> G"
proof -
  have g: "gi \<in> G" "i < sc_n cfg" "i < sc_nmasters cfg"
    using assms(2) by (auto simp: sk_servers_def)
  then have "group_shape cfg gi" "gi < length (sc_groups cfg)"
    using assms(1) by (auto simp: sk_inv_def)
  then show ?thesis
    using that g unfolding group_shape_def by (auto simp: go_group_def go_nth_def)
qed

lemma group_shape_put:
  assumes "group_shape cfg gj" "gi < length (sc_groups cfg)" "sc_groups cfg' = (sc_groups cfg)[gi := Some gg']" "sc_n cfg' = sc_n cfg" "sc_nmasters cfg' = sc_nmasters cfg"
    and "g_gid gg' = 100 + int gi" "length (g_servers gg') = sc_n cfg" "length (g_saved gg') = sc_n cfg" "length (g_endnames gg') = sc_n cfg"
      "length (g_mendnames gg') = sc_nmasters cfg"
  shows "group_shape cfg' gj"
  using assms by (cases "gj = gi") (auto simp: group_shape_def)

lemma sk_ShutdownServer_ok:
  assumes I: "sk_inv fresh G cfg" and f: "inj fresh" and p: "(gi, i) \<in> sk_servers G cfg" and named: "sk_named cfg (gi, i)"
  shows "\<exists>cfg'. sk_ShutdownServer gi i cfg = Inr cfg' \<and> sk_inv fresh G cfg' \<and> sk_same cfg cfg' \<and> \<not> sk_runs cfg' (gi, i)
    \<and> (\<forall>q. q \<noteq> (gi, i) \<longrightarrow> sk_runs cfg' q = sk_runs cfg q) \<and> (\<forall>q. sk_named cfg' q = sk_named cfg q) \<and> (\<forall>q. sk_saved cfg' q = sk_saved cfg q)"
proof -
  obtain gg where g: "sc_groups cfg ! gi = Some gg" "gi < length (sc_groups cfg)" "go_group gi cfg = Inr gg" "g_gid gg = 100 + int gi"
    "length (g_servers gg) = sc_n cfg" "length (g_saved gg) = sc_n cfg" "length (g_endnames gg) = sc_n cfg" "length (g_mendnames gg) = sc_nmasters cfg"
    "i < sc_n cfg" "i < sc_nmasters cfg" "gi \<in> G"
    using sk_group [OF I p] .
  obtain kv r m where v: "sk_view cfg (gi, i) = (100 + int gi, kv, Some r, m)" "g_servers gg ! i = kv" "g_endnames gg ! i = Some r" "g_mendnames gg ! i = m"
    using named g(1,4) by (auto simp: sk_view_def sk_named_def)
  have ok: "view_ok cfg i (100 + int gi, kv, Some r, m)"
    using I p v(1) by (auto simp: sk_inv_def)
  then have len: "length r = sc_n cfg"
    by simp
  let ?gg = "gg\<lparr>g_servers := (g_servers gg)[i := None]\<rparr>"
  let ?net = "DeleteServer (IStr (servername (100 + int gi) i)) (disable_ends (row_of m) (disable_ends r (sc_net cfg)))"
  let ?c = "cfg\<lparr>sc_net := ?net, sc_groups := (sc_groups cfg)[gi := Some ?gg]\<rparr>"
  have keep: "(g_saved gg)[i := map_option Copy (g_saved gg ! i)] = g_saved gg"
    using g(6,9) by (intro nth_equalityI) (auto simp: nth_list_update option.map_ident_strong)
  have run: "sk_ShutdownServer gi i cfg = Inr ?c"
    using g v len keep by (simp add: sk_ShutdownServer_def go_nth_def set_nth_def Let_def row_of_def)
  have q: "sk_view ?c q = sk_view cfg q \<and> sk_saved ?c q = sk_saved cfg q" if "q \<noteq> (gi, i)" for q
    using sk_put_group [OF g(2,1), of ?c ?gg i q] that by simp
  have new: "sk_view ?c (gi, i) = (100 + int gi, None, Some r, m)" "sk_saved ?c (gi, i) = sk_saved cfg (gi, i)"
    using g v by (simp_all add: sk_view_def sk_saved_def)
  have net: "servers ?net = (servers (sc_net cfg))(IStr (servername (100 + int gi) i) := None)" "ends ?net = ends (sc_net cfg)" "connections ?net = connections (sc_net cfg)"
    "enabled ?net = (\<lambda>x. x \<notin> IStr ` set (row_of m) \<and> x \<notin> IStr ` set r \<and> enabled (sc_net cfg) x)"
    by (simp_all add: DeleteServer_def disable_ends_eq fun_upd_def)
  have "sk_inv fresh G ?c"
  proof (rule sk_step_inv [OF I f p])
    show "group_shape ?c gj" if "gj \<in> G" for gj
      using group_shape_put [of cfg gj gi ?c ?gg] I that g by (simp add: sk_inv_def)
    show "view_ok ?c (snd (gi, i)) (sk_view ?c (gi, i))"
      using ok unfolding new by (simp add: net links_to_def) auto
    show "view_names (sk_view ?c (gi, i)) \<subseteq> view_names (sk_view cfg (gi, i)) \<union> fresh ` {sc_rand cfg..<sc_rand ?c}"
      unfolding new v by simp
    show "ends (sc_net ?c) = IStr ` fresh ` {..<sc_rand ?c}"
      using I net by (simp add: sk_inv_def)
  qed (use q v net in auto)
  moreover have "sk_same cfg ?c"
    by (simp add: sk_same_def)
  moreover have "\<not> sk_runs ?c (gi, i)" "sk_named ?c q = sk_named cfg q" "sk_saved ?c q = sk_saved cfg q" for q
    using new q [of q] v by (cases "q = (gi, i)"; simp add: sk_runs_def sk_named_def)+
  moreover have "q \<noteq> (gi, i) \<Longrightarrow> sk_runs ?c q = sk_runs cfg q" for q
    using q [of q] by (simp add: sk_runs_def)
  ultimately show ?thesis
    using run by blast
qed

text \<open>The two rows of ends that a server gets when it starts.\<close>

lemma draw_two_rows:
  assumes f: "inj fresh" and e: "ends rn0 = IStr ` fresh ` {..<r}"
  shows "\<exists>rn rn'. linked_ends (zip (sk_draw fresh r n) (map (servername g) [0..<n])) rn0 = Inr rn
    \<and> linked_ends (zip (sk_draw fresh (r + n) m) (map mastername [0..<m])) rn = Inr rn'
    \<and> ends rn' = IStr ` fresh ` {..<r + n + m} \<and> servers rn' = servers rn0
    \<and> (\<forall>x \<in> set (sk_draw fresh r n) \<union> set (sk_draw fresh (r + n) m). enabled rn' (IStr x))
    \<and> (\<forall>j < n. links_to rn' (sk_draw fresh r n ! j) (servername g j)) \<and> (\<forall>j < m. links_to rn' (sk_draw fresh (r + n) m ! j) (mastername j))
    \<and> (\<forall>x. x \<notin> fresh ` {r..<r + n + m} \<longrightarrow> enabled rn' (IStr x) = enabled rn0 (IStr x) \<and> connections rn' (IStr x) = connections rn0 (IStr x))"
proof -
  let ?row = "sk_draw fresh r n" and ?mrow = "sk_draw fresh (r + n) m"
  obtain rn where rn: "linked_ends (zip ?row (map (servername (g)) [0..<n])) rn0 = Inr rn" "ends rn = IStr ` fresh ` {..<r + n}"
    "servers rn = servers rn0"
    "\<forall>x. x \<notin> IStr ` fresh ` {r..<r + n} \<longrightarrow> enabled rn x = enabled rn0 x \<and> connections rn x = connections rn0 x"
    "\<forall>x \<in> fresh ` {r..<r + n}. enabled rn (IStr x)" "\<forall>j < n. links_to rn (?row ! j) (servername (g) j)"
    using draw_linked_ends [OF f e, of "map (servername (g)) [0..<n]" n] by auto
  obtain rn' where rn': "linked_ends (zip ?mrow (map mastername [0..<m])) rn = Inr rn'" "ends rn' = IStr ` fresh ` {..<r + n + m}"
    "servers rn' = servers rn"
    "\<forall>x. x \<notin> IStr ` fresh ` {r + n..<r + n + m} \<longrightarrow> enabled rn' x = enabled rn x \<and> connections rn' x = connections rn x"
    "\<forall>x \<in> fresh ` {r + n..<r + n + m}. enabled rn' (IStr x)" "\<forall>j < m. links_to rn' (?mrow ! j) (mastername j)"
    using draw_linked_ends [OF f rn(2), of "map mastername [0..<m]" m] by auto
  have rows: "set ?row = fresh ` {r..<r + n}" "set ?mrow = fresh ` {r + n..<r + n + m}" "length ?row = n" "length ?mrow = m"
    using sk_draw_facts [OF f] by auto
  have apart: "x \<notin> fresh ` {r + n..<r + n + m}" if "x \<in> set ?row" for x
    using that rows(1) by (auto simp: inj_eq [OF f])
  have row_net: "enabled rn' (IStr x) = enabled rn (IStr x) \<and> connections rn' (IStr x) = connections rn (IStr x)" if "x \<in> set ?row" for x
  proof -
    have "IStr x \<notin> IStr ` fresh ` {r + n..<r + n + m}"
      using apart [OF that] by auto
    then show ?thesis
      using rn'(4) by simp
  qed
  have on: "enabled rn' (IStr x)" if "x \<in> set ?row \<union> set ?mrow" for x
    using that row_net [of x] rn(5) rn'(5) rows by auto
  have links: "links_to rn' (?row ! j) (servername (g) j)" if "j < n" for j
    using rn(6) row_net [of "?row ! j"] that rows(3) nth_mem by (auto simp: links_to_def)
  have rest: "enabled rn' (IStr x) = enabled rn0 (IStr x) \<and> connections rn' (IStr x) = connections rn0 (IStr x)"
    if "x \<notin> fresh ` {r..<r + n + m}" for x
  proof -
    have "IStr x \<notin> IStr ` fresh ` {r + n..<r + n + m}" "IStr x \<notin> IStr ` fresh ` {r..<r + n}"
      using that by auto
    then show ?thesis
      using rn(4) rn'(4) by simp
  qed
  show ?thesis
    using rn(1,3) rn'(1-3,6) on links rest by auto
qed

lemma sk_StartServer_ok:
  assumes I: "sk_inv fresh G cfg" and f: "inj fresh" and p: "(gi, i) \<in> sk_servers G cfg"
  shows "\<exists>cfg'. sk_StartServer fresh gi i cfg = Inr cfg' \<and> sk_inv fresh G cfg' \<and> sk_same cfg cfg' \<and> sk_runs cfg' (gi, i) \<and> sk_named cfg' (gi, i)
    \<and> (\<forall>q. q \<noteq> (gi, i) \<longrightarrow> sk_runs cfg' q = sk_runs cfg q \<and> sk_named cfg' q = sk_named cfg q \<and> sk_saved cfg' q = sk_saved cfg q)
    \<and> sk_saved cfg' (gi, i) = Some (case sk_saved cfg (gi, i) of None \<Rightarrow> MakePersister | Some ps \<Rightarrow> ps)
    \<and> (\<forall>s. s \<noteq> servername (100 + int gi) i \<longrightarrow> servers (sc_net cfg') (IStr s) = servers (sc_net cfg) (IStr s))"
proof -
  obtain gg where g: "sc_groups cfg ! gi = Some gg" "gi < length (sc_groups cfg)" "go_group gi cfg = Inr gg" "g_gid gg = 100 + int gi"
    "length (g_servers gg) = sc_n cfg" "length (g_saved gg) = sc_n cfg" "length (g_endnames gg) = sc_n cfg" "length (g_mendnames gg) = sc_nmasters cfg"
    "i < sc_n cfg" "i < sc_nmasters cfg" "gi \<in> G"
    using sk_group [OF I p] .
  let ?n = "sc_n cfg" and ?r = "sc_rand cfg" and ?nm = "sc_nmasters cfg"
  let ?row = "sk_draw fresh ?r ?n" and ?mrow = "sk_draw fresh (?r + ?n) ?nm"
  have e: "ends (sc_net cfg) = IStr ` fresh ` {..<?r}"
    using I by (simp add: sk_inv_def)
  obtain rn rn' where rn: "linked_ends (zip ?row (map (servername (100 + int gi)) [0..<?n])) (sc_net cfg) = Inr rn"
    "linked_ends (zip ?mrow (map mastername [0..<?nm])) rn = Inr rn'" "ends rn' = IStr ` fresh ` {..<?r + ?n + ?nm}" "servers rn' = servers (sc_net cfg)"
    "\<forall>x \<in> set ?row \<union> set ?mrow. enabled rn' (IStr x)" "\<forall>j < ?n. links_to rn' (?row ! j) (servername (100 + int gi) j)"
    "\<forall>j < ?nm. links_to rn' (?mrow ! j) (mastername j)"
    "\<forall>x. x \<notin> fresh ` {?r..<?r + ?n + ?nm} \<longrightarrow> enabled rn' (IStr x) = enabled (sc_net cfg) (IStr x) \<and> connections rn' (IStr x) = connections (sc_net cfg) (IStr x)"
    using draw_two_rows [OF f e, where g = "100 + int gi" and n = ?n and m = ?nm] by (elim exE conjE)
  let ?kv = "sc_alloc cfg" and ?ps = "case g_saved gg ! i of None \<Rightarrow> MakePersister | Some ps \<Rightarrow> ps"
  let ?gg = "gg\<lparr>g_servers := (g_servers gg)[i := Some ?kv], g_saved := (g_saved gg)[i := Some ?ps],
      g_endnames := (g_endnames gg)[i := Some ?row], g_mendnames := (g_mendnames gg)[i := Some ?mrow]\<rparr>"
  let ?net = "AddServer (IStr (servername (100 + int gi) i)) (Suc ?kv) rn'"
  let ?c = "cfg\<lparr>sc_net := ?net, sc_rand := ?r + ?n + ?nm, sc_alloc := Suc (Suc ?kv), sc_groups := (sc_groups cfg)[gi := Some ?gg]\<rparr>"
  have run: "sk_StartServer fresh gi i cfg = Inr ?c"
    using g rn(1,2) by (simp add: sk_StartServer_def go_nth_def set_nth_def Let_def cong: option.case_cong)
  have q: "sk_view ?c q = sk_view cfg q \<and> sk_saved ?c q = sk_saved cfg q" if "q \<noteq> (gi, i)" for q
    using sk_put_group [OF g(2,1), of ?c ?gg i q] that by simp
  have new: "sk_view ?c (gi, i) = (100 + int gi, Some ?kv, Some ?row, Some ?mrow)" "sk_saved ?c (gi, i) = Some ?ps"
    using g by (simp_all add: sk_view_def sk_saved_def)
  have rows: "set ?row = fresh ` {?r..<?r + ?n}" "set ?mrow = fresh ` {?r + ?n..<?r + ?n + ?nm}" "length ?row = ?n" "length ?mrow = ?nm"
    using sk_draw_facts [OF f] by auto
  have net: "servers ?net = (servers (sc_net cfg))(IStr (servername (100 + int gi) i) \<mapsto> Suc ?kv)" "ends ?net = ends rn'" "connections ?net = connections rn'"
    "enabled ?net = enabled rn'"
    using rn(4) by (simp_all add: AddServer_def)
  have "sk_inv fresh G ?c"
  proof (rule sk_step_inv [OF I f p])
    show "group_shape ?c gj" if "gj \<in> G" for gj
      using group_shape_put [of cfg gj gi ?c ?gg] I that g by (simp add: sk_inv_def)
    show "view_ok ?c (snd (gi, i)) (sk_view ?c (gi, i))"
      unfolding new using rn(5-7) rows(3,4) by (simp add: net links_to_def)
    show "view_names (sk_view ?c (gi, i)) \<subseteq> view_names (sk_view cfg (gi, i)) \<union> fresh ` {sc_rand cfg..<sc_rand ?c}"
      unfolding new using rows(1,2) by auto
    show "enabled (sc_net ?c) (IStr x) = enabled (sc_net cfg) (IStr x) \<and> connections (sc_net ?c) (IStr x) = connections (sc_net cfg) (IStr x)"
      if "x \<notin> fresh ` {sc_rand cfg..<sc_rand ?c}" for x
      using rn(8) that by (simp add: net)
    show "ends (sc_net ?c) = IStr ` fresh ` {..<sc_rand ?c}"
      using rn(3) by (simp add: net)
  qed (use q net in auto)
  moreover have "sk_same cfg ?c"
    by (simp add: sk_same_def)
  moreover have "sk_runs ?c (gi, i)" "sk_named ?c (gi, i)" "sk_saved ?c (gi, i) = Some (case sk_saved cfg (gi, i) of None \<Rightarrow> MakePersister | Some ps \<Rightarrow> ps)"
    using new g(1) by (simp_all add: sk_runs_def sk_named_def sk_saved_def)
  moreover have "q \<noteq> (gi, i) \<Longrightarrow> sk_runs ?c q = sk_runs cfg q \<and> sk_named ?c q = sk_named cfg q \<and> sk_saved ?c q = sk_saved cfg q" for q
    using q [of q] by (simp add: sk_runs_def sk_named_def)
  moreover have "s \<noteq> servername (100 + int gi) i \<Longrightarrow> servers (sc_net ?c) (IStr s) = servers (sc_net cfg) (IStr s)" for s
    by (simp add: net)
  ultimately show ?thesis
    using run by blast
qed

lemma sk_same_refl [simp]: "sk_same cfg cfg"
  by (simp add: sk_same_def)

lemma sk_same_trans: "sk_same cfg cfg1 \<Longrightarrow> sk_same cfg1 cfg2 \<Longrightarrow> sk_same cfg cfg2"
  by (simp add: sk_same_def)

lemma sk_same_servers: "sk_same cfg cfg' \<Longrightarrow> sk_servers G cfg' = sk_servers G cfg"
  by (simp add: sk_same_def sk_servers_def)

lemma start_servers_append: "start_servers fresh gi (xs @ ys) cfg = bindR (start_servers fresh gi xs cfg) (start_servers fresh gi ys)"
  by (induction xs arbitrary: cfg) (auto simp: bindR_def split: sum.splits)

definition or_new :: "Persister option \<Rightarrow> Persister" where
  "or_new sv = (case sv of None \<Rightarrow> MakePersister | Some ps \<Rightarrow> ps)"

lemma start_servers_ok:
  assumes "inj fresh"
  shows "sk_inv fresh G cfg \<Longrightarrow> {gi} \<times> set is \<subseteq> sk_servers G cfg \<Longrightarrow>
    \<exists>cfg'. start_servers fresh gi is cfg = Inr cfg' \<and> sk_inv fresh G cfg' \<and> sk_same cfg cfg'
      \<and> (\<forall>q. sk_runs cfg' q \<longleftrightarrow> q \<in> {gi} \<times> set is \<or> sk_runs cfg q) \<and> (\<forall>q. sk_named cfg' q \<longleftrightarrow> q \<in> {gi} \<times> set is \<or> sk_named cfg q)
      \<and> (\<forall>q. sk_saved cfg' q = (if q \<in> {gi} \<times> set is then Some (or_new (sk_saved cfg q)) else sk_saved cfg q))
      \<and> (\<forall>s. (\<forall>i \<in> set is. s \<noteq> servername (100 + int gi) i) \<longrightarrow> servers (sc_net cfg') (IStr s) = servers (sc_net cfg) (IStr s))"
proof (induction "is" arbitrary: cfg)
  case (Cons i "is")
  obtain c where c: "sk_StartServer fresh gi i cfg = Inr c" "sk_inv fresh G c" "sk_same cfg c" "sk_runs c (gi, i)" "sk_named c (gi, i)"
    "\<forall>q. q \<noteq> (gi, i) \<longrightarrow> sk_runs c q = sk_runs cfg q \<and> sk_named c q = sk_named cfg q \<and> sk_saved c q = sk_saved cfg q"
    "sk_saved c (gi, i) = Some (or_new (sk_saved cfg (gi, i)))"
    "\<forall>s. s \<noteq> servername (100 + int gi) i \<longrightarrow> servers (sc_net c) (IStr s) = servers (sc_net cfg) (IStr s)"
    using sk_StartServer_ok [OF Cons.prems(1) assms, of gi i] Cons.prems(2) unfolding or_new_def by auto
  obtain c' where c': "start_servers fresh gi is c = Inr c'" "sk_inv fresh G c'" "sk_same c c'"
    "\<forall>q. sk_runs c' q \<longleftrightarrow> q \<in> {gi} \<times> set is \<or> sk_runs c q" "\<forall>q. sk_named c' q \<longleftrightarrow> q \<in> {gi} \<times> set is \<or> sk_named c q"
    "\<forall>q. sk_saved c' q = (if q \<in> {gi} \<times> set is then Some (or_new (sk_saved c q)) else sk_saved c q)"
    "\<forall>s. (\<forall>i \<in> set is. s \<noteq> servername (100 + int gi) i) \<longrightarrow> servers (sc_net c') (IStr s) = servers (sc_net c) (IStr s)"
    using Cons.IH [OF c(2)] Cons.prems(2) sk_same_servers [OF c(3)] by auto
  have q: "sk_runs c' q \<longleftrightarrow> q \<in> {gi} \<times> set (i # is) \<or> sk_runs cfg q" "sk_named c' q \<longleftrightarrow> q \<in> {gi} \<times> set (i # is) \<or> sk_named cfg q"
    "sk_saved c' q = (if q \<in> {gi} \<times> set (i # is) then Some (or_new (sk_saved cfg q)) else sk_saved cfg q)" for q
    using spec [OF c'(4), of q] spec [OF c'(5), of q] spec [OF c'(6), of q] spec [OF c(6), of q] c(4,5,7)
    by (cases "q = (gi, i)"; auto simp: or_new_def simp del: split_paired_All)+
  have "(\<forall>i \<in> set (i # is). s \<noteq> servername (100 + int gi) i) \<longrightarrow> servers (sc_net c') (IStr s) = servers (sc_net cfg) (IStr s)" for s
    using c(8) c'(7) by auto
  moreover have "start_servers fresh gi (i # is) cfg = Inr c'"
    using c(1) c'(1) by simp
  ultimately show ?case
    using c'(2) sk_same_trans [OF c(3) c'(3)] q by blast
qed (auto simp: or_new_def)

lemma shutdown_servers_ok:
  assumes "inj fresh"
  shows "sk_inv fresh G cfg \<Longrightarrow> {gi} \<times> set is \<subseteq> sk_servers G cfg \<Longrightarrow> \<forall>q \<in> {gi} \<times> set is. sk_named cfg q \<Longrightarrow>
    \<exists>cfg'. shutdown_servers gi is cfg = Inr cfg' \<and> sk_inv fresh G cfg' \<and> sk_same cfg cfg'
      \<and> (\<forall>q. sk_runs cfg' q \<longleftrightarrow> q \<notin> {gi} \<times> set is \<and> sk_runs cfg q) \<and> (\<forall>q. sk_named cfg' q = sk_named cfg q) \<and> (\<forall>q. sk_saved cfg' q = sk_saved cfg q)"
proof (induction "is" arbitrary: cfg)
  case (Cons i "is")
  obtain c where c: "sk_ShutdownServer gi i cfg = Inr c" "sk_inv fresh G c" "sk_same cfg c" "\<not> sk_runs c (gi, i)"
    "\<forall>q. q \<noteq> (gi, i) \<longrightarrow> sk_runs c q = sk_runs cfg q" "\<forall>q. sk_named c q = sk_named cfg q" "\<forall>q. sk_saved c q = sk_saved cfg q"
    using sk_ShutdownServer_ok [OF Cons.prems(1) assms, of gi i] Cons.prems(2,3) by auto
  obtain c' where c': "shutdown_servers gi is c = Inr c'" "sk_inv fresh G c'" "sk_same c c'"
    "\<forall>q. sk_runs c' q \<longleftrightarrow> q \<notin> {gi} \<times> set is \<and> sk_runs c q" "\<forall>q. sk_named c' q = sk_named c q" "\<forall>q. sk_saved c' q = sk_saved c q"
    using Cons.IH [OF c(2)] Cons.prems(2,3) sk_same_servers [OF c(3)] c(6) by auto
  have "sk_runs c' q \<longleftrightarrow> q \<notin> {gi} \<times> set (i # is) \<and> sk_runs cfg q" for q
    using spec [OF c'(4), of q] spec [OF c(5), of q] c(4) by (cases "q = (gi, i)") auto
  moreover have "shutdown_servers gi (i # is) cfg = Inr c'"
    using c(1) c'(1) by simp
  ultimately show ?case
    using c'(2,5,6) sk_same_trans [OF c(3) c'(3)] c(6,7) by auto
qed auto

section \<open>Setting up\<close>

text \<open>Before the groups are made: the ends have the names that were drawn and no server of a group is registered.\<close>

definition sk_base :: "(nat \<Rightarrow> string) \<Rightarrow> skv_config \<Rightarrow> bool" where
  "sk_base fresh cfg \<longleftrightarrow> ends (sc_net cfg) = IStr ` fresh ` {..<sc_rand cfg} \<and> length (sc_masterservers cfg) = sc_nmasters cfg
     \<and> (\<forall>g i. servers (sc_net cfg) (IStr (servername g i)) = None)"

lemma StartMasterServer_ok:
  assumes B: "sk_base fresh cfg" and f: "inj fresh" and i: "i < sc_nmasters cfg"
  shows "\<exists>cfg'. StartMasterServer fresh i cfg = Inr cfg' \<and> sk_base fresh cfg' \<and> sc_nmasters cfg' = sc_nmasters cfg"
proof -
  have e: "ends (sc_net cfg) = IStr ` fresh ` {..<sc_rand cfg}"
    using B by (simp add: sk_base_def)
  obtain rn where "linked_ends (zip (sk_draw fresh (sc_rand cfg) (sc_nmasters cfg)) (map mastername [0..<sc_nmasters cfg])) (sc_net cfg) = Inr rn"
    "ends rn = IStr ` fresh ` {..<sc_rand cfg + sc_nmasters cfg}" "servers rn = servers (sc_net cfg)"
    using draw_linked_ends [OF f e, of "map mastername [0..<sc_nmasters cfg]"] by auto
  then show ?thesis
    using B i by (auto simp: StartMasterServer_def sk_base_def set_nth_def AddServer_def server_not_master)
qed

lemma start_masters_ok:
  "inj fresh \<Longrightarrow> sk_base fresh cfg \<Longrightarrow> set is \<subseteq> {..<sc_nmasters cfg} \<Longrightarrow>
   \<exists>cfg'. start_masters fresh is cfg = Inr cfg' \<and> sk_base fresh cfg' \<and> sc_nmasters cfg' = sc_nmasters cfg"
proof (induction "is" arbitrary: cfg)
  case (Cons i "is")
  obtain c where c: "StartMasterServer fresh i cfg = Inr c" "sk_base fresh c" "sc_nmasters c = sc_nmasters cfg"
    using StartMasterServer_ok [OF Cons.prems(2,1), of i] Cons.prems(3) by auto
  then show ?case
    using Cons.IH [OF Cons.prems(1) c(2)] Cons.prems(3) by auto
qed simp

lemma shardclerk_ok:
  assumes B: "sk_base fresh cfg" and f: "inj fresh"
  shows "\<exists>mck cfg'. shardclerk fresh cfg = Inr (mck, cfg') \<and> sk_base fresh cfg' \<and> sc_nmasters cfg' = sc_nmasters cfg"
proof -
  have e: "ends (sc_net cfg) = IStr ` fresh ` {..<sc_rand cfg}"
    using B by (simp add: sk_base_def)
  obtain rn where "linked_ends (zip (sk_draw fresh (sc_rand cfg) (sc_nmasters cfg)) (map mastername [0..<sc_nmasters cfg])) (sc_net cfg) = Inr rn"
    "ends rn = IStr ` fresh ` {..<sc_rand cfg + sc_nmasters cfg}" "servers rn = servers (sc_net cfg)"
    using draw_linked_ends [OF f e, of "map mastername [0..<sc_nmasters cfg]"] by auto
  then show ?thesis
    using B by (auto simp: shardclerk_def sk_base_def Let_def)
qed

text \<open>The first \<open>k\<close> groups are made; the servers of the others are not registered.\<close>

definition sk_upto :: "(nat \<Rightarrow> string) \<Rightarrow> nat \<Rightarrow> skv_config \<Rightarrow> bool" where
  "sk_upto fresh k cfg \<longleftrightarrow> sk_inv fresh {..<k} cfg
     \<and> (\<forall>p \<in> sk_servers {..<k} cfg. sk_runs cfg p \<and> sk_named cfg p \<and> sk_saved cfg p = Some MakePersister)
     \<and> (\<forall>g \<ge> k. \<forall>i. servers (sc_net cfg) (IStr (servername (100 + int g) i)) = None)"

lemma new_group_inv:
  assumes U: "sk_upto fresh k cfg" and k: "k < sc_ngroups cfg" and c: "c = cfg\<lparr>sc_groups := (sc_groups cfg)[k := Some (new_group k cfg)]\<rparr>"
  shows "sk_inv fresh {..<Suc k} c" "\<And>i. i < sc_n cfg \<Longrightarrow> sk_saved c (k, i) = None"
    "\<And>p. p \<in> sk_servers {..<k} cfg \<Longrightarrow> sk_view c p = sk_view cfg p \<and> sk_saved c p = sk_saved cfg p"
proof -
  have I: "sk_inv fresh {..<k} cfg" and len: "length (sc_groups cfg) = sc_ngroups cfg"
    using U by (simp_all add: sk_upto_def sk_inv_def)
  have old: "sk_view c p = sk_view cfg p \<and> sk_saved c p = sk_saved cfg p" if "p \<in> sk_servers {..<k} cfg" for p
    using that by (auto simp: c sk_view_def sk_saved_def sk_servers_def)
  then show "\<And>p. p \<in> sk_servers {..<k} cfg \<Longrightarrow> sk_view c p = sk_view cfg p \<and> sk_saved c p = sk_saved cfg p" .
  have new: "sk_view c (k, i) = (100 + int k, None, None, None)" if "i < min (sc_n cfg) (sc_nmasters cfg)" for i
    using that k len by (simp add: c sk_view_def new_group_def)
  show "sk_saved c (k, i) = None" if "i < sc_n cfg" for i
    using that k len by (simp add: c sk_saved_def new_group_def)
  have S: "p \<in> sk_servers {..<Suc k} c \<longleftrightarrow> p \<in> sk_servers {..<k} cfg \<or> fst p = k \<and> snd p < min (sc_n cfg) (sc_nmasters cfg)" for p
    by (cases p) (auto simp: c sk_servers_def)
  have shape: "group_shape c g" if "g < Suc k" for g
    using that I k len by (cases "g = k") (auto simp: c sk_inv_def group_shape_def new_group_def)
  have view: "view_names (sk_view c p) \<subseteq> fresh ` {..<sc_rand c} \<and> view_ok c (snd p) (sk_view c p)" if p: "p \<in> sk_servers {..<Suc k} c" for p
  proof (cases "p \<in> sk_servers {..<k} cfg")
    case True
    obtain gid kv r m where v: "sk_view cfg p = (gid, kv, r, m)"
      by (metis surj_pair)
    have "view_ok cfg (snd p) (sk_view cfg p)" "view_names (sk_view cfg p) \<subseteq> fresh ` {..<sc_rand cfg}"
      using I True by (simp_all add: sk_inv_def)
    then show ?thesis
      using old [OF True] v view_ok_frame [of cfg "snd p" gid kv r m c] by (simp add: c)
  next
    case False
    then have v: "sk_view c p = (100 + int k, None, None, None)"
      using p S [of p] new [of "snd p"] by (metis prod.collapse)
    show ?thesis
      unfolding v using U by (simp add: c sk_upto_def)
  qed
  have none: "view_names (sk_view c p) = {}" if "p \<in> sk_servers {..<Suc k} c" "p \<notin> sk_servers {..<k} cfg" for p
    using that S [of p] new [of "snd p"] by (metis Un_empty list.set(1) prod.collapse row_of_simps(1) view_names.simps)
  have apart: "view_names (sk_view c p) \<inter> view_names (sk_view c q) = {}" if "p \<in> sk_servers {..<Suc k} c" "q \<in> sk_servers {..<Suc k} c" "p \<noteq> q" for p q
  proof (cases "p \<in> sk_servers {..<k} cfg \<and> q \<in> sk_servers {..<k} cfg")
    case True
    then show ?thesis
      using old [of p] old [of q] I that(3) by (simp add: sk_inv_def)
  next
    case False
    then show ?thesis
      using none that(1,2) by blast
  qed
  have base: "length (sc_groups c) = sc_ngroups c" "{..<Suc k} \<subseteq> {..<sc_ngroups c}" "ends (sc_net c) = IStr ` fresh ` {..<sc_rand c}"
    using I k by (auto simp: c sk_inv_def)
  show "sk_inv fresh {..<Suc k} c"
    unfolding sk_inv_def using base shape view apart by simp
qed

lemma start_group_ok:
  assumes U: "sk_upto fresh k cfg" and f: "inj fresh" and k: "k < sc_ngroups cfg" and n: "sc_n cfg \<le> sc_nmasters cfg"
  shows "\<exists>c gs. set_nth (sc_groups cfg) k (Some (new_group k cfg)) = Inr gs \<and> start_servers fresh k [0..<sc_n cfg] (cfg\<lparr>sc_groups := gs\<rparr>) = Inr c
    \<and> sk_upto fresh (Suc k) c \<and> sk_same cfg c"
proof -
  let ?gs = "(sc_groups cfg)[k := Some (new_group k cfg)]"
  let ?c = "cfg\<lparr>sc_groups := ?gs\<rparr>"
  have I: "sk_inv fresh {..<Suc k} ?c"
    using new_group_inv(1) [OF U k refl] .
  have S: "sk_servers {..<Suc k} ?c = sk_servers {..<k} cfg \<union> {k} \<times> set [0..<sc_n cfg]" "sk_servers {..<k} cfg = {..<k} \<times> {..<sc_n cfg}"
    using n by (auto simp: sk_servers_def)
  obtain c where c: "start_servers fresh k [0..<sc_n cfg] ?c = Inr c" "sk_inv fresh {..<Suc k} c" "sk_same ?c c"
    "\<forall>q. sk_runs c q \<longleftrightarrow> q \<in> {k} \<times> set [0..<sc_n cfg] \<or> sk_runs ?c q" "\<forall>q. sk_named c q \<longleftrightarrow> q \<in> {k} \<times> set [0..<sc_n cfg] \<or> sk_named ?c q"
    "\<forall>q. sk_saved c q = (if q \<in> {k} \<times> set [0..<sc_n cfg] then Some (or_new (sk_saved ?c q)) else sk_saved ?c q)"
    "\<forall>s. (\<forall>i \<in> set [0..<sc_n cfg]. s \<noteq> servername (100 + int k) i) \<longrightarrow> servers (sc_net c) (IStr s) = servers (sc_net ?c) (IStr s)"
    using start_servers_ok [OF f I, of k "[0..<sc_n cfg]"] S by blast
  have same: "sk_same cfg c"
    using c(3) by (simp add: sk_same_def)
  have "sk_runs c p \<and> sk_named c p \<and> sk_saved c p = Some MakePersister" if p: "p \<in> sk_servers {..<Suc k} c" for p
  proof (cases "p \<in> {k} \<times> set [0..<sc_n cfg]")
    case True
    then have "sk_saved ?c p = None"
      using new_group_inv(2) [OF U k refl] by auto
    then show ?thesis
      using c(4-6) True by (simp add: or_new_def del: split_paired_All)
  next
    case False
    then have "p \<in> sk_servers {..<k} cfg"
      using p sk_same_servers [OF c(3)] S by auto
    then show ?thesis
      using c(4-6) False U new_group_inv(3) [OF U k refl, of p] by (simp add: sk_upto_def sk_runs_def sk_named_def del: split_paired_All)
  qed
  moreover have "servers (sc_net c) (IStr (servername (100 + int g) i)) = None" if "g \<ge> Suc k" for g i
    using c(7) that U by (simp add: sk_upto_def servername_inject)
  ultimately have "sk_upto fresh (Suc k) c"
    using c(2) by (simp add: sk_upto_def)
  moreover have "set_nth (sc_groups cfg) k (Some (new_group k cfg)) = Inr ?gs"
    using U k by (simp add: sk_upto_def sk_inv_def set_nth_def)
  ultimately show ?thesis
    using c(1) same by blast
qed

lemma start_groups_ok:
  assumes "inj fresh"
  shows "sk_upto fresh k cfg \<Longrightarrow> k + d \<le> sc_ngroups cfg \<Longrightarrow> sc_n cfg \<le> sc_nmasters cfg \<Longrightarrow>
    \<exists>c. start_groups fresh [k..<k + d] cfg = Inr c \<and> sk_upto fresh (k + d) c \<and> sk_same cfg c"
proof (induction d arbitrary: k cfg)
  case (Suc d)
  obtain c gs where c: "set_nth (sc_groups cfg) k (Some (new_group k cfg)) = Inr gs" "start_servers fresh k [0..<sc_n cfg] (cfg\<lparr>sc_groups := gs\<rparr>) = Inr c"
    "sk_upto fresh (Suc k) c" "sk_same cfg c"
    using start_group_ok [OF Suc.prems(1) assms] Suc.prems(2,3) by auto
  obtain c' where "start_groups fresh [Suc k..<Suc k + d] c = Inr c'" "sk_upto fresh (Suc k + d) c'" "sk_same c c'"
    using Suc.IH [OF c(3)] Suc.prems(2,3) c(4) by (auto simp: sk_same_def)
  moreover have "[k..<k + Suc d] = k # [Suc k..<Suc k + d]"
    by (subst upt_conv_Cons) auto
  ultimately show ?case
    using c sk_same_trans [OF c(4)] by auto
qed simp

text \<open>There is no row for a server beyond the number of shard masters.\<close>

lemma start_beyond:
  assumes U: "sk_upto fresh 0 cfg" and f: "inj fresh" and k: "0 < sc_ngroups cfg" and n: "sc_nmasters cfg < sc_n cfg"
  shows "start_groups fresh (0 # gis) cfg = Inl Panic"
proof -
  let ?gs = "(sc_groups cfg)[0 := Some (new_group 0 cfg)]" and ?nm = "sc_nmasters cfg"
  let ?c = "cfg\<lparr>sc_groups := ?gs\<rparr>"
  have I: "sk_inv fresh {..<Suc 0} ?c"
    using new_group_inv(1) [OF U k refl] .
  have "{0} \<times> set [0..<?nm] \<subseteq> sk_servers {..<Suc 0} ?c"
    using n by (auto simp: sk_servers_def)
  then obtain c where c: "start_servers fresh 0 [0..<?nm] ?c = Inr c" "sk_inv fresh {..<Suc 0} c" "sk_same ?c c"
    using start_servers_ok [OF f I, of 0 "[0..<?nm]"] by blast
  have same: "sc_n c = sc_n cfg" "sc_nmasters c = ?nm"
    using c(3) by (simp_all add: sk_same_def)
  obtain gg where gg: "go_group 0 c = Inr gg" "length (g_endnames gg) = sc_n cfg" "length (g_mendnames gg) = ?nm"
  proof -
    have "group_shape c 0" "0 < length (sc_groups c)"
      using c(2) by (auto simp: sk_inv_def)
    then show ?thesis
      using that same by (auto simp: group_shape_def go_group_def go_nth_def)
  qed
  have e: "ends (sc_net c) = IStr ` fresh ` {..<sc_rand c}"
    using c(2) by (simp add: sk_inv_def)
  obtain rn where "linked_ends (zip (sk_draw fresh (sc_rand c) (sc_n cfg)) (map (servername (g_gid gg)) [0..<sc_n cfg])) (sc_net c) = Inr rn"
    using draw_linked_ends [OF f e, of "map (servername (g_gid gg)) [0..<sc_n cfg]"] by auto
  then have "sk_StartServer fresh 0 ?nm c = Inl Panic"
    using gg n same by (simp add: sk_StartServer_def set_nth_def Let_def)
  moreover have "[0..<sc_n cfg] = [0..<?nm] @ ?nm # [Suc ?nm..<sc_n cfg]"
    using upt_add_eq_append [of 0 ?nm "sc_n cfg - ?nm"] n by (simp add: upt_conv_Cons)
  ultimately have "start_servers fresh 0 [0..<sc_n cfg] ?c = Inl Panic"
    using c(1) by (simp add: start_servers_append)
  then show ?thesis
    using U k by (simp add: set_nth_def sk_upto_def sk_inv_def)
qed

section \<open>Sequences of operations\<close>

text \<open>What a test and a running server do; a server saves by the persister it was given.\<close>

datatype sk_op = SkShutdown nat nat | SkStart nat nat | SkShutdownGroup nat | SkStartGroup nat | SkSave nat nat string string

definition sk_save :: "nat \<Rightarrow> nat \<Rightarrow> string \<Rightarrow> string \<Rightarrow> skv_config \<Rightarrow> skv_config result" where
  "sk_save gi i state snap cfg =
     bindR (go_group gi cfg) (\<lambda>gg.
     bindR (go_nth (g_servers gg) i) (\<lambda>kv.
     bindR (go_nth (g_saved gg) i) (\<lambda>sv.
       Inr (if kv = None then cfg
            else cfg\<lparr>sc_groups := (sc_groups cfg)[gi := Some (gg\<lparr>g_saved := (g_saved gg)[i := map_option (SaveStateAndSnapshot state snap) sv]\<rparr>)]\<rparr>))))"

fun sk_run_op :: "(nat \<Rightarrow> string) \<Rightarrow> sk_op \<Rightarrow> skv_config \<Rightarrow> skv_config result" where
  "sk_run_op fresh (SkShutdown gi i) cfg = sk_ShutdownServer gi i cfg"
| "sk_run_op fresh (SkStart gi i) cfg = sk_StartServer fresh gi i cfg"
| "sk_run_op fresh (SkShutdownGroup gi) cfg = ShutdownGroup gi cfg"
| "sk_run_op fresh (SkStartGroup gi) cfg = StartGroup fresh gi cfg"
| "sk_run_op fresh (SkSave gi i state snap) cfg = sk_save gi i state snap cfg"

text \<open>The specification: which servers run, and what each has saved last.\<close>

type_synonym sk_abs = "(nat \<times> nat \<Rightarrow> bool) \<times> (nat \<times> nat \<Rightarrow> Persister)"

fun abs_op :: "sk_op \<Rightarrow> sk_abs \<Rightarrow> sk_abs" where
  "abs_op (SkShutdown gi i) (R, P) = (R((gi, i) := False), P)"
| "abs_op (SkStart gi i) (R, P) = (R((gi, i) := True), P)"
| "abs_op (SkShutdownGroup gi) (R, P) = ((\<lambda>q. fst q \<noteq> gi \<and> R q), P)"
| "abs_op (SkStartGroup gi) (R, P) = ((\<lambda>q. fst q = gi \<or> R q), P)"
| "abs_op (SkSave gi i state snap) (R, P) = (R, if R (gi, i) then P((gi, i) := \<lparr>raftstate = state, snapshot = snap\<rparr>) else P)"

fun op_in :: "nat \<Rightarrow> nat \<Rightarrow> sk_op \<Rightarrow> bool" where
  "op_in ng n (SkShutdown gi i) \<longleftrightarrow> gi < ng \<and> i < n"
| "op_in ng n (SkStart gi i) \<longleftrightarrow> gi < ng \<and> i < n"
| "op_in ng n (SkShutdownGroup gi) \<longleftrightarrow> gi < ng"
| "op_in ng n (SkStartGroup gi) \<longleftrightarrow> gi < ng"
| "op_in ng n (SkSave gi i state snap) \<longleftrightarrow> gi < ng \<and> i < n"

definition sk_refines :: "(nat \<Rightarrow> string) \<Rightarrow> nat \<Rightarrow> nat \<Rightarrow> skv_config \<Rightarrow> sk_abs \<Rightarrow> bool" where
  "sk_refines fresh ng n cfg A \<longleftrightarrow> sk_inv fresh {..<ng} cfg \<and> sc_ngroups cfg = ng \<and> sc_n cfg = n \<and> n \<le> sc_nmasters cfg
     \<and> (\<forall>g < ng. \<forall>i < n. sk_named cfg (g, i) \<and> sk_runs cfg (g, i) = fst A (g, i) \<and> sk_saved cfg (g, i) = Some (snd A (g, i)))"

lemma refines_servers: "sk_refines fresh ng n cfg A \<Longrightarrow> sk_servers {..<ng} cfg = {..<ng} \<times> {..<n}"
  by (auto simp: sk_refines_def sk_servers_def)

lemma refinesI:
  assumes "sk_refines fresh ng n cfg A" "sk_inv fresh {..<ng} cfg'" "sk_same cfg cfg'"
    and "\<And>g i. g < ng \<Longrightarrow> i < n \<Longrightarrow> sk_named cfg' (g, i) \<and> sk_runs cfg' (g, i) = fst A' (g, i) \<and> sk_saved cfg' (g, i) = Some (snd A' (g, i))"
  shows "sk_refines fresh ng n cfg' A'"
  using assms by (simp add: sk_refines_def sk_same_def)

lemma start_refines:
  assumes R: "sk_refines fresh ng n cfg A" and f: "inj fresh" and "gi < ng" "set is \<subseteq> {..<n}"
  shows "\<exists>cfg'. start_servers fresh gi is cfg = Inr cfg' \<and> sk_refines fresh ng n cfg' (\<lambda>q. q \<in> {gi} \<times> set is \<or> fst A q, snd A)"
proof -
  have I: "sk_inv fresh {..<ng} cfg" "{gi} \<times> set is \<subseteq> sk_servers {..<ng} cfg"
    using R assms(3,4) refines_servers [OF R] by (auto simp: sk_refines_def)
  obtain c where c: "start_servers fresh gi is cfg = Inr c" "sk_inv fresh {..<ng} c" "sk_same cfg c"
    "\<forall>q. sk_runs c q \<longleftrightarrow> q \<in> {gi} \<times> set is \<or> sk_runs cfg q" "\<forall>q. sk_named c q \<longleftrightarrow> q \<in> {gi} \<times> set is \<or> sk_named cfg q"
    "\<forall>q. sk_saved c q = (if q \<in> {gi} \<times> set is then Some (or_new (sk_saved cfg q)) else sk_saved cfg q)"
    using start_servers_ok [OF f I] by blast
  have "sk_refines fresh ng n c (\<lambda>q. q \<in> {gi} \<times> set is \<or> fst A q, snd A)"
    using R c(4-6) by (intro refinesI [OF R c(2,3)]) (auto simp: sk_refines_def or_new_def)
  then show ?thesis
    using c(1) by blast
qed

lemma shutdown_refines:
  assumes R: "sk_refines fresh ng n cfg A" and f: "inj fresh" and "gi < ng" "set is \<subseteq> {..<n}"
  shows "\<exists>cfg'. shutdown_servers gi is cfg = Inr cfg' \<and> sk_refines fresh ng n cfg' (\<lambda>q. q \<notin> {gi} \<times> set is \<and> fst A q, snd A)"
proof -
  have I: "sk_inv fresh {..<ng} cfg" "{gi} \<times> set is \<subseteq> sk_servers {..<ng} cfg" "\<forall>q \<in> {gi} \<times> set is. sk_named cfg q"
    using R assms(3,4) refines_servers [OF R] by (auto simp: sk_refines_def)
  obtain c where c: "shutdown_servers gi is cfg = Inr c" "sk_inv fresh {..<ng} c" "sk_same cfg c"
    "\<forall>q. sk_runs c q \<longleftrightarrow> q \<notin> {gi} \<times> set is \<and> sk_runs cfg q" "\<forall>q. sk_named c q = sk_named cfg q" "\<forall>q. sk_saved c q = sk_saved cfg q"
    using shutdown_servers_ok [OF f I] by blast
  have "sk_refines fresh ng n c (\<lambda>q. q \<notin> {gi} \<times> set is \<and> fst A q, snd A)"
    using R c(4-6) by (intro refinesI [OF R c(2,3)]) (auto simp: sk_refines_def)
  then show ?thesis
    using c(1) by blast
qed

lemma save_refines:
  assumes R: "sk_refines fresh ng n cfg A" and g: "gi < ng" "i < n"
  shows "\<exists>cfg'. sk_save gi i state snap cfg = Inr cfg' \<and> sk_refines fresh ng n cfg' (abs_op (SkSave gi i state snap) A)"
proof -
  have I: "sk_inv fresh {..<ng} cfg" and p: "(gi, i) \<in> sk_servers {..<ng} cfg"
    using R g refines_servers [OF R] by (auto simp: sk_refines_def)
  obtain gg where gg: "sc_groups cfg ! gi = Some gg" "gi < length (sc_groups cfg)" "go_group gi cfg = Inr gg" "g_gid gg = 100 + int gi"
    "length (g_servers gg) = sc_n cfg" "length (g_saved gg) = sc_n cfg" "length (g_endnames gg) = sc_n cfg" "length (g_mendnames gg) = sc_nmasters cfg"
    "i < sc_n cfg" "i < sc_nmasters cfg" "gi \<in> {..<ng}"
    using sk_group [OF I p] .
  have now: "g_servers gg ! i \<noteq> None \<longleftrightarrow> fst A (gi, i)" "g_saved gg ! i = Some (snd A (gi, i))"
  proof -
    have "sk_runs cfg (gi, i) = fst A (gi, i)" "sk_saved cfg (gi, i) = Some (snd A (gi, i))"
      using R g by (simp_all add: sk_refines_def)
    then show "g_servers gg ! i \<noteq> None \<longleftrightarrow> fst A (gi, i)" "g_saved gg ! i = Some (snd A (gi, i))"
      using gg(1) by (simp_all add: sk_runs_def sk_view_def sk_saved_def Let_def)
  qed
  let ?gg = "gg\<lparr>g_saved := (g_saved gg)[i := Some \<lparr>raftstate = state, snapshot = snap\<rparr>]\<rparr>"
  let ?c = "cfg\<lparr>sc_groups := (sc_groups cfg)[gi := Some ?gg]\<rparr>"
  have run: "sk_save gi i state snap cfg = Inr (if fst A (gi, i) then ?c else cfg)"
  proof -
    have "SaveStateAndSnapshot state snap ps = \<lparr>raftstate = state, snapshot = snap\<rparr>" for ps
      by (cases ps) (simp add: SaveStateAndSnapshot_def)
    then show ?thesis
      using gg now by (cases "fst A (gi, i)") (auto simp: sk_save_def go_nth_def)
  qed
  have view: "sk_view ?c q = sk_view cfg q" for q
    using gg(1,2) by (cases "fst q = gi") (simp_all add: sk_view_def)
  have saved: "sk_saved ?c q = (if q = (gi, i) then Some \<lparr>raftstate = state, snapshot = snap\<rparr> else sk_saved cfg q)" for q
    using gg(1,2,6,9) by (cases "fst q = gi") (auto simp: sk_saved_def prod_eq_iff)
  have "group_shape ?c g" if "g \<in> {..<ng}" for g
    using group_shape_put [of cfg g gi ?c ?gg] I that gg by (simp add: sk_inv_def)
  moreover have "view_ok ?c j v = view_ok cfg j v" for j v
    by (cases v) simp
  ultimately have "sk_inv fresh {..<ng} ?c"
    using I unfolding sk_inv_def view by (simp add: sk_servers_def)
  then have "sk_refines fresh ng n ?c (fst A, (snd A)((gi, i) := \<lparr>raftstate = state, snapshot = snap\<rparr>))"
    using R by (intro refinesI [OF R]) (auto simp: sk_refines_def sk_same_def saved sk_runs_def sk_named_def view)
  then show ?thesis
    using run R by (cases A) (auto split: if_splits)
qed

lemma sk_op_refines:
  assumes R: "sk_refines fresh ng n cfg A" and f: "inj fresh" and x: "op_in ng n x"
  shows "\<exists>cfg'. sk_run_op fresh x cfg = Inr cfg' \<and> sk_refines fresh ng n cfg' (abs_op x A)"
proof -
  obtain R0 P0 where A: "A = (R0, P0)"
    by fastforce
  have n: "sc_n cfg = n"
    using R by (simp add: sk_refines_def)
  have cong: "sk_refines fresh ng n c (R1, P0) \<Longrightarrow> (\<And>g i. i < n \<Longrightarrow> R1 (g, i) = R2 (g, i)) \<Longrightarrow> sk_refines fresh ng n c (R2, P0)" for c R1 R2
    by (simp add: sk_refines_def)
  show ?thesis
  proof (cases x)
    case (SkShutdown gi i)
    then obtain c where c: "sk_ShutdownServer gi i cfg = Inr c" "sk_refines fresh ng n c (\<lambda>q. q \<notin> {gi} \<times> set [i] \<and> R0 q, P0)"
      using shutdown_refines [OF R f, of gi "[i]"] x A by (auto simp: bindR_Inr_iff)
    then show ?thesis
      using cong [OF c(2), of "R0((gi, i) := False)"] SkShutdown A by simp
  next
    case (SkStart gi i)
    then obtain c where c: "sk_StartServer fresh gi i cfg = Inr c" "sk_refines fresh ng n c (\<lambda>q. q \<in> {gi} \<times> set [i] \<or> R0 q, P0)"
      using start_refines [OF R f, of gi "[i]"] x A by (auto simp: bindR_Inr_iff)
    have "sk_refines fresh ng n c (R0((gi, i) := True), P0)"
      by (rule cong [OF c(2)]) auto
    then show ?thesis
      using c(1) SkStart A by simp
  next
    case (SkShutdownGroup gi)
    then obtain c where c: "ShutdownGroup gi cfg = Inr c" "sk_refines fresh ng n c (\<lambda>q. q \<notin> {gi} \<times> set [0..<n] \<and> R0 q, P0)"
      using shutdown_refines [OF R f, of gi "[0..<n]"] x A n by (auto simp: ShutdownGroup_def atLeast0LessThan)
    then show ?thesis
      using cong [OF c(2), of "\<lambda>q. fst q \<noteq> gi \<and> R0 q"] SkShutdownGroup A by simp
  next
    case (SkStartGroup gi)
    then obtain c where c: "StartGroup fresh gi cfg = Inr c" "sk_refines fresh ng n c (\<lambda>q. q \<in> {gi} \<times> set [0..<n] \<or> R0 q, P0)"
      using start_refines [OF R f, of gi "[0..<n]"] x A n by (auto simp: StartGroup_def atLeast0LessThan)
    then show ?thesis
      using cong [OF c(2), of "\<lambda>q. fst q = gi \<or> R0 q"] SkStartGroup A by simp
  next
    case (SkSave gi i state snap)
    then show ?thesis
      using save_refines [OF R] x by simp
  qed
qed

interpretation sk_steps: refining_steps "sk_run_op fresh" abs_op "op_in ng n" "\<lambda>cfg A. inj fresh \<and> sk_refines fresh ng n cfg A" for fresh ng n
  by unfold_locales (use sk_op_refines in blast)

lemma make_skv_config_ok:
  assumes f: "inj fresh"
  shows "if n \<le> 3
    then \<exists>cfg. make_skv_config fresh n unreliable maxraftstate = Inr cfg \<and> sk_refines fresh 3 n cfg (\<lambda>_. True, \<lambda>_. MakePersister) \<and> sc_nmasters cfg = 3
    else make_skv_config fresh n unreliable maxraftstate = Inl Panic"
proof -
  let ?c0 = "\<lparr>sc_net = MakeNetwork, sc_nmasters = 3, sc_masterservers = replicate 3 None, sc_mck = [], sc_ngroups = 0, sc_n = 0, sc_groups = [],
                 sc_clerks = Map.empty, sc_nextClientId = 0, sc_maxraftstate = maxraftstate, sc_rand = 0, sc_alloc = 0\<rparr>"
  have "sk_base fresh ?c0"
    by (simp add: sk_base_def MakeNetwork_def)
  then obtain c1 where c1: "start_masters fresh [0..<3] ?c0 = Inr c1" "sk_base fresh c1" "sc_nmasters c1 = 3"
    using start_masters_ok [OF f, of ?c0 "[0..<3]"] by (auto simp: atLeast0LessThan)
  obtain mck c2 where c2: "shardclerk fresh c1 = Inr (mck, c2)" "sk_base fresh c2" "sc_nmasters c2 = 3"
    using shardclerk_ok [OF c1(2) f] c1(3) by auto
  let ?c3 = "c2\<lparr>sc_mck := mck, sc_ngroups := 3, sc_groups := replicate 3 None, sc_n := n\<rparr>"
  have U: "sk_upto fresh 0 ?c3"
    using c2(2) by (simp add: sk_upto_def sk_inv_def sk_base_def sk_servers_def)
  show ?thesis
  proof (cases "n \<le> 3")
    case True
    then obtain c4 where c4: "start_groups fresh [0..<3] ?c3 = Inr c4" "sk_upto fresh 3 c4" "sk_same ?c3 c4"
      using start_groups_ok [OF f U, of 3] c2(3) by auto
    let ?c = "c4\<lparr>sc_clerks := Map.empty, sc_nextClientId := int n + 1000, sc_net := Reliable (\<not> unreliable) (sc_net c4)\<rparr>"
    have same: "sk_view ?c = sk_view c4" "sk_saved ?c = sk_saved c4" "sk_runs ?c = sk_runs c4" "sk_named ?c = sk_named c4" "group_shape ?c = group_shape c4"
      "sk_servers {..<3} ?c = sk_servers {..<3} c4"
      by (simp_all add: sk_view_def sk_saved_def sk_runs_def sk_named_def group_shape_def sk_servers_def fun_eq_iff)
    have "view_ok ?c j v = view_ok c4 j v" for j v
      by (cases v) (simp add: Reliable_def links_to_def)
    then have "sk_inv fresh {..<3} ?c"
      using c4(2) unfolding sk_upto_def sk_inv_def same by (simp add: Reliable_def)
    then have "sk_refines fresh 3 n ?c (\<lambda>_. True, \<lambda>_. MakePersister)" "sc_nmasters ?c = 3"
      using c4(2,3) c2(3) True by (auto simp: sk_refines_def same sk_same_def sk_upto_def sk_servers_def)
    moreover have "make_skv_config fresh n unreliable maxraftstate = Inr ?c"
      using c1(1) c2(1) c4(1) by (simp add: make_skv_config_def)
    ultimately show ?thesis
      using True by auto
  next
    case False
    moreover have "[0..<3] = 0 # [Suc 0..<3]"
      by (simp add: upt_conv_Cons)
    ultimately show ?thesis
      using c1(1) c2(1,3) start_beyond [OF U f] by (simp add: make_skv_config_def)
  qed
qed

lemma client_ends_ok:
  assumes f: "inj fresh"
  shows "ends rn = IStr ` fresh ` {..<r} \<Longrightarrow>
    (if k = 0 \<or> j + k \<le> length names then \<exists>x. client_ends j (sk_draw fresh r k) names rn = Inr x else client_ends j (sk_draw fresh r k) names rn = Inl Panic)"
proof (induction k arbitrary: j r names rn)
  case (Suc k)
  have draw: "sk_draw fresh r (Suc k) = fresh r # sk_draw fresh (Suc r) k"
    by (simp add: sk_draw_def upt_conv_Cons del: upt_Suc)
  have "IStr (fresh r) \<notin> ends rn"
    using Suc.prems by (auto simp: inj_eq [OF f])
  then obtain rn' where rn': "linked_end (fresh r) (mastername j) rn = Inr rn'" "ends rn' = insert (IStr (fresh r)) (ends rn)"
    by (simp add: linked_end_def MakeEnd_def Connect_def Enable_def)
  then have "ends rn' = IStr ` fresh ` {..<Suc r}"
    using Suc.prems by (simp add: lessThan_Suc)
  then show ?case
    using Suc.IH [of rn' "Suc r" "Suc j" "names[j := fresh r]"] rn'(1) draw by (cases "j < length names") (auto simp: set_nth_def split: if_splits)
qed (simp add: sk_draw_def)

section \<open>Properties\<close>

text \<open>
  The harness of the sharded exercise works for groups of exactly three servers. With more servers its setup panics, because the table of ends to the
  shard masters has as many rows as there are shard masters; with fewer the setup succeeds and no clerk can be made, because the list of
  its ends has as many entries as a group has servers.
\<close>

theorem skv_three_servers:
  assumes "inj fresh"
  shows "(n > 3 \<longrightarrow> make_skv_config fresh n unreliable maxraftstate = Inl Panic)
    \<and> (n \<le> 3 \<longrightarrow> (\<exists>cfg. make_skv_config fresh n unreliable maxraftstate = Inr cfg
         \<and> (if n = 3 then \<exists>r. sk_makeClient fresh cfg = Inr r else sk_makeClient fresh cfg = Inl Panic)))"
proof (cases "n \<le> 3")
  case True
  obtain cfg where cfg: "make_skv_config fresh n unreliable maxraftstate = Inr cfg" "sk_refines fresh 3 n cfg (\<lambda>_. True, \<lambda>_. MakePersister)" "sc_nmasters cfg = 3"
    using make_skv_config_ok [OF assms, of n unreliable maxraftstate] True by auto
  then have "ends (sc_net cfg) = IStr ` fresh ` {..<sc_rand cfg}" "sc_n cfg = n"
    by (simp_all add: sk_refines_def sk_inv_def)
  then have "if n = 3 then \<exists>r. sk_makeClient fresh cfg = Inr r else sk_makeClient fresh cfg = Inl Panic"
    using client_ends_ok [OF assms, where rn = "sc_net cfg" and r = "sc_rand cfg" and j = 0 and k = 3 and names = "replicate n []"] cfg(3) True by (auto simp: sk_makeClient_def Let_def)
  then show ?thesis
    using cfg(1) True by auto
next
  case False
  then show ?thesis
    using make_skv_config_ok [OF assms, of n unreliable maxraftstate] by auto
qed


theorem skv_three_servers_witness:
  "make_skv_config (\<lambda>m. replicate m CHR ''x'') 4 False 1000 = Inl Panic
   \<and> (\<exists>cfg. make_skv_config (\<lambda>m. replicate m CHR ''x'') 2 False 1000 = Inr cfg \<and> sk_makeClient (\<lambda>m. replicate m CHR ''x'') cfg = Inl Panic)"
proof -
  have f: "inj (\<lambda>m. replicate m CHR ''x'')"
    by (rule injI) (metis length_replicate)
  have "make_skv_config (\<lambda>m. replicate m CHR ''x'') 4 False 1000 = Inl Panic"
    using skv_three_servers [OF f, of 4 False 1000] by simp
  moreover have "\<exists>cfg. make_skv_config (\<lambda>m. replicate m CHR ''x'') 2 False 1000 = Inr cfg \<and> sk_makeClient (\<lambda>m. replicate m CHR ''x'') cfg = Inl Panic"
    using skv_three_servers [OF f, of 2 False 1000] by simp
  ultimately show ?thesis
    by blast
qed


end
