(* ===== verification/Exercises.thy ===== *)
theory Exercises
  imports RaftConfig ShardConfig
begin

text \<open>
  The servers of the exercises as the repository has them (\<open>src/lab4/src/raft/raft.go\<close>, \<open>kvraft/server.go\<close>, \<open>kvraft/client.go\<close>, \<open>shardmaster/server.go\<close>,
  \<open>shardkv/server.go\<close>): constructors that fill in a struct, and handlers with an empty body. A handler with an empty body leaves the reply as it is, and so does
  the decoding of that reply at the client. Composed with the harnesses and the clerks they show what the tests and clients observe: the Raft checks end every
  test, and the clerk of the sharded service never returns.

  \<^item> Channels and mutexes are left out of the structs, because no handler uses them. A receiver may be nil: the methods do not look at it.
\<close>

section \<open>Raft\<close>

record Raft =
  rt_peers :: "string list"
  rt_persister :: Persister
  rt_me :: nat

definition GetState :: "Raft option \<Rightarrow> int \<times> bool" where
  "GetState rf = (let trm = 0; isleader = False in (trm, isleader))"

definition persist :: "Raft \<Rightarrow> Raft" where
  "persist rf = rf"

definition readPersist :: "string \<Rightarrow> Raft \<Rightarrow> Raft" where
  "readPersist data rf = (if length data < 1 then rf else rf)"

definition RequestVote :: "'args \<Rightarrow> 'reply \<Rightarrow> Raft option \<Rightarrow> 'reply" where
  "RequestVote args reply rf = reply"

definition Start :: "Raft option \<Rightarrow> int \<Rightarrow> int \<times> int \<times> bool" where
  "Start rf command = (let index = - 1; trm = - 1; isLeader = True in (index, trm, isLeader))"

definition Make :: "string list \<Rightarrow> nat \<Rightarrow> Persister \<Rightarrow> Raft" where
  "Make peers me persister = readPersist (ReadRaftState persister) \<lparr>rt_peers = peers, rt_persister = persister, rt_me = me\<rparr>"

section \<open>The key/value server and its clerk\<close>

record KVServer =
  kvs_me :: nat
  kvs_rf :: Raft
  kvs_maxraftstate :: int

definition StartKVServer :: "string list \<Rightarrow> nat \<Rightarrow> Persister \<Rightarrow> int \<Rightarrow> KVServer" where
  "StartKVServer peers me persister maxraftstate =
     \<lparr>kvs_me = me, kvs_rf = Make peers me persister, kvs_maxraftstate = maxraftstate\<rparr>"

definition KVServer_handler :: "'args \<Rightarrow> 'reply \<Rightarrow> KVServer option \<Rightarrow> 'reply" where
  "KVServer_handler args reply kv = reply"

text \<open>The clerk of the key/value exercise makes no call: \<open>Get\<close> answers the empty string, \<open>Put\<close> and \<open>Append\<close> do nothing.\<close>

definition kvraft_Get :: "string \<Rightarrow> 'w \<Rightarrow> string \<times> 'w" where
  "kvraft_Get key w = ([], w)"

definition kvraft_PutAppend :: "string \<Rightarrow> string \<Rightarrow> string \<Rightarrow> 'w \<Rightarrow> 'w" where
  "kvraft_PutAppend key value opn w = w"

section \<open>The shard master and the sharded server\<close>

record ShardMaster =
  shm_me :: nat
  shm_rf :: Raft
  shm_configs :: "shard_Config list"

definition StartShardMaster :: "string list \<Rightarrow> nat \<Rightarrow> Persister \<Rightarrow> ShardMaster" where
  "StartShardMaster peers me persister =
     \<lparr>shm_me = me, shm_rf = Make peers me persister, shm_configs = [zero_Config\<lparr>Groups := Map.empty\<rparr>]\<rparr>"

definition ShardMaster_handler :: "sm_args \<Rightarrow> sm_reply \<Rightarrow> ShardMaster option \<Rightarrow> sm_reply" where
  "ShardMaster_handler args reply sm = reply"

record ShardKV =
  skv_me :: nat
  skv_rf :: Raft
  skv_gid :: int
  skv_masters :: "string list"
  skv_maxraftstate :: int

definition StartShardKV :: "string list \<Rightarrow> nat \<Rightarrow> Persister \<Rightarrow> int \<Rightarrow> int \<Rightarrow> string list \<Rightarrow> ShardKV" where
  "StartShardKV peers me persister maxraftstate gid masters =
     \<lparr>skv_me = me, skv_rf = Make peers me persister, skv_gid = gid, skv_masters = masters, skv_maxraftstate = maxraftstate\<rparr>"

definition ShardKV_handler :: "kv_args \<Rightarrow> kv_reply \<Rightarrow> ShardKV option \<Rightarrow> kv_reply" where
  "ShardKV_handler args reply kv = reply"

section \<open>What the clients see\<close>

text \<open>
  The clerks on these servers. \<open>deliver\<close> is what the network makes of a call: the server that it reaches (nil when it is not a server of the right kind) or \<open>None\<close>
  when \<open>Call\<close> returns false. The clerks pass zero replies.
\<close>

record ('w, 'e) network =
  deliver_sm :: "'e \<Rightarrow> 'w \<Rightarrow> ShardMaster option option \<times> 'w"
  deliver_kv :: "'e \<Rightarrow> 'w \<Rightarrow> ShardKV option option \<times> 'w"
  new_end :: "string \<Rightarrow> 'w \<Rightarrow> 'e \<times> 'w"
  passing :: "'w \<Rightarrow> 'w"

definition exercise_env :: "('w, 'e) network \<Rightarrow> ('w, 'e) shard_env" where
  "exercise_env N = \<lparr>
     sm_call = (\<lambda>e args w. case deliver_sm N e w of
        (None, w) \<Rightarrow> ((False, zero_sm_reply), w) | (Some sm, w) \<Rightarrow> ((True, ShardMaster_handler args zero_sm_reply sm), w)),
     kv_call = (\<lambda>e args w. let zero = \<lparr>kvr_WrongLeader = False, kvr_Err = [], kvr_Value = []\<rparr> in case deliver_kv N e w of
        (None, w) \<Rightarrow> ((False, zero), w) | (Some kv, w) \<Rightarrow> ((True, ShardKV_handler args zero kv), w)),
     make_end = new_end N, sleep = passing N\<rparr>"

text \<open>What the harness of the Raft exercise gets from the instance at an address.\<close>

definition ask_state :: "(nat \<rightharpoonup> Raft) \<Rightarrow> nat option \<Rightarrow> (int \<times> bool) result" where
  "ask_state rafts a = Inr (GetState (Option.bind a rafts))"

definition ask_start :: "(nat \<rightharpoonup> Raft) \<Rightarrow> nat \<Rightarrow> int \<Rightarrow> (int \<times> int \<times> bool) result" where
  "ask_start rafts a command = Inr (Start (rafts a) command)"

lemma exercise_answers: "sm_answers (exercise_env N) args srv w r \<Longrightarrow> smr_Config r = zero_Config"
  by (auto simp: sm_answers_def exercise_env_def ShardMaster_handler_def zero_sm_reply_def split: prod.splits option.splits)

lemma exercise_no_group:
  assumes "sck_config ck = zero_Config"
  shows "retry (kv_attempt (exercise_env N) args good key) (ck, w) = None"
proof (rule ccontr)
  assume "retry (kv_attempt (exercise_env N) args good key) (ck, w) \<noteq> None"
  then obtain reply ck' w' where r: "retry (kv_attempt (exercise_env N) args good key) (ck, w) = Some (reply, ck', w')"
    by (metis not_None_eq surj_pair)
  obtain ss where "config_from (exercise_env N) ck (sck_config ck')" "key_group key (sck_config ck') = Some ss"
    using kv_retry_sound [OF r] by metis
  moreover from this(1) have "sck_config ck' = zero_Config"
    using exercise_answers [of N] assms by (auto simp: config_from_def)
  ultimately show False
    by (simp add: key_group_def zero_Config_def)
qed

lemma ask_no_leaders: "length (rf_connected cfg) = rf_n cfg \<Longrightarrow> length (rf_rafts cfg) = rf_n cfg \<Longrightarrow> set is \<subseteq> {..<rf_n cfg} \<Longrightarrow>
    leaders_of (ask_state rafts) is cfg m = Inr m \<and> check_no_leader (ask_state rafts) is cfg = Inr ()"
  by (induction "is") (auto simp: go_nth_def ask_state_def GetState_def)

lemma one_leader_loop_none: "leaders_of state [0..<rf_n cfg] cfg [] = Inr [] \<Longrightarrow> order [] = [] \<Longrightarrow> one_leader_loop order (\<lambda>_. state) k iters cfg = Inl Fatal"
  by (induction iters arbitrary: k) simp_all

lemma try_servers_none:
  assumes "length (rf_connected cfg) = rf_n cfg" "length (rf_rafts cfg) = rf_n cfg"
  shows "si \<le> rf_n cfg \<Longrightarrow> \<exists>st. try_servers (ask_start rafts) cmd cfg starts si = Inr (- 1, st)"
proof (induction si arbitrary: starts)
  case (Suc si)
  then show ?case
    using assms by (auto simp: go_nth_def ask_start_def Start_def Let_def split: option.split)
qed simp

lemma one_loop_none:
  assumes "\<forall>((cfg, start), looks) \<in> set rounds. start = ask_start rafts \<and> length (rf_connected cfg) = rf_n cfg \<and> length (rf_rafts cfg) = rf_n cfg"
  shows "one_loop cmd expected again starts rounds = Inl Fatal"
  using assms
proof (induction rounds arbitrary: starts)
  case (Cons x rounds)
  obtain cfg start looks where x: "x = ((cfg, start), looks)" by (metis surj_pair)
  then have "start = ask_start rafts" "length (rf_connected cfg) = rf_n cfg" "length (rf_rafts cfg) = rf_n cfg"
    using Cons.prems by auto
  then obtain st where "try_servers start cmd cfg starts (rf_n cfg) = Inr (- 1, st)"
    using try_servers_none [of cfg "rf_n cfg" rafts cmd starts] by blast
  then show ?case
    using Cons x by simp
qed simp

section \<open>Properties\<close>

text \<open>
  On the shard masters and servers of the repository the clerk of the sharded service never returns: a query answers the empty configuration, whatever
  the network delivers, and with it no attempt of \<open>Get\<close> or \<open>PutAppend\<close> finds a group to ask.
\<close>

theorem exercise_clerk_waits:
  "(\<forall>num cfg w'. Query (exercise_env N) masters num w = Some (cfg, w') \<longrightarrow> cfg = zero_Config)
   \<and> shard_Get (exercise_env N) key (MakeClerk masters) w = None
   \<and> shard_PutAppend (exercise_env N) key value opn (MakeClerk masters) w = None"
proof (intro conjI allI impI)
  fix num cfg w'
  assume "Query (exercise_env N) masters num w = Some (cfg, w')"
  then show "cfg = zero_Config"
    using Query_sound exercise_answers by metis
qed (simp_all add: shard_Get_def shard_PutAppend_def exercise_no_group MakeClerk_def)



end
