(* ===== verification/RpcLoops.thy ===== *)
theory RpcLoops
  imports Schedule
begin

text \<open>
  The accept loops of the MapReduce processes: the loop of a worker that serves a limited number of connections (\<open>RunWorker\<close> in
  \<open>src/lab4/src/mapreduce/worker.go\<close>) and the registration server of the master (\<open>src/lab4/src/mapreduce/master_rpc.go\<close>).

  \<^item> Both processes run an accept loop and one goroutine per connection. \<open>call\<close> of \<open>common_rpc.go\<close> dials, makes one call and closes, so that a connection
    carries one request. The loops and the goroutines interleave by the rules of a step relation; a lock region is one step.
  \<^item> The counters \<open>rw_accepted\<close>, \<open>rw_shutdowns\<close>, \<open>rw_since\<close> and \<open>rg_late\<close> only observe: connections counted, shutdowns handled, connections counted since the
    last shutdown was handled, connections accepted after the shutdown channel was closed.
\<close>

section \<open>The worker\<close>

datatype worker_call = CallDoTask | CallShutdown

datatype run_pc = CheckCount | Accepting | Accepted worker_call | Exited

record run_worker =
  rw_wk :: Worker
  rw_pc :: run_pc
  rw_serving :: "worker_call multiset"
  rw_running :: nat
  rw_failed :: bool
  rw_accepted :: nat
  rw_shutdowns :: nat
  rw_since :: nat

definition RunWorker :: "string \<Rightarrow> int \<Rightarrow> Parallelism option \<Rightarrow> run_worker" where
  "RunWorker me nRPC par =
     \<lparr>rw_wk = new_worker me nRPC par, rw_pc = CheckCount, rw_serving = {#}, rw_running = 0, rw_failed = False,
      rw_accepted = 0, rw_shutdowns = 0, rw_since = 0\<rparr>"

inductive worker_step :: "run_worker \<Rightarrow> run_worker \<Rightarrow> bool" where
  used_up: "rw_pc s = CheckCount \<Longrightarrow> w_nRPC (rw_wk s) = 0 \<Longrightarrow> worker_step s (s\<lparr>rw_pc := Exited\<rparr>)"
| go_on: "rw_pc s = CheckCount \<Longrightarrow> w_nRPC (rw_wk s) \<noteq> 0 \<Longrightarrow> worker_step s (s\<lparr>rw_pc := Accepting\<rparr>)"
| accept: "rw_pc s = Accepting \<Longrightarrow> worker_step s (s\<lparr>rw_pc := Accepted c\<rparr>)"
| accept_fails: "rw_pc s = Accepting \<Longrightarrow> worker_step s (s\<lparr>rw_pc := Exited, rw_failed := True\<rparr>)"
| count: "rw_pc s = Accepted c \<Longrightarrow>
    worker_step s (s\<lparr>rw_wk := (rw_wk s)\<lparr>w_nRPC := w_nRPC (rw_wk s) - 1\<rparr>, rw_serving := add_mset c (rw_serving s), rw_pc := CheckCount,
                  rw_accepted := Suc (rw_accepted s), rw_since := Suc (rw_since s)\<rparr>)"
| serve_task: "CallDoTask \<in># rw_serving s \<Longrightarrow> DoTask_begin (rw_wk s) = Inr wk \<Longrightarrow>
    worker_step s (s\<lparr>rw_wk := wk, rw_serving := rw_serving s - {#CallDoTask#}, rw_running := Suc (rw_running s)\<rparr>)"
| task_ends: "rw_running s = Suc n \<Longrightarrow> worker_step s (s\<lparr>rw_wk := DoTask_end (rw_wk s), rw_running := n\<rparr>)"
| serve_shutdown: "CallShutdown \<in># rw_serving s \<Longrightarrow>
    worker_step s (s\<lparr>rw_wk := fst (Worker_Shutdown (rw_wk s)), rw_serving := rw_serving s - {#CallShutdown#},
                  rw_shutdowns := Suc (rw_shutdowns s), rw_since := 0\<rparr>)"

inductive run_reach :: "string \<Rightarrow> int \<Rightarrow> Parallelism option \<Rightarrow> run_worker \<Rightarrow> bool" for me nRPC par where
  start: "run_reach me nRPC par (RunWorker me nRPC par)"
| more: "run_reach me nRPC par s \<Longrightarrow> worker_step s t \<Longrightarrow> run_reach me nRPC par t"

definition run_inv :: "int \<Rightarrow> run_worker \<Rightarrow> bool" where
  "run_inv nRPC s \<longleftrightarrow>
     w_nRPC (rw_wk s) = (if rw_shutdowns s = 0 then nRPC - int (rw_accepted s) else 1 - int (rw_since s)) \<and>
     (0 \<le> nRPC \<or> rw_shutdowns s \<noteq> 0 \<longrightarrow> 0 \<le> w_nRPC (rw_wk s)) \<and>
     (rw_pc s \<noteq> CheckCount \<and> rw_pc s \<noteq> Exited \<longrightarrow> w_nRPC (rw_wk s) \<noteq> 0)"

lemma DoTask_nRPC: "w_nRPC (DoTask_end wk) = w_nRPC wk" "DoTask_begin wk = Inr wk' \<Longrightarrow> w_nRPC wk' = w_nRPC wk"
  by (auto simp: DoTask_end_def DoTask_begin_def Let_def split: if_splits)

lemma run_inv_start: "run_inv nRPC (RunWorker me nRPC par)"
  by (simp add: run_inv_def RunWorker_def new_worker_def)

lemma worker_step_inv: "worker_step s t \<Longrightarrow> run_inv nRPC s \<Longrightarrow> run_inv nRPC t"
proof (induction rule: worker_step.induct)
  case (count s c)
  then show ?case by (cases "rw_shutdowns s = 0") (auto simp: run_inv_def)
next
  case (serve_shutdown s)
  then show ?case by (simp add: run_inv_def Worker_Shutdown_def)
next
  case (serve_task s wk)
  then show ?case using DoTask_nRPC(2) [OF serve_task(2)] by (auto simp: run_inv_def)
qed (auto simp: run_inv_def DoTask_nRPC(1))

lemma run_reach_inv: "run_reach me nRPC par s \<Longrightarrow> run_inv nRPC s"
  by (induction rule: run_reach.induct) (rule run_inv_start, rule worker_step_inv)

section \<open>The registration server\<close>

datatype reg_call = CallRegister string | CallMasterShutdown

datatype reg_pc = Select | RegAccepting | LoopDone

record registration =
  rg_master :: Master
  rg_shutdown :: bool
  rg_closing :: bool
  rg_listening :: bool
  rg_pc :: reg_pc
  rg_serving :: "reg_call multiset"
  rg_handled :: "reg_call list"
  rg_panic :: bool
  rg_late :: nat

definition startRPCServer :: "Master \<Rightarrow> registration" where
  "startRPCServer mr = \<lparr>rg_master = mr, rg_shutdown = False, rg_closing = False, rg_listening = True, rg_pc = Select, rg_serving = {#},
     rg_handled = [], rg_panic = False, rg_late = 0\<rparr>"

text \<open>\<open>Shutdown\<close> closes the channel and then the listener; closing the channel a second time panics.\<close>

inductive reg_step :: "registration \<Rightarrow> registration \<Rightarrow> bool" where
  leave: "rg_pc s = Select \<Longrightarrow> rg_shutdown s \<Longrightarrow> reg_step s (s\<lparr>rg_pc := LoopDone\<rparr>)"
| go_on: "rg_pc s = Select \<Longrightarrow> \<not> rg_shutdown s \<Longrightarrow> reg_step s (s\<lparr>rg_pc := RegAccepting\<rparr>)"
| accept: "rg_pc s = RegAccepting \<Longrightarrow> rg_listening s \<Longrightarrow>
    reg_step s (s\<lparr>rg_pc := Select, rg_serving := add_mset c (rg_serving s), rg_late := rg_late s + (if rg_shutdown s then 1 else 0)\<rparr>)"
| accept_fails: "rg_pc s = RegAccepting \<Longrightarrow> reg_step s (s\<lparr>rg_pc := LoopDone\<rparr>)"
| serve_register: "CallRegister w \<in># rg_serving s \<Longrightarrow>
    reg_step s (s\<lparr>rg_master := Register w (rg_master s), rg_serving := rg_serving s - {#CallRegister w#},
                  rg_handled := rg_handled s @ [CallRegister w]\<rparr>)"
| close_channel: "CallMasterShutdown \<in># rg_serving s \<Longrightarrow> \<not> rg_shutdown s \<Longrightarrow>
    reg_step s (s\<lparr>rg_shutdown := True, rg_closing := True, rg_serving := rg_serving s - {#CallMasterShutdown#},
                  rg_handled := rg_handled s @ [CallMasterShutdown]\<rparr>)"
| close_again: "CallMasterShutdown \<in># rg_serving s \<Longrightarrow> rg_shutdown s \<Longrightarrow> reg_step s (s\<lparr>rg_panic := True\<rparr>)"
| close_listener: "rg_closing s \<Longrightarrow> reg_step s (s\<lparr>rg_closing := False, rg_listening := False\<rparr>)"

inductive reg_reach :: "Master \<Rightarrow> registration \<Rightarrow> bool" for mr where
  start: "reg_reach mr (startRPCServer mr)"
| more: "reg_reach mr s \<Longrightarrow> \<not> rg_panic s \<Longrightarrow> reg_step s t \<Longrightarrow> reg_reach mr t"

fun registered :: "reg_call list \<Rightarrow> string list" where
  "registered [] = []"
| "registered (CallRegister w # cs) = w # registered cs"
| "registered (CallMasterShutdown # cs) = registered cs"

lemma registered_append [simp]: "registered (cs @ ds) = registered cs @ registered ds"
  by (induction cs rule: registered.induct) auto

definition reg_inv :: "Master \<Rightarrow> registration \<Rightarrow> bool" where
  "reg_inv mr s \<longleftrightarrow>
     rg_master s = mr\<lparr>workers := workers mr @ registered (rg_handled s)\<rparr> \<and>
     count_list (rg_handled s) CallMasterShutdown = (if rg_shutdown s then 1 else 0) \<and>
     (rg_panic s \<longrightarrow> rg_shutdown s \<and> CallMasterShutdown \<in># rg_serving s) \<and>
     rg_late s \<le> 1 \<and> (rg_late s = 1 \<longrightarrow> rg_shutdown s \<and> rg_pc s \<noteq> RegAccepting) \<and>
     (rg_listening s \<longleftrightarrow> \<not> rg_shutdown s \<or> rg_closing s) \<and> (rg_closing s \<longrightarrow> rg_shutdown s)"

lemma reg_inv_start: "reg_inv mr (startRPCServer mr)"
  by (simp add: reg_inv_def startRPCServer_def)

lemma reg_step_inv: "reg_step s t \<Longrightarrow> \<not> rg_panic s \<Longrightarrow> reg_inv mr s \<Longrightarrow> reg_inv mr t"
  by (induction rule: reg_step.induct) (auto simp: reg_inv_def Register_def)

lemma reg_reach_inv: "reg_reach mr s \<Longrightarrow> reg_inv mr s"
  by (induction rule: reg_reach.induct) (rule reg_inv_start, rule reg_step_inv)

section \<open>The registration loop can end\<close>

text \<open>After a shutdown has been handled the loop ends by its own steps and the close of the listener, unless the process has panicked.\<close>

lemma reg_loop_ends:
  assumes "reg_reach mr s" "\<not> rg_panic s" "rg_shutdown s"
  shows "\<exists>t. reg_step\<^sup>*\<^sup>* s t \<and> rg_pc t = LoopDone \<and> rg_master t = rg_master s"
proof (cases "rg_pc s")
  case Select
  then show ?thesis
    using reg_step.leave [of s] assms(3) by (intro exI [of _ "s\<lparr>rg_pc := LoopDone\<rparr>"]) auto
next
  case RegAccepting
  then show ?thesis
    using reg_step.accept_fails [of s] by (intro exI [of _ "s\<lparr>rg_pc := LoopDone\<rparr>"]) auto
qed auto

section \<open>Properties\<close>

text \<open>
  C39: The accept loop of a worker. A worker that is started for \<open>nRPC\<close> connections and is not shut down accepts at most that many and leaves the loop by its
  count exactly after the last of them; one that is started with a negative number never does. A worker that has handled a shutdown leaves the loop by
  its count only after one more connection: \<open>Shutdown\<close> sets the count to one while the loop already waits for the next connection.
\<close>

theorem RunWorker_leaves:
  assumes "run_reach me nRPC par s"
  shows "(rw_shutdowns s = 0 \<and> 0 \<le> nRPC \<longrightarrow> int (rw_accepted s) \<le> nRPC)
    \<and> (rw_pc s = CheckCount \<longrightarrow> (worker_step s (s\<lparr>rw_pc := Exited\<rparr>) \<longleftrightarrow>
          (if rw_shutdowns s = 0 then int (rw_accepted s) = nRPC else rw_since s = 1)))"
proof -
  have inv: "run_inv nRPC s"
    using run_reach_inv [OF assms] .
  have "worker_step s (s\<lparr>rw_pc := Exited\<rparr>) \<longleftrightarrow> w_nRPC (rw_wk s) = 0" if "rw_pc s = CheckCount"
  proof
    assume "worker_step s (s\<lparr>rw_pc := Exited\<rparr>)"
    then show "w_nRPC (rw_wk s) = 0"
      using that by (cases rule: worker_step.cases) (auto dest: arg_cong [of _ _ rw_pc])
  qed (simp add: used_up that)
  then show ?thesis
    using inv by (auto simp: run_inv_def)
qed


section \<open>Witnesses\<close>

lemma one_connection: "run_reach ''w'' 1 None (RunWorker ''w'' 1 None\<lparr>rw_wk := (new_worker ''w'' 1 None)\<lparr>w_nRPC := 0\<rparr>,
    rw_serving := {#CallDoTask#}, rw_accepted := 1, rw_since := 1\<rparr>)"
proof -
  note s0 = run_reach.start [of "''w''" 1 None]
  note s1 = run_reach.more [OF s0 worker_step.go_on]
  note s2 = run_reach.more [OF s1 worker_step.accept [where c = CallDoTask]]
  note s3 = run_reach.more [OF s2 worker_step.count [where c = CallDoTask]]
  show ?thesis
    using s3 by (simp add: RunWorker_def new_worker_def)
qed

theorem RunWorker_leaves_witness:
  "worker_step (RunWorker ''w'' 1 None\<lparr>rw_wk := (new_worker ''w'' 1 None)\<lparr>w_nRPC := 0\<rparr>, rw_serving := {#CallDoTask#}, rw_accepted := 1, rw_since := 1\<rparr>)
     (RunWorker ''w'' 1 None\<lparr>rw_wk := (new_worker ''w'' 1 None)\<lparr>w_nRPC := 0\<rparr>, rw_serving := {#CallDoTask#}, rw_pc := Exited, rw_accepted := 1, rw_since := 1\<rparr>)"
  using RunWorker_leaves [OF one_connection] by (simp add: RunWorker_def)

lemma one_registration: "reg_reach (newMaster ''m'') (startRPCServer (newMaster ''m'')\<lparr>rg_master := Register ''w'' (newMaster ''m''),
    rg_handled := [CallRegister ''w'']\<rparr>)"
proof -
  note s0 = reg_reach.start [of "newMaster ''m''"]
  note s1 = reg_reach.more [OF s0 _ reg_step.go_on]
  note s2 = reg_reach.more [OF s1 _ reg_step.accept [where c = "CallRegister ''w''"]]
  note s3 = reg_reach.more [OF s2 _ reg_step.serve_register [where w = "''w''"]]
  show ?thesis
    using s3 by (simp add: startRPCServer_def)
qed


end
