(* ===== verification/Heartbeat.thy ===== *)
theory Heartbeat
  imports Cluster
begin

text \<open>
  The heartbeats of the running system: the loop \<open>heartbeat\<close> of a chunk server (\<open>chunkserver.go\<close>) with \<open>sendHeartbeat\<close> (\<open>rpcToMaster.go\<close>),
  the handler \<open>AcceptHeartbeat\<close> and the timers of the leader, while clients make their calls and chunk servers crash and start again.

  The unit of time is a second. Time passes for all processes at once, and only as long as no heartbeat of a running server is more than
  a second late. \<open>hb_next\<close> is when the loop of a server wakes up. The fields \<open>hb_last\<close> and \<open>hb_known\<close> only record what happened: when the
  leader last heard of a location, and which of the running servers it has heard of since they started.
\<close>

section \<open>A heartbeat\<close>

text \<open>
  \<open>encoding/gob\<close> does not send fields with the value zero, so that a field of a reply that the server leaves or sets to \<open>false\<close> keeps the value
  that the caller's variable had. \<open>AcceptHeartbeat\<close> never sets \<open>Reply\<close> to \<open>true\<close>.
\<close>

definition gob_reply :: "bool \<Rightarrow> bool \<Rightarrow> bool" where
  "gob_reply sent before = (if sent then sent else before)"

text \<open>The time that \<open>sendHeartbeat\<close> sleeps, and what it does to the leader that zookeeper names.\<close>

definition sendHeartbeat :: "nat \<Rightarrow> string \<Rightarrow> cluster \<Rightarrow> (nat \<times> cluster) result" where
  "sendHeartbeat now l st =
     bindR (AcceptHeartbeat now l (cl_master st)) (\<lambda>m.
       let reply = gob_reply False True
       in Inr (if reply = False then 3 else 0, st\<lparr>cl_master := m\<rparr>))"

section \<open>The running system\<close>

record hb_state =
  hb_cluster :: cluster
  hb_now :: nat
  hb_next :: "string \<Rightarrow> nat"
  hb_last :: "string \<Rightarrow> nat"
  hb_known :: "string set"

abbreviation is_up :: "hb_state \<Rightarrow> string \<Rightarrow> bool" where
  "is_up s l \<equiv> cl_servers (hb_cluster s) l \<noteq> None"

abbreviation leader :: "hb_state \<Rightarrow> master" where
  "leader s \<equiv> cl_master (hb_cluster s)"

text \<open>The calls of a client that change the state.\<close>

definition client_call :: "(nat \<Rightarrow> string) \<Rightarrow> cluster \<Rightarrow> cluster \<Rightarrow> bool" where
  "client_call stamp st st' \<longleftrightarrow>
     (\<exists>f n. call_NewFileChunk stamp f st = Inr (n, st')) \<or> (\<exists>f i r. rpcToMasterAddChunk stamp f i st = Inr (r, st')) \<or>
     (\<exists>l req. call_Write stamp l req st = Inr st') \<or> (\<exists>f. call_DeleteFileAndChunks stamp f st = Inr st')"

text \<open>The loop \<open>heartbeat\<close> is the rule \<open>beat\<close>: the server calls \<open>sendHeartbeat\<close> and wakes up a second after it returns.\<close>

inductive hb_step :: "(nat \<Rightarrow> string) \<Rightarrow> hb_state \<Rightarrow> hb_state \<Rightarrow> bool" for stamp where
  second: "(\<And>l. is_up s l \<Longrightarrow> hb_now s \<le> hb_next s l) \<Longrightarrow> hb_step stamp s (s\<lparr>hb_now := hb_now s + 1\<rparr>)"
| beat: "is_up s l \<Longrightarrow> hb_next s l \<le> hb_now s \<Longrightarrow> sendHeartbeat (hb_now s) l (hb_cluster s) = Inr (pause, st) \<Longrightarrow>
    hb_step stamp s (s\<lparr>hb_cluster := st, hb_next := (hb_next s)(l := hb_now s + pause + 1), hb_last := (hb_last s)(l := hb_now s),
      hb_known := insert l (hb_known s)\<rparr>)"
| timer: "hb_step stamp s (s\<lparr>hb_cluster := (hb_cluster s)\<lparr>cl_master := timeup (hb_now s) l (leader s)\<rparr>\<rparr>)"
| call: "client_call stamp (hb_cluster s) st \<Longrightarrow> hb_step stamp s (s\<lparr>hb_cluster := st\<rparr>)"
| crash: "hb_step stamp s (s\<lparr>hb_cluster := (hb_cluster s)\<lparr>cl_servers := (cl_servers (hb_cluster s))(l := None)\<rparr>,
      hb_known := hb_known s - {l}\<rparr>)"
| start: "\<not> is_up s l \<Longrightarrow> cs_location srv = l \<Longrightarrow>
    hb_step stamp s (s\<lparr>hb_cluster := (hb_cluster s)\<lparr>cl_servers := (cl_servers (hb_cluster s))(l \<mapsto> srv)\<rparr>,
      hb_next := (hb_next s)(l := hb_now s + 1)\<rparr>)"

inductive hb_reach :: "(nat \<Rightarrow> string) \<Rightarrow> hb_state \<Rightarrow> hb_state \<Rightarrow> bool" for stamp s where
  here: "hb_reach stamp s s"
| more: "hb_reach stamp s t \<Longrightarrow> hb_step stamp t u \<Longrightarrow> hb_reach stamp s u"

text \<open>The moment in which a master becomes the leader, at the time \<open>now\<close>: its timers start, and no chunk server has reported yet.\<close>

definition hb_elected :: "nat \<Rightarrow> cluster \<Rightarrow> hb_state" where
  "hb_elected now st = \<lparr>hb_cluster = st\<lparr>cl_master := becomeLeader now (cl_master st)\<rparr>, hb_now = now, hb_next = (\<lambda>_. now + 1),
     hb_last = (\<lambda>_. now), hb_known = {}\<rparr>"

section \<open>Calls of clients leave the heartbeats alone\<close>

text \<open>What the heartbeats look at.\<close>

definition beats_view :: "cluster \<Rightarrow> (string \<times> bool) list \<times> (string \<rightharpoonup> nat) \<times> bool \<times> string set" where
  "beats_view st = (map (\<lambda>m. (NodeLocation m, Alive m)) (sched st), m_timers (cl_master st), m_isLeader (cl_master st), dom (cl_servers st))"

definition leader_view :: "master \<Rightarrow> (string \<times> bool) list \<times> (string \<rightharpoonup> nat) \<times> bool" where
  "leader_view m = (map (\<lambda>m. (NodeLocation m, Alive m)) (m_schedule m), m_timers m, m_isLeader m)"

lemma beats_view_iff: "beats_view st' = beats_view st \<longleftrightarrow>
    leader_view (cl_master st') = leader_view (cl_master st) \<and> dom (cl_servers st') = dom (cl_servers st)"
  by (auto simp: beats_view_def leader_view_def)

lemma leader_view_log [simp]: "leader_view (master_log stamp msg m) = leader_view m"
  by (simp add: leader_view_def)

lemma view_add_load [simp]:
  "map (\<lambda>m. (NodeLocation m, Alive m)) (add_load d l r s) = map (\<lambda>m. (NodeLocation m, Alive m)) s"
  by (simp add: add_load_def Let_def)

lemma view_unload [simp]:
  "map (\<lambda>m. (NodeLocation m, Alive m)) (fold (\<lambda>r. add_load d (f r) (g r)) rs s) = map (\<lambda>m. (NodeLocation m, Alive m)) s"
  by (induction rs arbitrary: s) simp_all

lemma mark_dead_none [simp]: "mark_dead (\<lambda>_. False) s = s"
  by (simp add: mark_dead_def)

lemma place_keeps_nodes:
  "place reach (\<lambda>_ _. False) fuel k s made = Some (Inr (loc, rep, s', made')) \<Longrightarrow> s' = s"
proof (induction fuel arbitrary: k made)
  case (Suc fuel)
  then show ?case by (auto simp: place.simps Let_def split: list.splits if_splits)
qed (simp add: place.simps)

lemma view_put [simp]:
  "cl_servers st l = Some s \<Longrightarrow> beats_view (st\<lparr>cl_servers := (cl_servers st)(l \<mapsto> s')\<rparr>) = beats_view st"
  by (auto simp: beats_view_def)

lemma on_server_view: "on_server l c st = Inr st' \<Longrightarrow> beats_view st' = beats_view st"
  by (auto simp: on_server_def bindR_Inr_iff split: option.splits)

lemma each_view: "(\<And>x st st'. g x st = Inr st' \<Longrightarrow> beats_view st' = beats_view st) \<Longrightarrow>
    each g xs st = Inr st' \<Longrightarrow> beats_view st' = beats_view st"
  by (induction xs arbitrary: st) (auto simp: bindR_Inr_iff)

lemma UpdateChunkVersion_view:
  "UpdateChunkVersion stamp u req m = Inr (ok, n, m', msgs) \<Longrightarrow> leader_view m' = leader_view m"
  by (auto simp: UpdateChunkVersion_def UpdateChunkVersionFunc_def leader_view_def bindR_Inr_iff Let_def split: if_splits option.splits)

lemma updateMasterVersion_view: "updateMasterVersion stamp opr st = Inr st' \<Longrightarrow> beats_view st' = beats_view st"
  by (auto simp: updateMasterVersion_def bindR_Inr_iff beats_view_iff dest: UpdateChunkVersion_view)

lemma call_UpdateOwnChunkVersion_view: "call_UpdateOwnChunkVersion stamp bc a st = Inr st' \<Longrightarrow> beats_view st' = beats_view st"
  by (fastforce simp: call_UpdateOwnChunkVersion_def bindR_Inr_iff Let_def split: option.splits dest: updateMasterVersion_view)

lemma broadcast_view: "broadcast stamp bc ls st = Inr st' \<Longrightarrow> beats_view st' = beats_view st"
  by (induction ls arbitrary: st) (auto simp: bindR_Inr_iff dest: call_UpdateOwnChunkVersion_view)

lemma call_Write_view: "call_Write stamp l req st = Inr st' \<Longrightarrow> beats_view st' = beats_view st"
  by (fastforce simp: call_Write_def bindR_Inr_iff split: option.splits dest: updateMasterVersion_view broadcast_view)

lemma after_placement_view:
  assumes "after_placement stamp mk r st = Inr (res, st')"
    and "\<And>x st st'. mk x st = Inr st' \<Longrightarrow> beats_view st' = beats_view st"
    and "\<And>res m msgs made. r = Some (Inr (res, m, msgs, made)) \<Longrightarrow> leader_view m = leader_view (cl_master st)"
  shows "beats_view st' = beats_view st"
  using assms(1,3) each_view [OF assms(2)]
  by (fastforce simp: after_placement_def bindR_Inr_iff beats_view_iff split: option.splits)

lemma AddChunk_view: "MasterServer.AddChunk stamp u (placement_env st) req m = Some (Inr (res, m', msgs, made)) \<Longrightarrow> leader_view m' = leader_view m"
  by (auto simp: MasterServer.AddChunk_def AddChunkFunc_rpc_def record_chunk_def placement_env_def bindR_Inr_iff Let_def leader_view_def
      split: if_splits option.splits dest!: place_keeps_nodes)

lemma NewFileChunk_view: "NewFileChunk stamp u (placement_env st) req m = Some (Inr (res, m', msgs, made)) \<Longrightarrow> leader_view m' = leader_view m"
  by (auto simp: NewFileChunk_def NewFileChunkFunc_rpc_def record_file_def placement_env_def bindR_Inr_iff Let_def leader_view_def
      split: if_splits option.splits dest!: place_keeps_nodes)

lemma DeleteFileAndChunks_view: "DeleteFileAndChunks stamp u req m = Inr (res, m', msgs, calls) \<Longrightarrow> leader_view m' = leader_view m"
  by (auto simp: DeleteFileAndChunks_def DeleteFileAndChunksFunc_def Let_def leader_view_def split: if_splits)

lemma client_call_view: "client_call stamp st st' \<Longrightarrow> beats_view st' = beats_view st"
  unfolding client_call_def
proof (elim disjE exE)
  fix f n assume "call_NewFileChunk stamp f st = Inr (n, st')"
  then obtain res where "after_placement stamp (CreateNewFileChunk stamp f)
      (NewFileChunk stamp (up st) (placement_env st) (client_request f 0 False False) (cl_master st)) st = Inr (res, st')"
    by (auto simp: call_NewFileChunk_def bindR_Inr_iff)
  then show ?thesis by (rule after_placement_view) (auto simp: CreateNewFileChunk_def dest: on_server_view NewFileChunk_view)
next
  fix f i r assume "rpcToMasterAddChunk stamp f i st = Inr (r, st')"
  then obtain res where "after_placement stamp (AddChunk_call stamp f i)
      (MasterServer.AddChunk stamp (up st) (placement_env st) (client_request f i True False) (cl_master st)) st = Inr (res, st')"
    by (auto simp: rpcToMasterAddChunk_def bindR_Inr_iff split: if_splits)
  then show ?thesis by (rule after_placement_view) (auto simp: AddChunk_call_def dest: on_server_view AddChunk_view)
next
  fix f assume "call_DeleteFileAndChunks stamp f st = Inr st'"
  then obtain res m msgs calls where d: "DeleteFileAndChunks stamp (up st) (client_request f 0 False False) (cl_master st) = Inr (res, m, msgs, calls)"
    "each (DeleteFileChunk stamp) calls (st\<lparr>cl_master := m, cl_replicas := deliver_all stamp msgs (cl_replicas st)\<rparr>) = Inr st'"
    by (auto simp: call_DeleteFileAndChunks_def bindR_Inr_iff)
  have "beats_view st' = beats_view (st\<lparr>cl_master := m, cl_replicas := deliver_all stamp msgs (cl_replicas st)\<rparr>)"
    by (rule each_view [OF _ d(2)]) (auto simp: DeleteFileChunk_def dest: on_server_view)
  then show ?thesis using DeleteFileAndChunks_view [OF d(1)] by (simp add: beats_view_iff)
qed (rule call_Write_view)

section \<open>Who is alive\<close>

text \<open>The locations of the schedule, with the answer whether they are alive.\<close>

definition listed :: "NodeMetadata list \<Rightarrow> (string \<times> bool) set" where
  "listed nodes = (\<lambda>n. (NodeLocation n, Alive n)) ` set nodes"

lemma listed_simps [simp]: "listed [] = {}" "listed (n # s) = insert (NodeLocation n, Alive n) (listed s)"
  by (simp_all add: listed_def)

lemma listed_set_alive [simp]:
  "(k, a) \<in> listed (set_alive b l s) \<longleftrightarrow> (if k = l then a = b \<and> (\<exists>a. (k, a) \<in> listed s) else (k, a) \<in> listed s)"
  by (induction s) (auto simp: set_alive_def)

lemma listed_append [simp]: "listed (xs @ ys) = listed xs \<union> listed ys"
  by (simp add: listed_def image_Un)

lemma listed_locations: "(\<exists>n\<in>set s. NodeLocation n = l) \<longleftrightarrow> (\<exists>a. (l, a) \<in> listed s)"
  by (auto simp: listed_def)

text \<open>
  An entry is alive only while its timer runs since the last heartbeat; a server that runs and has reported is alive, and its
  loop wakes up a second after its last heartbeat.
\<close>

definition entry_beats :: "hb_state \<Rightarrow> string \<Rightarrow> bool \<Rightarrow> bool" where
  "entry_beats s k a \<longleftrightarrow> m_timers (leader s) k \<noteq> None \<and> (a \<longrightarrow> m_timers (leader s) k = Some (hb_last s k + 3)) \<and>
     (k \<in> hb_known s \<longrightarrow> a)"

definition known_beats :: "hb_state \<Rightarrow> string \<Rightarrow> bool" where
  "known_beats s l \<longleftrightarrow> is_up s l \<and> (\<exists>a. (l, a) \<in> listed (m_schedule (leader s))) \<and> hb_next s l = hb_last s l + 1 \<and>
     hb_now s \<le> hb_last s l + 2"

definition beats_inv :: "hb_state \<Rightarrow> bool" where
  "beats_inv s \<longleftrightarrow> m_isLeader (leader s) \<and> (\<forall>k a. (k, a) \<in> listed (m_schedule (leader s)) \<longrightarrow> entry_beats s k a) \<and>
     (\<forall>l\<in>hb_known s. known_beats s l)"

lemma beats_invD:
  assumes "beats_inv s"
  shows "m_isLeader (leader s)" "(k, a) \<in> listed (m_schedule (leader s)) \<Longrightarrow> entry_beats s k a" "l \<in> hb_known s \<Longrightarrow> known_beats s l"
  using assms by (auto simp: beats_inv_def)

text \<open>The timer of a server that is known is not due.\<close>

lemma known_not_due:
  assumes "beats_inv s" "l \<in> hb_known s"
  shows "m_timers (leader s) l = Some (hb_last s l + 3)" "hb_now s < hb_last s l + 3" "timeup t l (leader s) = (if hb_last s l + 3 \<le> t
      then (leader s)\<lparr>m_schedule := set_alive False l (m_schedule (leader s)), m_timers := (m_timers (leader s))(l \<mapsto> t + 3)\<rparr> else leader s)"
proof -
  have k: "known_beats s l" by (rule beats_invD(3) [OF assms])
  then obtain a where "entry_beats s l a" using beats_invD(2) [OF assms(1)] by (auto simp: known_beats_def)
  then show t: "m_timers (leader s) l = Some (hb_last s l + 3)" using assms(2) by (simp add: entry_beats_def)
  show "hb_now s < hb_last s l + 3" using k by (simp add: known_beats_def)
  show "timeup t l (leader s) = (if hb_last s l + 3 \<le> t
      then (leader s)\<lparr>m_schedule := set_alive False l (m_schedule (leader s)), m_timers := (m_timers (leader s))(l \<mapsto> t + 3)\<rparr> else leader s)"
    using t by (simp add: timeup_def heartbeat_timeout_def)
qed

lemma beats_timer:
  assumes "beats_inv s"
  shows "beats_inv (s\<lparr>hb_cluster := (hb_cluster s)\<lparr>cl_master := timeup (hb_now s) l (leader s)\<rparr>\<rparr>)" (is "beats_inv ?s")
proof (cases "l \<in> hb_known s \<or> timeup (hb_now s) l (leader s) = leader s")
  case True
  then have "timeup (hb_now s) l (leader s) = leader s"
    using known_not_due(2) [OF assms, of l] known_not_due(3) [OF assms, of l "hb_now s"] by (auto simp: not_le)
  then have "?s = s" by simp
  then show ?thesis using assms by simp
next
  case False
  then have t: "timeup (hb_now s) l (leader s) = (leader s)\<lparr>m_schedule := set_alive False l (m_schedule (leader s)),
      m_timers := (m_timers (leader s))(l \<mapsto> hb_now s + heartbeat_timeout)\<rparr>"
    by (auto simp: timeup_def split: option.splits if_splits)
  have "entry_beats ?s k a" if "(k, a) \<in> listed (m_schedule (leader ?s))" for k a
    using that beats_invD(2) [OF assms, of k] False by (auto simp: t entry_beats_def split: if_splits)
  moreover have "known_beats ?s k" if "k \<in> hb_known ?s" for k
    using that beats_invD(3) [OF assms, of k] False by (auto simp: t known_beats_def)
  ultimately show ?thesis using beats_invD(1) [OF assms] by (simp add: beats_inv_def t)
qed

lemma sendHeartbeat_leader:
  assumes "sendHeartbeat now l st = Inr (pause, st')"
  shows "pause = 0" "AcceptHeartbeat now l (cl_master st) = Inr (cl_master st')" "cl_servers st' = cl_servers st"
  using assms by (auto simp: sendHeartbeat_def gob_reply_def bindR_Inr_iff)

lemma AcceptHeartbeat_listed:
  assumes "AcceptHeartbeat now l m = Inr m'" "m_isLeader m"
  shows "m_isLeader m'" "m_timers m' = (m_timers m)(l \<mapsto> now + 3)"
    "(k, a) \<in> listed (m_schedule m') \<longleftrightarrow> (if k = l then a else (k, a) \<in> listed (m_schedule m))"
proof -
  show "m_isLeader m'" "m_timers m' = (m_timers m)(l \<mapsto> now + 3)"
    using assms by (auto simp: AcceptHeartbeat_def heartbeat_timeout_def split: if_splits)
  show "(k, a) \<in> listed (m_schedule m') \<longleftrightarrow> (if k = l then a else (k, a) \<in> listed (m_schedule m))"
  proof (cases "\<exists>a. (l, a) \<in> listed (m_schedule m)")
    case True
    then have "m_schedule m' = set_alive True l (m_schedule m)"
      using assms by (auto simp: AcceptHeartbeat_def listed_locations split: if_splits)
    then show ?thesis using True by auto
  next
    case False
    then have "m_schedule m' = m_schedule m @ [\<lparr>NodeLocation = l, Alive = True, ChunkNum = 0\<rparr>]"
      using assms by (auto simp: AcceptHeartbeat_def listed_locations split: if_splits)
    then show ?thesis using False by auto
  qed
qed

lemma beats_beat:
  assumes inv: "beats_inv s" and run: "is_up s l" and hb: "sendHeartbeat (hb_now s) l (hb_cluster s) = Inr (pause, st)"
  shows "beats_inv (s\<lparr>hb_cluster := st, hb_next := (hb_next s)(l := hb_now s + pause + 1), hb_last := (hb_last s)(l := hb_now s),
      hb_known := insert l (hb_known s)\<rparr>)" (is "beats_inv ?s")
proof -
  note st = sendHeartbeat_leader [OF hb]
  note l = AcceptHeartbeat_listed [OF st(2) beats_invD(1) [OF inv]]
  have "entry_beats ?s k a" if "(k, a) \<in> listed (m_schedule (cl_master st))" for k a
    using that beats_invD(2) [OF inv, of k a] by (auto simp: l(2,3) entry_beats_def split: if_splits)
  moreover have "known_beats ?s k" if "k \<in> hb_known ?s" for k
    using that beats_invD(3) [OF inv, of k] run by (auto simp: l(3) known_beats_def st(1,3))
  ultimately show ?thesis using l(1) by (simp add: beats_inv_def)
qed

lemma beats_second:
  "beats_inv s \<Longrightarrow> (\<And>l. is_up s l \<Longrightarrow> hb_now s \<le> hb_next s l) \<Longrightarrow> beats_inv (s\<lparr>hb_now := hb_now s + 1\<rparr>)"
  by (fastforce simp: beats_inv_def entry_beats_def known_beats_def)

lemma listed_view: "listed s = set (map (\<lambda>m. (NodeLocation m, Alive m)) s)"
  by (simp add: listed_def)

lemma beats_call:
  assumes "beats_inv s" "beats_view st = beats_view (hb_cluster s)"
  shows "beats_inv (s\<lparr>hb_cluster := st\<rparr>)"
proof -
  have "listed (sched st) = listed (m_schedule (leader s))" "m_timers (cl_master st) = m_timers (leader s)"
    "m_isLeader (cl_master st) = m_isLeader (leader s)" "\<And>l. cl_servers st l \<noteq> None \<longleftrightarrow> is_up s l"
    using assms(2) by (auto simp: beats_view_def listed_view simp del: set_map)
  then show ?thesis using assms(1) unfolding beats_inv_def entry_beats_def known_beats_def by simp blast
qed

lemma beats_step: "hb_step stamp s t \<Longrightarrow> beats_inv s \<Longrightarrow> beats_inv t"
proof (induction rule: hb_step.induct)
  case (call s st)
  then show ?case using beats_call client_call_view by blast
next
  case (crash s l)
  then show ?case by (auto simp: beats_inv_def entry_beats_def known_beats_def)
next
  case (start s l srv)
  then have "l \<notin> hb_known s" by (auto simp: beats_inv_def known_beats_def)
  with start show ?case by (auto simp: beats_inv_def entry_beats_def known_beats_def)
qed (blast intro: beats_second beats_timer beats_beat)+

lemma beats_reach: "hb_reach stamp s t \<Longrightarrow> beats_inv s \<Longrightarrow> beats_inv t"
  by (induction rule: hb_reach.induct) (auto intro: beats_step)

lemma beats_elected: "NodeLocation ` set (sched st) \<subseteq> set initial_nodes \<Longrightarrow> beats_inv (hb_elected now st)"
  by (auto simp: beats_inv_def hb_elected_def entry_beats_def becomeLeader_def heartbeat_timeout_def listed_def)


section \<open>Witness\<close>

text \<open>The first chunk server sends a heartbeat one second after the election.\<close>

lemma demo_beat: "\<exists>s. hb_reach demo_stamp (hb_elected 0 demo_cluster) s \<and> ''127.0.0.1:8101'' \<in> hb_known s"
proof -
  let ?s0 = "hb_elected 0 demo_cluster" and ?l = "''127.0.0.1:8101''"
  let ?s1 = "?s0\<lparr>hb_now := hb_now ?s0 + 1\<rparr>"
  have s1: "hb_reach demo_stamp ?s0 ?s1"
    by (rule hb_reach.more [OF hb_reach.here], rule hb_step.second) (simp add: hb_elected_def)
  have run: "is_up ?s1 ?l" by (simp add: hb_elected_def demo_cluster_def initial_nodes_def)
  have due: "hb_next ?s1 ?l \<le> hb_now ?s1" by (simp add: hb_elected_def)
  have "\<exists>st. sendHeartbeat (hb_now ?s1) ?l (hb_cluster ?s1) = Inr (0, st)"
    by (simp add: sendHeartbeat_def gob_reply_def AcceptHeartbeat_def hb_elected_def becomeLeader_def initial_nodes_def bindR_def)
  then obtain st where hb: "sendHeartbeat (hb_now ?s1) ?l (hb_cluster ?s1) = Inr (0, st)" by blast
  show ?thesis
    by (rule exI, rule conjI, rule hb_reach.more [OF s1 hb_step.beat [OF run due hb]]) simp
qed

lemma demo_nodes: "NodeLocation ` set (sched demo_cluster) \<subseteq> set initial_nodes"
  by (auto simp: demo_cluster_def demo_defs)


end
