(* ===== verification/ClientPrograms.thy ===== *)
theory ClientPrograms
  imports Cluster
begin

text \<open>
  Programs of a single client of the file system: sequences of \<open>create\<close>, \<open>write\<close>, \<open>read\<close> and \<open>deletee\<close>, as the test programs
  \<open>testFunctional.go\<close>, \<open>testConsistency.go\<close>, \<open>testConsistency2.go\<close> and \<open>testCreateAndRead.go\<close> (\<open>src/gdocs-k-on/code/client\<close>) run them. The specification is a map
  from names to bytes. The refinement is proved for every store that keeps the contract of \<open>GfsClient\<close>, so that it holds for the cluster of masters and chunk servers.

  A program goes wrong in the specification (\<open>None\<close>) where the client does: a write inside a chunk that the file does not have, an empty write, a read of bytes the
  file does not have, and a read that spans more than one chunk boundary.
\<close>

section \<open>Programs\<close>

datatype client_op = CCreate string | CWrite string u64 string | CRead string u64 u64 | CDelete string

text \<open>The lines that a program prints are the results of its reads.\<close>

fun run_client_op :: "nat \<Rightarrow> 's gfs_ops \<Rightarrow> client_op \<Rightarrow> 's \<Rightarrow> (string list \<times> 's) result option" where
  "run_client_op fuel ops (CCreate f) st = Some (bindR (create ops f st) (\<lambda>(_, st). Inr ([], st)))"
| "run_client_op fuel ops (CWrite f off data) st = Some (bindR (gfs_write ops f off data st) (\<lambda>(_, st). Inr ([], st)))"
| "run_client_op fuel ops (CRead f off sz) st =
     map_option (\<lambda>r. bindR r (\<lambda>(d, st). Inr ([d], st))) (gfs_read fuel ops f off sz st)"
| "run_client_op fuel ops (CDelete f) st = Some (bindR (deletee ops f st) (\<lambda>st. Inr ([], st)))"

fun run_client :: "nat \<Rightarrow> 's gfs_ops \<Rightarrow> client_op list \<Rightarrow> 's \<Rightarrow> (string list \<times> 's) result option" where
  "run_client fuel ops [] st = Some (Inr ([], st))"
| "run_client fuel ops (x # xs) st =
     (case run_client_op fuel ops x st of
        Some (Inr (out, st)) \<Rightarrow> map_option (\<lambda>r. bindR r (\<lambda>(outs, st). Inr (out @ outs, st))) (run_client fuel ops xs st)
      | e \<Rightarrow> e)"

definition testCreateAndRead :: "client_op list" where
  "testCreateAndRead = [CCreate ''test-02'', CWrite ''test-02'' 13 ''motherfuckerImthebest'', CRead ''test-02'' 16 8]"

definition testFunctional :: "client_op list" where
  "testFunctional =
    [CCreate ''functional-test-01'', CWrite ''functional-test-01'' 0 ''bon bu jour le'', CRead ''functional-test-01'' 0 8,
     CCreate ''functional-test-02'', CWrite ''functional-test-02'' 0 ''dahuo kankan chichu bu chichu'', CRead ''functional-test-02'' 0 20,
     CCreate ''functional-test-03'', CWrite ''functional-test-03'' 0 ''abcdefghijklmn'', CRead ''functional-test-03'' 0 10,
     CWrite ''functional-test-01'' 7 ''yume wo oi tuduketa'', CRead ''functional-test-01'' 0 20,
     CCreate ''functional-test-04'', CWrite ''functional-test-04'' 0 ''soshite koko made kita'', CRead ''functional-test-04'' 0 10,
     CCreate ''functional-test-05'', CWrite ''functional-test-05'' 0 ''demo doushite kana'', CRead ''functional-test-05'' 0 10,
     CWrite ''functional-test-02'' 7 ''atui namida ga tomaranai'', CRead ''functional-test-02'' 0 20,
     CDelete ''functional-test-03'',
     CCreate ''functional-test-03'', CWrite ''functional-test-03'' 0 ''utumuki kaketa toki'', CRead ''functional-test-03'' 0 10,
     CCreate ''functional-test-06'', CWrite ''functional-test-06'' 0 ''kimi no kao ga mieta'', CRead ''functional-test-06'' 0 10,
     CDelete ''functional-test-02'']"

definition testConsistency :: "client_op list" where
  "testConsistency =
    [CCreate ''consistency-test-01'', CWrite ''consistency-test-01'' 0 ''bon bu jour le'', CRead ''consistency-test-01'' 0 8,
     CCreate ''consistency-test-02'', CWrite ''consistency-test-02'' 0 ''dahuo kankan chichu bu chichu'', CRead ''consistency-test-02'' 0 20,
     CCreate ''consistency-test-03'', CWrite ''consistency-test-03'' 0 ''abcdefghijklmn'', CRead ''consistency-test-03'' 0 10,
     CWrite ''consistency-test-01'' 7 ''yume wo o i tu du ke ta'', CRead ''consistency-test-01'' 0 20]"

definition testConsistency2 :: "client_op list" where
  "testConsistency2 =
    [CCreate ''consistency2-test-01'', CWrite ''consistency2-test-01'' 0 ''xiangwanxiangwanxiangwan'', CRead ''consistency2-test-01'' 0 8,
     CCreate ''consistency2-test-02'', CWrite ''consistency2-test-02'' 0 ''bzhanguanzhujiaranjintainchishenme'', CRead ''consistency2-test-02'' 0 20,
     CCreate ''consistency2-test-03'', CWrite ''consistency2-test-03'' 0 ''leidayaoquankai'', CRead ''consistency2-test-03'' 0 10,
     CWrite ''consistency2-test-01'' 7 ''wojiehsounidetiaozhan'', CRead ''consistency2-test-01'' 0 20]"

section \<open>The specification\<close>

type_synonym files = "string \<rightharpoonup> (nat \<Rightarrow> char option)"

definition zero_file :: "nat \<Rightarrow> char option" where
  "zero_file p = (if p < chunk_size then Some (CHR 0x00) else None)"

fun spec_op :: "(string \<Rightarrow> bool) \<Rightarrow> client_op \<Rightarrow> files \<Rightarrow> (string list \<times> files) option" where
  "spec_op ok (CCreate f) F = (case F f of Some _ \<Rightarrow> Some ([], F) | None \<Rightarrow> if ok f then Some ([], F(f \<mapsto> zero_file)) else None)"
| "spec_op ok (CWrite f off data) F =
     (case F f of
        None \<Rightarrow> Some ([], F)
      | Some b \<Rightarrow>
          if data \<noteq> [] \<and> unat off + length data < 2 ^ 63 \<and>
             (unat off mod chunk_size + length data < chunk_size \<longrightarrow> b (unat off) \<noteq> None)
          then Some ([], F(f \<mapsto> bytes_written (unat off) data b)) else None)"
| "spec_op ok (CRead f off sz) F =
     (case F f of
        None \<Rightarrow> None
      | Some b \<Rightarrow>
          if unat off mod chunk_size + unat sz < 2 * chunk_size \<and> list_all (\<lambda>p. b p \<noteq> None) [unat off..<unat off + unat sz]
          then Some ([map (\<lambda>p. the (b p)) [unat off..<unat off + unat sz]], F) else None)"
| "spec_op ok (CDelete f) F = Some ([], F(f := None))"

fun spec_run :: "(string \<Rightarrow> bool) \<Rightarrow> client_op list \<Rightarrow> files \<Rightarrow> (string list \<times> files) option" where
  "spec_run ok [] F = Some ([], F)"
| "spec_run ok (x # xs) F =
     (case spec_op ok x F of None \<Rightarrow> None | Some (out, F) \<Rightarrow> map_option (\<lambda>(outs, F). (out @ outs, F)) (spec_run ok xs F))"

lemma file_bytes_empty: "file_bytes ((\<lambda>_. None)(0 \<mapsto> \<lambda>_. CHR 0x00)) = zero_file"
  by (auto simp: file_bytes_def zero_file_def fun_eq_iff div_eq_0_iff)

context chunk_store begin

definition files_of :: "'s \<Rightarrow> files" where
  "files_of st f = (if has_file st f then Some (bytes st f) else None)"

lemma files_of_simps: "has_file st f \<Longrightarrow> files_of st f = Some (bytes st f)" "\<not> has_file st f \<Longrightarrow> files_of st f = None"
  by (simp_all add: files_of_def)

lemma files_create:
  assumes "inv st" "\<not> has_file st f" "good_name f"
  shows "\<exists>st'. create ops f st = Inr (True, st') \<and> inv st' \<and> files_of st' = (files_of st)(f \<mapsto> zero_file)"
proof -
  obtain st' where st': "op_newfile ops f st = Inr (0, st')" "inv st'" "has_file st' = (has_file st)(f := True)"
    "content st' = (content st)((f, 0) \<mapsto> \<lambda>_. CHR 0x00)"
    using new_file [OF assms] by blast
  have "content st (f, i) = None" for i
    using content_file [OF assms(1), of f i] assms(2) by (cases "content st (f, i)") auto
  then have "bytes st' f = zero_file" "\<forall>g. g \<noteq> f \<longrightarrow> bytes st' g = bytes st g"
    using content_bytes [OF st'(4)] file_bytes_empty by simp_all
  then have "files_of st' = (files_of st)(f \<mapsto> zero_file)"
    by (auto simp: files_of_def st'(3) fun_eq_iff)
  then show ?thesis using st'(1,2) by (simp add: create_def)
qed

lemma files_write:
  assumes "inv st" "files_of st f = Some b" "data \<noteq> []" "unat off + length data < 2 ^ 63"
    and "unat off mod chunk_size + length data < chunk_size \<longrightarrow> b (unat off) \<noteq> None"
  shows "\<exists>st'. gfs_write ops f off data st = Inr (True, st') \<and> inv st' \<and> files_of st' = (files_of st)(f \<mapsto> bytes_written (unat off) data b)"
proof -
  have f: "has_file st f" "b = bytes st f" using assms(2) by (auto simp: files_of_def split: if_splits)
  have "unat off mod chunk_size + length data < chunk_size \<Longrightarrow> content st (f, unat off div chunk_size) \<noteq> None"
    using assms(5) by (auto simp: f(2) bytes_def file_bytes_def)
  from write_ok [OF assms(1) f(1) assms(3,4) this] obtain st' where
    st': "gfs_write ops f off data st = Inr (True, st')" "stores st f (unat off) data st'" by blast
  then have "files_of st' = (files_of st)(f \<mapsto> bytes_written (unat off) data b)"
    using f by (intro ext) (auto simp: stores_def files_of_def)
  then show ?thesis using st' by (simp add: stores_def)
qed

lemma files_delete: "inv st \<Longrightarrow> \<exists>st'. deletee ops f st = Inr st' \<and> inv st' \<and> files_of st' = (files_of st)(f := None)"
  using delete_file [of st f] by (auto simp: deletee_def files_of_def bytes_def fun_eq_iff)

lemma op_refines:
  assumes "inv st" "1 < fuel" "spec_op good_name x (files_of st) = Some (out, F)"
  shows "\<exists>st'. run_client_op fuel ops x st = Some (Inr (out, st')) \<and> inv st' \<and> files_of st' = F"
proof (cases x)
  case (CCreate f)
  show ?thesis
  proof (cases "has_file st f")
    case True
    then show ?thesis using assms(1,3) old_file [OF assms(1) True] by (simp add: CCreate create_def files_of_simps)
  next
    case False
    then show ?thesis using assms(3) files_create [OF assms(1) False] by (auto simp: CCreate files_of_simps split: if_splits)
  qed
next
  case (CWrite f off data)
  show ?thesis
  proof (cases "files_of st f")
    case None
    then have "\<not> has_file st f" by (auto simp: files_of_def)
    then show ?thesis using assms(1,3) write_no_file [OF assms(1)] None by (simp add: CWrite)
  next
    case (Some b)
    then have w: "data \<noteq> []" "unat off + length data < 2 ^ 63" "unat off mod chunk_size + length data < chunk_size \<longrightarrow> b (unat off) \<noteq> None"
      "out = []" "F = (files_of st)(f \<mapsto> bytes_written (unat off) data b)"
      using assms(3) by (simp_all add: CWrite split: if_split_asm)
    then show ?thesis using files_write [OF assms(1) Some w(1-3)] by (auto simp: CWrite)
  qed
next
  case (CRead f off sz)
  then obtain b where b: "files_of st f = Some b" "unat off mod chunk_size + unat sz < 2 * chunk_size"
    "\<And>p. unat off \<le> p \<Longrightarrow> p < unat off + unat sz \<Longrightarrow> b p \<noteq> None"
    "out = [map (\<lambda>p. the (b p)) [unat off..<unat off + unat sz]]" "F = files_of st"
    using assms(3) by (auto simp: list_all_iff split: option.splits if_splits)
  then have "b = bytes st f" by (simp add: files_of_def split: if_splits)
  then show ?thesis using read_ok [OF assms(1) b(2) assms(2), of f] b assms(1) by (simp add: CRead)
next
  case (CDelete f)
  then show ?thesis using assms(3) files_delete [OF assms(1), of f] by auto
qed

lemma run_refines:
  assumes "inv st" "1 < fuel" "spec_run good_name xs (files_of st) = Some (outs, F)"
  shows "\<exists>st'. run_client fuel ops xs st = Some (Inr (outs, st')) \<and> inv st' \<and> files_of st' = F"
  using assms(1,3)
proof (induction xs arbitrary: st outs)
  case (Cons x xs)
  obtain out F1 outs' where x: "spec_op good_name x (files_of st) = Some (out, F1)"
    and xs: "spec_run good_name xs F1 = Some (outs', F)" "outs = out @ outs'"
    using Cons.prems(2) by (auto split: option.splits)
  obtain st1 where st1: "run_client_op fuel ops x st = Some (Inr (out, st1))" "inv st1" "files_of st1 = F1"
    using op_refines [OF Cons.prems(1) assms(2) x] by blast
  then show ?case using Cons.IH [OF st1(2)] xs by auto
qed simp

end

section \<open>The cluster\<close>

definition cl_files :: "cluster \<Rightarrow> files" where
  "cl_files st f = (if cl_has_file st f then Some (file_bytes (\<lambda>i. cl_content st (f, i))) else None)"

lemma cl_files_gfs: "cl_files = gfs.files_of"
  by (simp add: fun_eq_iff cl_files_def gfs.files_of_def gfs.bytes_def)

text \<open>
  C3: The file system as seen by one client is a map from names to bytes: whatever sequence of creations, writes, reads and deletions it runs on a healthy cluster,
  as long as none of them goes wrong in the specification, the program ends, prints what the specification prints, and leaves a healthy cluster with
  the files of the specification.
\<close>

theorem client_program_refines:
  assumes "cl_inv st" and "1 < fuel" and "spec_run creatable xs (cl_files st) = Some (outs, F)"
  shows "\<exists>st'. run_client fuel (cluster_ops stamp) xs st = Some (Inr (outs, st')) \<and> cl_inv st' \<and> cl_files st' = F"
  using gfs.run_refines [OF assms(1,2), of xs outs F stamp] assms(3) by (simp add: cl_files_gfs)

section \<open>The test programs\<close>

text \<open>A read of what the last write of the file wrote, and of what an earlier write wrote in front of it.\<close>

lemma spec_read_written:
  assumes "F f = Some (bytes_written (unat off) data b)" "unat off mod chunk_size + unat sz < 2 * chunk_size"
    and "unat sz \<le> length data"
  shows "spec_op ok (CRead f off sz) F = Some ([take (unat sz) data], F)"
  using assms bytes_written_read [of "unat off" "unat off" "unat sz" data b] by (auto simp: list_all_iff bytes_written_def)

lemmas program_simps = creatable_def chunk_size_def zero_file_def bytes_written_def upt_rec_numeral upt_rec

lemma testCreateAndRead_spec:
  "F ''test-02'' = None \<Longrightarrow> \<exists>F'. spec_run creatable testCreateAndRead F = Some ([''herfucke''], F')"
  by (simp add: testCreateAndRead_def program_simps)

lemma testConsistency_spec:
  "\<forall>f \<in> {''consistency-test-01'', ''consistency-test-02'', ''consistency-test-03''}. F f = None \<Longrightarrow>
   \<exists>F'. spec_run creatable testConsistency F =
     Some ([''bon bu j'', ''dahuo kankan chichu '', ''abcdefghij'', ''bon bu yume wo o i t''], F')"
  by (simp add: testConsistency_def program_simps)

lemma testConsistency2_spec:
  "\<forall>f \<in> {''consistency2-test-01'', ''consistency2-test-02'', ''consistency2-test-03''}. F f = None \<Longrightarrow>
   \<exists>F'. spec_run creatable testConsistency2 F =
     Some ([''xiangwan'', ''bzhanguanzhujiaranji'', ''leidayaoqu'', ''xiangwawojiehsounide''], F')"
  by (simp add: testConsistency2_def program_simps)

lemma testFunctional_spec:
  "\<forall>f \<in> {''functional-test-01'', ''functional-test-02'', ''functional-test-03'', ''functional-test-04'', ''functional-test-05'', ''functional-test-06''}.
     F f = None \<Longrightarrow>
   \<exists>F'. spec_run creatable testFunctional F =
     Some ([''bon bu j'', ''dahuo kankan chichu '', ''abcdefghij'', ''bon bu yume wo oi tu'', ''soshite ko'', ''demo doush'', ''dahuo katui namida g'',
            ''utumuki ka'', ''kimi no ka''], F')"
  by (simp add: testFunctional_def program_simps)

text \<open>What the test programs print, on every healthy cluster that does not have their files yet.\<close>

theorem test_programs_print:
  assumes "cl_inv st" and "1 < fuel"
  shows "\<not> cl_has_file st ''test-02'' \<Longrightarrow>
      \<exists>st'. run_client fuel (cluster_ops stamp) testCreateAndRead st = Some (Inr ([''herfucke''], st')) \<and> cl_inv st'"
    and "\<forall>f \<in> {''consistency-test-01'', ''consistency-test-02'', ''consistency-test-03''}. \<not> cl_has_file st f \<Longrightarrow>
      \<exists>st'. run_client fuel (cluster_ops stamp) testConsistency st =
        Some (Inr ([''bon bu j'', ''dahuo kankan chichu '', ''abcdefghij'', ''bon bu yume wo o i t''], st')) \<and> cl_inv st'"
    and "\<forall>f \<in> {''consistency2-test-01'', ''consistency2-test-02'', ''consistency2-test-03''}. \<not> cl_has_file st f \<Longrightarrow>
      \<exists>st'. run_client fuel (cluster_ops stamp) testConsistency2 st =
        Some (Inr ([''xiangwan'', ''bzhanguanzhujiaranji'', ''leidayaoqu'', ''xiangwawojiehsounide''], st')) \<and> cl_inv st'"
proof -
  have run: "\<exists>st'. run_client fuel (cluster_ops stamp) xs st = Some (Inr (outs, st')) \<and> cl_inv st'"
    if "\<exists>F'. spec_run creatable xs (cl_files st) = Some (outs, F')" for xs outs
    using that gfs.run_refines [OF assms, of xs outs _ stamp] by (auto simp: cl_files_gfs)
  note none = cl_files_def [of st]
  show "\<not> cl_has_file st ''test-02'' \<Longrightarrow>
      \<exists>st'. run_client fuel (cluster_ops stamp) testCreateAndRead st = Some (Inr ([''herfucke''], st')) \<and> cl_inv st'"
    by (rule run, rule testCreateAndRead_spec) (simp add: none)
  show "\<forall>f \<in> {''consistency-test-01'', ''consistency-test-02'', ''consistency-test-03''}. \<not> cl_has_file st f \<Longrightarrow>
      \<exists>st'. run_client fuel (cluster_ops stamp) testConsistency st =
        Some (Inr ([''bon bu j'', ''dahuo kankan chichu '', ''abcdefghij'', ''bon bu yume wo o i t''], st')) \<and> cl_inv st'"
    by (rule run, rule testConsistency_spec) (simp add: none)
  show "\<forall>f \<in> {''consistency2-test-01'', ''consistency2-test-02'', ''consistency2-test-03''}. \<not> cl_has_file st f \<Longrightarrow>
      \<exists>st'. run_client fuel (cluster_ops stamp) testConsistency2 st =
        Some (Inr ([''xiangwan'', ''bzhanguanzhujiaranji'', ''leidayaoqu'', ''xiangwawojiehsounide''], st')) \<and> cl_inv st'"
    by (rule run, rule testConsistency2_spec) (simp add: none)
qed

theorem client_program_refines_witness:
  "\<exists>st'. run_client 2 (cluster_ops demo_stamp) testFunctional demo_cluster =
     Some (Inr ([''bon bu j'', ''dahuo kankan chichu '', ''abcdefghij'', ''bon bu yume wo oi tu'', ''soshite ko'', ''demo doush'', ''dahuo katui namida g'',
       ''utumuki ka'', ''kimi no ka''], st')) \<and> cl_inv st'"
proof -
  have none: "cl_files demo_cluster f = None" for f by (simp add: cl_files_def cl_has_file_def demo_cluster_def)
  then obtain F' where "spec_run creatable testFunctional (cl_files demo_cluster) =
      Some ([''bon bu j'', ''dahuo kankan chichu '', ''abcdefghij'', ''bon bu yume wo oi tu'', ''soshite ko'', ''demo doush'', ''dahuo katui namida g'',
       ''utumuki ka'', ''kimi no ka''], F')"
    using testFunctional_spec [of "cl_files demo_cluster"] by auto
  from client_program_refines [OF demo_cluster_inv(1) _ this, of 2 demo_stamp] show ?thesis by auto
qed

end
